(* ===== verification/Prelude.thy ===== *)
theory Prelude
  imports Complex_Main "HOL-Library.Word" "HOL-Library.AList"
begin

text \<open>
  What every other theory shares: the machine bytes the program moves, the exceptions it
  raises, Python's slices and ranges, and the record of the code that is not in this
  repository (AES-GCM, LZMA, SHA-256) with the documented behaviour the program relies on.
\<close>

section \<open>Bytes, times, exceptions\<close>

type_synonym byte = "8 word"
type_synonym bytes = "byte list"

text \<open>Clock readings and intervals in seconds. Python's floats are read as rationals.\<close>

type_synonym time = rat

datatype pyerr =
    KeyError | IndexError | ValueError | ZeroDivisionError | TypeError | RuntimeError
  | OverflowError | TimeoutError | AuthError | FileNotFoundError | OSError | EOFError
  | InvalidTag | LZMAError | AttributeError | AssertionError | TrustGroupCompromised

text \<open>A call either raises (\<open>Inl\<close>) or returns (\<open>Inr\<close>).\<close>

type_synonym 'a res = "pyerr + 'a"

named_theorems slice_simps \<open>how slices and slice assignments compose\<close>
named_theorems motion_simps \<open>what one hop of a box does to its fields\<close>

definition map_res :: "('a \<Rightarrow> 'b) \<Rightarrow> 'a res \<Rightarrow> 'b res" where
  "map_res f r = (case r of Inl e \<Rightarrow> Inl e | Inr x \<Rightarrow> Inr (f x))"

definition of_option :: "pyerr \<Rightarrow> 'a option \<Rightarrow> 'a res" where
  "of_option e r = (case r of None \<Rightarrow> Inl e | Some x \<Rightarrow> Inr x)"

fun mapM :: "('a \<Rightarrow> 'b res) \<Rightarrow> 'a list \<Rightarrow> 'b list res" where
  "mapM f [] = Inr []"
| "mapM f (x # xs) =
     (case f x of Inl e \<Rightarrow> Inl e
      | Inr y \<Rightarrow> (case mapM f xs of Inl e \<Rightarrow> Inl e | Inr ys \<Rightarrow> Inr (y # ys)))"

lemma map_res_simps [simp]: "map_res f (Inl e) = Inl e" "map_res f (Inr x) = Inr (f x)"
  by (simp_all add: map_res_def)

lemma map_res_iff: "map_res f r = Inl e \<longleftrightarrow> r = Inl e" "map_res f r = Inr y \<longleftrightarrow> (\<exists>x. r = Inr x \<and> y = f x)"
  by (cases r; auto)+

lemma of_option_simps [simp]: "of_option e None = Inl e" "of_option e (Some x) = Inr x"
  by (simp_all add: of_option_def)

lemma mapM_Inr: "(\<And>x. x \<in> set xs \<Longrightarrow> f x = Inr (g x)) \<Longrightarrow> mapM f xs = Inr (map g xs)"
  by (induction xs) auto

lemma mapM_raises: "mapM f xs = Inl e \<Longrightarrow> \<exists>x \<in> set xs. f x = Inl e"
  by (induction xs) (auto split: sum.splits)

lemma mapM_error:
  assumes "\<And>x e. x \<in> set xs \<Longrightarrow> f x = Inl e \<Longrightarrow> e = err" "y \<in> set xs" "f y = Inl err"
  shows "mapM f xs = Inl err"
proof (cases "mapM f xs")
  case (Inl e)
  then obtain x where "x \<in> set xs" "f x = Inl e" using mapM_raises by blast
  then have "e = err" using assms(1) by blast
  then show ?thesis using Inl by simp
next
  case (Inr ys)
  then have "\<forall>x \<in> set xs. \<exists>y. f x = Inr y" by (induction xs arbitrary: ys) (auto split: sum.splits)
  then show ?thesis using assms(2,3) by fastforce
qed

lemma mapM_length: "mapM f xs = Inr ys \<Longrightarrow> length ys = length xs"
  by (induction xs arbitrary: ys) (auto split: sum.splits)

text \<open>\<open>xs[i]\<close> for a nonnegative index.\<close>

definition py_index :: "'a list \<Rightarrow> nat \<Rightarrow> 'a res" where
  "py_index xs i = (if i < length xs then Inr (xs ! i) else Inl IndexError)"

lemma mod_in_range: "a < n \<Longrightarrow> b mod n < (n::nat)"
  by (rule mod_less_divisor) simp

section \<open>Dictionaries\<close>

text \<open>
  A \<open>dict\<close> is an association list with distinct keys: assigning to an existing key keeps its
  position and a new key goes to the end, as in Python, so iteration order is modelled too.
\<close>

type_synonym ('k, 'v) dict = "('k \<times> 'v) list"

definition dict_get :: "('k, 'v) dict \<Rightarrow> 'k \<Rightarrow> 'v option" where
  "dict_get d k = map_of d k"

definition dict_set :: "'k \<Rightarrow> 'v \<Rightarrow> ('k, 'v) dict \<Rightarrow> ('k, 'v) dict" where
  "dict_set k v d = AList.update k v d"

definition dict_del :: "'k \<Rightarrow> ('k, 'v) dict \<Rightarrow> ('k, 'v) dict" where
  "dict_del k d = AList.delete k d"

definition dict_keys :: "('k, 'v) dict \<Rightarrow> 'k list" where
  "dict_keys d = map fst d"

definition dict_map :: "('v \<Rightarrow> 'w) \<Rightarrow> ('k, 'v) dict \<Rightarrow> ('k, 'w) dict" where
  "dict_map f d = map (\<lambda>(k, v). (k, f v)) d"

definition dict_ok :: "('k, 'v) dict \<Rightarrow> bool" where
  "dict_ok d \<longleftrightarrow> distinct (map fst d)"

lemma dict_get_empty [simp]: "dict_get [] k = None"
  by (simp add: dict_get_def)

lemma dict_get_set [simp]: "dict_get (dict_set k v d) j = (if j = k then Some v else dict_get d j)"
  by (simp add: dict_get_def dict_set_def update_conv')

lemma dict_get_del [simp]: "dict_get (dict_del k d) j = (if j = k then None else dict_get d j)"
  by (simp add: dict_get_def dict_del_def delete_conv')

lemma dict_get_map [simp]: "dict_get (dict_map f d) k = map_option f (dict_get d k)"
  by (simp add: dict_get_def dict_map_def map_of_map)

lemma dict_keys_iff: "k \<in> set (dict_keys d) \<longleftrightarrow> dict_get d k \<noteq> None"
  by (simp add: dict_get_def dict_keys_def map_of_eq_None_iff)

lemma dict_keys_set: "dict_get d k = None \<Longrightarrow> dict_keys (dict_set k v d) = dict_keys d @ [k]"
  by (induction d) (auto simp: dict_get_def dict_keys_def dict_set_def split: if_splits)

lemma dict_keys_replace: "dict_get d k = Some u \<Longrightarrow> dict_keys (dict_set k v d) = dict_keys d"
  by (induction d) (auto simp: dict_get_def dict_keys_def dict_set_def split: if_splits)

lemma dict_empty:
  assumes "\<And>k. dict_get d k = None"
  shows "d = []"
  using assms [of "fst (hd d)"] by (cases d) (auto simp: dict_get_def)

lemma dict_ok_simps [simp]:
  "dict_ok []" "dict_ok d \<Longrightarrow> dict_ok (dict_set k v d)" "dict_ok d \<Longrightarrow> dict_ok (dict_del k d)"
  "dict_ok (dict_map f d) = dict_ok d"
  by (simp_all add: dict_ok_def dict_set_def dict_del_def dict_map_def distinct_update
      distinct_delete comp_def split_def)

lemma dict_get_mem: "dict_ok d \<Longrightarrow> (k, v) \<in> set d \<longleftrightarrow> dict_get d k = Some v"
  by (simp add: dict_ok_def dict_get_def)

section \<open>Python slices, slice assignment and ranges\<close>

text \<open>\<open>xs[i:j]\<close> for nonnegative bounds: out-of-range bounds are clamped.\<close>

definition py_slice :: "'a list \<Rightarrow> nat \<Rightarrow> nat \<Rightarrow> 'a list" where
  "py_slice xs i j = take (j - i) (drop i xs)"

text \<open>\<open>xs[i:j] = ys\<close> on a \<open>bytearray\<close>: the slice is replaced, whatever the length of \<open>ys\<close>.\<close>

definition slice_assign :: "'a list \<Rightarrow> nat \<Rightarrow> nat \<Rightarrow> 'a list \<Rightarrow> 'a list" where
  "slice_assign xs i j ys = take i xs @ ys @ drop (max i j) xs"

text \<open>\<open>bytes(n)\<close>, \<open>bytearray(n)\<close>: n zero bytes.\<close>

definition zeros :: "nat \<Rightarrow> bytes" where
  "zeros n = replicate n 0"

text \<open>\<open>range(lo, hi, step)\<close> for a positive step; a zero step raises in Python and the callers
  model that.\<close>

function py_range :: "nat \<Rightarrow> nat \<Rightarrow> nat \<Rightarrow> nat list" where
  "py_range lo hi st = (if lo < hi \<and> 0 < st then lo # py_range (lo + st) hi st else [])"
  by pat_completeness auto
termination
  by (relation "measure (\<lambda>(lo, hi, st). hi - lo)") auto

declare py_range.simps [simp del]

lemma length_zeros [simp]: "length (zeros n) = n"
  by (simp add: zeros_def)

lemma zeros_0 [simp]: "zeros 0 = []"
  by (simp add: zeros_def)

lemma zeros_nth: "i < n \<Longrightarrow> zeros n ! i = 0"
  by (simp add: zeros_def)

lemma zeros_add: "zeros (m + n) = zeros m @ zeros n"
  by (simp add: zeros_def replicate_add)

lemma py_range_stop [simp]: "hi \<le> lo \<Longrightarrow> py_range lo hi st = []"
  by (simp add: py_range.simps)

lemma py_range_step: "lo < hi \<Longrightarrow> 0 < st \<Longrightarrow> py_range lo hi st = lo # py_range (lo + st) hi st"
  by (simp add: py_range.simps)

lemma py_range_single: "lo < hi \<Longrightarrow> hi \<le> lo + st \<Longrightarrow> py_range lo hi st = [lo]"
  by (simp add: py_range.simps)

lemma length_slice_assign [slice_simps]:
  "i + length ys = j \<Longrightarrow> j \<le> length xs \<Longrightarrow> length (slice_assign xs i j ys) = length xs"
  by (auto simp: slice_assign_def max_def)

lemma length_py_slice: "length (py_slice xs i j) = min (j - i) (length xs - i)"
  by (simp add: py_slice_def min.commute)

lemma length_py_slice_in [slice_simps]: "i \<le> j \<Longrightarrow> j \<le> length xs \<Longrightarrow> length (py_slice xs i j) = j - i"
  by (simp add: py_slice_def)

lemma py_slice_all [simp]: "py_slice xs 0 (length xs) = xs"
  by (simp add: py_slice_def)

lemma py_slice_same [slice_simps]:
  "i + length ys = j \<Longrightarrow> j \<le> length xs \<Longrightarrow> py_slice (slice_assign xs i j ys) i j = ys"
  by (auto simp: py_slice_def slice_assign_def max_def)

text \<open>A slice assignment of the same length leaves the slices beside it alone.\<close>

lemma py_slice_drop_take: "py_slice xs a b = drop a (take b xs)"
  by (simp add: py_slice_def drop_take)

lemma py_slice_before [slice_simps]:
  assumes "i + length ys = j" and "j \<le> length xs" and "b \<le> i"
  shows "py_slice (slice_assign xs i j ys) a b = py_slice xs a b"
proof -
  have "take b (slice_assign xs i j ys) = take b xs"
    using assms by (simp add: slice_assign_def min_absorb1)
  then show ?thesis by (simp add: py_slice_drop_take)
qed

lemma py_slice_after [slice_simps]:
  assumes "i + length ys = j" and "j \<le> length xs" and "j \<le> a"
  shows "py_slice (slice_assign xs i j ys) a b = py_slice xs a b"
  using assms by (auto simp: py_slice_def slice_assign_def max_def)

lemma py_slice_disjoint:
  assumes "i + length ys = j" and "j \<le> length xs" and "b \<le> i \<or> j \<le> a"
  shows "py_slice (slice_assign xs i j ys) a b = py_slice xs a b"
  using assms by (auto intro: py_slice_before py_slice_after)

text \<open>\<open>del xs[i:j]\<close>: what is after the cut moves back by its length.\<close>

definition slice_del :: "'a list \<Rightarrow> nat \<Rightarrow> nat \<Rightarrow> 'a list" where
  "slice_del xs i j = take i xs @ drop (max i j) xs"

lemma length_slice_del: "i \<le> j \<Longrightarrow> j \<le> length xs \<Longrightarrow> length (slice_del xs i j) = length xs - (j - i)"
  by (simp add: slice_del_def max_def)

lemma slice_del_before: "b \<le> i \<Longrightarrow> i \<le> length xs \<Longrightarrow> py_slice (slice_del xs i j) a b = py_slice xs a b"
  by (simp add: slice_del_def py_slice_drop_take min_absorb1)

lemma slice_del_after:
  assumes "i \<le> j" "j \<le> length xs" "j \<le> a"
  shows "py_slice (slice_del xs i j) (a - (j - i)) (b - (j - i)) = py_slice xs a b"
proof -
  have "drop (a - (j - i)) (slice_del xs i j) = drop a xs"
    using assms by (simp add: slice_del_def max_def)
  moreover have "b - (j - i) - (a - (j - i)) = b - a"
    using assms by simp
  ultimately show ?thesis by (simp add: py_slice_def)
qed

lemma py_slice_append1: "b \<le> length xs \<Longrightarrow> py_slice (xs @ ys) a b = py_slice xs a b"
  by (cases "a \<le> b") (auto simp: py_slice_def)

lemma py_slice_append2:
  "py_slice (xs @ ys) (length xs) (length xs + length ys) = ys"
  by (simp add: py_slice_def)

section \<open>Copying a buffer piece by piece\<close>

text \<open>
  The loop that every box runs on a hop: \<open>for i in range(0, len(src), bs): chunk = src[i:i+bs];
  dst[i:i+len(chunk)] = chunk\<close>.
\<close>

definition copy_piece :: "nat \<Rightarrow> 'a list \<Rightarrow> nat \<Rightarrow> 'a list \<Rightarrow> 'a list" where
  "copy_piece bs src i dst =
     (let chunk = py_slice src i (i + bs) in slice_assign dst i (i + length chunk) chunk)"

definition copy_pieces :: "nat \<Rightarrow> 'a list \<Rightarrow> 'a list \<Rightarrow> 'a list" where
  "copy_pieces bs src dst = fold (copy_piece bs src) (py_range 0 (length src) bs) dst"

lemma copy_piece_prefix:
  assumes "length dst = length src" and "take i dst = take i src" and "i < length src"
  shows "length (copy_piece bs src i dst) = length src"
    and "take (i + bs) (copy_piece bs src i dst) = take (i + bs) src"
proof -
  let ?c = "py_slice src i (i + bs)"
  have lc: "length ?c = min bs (length src - i)"
    by (simp add: length_py_slice)
  have eq: "copy_piece bs src i dst = take i src @ take bs (drop i src) @ drop (i + length ?c) dst"
    using assms by (simp add: copy_piece_def slice_assign_def Let_def py_slice_def)
  show "length (copy_piece bs src i dst) = length src"
    using assms lc by (simp add: eq)
  show "take (i + bs) (copy_piece bs src i dst) = take (i + bs) src"
    using assms lc by (auto simp: eq take_add min_def)
qed

lemma copy_pieces_fold:
  assumes "0 < bs" and "length dst = length src" and "take i dst = take i src"
  shows "fold (copy_piece bs src) (py_range i (length src) bs) dst = src"
  using assms
proof (induction i "length src" bs arbitrary: dst rule: py_range.induct)
  case (1 i bs)
  show ?case
  proof (cases "i < length src")
    case True
    then show ?thesis
      using 1 copy_piece_prefix [OF "1.prems"(2,3) True, of bs] by (simp add: py_range_step)
  next
    case False
    then show ?thesis using "1.prems" by simp
  qed
qed

text \<open>However large the pieces are, the whole buffer has moved when the loop is done.\<close>

lemma copy_pieces_all [simp]: "0 < bs \<Longrightarrow> length dst = length src \<Longrightarrow> copy_pieces bs src dst = src"
  by (simp add: copy_pieces_def copy_pieces_fold)

section \<open>Cutting a buffer into pieces\<close>

text \<open>\<open>[data[i:i+c] for i in range(lo, len(data), c)]\<close>: concatenated, the pieces are the data.\<close>

lemma concat_pieces:
  "0 < c \<Longrightarrow> length data \<le> hi \<Longrightarrow>
     concat (map (\<lambda>i. py_slice data i (i + c)) (py_range lo hi c)) = drop lo data"
proof (induction lo hi c rule: py_range.induct)
  case (1 lo hi c)
  show ?case
  proof (cases "lo < hi")
    case True
    then have "concat (map (\<lambda>i. py_slice data i (i + c)) (py_range lo hi c))
        = take c (drop lo data) @ drop (lo + c) data"
      using 1 by (simp add: py_range_step py_slice_def)
    also have "\<dots> = drop lo data"
      by (metis append_take_drop_id drop_drop add.commute)
    finally show ?thesis .
  next
    case False
    then show ?thesis using "1.prems" by simp
  qed
qed

lemma pieces_bounded: "p \<in> set (map (\<lambda>i. py_slice data i (i + c)) is) \<Longrightarrow> length p \<le> c"
  by (auto simp: py_slice_def)

end
