(* ===== verification/Environment.thy ===== *)
theory Environment
  imports Prelude
begin

text \<open>
  The code outside this repository that the program calls: AES-GCM from the
  \<open>cryptography\<close> package, \<open>lzma\<close>, \<open>hashlib.sha256\<close>, the page texts of a PDF from \<open>pypdf\<close> and
  the parts of an Office file from \<open>zipfile\<close>. They are the fields of a record that every operation using them takes as an argument; what the program relies on is stated
  by the predicates \<open>aead_ok\<close>, \<open>lzma_ok\<close> and \<open>sha_ok\<close>, which are premises of the theorems
  that need them. \<open>demo_env\<close> is one concrete choice for which all three hold, used by the
  witnesses only.
\<close>

record env =
  aes_encrypt :: "bytes \<Rightarrow> bytes \<Rightarrow> bytes \<Rightarrow> bytes res"
  aes_decrypt :: "bytes \<Rightarrow> bytes \<Rightarrow> bytes \<Rightarrow> bytes res"
  lzma_compress :: "nat \<Rightarrow> bytes \<Rightarrow> bytes"
  lzma_decompress :: "bytes \<Rightarrow> bytes res"
  sha256 :: "bytes \<Rightarrow> bytes"
  pdf_pages :: "bytes \<Rightarrow> string option list option"
  zip_read :: "bytes \<Rightarrow> string \<Rightarrow> bytes option"

text \<open>
  \<open>aes_encrypt E key nonce data\<close> is \<open>AESGCM(key).encrypt(nonce, data, None)\<close>: with a 256-bit
  key, a 96-bit nonce and less than 2 to the 31 bytes of data it returns the data's length plus
  a 16-byte tag, and decrypting under the same key and nonce gives the data back. A failed
  check is \<open>InvalidTag\<close>, a bad key length \<open>ValueError\<close>, too much data \<open>OverflowError\<close>.
\<close>

definition aead_ok :: "env \<Rightarrow> bool" where
  "aead_ok E \<longleftrightarrow>
     (\<forall>k n d. length k = 32 \<longrightarrow> length n = 12 \<longrightarrow> length d < 2 ^ 31 \<longrightarrow>
        (\<exists>ct. aes_encrypt E k n d = Inr ct \<and> length ct = length d + 16 \<and>
              aes_decrypt E k n ct = Inr d))"

text \<open>
  \<open>lzma.compress(data, preset=q)\<close> and \<open>lzma.decompress\<close>: a round trip, with a container that
  is never empty and that grows incompressible data by far less than a factor of two.
\<close>

definition lzma_ok :: "env \<Rightarrow> bool" where
  "lzma_ok E \<longleftrightarrow>
     (\<forall>q d. lzma_decompress E (lzma_compress E q d) = Inr d \<and>
            lzma_compress E q d \<noteq> [] \<and>
            (length d < 2 ^ 30 \<longrightarrow> length (lzma_compress E q d) < 2 ^ 31))"

definition sha_ok :: "env \<Rightarrow> bool" where
  "sha_ok E \<longleftrightarrow> (\<forall>m. length (sha256 E m) = 32)"

definition env_ok :: "env \<Rightarrow> bool" where
  "env_ok E \<longleftrightarrow> aead_ok E \<and> lzma_ok E \<and> sha_ok E"

lemma aead_okE:
  assumes "aead_ok E" "length k = 32" "length n = 12" "length d < 2 ^ 31"
  obtains ct where "aes_encrypt E k n d = Inr ct" "length ct = length d + 16"
    "aes_decrypt E k n ct = Inr d"
  using assms unfolding aead_ok_def by blast

lemma lzma_roundtrip: "lzma_ok E \<Longrightarrow> lzma_decompress E (lzma_compress E q d) = Inr d"
  and lzma_nonempty: "lzma_ok E \<Longrightarrow> lzma_compress E q d \<noteq> []"
  and lzma_bound: "lzma_ok E \<Longrightarrow> length d < 2 ^ 30 \<Longrightarrow> length (lzma_compress E q d) < 2 ^ 31"
  by (auto simp: lzma_ok_def)

lemma sha_length: "sha_ok E \<Longrightarrow> length (sha256 E m) = 32"
  by (simp add: sha_ok_def)

lemma env_okD: "env_ok E \<Longrightarrow> aead_ok E" "env_ok E \<Longrightarrow> lzma_ok E" "env_ok E \<Longrightarrow> sha_ok E"
  by (simp_all add: env_ok_def)

lemmas lzma_simps = lzma_roundtrip lzma_nonempty

section \<open>A concrete instance\<close>

text \<open>
  The demo cipher adds the key's first byte to every byte and uses it as the tag, so a key with
  another first byte is rejected; the demo compressor prefixes one byte; the demo digest repeats
  one more than the sum of the message.
\<close>

definition demo_encrypt :: "bytes \<Rightarrow> bytes \<Rightarrow> bytes \<Rightarrow> bytes res" where
  "demo_encrypt k n d =
     (if length k \<noteq> 32 then Inl ValueError
      else if 2 ^ 31 \<le> length d then Inl OverflowError
      else Inr (map (\<lambda>b. b + hd k) d @ replicate 16 (hd k)))"

definition demo_decrypt :: "bytes \<Rightarrow> bytes \<Rightarrow> bytes \<Rightarrow> bytes res" where
  "demo_decrypt k n c =
     (if length k \<noteq> 32 then Inl ValueError
      else if length c < 16 \<or> drop (length c - 16) c \<noteq> replicate 16 (hd k) then Inl InvalidTag
      else Inr (map (\<lambda>b. b - hd k) (take (length c - 16) c)))"

definition demo_decompress :: "bytes \<Rightarrow> bytes res" where
  "demo_decompress c = (case c of [] \<Rightarrow> Inl LZMAError | _ # d \<Rightarrow> Inr d)"

definition demo_env :: env where
  "demo_env = \<lparr>aes_encrypt = demo_encrypt, aes_decrypt = demo_decrypt,
     lzma_compress = (\<lambda>q d. 93 # d), lzma_decompress = demo_decompress,
     sha256 = (\<lambda>m. replicate 32 (sum_list m + 1)),
     pdf_pages = (\<lambda>d. if d = [] then None else Some [Some ''page'', None]),
     zip_read = (\<lambda>d part. if d = [] then None else Some [60])\<rparr>"

lemma demo_env_ok: "env_ok demo_env"
  by (auto simp: env_ok_def aead_ok_def lzma_ok_def sha_ok_def demo_env_def demo_encrypt_def
      demo_decrypt_def demo_decompress_def comp_def)

lemmas demo_env_simps = demo_env_def demo_encrypt_def demo_decrypt_def demo_decompress_def

end
