(* ===== verification/Splitter.thy ===== *)
theory Splitter
  imports Environment
begin

text \<open>
  \<open>vstorage/splitter.py\<close>: a file is cut into content, structure and metadata by its extension.
  A piece that is the file itself stays on disk as a \<open>FromFile\<close> marker. Python strings are
  lists of Latin-1 code points; the disk is a map from paths to contents.
\<close>

section \<open>Strings and paths\<close>

type_synonym disk = "string \<Rightarrow> bytes option"

text \<open>\<open>s.encode("utf-8")\<close>: one byte below 128, two bytes from 128 to 255.\<close>

definition utf8_char :: "char \<Rightarrow> bytes" where
  "utf8_char c =
     (let n = (of_char c :: nat) in
      if n < 128 then [of_nat n] else [of_nat (192 + n div 64), of_nat (128 + n mod 64)])"

definition encode_utf8 :: "string \<Rightarrow> bytes" where
  "encode_utf8 s = concat (map utf8_char s)"

definition lower_char :: "char \<Rightarrow> char" where
  "lower_char c =
     (let n = (of_char c :: nat) in
      if (65 \<le> n \<and> n \<le> 90) \<or> (192 \<le> n \<and> n \<le> 222 \<and> n \<noteq> 215) then char_of (n + 32) else c)"

definition py_lower :: "string \<Rightarrow> string" where
  "py_lower s = map lower_char s"

text \<open>\<open>f"{n}"\<close> and \<open>hexdigest()\<close>.\<close>

fun dec :: "nat \<Rightarrow> string" where
  "dec n = (if n < 10 then [char_of (48 + n)] else dec (n div 10) @ [char_of (48 + n mod 10)])"

declare dec.simps [simp del]

definition hex_digit :: "nat \<Rightarrow> char" where
  "hex_digit n = (if n < 10 then char_of (48 + n) else char_of (87 + n))"

definition hexdigest :: "bytes \<Rightarrow> string" where
  "hexdigest d = concat (map (\<lambda>b. [hex_digit (unat b div 16), hex_digit (unat b mod 16)]) d)"

text \<open>\<open>os.path.basename\<close>, and the second component of \<open>os.path.splitext\<close>: the last dot of the
  base name and what follows it, if something other than dots comes before that dot.\<close>

definition basename :: "string \<Rightarrow> string" where
  "basename p = rev (takeWhile (\<lambda>c. c \<noteq> CHR ''/'') (rev p))"

definition path_ext :: "string \<Rightarrow> string" where
  "path_ext p =
     (let base = basename p;
          suffix = rev (takeWhile (\<lambda>c. c \<noteq> CHR ''.'') (rev base));
          stem = take (length base - length suffix - 1) base
      in if CHR ''.'' \<in> set base \<and> list_ex (\<lambda>c. c \<noteq> CHR ''.'') stem then CHR ''.'' # suffix else [])"

definition lower_ext :: "string \<Rightarrow> string" where
  "lower_ext p = py_lower (path_ext p)"

section \<open>The extension tables\<close>

definition TEXT_LIKE_EXTS :: "string list" where
  "TEXT_LIKE_EXTS = [''.json'', ''.csv'', ''.txt'', ''.md'', ''.c'', ''.py'', ''.log'', ''.yaml'',
     ''.yml'', ''.toml'', ''.ini'', ''.html'', ''.htm'', ''.geojson'', ''.jsonl'', ''.xml'']"

definition OFFICE_MAIN_PART :: "(string, string) dict" where
  "OFFICE_MAIN_PART = [(''.docx'', ''word/document.xml''),
     (''.xlsx'', ''xl/worksheets/sheet1.xml''), (''.pptx'', ''ppt/slides/slide1.xml'')]"

definition ZIP_CONTAINER_EXTS :: "string list" where
  "ZIP_CONTAINER_EXTS = [''.docx'', ''.xlsx'', ''.pptx'']"

definition ALREADY_COMPRESSED_EXTS :: "string list" where
  "ALREADY_COMPRESSED_EXTS = [''.jpg'', ''.jpeg'', ''.png'', ''.gif'', ''.webp'', ''.mp4'', ''.mp3'',
     ''.aac'', ''.zip'', ''.gz'', ''.xz'', ''.bin'']"

definition HASH_CHUNK_SIZE :: nat where
  "HASH_CHUNK_SIZE = 4 * 1024 * 1024"

section \<open>Pieces\<close>

datatype piece = Bytes bytes | FromFile string

datatype which = Content | Structure | Metadata

record split_result =
  sr_content :: piece
  sr_structure :: piece
  sr_metadata :: bytes
  sr_reconstruct_from :: which

text \<open>\<open>os.path.getsize\<close> and a whole-file read raise for a path that is not there.\<close>

definition getsize :: "disk \<Rightarrow> string \<Rightarrow> nat res" where
  "getsize fs p = (case fs p of None \<Rightarrow> Inl FileNotFoundError | Some d \<Rightarrow> Inr (length d))"

definition piece_size :: "disk \<Rightarrow> piece \<Rightarrow> nat res" where
  "piece_size fs pc = (case pc of FromFile p \<Rightarrow> getsize fs p | Bytes b \<Rightarrow> Inr (length b))"

text \<open>The loop of \<open>_metadata_bytes_for_path\<close>: read a chunk, stop at an empty one, feed the rest
  to the hash. The digest of an updated hash object is the digest of the concatenation.\<close>

function hash_loop :: "bytes \<Rightarrow> nat \<Rightarrow> bytes \<Rightarrow> bytes" where
  "hash_loop raw pos fed =
     (let chunk = py_slice raw pos (pos + HASH_CHUNK_SIZE) in
      if chunk = [] then fed else hash_loop raw (pos + length chunk) (fed @ chunk))"
  by pat_completeness auto
termination
proof (relation "measure (\<lambda>(raw, pos, fed). length raw - pos)")
  fix raw :: bytes and pos fed chunk
  assume "chunk = py_slice raw pos (pos + HASH_CHUNK_SIZE)" "chunk \<noteq> []"
  then have "0 < length chunk" "pos < length raw"
    by (auto simp: py_slice_def split: if_splits)
  then show "((raw, pos + length chunk, fed @ chunk), (raw, pos, fed))
      \<in> measure (\<lambda>(raw, pos, fed). length raw - pos)" by (cases chunk) auto
qed simp

declare hash_loop.simps [simp del]

definition metadata_text :: "string \<Rightarrow> string \<Rightarrow> nat \<Rightarrow> bytes \<Rightarrow> bytes" where
  "metadata_text name ext sz digest =
     encode_utf8 (''name='' @ name @ [char_of (9::nat)] @ ''ext='' @ ext @ [char_of (9::nat)] @ ''size='' @ dec sz
       @ [char_of (9::nat)] @ ''sha256='' @ hexdigest digest)"

definition metadata_bytes_for_path :: "env \<Rightarrow> disk \<Rightarrow> string \<Rightarrow> bytes res" where
  "metadata_bytes_for_path E fs path =
     (case fs path of
        None \<Rightarrow> Inl FileNotFoundError
      | Some raw \<Rightarrow>
          Inr (metadata_text (basename path) (lower_ext path) (length raw)
                 (sha256 E (hash_loop raw 0 []))))"

text \<open>
  The extractions never raise: whatever goes wrong becomes empty content. A page without text
  counts as the empty string.
\<close>

fun join_lines :: "string list \<Rightarrow> string" where
  "join_lines [] = []"
| "join_lines [l] = l"
| "join_lines (l # ls) = l @ [char_of (10::nat)] @ join_lines ls"

definition pdf_text :: "env \<Rightarrow> bytes \<Rightarrow> bytes" where
  "pdf_text E raw =
     (case pdf_pages E raw of
        None \<Rightarrow> []
      | Some pages \<Rightarrow> encode_utf8 (join_lines (map (\<lambda>p. case p of None \<Rightarrow> [] | Some t \<Rightarrow> t) pages)))"

definition office_xml :: "env \<Rightarrow> bytes \<Rightarrow> string \<Rightarrow> bytes" where
  "office_xml E raw ext =
     (case dict_get OFFICE_MAIN_PART ext of
        None \<Rightarrow> []
      | Some part \<Rightarrow> (case zip_read E raw part of None \<Rightarrow> [] | Some xml \<Rightarrow> xml))"

definition extract_pdf_text_from_bytes :: "env \<Rightarrow> bytes \<Rightarrow> bytes" where
  "extract_pdf_text_from_bytes E raw = pdf_text E raw"

definition extract_office_xml_from_bytes :: "env \<Rightarrow> bytes \<Rightarrow> string \<Rightarrow> bytes" where
  "extract_office_xml_from_bytes E raw ext = office_xml E raw ext"

definition extract_pdf_text_from_path :: "env \<Rightarrow> disk \<Rightarrow> string \<Rightarrow> bytes" where
  "extract_pdf_text_from_path E fs path =
     (case fs path of None \<Rightarrow> [] | Some raw \<Rightarrow> pdf_text E raw)"

definition extract_office_xml_from_path :: "env \<Rightarrow> disk \<Rightarrow> string \<Rightarrow> string \<Rightarrow> bytes" where
  "extract_office_xml_from_path E fs path ext =
     (case fs path of None \<Rightarrow> [] | Some raw \<Rightarrow> office_xml E raw ext)"

section \<open>The two entry points\<close>

definition split_file :: "env \<Rightarrow> disk \<Rightarrow> string \<Rightarrow> split_result res" where
  "split_file E fs path =
     (let ext = lower_ext path in
      case metadata_bytes_for_path E fs path of
        Inl e \<Rightarrow> Inl e
      | Inr metadata \<Rightarrow> Inr
         (if ext = ''.pdf'' then
            \<lparr>sr_content = Bytes (extract_pdf_text_from_path E fs path), sr_structure = FromFile path,
             sr_metadata = metadata, sr_reconstruct_from = Structure\<rparr>
          else if ext \<in> set ZIP_CONTAINER_EXTS then
            \<lparr>sr_content = Bytes (extract_office_xml_from_path E fs path ext), sr_structure = FromFile path,
             sr_metadata = metadata, sr_reconstruct_from = Structure\<rparr>
          else if ext \<in> set ALREADY_COMPRESSED_EXTS then
            \<lparr>sr_content = Bytes [], sr_structure = FromFile path,
             sr_metadata = metadata, sr_reconstruct_from = Structure\<rparr>
          else
            \<lparr>sr_content = FromFile path, sr_structure = Bytes (encode_utf8 ext),
             sr_metadata = metadata, sr_reconstruct_from = Content\<rparr>))"

definition split_bytes :: "env \<Rightarrow> bytes \<Rightarrow> string \<Rightarrow> split_result" where
  "split_bytes E raw name_hint =
     (let ext = lower_ext name_hint;
          metadata = metadata_text (basename name_hint) ext (length raw) (sha256 E raw)
      in if ext = ''.pdf'' then
            \<lparr>sr_content = Bytes (extract_pdf_text_from_bytes E raw), sr_structure = Bytes raw,
             sr_metadata = metadata, sr_reconstruct_from = Structure\<rparr>
         else if ext \<in> set ZIP_CONTAINER_EXTS then
            \<lparr>sr_content = Bytes (extract_office_xml_from_bytes E raw ext), sr_structure = Bytes raw,
             sr_metadata = metadata, sr_reconstruct_from = Structure\<rparr>
         else if ext \<in> set ALREADY_COMPRESSED_EXTS then
            \<lparr>sr_content = Bytes [], sr_structure = Bytes raw,
             sr_metadata = metadata, sr_reconstruct_from = Structure\<rparr>
         else
            \<lparr>sr_content = Bytes raw, sr_structure = Bytes (encode_utf8 ext),
             sr_metadata = metadata, sr_reconstruct_from = Content\<rparr>)"

section \<open>What a piece stands for\<close>

definition resolve :: "disk \<Rightarrow> piece \<Rightarrow> bytes option" where
  "resolve fs pc = (case pc of Bytes b \<Rightarrow> Some b | FromFile p \<Rightarrow> fs p)"

definition sr_piece :: "split_result \<Rightarrow> which \<Rightarrow> piece" where
  "sr_piece r w = (case w of Content \<Rightarrow> sr_content r | Structure \<Rightarrow> sr_structure r | Metadata \<Rightarrow> Bytes (sr_metadata r))"

lemma hash_loop_all:
  "pos \<le> length raw \<Longrightarrow> fed = take pos raw \<Longrightarrow> hash_loop raw pos fed = raw"
proof (induction raw pos fed rule: hash_loop.induct)
  case (1 raw pos fed)
  let ?c = "py_slice raw pos (pos + HASH_CHUNK_SIZE)"
  show ?case
  proof (cases "?c = []")
    case True
    then have "length raw \<le> pos" by (auto simp: py_slice_def HASH_CHUNK_SIZE_def)
    with True "1.prems" show ?thesis by (subst hash_loop.simps) simp
  next
    case False
    have "pos + length ?c \<le> length raw" using "1.prems" by (simp add: length_py_slice)
    moreover have "fed @ ?c = take (pos + length ?c) raw"
      using "1.prems" by (auto simp: py_slice_def take_add [symmetric] min_def)
    ultimately show ?thesis
      using "1.IH" [OF refl False] False by (subst hash_loop.simps) simp
  qed
qed

lemma hash_loop_file [simp]: "hash_loop raw 0 [] = raw"
  by (simp add: hash_loop_all)

lemma metadata_path_bytes:
  "fs path = Some raw \<Longrightarrow>
     metadata_bytes_for_path E fs path
       = Inr (metadata_text (basename path) (lower_ext path) (length raw) (sha256 E raw))"
  by (simp add: metadata_bytes_for_path_def)

lemmas split_defs = split_file_def split_bytes_def Let_def sr_piece_def resolve_def
  extract_pdf_text_from_bytes_def extract_pdf_text_from_path_def
  extract_office_xml_from_bytes_def extract_office_xml_from_path_def

lemma split_bytes_reconstruct [simp]:
  "sr_piece (split_bytes E raw name) (sr_reconstruct_from (split_bytes E raw name)) = Bytes raw"
  by (simp add: split_defs)

lemma split_bytes_no_file: "\<exists>b. sr_piece (split_bytes E raw name) w = Bytes b"
  by (cases w) (simp_all add: split_defs)

lemma split_file_from_file:
  "split_file E fs path = Inr r \<Longrightarrow>
     sr_piece r (sr_reconstruct_from r) = FromFile path \<and> sr_reconstruct_from r \<noteq> Metadata"
  by (auto simp: split_defs split: sum.splits if_splits)

text \<open>
  The streaming front door and the in-memory one split alike: for a file with
  contents \<open>raw\<close> at \<open>path\<close>, every piece of \<open>split_file path\<close>, read from disk where it is a
  marker, is the piece that \<open>split_bytes raw path\<close> holds in memory (the metadata with the size
  and the digest computed chunk by chunk included), and both name the same piece for exact
  reconstruction, which is the file itself. A missing file raises.
\<close>

theorem split_file_agrees_with_split_bytes:
  "(case fs path of
      None \<Rightarrow> split_file E fs path = Inl FileNotFoundError
    | Some raw \<Rightarrow>
       (case split_file E fs path of
          Inl _ \<Rightarrow> False
        | Inr r \<Rightarrow>
            resolve fs (sr_piece r w) = resolve fs (sr_piece (split_bytes E raw path) w) \<and>
            sr_reconstruct_from r = sr_reconstruct_from (split_bytes E raw path) \<and>
            resolve fs (sr_piece r (sr_reconstruct_from r)) = Some raw))"
proof (cases "fs path")
  case None
  then show ?thesis by (simp add: split_defs metadata_bytes_for_path_def)
next
  case (Some raw)
  then show ?thesis
    by (cases w) (auto simp: metadata_path_bytes split_defs)
qed

end
