(* ===== verification/FileStore.thy ===== *)
theory FileStore
  imports Splitter
begin

text \<open>
  The interface that the stores of this repository (\<open>VirtualStorage\<close>,
  \<open>PackedVirtualStorage\<close>) offer to their clients, as locales: \<open>file_store\<close> for saving bytes under
  a fresh id, reading them back and forgetting them; \<open>moving_store\<close> adds the motion of the boxes,
  which no client can see. What a client needs is proved here once.
\<close>

text \<open>What a caller may ask \<open>retrieve\<close> for: "full", one of the pieces, or any other string.\<close>

datatype request = Full | Part which | Other string

locale file_store =
  fixes save :: "'id \<Rightarrow> bytes \<Rightarrow> string \<Rightarrow> 's \<Rightarrow> 's"
    and retrieve :: "'id \<Rightarrow> 's \<Rightarrow> bytes res \<times> 's"
    and forget :: "'id \<Rightarrow> 's \<Rightarrow> 's"
    and known :: "'s \<Rightarrow> 'id \<Rightarrow> bool"
    and ok :: "'s \<Rightarrow> bool"
  assumes save_ok: "ok s \<Longrightarrow> \<not> known s i \<Longrightarrow> ok (save i raw n s)"
    and save_known: "ok s \<Longrightarrow> \<not> known s i \<Longrightarrow> known (save i raw n s) j \<longleftrightarrow> j = i \<or> known s j"
    and save_same: "ok s \<Longrightarrow> \<not> known s i \<Longrightarrow> fst (retrieve i (save i raw n s)) = Inr raw"
    and save_other:
      "ok s \<Longrightarrow> \<not> known s i \<Longrightarrow> j \<noteq> i \<Longrightarrow> fst (retrieve j (save i raw n s)) = fst (retrieve j s)"
    and retrieve_ok: "ok s \<Longrightarrow> ok (snd (retrieve i s))"
    and retrieve_known: "ok s \<Longrightarrow> known (snd (retrieve i s)) = known s"
    and retrieve_again: "ok s \<Longrightarrow> fst (retrieve j (snd (retrieve i s))) = fst (retrieve j s)"
    and retrieve_unknown: "ok s \<Longrightarrow> \<not> known s i \<Longrightarrow> fst (retrieve i s) = Inl KeyError"
    and forget_ok: "ok s \<Longrightarrow> ok (forget i s)"
    and forget_known: "ok s \<Longrightarrow> known (forget i s) j \<longleftrightarrow> j \<noteq> i \<and> known s j"
    and forget_other: "ok s \<Longrightarrow> j \<noteq> i \<Longrightarrow> fst (retrieve j (forget i s)) = fst (retrieve j s)"
begin

lemma forget_same: "ok s \<Longrightarrow> fst (retrieve i (forget i s)) = Inl KeyError"
  by (simp add: retrieve_unknown forget_ok forget_known)

lemma replace_same:
  assumes "ok s" "\<not> known s new" "old \<noteq> new"
  shows "fst (retrieve new (forget old (save new raw n s))) = Inr raw"
  using assms by (simp add: forget_other save_ok save_same)

lemma replace_other:
  assumes "ok s" "\<not> known s new" "j \<noteq> new" "j \<noteq> old"
  shows "fst (retrieve j (forget old (save new raw n s))) = fst (retrieve j s)"
  using assms by (simp add: forget_other save_ok save_other)

lemmas store_laws = save_ok save_known save_same save_other retrieve_ok retrieve_known retrieve_again
  retrieve_unknown forget_ok forget_known forget_other forget_same

end

locale moving_store = file_store save retrieve forget known ok
  for save :: "'id \<Rightarrow> bytes \<Rightarrow> string \<Rightarrow> 's \<Rightarrow> 's"
    and retrieve :: "'id \<Rightarrow> 's \<Rightarrow> bytes res \<times> 's"
    and forget :: "'id \<Rightarrow> 's \<Rightarrow> 's"
    and known :: "'s \<Rightarrow> 'id \<Rightarrow> bool"
    and ok :: "'s \<Rightarrow> bool" +
  fixes move :: "'m \<Rightarrow> 's \<Rightarrow> 's"
  assumes move_ok: "ok s \<Longrightarrow> ok (move m s)"
    and move_known: "ok s \<Longrightarrow> known (move m s) = known s"
    and move_retrieve: "ok s \<Longrightarrow> fst (retrieve i (move m s)) = fst (retrieve i s)"
begin

lemma moves:
  "ok s \<Longrightarrow> ok (fold move ms s) \<and> known (fold move ms s) = known s \<and>
     fst (retrieve i (fold move ms s)) = fst (retrieve i s)"
  by (induction ms arbitrary: s) (auto simp: move_ok move_known move_retrieve)

lemma save_moves_retrieve:
  "ok s \<Longrightarrow> \<not> known s i \<Longrightarrow> fst (retrieve i (fold move ms (save i raw n s))) = Inr raw"
  using moves save_ok save_same by simp

end

end
