(* ===== verification/FallingBox.thy ===== *)
theory FallingBox
  imports Prelude
begin

text \<open>
  \<open>vstorage/falling_box.py\<close>: one compressed piece kept moving between two buffers. The locked
  sections of the two threads are operations on a record; a second model splits the mover's
  locked section into its 64KB copies and gives each thread a program counter, and shows that a
  snapshot taken at any moment of any interleaving is the data. The locale \<open>falling\<close> is the
  contract of every box of the program: a hop moves the data and does not change it.
\<close>

section \<open>The contract of a falling box\<close>

text \<open>
  \<open>hop i s\<close> is one hop with the environment's choices \<open>i\<close> (a fresh nonce, say), \<open>held s\<close> the
  data a snapshot of \<open>s\<close> returns.
\<close>

locale falling =
  fixes good :: "'i \<Rightarrow> bool"
    and hop :: "'i \<Rightarrow> 's \<Rightarrow> 's"
    and held :: "'s \<Rightarrow> 'd"
    and ok :: "'s \<Rightarrow> bool"
  assumes hop_ok: "good i \<Longrightarrow> ok s \<Longrightarrow> ok (hop i s)"
    and hop_held: "good i \<Longrightarrow> ok s \<Longrightarrow> held (hop i s) = held s"
begin

lemma hops_ok: "list_all good is \<Longrightarrow> ok s \<Longrightarrow> ok (fold hop is s)"
  by (induction "is" arbitrary: s) (auto simp: hop_ok)

lemma hops_held: "list_all good is \<Longrightarrow> ok s \<Longrightarrow> held (fold hop is s) = held s"
  by (induction "is" arbitrary: s) (auto simp: hop_ok hop_held)

lemma hops_from:
  assumes "ok s" "held s = d" "list_all good is"
  shows "held (fold hop is s) = d"
  using assms hops_held by simp

end

section \<open>The box\<close>

definition BOX_SIZE :: nat where
  "BOX_SIZE = 64 * 1024"

lemma BOX_SIZE_pos [simp]: "0 < BOX_SIZE"
  by (simp add: BOX_SIZE_def)

datatype slot = BoxA | BoxB

record fbox =
  fb_a :: bytes
  fb_b :: bytes
  fb_active :: slot
  fb_hops :: nat
  fb_stop :: bool
  fb_paused :: bool

definition fb_init :: "bytes \<Rightarrow> fbox" where
  "fb_init data = \<lparr>fb_a = data, fb_b = zeros (length data), fb_active = BoxA, fb_hops = 0,
     fb_stop = False, fb_paused = False\<rparr>"

text \<open>The body of \<open>_fall_forever\<close> that runs with the lock held.\<close>

definition fb_hop :: "fbox \<Rightarrow> fbox" where
  "fb_hop s =
     (let s' = (case fb_active s of
          BoxA \<Rightarrow> s\<lparr>fb_b := copy_pieces BOX_SIZE (fb_a s) (fb_b s), fb_active := BoxB\<rparr>
        | BoxB \<Rightarrow> s\<lparr>fb_a := copy_pieces BOX_SIZE (fb_b s) (fb_a s), fb_active := BoxA\<rparr>)
      in s'\<lparr>fb_hops := fb_hops s + 1\<rparr>)"

text \<open>One turn of the \<open>while\<close> loop: \<open>None\<close> when it ends.\<close>

definition fb_iter :: "fbox \<Rightarrow> fbox option" where
  "fb_iter s = (if fb_stop s then None else if fb_paused s then Some s else Some (fb_hop s))"

definition fb_current :: "fbox \<Rightarrow> bytes" where
  "fb_current s = (case fb_active s of BoxA \<Rightarrow> fb_a s | BoxB \<Rightarrow> fb_b s)"

definition fb_snapshot :: "fbox \<Rightarrow> bytes \<times> fbox" where
  "fb_snapshot s =
     (let s1 = s\<lparr>fb_paused := True\<rparr>; out = fb_current s1
      in (out, s1\<lparr>fb_paused := False\<rparr>))"

definition fb_collapse :: "fbox \<Rightarrow> fbox" where
  "fb_collapse s = s\<lparr>fb_stop := True, fb_a := [], fb_b := []\<rparr>"

definition fb_ok :: "fbox \<Rightarrow> bool" where
  "fb_ok s \<longleftrightarrow> length (fb_a s) = length (fb_b s)"

lemmas fb_defs = fb_hop_def fb_current_def fb_snapshot_def fb_collapse_def fb_init_def

lemma fb_init_ok [simp]: "fb_ok (fb_init d)" and fb_init_current [simp]: "fb_current (fb_init d) = d"
  by (simp_all add: fb_ok_def fb_defs)

interpretation fb: falling "\<lambda>_. True" "\<lambda>_::unit. fb_hop" fb_current fb_ok
  by unfold_locales (auto simp: fb_ok_def fb_defs Let_def split: slot.splits)

text \<open>Every thread action on a box, in any order: the mover's turns, snapshots, the collapse.\<close>

datatype fb_event = Turn | Snap | Collapse

fun fb_step :: "fb_event \<Rightarrow> fbox \<Rightarrow> fbox" where
  "fb_step Turn s = (case fb_iter s of None \<Rightarrow> s | Some s' \<Rightarrow> s')"
| "fb_step Snap s = snd (fb_snapshot s)"
| "fb_step Collapse s = fb_collapse s"

lemma fb_step_ok: "fb_ok s \<Longrightarrow> fb_ok (fb_step e s)"
  using fb.hop_ok [of s]
  by (cases e) (auto simp: fb_iter_def fb_snapshot_def fb_collapse_def fb_ok_def Let_def)

lemma fb_step_current: "fb_ok s \<Longrightarrow> e \<noteq> Collapse \<Longrightarrow> fb_current (fb_step e s) = fb_current s"
  using fb.hop_held [of s]
  by (cases e) (auto simp: fb_iter_def fb_snapshot_def fb_current_def Let_def split: slot.splits)

text \<open>While nobody collapses the box, moving and reading is one more instance of the contract.\<close>

interpretation fbe: falling "\<lambda>e. e \<noteq> Collapse" fb_step fb_current fb_ok
  by unfold_locales (simp_all add: fb_step_ok fb_step_current)

definition fb_dead :: "fbox \<Rightarrow> bool" where
  "fb_dead s \<longleftrightarrow> fb_stop s \<and> fb_a s = [] \<and> fb_b s = []"

interpretation fbd: falling "\<lambda>_. True" fb_step "\<lambda>_. ()" fb_dead
proof (unfold_locales, goal_cases)
  case (1 i s)
  then show ?case by (cases i) (auto simp: fb_dead_def fb_iter_def fb_defs Let_def)
qed simp

lemma fb_dead_current: "fb_dead s \<Longrightarrow> fb_current s = []"
  by (simp add: fb_dead_def fb_current_def split: slot.splits)

section \<open>The same box, one memory copy at a time\<close>

text \<open>
  Program counters: the mover thread is at the head of its loop, waiting for the lock, at
  offset \<open>i\<close> of its copy loop (with the lock), or gone; a thread that called \<open>snapshot\<close> has not
  started, has paused the box and waits for the lock, holds it, has copied and released it,
  or has resumed the box and returned. The lock field says who holds the lock.
\<close>

datatype mover_pc = M_Head | M_Wait | M_Copy nat | M_Exit
datatype reader_pc = R_Start | R_Wait | R_Locked | R_Copied bytes | R_Done bytes
datatype owner = Mover | Reader

record fb_sys =
  sys_box :: fbox
  mover :: mover_pc
  reader :: reader_pc
  sys_lock :: "owner option"

definition sys_init :: "bytes \<Rightarrow> fb_sys" where
  "sys_init d = \<lparr>sys_box = fb_init d, mover = M_Head, reader = R_Start, sys_lock = None\<rparr>"

text \<open>One piece copied from the active box to the other one.\<close>

definition micro_copy :: "nat \<Rightarrow> fbox \<Rightarrow> fbox" where
  "micro_copy i s = (case fb_active s of
      BoxA \<Rightarrow> s\<lparr>fb_b := copy_piece BOX_SIZE (fb_a s) i (fb_b s)\<rparr>
    | BoxB \<Rightarrow> s\<lparr>fb_a := copy_piece BOX_SIZE (fb_b s) i (fb_a s)\<rparr>)"

definition micro_flip :: "fbox \<Rightarrow> fbox" where
  "micro_flip s = s\<lparr>fb_active := (case fb_active s of BoxA \<Rightarrow> BoxB | BoxB \<Rightarrow> BoxA), fb_hops := fb_hops s + 1\<rparr>"

inductive fb_micro :: "fb_sys \<Rightarrow> fb_sys \<Rightarrow> bool" where
  stop: "mover s = M_Head \<Longrightarrow> fb_stop (sys_box s) \<Longrightarrow> fb_micro s (s\<lparr>mover := M_Exit\<rparr>)"
| paused: "mover s = M_Head \<Longrightarrow> \<not> fb_stop (sys_box s) \<Longrightarrow> fb_paused (sys_box s) \<Longrightarrow> fb_micro s s"
| want: "mover s = M_Head \<Longrightarrow> \<not> fb_stop (sys_box s) \<Longrightarrow> \<not> fb_paused (sys_box s) \<Longrightarrow>
     fb_micro s (s\<lparr>mover := M_Wait\<rparr>)"
| lock_m: "mover s = M_Wait \<Longrightarrow> sys_lock s = None \<Longrightarrow>
     fb_micro s (s\<lparr>mover := M_Copy 0, sys_lock := Some Mover\<rparr>)"
| copy: "mover s = M_Copy i \<Longrightarrow> i < length (fb_current (sys_box s)) \<Longrightarrow>
     fb_micro s (s\<lparr>mover := M_Copy (i + BOX_SIZE), sys_box := micro_copy i (sys_box s)\<rparr>)"
| flip: "mover s = M_Copy i \<Longrightarrow> length (fb_current (sys_box s)) \<le> i \<Longrightarrow>
     fb_micro s (s\<lparr>mover := M_Head, sys_box := micro_flip (sys_box s), sys_lock := None\<rparr>)"
| pause: "reader s = R_Start \<Longrightarrow>
     fb_micro s (s\<lparr>reader := R_Wait, sys_box := (sys_box s)\<lparr>fb_paused := True\<rparr>\<rparr>)"
| lock_r: "reader s = R_Wait \<Longrightarrow> sys_lock s = None \<Longrightarrow>
     fb_micro s (s\<lparr>reader := R_Locked, sys_lock := Some Reader\<rparr>)"
| read: "reader s = R_Locked \<Longrightarrow>
     fb_micro s (s\<lparr>reader := R_Copied (fb_current (sys_box s)), sys_lock := None\<rparr>)"
| resume: "reader s = R_Copied out \<Longrightarrow>
     fb_micro s (s\<lparr>reader := R_Done out, sys_box := (sys_box s)\<lparr>fb_paused := False\<rparr>\<rparr>)"

inductive fb_reach :: "bytes \<Rightarrow> fb_sys \<Rightarrow> bool" for d where
  start: "fb_reach d (sys_init d)"
| step: "fb_reach d s \<Longrightarrow> fb_micro s t \<Longrightarrow> fb_reach d t"

definition fb_other :: "fbox \<Rightarrow> bytes" where
  "fb_other s = (case fb_active s of BoxA \<Rightarrow> fb_b s | BoxB \<Rightarrow> fb_a s)"

text \<open>
  What holds at every instant: the active box is the data, even in the middle of a copy; the
  other box agrees with it up to the mover's offset; the lock is with the thread whose counter
  says so; whatever a reader has copied is the data.
\<close>

definition fb_inv :: "bytes \<Rightarrow> fb_sys \<Rightarrow> bool" where
  "fb_inv d s \<longleftrightarrow>
     fb_current (sys_box s) = d \<and> length (fb_other (sys_box s)) = length d \<and>
     (\<forall>i. mover s = M_Copy i \<longrightarrow> take i (fb_other (sys_box s)) = take i d) \<and>
     (sys_lock s = Some Mover \<longleftrightarrow> (\<exists>i. mover s = M_Copy i)) \<and>
     (sys_lock s = Some Reader \<longleftrightarrow> reader s = R_Locked) \<and>
     (\<forall>out. reader s = R_Copied out \<or> reader s = R_Done out \<longrightarrow> out = d)"

lemma micro_copy_current: "fb_current (micro_copy i s) = fb_current s"
  and micro_copy_other: "fb_other (micro_copy i s) = copy_piece BOX_SIZE (fb_current s) i (fb_other s)"
  by (simp_all add: micro_copy_def fb_current_def fb_other_def split: slot.splits)

lemma micro_flip_current: "fb_current (micro_flip s) = fb_other s"
  and micro_flip_other: "fb_other (micro_flip s) = fb_current s"
  by (simp_all add: micro_flip_def fb_current_def fb_other_def split: slot.splits)

lemma fb_paused_frame [simp]:
  "fb_current (s\<lparr>fb_paused := p\<rparr>) = fb_current s" "fb_other (s\<lparr>fb_paused := p\<rparr>) = fb_other s"
  by (cases "fb_active s", simp_all add: fb_current_def fb_other_def)+

lemmas micro_simps = micro_copy_current micro_copy_other micro_flip_current micro_flip_other

lemma fb_micro_inv: "fb_micro s t \<Longrightarrow> fb_inv d s \<Longrightarrow> fb_inv d t"
proof (induction rule: fb_micro.induct)
  case (copy s i)
  then show ?case
    using copy_piece_prefix [of "fb_other (sys_box s)" d i BOX_SIZE] by (auto simp: fb_inv_def micro_simps)
next
  case (flip s i)
  then show ?case by (auto simp: fb_inv_def micro_simps)
qed (auto simp: fb_inv_def)

lemma fb_reach_inv: "fb_reach d s \<Longrightarrow> fb_inv d s"
proof (induction rule: fb_reach.induct)
  case start
  show ?case by (simp add: fb_inv_def sys_init_def fb_other_def fb_init_def fb_current_def)
qed (rule fb_micro_inv)

text \<open>The mover's copies and its flip, run to the end, are the hop of the atomic model.\<close>

lemma micro_copies_active: "fb_active (fold micro_copy is s) = fb_active s"
  by (induction "is" arbitrary: s) (auto simp: micro_copy_def split: slot.splits)

lemma micro_run_A:
  "fb_active s = BoxA \<Longrightarrow>
     fold micro_copy is s = s\<lparr>fb_b := fold (copy_piece BOX_SIZE (fb_a s)) is (fb_b s)\<rparr>"
  by (induction "is" arbitrary: s) (auto simp: micro_copy_def)

lemma micro_run_B:
  "fb_active s = BoxB \<Longrightarrow>
     fold micro_copy is s = s\<lparr>fb_a := fold (copy_piece BOX_SIZE (fb_b s)) is (fb_a s)\<rparr>"
  by (induction "is" arbitrary: s) (auto simp: micro_copy_def)

section \<open>Properties\<close>

text \<open>
  Whatever the mover and other readers do to a box before, a snapshot returns the
  bytes the box was created with, as long as nobody has collapsed it.
\<close>

theorem snapshot_after_events:
  assumes "list_all (\<lambda>e. e \<noteq> Collapse) es"
  shows "fst (fb_snapshot (fold fb_step es (fb_init d))) = d"
  using fbe.hops_from [OF fb_init_ok fb_init_current assms] by (simp add: fb_snapshot_def Let_def)

theorem snapshot_after_events_witness:
  "fst (fb_snapshot (fold fb_step [Turn, Snap, Turn, Turn] (fb_init [7, 8]))) = [7, 8]"
  by (rule snapshot_after_events) simp

text \<open>
  Death: once a box has been collapsed, no later event brings a byte back; every
  snapshot is empty and the mover's loop ends at its next turn.
\<close>

theorem nothing_after_collapse:
  "fst (fb_snapshot (fold fb_step es (fb_step Collapse s))) = [] \<and>
   fb_iter (fold fb_step es (fb_step Collapse s)) = None"
proof -
  have "fb_dead (fb_step Collapse s)" by (simp add: fb_dead_def fb_defs)
  then have "fb_dead (fold fb_step es (fb_step Collapse s))"
    using fbd.hops_ok [of es] by (simp add: list_all_iff)
  then show ?thesis
    by (auto simp: fb_snapshot_def Let_def fb_iter_def fb_dead_current) (simp add: fb_dead_def)
qed

text \<open>
  Property C7. Copy by copy: in every interleaving of the mover's single 64KB copies with a
  concurrent \<open>snapshot\<close> call, what the call returns is exactly the box's data, and the mover
  is not inside its copy loop while the reader reads.
\<close>

theorem snapshot_any_interleaving:
  assumes "fb_reach d s"
  shows "(\<forall>out. reader s = R_Done out \<longrightarrow> out = d) \<and>
         (reader s = R_Locked \<longrightarrow> (\<forall>i. mover s \<noteq> M_Copy i))"
  using fb_reach_inv [OF assms] by (auto simp: fb_inv_def)

text \<open>A run in which the snapshot is requested while the mover is in its copy loop.\<close>

definition demo_box :: "slot \<Rightarrow> bool \<Rightarrow> fbox" where
  "demo_box sl p = \<lparr>fb_a = [7, 8], fb_b = [7, 8], fb_active = sl,
     fb_hops = (case sl of BoxA \<Rightarrow> 0 | BoxB \<Rightarrow> 1), fb_stop = False, fb_paused = p\<rparr>"

lemma demo_copy: "micro_copy 0 (fb_init [7, 8]) = demo_box BoxA False"
  by (simp add: micro_copy_def fb_init_def demo_box_def copy_piece_def slice_assign_def py_slice_def
      BOX_SIZE_def)

lemma demo_run:
  "fb_reach [7, 8] \<lparr>sys_box = demo_box BoxB False, mover = M_Head, reader = R_Done [7, 8], sys_lock = None\<rparr>"
proof -
  have "fb_reach [7, 8] \<lparr>sys_box = fb_init [7, 8], mover = M_Wait, reader = R_Start, sys_lock = None\<rparr>"
    using fb_reach.step [OF fb_reach.start [of "[7, 8]"] fb_micro.want] by (simp add: sys_init_def fb_init_def)
  from fb_reach.step [OF this fb_micro.lock_m]
  have "fb_reach [7, 8] \<lparr>sys_box = fb_init [7, 8], mover = M_Copy 0, reader = R_Start, sys_lock = Some Mover\<rparr>"
    by simp
  from fb_reach.step [OF this fb_micro.copy]
  have "fb_reach [7, 8]
      \<lparr>sys_box = demo_box BoxA False, mover = M_Copy BOX_SIZE, reader = R_Start, sys_lock = Some Mover\<rparr>"
    by (simp add: demo_copy)
  from fb_reach.step [OF this fb_micro.pause]
  have "fb_reach [7, 8]
      \<lparr>sys_box = demo_box BoxA True, mover = M_Copy BOX_SIZE, reader = R_Wait, sys_lock = Some Mover\<rparr>"
    by (simp add: demo_box_def)
  from fb_reach.step [OF this fb_micro.flip]
  have "fb_reach [7, 8] \<lparr>sys_box = demo_box BoxB True, mover = M_Head, reader = R_Wait, sys_lock = None\<rparr>"
    by (simp add: demo_box_def micro_flip_def fb_current_def BOX_SIZE_def)
  from fb_reach.step [OF this fb_micro.lock_r]
  have "fb_reach [7, 8] \<lparr>sys_box = demo_box BoxB True, mover = M_Head, reader = R_Locked, sys_lock = Some Reader\<rparr>"
    by simp
  from fb_reach.step [OF this fb_micro.read]
  have "fb_reach [7, 8] \<lparr>sys_box = demo_box BoxB True, mover = M_Head, reader = R_Copied [7, 8], sys_lock = None\<rparr>"
    by (simp add: demo_box_def fb_current_def)
  from fb_reach.step [OF this fb_micro.resume] show ?thesis
    by (simp add: demo_box_def)
qed

theorem snapshot_any_interleaving_witness:
  "\<exists>s. fb_reach [7, 8] s \<and> reader s = R_Done [7, 8] \<and>
     ((\<forall>out. reader s = R_Done out \<longrightarrow> out = [7, 8]) \<and>
      (reader s = R_Locked \<longrightarrow> (\<forall>i. mover s \<noteq> M_Copy i)))"
  using demo_run snapshot_any_interleaving [OF demo_run] by fastforce

text \<open>
  The mover's copies and its flip, from taking the lock to releasing it, are
  one hop of the atomic model: the fine-grained machine refines it.
\<close>

theorem micro_pass_is_hop:
  "micro_flip (fold micro_copy (py_range 0 (length (fb_current s)) BOX_SIZE) s) = fb_hop s"
proof (cases "fb_active s")
  case BoxA
  then show ?thesis
    by (simp add: micro_run_A fb_hop_def micro_flip_def copy_pieces_def fb_current_def)
next
  case BoxB
  then show ?thesis
    by (simp add: micro_run_B fb_hop_def micro_flip_def copy_pieces_def fb_current_def)
qed

end
