(* ===== verification/PackedBox.thy ===== *)
theory PackedBox
  imports FallingBox
begin

text \<open>
  \<open>vstorage/packed_box.py\<close>: one falling buffer shared by many files, each found again by an
  index from its name to an offset and a length. The locale \<open>named_store\<close> is what its client
  relies on, an abstract map from names to bytes; the box implements it while it moves.
\<close>

section \<open>The contract of a store of named pieces\<close>

locale named_store =
  fixes put :: "'n \<Rightarrow> bytes \<Rightarrow> 's \<Rightarrow> 's"
    and fetch :: "'n \<Rightarrow> 's \<Rightarrow> bytes res \<times> 's"
    and cut :: "'n \<Rightarrow> 's \<Rightarrow> unit res \<times> 's"
    and view :: "'s \<Rightarrow> 'n \<Rightarrow> bytes option"
    and ok :: "'s \<Rightarrow> bool"
  assumes put_ok: "ok s \<Longrightarrow> ok (put n d s)"
    and put_view: "ok s \<Longrightarrow> view (put n d s) = (view s)(n := Some d)"
    and fetch_ok: "ok s \<Longrightarrow> ok (snd (fetch n s))"
    and fetch_view: "ok s \<Longrightarrow> view (snd (fetch n s)) = view s"
    and fetch_out: "ok s \<Longrightarrow> fst (fetch n s) = of_option KeyError (view s n)"
    and cut_ok: "ok s \<Longrightarrow> ok (snd (cut n s))"
    and cut_view: "ok s \<Longrightarrow> view (snd (cut n s)) = (view s)(n := None)"
    and cut_out: "ok s \<Longrightarrow> fst (cut n s) = of_option KeyError (map_option (\<lambda>_. ()) (view s n))"
begin

lemma fetch_after_put: "ok s \<Longrightarrow> fst (fetch n (put n d s)) = Inr d"
  by (simp add: fetch_out put_ok put_view)

lemma fetch_other_put: "ok s \<Longrightarrow> m \<noteq> n \<Longrightarrow> fst (fetch m (put n d s)) = fst (fetch m s)"
  by (simp add: fetch_out put_ok put_view)

lemma fetch_after_cut: "ok s \<Longrightarrow> fst (fetch n (snd (cut n s))) = Inl KeyError"
  by (simp add: fetch_out cut_ok cut_view)

lemma fetch_other_cut: "ok s \<Longrightarrow> m \<noteq> n \<Longrightarrow> fst (fetch m (snd (cut n s))) = fst (fetch m s)"
  by (simp add: fetch_out cut_ok cut_view)

lemmas laws = put_ok put_view fetch_ok fetch_view fetch_out cut_ok cut_view cut_out

end

section \<open>The box\<close>

record 'n pbox =
  pb_a :: bytes
  pb_b :: bytes
  pb_active :: slot
  pb_index :: "('n, nat \<times> nat) dict"
  pb_hops :: nat
  pb_stop :: bool
  pb_paused :: bool

definition pb_init :: "'n pbox" where
  "pb_init = \<lparr>pb_a = [], pb_b = [], pb_active = BoxA, pb_index = [], pb_hops = 0,
     pb_stop = False, pb_paused = False\<rparr>"

text \<open>The locked section of \<open>_fall_forever\<close>: both directions run over the length of box a.\<close>

definition pb_hop :: "'n pbox \<Rightarrow> 'n pbox" where
  "pb_hop s =
     (let len = length (pb_a s); is = py_range 0 len BOX_SIZE in
      if len = 0 then s
      else (case pb_active s of
          BoxA \<Rightarrow> s\<lparr>pb_b := fold (copy_piece BOX_SIZE (pb_a s)) is (pb_b s), pb_active := BoxB\<rparr>
        | BoxB \<Rightarrow> s\<lparr>pb_a := fold (copy_piece BOX_SIZE (pb_b s)) is (pb_a s), pb_active := BoxA\<rparr>)
        \<lparr>pb_hops := pb_hops s + 1\<rparr>)"

definition pb_iter :: "'n pbox \<Rightarrow> 'n pbox option" where
  "pb_iter s = (if pb_stop s then None else if pb_paused s then Some s else Some (pb_hop s))"

definition pb_current :: "'n pbox \<Rightarrow> bytes" where
  "pb_current s = (case pb_active s of BoxA \<Rightarrow> pb_a s | BoxB \<Rightarrow> pb_b s)"

definition pb_add :: "'n \<Rightarrow> bytes \<Rightarrow> 'n pbox \<Rightarrow> 'n pbox" where
  "pb_add name data s =
     (let s1 = s\<lparr>pb_paused := True\<rparr>;
          offset = length (pb_current s1);
          s2 = (case pb_active s1 of
              BoxA \<Rightarrow> s1\<lparr>pb_a := pb_a s1 @ data, pb_b := pb_b s1 @ zeros (length data)\<rparr>
            | BoxB \<Rightarrow> s1\<lparr>pb_b := pb_b s1 @ data, pb_a := pb_a s1 @ zeros (length data)\<rparr>);
          s3 = s2\<lparr>pb_index := dict_set name (offset, length data) (pb_index s2)\<rparr>
      in s3\<lparr>pb_paused := False\<rparr>)"

text \<open>A missing name raises inside the locked section: the box stays paused.\<close>

definition pb_get :: "'n \<Rightarrow> 'n pbox \<Rightarrow> bytes res \<times> 'n pbox" where
  "pb_get name s =
     (let s1 = s\<lparr>pb_paused := True\<rparr> in
      case dict_get (pb_index s1) name of
        None \<Rightarrow> (Inl KeyError, s1)
      | Some (offset, len) \<Rightarrow>
          (Inr (py_slice (pb_current s1) offset (offset + len)), s1\<lparr>pb_paused := False\<rparr>))"

definition pb_remove :: "'n \<Rightarrow> 'n pbox \<Rightarrow> unit res \<times> 'n pbox" where
  "pb_remove name s =
     (let s1 = s\<lparr>pb_paused := True\<rparr> in
      case dict_get (pb_index s1) name of
        None \<Rightarrow> (Inl KeyError, s1)
      | Some (offset, len) \<Rightarrow>
          (Inr (), s1\<lparr>pb_a := slice_del (pb_a s1) offset (offset + len),
                      pb_b := slice_del (pb_b s1) offset (offset + len),
                      pb_index := dict_map (\<lambda>(o', l). if o' > offset then (o' - len, l) else (o', l))
                                    (dict_del name (pb_index s1)),
                      pb_paused := False\<rparr>))"

definition pb_file_count :: "'n pbox \<Rightarrow> nat" where
  "pb_file_count s = length (pb_index s)"

definition pb_collapse :: "'n pbox \<Rightarrow> 'n pbox" where
  "pb_collapse s = s\<lparr>pb_stop := True, pb_a := [], pb_b := [], pb_index := []\<rparr>"

section \<open>Invariant and abstraction\<close>

definition apart :: "nat \<times> nat \<Rightarrow> nat \<times> nat \<Rightarrow> bool" where
  "apart p q \<longleftrightarrow> fst p + snd p \<le> fst q \<or> fst q + snd q \<le> fst p"

text \<open>Both buffers have the same length, every entry lies inside it, entries do not overlap.\<close>

definition pb_ok :: "'n pbox \<Rightarrow> bool" where
  "pb_ok s \<longleftrightarrow> length (pb_a s) = length (pb_b s) \<and> dict_ok (pb_index s) \<and>
     (\<forall>n p. dict_get (pb_index s) n = Some p \<longrightarrow> fst p + snd p \<le> length (pb_a s)) \<and>
     (\<forall>m n p q. dict_get (pb_index s) m = Some p \<longrightarrow> dict_get (pb_index s) n = Some q \<longrightarrow>
        m \<noteq> n \<longrightarrow> apart p q)"

definition pb_view :: "'n pbox \<Rightarrow> 'n \<Rightarrow> bytes option" where
  "pb_view s n = map_option (\<lambda>(off, len). py_slice (pb_current s) off (off + len)) (dict_get (pb_index s) n)"

lemma pb_paused_frame [simp]:
  "pb_current (s\<lparr>pb_paused := b\<rparr>) = pb_current s" "pb_view (s\<lparr>pb_paused := b\<rparr>) n = pb_view s n"
  "pb_ok (s\<lparr>pb_paused := b\<rparr>) = pb_ok s"
  by (cases "pb_active s", simp_all add: pb_current_def pb_view_def pb_ok_def)+

lemma pb_current_length: "pb_ok s \<Longrightarrow> length (pb_current s) = length (pb_a s)"
  by (simp add: pb_ok_def pb_current_def split: slot.splits)

lemma pb_entry_range:
  "pb_ok s \<Longrightarrow> dict_get (pb_index s) n = Some (off, len) \<Longrightarrow> off + len \<le> length (pb_current s)"
  by (fastforce simp: pb_current_length pb_ok_def)

lemma pb_hop_effect:
  assumes "pb_ok s"
  shows "pb_ok (pb_hop s)" "pb_current (pb_hop s) = pb_current s" "pb_index (pb_hop s) = pb_index s"
  using assms copy_pieces_fold [of BOX_SIZE "pb_b s" "pb_a s" 0] copy_pieces_fold [of BOX_SIZE "pb_a s" "pb_b s" 0]
  by (auto simp: pb_ok_def pb_hop_def pb_current_def Let_def split: slot.splits)

lemma pb_hop_view: "pb_ok s \<Longrightarrow> pb_view (pb_hop s) = pb_view s"
  by (simp add: pb_view_def pb_hop_effect fun_eq_iff)

interpretation pb: falling "\<lambda>_. True" "\<lambda>_::unit. pb_hop" pb_view pb_ok
  by unfold_locales (simp_all add: pb_hop_effect pb_hop_view)

lemma pb_add_fields:
  assumes "pb_ok s"
  shows "pb_current (pb_add n d s) = pb_current s @ d"
    and "pb_index (pb_add n d s) = dict_set n (length (pb_current s), length d) (pb_index s)"
    and "length (pb_a (pb_add n d s)) = length (pb_current s) + length d"
    and "length (pb_b (pb_add n d s)) = length (pb_current s) + length d"
  using assms by (auto simp: pb_add_def pb_current_def pb_ok_def Let_def split: slot.splits)

lemma pb_add_ok: "pb_ok s \<Longrightarrow> pb_ok (pb_add n d s)"
  using pb_entry_range [of s]
  by (fastforce simp: pb_ok_def [of "pb_add n d s"] pb_add_fields apart_def
      dest: pb_ok_def [THEN iffD1])

lemma pb_add_view: "pb_ok s \<Longrightarrow> pb_view (pb_add n d s) = (pb_view s)(n := Some d)"
  by (auto simp: pb_view_def pb_add_fields fun_eq_iff py_slice_append1 py_slice_append2 pb_entry_range
      intro!: option.map_cong)

text \<open>Removing a file: entries before the cut stay, entries after it move back by its length.\<close>

lemma pb_remove_found:
  assumes "dict_get (pb_index s) n = Some (off, len)"
  shows "fst (pb_remove n s) = Inr ()"
    and "pb_current (snd (pb_remove n s)) = slice_del (pb_current s) off (off + len)"
    and "pb_index (snd (pb_remove n s)) =
           dict_map (\<lambda>(p, l). if p > off then (p - len, l) else (p, l)) (dict_del n (pb_index s))"
    and "pb_a (snd (pb_remove n s)) = slice_del (pb_a s) off (off + len)"
    and "pb_b (snd (pb_remove n s)) = slice_del (pb_b s) off (off + len)"
  using assms by (cases "pb_active s"; simp add: pb_remove_def pb_current_def Let_def)+

lemma pb_remove_missing:
  "dict_get (pb_index s) n = None \<Longrightarrow> pb_remove n s = (Inl KeyError, s\<lparr>pb_paused := True\<rparr>)"
  by (simp add: pb_remove_def Let_def)

definition shift_entry :: "nat \<Rightarrow> nat \<Rightarrow> nat \<times> nat \<Rightarrow> nat \<times> nat" where
  "shift_entry off len q = (if fst q > off then (fst q - len, snd q) else q)"

lemma shift_entry_eq: "(\<lambda>(p, l). if p > off then (p - len, l) else (p, l)) = shift_entry off len"
  by (auto simp: shift_entry_def fun_eq_iff)

lemma apart_shift:
  assumes "apart (off, len) p" "apart (off, len) q" "apart p q"
  shows "apart (shift_entry off len p) (shift_entry off len q)"
  using assms by (cases p; cases q) (auto simp: apart_def shift_entry_def)

lemma shift_bound:
  assumes "apart (off, len) p" "fst p + snd p \<le> m" "off + len \<le> m"
  shows "fst (shift_entry off len p) + snd (shift_entry off len p) \<le> m - len"
  using assms by (cases p) (auto simp: apart_def shift_entry_def)

lemma shift_slice:
  assumes "apart (off, len) (p, l)" "p + l \<le> length xs" "off + len \<le> length xs"
  shows "(\<lambda>(a, b). py_slice (slice_del xs off (off + len)) a (a + b)) (shift_entry off len (p, l))
    = py_slice xs p (p + l)"
proof (cases "off < p")
  case True
  with assms(1) have le: "off + len \<le> p" by (auto simp: apart_def)
  then have "p - len + l = p + l - len" by simp
  with True slice_del_after [of off "off + len" xs p "p + l"] assms le show ?thesis
    by (simp add: shift_entry_def)
next
  case False
  with assms(1) consider "p + l \<le> off" | "len = 0" | "l = 0" by (fastforce simp: apart_def)
  then show ?thesis
  proof cases
    case 1
    then show ?thesis using False assms slice_del_before [of "p + l" off xs] by (simp add: shift_entry_def)
  next
    case 2
    then show ?thesis using False by (simp add: shift_entry_def slice_del_def)
  next
    case 3
    then show ?thesis using False by (simp add: shift_entry_def py_slice_def)
  qed
qed

lemma pb_apart:
  "pb_ok s \<Longrightarrow> dict_get (pb_index s) m = Some p \<Longrightarrow> dict_get (pb_index s) n = Some q \<Longrightarrow> m \<noteq> n \<Longrightarrow> apart p q"
  unfolding pb_ok_def by blast

lemma pb_range:
  "pb_ok s \<Longrightarrow> dict_get (pb_index s) n = Some p \<Longrightarrow> fst p + snd p \<le> length (pb_a s)"
  unfolding pb_ok_def by blast

lemma pb_remove_ok:
  assumes ok: "pb_ok s"
  shows "pb_ok (snd (pb_remove n s))"
proof (cases "dict_get (pb_index s) n")
  case None
  then show ?thesis using ok by (simp add: pb_remove_missing)
next
  case (Some e)
  obtain off len where e: "e = (off, len)" by (cases e)
  note rem = pb_remove_found [OF Some [unfolded e], unfolded shift_entry_eq]
  have rng: "off + len \<le> length (pb_a s)" using pb_range [OF ok Some] e by simp
  have len: "length (pb_b s) = length (pb_a s)" "dict_ok (pb_index s)" using ok by (simp_all add: pb_ok_def)
  have other: "apart (off, len) p \<and> fst p + snd p \<le> length (pb_a s)"
    if "dict_get (pb_index s) m = Some p" "m \<noteq> n" for m p
    using pb_apart [OF ok Some that(1)] pb_range [OF ok that(1)] that e by auto
  let ?idx = "dict_map (shift_entry off len) (dict_del n (pb_index s))"
  have entry: "\<exists>q. dict_get (pb_index s) m = Some q \<and> m \<noteq> n \<and> p = shift_entry off len q"
    if "dict_get ?idx m = Some p" for m p
    using that by (auto split: if_splits)
  have "fst p + snd p \<le> length (pb_a s) - len" if "dict_get ?idx m = Some p" for m p
    using entry [OF that] other shift_bound rng by blast
  moreover have "apart p q"
    if "dict_get ?idx m = Some p" "dict_get ?idx k = Some q" "m \<noteq> k" for m k p q
    using entry [OF that(1)] entry [OF that(2)] that(3) other pb_apart [OF ok] apart_shift by blast
  ultimately show ?thesis
    unfolding pb_ok_def rem using rng len by (simp add: length_slice_del)
qed

lemma pb_remove_view:
  assumes ok: "pb_ok s"
  shows "pb_view (snd (pb_remove n s)) = (pb_view s)(n := None)"
proof (cases "dict_get (pb_index s) n")
  case None
  then show ?thesis by (auto simp: pb_remove_missing pb_view_def fun_eq_iff)
next
  case (Some e)
  obtain off len where e: "e = (off, len)" by (cases e)
  note rem = pb_remove_found [OF Some [unfolded e], unfolded shift_entry_eq]
  have rng: "off + len \<le> length (pb_current s)" using pb_entry_range [OF ok] Some e by simp
  have "pb_view (snd (pb_remove n s)) m = pb_view s m" if "m \<noteq> n" for m
  proof (cases "dict_get (pb_index s) m")
    case (Some q)
    obtain p l where q: "q = (p, l)" by (cases q)
    have "apart (off, len) (p, l)"
      using pb_apart [OF ok \<open>dict_get (pb_index s) n = Some e\<close> Some] that e q by simp
    moreover have "p + l \<le> length (pb_current s)" using pb_entry_range [OF ok] Some q by simp
    ultimately show ?thesis
      using shift_slice [OF _ _ rng, of p l] Some that q by (simp add: pb_view_def rem)
  qed (use that in \<open>simp add: pb_view_def rem\<close>)
  moreover have "pb_view (snd (pb_remove n s)) n = None" by (simp add: pb_view_def rem)
  ultimately show ?thesis by (auto simp: fun_eq_iff)
qed

lemma pb_get_facts:
  "fst (pb_get n s) = of_option KeyError (pb_view s n)"
  "pb_ok (snd (pb_get n s)) = pb_ok s" "pb_view (snd (pb_get n s)) = pb_view s"
  by (auto simp: pb_get_def pb_view_def Let_def fun_eq_iff split: option.splits)

lemma pb_remove_out:
  "fst (pb_remove n s) = of_option KeyError (map_option (\<lambda>_. ()) (pb_view s n))"
  by (auto simp: pb_remove_def pb_view_def Let_def split: option.splits)

interpretation pbs: named_store pb_add pb_get pb_remove pb_view pb_ok
  by unfold_locales
    (simp_all add: pb_add_ok pb_add_view pb_get_facts pb_remove_ok pb_remove_view pb_remove_out)

lemma pb_init_ok [simp]: "pb_ok pb_init" and pb_init_view [simp]: "pb_view pb_init = (\<lambda>_. None)"
  by (simp_all add: pb_ok_def pb_init_def pb_view_def fun_eq_iff)

section \<open>Every use of the box refines an abstract map\<close>

datatype 'n pb_event = PTurn | PAdd 'n bytes | PGet 'n | PRemove 'n

fun pb_step :: "'n pb_event \<Rightarrow> 'n pbox \<Rightarrow> 'n pbox" where
  "pb_step PTurn s = (case pb_iter s of None \<Rightarrow> s | Some t \<Rightarrow> t)"
| "pb_step (PAdd n d) s = pb_add n d s"
| "pb_step (PGet n) s = snd (pb_get n s)"
| "pb_step (PRemove n) s = snd (pb_remove n s)"

fun spec_step :: "'n pb_event \<Rightarrow> ('n \<Rightarrow> bytes option) \<Rightarrow> ('n \<Rightarrow> bytes option)" where
  "spec_step PTurn m = m"
| "spec_step (PAdd n d) m = m(n := Some d)"
| "spec_step (PGet n) m = m"
| "spec_step (PRemove n) m = m(n := None)"

lemma pb_step_refines: "pb_ok s \<Longrightarrow> pb_ok (pb_step e s) \<and> pb_view (pb_step e s) = spec_step e (pb_view s)"
  by (cases e) (auto simp: pb_iter_def pbs.laws pb.hop_ok pb.hop_held)

lemma pb_run_refines:
  "pb_ok s \<Longrightarrow> pb_ok (fold pb_step es s) \<and> pb_view (fold pb_step es s) = fold spec_step es (pb_view s)"
  by (induction es arbitrary: s) (auto simp: pb_step_refines)

text \<open>
  Property C8. For any sequence of additions, lookups, removals and turns of the mover, what
  \<open>get\<close> returns for a name is what an ordinary map from names to bytes would hold: adding packs a
  file without disturbing the others, removing cuts exactly one file out and shifts the rest.
\<close>

theorem packed_box_refines_map:
  "fst (pb_get n (fold pb_step es pb_init)) =
     of_option KeyError (fold spec_step es (\<lambda>_. None) n)"
  using pb_run_refines [OF pb_init_ok, of es] by (simp add: pb_get_facts)

text \<open>
  A lookup or a removal of a name that is not held raises with the box still
  paused, and from then on no turn of the mover moves anything (until a later call succeeds).
\<close>

theorem packed_missing_name_stalls:
  assumes "dict_get (pb_index s) n = None"
  shows "fst (pb_get n s) = Inl KeyError \<and>
     ((\<lambda>t. case pb_iter t of None \<Rightarrow> t | Some t' \<Rightarrow> t') ^^ k) (snd (pb_get n s)) = s\<lparr>pb_paused := True\<rparr> \<and>
     ((\<lambda>t. case pb_iter t of None \<Rightarrow> t | Some t' \<Rightarrow> t') ^^ k) (snd (pb_remove n s)) = s\<lparr>pb_paused := True\<rparr>"
proof -
  have "((\<lambda>t. case pb_iter t of None \<Rightarrow> t | Some t' \<Rightarrow> t') ^^ k) (s\<lparr>pb_paused := True\<rparr>) = s\<lparr>pb_paused := True\<rparr>"
    by (induction k) (simp_all add: pb_iter_def)
  with assms show ?thesis by (simp add: pb_get_def pb_remove_missing Let_def)
qed

definition demo_pbox :: "nat pbox" where
  "demo_pbox = pb_add 0 [9] pb_init"

theorem packed_missing_name_stalls_witness:
  "fst (pb_get 1 demo_pbox) = Inl KeyError \<and>
   ((\<lambda>t. case pb_iter t of None \<Rightarrow> t | Some t' \<Rightarrow> t') ^^ 3) (snd (pb_get 1 demo_pbox))
     = demo_pbox\<lparr>pb_paused := True\<rparr> \<and>
   ((\<lambda>t. case pb_iter t of None \<Rightarrow> t | Some t' \<Rightarrow> t') ^^ 3) (snd (pb_remove 1 demo_pbox))
     = demo_pbox\<lparr>pb_paused := True\<rparr>"
  by (rule packed_missing_name_stalls) (simp add: demo_pbox_def pb_add_def pb_init_def pb_current_def Let_def)

end
