(* ===== verification/VirtualStorage.thy ===== *)
theory VirtualStorage
  imports FileStore FallingBox
begin

text \<open>
  \<open>vstorage/system.py\<close>: a file is split, every piece compressed and given its own falling box.
  The record's last field counts the mover threads that have been started and not stopped; the
  program keeps no such count, the operating system does.
\<close>

record held =
  h_boxes :: "(which, fbox) dict"
  h_reconstruct_from :: which
  h_original_size :: nat
  h_name :: string

record vstore =
  vs_preset :: nat
  vs_held :: "(string, held) dict"
  vs_threads :: nat

definition vs_init :: "nat \<Rightarrow> vstore" where
  "vs_init preset = \<lparr>vs_preset = preset, vs_held = [], vs_threads = 0\<rparr>"

text \<open>\<open>_compress\<close>: a \<open>FromFile\<close> marker is true in Python and goes to \<open>lzma.compress\<close>, which takes
  bytes only.\<close>

definition vs_compress :: "env \<Rightarrow> nat \<Rightarrow> piece \<Rightarrow> bytes res" where
  "vs_compress E preset data =
     (case data of
        FromFile _ \<Rightarrow> Inl TypeError
      | Bytes b \<Rightarrow> Inr (if b = [] then [] else lzma_compress E preset b))"

definition vs_decompress :: "env \<Rightarrow> bytes \<Rightarrow> bytes res" where
  "vs_decompress E data = (if data = [] then Inr [] else lzma_decompress E data)"

definition started :: "vstore \<Rightarrow> vstore" where
  "started s = s\<lparr>vs_threads := vs_threads s + 1\<rparr>"

text \<open>\<open>len(piece)\<close>: a \<open>FromFile\<close> has no length.\<close>

definition piece_len :: "piece \<Rightarrow> nat res" where
  "piece_len pc = (case pc of Bytes b \<Rightarrow> Inr (length b) | FromFile _ \<Rightarrow> Inl TypeError)"

text \<open>\<open>_hold\<close>, with the id that \<open>uuid4\<close> returned: three boxes in order, then the entry. An
  exception leaves the threads started so far running.\<close>

definition vs_hold :: "env \<Rightarrow> string \<Rightarrow> split_result \<Rightarrow> string \<Rightarrow> vstore \<Rightarrow> string res \<times> vstore" where
  "vs_hold E file_id r name s =
     (case vs_compress E (vs_preset s) (sr_content r) of Inl e \<Rightarrow> (Inl e, s) | Inr c \<Rightarrow>
      case vs_compress E (vs_preset s) (sr_structure r) of Inl e \<Rightarrow> (Inl e, started s) | Inr st \<Rightarrow>
      case vs_compress E (vs_preset s) (Bytes (sr_metadata r)) of Inl e \<Rightarrow> (Inl e, started (started s)) | Inr m \<Rightarrow>
      let s3 = started (started (started s));
          boxes = [(Content, fb_init c), (Structure, fb_init st), (Metadata, fb_init m)]
      in case (if sr_reconstruct_from r = Content then piece_len (sr_content r) else piece_len (sr_structure r)) of
           Inl e \<Rightarrow> (Inl e, s3)
         | Inr original_size \<Rightarrow>
             (Inr file_id, s3\<lparr>vs_held := dict_set file_id
                \<lparr>h_boxes = boxes, h_reconstruct_from = sr_reconstruct_from r,
                 h_original_size = original_size, h_name = name\<rparr> (vs_held s3)\<rparr>))"

definition vs_save :: "env \<Rightarrow> disk \<Rightarrow> string \<Rightarrow> string \<Rightarrow> vstore \<Rightarrow> string res \<times> vstore" where
  "vs_save E fs file_id path s =
     (case split_file E fs path of Inl e \<Rightarrow> (Inl e, s) | Inr r \<Rightarrow> vs_hold E file_id r (basename path) s)"

definition vs_save_bytes :: "env \<Rightarrow> string \<Rightarrow> bytes \<Rightarrow> string \<Rightarrow> vstore \<Rightarrow> string res \<times> vstore" where
  "vs_save_bytes E file_id raw name_hint s = vs_hold E file_id (split_bytes E raw name_hint) name_hint s"

definition vs_retrieve :: "env \<Rightarrow> string \<Rightarrow> request \<Rightarrow> vstore \<Rightarrow> bytes res \<times> vstore" where
  "vs_retrieve E file_id req s =
     (case dict_get (vs_held s) file_id of
        None \<Rightarrow> (Inl KeyError, s)
      | Some h \<Rightarrow>
          (case req of
             Other _ \<Rightarrow> (Inl KeyError, s)
           | _ \<Rightarrow>
             (let w = (case req of Part w \<Rightarrow> w | _ \<Rightarrow> h_reconstruct_from h) in
              case dict_get (h_boxes h) w of
                None \<Rightarrow> (Inl KeyError, s)
              | Some box \<Rightarrow>
                  (let (compressed, box') = fb_snapshot box in
                   (vs_decompress E compressed,
                    s\<lparr>vs_held := dict_set file_id (h\<lparr>h_boxes := dict_set w box' (h_boxes h)\<rparr>) (vs_held s)\<rparr>)))))"

definition vs_held_size :: "string \<Rightarrow> vstore \<Rightarrow> nat res" where
  "vs_held_size file_id s =
     (case dict_get (vs_held s) file_id of
        None \<Rightarrow> Inl KeyError
      | Some h \<Rightarrow> Inr (sum_list (map (\<lambda>(w, box). length (fst (fb_snapshot box))) (h_boxes h))))"

definition vs_original_size :: "string \<Rightarrow> vstore \<Rightarrow> nat res" where
  "vs_original_size file_id s =
     (case dict_get (vs_held s) file_id of None \<Rightarrow> Inl KeyError | Some h \<Rightarrow> Inr (h_original_size h))"

definition vs_list_ids :: "vstore \<Rightarrow> string list" where
  "vs_list_ids s = dict_keys (vs_held s)"

text \<open>\<open>forget\<close> drops the entry and collapses its boxes; the collapsed boxes go out of reach with it.\<close>

definition vs_forget :: "string \<Rightarrow> vstore \<Rightarrow> vstore" where
  "vs_forget file_id s =
     (case dict_get (vs_held s) file_id of
        None \<Rightarrow> s
      | Some h \<Rightarrow> s\<lparr>vs_held := dict_del file_id (vs_held s), vs_threads := vs_threads s - length (h_boxes h)\<rparr>)"

definition vs_collapse_all :: "vstore \<Rightarrow> vstore" where
  "vs_collapse_all s = fold vs_forget (vs_list_ids s) s"

text \<open>A turn of the mover of one box.\<close>

definition vs_move :: "string \<times> which \<Rightarrow> vstore \<Rightarrow> vstore" where
  "vs_move m s =
     (case dict_get (vs_held s) (fst m) of
        None \<Rightarrow> s
      | Some h \<Rightarrow>
          (case dict_get (h_boxes h) (snd m) of
             None \<Rightarrow> s
           | Some box \<Rightarrow>
               s\<lparr>vs_held := dict_set (fst m) (h\<lparr>h_boxes := dict_set (snd m) (fb_step Turn box) (h_boxes h)\<rparr>)
                   (vs_held s)\<rparr>))"

section \<open>Invariant and what is observed of a file\<close>

definition held_ok :: "held \<Rightarrow> bool" where
  "held_ok h \<longleftrightarrow> dict_keys (h_boxes h) = [Content, Structure, Metadata] \<and>
     (\<forall>w box. dict_get (h_boxes h) w = Some box \<longrightarrow> fb_ok box)"

definition vs_ok :: "vstore \<Rightarrow> bool" where
  "vs_ok s \<longleftrightarrow> dict_ok (vs_held s) \<and> (\<forall>i h. dict_get (vs_held s) i = Some h \<longrightarrow> held_ok h) \<and>
     3 * length (vs_held s) \<le> vs_threads s"

definition vs_known :: "vstore \<Rightarrow> string \<Rightarrow> bool" where
  "vs_known s i \<longleftrightarrow> dict_get (vs_held s) i \<noteq> None"

text \<open>All that \<open>retrieve\<close> depends on: which piece is the original and what each box holds.\<close>

definition held_data :: "held \<Rightarrow> which \<times> (which \<Rightarrow> bytes option)" where
  "held_data h = (h_reconstruct_from h, \<lambda>w. map_option fb_current (dict_get (h_boxes h) w))"

definition vs_data :: "vstore \<Rightarrow> string \<Rightarrow> (which \<times> (which \<Rightarrow> bytes option)) option" where
  "vs_data s i = map_option held_data (dict_get (vs_held s) i)"

definition read_data ::
  "env \<Rightarrow> request \<Rightarrow> (which \<times> (which \<Rightarrow> bytes option)) option \<Rightarrow> bytes res" where
  "read_data E req d =
     (case d of
        None \<Rightarrow> Inl KeyError
      | Some (rf, f) \<Rightarrow>
          (case req of
             Other _ \<Rightarrow> Inl KeyError
           | Part w \<Rightarrow> (case f w of None \<Rightarrow> Inl KeyError | Some b \<Rightarrow> vs_decompress E b)
           | Full \<Rightarrow> (case f rf of None \<Rightarrow> Inl KeyError | Some b \<Rightarrow> vs_decompress E b)))"

lemma fst_snapshot: "fst (fb_snapshot b) = fb_current b"
  and snd_snapshot: "snd (fb_snapshot b) = b\<lparr>fb_paused := False\<rparr>"
  by (simp_all add: fb_snapshot_def Let_def)

lemma vs_retrieve_out: "fst (vs_retrieve E i req s) = read_data E req (vs_data s i)"
  by (auto simp: vs_retrieve_def read_data_def vs_data_def held_data_def Let_def fst_snapshot
      split: option.splits request.splits prod.splits) (metis fst_conv fst_snapshot)+

text \<open>Replacing one box by one that holds the same data changes neither the invariant nor the data.\<close>

definition put_box :: "string \<Rightarrow> which \<Rightarrow> fbox \<Rightarrow> held \<Rightarrow> vstore \<Rightarrow> vstore" where
  "put_box i w box h s = s\<lparr>vs_held := dict_set i (h\<lparr>h_boxes := dict_set w box (h_boxes h)\<rparr>) (vs_held s)\<rparr>"

lemma dict_length_replace: "dict_get d k = Some u \<Longrightarrow> length (dict_set k v d) = length d"
  using dict_keys_replace [of d k u v] by (metis dict_keys_def length_map)

lemma put_box_same:
  assumes "vs_ok s" "dict_get (vs_held s) i = Some h" "dict_get (h_boxes h) w = Some b"
    and "fb_ok box" "fb_current box = fb_current b"
  shows "vs_ok (put_box i w box h s)" "vs_data (put_box i w box h s) = vs_data s"
    "vs_known (put_box i w box h s) = vs_known s"
proof -
  have "held_ok h" using assms(1,2) by (auto simp: vs_ok_def)
  then have "held_ok (h\<lparr>h_boxes := dict_set w box (h_boxes h)\<rparr>)"
    using assms(3,4) by (auto simp: held_ok_def dict_keys_replace split: if_splits)
  then show "vs_ok (put_box i w box h s)"
    using assms(1,2) by (auto simp: vs_ok_def put_box_def dict_length_replace split: if_splits)
  show "vs_data (put_box i w box h s) = vs_data s"
    using assms by (auto simp: vs_data_def put_box_def held_data_def fun_eq_iff)
  show "vs_known (put_box i w box h s) = vs_known s"
    using assms by (auto simp: vs_known_def put_box_def fun_eq_iff)
qed

lemma vs_box_ok:
  "vs_ok s \<Longrightarrow> dict_get (vs_held s) i = Some h \<Longrightarrow> dict_get (h_boxes h) w = Some b \<Longrightarrow> fb_ok b"
  unfolding vs_ok_def held_ok_def by blast

lemma vs_retrieve_state:
  assumes "vs_ok s"
  shows "vs_ok (snd (vs_retrieve E i req s)) \<and> vs_data (snd (vs_retrieve E i req s)) = vs_data s \<and>
         vs_known (snd (vs_retrieve E i req s)) = vs_known s"
proof -
  consider "snd (vs_retrieve E i req s) = s"
    | h w b where "dict_get (vs_held s) i = Some h" "dict_get (h_boxes h) w = Some b"
        "snd (vs_retrieve E i req s) = put_box i w (b\<lparr>fb_paused := False\<rparr>) h s"
    by (fastforce simp: vs_retrieve_def Let_def put_box_def snd_snapshot [symmetric] split_def
        split: option.splits request.splits)
  then show ?thesis
  proof cases
    case 2
    moreover have "fb_ok (b\<lparr>fb_paused := False\<rparr>)"
      using vs_box_ok [OF assms 2(1,2)] by (simp add: fb_ok_def)
    ultimately show ?thesis using put_box_same [OF assms 2(1,2)] by simp
  qed (simp add: assms)
qed

lemma vs_move_state:
  assumes "vs_ok s"
  shows "vs_ok (vs_move m s) \<and> vs_data (vs_move m s) = vs_data s \<and> vs_known (vs_move m s) = vs_known s"
proof -
  consider "vs_move m s = s"
    | h b where "dict_get (vs_held s) (fst m) = Some h" "dict_get (h_boxes h) (snd m) = Some b"
        "vs_move m s = put_box (fst m) (snd m) (fb_step Turn b) h s"
    by (fastforce simp: vs_move_def put_box_def split: option.splits)
  then show ?thesis
  proof cases
    case 2
    then show ?thesis
      using put_box_same [OF assms 2(1,2)] vs_box_ok [OF assms 2(1,2)]
        fb_step_ok [of b Turn] fb_step_current [of b Turn] by simp
  qed (simp add: assms)
qed

section \<open>Saving and forgetting\<close>

lemma vs_compress_Bytes: "vs_compress E q (Bytes b) = Inr (if b = [] then [] else lzma_compress E q b)"
  by (simp add: vs_compress_def)

lemma vs_decompress_compress [simp]:
  "lzma_ok E \<Longrightarrow> vs_decompress E (if b = [] then [] else lzma_compress E q b) = Inr b"
  by (simp add: vs_decompress_def lzma_simps)

text \<open>The entry that saving bytes makes.\<close>

definition packed :: "env \<Rightarrow> nat \<Rightarrow> bytes \<Rightarrow> bytes" where
  "packed E q b = (if b = [] then [] else lzma_compress E q b)"

definition piece_bytes :: "piece \<Rightarrow> bytes" where
  "piece_bytes pc = (case pc of Bytes b \<Rightarrow> b | FromFile _ \<Rightarrow> [])"

definition saved_held :: "env \<Rightarrow> nat \<Rightarrow> split_result \<Rightarrow> string \<Rightarrow> held" where
  "saved_held E q r name =
     \<lparr>h_boxes = map (\<lambda>w. (w, fb_init (packed E q (piece_bytes (sr_piece r w))))) [Content, Structure, Metadata],
      h_reconstruct_from = sr_reconstruct_from r,
      h_original_size = length (piece_bytes (if sr_reconstruct_from r = Content then sr_content r else sr_structure r)),
      h_name = name\<rparr>"

lemma vs_save_bytes_eq:
  "vs_save_bytes E i raw n s =
     (Inr i, s\<lparr>vs_threads := vs_threads s + 3,
        vs_held := dict_set i (saved_held E (vs_preset s) (split_bytes E raw n) n) (vs_held s)\<rparr>)"
proof -
  let ?r = "split_bytes E raw n"
  obtain c st where "sr_piece ?r Content = Bytes c" "sr_piece ?r Structure = Bytes st"
    using split_bytes_no_file by metis
  then have "sr_content ?r = Bytes c" "sr_structure ?r = Bytes st" by (simp_all add: sr_piece_def)
  then show ?thesis
    by (simp add: vs_save_bytes_def vs_hold_def vs_compress_def piece_len_def started_def saved_held_def
        packed_def piece_bytes_def sr_piece_def Let_def)
qed

lemma saved_held_ok: "held_ok (saved_held E q r n)"
  by (auto simp: held_ok_def saved_held_def dict_keys_def dict_get_def split: if_splits)

lemma saved_held_box: "dict_get (h_boxes (saved_held E q r n)) w = Some (fb_init (packed E q (piece_bytes (sr_piece r w))))"
  by (cases w) (simp_all add: saved_held_def dict_get_def)

lemma dict_length_new: "dict_get d k = None \<Longrightarrow> length (dict_set k v d) = Suc (length d)"
  using dict_keys_set [of d k v] by (metis dict_keys_def length_append_singleton length_map)

lemma dict_length_del: "dict_ok d \<Longrightarrow> dict_get d k = Some v \<Longrightarrow> Suc (length (dict_del k d)) = length d"
proof (induction d)
  case (Cons p d)
  show ?case
  proof (cases "fst p = k")
    case True
    with Cons.prems(1) have "k \<notin> fst ` set d" by (simp add: dict_ok_def)
    then have "\<forall>q \<in> set d. k \<noteq> fst q" by blast
    then have "filter (\<lambda>q. k \<noteq> fst q) d = d" by (auto simp: filter_id_conv)
    with True show ?thesis by (simp add: dict_del_def AList.delete_eq split_def)
  next
    case False
    with Cons show ?thesis
      by (cases p) (auto simp: dict_ok_def dict_get_def dict_del_def AList.delete_eq split_def)
  qed
qed (simp add: dict_get_def)

lemma vs_save_ok: "vs_ok s \<Longrightarrow> \<not> vs_known s i \<Longrightarrow> vs_ok (snd (vs_save_bytes E i raw n s))"
  by (auto simp: vs_ok_def vs_known_def vs_save_bytes_eq saved_held_ok dict_length_new split: if_splits)

lemma vs_save_data:
  "vs_data (snd (vs_save_bytes E i raw n s)) =
     (vs_data s)(i := Some (held_data (saved_held E (vs_preset s) (split_bytes E raw n) n)))"
  by (simp add: vs_data_def vs_save_bytes_eq fun_eq_iff)

lemma vs_save_known: "vs_known (snd (vs_save_bytes E i raw n s)) j \<longleftrightarrow> j = i \<or> vs_known s j"
  by (simp add: vs_known_def vs_save_bytes_eq)

lemma read_saved:
  assumes "lzma_ok E"
  shows "read_data E (Part w) (Some (held_data (saved_held E q r n))) = Inr (piece_bytes (sr_piece r w))"
    and "read_data E Full (Some (held_data (saved_held E q r n)))
      = Inr (piece_bytes (sr_piece r (sr_reconstruct_from r)))"
  using assms by (simp_all add: read_data_def held_data_def saved_held_box packed_def)
    (simp_all add: saved_held_def)

lemma vs_forget_ok: "vs_ok s \<Longrightarrow> vs_ok (vs_forget i s)"
proof -
  assume ok: "vs_ok s"
  show ?thesis
  proof (cases "dict_get (vs_held s) i")
    case (Some h)
    then have "held_ok h" using ok by (auto simp: vs_ok_def)
    then have "length (dict_keys (h_boxes h)) = 3" by (simp add: held_ok_def)
    then have "length (h_boxes h) = 3" by (simp add: dict_keys_def)
    moreover have "Suc (length (dict_del i (vs_held s))) = length (vs_held s)"
      using ok Some by (auto simp: vs_ok_def intro: dict_length_del)
    ultimately show ?thesis
      using ok Some by (auto simp: vs_ok_def vs_forget_def split: if_splits)
  qed (simp add: ok vs_forget_def)
qed

lemma vs_forget_known: "vs_known (vs_forget i s) j \<longleftrightarrow> j \<noteq> i \<and> vs_known s j"
  by (auto simp: vs_known_def vs_forget_def split: option.splits)

lemma vs_forget_data: "vs_data (vs_forget i s) = (vs_data s)(i := None)"
  by (auto simp: vs_data_def vs_forget_def fun_eq_iff split: option.splits)

lemma vs_unknown_data: "\<not> vs_known s i \<Longrightarrow> vs_data s i = None"
  by (simp add: vs_known_def vs_data_def)

definition vs_env_ok :: "env \<Rightarrow> vstore \<Rightarrow> bool" where
  "vs_env_ok E s \<longleftrightarrow> lzma_ok E \<and> vs_ok s"

interpretation vs: moving_store "\<lambda>i raw n s. snd (vs_save_bytes E i raw n s)" "\<lambda>i s. vs_retrieve E i Full s"
  vs_forget vs_known "vs_env_ok E" vs_move for E
proof (unfold_locales, goal_cases)
  case (3 s i raw n)
  then show ?case
    by (simp add: vs_env_ok_def vs_retrieve_out vs_save_data read_saved piece_bytes_def)
next
  case (4 s i j raw n)
  then show ?case by (simp add: vs_retrieve_out vs_save_data)
qed (simp_all add: vs_env_ok_def vs_save_ok vs_save_known vs_forget_ok vs_forget_known vs_retrieve_out
      vs_forget_data vs_retrieve_state vs_move_state vs_unknown_data read_data_def)

lemma vs_init_ok [simp]: "vs_ok (vs_init q)" "\<not> vs_known (vs_init q) i"
  by (simp_all add: vs_ok_def vs_init_def vs_known_def)

section \<open>Properties\<close>

text \<open>
  Round trip of the in-memory front door: bytes saved under a fresh id come back
  exactly, whatever their extension, after any number of turns of any movers; the same for each
  of the three pieces the splitter made; and other files read as before.
\<close>

theorem virtual_storage_roundtrip:
  assumes "lzma_ok E" "vs_ok s" "\<not> vs_known s i"
    and t_def: "t = fold vs_move ms (snd (vs_save_bytes E i raw n s))"
  shows "fst (vs_retrieve E i Full t) = Inr raw \<and>
    fst (vs_retrieve E i (Part w) t) = Inr (piece_bytes (sr_piece (split_bytes E raw n) w)) \<and>
    (\<forall>j. j \<noteq> i \<longrightarrow> fst (vs_retrieve E j Full t) = fst (vs_retrieve E j Full s))"
proof -
  have ok: "vs_env_ok E s" using assms(1,2) by (simp add: vs_env_ok_def)
  have saved: "vs_env_ok E (snd (vs_save_bytes E i raw n s))"
    using vs.save_ok [OF ok assms(3)] .
  have "vs_data (fold vs_move ms u) = vs_data u" if "vs_ok u" for u
    using that by (induction ms arbitrary: u) (simp_all add: vs_move_state)
  then have "vs_data t = vs_data (snd (vs_save_bytes E i raw n s))"
    using saved by (simp add: t_def vs_env_ok_def)
  then have "fst (vs_retrieve E i (Part w) t) = Inr (piece_bytes (sr_piece (split_bytes E raw n) w))"
    using assms(1) by (simp add: vs_retrieve_out vs_save_data read_saved)
  then show ?thesis
    using vs.save_same [OF ok assms(3)] vs.moves [OF saved, of ms] vs.save_other [OF ok assms(3)]
    by (simp add: t_def)
qed

theorem virtual_storage_roundtrip_witness:
  "fst (vs_retrieve demo_env ''id'' Full
     (fold vs_move [(''id'', Content), (''id'', Structure)]
        (snd (vs_save_bytes demo_env ''id'' [1, 2] ''a.pdf'' (vs_init 6))))) = Inr [1, 2]"
  using virtual_storage_roundtrip [OF env_okD(2) [OF demo_env_ok] vs_init_ok refl] by blast

text \<open>
  The file front door of this class cannot work: \<open>split_file\<close> always leaves one piece
  on disk as a marker and this class hands pieces straight to \<open>lzma\<close>, so \<open>save(path)\<close> raises
  \<open>TypeError\<close> for every existing file and holds nothing, and for the kinds whose structure is
  the file the content box has already been started and keeps falling with no entry to stop it.
\<close>

theorem virtual_storage_save_raises:
  assumes "fs path = Some raw"
  shows "fst (vs_save E fs i path s) = Inl TypeError \<and>
    vs_held (snd (vs_save E fs i path s)) = vs_held s \<and>
    (sr_reconstruct_from (split_bytes E raw path) = Structure \<longrightarrow>
       vs_threads (snd (vs_save E fs i path s)) = vs_threads s + 1)"
  using assms
  by (auto simp: vs_save_def vs_hold_def split_defs metadata_path_bytes vs_compress_def started_def)

theorem virtual_storage_save_raises_witness:
  "fst (vs_save demo_env [''a.bin'' \<mapsto> [7]] ''id'' ''a.bin'' (vs_init 6)) = Inl TypeError"
  using virtual_storage_save_raises [of "[''a.bin'' \<mapsto> [7]]" "''a.bin''" "[7]"] by simp

lemma vs_forget_fold_known: "vs_known (fold vs_forget is s) j \<longleftrightarrow> j \<notin> set is \<and> vs_known s j"
  by (induction "is" arbitrary: s) (auto simp: vs_forget_known)

text \<open>
  Death: after \<open>collapse_all\<close> nothing is listed and every request for any id raises;
  after \<open>forget\<close> the same holds for that id alone.
\<close>

theorem virtual_storage_death:
  "vs_list_ids (vs_collapse_all s) = [] \<and>
   fst (vs_retrieve E i req (vs_collapse_all s)) = Inl KeyError \<and>
   fst (vs_retrieve E i req (vs_forget i s)) = Inl KeyError \<and>
   (j \<noteq> i \<longrightarrow> fst (vs_retrieve E j req (vs_forget i s)) = fst (vs_retrieve E j req s))"
proof -
  have none: "\<not> vs_known (vs_collapse_all s) j" for j
    by (simp add: vs_collapse_all_def vs_list_ids_def vs_forget_fold_known dict_keys_iff)
      (auto simp: vs_known_def)
  then have "vs_held (vs_collapse_all s) = []"
    by (intro dict_empty) (simp add: vs_known_def)
  then have "vs_list_ids (vs_collapse_all s) = []"
    by (simp add: vs_list_ids_def dict_keys_def)
  moreover have "vs_data (vs_collapse_all s) i = None"
    using none [of i] by (simp add: vs_data_def vs_known_def)
  ultimately show ?thesis
    by (simp add: vs_retrieve_out vs_forget_data read_data_def)
qed

theorem virtual_storage_death_witness:
  "fst (vs_retrieve demo_env ''two'' Full (vs_forget ''one'' (vs_init 6))) = fst (vs_retrieve demo_env ''two'' Full (vs_init 6))"
  using virtual_storage_death [of "vs_init 6" demo_env "''one''" Full "''two''"] by simp

end
