(* ===== verification/PackedStorage.thy ===== *)
theory PackedStorage
  imports FileStore PackedBox VirtualStorage
begin

text \<open>
  \<open>vstorage/packed_system.py\<close>: the same store over three packed boxes shared by all files. Its
  compression is that of \<open>system.py\<close>. The interpretation at the end shows it offers the contract
  of \<open>VirtualStorage\<close>, with turns of the three movers as its motion.
\<close>

record pstore =
  ps_preset :: nat
  ps_box :: "which \<Rightarrow> string pbox"
  ps_meta :: "(string, which \<times> string) dict"

definition ps_init :: "nat \<Rightarrow> pstore" where
  "ps_init preset = \<lparr>ps_preset = preset, ps_box = (\<lambda>_. pb_init), ps_meta = []\<rparr>"

definition ps_compress :: "env \<Rightarrow> nat \<Rightarrow> piece \<Rightarrow> bytes res" where
  "ps_compress E preset data =
     (case data of
        FromFile _ \<Rightarrow> Inl TypeError
      | Bytes b \<Rightarrow> Inr (if b = [] then [] else lzma_compress E preset b))"

definition ps_decompress :: "env \<Rightarrow> bytes \<Rightarrow> bytes res" where
  "ps_decompress E data = (if data = [] then Inr [] else lzma_decompress E data)"

definition ps_put :: "which \<Rightarrow> string \<Rightarrow> bytes \<Rightarrow> pstore \<Rightarrow> pstore" where
  "ps_put w file_id data s = s\<lparr>ps_box := (ps_box s)(w := pb_add file_id data (ps_box s w))\<rparr>"

definition ps_hold :: "env \<Rightarrow> string \<Rightarrow> split_result \<Rightarrow> string \<Rightarrow> pstore \<Rightarrow> string res \<times> pstore" where
  "ps_hold E file_id r name s =
     (case ps_compress E (ps_preset s) (sr_content r) of Inl e \<Rightarrow> (Inl e, s) | Inr c \<Rightarrow>
      let s1 = ps_put Content file_id c s in
      case ps_compress E (ps_preset s) (sr_structure r) of Inl e \<Rightarrow> (Inl e, s1) | Inr st \<Rightarrow>
      let s2 = ps_put Structure file_id st s1 in
      case ps_compress E (ps_preset s) (Bytes (sr_metadata r)) of Inl e \<Rightarrow> (Inl e, s2) | Inr m \<Rightarrow>
      let s3 = ps_put Metadata file_id m s2
      in (Inr file_id, s3\<lparr>ps_meta := dict_set file_id (sr_reconstruct_from r, name) (ps_meta s3)\<rparr>))"

definition ps_save :: "env \<Rightarrow> disk \<Rightarrow> string \<Rightarrow> string \<Rightarrow> pstore \<Rightarrow> string res \<times> pstore" where
  "ps_save E fs file_id path s =
     (case split_file E fs path of Inl e \<Rightarrow> (Inl e, s) | Inr r \<Rightarrow> ps_hold E file_id r (basename path) s)"

definition ps_save_bytes :: "env \<Rightarrow> string \<Rightarrow> bytes \<Rightarrow> string \<Rightarrow> pstore \<Rightarrow> string res \<times> pstore" where
  "ps_save_bytes E file_id raw name_hint s = ps_hold E file_id (split_bytes E raw name_hint) name_hint s"

text \<open>\<open>_box_for(which).get(file_id)\<close>.\<close>

definition ps_get :: "which \<Rightarrow> string \<Rightarrow> pstore \<Rightarrow> bytes res \<times> pstore" where
  "ps_get w file_id s =
     (let (r, b) = pb_get file_id (ps_box s w) in (r, s\<lparr>ps_box := (ps_box s)(w := b)\<rparr>))"

definition ps_retrieve :: "env \<Rightarrow> string \<Rightarrow> request \<Rightarrow> pstore \<Rightarrow> bytes res \<times> pstore" where
  "ps_retrieve E file_id req s =
     (case dict_get (ps_meta s) file_id of
        None \<Rightarrow> (Inl KeyError, s)
      | Some (reconstruct_from, name) \<Rightarrow>
          (case req of
             Other _ \<Rightarrow> (Inl KeyError, s)
           | _ \<Rightarrow>
             (case ps_get (case req of Part w \<Rightarrow> w | _ \<Rightarrow> reconstruct_from) file_id s of
                (Inl e, t) \<Rightarrow> (Inl e, t)
              | (Inr compressed, t) \<Rightarrow> (ps_decompress E compressed, t))))"

definition ps_held_size :: "string \<Rightarrow> pstore \<Rightarrow> nat res \<times> pstore" where
  "ps_held_size file_id s =
     fold (\<lambda>w (total, t). case total of
         Inl e \<Rightarrow> (Inl e, t)
       | Inr n \<Rightarrow> (case ps_get w file_id t of (Inl e, t') \<Rightarrow> (Inl e, t') | (Inr b, t') \<Rightarrow> (Inr (n + length b), t')))
       [Content, Structure, Metadata] (Inr 0, s)"

definition ps_list_ids :: "pstore \<Rightarrow> string list" where
  "ps_list_ids s = dict_keys (ps_meta s)"

text \<open>\<open>forget\<close>: the three removals, the first that raises ends the call.\<close>

definition ps_cut :: "which \<Rightarrow> string \<Rightarrow> pstore \<Rightarrow> unit res \<times> pstore" where
  "ps_cut w file_id s =
     (let (r, b) = pb_remove file_id (ps_box s w) in (r, s\<lparr>ps_box := (ps_box s)(w := b)\<rparr>))"

definition ps_forget :: "string \<Rightarrow> pstore \<Rightarrow> unit res \<times> pstore" where
  "ps_forget file_id s =
     (if dict_get (ps_meta s) file_id = None then (Inr (), s) else
      case ps_cut Content file_id s of (Inl e, s1) \<Rightarrow> (Inl e, s1) | (Inr _, s1) \<Rightarrow>
      case ps_cut Structure file_id s1 of (Inl e, s2) \<Rightarrow> (Inl e, s2) | (Inr _, s2) \<Rightarrow>
      case ps_cut Metadata file_id s2 of (Inl e, s3) \<Rightarrow> (Inl e, s3) | (Inr _, s3) \<Rightarrow>
      (Inr (), s3\<lparr>ps_meta := dict_del file_id (ps_meta s3)\<rparr>))"

definition ps_thread_count :: "pstore \<Rightarrow> nat" where
  "ps_thread_count s = 3"

definition ps_collapse_all :: "pstore \<Rightarrow> pstore" where
  "ps_collapse_all s = s\<lparr>ps_box := (\<lambda>w. pb_collapse (ps_box s w)), ps_meta := []\<rparr>"

definition ps_move :: "which \<Rightarrow> pstore \<Rightarrow> pstore" where
  "ps_move w s = s\<lparr>ps_box := (ps_box s)(w := pb_step PTurn (ps_box s w))\<rparr>"

section \<open>Invariant and abstraction\<close>

text \<open>Every file with an entry has its piece in each of the three boxes.\<close>

definition ps_ok :: "pstore \<Rightarrow> bool" where
  "ps_ok s \<longleftrightarrow> dict_ok (ps_meta s) \<and> (\<forall>w. pb_ok (ps_box s w)) \<and>
     (\<forall>i. dict_get (ps_meta s) i \<noteq> None \<longrightarrow> (\<forall>w. pb_view (ps_box s w) i \<noteq> None))"

definition ps_known :: "pstore \<Rightarrow> string \<Rightarrow> bool" where
  "ps_known s i \<longleftrightarrow> dict_get (ps_meta s) i \<noteq> None"

definition ps_data :: "pstore \<Rightarrow> string \<Rightarrow> (which \<times> (which \<Rightarrow> bytes option)) option" where
  "ps_data s i = map_option (\<lambda>(rf, _). (rf, \<lambda>w. pb_view (ps_box s w) i)) (dict_get (ps_meta s) i)"

lemma ps_decompress_vs: "ps_decompress = vs_decompress"
  by (simp add: fun_eq_iff ps_decompress_def vs_decompress_def)

lemma ps_compress_vs: "ps_compress = vs_compress"
  by (simp add: fun_eq_iff ps_compress_def vs_compress_def)

lemma ps_get_facts:
  "fst (ps_get w i s) = of_option KeyError (pb_view (ps_box s w) i)"
  "ps_meta (snd (ps_get w i s)) = ps_meta s"
  "pb_view (ps_box (snd (ps_get w i s)) v) = pb_view (ps_box s v)"
  "pb_ok (ps_box (snd (ps_get w i s)) v) = pb_ok (ps_box s v)"
  using pb_get_facts [of i "ps_box s w"] by (auto simp: ps_get_def split_def)

lemma ps_retrieve_out: "fst (ps_retrieve E i req s) = read_data E req (ps_data s i)"
proof -
  have get: "ps_get w i s = (of_option KeyError (pb_view (ps_box s w) i), snd (ps_get w i s))" for w
    using ps_get_facts(1) [of w i s] by (metis prod.collapse)
  show ?thesis
  proof (cases "dict_get (ps_meta s) i")
    case (Some p)
    then show ?thesis
      using get [of "case req of Part w \<Rightarrow> w | _ \<Rightarrow> fst p"]
      by (cases p; cases req) (auto simp: ps_retrieve_def read_data_def ps_data_def ps_decompress_vs
          of_option_def split: option.splits prod.splits)
  qed (simp add: ps_retrieve_def read_data_def ps_data_def)
qed

lemma ps_retrieve_frame:
  "ps_meta (snd (ps_retrieve E i req s)) = ps_meta s \<and>
   pb_view (ps_box (snd (ps_retrieve E i req s)) v) = pb_view (ps_box s v) \<and>
   pb_ok (ps_box (snd (ps_retrieve E i req s)) v) = pb_ok (ps_box s v)"
proof -
  consider "snd (ps_retrieve E i req s) = s" | w where "snd (ps_retrieve E i req s) = snd (ps_get w i s)"
    by (cases req; cases "dict_get (ps_meta s) i")
      (fastforce simp: ps_retrieve_def split_def split: sum.splits)+
  then show ?thesis by cases (simp_all add: ps_get_facts)
qed

lemma ps_retrieve_state:
  "ps_ok (snd (ps_retrieve E i req s)) = ps_ok s"
  "ps_data (snd (ps_retrieve E i req s)) = ps_data s"
  "ps_known (snd (ps_retrieve E i req s)) = ps_known s"
  using ps_retrieve_frame [of E i req s]
  by (simp_all add: ps_ok_def ps_data_def ps_known_def fun_eq_iff)

lemma ps_move_frame:
  assumes "ps_ok s"
  shows "ps_ok (ps_move w s) \<and> ps_data (ps_move w s) = ps_data s \<and> ps_known (ps_move w s) = ps_known s"
  using assms pb_step_refines [of "ps_box s w" PTurn]
  by (auto simp: ps_ok_def ps_move_def ps_data_def ps_known_def fun_eq_iff intro!: option.map_cong)

text \<open>Saving bytes: three additions and the entry.\<close>

lemma ps_save_bytes_eq:
  "ps_save_bytes E i raw n s =
     (Inr i, s\<lparr>ps_box := (\<lambda>w. pb_add i (packed E (ps_preset s) (piece_bytes (sr_piece (split_bytes E raw n) w))) (ps_box s w)),
        ps_meta := dict_set i (sr_reconstruct_from (split_bytes E raw n), n) (ps_meta s)\<rparr>)"
proof -
  let ?r = "split_bytes E raw n"
  obtain c st where "sr_piece ?r Content = Bytes c" "sr_piece ?r Structure = Bytes st"
    using split_bytes_no_file by metis
  then have "sr_content ?r = Bytes c" "sr_structure ?r = Bytes st" by (simp_all add: sr_piece_def)
  then show ?thesis
    by (auto simp: ps_save_bytes_def ps_hold_def ps_compress_def ps_put_def packed_def piece_bytes_def
        sr_piece_def Let_def fun_eq_iff split: which.splits)
qed

lemma ps_save_state:
  assumes "ps_ok s"
  shows "ps_ok (snd (ps_save_bytes E i raw n s))"
    and "ps_data (snd (ps_save_bytes E i raw n s)) =
      (ps_data s)(i := Some (held_data (saved_held E (ps_preset s) (split_bytes E raw n) n)))"
    and "ps_known (snd (ps_save_bytes E i raw n s)) j \<longleftrightarrow> j = i \<or> ps_known s j"
  using assms
  by (auto simp: ps_ok_def ps_save_bytes_eq pbs.laws ps_data_def fun_eq_iff held_data_def saved_held_box
      ps_known_def)
    (auto simp: saved_held_def)

text \<open>Forgetting: with the piece in every box, no removal raises.\<close>

lemma which_upd: "((f(Content := g Content))(Structure := g Structure))(Metadata := g Metadata) = g"
proof
  show "(((f(Content := g Content))(Structure := g Structure))(Metadata := g Metadata)) w = g w" for w
    by (cases w) simp_all
qed

lemma ps_cut_done:
  "fst (pb_remove i (ps_box s w)) = Inr () \<Longrightarrow>
     ps_cut w i s = (Inr (), s\<lparr>ps_box := (ps_box s)(w := snd (pb_remove i (ps_box s w)))\<rparr>)"
  by (simp add: ps_cut_def split_def)

lemma ps_forget_eq:
  assumes "ps_ok s" "ps_known s i"
  shows "ps_forget i s =
     (Inr (), s\<lparr>ps_box := (\<lambda>w. snd (pb_remove i (ps_box s w))), ps_meta := dict_del i (ps_meta s)\<rparr>)"
proof -
  have "pb_view (ps_box s w) i \<noteq> None" for w
    using assms unfolding ps_ok_def ps_known_def by blast
  then have "fst (pb_remove i (ps_box s w)) = Inr ()" for w
    using assms(1) pbs.cut_out by (metis (no_types, lifting) not_None_eq of_option_simps(2) option.simps(9) ps_ok_def)
  moreover have "dict_get (ps_meta s) i \<noteq> None"
    using assms(2) by (simp add: ps_known_def del: not_None_eq)
  ultimately show ?thesis
    using which_upd [of "ps_box s" "\<lambda>w. snd (pb_remove i (ps_box s w))"]
    by (simp add: ps_forget_def ps_cut_done del: not_None_eq)
qed

lemma ps_forget_unknown: "\<not> ps_known s i \<Longrightarrow> ps_forget i s = (Inr (), s)"
  by (simp add: ps_forget_def ps_known_def)

lemma ps_forget_state:
  assumes "ps_ok s"
  shows "ps_ok (snd (ps_forget i s))"
    and "ps_data (snd (ps_forget i s)) = (ps_data s)(i := None)"
    and "ps_known (snd (ps_forget i s)) j \<longleftrightarrow> j \<noteq> i \<and> ps_known s j"
proof -
  have "ps_ok (snd (ps_forget i s)) \<and> ps_data (snd (ps_forget i s)) = (ps_data s)(i := None) \<and>
      (ps_known (snd (ps_forget i s)) j \<longleftrightarrow> j \<noteq> i \<and> ps_known s j)"
  proof (cases "ps_known s i")
    case True
    then show ?thesis
      using assms by (auto simp: ps_forget_eq ps_ok_def pbs.laws ps_data_def fun_eq_iff ps_known_def)
  next
    case False
    then have "ps_data s i = None" by (simp only: ps_known_def ps_data_def not_not option.map)
    with False show ?thesis using assms by (auto simp: ps_forget_unknown fun_eq_iff)
  qed
  then show "ps_ok (snd (ps_forget i s))"
    "ps_data (snd (ps_forget i s)) = (ps_data s)(i := None)"
    "ps_known (snd (ps_forget i s)) j \<longleftrightarrow> j \<noteq> i \<and> ps_known s j" by simp_all
qed

definition ps_env_ok :: "env \<Rightarrow> pstore \<Rightarrow> bool" where
  "ps_env_ok E s \<longleftrightarrow> lzma_ok E \<and> ps_ok s"

lemma ps_unknown_data: "\<not> ps_known s i \<Longrightarrow> ps_data s i = None"
  by (simp only: ps_known_def ps_data_def not_not option.map)

interpretation ps: moving_store "\<lambda>i raw n s. snd (ps_save_bytes E i raw n s)" "\<lambda>i s. ps_retrieve E i Full s"
  "\<lambda>i s. snd (ps_forget i s)" ps_known "ps_env_ok E" ps_move for E
proof (unfold_locales, goal_cases)
  case (3 s i raw n)
  then show ?case
    by (simp add: ps_env_ok_def ps_retrieve_out ps_save_state read_saved piece_bytes_def)
next
  case (4 s i j raw n)
  then show ?case by (simp add: ps_env_ok_def ps_retrieve_out ps_save_state)
qed (simp_all add: ps_env_ok_def ps_save_state ps_forget_state ps_retrieve_out ps_retrieve_state
      ps_move_frame ps_unknown_data read_data_def)

lemma ps_init_ok [simp]: "ps_ok (ps_init q)" "\<not> ps_known (ps_init q) i"
  by (simp_all add: ps_ok_def ps_init_def ps_known_def)

section \<open>Properties\<close>

datatype ps_event = SaveBytes string bytes string | Retrieve string request | Forget string | Move which

fun ps_step :: "env \<Rightarrow> ps_event \<Rightarrow> pstore \<Rightarrow> pstore" where
  "ps_step E (SaveBytes i raw n) s = snd (ps_save_bytes E i raw n s)"
| "ps_step E (Retrieve i req) s = snd (ps_retrieve E i req s)"
| "ps_step E (Forget i) s = snd (ps_forget i s)"
| "ps_step E (Move w) s = ps_move w s"

fun vs_step_like :: "env \<Rightarrow> ps_event \<Rightarrow> vstore \<Rightarrow> vstore" where
  "vs_step_like E (SaveBytes i raw n) s = snd (vs_save_bytes E i raw n s)"
| "vs_step_like E (Retrieve i req) s = snd (vs_retrieve E i req s)"
| "vs_step_like E (Forget i) s = vs_forget i s"
| "vs_step_like E (Move w) s = s"

fun ids_fresh :: "string set \<Rightarrow> ps_event list \<Rightarrow> bool" where
  "ids_fresh used [] = True"
| "ids_fresh used (SaveBytes i raw n # es) = (i \<notin> used \<and> ids_fresh (insert i used) es)"
| "ids_fresh used (e # es) = ids_fresh used es"

lemma ps_step_simulates:
  assumes "ps_ok s" "vs_ok t" "ps_data s = vs_data t" "ps_preset s = vs_preset t"
    and "\<And>i raw n. e = SaveBytes i raw n \<Longrightarrow> \<not> vs_known t i"
  shows "ps_ok (ps_step E e s) \<and> vs_ok (vs_step_like E e t) \<and>
         ps_data (ps_step E e s) = vs_data (vs_step_like E e t) \<and>
         ps_preset (ps_step E e s) = vs_preset (vs_step_like E e t)"
proof -
  have pre: "ps_preset (snd (ps_save_bytes E i raw n s)) = ps_preset s"
    "vs_preset (snd (vs_save_bytes E i raw n t)) = vs_preset t"
    "ps_preset (snd (ps_retrieve E i req s)) = ps_preset s"
    "vs_preset (snd (vs_retrieve E i req t)) = vs_preset t"
    "ps_preset (snd (ps_forget i s)) = ps_preset s" "vs_preset (vs_forget i t) = vs_preset t"
    "ps_preset (ps_move w s) = ps_preset s" for i raw n req w
    by (auto simp: ps_save_bytes_eq vs_save_bytes_eq ps_retrieve_def vs_retrieve_def ps_get_def ps_forget_def
        ps_cut_def vs_forget_def ps_move_def Let_def split_def
        split: option.splits request.splits prod.splits sum.splits)
  show ?thesis
    using assms pre
    by (cases e) (auto simp: ps_save_state vs_save_ok vs_save_data ps_retrieve_state vs_retrieve_state
        ps_forget_state vs_forget_ok vs_forget_data ps_move_frame)
qed

fun ids_of :: "ps_event \<Rightarrow> string set" where
  "ids_of (SaveBytes i raw n) = {i}"
| "ids_of e = {}"

lemma vs_known_step: "vs_ok t \<Longrightarrow> vs_known (vs_step_like E e t) j \<Longrightarrow> j \<in> ids_of e \<or> vs_known t j"
  by (cases e) (auto simp: vs_save_known vs_forget_known vs_retrieve_state)

lemma ids_fresh_step: "ids_fresh used (e # es) \<Longrightarrow> ids_fresh (ids_of e \<union> used) es"
  by (cases e) simp_all

lemma ps_run_simulates:
  assumes "ids_fresh used es" "ps_ok s" "vs_ok t" "ps_data s = vs_data t" "ps_preset s = vs_preset t"
    and "\<And>i. vs_known t i \<Longrightarrow> i \<in> used"
  shows "ps_data (fold (ps_step E) es s) = vs_data (fold (vs_step_like E) es t)"
  using assms
proof (induction es arbitrary: used s t)
  case (Cons e es)
  have fresh: "\<not> vs_known t i" if "e = SaveBytes i raw n" for i raw n
    using Cons.prems(1,6) that by auto
  have sim: "ps_ok (ps_step E e s) \<and> vs_ok (vs_step_like E e t) \<and>
      ps_data (ps_step E e s) = vs_data (vs_step_like E e t) \<and>
      ps_preset (ps_step E e s) = vs_preset (vs_step_like E e t)"
    using ps_step_simulates [OF Cons.prems(2-5) fresh] by simp
  have "ps_data (fold (ps_step E) es (ps_step E e s)) = vs_data (fold (vs_step_like E) es (vs_step_like E e t))"
    by (rule Cons.IH [OF ids_fresh_step [OF Cons.prems(1)]])
      (use sim Cons.prems(6) vs_known_step [OF Cons.prems(3), of E e] in auto)
  then show ?case by simp
qed simp

text \<open>
  Refinement: whatever is saved, read, moved and forgotten, in any order, the store
  with three shared boxes answers every request, errors included, as the store with three boxes
  per file does. The ids are the fresh ones that \<open>uuid4\<close> returns.
\<close>

theorem packed_storage_simulates_virtual_storage:
  assumes "ids_fresh {} es"
  shows "fst (ps_retrieve E i req (fold (ps_step E) es (ps_init q))) =
         fst (vs_retrieve E i req (fold (vs_step_like E) es (vs_init q)))"
proof -
  have "ps_data (ps_init q) = vs_data (vs_init q)"
    by (simp add: ps_data_def vs_data_def ps_init_def vs_init_def fun_eq_iff)
  then have "ps_data (fold (ps_step E) es (ps_init q)) = vs_data (fold (vs_step_like E) es (vs_init q))"
    by (intro ps_run_simulates [OF assms]) (simp_all, simp_all add: ps_init_def vs_init_def)
  then show ?thesis by (simp add: ps_retrieve_out vs_retrieve_out)
qed

definition demo_ps_events :: "ps_event list" where
  "demo_ps_events = [SaveBytes ''one'' [1, 2] ''a.pdf'', Move Structure, SaveBytes ''two'' [3] ''b.txt'',
     Forget ''two'', Retrieve ''two'' Full]"

theorem packed_storage_simulates_virtual_storage_witness:
  "fst (ps_retrieve demo_env ''two'' Full (fold (ps_step demo_env) demo_ps_events (ps_init 6))) =
   fst (vs_retrieve demo_env ''two'' Full (fold (vs_step_like demo_env) demo_ps_events (vs_init 6)))"
  by (rule packed_storage_simulates_virtual_storage) (simp add: demo_ps_events_def)

text \<open>
  The same defect as in \<open>system.py\<close>, with a leak: saving an existing file by path
  raises \<open>TypeError\<close> and makes no entry, and for the kinds whose structure is the file the content
  piece stays in the shared content box, where no \<open>forget\<close> will ever remove it.
\<close>

theorem packed_storage_save_raises:
  assumes "fs path = Some raw" "ps_ok s" "\<not> ps_known s i"
  shows "fst (ps_save E fs i path s) = Inl TypeError \<and>
    ps_meta (snd (ps_save E fs i path s)) = ps_meta s \<and>
    snd (ps_forget i (snd (ps_save E fs i path s))) = snd (ps_save E fs i path s) \<and>
    (sr_reconstruct_from (split_bytes E raw path) = Structure \<longrightarrow>
       pb_view (ps_box (snd (ps_save E fs i path s)) Content) i \<noteq> None)"
proof -
  have "fst (ps_save E fs i path s) = Inl TypeError \<and>
    ps_meta (snd (ps_save E fs i path s)) = ps_meta s \<and>
    (sr_reconstruct_from (split_bytes E raw path) = Structure \<longrightarrow>
       pb_view (ps_box (snd (ps_save E fs i path s)) Content) i \<noteq> None)"
    using assms(1,2)
    by (auto simp: ps_save_def ps_hold_def split_defs metadata_path_bytes ps_compress_def ps_put_def Let_def
        ps_ok_def pbs.laws)
  moreover from this have "\<not> ps_known (snd (ps_save E fs i path s)) i"
    using assms(3) by (simp add: ps_known_def)
  ultimately show ?thesis by (simp add: ps_forget_unknown)
qed

theorem packed_storage_save_raises_witness:
  "fst (ps_save demo_env [''a.pdf'' \<mapsto> [7]] ''id'' ''a.pdf'' (ps_init 6)) = Inl TypeError"
  using packed_storage_save_raises [of "[''a.pdf'' \<mapsto> [7]]" "''a.pdf''" "[7]", OF _ ps_init_ok] by simp

end
