(* ===== verification/Mmap.thy ===== *)
theory Mmap
  imports Prelude
begin

text \<open>
  Python's anonymous \<open>mmap\<close> objects, as far as the boxes, cells and pools use them: a block of
  bytes until it is closed; a slice read is clamped, a slice assignment must have the length of
  the slice, every access to a closed block raises. Also the two protections the program asks
  the C library for, and the page rounding of the superseded boxes.
\<close>

type_synonym mmap = "bytes option"

definition mm_new :: "nat \<Rightarrow> mmap" where
  "mm_new n = Some (zeros n)"

definition mm_read :: "mmap \<Rightarrow> nat \<Rightarrow> nat \<Rightarrow> bytes res" where
  "mm_read m i j = (case m of None \<Rightarrow> Inl ValueError | Some b \<Rightarrow> Inr (py_slice b i j))"

definition mm_write :: "mmap \<Rightarrow> nat \<Rightarrow> nat \<Rightarrow> bytes \<Rightarrow> mmap res" where
  "mm_write m i j ys =
     (case m of
        None \<Rightarrow> Inl ValueError
      | Some b \<Rightarrow>
          if length (py_slice b i j) = length ys then Inr (Some (slice_assign b i j ys))
          else Inl IndexError)"

definition mm_close :: "mmap \<Rightarrow> mmap" where
  "mm_close m = None"

lemma mm_read_Some [simp]: "mm_read (Some b) i j = Inr (py_slice b i j)"
  and mm_read_None [simp]: "mm_read None i j = Inl ValueError"
  and mm_write_None [simp]: "mm_write None i j ys = Inl ValueError"
  by (simp_all add: mm_read_def mm_write_def)

lemma mm_write_Some:
  "j \<le> length b \<Longrightarrow> i + length ys = j \<Longrightarrow> mm_write (Some b) i j ys = Inr (Some (slice_assign b i j ys))"
  by (auto simp: mm_write_def length_py_slice)

text \<open>Writing and reading back the same block; the rest of the block does not change.\<close>

lemma mm_write_read:
  assumes "mm_write (Some b) i j ys = Inr m" and "j \<le> length b" and "i + length ys = j"
  shows "mm_read m i j = Inr ys"
  using assms by (simp add: mm_write_Some slice_simps) (auto simp: slice_simps)

section \<open>Protection and page rounding\<close>

text \<open>\<open>_lock_and_hide\<close>: what \<open>mlock\<close> and \<open>madvise\<close> returned, read as success or failure.\<close>

record protection =
  mlock_ok :: bool
  dontdump_ok :: bool

definition lock_and_hide :: "(nat \<Rightarrow> nat \<Rightarrow> int) \<Rightarrow> (nat \<Rightarrow> nat \<Rightarrow> int) \<Rightarrow> nat \<Rightarrow> nat \<Rightarrow> protection" where
  "lock_and_hide mlock madvise addr len =
     \<lparr>mlock_ok = (mlock addr len = 0), dontdump_ok = (madvise addr len = 0)\<rparr>"

definition round_up_page :: "nat \<Rightarrow> nat \<Rightarrow> nat" where
  "round_up_page page n = ((max n 1 + page - 1) div page) * page"

lemma round_up_page_mult: "page dvd round_up_page page n"
  by (simp add: round_up_page_def)

lemma round_up_page_bounds:
  assumes "0 < page"
  shows "max n 1 \<le> round_up_page page n" "round_up_page page n < max n 1 + page"
proof -
  let ?m = "max n 1 + page - 1"
  have split: "?m div page * page + ?m mod page = ?m" by simp
  have lt: "?m mod page < page" using assms by simp
  show "max n 1 \<le> round_up_page page n" "round_up_page page n < max n 1 + page"
    using split lt assms unfolding round_up_page_def by linarith+
qed

lemma round_up_page_ge: "0 < page \<Longrightarrow> n \<le> round_up_page page n"
  using round_up_page_bounds(1) [of page n] by simp

end
