(* ===== verification/SupersededBoxes.thy ===== *)
theory SupersededBoxes
  imports FallingBox Mmap
begin

text \<open>
  The earlier plaintext boxes of \<open>vstorage/superseded\<close>: the box with \<open>n\<close> buffers
  (\<open>nbox_falling.py\<close>), the box that zeroes the buffer it leaves (\<open>zeroing_falling.py\<close>) and
  the page-aligned, locked box (\<open>secure_falling_box.py\<close>). Each is an instance of the
  \<open>falling\<close> contract; the lemmas also state what the module docs report about copies left in
  memory.
\<close>

section \<open>n buffers: nbox\_falling.py\<close>

record nbox =
  nb_boxes :: "bytes list"
  nb_active :: nat
  nb_hops :: nat
  nb_stop :: bool

definition nb_init :: "bytes \<Rightarrow> nat \<Rightarrow> nbox res" where
  "nb_init data n =
     (let boxes = replicate n (zeros (length data)) in
      if boxes = [] then Inl IndexError
      else Inr \<lparr>nb_boxes = boxes[0 := data], nb_active = 0, nb_hops = 0, nb_stop = False\<rparr>)"

definition nb_hop :: "nbox \<Rightarrow> nbox" where
  "nb_hop s =
     (let n = length (nb_boxes s); nxt = (nb_active s + 1) mod n;
          src = nb_boxes s ! nb_active s; dst = nb_boxes s ! nxt
      in s\<lparr>nb_boxes := (nb_boxes s)[nxt := copy_pieces BOX_SIZE src dst],
           nb_active := nxt, nb_hops := nb_hops s + 1\<rparr>)"

definition nb_iter :: "nbox \<Rightarrow> nbox option" where
  "nb_iter s = (if nb_stop s then None else Some (nb_hop s))"

definition nb_collapse :: "nbox \<Rightarrow> nbox" where
  "nb_collapse s = s\<lparr>nb_stop := True, nb_boxes := []\<rparr>"

definition nb_held :: "nbox \<Rightarrow> bytes" where
  "nb_held s = nb_boxes s ! nb_active s"

definition nb_ok :: "nbox \<Rightarrow> bool" where
  "nb_ok s \<longleftrightarrow> nb_active s < length (nb_boxes s) \<and>
     (\<forall>b \<in> set (nb_boxes s). length b = length (nb_held s))"

lemma nb_copy:
  assumes "nb_ok s" "i < length (nb_boxes s)"
  shows "copy_pieces BOX_SIZE (nb_boxes s ! nb_active s) (nb_boxes s ! i) = nb_held s"
proof -
  have "length (nb_boxes s ! i) = length (nb_held s)"
    using assms nth_mem [of i "nb_boxes s"] unfolding nb_ok_def by blast
  then show ?thesis by (simp add: nb_held_def)
qed

lemma nb_hop_fields:
  assumes "nb_ok s"
  shows "nb_active (nb_hop s) = (nb_active s + 1) mod length (nb_boxes s)"
    and "nb_boxes (nb_hop s) = (nb_boxes s)[(nb_active s + 1) mod length (nb_boxes s) := nb_held s]"
proof -
  have "(nb_active s + 1) mod length (nb_boxes s) < length (nb_boxes s)"
    using assms by (auto simp: nb_ok_def intro: mod_in_range)
  from nb_copy [OF assms this] show
    "nb_active (nb_hop s) = (nb_active s + 1) mod length (nb_boxes s)"
    "nb_boxes (nb_hop s) = (nb_boxes s)[(nb_active s + 1) mod length (nb_boxes s) := nb_held s]"
    by (simp_all add: nb_hop_def Let_def)
qed

lemma nb_hop_held: "nb_ok s \<Longrightarrow> nb_held (nb_hop s) = nb_held s"
proof -
  assume ok: "nb_ok s"
  then have "(nb_active s + 1) mod length (nb_boxes s) < length (nb_boxes s)"
    by (auto simp: nb_ok_def intro: mod_in_range)
  then show ?thesis using nb_hop_fields [OF ok] by (simp add: nb_held_def)
qed

lemma nb_hop_ok:
  assumes "nb_ok s"
  shows "nb_ok (nb_hop s)"
proof -
  have "nb_active (nb_hop s) < length (nb_boxes (nb_hop s))"
    using assms nb_hop_fields [OF assms] by (auto simp: nb_ok_def intro: mod_in_range)
  moreover have "length b = length (nb_held s)" if "b \<in> set (nb_boxes (nb_hop s))" for b
  proof -
    from that have "b \<in> insert (nb_held s) (set (nb_boxes s))"
      using nb_hop_fields(2) [OF assms] set_update_subset_insert by fastforce
    then show ?thesis using assms unfolding nb_ok_def by blast
  qed
  ultimately show ?thesis
    unfolding nb_ok_def using nb_hop_held [OF assms] by simp
qed

interpretation nb: falling "\<lambda>_. True" "\<lambda>_::unit. nb_hop" nb_held nb_ok
  by unfold_locales (simp_all add: nb_hop_ok nb_hop_held)

text \<open>After \<open>k\<close> hops the buffers \<open>0..k\<close> (all of them, once \<open>n - 1 \<le> k\<close>) hold the whole data.\<close>

lemma nb_init_ok:
  "nb_init d n = Inr s \<Longrightarrow> nb_ok s \<and> nb_held s = d \<and> nb_active s = 0 \<and> length (nb_boxes s) = n \<and> 0 < n"
  by (cases n) (auto simp: nb_init_def nb_ok_def nb_held_def Let_def)

definition nb_filled :: "nat \<Rightarrow> nbox \<Rightarrow> bool" where
  "nb_filled k s \<longleftrightarrow> (\<forall>i < length (nb_boxes s). i \<le> k \<longrightarrow> nb_boxes s ! i = nb_held s)"

lemma nb_walk:
  assumes "nb_ok s" "nb_active s = 0" "k < length (nb_boxes s)"
  shows "nb_ok ((nb_hop ^^ k) s) \<and> nb_active ((nb_hop ^^ k) s) = k \<and>
         length (nb_boxes ((nb_hop ^^ k) s)) = length (nb_boxes s) \<and> nb_filled k ((nb_hop ^^ k) s)"
  using assms(3)
proof (induction k)
  case 0
  then show ?case using assms by (simp add: nb_filled_def nb_held_def)
next
  case (Suc k)
  let ?t = "(nb_hop ^^ k) s"
  from Suc have t: "nb_ok ?t" "nb_active ?t = k" "length (nb_boxes ?t) = length (nb_boxes s)"
    "nb_filled k ?t" by simp_all
  moreover have "nb_filled (Suc k) (nb_hop ?t)"
    using t Suc.prems nb_hop_fields [OF t(1)] nb_hop_held [OF t(1)]
    by (auto simp: nb_filled_def nth_list_update)
  ultimately show ?case
    using Suc.prems nb_hop_fields [OF t(1)] by (simp add: nb_hop_ok)
qed

section \<open>Zeroing what was left: zeroing\_falling.py\<close>

record zbox =
  zb_a :: bytes
  zb_b :: bytes
  zb_active :: slot
  zb_hops :: nat
  zb_stop :: bool

definition zb_init :: "bytes \<Rightarrow> zbox" where
  "zb_init data = \<lparr>zb_a = data, zb_b = zeros (length data), zb_active = BoxA, zb_hops = 0,
     zb_stop = False\<rparr>"

text \<open>\<open>for i in range(len(box)): box[i] = 0\<close>\<close>

definition zero_loop :: "bytes \<Rightarrow> bytes" where
  "zero_loop b = fold (\<lambda>i b. b[i := 0]) [0..<length b] b"

text \<open>A hop first copies, then zeroes the buffer it left; the first half is named because the
  lock does not hide memory from a dump taken in between.\<close>

definition zb_copy :: "zbox \<Rightarrow> zbox" where
  "zb_copy s = (case zb_active s of
      BoxA \<Rightarrow> s\<lparr>zb_b := copy_pieces BOX_SIZE (zb_a s) (zb_b s)\<rparr>
    | BoxB \<Rightarrow> s\<lparr>zb_a := copy_pieces BOX_SIZE (zb_b s) (zb_a s)\<rparr>)"

definition zb_hop :: "zbox \<Rightarrow> zbox" where
  "zb_hop s =
     (let s1 = zb_copy s;
          s2 = (case zb_active s of
              BoxA \<Rightarrow> s1\<lparr>zb_a := zero_loop (zb_a s1), zb_active := BoxB\<rparr>
            | BoxB \<Rightarrow> s1\<lparr>zb_b := zero_loop (zb_b s1), zb_active := BoxA\<rparr>)
      in s2\<lparr>zb_hops := zb_hops s + 1\<rparr>)"

definition zb_iter :: "zbox \<Rightarrow> zbox option" where
  "zb_iter s = (if zb_stop s then None else Some (zb_hop s))"

definition zb_collapse :: "zbox \<Rightarrow> zbox" where
  "zb_collapse s = s\<lparr>zb_stop := True, zb_a := [], zb_b := []\<rparr>"

definition zb_held :: "zbox \<Rightarrow> bytes" where
  "zb_held s = (case zb_active s of BoxA \<Rightarrow> zb_a s | BoxB \<Rightarrow> zb_b s)"

definition zb_left :: "zbox \<Rightarrow> bytes" where
  "zb_left s = (case zb_active s of BoxA \<Rightarrow> zb_b s | BoxB \<Rightarrow> zb_a s)"

definition zb_ok :: "zbox \<Rightarrow> bool" where
  "zb_ok s \<longleftrightarrow> zb_left s = zeros (length (zb_held s))"

lemma zero_loop_upto: "k \<le> length b \<Longrightarrow> fold (\<lambda>i b. b[i := 0]) [0..<k] b = zeros k @ drop k b"
proof (induction k)
  case (Suc k)
  then have "drop k b = b ! k # drop (Suc k) b" by (simp add: Cons_nth_drop_Suc)
  with Suc show ?case
    by (simp add: list_update_append zeros_add [of k 1, simplified]) (simp add: zeros_def)
qed simp

lemma zero_loop_zeros [simp]: "zero_loop b = zeros (length b)"
  by (simp add: zero_loop_def zero_loop_upto)

lemma zb_hop_effect: "zb_ok s \<Longrightarrow> zb_held (zb_hop s) = zb_held s \<and> zb_left (zb_hop s) = zeros (length (zb_held s))"
  by (auto simp: zb_ok_def zb_hop_def zb_copy_def zb_held_def zb_left_def Let_def split: slot.splits)

interpretation zb: falling "\<lambda>_. True" "\<lambda>_::unit. zb_hop" zb_held zb_ok
  by unfold_locales (simp_all add: zb_hop_effect, simp add: zb_ok_def zb_hop_effect)

section \<open>Page-aligned, locked buffers: secure\_falling\_box.py\<close>

record sfbox =
  sf_len :: nat
  sf_a :: mmap
  sf_b :: mmap
  sf_active :: slot
  sf_hops :: nat
  sf_stop :: bool
  sf_paused :: bool

definition secure_zero :: "bytes \<Rightarrow> bytes" where
  "secure_zero buf = (if buf \<noteq> [] then zeros (length buf) else buf)"

definition sf_init :: "nat \<Rightarrow> bytes \<Rightarrow> sfbox res" where
  "sf_init page data =
     (let len = round_up_page page (length data) in
      map_res (\<lambda>a. \<lparr>sf_len = length data, sf_a = a, sf_b = mm_new len, sf_active = BoxA, sf_hops = 0,
                    sf_stop = False, sf_paused = False\<rparr>)
        (mm_write (mm_new len) 0 (length data) data))"

text \<open>\<open>box_b[:] = box_a[:]\<close>: whole blocks; on a closed block the mover's thread dies of the
  exception, so an error here is the end of the motion.\<close>

definition mm_copy_all :: "mmap \<Rightarrow> mmap \<Rightarrow> mmap res" where
  "mm_copy_all src dst =
     (case src of None \<Rightarrow> Inl ValueError
      | Some b \<Rightarrow> (case dst of None \<Rightarrow> Inl ValueError | Some d \<Rightarrow> mm_write dst 0 (length d) b))"

definition sf_hop :: "sfbox \<Rightarrow> sfbox res" where
  "sf_hop s = map_res (\<lambda>s'. s'\<lparr>sf_hops := sf_hops s + 1\<rparr>) (case sf_active s of
      BoxA \<Rightarrow> map_res (\<lambda>b. s\<lparr>sf_b := b, sf_active := BoxB\<rparr>) (mm_copy_all (sf_a s) (sf_b s))
    | BoxB \<Rightarrow> map_res (\<lambda>a. s\<lparr>sf_a := a, sf_active := BoxA\<rparr>) (mm_copy_all (sf_b s) (sf_a s)))"

definition sf_snapshot :: "sfbox \<Rightarrow> bytes res" where
  "sf_snapshot s = mm_read (case sf_active s of BoxA \<Rightarrow> sf_a s | BoxB \<Rightarrow> sf_b s) 0 (sf_len s)"

definition sf_collapse :: "sfbox \<Rightarrow> sfbox" where
  "sf_collapse s = s\<lparr>sf_stop := True, sf_a := mm_close (sf_a s), sf_b := mm_close (sf_b s)\<rparr>"

definition sf_ok :: "sfbox \<Rightarrow> bool" where
  "sf_ok s \<longleftrightarrow> (\<exists>a b. sf_a s = Some a \<and> sf_b s = Some b \<and> length a = length b)"

lemma mm_copy_all_Some: "length s = length d \<Longrightarrow> mm_copy_all (Some s) (Some d) = Inr (Some s)"
  by (simp add: mm_copy_all_def mm_write_Some slice_assign_def)

lemma sf_hop_effect:
  assumes "sf_ok s"
  shows "\<exists>t. sf_hop s = Inr t \<and> sf_ok t \<and> sf_snapshot t = sf_snapshot s"
proof -
  from assms obtain a b where ab: "sf_a s = Some a" "sf_b s = Some b" "length a = length b"
    by (auto simp: sf_ok_def)
  then show ?thesis
    by (cases "sf_active s") (auto simp: sf_hop_def mm_copy_all_Some sf_ok_def sf_snapshot_def)
qed

text \<open>A hop that raises ends the mover; otherwise the mover goes on with the new state.\<close>

definition sf_turn :: "sfbox \<Rightarrow> sfbox" where
  "sf_turn s = (if sf_stop s \<or> sf_paused s then s else case sf_hop s of Inl _ \<Rightarrow> s | Inr t \<Rightarrow> t)"

interpretation sf: falling "\<lambda>_. True" "\<lambda>_::unit. sf_turn" sf_snapshot sf_ok
proof (unfold_locales, goal_cases)
  case (1 i s)
  then show ?case using sf_hop_effect [of s] by (auto simp: sf_turn_def)
next
  case (2 i s)
  then show ?case using sf_hop_effect [of s] by (auto simp: sf_turn_def)
qed

lemma sf_init_ok:
  assumes "0 < page"
  shows "\<exists>s. sf_init page d = Inr s \<and> sf_ok s \<and> sf_snapshot s = Inr d"
proof -
  let ?n = "round_up_page page (length d)"
  have le: "length d \<le> ?n" using assms by (rule round_up_page_ge)
  then show ?thesis
    by (auto simp: sf_init_def Let_def mm_new_def mm_write_Some sf_ok_def sf_snapshot_def slice_simps)
qed

section \<open>Properties\<close>

text \<open>
  The finding behind dropping the many-buffer box: once it has hopped \<open>n - 1\<close> times,
  every one of its \<open>n\<close> buffers holds a full copy of the data, so more boxes mean more copies in
  memory and not fewer.
\<close>

theorem nbox_every_buffer_full:
  assumes "nb_init d n = Inr s"
  shows "nb_boxes ((nb_hop ^^ (n - 1)) s) = replicate n d"
proof -
  from nb_init_ok [OF assms] have s: "nb_ok s" "nb_held s = d" "nb_active s = 0"
    "length (nb_boxes s) = n" "0 < n" by simp_all
  let ?t = "(nb_hop ^^ (n - 1)) s"
  have "nb_held ?t = d"
    using nb.hops_held [of "replicate (n - 1) ()" s] s by (simp add: list_all_iff fold_replicate)
  with nb_walk [of s "n - 1"] s show ?thesis
    by (auto simp: nb_filled_def intro!: nth_equalityI)
qed

theorem nbox_every_buffer_full_witness:
  "\<exists>s. nb_init [5, 6] 3 = Inr s \<and> nb_boxes ((nb_hop ^^ (3 - 1)) s) = replicate 3 [5, 6]"
  using nbox_every_buffer_full [of "[5, 6]" 3] by (simp add: nb_init_def)

text \<open>
  The zeroing box: between hops the buffer that is not active holds zeros only, so
  exactly one copy of the data is live; but inside every hop, after the copy and before the
  zeroing, both buffers hold the data.
\<close>

theorem zeroing_one_live_copy:
  "zb_held ((zb_hop ^^ k) (zb_init d)) = d \<and>
   zb_left ((zb_hop ^^ k) (zb_init d)) = zeros (length d) \<and>
   zb_a (zb_copy ((zb_hop ^^ k) (zb_init d))) = d \<and>
   zb_b (zb_copy ((zb_hop ^^ k) (zb_init d))) = d"
proof -
  let ?s = "(zb_hop ^^ k) (zb_init d)"
  have "zb_ok (zb_init d)" "zb_held (zb_init d) = d"
    by (simp_all add: zb_ok_def zb_init_def zb_left_def zb_held_def)
  then have "zb_ok ?s" "zb_held ?s = d"
    using zb.hops_ok [of "replicate k ()"] zb.hops_held [of "replicate k ()"]
    by (simp_all add: list_all_iff fold_replicate)
  then show ?thesis
    by (auto simp: zb_ok_def zb_held_def zb_left_def zb_copy_def split: slot.splits)
qed

text \<open>
  The locked, page-aligned box: construction succeeds for every data and page size,
  any number of turns of the mover leaves the snapshot equal to the data (the padding of the last
  page never shows), and after a collapse every snapshot raises.
\<close>

theorem secure_box_snapshot:
  assumes "0 < page"
  shows "\<exists>s. sf_init page d = Inr s \<and> sf_snapshot ((sf_turn ^^ k) s) = Inr d \<and>
             sf_snapshot (sf_collapse ((sf_turn ^^ k) s)) = Inl ValueError"
proof -
  from sf_init_ok [OF assms] obtain s where s: "sf_init page d = Inr s" "sf_ok s" "sf_snapshot s = Inr d"
    by blast
  then have "sf_snapshot ((sf_turn ^^ k) s) = Inr d"
    using sf.hops_held [of "replicate k ()" s] by (simp add: list_all_iff fold_replicate)
  with s show ?thesis
    by (auto simp: sf_collapse_def sf_snapshot_def mm_close_def split: slot.splits)
qed

theorem secure_box_snapshot_witness:
  "\<exists>s. sf_init 4096 [1, 2, 3] = Inr s \<and> sf_snapshot ((sf_turn ^^ 2) s) = Inr [1, 2, 3] \<and>
       sf_snapshot (sf_collapse ((sf_turn ^^ 2) s)) = Inl ValueError"
  by (rule secure_box_snapshot) simp

end
