(* ===== verification/SplitKeyGuard.thy ===== *)
theory SplitKeyGuard
  imports Environment Mmap FallingBox
begin

text \<open>
  \<open>vstorage/split_key_guard.py\<close>: a key compressed and split into one cell per byte, each cell a
  pair of pages between which its byte bounces. The addresses of the pages, which the operating
  system chooses, are arguments. What the scheduler does to a cell under the guard's lock is
  \<open>guard_bounce\<close>; the scheduler itself is in \<open>Scheduler\<close>.
\<close>

definition PAGE_SIZE :: nat where
  "PAGE_SIZE = 4096"

lemma PAGE_SIZE_ge [simp]: "Suc 0 \<le> PAGE_SIZE" "0 < PAGE_SIZE" "PAGE_SIZE \<noteq> 0"
  by (simp_all add: PAGE_SIZE_def)

section \<open>One cell\<close>

record cell =
  c_page_a :: mmap
  c_page_b :: mmap
  c_active :: slot
  c_addr_a :: nat
  c_addr_b :: nat

definition cell_new :: "nat \<Rightarrow> nat \<Rightarrow> byte \<Rightarrow> cell" where
  "cell_new addr_a addr_b v =
     \<lparr>c_page_a = Some (slice_assign (zeros PAGE_SIZE) 0 1 [v]), c_page_b = mm_new PAGE_SIZE,
      c_active = BoxA, c_addr_a = addr_a, c_addr_b = addr_b\<rparr>"

definition cell_bounce :: "cell \<Rightarrow> cell res" where
  "cell_bounce c =
     (case c_active c of
        BoxA \<Rightarrow> (case mm_read (c_page_a c) 0 1 of Inl e \<Rightarrow> Inl e | Inr b \<Rightarrow>
                (case mm_write (c_page_b c) 0 1 b of Inl e \<Rightarrow> Inl e
                 | Inr m \<Rightarrow> Inr (c\<lparr>c_page_b := m, c_active := BoxB\<rparr>)))
      | BoxB \<Rightarrow> (case mm_read (c_page_b c) 0 1 of Inl e \<Rightarrow> Inl e | Inr b \<Rightarrow>
                (case mm_write (c_page_a c) 0 1 b of Inl e \<Rightarrow> Inl e
                 | Inr m \<Rightarrow> Inr (c\<lparr>c_page_a := m, c_active := BoxA\<rparr>))))"

definition cell_page :: "cell \<Rightarrow> mmap" where
  "cell_page c = (case c_active c of BoxA \<Rightarrow> c_page_a c | BoxB \<Rightarrow> c_page_b c)"

definition cell_read :: "cell \<Rightarrow> byte res" where
  "cell_read c =
     (case cell_page c of None \<Rightarrow> Inl ValueError | Some [] \<Rightarrow> Inl IndexError | Some (b # _) \<Rightarrow> Inr b)"

definition cell_write :: "byte \<Rightarrow> cell \<Rightarrow> cell res" where
  "cell_write v c =
     (case mm_write (cell_page c) 0 1 [v] of Inl e \<Rightarrow> Inl e
      | Inr m \<Rightarrow> Inr (case c_active c of BoxA \<Rightarrow> c\<lparr>c_page_a := m\<rparr> | BoxB \<Rightarrow> c\<lparr>c_page_b := m\<rparr>))"

text \<open>The length of a closed page raises.\<close>

definition cell_regions :: "cell \<Rightarrow> (nat \<times> nat) list res" where
  "cell_regions c =
     (case (c_page_a c, c_page_b c) of
        (Some a, Some b) \<Rightarrow> Inr [(c_addr_a c, length a), (c_addr_b c, length b)]
      | _ \<Rightarrow> Inl ValueError)"

definition cell_collapse :: "cell \<Rightarrow> cell" where
  "cell_collapse c = c\<lparr>c_page_a := mm_close (c_page_a c), c_page_b := mm_close (c_page_b c)\<rparr>"

text \<open>A live cell: both pages open and of page size.\<close>

definition cell_ok :: "cell \<Rightarrow> bool" where
  "cell_ok c \<longleftrightarrow> (\<exists>a b. c_page_a c = Some a \<and> c_page_b c = Some b \<and>
     length a = PAGE_SIZE \<and> length b = PAGE_SIZE)"

definition cell_byte :: "cell \<Rightarrow> byte" where
  "cell_byte c = (case cell_read c of Inl e \<Rightarrow> 0 | Inr b \<Rightarrow> b)"

lemma write_page:
  "length p = PAGE_SIZE \<Longrightarrow> mm_write (Some p) 0 (Suc 0) [v] = Inr (Some (v # drop 1 p))"
  by (simp add: mm_write_Some slice_assign_def)

lemma page_head: "length p = PAGE_SIZE \<Longrightarrow> py_slice p 0 (Suc 0) = [hd p]"
  by (cases p) (simp_all add: py_slice_def)

lemma cell_new_ok: "cell_ok (cell_new x y v)" and cell_new_byte: "cell_byte (cell_new x y v) = v"
  by (simp_all add: cell_ok_def cell_new_def mm_new_def cell_byte_def cell_read_def cell_page_def
      slice_assign_def)

lemma cell_read_ok:
  assumes "cell_ok c"
  shows "cell_read c = Inr (cell_byte c)"
proof -
  obtain p where "cell_page c = Some p" "length p = PAGE_SIZE"
    using assms by (cases "c_active c") (auto simp: cell_ok_def cell_page_def)
  then show ?thesis by (cases p) (simp_all add: cell_byte_def cell_read_def)
qed

lemma cell_bounce_ok:
  assumes "cell_ok c"
  shows "\<exists>c'. cell_bounce c = Inr c' \<and> cell_ok c' \<and> cell_byte c' = cell_byte c \<and> cell_regions c' = cell_regions c"
proof -
  obtain a b where ab: "c_page_a c = Some a" "c_page_b c = Some b" "length a = PAGE_SIZE" "length b = PAGE_SIZE"
    using assms by (auto simp: cell_ok_def)
  then have "a \<noteq> []" "b \<noteq> []" by auto
  then show ?thesis
    using ab by (cases "c_active c"; cases a; cases b)
      (simp_all add: cell_bounce_def page_head write_page cell_ok_def cell_byte_def cell_read_def cell_page_def
        cell_regions_def)
qed

lemma cell_write_ok:
  assumes "cell_ok c"
  shows "\<exists>c'. cell_write v c = Inr c' \<and> cell_ok c' \<and> cell_byte c' = v \<and> cell_regions c' = cell_regions c"
  using assms
  by (cases "c_active c")
    (auto simp: cell_ok_def cell_write_def cell_page_def write_page cell_byte_def cell_read_def cell_regions_def)

lemma cell_collapsed: "cell_read (cell_collapse c) = Inl ValueError" "cell_bounce (cell_collapse c) = Inl ValueError"
  "cell_write v (cell_collapse c) = Inl ValueError" "cell_collapse (cell_collapse c) = cell_collapse c"
  by (simp_all add: cell_collapse_def cell_read_def cell_bounce_def cell_write_def cell_page_def mm_close_def
      split: slot.splits)

section \<open>The guard\<close>

record guard =
  g_original_len :: nat
  g_compressed_len :: nat
  g_min_interval :: time
  g_max_interval :: time
  g_cells :: "cell list"
  g_hops :: "nat list"
  g_removed :: bool

definition guard_new :: "env \<Rightarrow> (nat \<Rightarrow> nat) \<Rightarrow> time \<Rightarrow> time \<Rightarrow> bytes \<Rightarrow> guard" where
  "guard_new E addrs min_interval max_interval key =
     (let compressed = lzma_compress E 9 key in
      \<lparr>g_original_len = length key, g_compressed_len = length compressed,
       g_min_interval = min_interval, g_max_interval = max_interval,
       g_cells = map (\<lambda>(i, b). cell_new (addrs (2 * i)) (addrs (2 * i + 1)) b)
         (enumerate 0 compressed),
       g_hops = replicate (length compressed) 0, g_removed = False\<rparr>)"

definition guard_reconstruct :: "env \<Rightarrow> guard \<Rightarrow> bytes res" where
  "guard_reconstruct E g =
     (case mapM cell_read (g_cells g) of Inl e \<Rightarrow> Inl e | Inr compressed \<Rightarrow> lzma_decompress E compressed)"

text \<open>The loop of \<open>update\<close>: cells before one that raises have been rewritten.\<close>

fun write_cells :: "cell list \<Rightarrow> bytes \<Rightarrow> unit res \<times> cell list" where
  "write_cells (c # cs) (b # bs) =
     (case cell_write b c of
        Inl e \<Rightarrow> (Inl e, c # cs)
      | Inr c' \<Rightarrow> (let (r, cs') = write_cells cs bs in (r, c' # cs')))"
| "write_cells cs _ = (Inr (), cs)"

definition guard_update :: "env \<Rightarrow> bytes \<Rightarrow> guard \<Rightarrow> bool res \<times> guard" where
  "guard_update E new_key g =
     (let compressed = lzma_compress E 9 new_key in
      if length compressed \<noteq> length (g_cells g) then (Inr False, g)
      else (let (r, cs) = write_cells (g_cells g) compressed in (map_res (\<lambda>_. True) r, g\<lparr>g_cells := cs\<rparr>)))"

definition guard_regions :: "guard \<Rightarrow> (nat \<times> nat) list res" where
  "guard_regions g = map_res concat (mapM cell_regions (g_cells g))"

definition guard_collapse :: "guard \<Rightarrow> guard" where
  "guard_collapse g = g\<lparr>g_removed := True, g_cells := map cell_collapse (g_cells g)\<rparr>"

text \<open>
  The part of \<open>_GlobalCellScheduler._run\<close> that holds the guard's lock: bounce one cell and count
  the hop. The flag says whether the cell is due again; a removed guard and an exception drop it.
\<close>

definition guard_bounce :: "nat \<Rightarrow> guard \<Rightarrow> bool \<times> guard" where
  "guard_bounce idx g =
     (if g_removed g then (False, g)
      else if length (g_cells g) \<le> idx then (False, g)
      else (case cell_bounce (g_cells g ! idx) of
              Inl e \<Rightarrow> (False, g)
            | Inr c \<Rightarrow> (True, g\<lparr>g_cells := (g_cells g)[idx := c], g_hops := (g_hops g)[idx := g_hops g ! idx + 1]\<rparr>)))"

text \<open>A live guard, what it holds, and its constructor's result.\<close>

definition guard_ok :: "guard \<Rightarrow> bool" where
  "guard_ok g \<longleftrightarrow> list_all cell_ok (g_cells g) \<and> \<not> g_removed g"

definition guard_bytes :: "guard \<Rightarrow> bytes" where
  "guard_bytes g = map cell_byte (g_cells g)"

lemma guard_reconstruct_ok: "guard_ok g \<Longrightarrow> guard_reconstruct E g = lzma_decompress E (guard_bytes g)"
  by (simp add: guard_reconstruct_def guard_bytes_def guard_ok_def list_all_iff
      mapM_Inr [of "g_cells g" cell_read cell_byte] cell_read_ok)

lemma guard_new_ok: "guard_ok (guard_new E ad lo hi key)"
  and guard_new_bytes: "guard_bytes (guard_new E ad lo hi key) = lzma_compress E 9 key"
proof -
  show "guard_ok (guard_new E ad lo hi key)"
    by (auto simp: guard_ok_def guard_new_def Let_def list_all_iff cell_new_ok)
  have "map (cell_byte \<circ> (\<lambda>(i, b). cell_new (ad (2 * i)) (ad (2 * i + 1)) b)) (enumerate 0 c)
      = map snd (enumerate 0 c)" for c :: bytes
    by (rule map_cong) (auto simp: cell_new_byte)
  then show "guard_bytes (guard_new E ad lo hi key) = lzma_compress E 9 key"
    by (simp add: guard_bytes_def guard_new_def Let_def)
qed

lemma guard_bounce_ok:
  assumes "guard_ok g"
  shows "guard_ok (snd (guard_bounce i g)) \<and> guard_bytes (snd (guard_bounce i g)) = guard_bytes g \<and>
    (fst (guard_bounce i g) \<longleftrightarrow> i < length (g_cells g))"
proof (cases "i < length (g_cells g)")
  case True
  then have "cell_ok (g_cells g ! i)" using assms by (simp add: guard_ok_def list_all_length)
  from cell_bounce_ok [OF this] obtain c' where c': "cell_bounce (g_cells g ! i) = Inr c'" "cell_ok c'"
    "cell_byte c' = cell_byte (g_cells g ! i)" by auto
  have "map cell_byte ((g_cells g)[i := c']) = map cell_byte (g_cells g)"
    using True c'(3) by (simp add: map_update list_update_same_conv)
  then show ?thesis
    using True assms c' by (auto simp: guard_bounce_def guard_ok_def guard_bytes_def list_all_length nth_list_update)
qed (use assms in \<open>simp add: guard_bounce_def guard_ok_def\<close>)

interpretation gb: falling "\<lambda>_. True" "\<lambda>i g. snd (guard_bounce i g)" guard_bytes guard_ok
  by unfold_locales (simp_all add: guard_bounce_ok)

lemma write_cells_ok:
  assumes "list_all cell_ok cs" "length bs = length cs"
  shows "\<exists>cs'. write_cells cs bs = (Inr (), cs') \<and> list_all cell_ok cs' \<and> map cell_byte cs' = bs"
  using assms(2,1)
proof (induction bs cs rule: list_induct2)
  case (Cons b bs c cs)
  then show ?case using cell_write_ok [of c b] by auto
qed simp

lemma guard_update_ok:
  assumes "guard_ok g"
  shows "guard_ok (snd (guard_update E key g)) \<and>
    (length (lzma_compress E 9 key) = length (g_cells g) \<longrightarrow>
       fst (guard_update E key g) = Inr True \<and> guard_bytes (snd (guard_update E key g)) = lzma_compress E 9 key) \<and>
    (length (lzma_compress E 9 key) \<noteq> length (g_cells g) \<longrightarrow> guard_update E key g = (Inr False, g))"
  using write_cells_ok [of "g_cells g" "lzma_compress E 9 key"] assms
  by (auto simp: guard_update_def Let_def guard_ok_def guard_bytes_def)

lemma guard_held:
  assumes "lzma_ok E" "guard_ok g" "guard_bytes g = lzma_compress E 9 key"
  shows "guard_reconstruct E (fold (\<lambda>i g. snd (guard_bounce i g)) is g) = Inr key"
  using gb.hops_ok [OF _ assms(2), of "is"] gb.hops_held [OF _ assms(2), of "is"] assms
  by (simp add: guard_reconstruct_ok list_all_iff lzma_simps)

section \<open>Properties\<close>

text \<open>
  A guard gives its key back after any bounces of its cells, in any order; after an
  update that reports success it gives the new key back, and after one that reports failure,
  because the compressed length differs, still the old one.
\<close>

theorem guard_keeps_key:
  assumes "lzma_ok E"
    and g_def: "g = fold (\<lambda>i g. snd (guard_bounce i g)) is (guard_new E addrs lo hi key)"
    and u_def: "u = fold (\<lambda>i g. snd (guard_bounce i g)) js (snd (guard_update E new_key g))"
  shows "guard_reconstruct E g = Inr key \<and>
    (fst (guard_update E new_key g) = Inr True \<and> guard_reconstruct E u = Inr new_key \<or>
     fst (guard_update E new_key g) = Inr False \<and> guard_reconstruct E u = Inr key)"
proof -
  have g: "guard_ok g" "guard_bytes g = lzma_compress E 9 key"
    using gb.hops_ok [OF _ guard_new_ok, of "is"] gb.hops_held [OF _ guard_new_ok, of "is"]
    by (simp_all add: g_def guard_new_bytes list_all_iff)
  have "guard_reconstruct E g = Inr key"
    using guard_held [OF assms(1) g, of "[]"] by simp
  moreover have "fst (guard_update E new_key g) = Inr True \<and> guard_reconstruct E u = Inr new_key \<or>
     fst (guard_update E new_key g) = Inr False \<and> guard_reconstruct E u = Inr key"
    using guard_update_ok [OF g(1), of E new_key] guard_held [OF assms(1) _ _, of _ _ js] g
    unfolding u_def by (metis fst_conv snd_conv)
  ultimately show ?thesis by blast
qed

theorem guard_keeps_key_witness:
  "guard_reconstruct demo_env (fold (\<lambda>i g. snd (guard_bounce i g)) [0, 2, 0]
     (guard_new demo_env (\<lambda>i. 4096 * i) 0 1 [1, 2, 3])) = Inr [1, 2, 3]"
  using guard_keeps_key [OF env_okD(2) [OF demo_env_ok] refl refl] by blast

lemma guard_collapse_bounce:
  "fold (\<lambda>i g. snd (guard_bounce i g)) is (guard_collapse g) = guard_collapse g"
  by (induction "is") (simp_all add: guard_bounce_def guard_collapse_def)

text \<open>
  A collapsed guard is inert: no scheduler step touches its closed pages or puts the
  cell back on the schedule, and reading or rewriting the key raises \<open>ValueError\<close>.
\<close>

theorem collapsed_guard_is_inert:
  assumes "g_cells g \<noteq> []"
    and d_def: "d = fold (\<lambda>i g. snd (guard_bounce i g)) is (guard_collapse g)"
  shows "d = guard_collapse g \<and> fst (guard_bounce i d) = False \<and>
    guard_reconstruct E d = Inl ValueError \<and>
    (length (lzma_compress E 9 key) = length (g_cells g) \<longrightarrow> fst (guard_update E key d) = Inl ValueError)"
proof -
  obtain c cs where cs: "g_cells g = c # cs" using assms(1) by (cases "g_cells g") auto
  have "fst (write_cells (g_cells (guard_collapse g)) (lzma_compress E 9 key)) = Inl ValueError"
    if "length (lzma_compress E 9 key) = length (g_cells g)"
    using that cs by (cases "lzma_compress E 9 key") (simp_all add: guard_collapse_def cell_collapsed)
  then show ?thesis
    using guard_collapse_bounce [of "is" g] cs
    by (simp add: d_def guard_reconstruct_def guard_bounce_def guard_update_def Let_def split_def)
      (simp add: guard_collapse_def cell_collapsed)
qed

theorem collapsed_guard_is_inert_witness:
  "guard_reconstruct demo_env (fold (\<lambda>i g. snd (guard_bounce i g)) [0, 1]
     (guard_collapse (guard_new demo_env (\<lambda>i. i) 0 1 [1]))) = Inl ValueError"
proof -
  have "g_cells (guard_new demo_env (\<lambda>i. i) 0 1 [1]) \<noteq> []"
    by (simp add: guard_new_def demo_env_simps)
  from collapsed_guard_is_inert [OF this refl] show ?thesis by blast
qed

end
