(* ===== verification/Scheduler.thy ===== *)
theory Scheduler
  imports SplitKeyGuard "HOL-Library.Multiset" "HOL-Library.Product_Lexorder"
begin

text \<open>
  The two shared mover pools: \<open>_GlobalCellScheduler\<close> (\<open>split_key_guard.py\<close>) and
  \<open>_GlobalFallScheduler\<close> (\<open>chunked_secure_box.py\<close>). Both keep a heap of entries ordered by due
  time and sequence number, from which several workers take what is due, serve it under the lock
  of its owner and put it back. The heap operations are shared; the two registrations and the
  workers' locked sections are per pool. Workers and registrations interleave freely in
  \<open>sched_step\<close>; the clock may show any value at each step.
\<close>

section \<open>The heap of due times\<close>

record 'i sched =
  sc_worker_count :: nat
  sc_heap :: "(time \<times> nat \<times> 'i) list"
  sc_seq :: nat
  sc_threads :: nat

definition sc_init :: "nat \<Rightarrow> 'i sched" where
  "sc_init worker_count = \<lparr>sc_worker_count = worker_count, sc_heap = [], sc_seq = 0, sc_threads = 0\<rparr>"

definition DEFAULT_WORKERS :: nat where
  "DEFAULT_WORKERS = 4"

text \<open>\<open>_ensure_started\<close>: the threads are started once.\<close>

definition sc_ensure_started :: "'i sched \<Rightarrow> 'i sched" where
  "sc_ensure_started s = (if sc_threads s \<noteq> 0 then s else s\<lparr>sc_threads := sc_worker_count s\<rparr>)"

definition entry_key :: "time \<times> nat \<times> 'i \<Rightarrow> time \<times> nat" where
  "entry_key e = (fst e, fst (snd e))"

definition entry_item :: "time \<times> nat \<times> 'i \<Rightarrow> 'i" where
  "entry_item e = snd (snd e)"

text \<open>\<open>self._seq += 1; heappush(self._heap, (due, self._seq, item))\<close>. Sequence numbers differ, so a
  tuple comparison never reaches the item.\<close>

definition sc_push :: "time \<Rightarrow> 'i \<Rightarrow> 'i sched \<Rightarrow> 'i sched" where
  "sc_push due i s = s\<lparr>sc_seq := sc_seq s + 1, sc_heap := insort_key entry_key (due, sc_seq s + 1, i) (sc_heap s)\<rparr>"

text \<open>What a worker does with the lock held: nothing when the heap is empty or its least entry is
  not due yet, otherwise it takes that entry.\<close>

definition sc_take :: "time \<Rightarrow> 'i sched \<Rightarrow> ('i \<times> 'i sched) option" where
  "sc_take now s =
     (case sc_heap s of
        [] \<Rightarrow> None
      | e # rest \<Rightarrow> if fst e - now > 0 then None else Some (entry_item e, s\<lparr>sc_heap := rest\<rparr>))"

text \<open>A box is due at once; each cell of a guard after its own random interval.\<close>

definition fall_register :: "time \<Rightarrow> 'b \<Rightarrow> 'b sched \<Rightarrow> 'b sched" where
  "fall_register now box s = sc_push now box (sc_ensure_started s)"

definition cell_register :: "time \<Rightarrow> (nat \<Rightarrow> time) \<Rightarrow> 'g \<Rightarrow> nat \<Rightarrow> ('g \<times> nat) sched \<Rightarrow> ('g \<times> nat) sched" where
  "cell_register now uniform g cells s =
     fold (\<lambda>idx. sc_push (now + uniform idx) (g, idx)) [0..<cells] (sc_ensure_started s)"

text \<open>The cell pool's locked section: with the guard's lock, one bounce and the next due time.\<close>

definition cell_serve :: "time \<Rightarrow> time \<Rightarrow> nat \<Rightarrow> guard \<Rightarrow> time option \<times> guard" where
  "cell_serve now uniform idx g =
     (let (due_again, g') = guard_bounce idx g in (if due_again then Some (now + uniform) else None, g'))"

section \<open>Workers\<close>

datatype 'i worker = W_Idle | W_Popped 'i | W_Rearm time 'i

text \<open>\<open>dropped\<close> and \<open>registered\<close> record history; no step looks at them.\<close>

record ('i, 'w) pool_sys =
  y_sched :: "'i sched"
  y_workers :: "'i worker list"
  y_world :: 'w
  y_dropped :: "'i list"
  y_registered :: "'i list"

definition pool_init :: "nat \<Rightarrow> 'w \<Rightarrow> ('i, 'w) pool_sys" where
  "pool_init n w = \<lparr>y_sched = sc_init n, y_workers = replicate n W_Idle, y_world = w, y_dropped = [], y_registered = []\<rparr>"

text \<open>
  \<open>serve i w r w'\<close>: serving item \<open>i\<close> can turn the world \<open>w\<close> into \<open>w'\<close> and ask for the due time in \<open>r\<close>,
  or for none. Objects register themselves when they are constructed, so an item registers once.
\<close>

inductive sched_step ::
  "('i \<Rightarrow> 'w \<Rightarrow> time option \<Rightarrow> 'w \<Rightarrow> bool) \<Rightarrow> ('i, 'w) pool_sys \<Rightarrow> ('i, 'w) pool_sys \<Rightarrow> bool" for serve where
  register: "i \<notin> set (y_registered s) \<Longrightarrow>
     sched_step serve s (s\<lparr>y_sched := sc_push due i (sc_ensure_started (y_sched s)),
       y_registered := i # y_registered s, y_world := w'\<rparr>)"
| take: "k < length (y_workers s) \<Longrightarrow> y_workers s ! k = W_Idle \<Longrightarrow> sc_take now (y_sched s) = Some (i, c) \<Longrightarrow>
     sched_step serve s (s\<lparr>y_sched := c, y_workers := (y_workers s)[k := W_Popped i]\<rparr>)"
| serve: "k < length (y_workers s) \<Longrightarrow> y_workers s ! k = W_Popped i \<Longrightarrow> serve i (y_world s) (Some due) w' \<Longrightarrow>
     sched_step serve s (s\<lparr>y_workers := (y_workers s)[k := W_Rearm due i], y_world := w'\<rparr>)"
| drop: "k < length (y_workers s) \<Longrightarrow> y_workers s ! k = W_Popped i \<Longrightarrow> serve i (y_world s) None w' \<Longrightarrow>
     sched_step serve s (s\<lparr>y_workers := (y_workers s)[k := W_Idle], y_world := w', y_dropped := i # y_dropped s\<rparr>)"
| rearm: "k < length (y_workers s) \<Longrightarrow> y_workers s ! k = W_Rearm due i \<Longrightarrow>
     sched_step serve s (s\<lparr>y_workers := (y_workers s)[k := W_Idle], y_sched := sc_push due i (y_sched s)\<rparr>)"

inductive sched_reach ::
  "('i \<Rightarrow> 'w \<Rightarrow> time option \<Rightarrow> 'w \<Rightarrow> bool) \<Rightarrow> nat \<Rightarrow> 'w \<Rightarrow> ('i, 'w) pool_sys \<Rightarrow> bool" for serve n w where
  start: "sched_reach serve n w (pool_init n w)"
| step: "sched_reach serve n w s \<Longrightarrow> sched_step serve s t \<Longrightarrow> sched_reach serve n w t"

fun in_hand :: "'i worker \<Rightarrow> 'i list" where
  "in_hand W_Idle = []"
| "in_hand (W_Popped i) = [i]"
| "in_hand (W_Rearm due i) = [i]"

text \<open>
  Every registered item is in exactly one place: the heap, one worker's hands, or dropped; the heap
  is sorted by due time and sequence number, and the sequence numbers in it are distinct.
\<close>

definition sched_inv :: "('i, 'w) pool_sys \<Rightarrow> bool" where
  "sched_inv s \<longleftrightarrow>
     mset (map entry_item (sc_heap (y_sched s))) + mset (concat (map in_hand (y_workers s))) + mset (y_dropped s)
       = mset (y_registered s) \<and>
     distinct (y_registered s) \<and> sorted (map entry_key (sc_heap (y_sched s))) \<and>
     distinct (map (fst \<circ> snd) (sc_heap (y_sched s))) \<and>
     (\<forall>e \<in> set (sc_heap (y_sched s)). fst (snd e) \<le> sc_seq (y_sched s))"

lemma in_hand_update:
  "k < length ws \<Longrightarrow>
     mset (concat (map in_hand (ws[k := x]))) + mset (in_hand (ws ! k)) = mset (concat (map in_hand ws)) + mset (in_hand x)"
proof (induction ws arbitrary: k)
  case (Cons w ws)
  then show ?case by (cases k) (simp_all add: ac_simps)
qed simp

lemma insort_mset: "mset (insort_key f x xs) = add_mset x (mset xs)"
  by (induction xs) auto

lemma sc_push_facts:
  assumes "sorted (map entry_key (sc_heap s))" "distinct (map (fst \<circ> snd) (sc_heap s))"
    and "\<forall>e \<in> set (sc_heap s). fst (snd e) \<le> sc_seq s"
  shows "mset (map entry_item (sc_heap (sc_push due i s))) = add_mset i (mset (map entry_item (sc_heap s)))"
    and "sorted (map entry_key (sc_heap (sc_push due i s)))"
    and "distinct (map (fst \<circ> snd) (sc_heap (sc_push due i s)))"
    and "\<forall>e \<in> set (sc_heap (sc_push due i s)). fst (snd e) \<le> sc_seq (sc_push due i s)"
proof -
  show "mset (map entry_item (sc_heap (sc_push due i s))) = add_mset i (mset (map entry_item (sc_heap s)))"
    by (simp add: sc_push_def insort_mset entry_item_def)
  show "sorted (map entry_key (sc_heap (sc_push due i s)))"
    using assms(1) by (simp add: sc_push_def sorted_insort_key)
  have "mset (map (fst \<circ> snd) (sc_heap (sc_push due i s))) = mset (map (fst \<circ> snd) ((due, sc_seq s + 1, i) # sc_heap s))"
    by (simp add: sc_push_def insort_mset)
  moreover have "distinct (map (fst \<circ> snd) ((due, sc_seq s + 1, i) # sc_heap s))"
    using assms(2,3) by auto
  ultimately show "distinct (map (fst \<circ> snd) (sc_heap (sc_push due i s)))"
    using mset_eq_imp_distinct_iff by blast
  show "\<forall>e \<in> set (sc_heap (sc_push due i s)). fst (snd e) \<le> sc_seq (sc_push due i s)"
    using assms(3) by (auto simp: sc_push_def set_insort_key)
qed

lemma sc_started_heap [simp]:
  "sc_heap (sc_ensure_started s) = sc_heap s" "sc_seq (sc_ensure_started s) = sc_seq s"
  by (simp_all add: sc_ensure_started_def)

lemma sc_take_some:
  "sc_take now s = Some (i, c) \<Longrightarrow> \<exists>e rest. sc_heap s = e # rest \<and> fst e \<le> now \<and> i = entry_item e \<and> c = s\<lparr>sc_heap := rest\<rparr>"
  by (auto simp: sc_take_def split: list.splits if_splits)

lemma sched_inv_init: "sched_inv (pool_init n w)"
proof -
  have "concat (map in_hand (replicate n W_Idle)) = []" by (induction n) auto
  then show ?thesis by (simp add: sched_inv_def pool_init_def sc_init_def)
qed

lemma sched_step_inv: "sched_step serve s t \<Longrightarrow> sched_inv s \<Longrightarrow> sched_inv t"
proof (induction rule: sched_step.induct)
  case (register i s w' due)
  then show ?case
    using sc_push_facts [of "sc_ensure_started (y_sched s)" due i] by (simp add: sched_inv_def)
next
  case (take k s now i c)
  from sc_take_some [OF take(3)] obtain e rest where
    "sc_heap (y_sched s) = e # rest" "i = entry_item e" "c = (y_sched s)\<lparr>sc_heap := rest\<rparr>" by blast
  then show ?case
    using take in_hand_update [OF take(1), of "W_Popped i"] by (auto simp: sched_inv_def)
next
  case (serve k s i due w')
  then show ?case
    using in_hand_update [OF serve(1), of "W_Rearm due i"] by (auto simp: sched_inv_def)
next
  case (drop k s i w')
  have "mset (concat (map in_hand (y_workers s))) = add_mset i (mset (concat (map in_hand ((y_workers s)[k := W_Idle]))))"
    using in_hand_update [OF drop(1), of W_Idle] drop(2) by simp
  then show ?case using drop(4) by (simp add: sched_inv_def)
next
  case (rearm k s due i)
  have "mset (concat (map in_hand (y_workers s))) = add_mset i (mset (concat (map in_hand ((y_workers s)[k := W_Idle]))))"
    using in_hand_update [OF rearm(1), of W_Idle] rearm(2) by simp
  then show ?case
    using rearm(3) sc_push_facts [of "y_sched s" due i] by (simp add: sched_inv_def)
qed

lemma sched_reach_inv: "sched_reach serve n w s \<Longrightarrow> sched_inv s"
  by (induction rule: sched_reach.induct) (auto intro: sched_inv_init sched_step_inv)

lemma in_hand_sub: "k < length ws \<Longrightarrow> x \<in> set (in_hand (ws ! k)) \<Longrightarrow> x \<in> set (concat (map in_hand ws))"
  using nth_mem [of k ws] by auto

lemma held_index_distinct:
  "distinct (concat (map in_hand ws)) \<Longrightarrow> i < length ws \<Longrightarrow> j < length ws \<Longrightarrow>
     x \<in> set (in_hand (ws ! i)) \<Longrightarrow> x \<in> set (in_hand (ws ! j)) \<Longrightarrow> i = j"
proof (induction ws arbitrary: i j)
  case (Cons w ws)
  have "set (in_hand w) \<inter> set (concat (map in_hand ws)) = {}" "distinct (concat (map in_hand ws))"
    using Cons.prems(1) by auto
  then show ?case
    using Cons.prems(2-) Cons.IH [of "i - 1" "j - 1"] in_hand_sub [of "i - 1" ws x] in_hand_sub [of "j - 1" ws x]
    by (cases i; cases j) (simp_all add: disjoint_iff)
qed simp

section \<open>Properties\<close>


definition demo_pool :: "(nat, unit) pool_sys" where
  "demo_pool = (pool_init 1 ())\<lparr>y_sched := sc_push 0 7 (sc_ensure_started (sc_init 1)), y_registered := [7]\<rparr>"

lemma demo_pool_reach: "sched_reach (\<lambda>_ _ _ _. False) 1 () demo_pool"
proof -
  have "sched_step (\<lambda>_ _ _ _. False) (pool_init 1 ()) demo_pool"
    using sched_step.register [of 7 "pool_init 1 ()" "\<lambda>_ _ _ _. False" "()" 0]
    by (simp add: pool_init_def demo_pool_def)
  then show ?thesis by (rule sched_reach.step [OF sched_reach.start])
qed


text \<open>
  Order of service: what a worker takes is due, and nothing in the heap is due earlier;
  of two entries due at the same time the one that has waited longer goes first, so no entry that
  is due can be overtaken forever.
\<close>

theorem scheduler_takes_earliest:
  assumes "sched_reach serve n w s" "sc_take now (y_sched s) = Some (i, c)"
  shows "\<exists>due q. (due, q, i) \<in> set (sc_heap (y_sched s)) \<and> due \<le> now \<and>
    (\<forall>e \<in> set (sc_heap c). due < fst e \<or> due = fst e \<and> q < fst (snd e))"
proof -
  obtain e rest where e: "sc_heap (y_sched s) = e # rest" "fst e \<le> now" "i = entry_item e"
    "c = (y_sched s)\<lparr>sc_heap := rest\<rparr>"
    using sc_take_some [OF assms(2)] by blast
  have "\<forall>e' \<in> set rest. entry_key e \<le> entry_key e'" "fst (snd e) \<notin> (fst \<circ> snd) ` set rest"
    using sched_reach_inv [OF assms(1)] by (simp_all add: sched_inv_def e(1))
  then have "fst e < fst e' \<or> fst e = fst e' \<and> fst (snd e) < fst (snd e')" if "e' \<in> set rest" for e'
    using that by (force simp: entry_key_def less_eq_prod_def)
  then show ?thesis
    using e by (intro exI [of _ "fst e"] exI [of _ "fst (snd e)"]) (auto simp: entry_item_def)
qed

theorem scheduler_takes_earliest_witness:
  "\<exists>due q. (due, q, 7) \<in> set (sc_heap (y_sched demo_pool)) \<and> due \<le> (1::rat)"
proof -
  have "sc_take 1 (y_sched demo_pool) = Some (7, (y_sched demo_pool)\<lparr>sc_heap := []\<rparr>)"
    by (simp add: demo_pool_def sc_push_def sc_init_def sc_take_def entry_item_def)
  from scheduler_takes_earliest [OF demo_pool_reach this] show ?thesis by blast
qed

end
