(* ===== verification/ChunkedBox.thy ===== *)
theory ChunkedBox
  imports Scheduler Splitter
begin

text \<open>
  \<open>vstorage/chunked_secure_box.py\<close>: a piece cut into chunks, each compressed, encrypted and packed
  into pools of locked memory; two guards hold the current and the next key; each hop re-encrypts
  one chunk, and when every chunk has moved to the next key a new key is derived, from a trust
  group's secret if there is one. Keys, nonces and addresses, which the operating system draws,
  are arguments, and so is what the trust group's \<open>fetch\<close> returned.
\<close>

definition NONCE_LEN :: nat where
  "NONCE_LEN = 12"

definition DEFAULT_CHUNK_SIZE :: nat where
  "DEFAULT_CHUNK_SIZE = 256 * 1024"

definition POOL_SIZE :: nat where
  "POOL_SIZE = 64 * 1024 * 1024"

definition ratchet :: "env \<Rightarrow> bytes \<Rightarrow> bytes" where
  "ratchet E key = sha256 E (key @ encode_utf8 ''vstorage-ratchet'')"

section \<open>Pools and chunks\<close>

record pool =
  po_buf :: mmap
  po_size :: nat
  po_cursor :: nat
  po_addr :: nat

definition pool_new :: "nat \<Rightarrow> nat \<Rightarrow> pool" where
  "pool_new addr n = \<lparr>po_buf = mm_new n, po_size = n, po_cursor = 0, po_addr = addr\<rparr>"

definition try_allocate :: "nat \<Rightarrow> pool \<Rightarrow> nat option \<times> pool" where
  "try_allocate len p =
     (if po_cursor p + len > po_size p then (None, p)
      else (Some (po_cursor p), p\<lparr>po_cursor := po_cursor p + len\<rparr>))"

definition pool_region :: "pool \<Rightarrow> (nat \<times> nat) res" where
  "pool_region p = (case po_buf p of None \<Rightarrow> Inl ValueError | Some b \<Rightarrow> Inr (po_addr p, length b))"

definition pool_collapse :: "pool \<Rightarrow> pool" where
  "pool_collapse p = p\<lparr>po_buf := mm_close (po_buf p)\<rparr>"

text \<open>\<open>ch_pool\<close> is the position in the box's list of the pool that Python refers to.\<close>

record chunk =
  ch_pool :: nat
  ch_offset :: nat
  ch_plain_len :: nat
  ch_payload_len :: nat

text \<open>The last pool if the slot fits there, else a new one.\<close>

definition alloc_slot :: "nat \<Rightarrow> nat \<Rightarrow> pool list \<Rightarrow> nat option \<times> pool list" where
  "alloc_slot addr len pools =
     (case (if pools = [] then None else fst (try_allocate len (last pools))) of
        Some off \<Rightarrow> (Some off, butlast pools @ [snd (try_allocate len (last pools))])
      | None \<Rightarrow>
          (let (off, p) = try_allocate len (pool_new addr (max POOL_SIZE len)) in (off, pools @ [p])))"

text \<open>The two slice assignments that fill a slot.\<close>

definition fill_slot :: "nat \<Rightarrow> nat \<Rightarrow> bytes \<Rightarrow> bytes \<Rightarrow> pool list \<Rightarrow> pool list res" where
  "fill_slot p off nonce ct pools =
     (case mm_write (po_buf (pools ! p)) off (off + NONCE_LEN) nonce of Inl e \<Rightarrow> Inl e | Inr m \<Rightarrow>
      case mm_write m (off + NONCE_LEN) (off + NONCE_LEN + length ct) ct of Inl e \<Rightarrow> Inl e | Inr m' \<Rightarrow>
      Inr (pools[p := (pools ! p)\<lparr>po_buf := m'\<rparr>]))"

definition compress6 :: "env \<Rightarrow> bytes \<Rightarrow> bytes" where
  "compress6 E plaintext = (if plaintext = [] then [] else lzma_compress E 6 plaintext)"

definition new_chunk ::
  "env \<Rightarrow> bytes \<Rightarrow> nat \<Rightarrow> pool list \<Rightarrow> bytes \<Rightarrow> bytes \<Rightarrow> (chunk \<times> pool list) res" where
  "new_chunk E nonce addr pools plaintext key =
     (case aes_encrypt E key nonce (compress6 E plaintext) of Inl e \<Rightarrow> Inl e | Inr ct \<Rightarrow>
      let (offset, pools1) = alloc_slot addr (NONCE_LEN + length ct) pools in
      case offset of None \<Rightarrow> Inl TypeError | Some off \<Rightarrow>
      case fill_slot (length pools1 - 1) off nonce ct pools1 of Inl e \<Rightarrow> Inl e | Inr pools2 \<Rightarrow>
      Inr (\<lparr>ch_pool = length pools1 - 1, ch_offset = off, ch_plain_len = length plaintext,
            ch_payload_len = length ct\<rparr>, pools2))"

text \<open>The nonce and the ciphertext of a chunk.\<close>

definition read_slot :: "pool list \<Rightarrow> chunk \<Rightarrow> (bytes \<times> bytes) res" where
  "read_slot pools c =
     (let b = po_buf (pools ! ch_pool c); o' = ch_offset c in
      case mm_read b o' (o' + NONCE_LEN) of Inl e \<Rightarrow> Inl e | Inr nonce \<Rightarrow>
      case mm_read b (o' + NONCE_LEN) (o' + NONCE_LEN + ch_payload_len c) of Inl e \<Rightarrow> Inl e | Inr ct \<Rightarrow>
      Inr (nonce, ct))"

definition reencrypt ::
  "env \<Rightarrow> bytes \<Rightarrow> bytes \<Rightarrow> bytes \<Rightarrow> chunk \<Rightarrow> pool list \<Rightarrow> pool list res" where
  "reencrypt E new_nonce current_key new_key c pools =
     (case read_slot pools c of Inl e \<Rightarrow> Inl e | Inr (nonce, ct) \<Rightarrow>
      case aes_decrypt E current_key nonce ct of Inl e \<Rightarrow> Inl e | Inr compressed \<Rightarrow>
      case aes_encrypt E new_key new_nonce compressed of Inl e \<Rightarrow> Inl e | Inr new_ct \<Rightarrow>
      fill_slot (ch_pool c) (ch_offset c) new_nonce new_ct pools)"

definition chunk_decrypt :: "env \<Rightarrow> bytes \<Rightarrow> pool list \<Rightarrow> chunk \<Rightarrow> bytes res" where
  "chunk_decrypt E key pools c =
     (case read_slot pools c of Inl e \<Rightarrow> Inl e | Inr (nonce, ct) \<Rightarrow>
      case aes_decrypt E key nonce ct of Inl e \<Rightarrow> Inl e | Inr compressed \<Rightarrow>
      if compressed = [] then Inr [] else lzma_decompress E compressed)"

section \<open>The box\<close>

text \<open>What a constructor draws: the first key, a nonce per chunk, and addresses.\<close>

record draws =
  d_key :: bytes
  d_nonce :: "nat \<Rightarrow> bytes"
  d_current :: "nat \<Rightarrow> nat"
  d_next :: "nat \<Rightarrow> nat"
  d_pool :: "nat \<Rightarrow> nat"

text \<open>No trust group, or what its \<open>fetch\<close> returned or raised.\<close>

type_synonym trust = "bytes res option"

record cbox =
  cb_data_len :: nat
  cb_chunk_size :: nat
  cb_hop_interval :: time
  cb_notify :: bool
  cb_current :: guard
  cb_next :: guard
  cb_pools :: "pool list"
  cb_chunks :: "chunk list"
  cb_on_next :: "bool list"
  cb_hops :: nat
  cb_next_chunk :: nat
  cb_paused :: bool
  cb_removed :: bool

definition next_key :: "env \<Rightarrow> trust \<Rightarrow> bytes \<Rightarrow> bytes res" where
  "next_key E trust current_key =
     (case trust of
        Some r \<Rightarrow> (case r of Inl e \<Rightarrow> Inl e
                 | Inr external \<Rightarrow> Inr (sha256 E (current_key @ external @ encode_utf8 ''vstorage-ratchet'')))
      | None \<Rightarrow> Inr (ratchet E current_key))"

definition default_guard :: "env \<Rightarrow> (nat \<Rightarrow> nat) \<Rightarrow> bytes \<Rightarrow> guard" where
  "default_guard E addrs key = guard_new E addrs (1 / 1000) (1 / 100) key"

fun new_chunks ::
  "env \<Rightarrow> draws \<Rightarrow> nat \<Rightarrow> pool list \<Rightarrow> bytes list \<Rightarrow> (chunk list \<times> pool list) res" where
  "new_chunks E D i pools [] = Inr ([], pools)"
| "new_chunks E D i pools (p # ps) =
     (case new_chunk E (d_nonce D i) (d_pool D (length pools)) pools p (d_key D) of Inl e \<Rightarrow> Inl e
      | Inr (c, pools1) \<Rightarrow>
        (case new_chunks E D (Suc i) pools1 ps of Inl e \<Rightarrow> Inl e
         | Inr (cs, pools2) \<Rightarrow> Inr (c # cs, pools2)))"

text \<open>\<open>[data[i:i+chunk_size] for i in range(0, hi, chunk_size)]\<close>.\<close>

definition pieces_to :: "nat \<Rightarrow> nat \<Rightarrow> bytes \<Rightarrow> bytes list" where
  "pieces_to hi chunk_size data = map (\<lambda>i. py_slice data i (i + chunk_size)) (py_range 0 hi chunk_size)"

text \<open>The common end of both constructors: guards, chunks of the given pieces, \<open>_start_falling\<close>
  (registering with the pool is \<open>fall_register\<close> of \<open>Scheduler\<close>).\<close>

definition cb_build ::
  "env \<Rightarrow> trust \<Rightarrow> draws \<Rightarrow> nat \<Rightarrow> nat \<Rightarrow> time \<Rightarrow> bool \<Rightarrow> bytes list res \<Rightarrow> cbox res" where
  "cb_build E trust D data_len chunk_size interval notify pieces =
     (case next_key E trust (d_key D) of Inl e \<Rightarrow> Inl e | Inr k \<Rightarrow>
      case pieces of Inl e \<Rightarrow> Inl e | Inr ps \<Rightarrow>
      case new_chunks E D 0 [] (if ps = [] then [[]] else ps) of Inl e \<Rightarrow> Inl e | Inr (cs, pools) \<Rightarrow>
      Inr \<lparr>cb_data_len = data_len, cb_chunk_size = chunk_size, cb_hop_interval = interval, cb_notify = notify,
           cb_current = default_guard E (d_current D) (d_key D), cb_next = default_guard E (d_next D) k,
           cb_pools = pools, cb_chunks = cs, cb_on_next = replicate (length cs) False, cb_hops = 0,
           cb_next_chunk = 0, cb_paused = False, cb_removed = False\<rparr>)"

text \<open>\<open>range\<close> with a zero step raises \<open>ValueError\<close>.\<close>

definition cb_new :: "env \<Rightarrow> trust \<Rightarrow> draws \<Rightarrow> nat \<Rightarrow> time \<Rightarrow> bool \<Rightarrow> bytes \<Rightarrow> cbox res" where
  "cb_new E trust D chunk_size interval notify data =
     cb_build E trust D (length data) chunk_size interval notify
       (if chunk_size = 0 then Inl ValueError else Inr (pieces_to (max (length data) 1) chunk_size data))"

definition RAW_READ :: nat where
  "RAW_READ = 16 * 1024 * 1024"

text \<open>\<open>f.read(n)\<close> until it returns nothing.\<close>

function read_blocks :: "nat \<Rightarrow> bytes \<Rightarrow> bytes list" where
  "read_blocks n data = (if data = [] \<or> n = 0 then [] else take n data # read_blocks n (drop n data))"
  by pat_completeness auto
termination
  by (relation "measure (\<lambda>(n, data). length data)") auto

declare read_blocks.simps [simp del]

definition file_pieces :: "nat \<Rightarrow> bytes \<Rightarrow> bytes list res" where
  "file_pieces chunk_size data =
     (if chunk_size = 0 \<and> data \<noteq> [] then Inl ValueError
      else Inr (concat (map (\<lambda>block. pieces_to (length block) chunk_size block)
             (read_blocks (max chunk_size RAW_READ) data))))"

definition cb_from_file ::
  "env \<Rightarrow> disk \<Rightarrow> trust \<Rightarrow> draws \<Rightarrow> nat \<Rightarrow> time \<Rightarrow> bool \<Rightarrow> string \<Rightarrow> cbox res" where
  "cb_from_file E fs trust D chunk_size interval notify path =
     (case fs path of None \<Rightarrow> Inl FileNotFoundError
      | Some data \<Rightarrow> cb_build E trust D (length data) chunk_size interval notify (file_pieces chunk_size data))"

text \<open>The first half of a hop: one chunk goes under the next key. It also gives the next key.\<close>

definition cb_move :: "env \<Rightarrow> bytes \<Rightarrow> cbox \<Rightarrow> (bytes \<times> cbox) res" where
  "cb_move E nonce s =
     (let idx = cb_next_chunk s in
      if length (cb_chunks s) \<le> idx then Inl IndexError else
      case guard_reconstruct E (cb_current s) of Inl e \<Rightarrow> Inl e | Inr current_key \<Rightarrow>
      case guard_reconstruct E (cb_next s) of Inl e \<Rightarrow> Inl e | Inr nkey \<Rightarrow>
      case reencrypt E nonce (if cb_on_next s ! idx then nkey else current_key) nkey (cb_chunks s ! idx) (cb_pools s) of
        Inl e \<Rightarrow> Inl e
      | Inr pools \<Rightarrow> Inr (nkey, s\<lparr>cb_pools := pools, cb_on_next := (cb_on_next s)[idx := True],
          cb_next_chunk := (idx + 1) mod length (cb_chunks s), cb_hops := cb_hops s + 1\<rparr>))"

definition generation_done :: "cbox \<Rightarrow> bool" where
  "generation_done s \<longleftrightarrow> cb_next_chunk s = 0 \<and> list_all id (cb_on_next s)"

text \<open>One hop with the lock held: the result, the box after it, also when it raises, and the regions
  handed to \<open>on_new_guard\<close>.\<close>

definition cb_hop ::
  "env \<Rightarrow> bytes \<Rightarrow> trust \<Rightarrow> (nat \<Rightarrow> nat) \<Rightarrow> cbox \<Rightarrow> unit res \<times> cbox \<times> (nat \<times> nat) list option" where
  "cb_hop E nonce trust addrs s =
     (case cb_move E nonce s of Inl e \<Rightarrow> (Inl e, s, None) | Inr (nkey, s1) \<Rightarrow>
        if generation_done s1 then
          let s2 = s1\<lparr>cb_current := cb_next s1\<rparr> in
          case next_key E trust nkey of Inl e \<Rightarrow> (Inl e, s2, None) | Inr k \<Rightarrow>
          let g = default_guard E addrs k; s3 = s2\<lparr>cb_next := g\<rparr> in
          case (if cb_notify s then map_res Some (guard_regions g) else Inr None) of
            Inl e \<Rightarrow> (Inl e, s3, None)
          | Inr told \<Rightarrow> (Inr (), s3\<lparr>cb_on_next := replicate (length (cb_chunks s)) False\<rparr>, told)
        else (Inr (), s1, None))"

text \<open>Whether the hop asks the trust group for its secret.\<close>

definition cb_asks :: "env \<Rightarrow> bytes \<Rightarrow> cbox \<Rightarrow> bool" where
  "cb_asks E nonce s \<longleftrightarrow> (case cb_move E nonce s of Inl _ \<Rightarrow> False | Inr (_, s1) \<Rightarrow> generation_done s1)"

text \<open>The locked section of \<open>_GlobalFallScheduler._run\<close>.\<close>

definition cb_serve ::
  "env \<Rightarrow> time \<Rightarrow> bytes \<Rightarrow> trust \<Rightarrow> (nat \<Rightarrow> nat) \<Rightarrow> cbox \<Rightarrow> time option \<times> cbox \<times> (nat \<times> nat) list option" where
  "cb_serve E now nonce trust addrs s =
     (if cb_removed s then (None, s, None)
      else if cb_paused s then (Some (now + 1 / 1000), s, None)
      else (case cb_hop E nonce trust addrs s of
              (Inl _, s', told) \<Rightarrow> (None, s', told)
            | (Inr _, s', told) \<Rightarrow> (Some (now + cb_hop_interval s), s', told)))"

definition cb_regions :: "cbox \<Rightarrow> (nat \<times> nat) list res" where
  "cb_regions s =
     (case guard_regions (cb_current s) of Inl e \<Rightarrow> Inl e | Inr a \<Rightarrow>
      case guard_regions (cb_next s) of Inl e \<Rightarrow> Inl e | Inr b \<Rightarrow>
      case mapM pool_region (cb_pools s) of Inl e \<Rightarrow> Inl e | Inr c \<Rightarrow> Inr (a @ b @ c))"

definition open_chunk :: "env \<Rightarrow> bytes \<Rightarrow> bytes \<Rightarrow> pool list \<Rightarrow> chunk \<times> bool \<Rightarrow> bytes res" where
  "open_chunk E current_key nkey pools cb =
     chunk_decrypt E (if snd cb then nkey else current_key) pools (fst cb)"

text \<open>An exception leaves the box paused: the \<open>clear\<close> is not in a \<open>finally\<close> here.\<close>

definition cb_snapshot :: "env \<Rightarrow> cbox \<Rightarrow> bytes res \<times> cbox" where
  "cb_snapshot E s =
     (let s1 = s\<lparr>cb_paused := True\<rparr> in
      case guard_reconstruct E (cb_current s) of Inl e \<Rightarrow> (Inl e, s1) | Inr current_key \<Rightarrow>
      case guard_reconstruct E (cb_next s) of Inl e \<Rightarrow> (Inl e, s1) | Inr nkey \<Rightarrow>
      case mapM (\<lambda>cb. map_res (take (ch_plain_len (fst cb))) (open_chunk E current_key nkey (cb_pools s) cb))
             (zip (cb_chunks s) (cb_on_next s)) of
        Inl e \<Rightarrow> (Inl e, s1)
      | Inr out \<Rightarrow> (Inr (take (cb_data_len s) (concat out)), s1\<lparr>cb_paused := False\<rparr>))"

text \<open>The loop of both streams: \<open>emit i piece\<close> is what is done with the i-th piece.\<close>

fun stream_loop ::
  "(nat \<Rightarrow> bytes \<Rightarrow> 'w \<Rightarrow> unit res \<times> 'w) \<Rightarrow> (chunk \<times> bool \<Rightarrow> bytes res) \<Rightarrow> nat \<Rightarrow> (chunk \<times> bool) list \<Rightarrow>
   nat \<Rightarrow> 'w \<Rightarrow> unit res \<times> 'w" where
  "stream_loop emit opener i [] remaining w = (Inr (), w)"
| "stream_loop emit opener i (cb # cbs) remaining w =
     (if remaining = 0 then (Inr (), w)
      else (case opener cb of Inl e \<Rightarrow> (Inl e, w) | Inr plaintext \<Rightarrow>
        let piece = take (min (ch_plain_len (fst cb)) remaining) plaintext in
        case emit i piece w of (Inl e, w') \<Rightarrow> (Inl e, w')
        | (Inr _, w') \<Rightarrow> stream_loop emit opener (Suc i) cbs (remaining - length piece) w'))"

definition cb_stream ::
  "env \<Rightarrow> (nat \<Rightarrow> bytes \<Rightarrow> 'w \<Rightarrow> unit res \<times> 'w) \<Rightarrow> 'w \<Rightarrow> cbox \<Rightarrow> unit res \<times> 'w \<times> cbox" where
  "cb_stream E emit w s =
     (let s' = s\<lparr>cb_paused := False\<rparr> in
      case guard_reconstruct E (cb_current s) of Inl e \<Rightarrow> (Inl e, w, s') | Inr current_key \<Rightarrow>
      case guard_reconstruct E (cb_next s) of Inl e \<Rightarrow> (Inl e, w, s') | Inr nkey \<Rightarrow>
      let (r, w') = stream_loop emit (open_chunk E current_key nkey (cb_pools s)) 0
             (zip (cb_chunks s) (cb_on_next s)) (cb_data_len s) w
      in (r, w', s'))"

definition cb_stream_to :: "env \<Rightarrow> (bytes \<Rightarrow> 'w \<Rightarrow> unit res \<times> 'w) \<Rightarrow> 'w \<Rightarrow> cbox \<Rightarrow> unit res \<times> 'w \<times> cbox" where
  "cb_stream_to E write w s = cb_stream E (\<lambda>_. write) w s"

definition be32 :: "nat \<Rightarrow> bytes" where
  "be32 n = map of_nat [n div 2 ^ 24 mod 256, n div 2 ^ 16 mod 256, n div 2 ^ 8 mod 256, n mod 256]"

definition to_be32 :: "nat \<Rightarrow> bytes res" where
  "to_be32 n = (if n < 2 ^ 32 then Inr (be32 n) else Inl OverflowError)"

definition wrap_piece :: "env \<Rightarrow> bytes \<Rightarrow> bytes \<Rightarrow> bytes \<Rightarrow> bytes res" where
  "wrap_piece E transit_key nonce piece =
     (case aes_encrypt E transit_key nonce piece of Inl e \<Rightarrow> Inl e | Inr ct \<Rightarrow>
      case to_be32 (length ct) of Inl e \<Rightarrow> Inl e | Inr len \<Rightarrow> Inr (len @ nonce @ ct))"

definition cb_stream_to_wrapped ::
  "env \<Rightarrow> (nat \<Rightarrow> bytes) \<Rightarrow> bytes \<Rightarrow> (bytes \<Rightarrow> 'w \<Rightarrow> unit res \<times> 'w) \<Rightarrow> 'w \<Rightarrow> cbox \<Rightarrow> unit res \<times> 'w \<times> cbox" where
  "cb_stream_to_wrapped E nonces transit_key write w s =
     cb_stream E (\<lambda>i piece w. case wrap_piece E transit_key (nonces i) piece of
         Inl e \<Rightarrow> (Inl e, w) | Inr frame \<Rightarrow> write frame w) w s"

definition cb_collapse :: "cbox \<Rightarrow> cbox" where
  "cb_collapse s = s\<lparr>cb_removed := True, cb_current := guard_collapse (cb_current s),
     cb_next := guard_collapse (cb_next s), cb_pools := map pool_collapse (cb_pools s)\<rparr>"

section \<open>Slots\<close>

text \<open>An open pool of its declared size; a slot inside the allocated part of a pool; two slots apart.\<close>

definition pool_ok :: "pool \<Rightarrow> bool" where
  "pool_ok p \<longleftrightarrow> (\<exists>b. po_buf p = Some b \<and> length b = po_size p) \<and> po_cursor p \<le> po_size p"

definition slot_end :: "chunk \<Rightarrow> nat" where
  "slot_end c = ch_offset c + NONCE_LEN + ch_payload_len c"

definition slot_ok :: "pool list \<Rightarrow> chunk \<Rightarrow> bool" where
  "slot_ok pools c \<longleftrightarrow> ch_pool c < length pools \<and> slot_end c \<le> po_cursor (pools ! ch_pool c)"

definition slots_apart :: "chunk \<Rightarrow> chunk \<Rightarrow> bool" where
  "slots_apart c d \<longleftrightarrow> ch_pool c \<noteq> ch_pool d \<or> slot_end c \<le> ch_offset d \<or> slot_end d \<le> ch_offset c"

lemma fill_slot_ok:
  assumes "list_all pool_ok pools" "p < length pools" "length nonce = NONCE_LEN"
    and "off + NONCE_LEN + length ct \<le> po_cursor (pools ! p)"
  shows "\<exists>b. po_buf (pools ! p) = Some b \<and> off + NONCE_LEN + length ct \<le> length b \<and>
    fill_slot p off nonce ct pools = Inr (pools[p := (pools ! p)\<lparr>po_buf := Some (slice_assign
      (slice_assign b off (off + NONCE_LEN) nonce) (off + NONCE_LEN) (off + NONCE_LEN + length ct) ct)\<rparr>])"
proof -
  have "pool_ok (pools ! p)" using assms(1,2) by (simp add: list_all_length)
  then obtain b where b: "po_buf (pools ! p) = Some b" "off + NONCE_LEN + length ct \<le> length b"
    using assms(4) by (auto simp: pool_ok_def)
  then show ?thesis
    using assms(3) by (simp add: fill_slot_def mm_write_Some length_slice_assign)
qed

text \<open>Filling a slot: what is read there afterwards, and that slots apart from it do not change.\<close>

lemma fill_slot_read:
  assumes "list_all pool_ok pools" "slot_ok pools c" "length nonce = NONCE_LEN" "length ct = ch_payload_len c"
  obtains pools' where "fill_slot (ch_pool c) (ch_offset c) nonce ct pools = Inr pools'"
    "list_all pool_ok pools'" "map po_cursor pools' = map po_cursor pools"
    "read_slot pools' c = Inr (nonce, ct)"
    "\<And>d. slot_ok pools d \<Longrightarrow> slots_apart c d \<Longrightarrow> read_slot pools' d = read_slot pools d"
proof -
  let ?p = "ch_pool c" and ?o = "ch_offset c"
  have p: "?p < length pools" and o: "?o + NONCE_LEN + length ct \<le> po_cursor (pools ! ?p)"
    using assms(2,4) by (simp_all add: slot_ok_def slot_end_def)
  from fill_slot_ok [OF assms(1) p assms(3) o] obtain b where
    b: "po_buf (pools ! ?p) = Some b" "?o + NONCE_LEN + length ct \<le> length b" and
    fill: "fill_slot ?p ?o nonce ct pools = Inr (pools[?p := (pools ! ?p)\<lparr>po_buf := Some (slice_assign
      (slice_assign b ?o (?o + NONCE_LEN) nonce) (?o + NONCE_LEN) (?o + NONCE_LEN + length ct) ct)\<rparr>])"
    by blast
  define b1 where "b1 = slice_assign b ?o (?o + NONCE_LEN) nonce"
  define b2 where "b2 = slice_assign b1 (?o + NONCE_LEN) (?o + NONCE_LEN + length ct) ct"
  define pools' where "pools' = pools[?p := (pools ! ?p)\<lparr>po_buf := Some b2\<rparr>]"
  have l1: "length b1 = length b" using assms(3) b(2) by (simp add: b1_def length_slice_assign)
  have l2: "length b2 = length b" using l1 b(2) by (simp add: b2_def length_slice_assign)
  have ok: "pool_ok (pools ! ?p)" using assms(1) p by (simp add: list_all_length)
  have "list_all pool_ok pools'"
    using assms(1) p b(1) l2 ok by (auto simp: pools'_def list_all_length nth_list_update pool_ok_def)
  moreover have "map po_cursor pools' = map po_cursor pools"
    using p by (simp add: pools'_def map_update list_update_same_conv)
  moreover have "py_slice b2 ?o (?o + NONCE_LEN) = nonce"
    using assms(3) b(2) l1 py_slice_before [of "?o + NONCE_LEN" ct _ b1 "?o + NONCE_LEN" ?o]
    by (simp add: b2_def b1_def py_slice_same)
  then have "read_slot pools' c = Inr (nonce, ct)"
    using p assms(4) b(2) l1 by (simp add: read_slot_def pools'_def Let_def b2_def py_slice_same)
  moreover have "read_slot pools' d = read_slot pools d" if d: "slot_ok pools d" "slots_apart c d" for d
  proof (cases "ch_pool d = ?p")
    case True
    have bd: "slot_end c \<le> ch_offset d \<or> slot_end d \<le> ?o"
      using d(2) True by (simp add: slots_apart_def)
    have "py_slice b2 x y = py_slice b x y" if "ch_offset d \<le> x" "x \<le> y" "y \<le> slot_end d" for x y
    proof -
      have "py_slice b2 x y = py_slice b1 x y"
        unfolding b2_def using that bd l1 b(2) assms(4)
        by (intro py_slice_disjoint) (auto simp: slot_end_def)
      also have "\<dots> = py_slice b x y"
        unfolding b1_def using that bd b(2) assms(3)
        by (intro py_slice_disjoint) (auto simp: slot_end_def)
      finally show ?thesis .
    qed
    then show ?thesis
      using True p b(1) by (simp add: read_slot_def pools'_def Let_def slot_end_def)
  qed (simp add: read_slot_def pools'_def)
  ultimately show thesis
    using that [of pools'] fill by (simp add: pools'_def b2_def b1_def)
qed

text \<open>Allocation: the slot is new, inside the last pool, and nothing else moves.\<close>

lemma alloc_slot_ok:
  assumes "list_all pool_ok pools"
  obtains off pools' where "alloc_slot addr len pools = (Some off, pools')" "pools' \<noteq> []"
    "list_all pool_ok pools'" "off + len \<le> po_cursor (last pools')"
    "length pools \<le> length pools'"
    "\<And>d. slot_ok pools d \<Longrightarrow> slot_ok pools' d \<and> read_slot pools' d = read_slot pools d \<and>
        (ch_pool d = length pools' - 1 \<longrightarrow> slot_end d \<le> off)"
proof (cases "pools = [] \<or> fst (try_allocate len (last pools)) = None")
  case True
  define q where "q = (pool_new addr (max POOL_SIZE len))\<lparr>po_cursor := len\<rparr>"
  have "alloc_slot addr len pools = (Some 0, pools @ [q])"
    using True by (auto simp: alloc_slot_def q_def try_allocate_def pool_new_def)
  moreover have "pool_ok q" by (simp add: pool_ok_def q_def pool_new_def mm_new_def)
  moreover have "slot_ok (pools @ [q]) d \<and> read_slot (pools @ [q]) d = read_slot pools d \<and>
      (ch_pool d = length (pools @ [q]) - 1 \<longrightarrow> slot_end d \<le> 0)" if "slot_ok pools d" for d
    using that by (simp add: slot_ok_def read_slot_def nth_append)
  ultimately show thesis
    using that [of 0 "pools @ [q]"] assms by (simp add: q_def)
next
  case False
  define q where "q = (last pools)\<lparr>po_cursor := po_cursor (last pools) + len\<rparr>"
  have fit: "po_cursor (last pools) + len \<le> po_size (last pools)"
    using False by (auto simp: try_allocate_def split: if_splits)
  then have "alloc_slot addr len pools = (Some (po_cursor (last pools)), butlast pools @ [q])"
    using False by (simp add: alloc_slot_def q_def try_allocate_def)
  moreover have last: "last pools = pools ! (length pools - 1)" using False by (simp add: last_conv_nth)
  have "pool_ok (last pools)" using False assms by (simp add: list_all_iff)
  then have "pool_ok q" using fit by (simp add: pool_ok_def q_def)
  moreover have "list_all pool_ok (butlast pools)" using assms by (auto simp: list_all_iff dest: in_set_butlastD)
  moreover have "slot_ok (butlast pools @ [q]) d \<and> read_slot (butlast pools @ [q]) d = read_slot pools d \<and>
      (ch_pool d = length (butlast pools @ [q]) - 1 \<longrightarrow> slot_end d \<le> po_cursor (last pools))"
    if "slot_ok pools d" for d
  proof (cases "ch_pool d = length pools - 1")
    case True
    then show ?thesis
      using that False last by (simp add: slot_ok_def read_slot_def nth_append q_def)
  next
    case nlast: False
    then have "ch_pool d < length pools - 1" using that by (auto simp: slot_ok_def)
    then show ?thesis
      using that False by (simp add: slot_ok_def read_slot_def nth_append nth_butlast)
  qed
  ultimately show thesis
    using that [of "po_cursor (last pools)" "butlast pools @ [q]"] by (simp add: q_def)
qed

section \<open>Chunks\<close>

text \<open>\<open>c\<close> holds the compressed \<open>p\<close> under key \<open>k\<close>.\<close>

definition chunk_holds :: "env \<Rightarrow> pool list \<Rightarrow> bytes \<Rightarrow> bytes \<Rightarrow> chunk \<Rightarrow> bool" where
  "chunk_holds E pools k p c \<longleftrightarrow>
     (\<exists>nonce ct. read_slot pools c = Inr (nonce, ct) \<and> aes_decrypt E k nonce ct = Inr (compress6 E p)) \<and>
     ch_plain_len c = length p \<and> ch_payload_len c = length (compress6 E p) + 16 \<and>
     length (compress6 E p) < 2 ^ 31"

lemma compress6_bound: "lzma_ok E \<Longrightarrow> length p < 2 ^ 30 \<Longrightarrow> length (compress6 E p) < 2 ^ 31"
  using lzma_bound [of E p 6] by (simp add: compress6_def)

lemma chunk_decrypt_holds:
  assumes "lzma_ok E" "chunk_holds E pools k p c"
  shows "chunk_decrypt E k pools c = Inr p" "ch_plain_len c = length p"
  using assms by (auto simp: chunk_holds_def chunk_decrypt_def compress6_def lzma_simps split: if_splits)

lemma new_chunk_ok:
  assumes "env_ok E" "list_all pool_ok pools" "length k = 32" "length nonce = NONCE_LEN" "length p < 2 ^ 30"
  obtains c pools' where "new_chunk E nonce addr pools p k = Inr (c, pools')" "list_all pool_ok pools'"
    "slot_ok pools' c" "chunk_holds E pools' k p c"
    "\<And>d. slot_ok pools d \<Longrightarrow> slot_ok pools' d \<and> read_slot pools' d = read_slot pools d \<and> slots_apart d c"
proof -
  have "length (compress6 E p) < 2 ^ 31" using compress6_bound assms(1,5) env_okD by blast
  then obtain ct where ct: "aes_encrypt E k nonce (compress6 E p) = Inr ct"
    "length ct = length (compress6 E p) + 16" "aes_decrypt E k nonce ct = Inr (compress6 E p)"
    using aead_okE [OF env_okD(1) [OF assms(1)] assms(3), of nonce] assms(4) unfolding NONCE_LEN_def by metis
  from alloc_slot_ok [OF assms(2), of addr "NONCE_LEN + length ct"] obtain off pools1 where
    a: "alloc_slot addr (NONCE_LEN + length ct) pools = (Some off, pools1)" "pools1 \<noteq> []"
      "list_all pool_ok pools1" "off + (NONCE_LEN + length ct) \<le> po_cursor (last pools1)"
    and old: "\<And>d. slot_ok pools d \<Longrightarrow> slot_ok pools1 d \<and> read_slot pools1 d = read_slot pools d \<and>
        (ch_pool d = length pools1 - 1 \<longrightarrow> slot_end d \<le> off)" by metis
  define c where "c = \<lparr>ch_pool = length pools1 - 1, ch_offset = off, ch_plain_len = length p, ch_payload_len = length ct\<rparr>"
  have slot: "slot_ok pools1 c"
    using a(2,4) by (simp add: slot_ok_def c_def slot_end_def last_conv_nth)
  from fill_slot_read [OF a(3) slot assms(4), of ct] obtain pools2 where
    f: "fill_slot (ch_pool c) (ch_offset c) nonce ct pools1 = Inr pools2" "list_all pool_ok pools2"
      "map po_cursor pools2 = map po_cursor pools1" "read_slot pools2 c = Inr (nonce, ct)"
    and f_old: "\<And>d. slot_ok pools1 d \<Longrightarrow> slots_apart c d \<Longrightarrow> read_slot pools2 d = read_slot pools1 d"
    by (auto simp: c_def)
  have same: "slot_ok pools2 d = slot_ok pools1 d" for d
    using f(3) by (metis (no_types, lifting) length_map nth_map slot_ok_def)
  have "slots_apart d c" "slots_apart c d" if "slot_ok pools d" for d
    using old [OF that] by (auto simp: slots_apart_def c_def)
  then have "slot_ok pools2 d \<and> read_slot pools2 d = read_slot pools d \<and> slots_apart d c" if "slot_ok pools d" for d
    using old [OF that] f_old same that by metis
  moreover have "new_chunk E nonce addr pools p k = Inr (c, pools2)"
    using ct(1) a(1) f(1) by (simp add: new_chunk_def c_def)
  moreover have "chunk_holds E pools2 k p c"
    using f(4) ct \<open>length (compress6 E p) < 2 ^ 31\<close> by (auto simp: chunk_holds_def c_def)
  ultimately show thesis using that [of c pools2] f(2) slot same by blast
qed

definition chunks_hold :: "env \<Rightarrow> pool list \<Rightarrow> (nat \<Rightarrow> bytes) \<Rightarrow> bytes list \<Rightarrow> chunk list \<Rightarrow> bool" where
  "chunks_hold E pools key ps cs \<longleftrightarrow> list_all pool_ok pools \<and> length cs = length ps \<and>
     (\<forall>i < length ps. slot_ok pools (cs ! i) \<and> chunk_holds E pools (key i) (ps ! i) (cs ! i)) \<and>
     (\<forall>i < length ps. \<forall>j < length ps. i \<noteq> j \<longrightarrow> slots_apart (cs ! i) (cs ! j))"

lemma slots_apart_sym: "slots_apart c d = slots_apart d c"
  by (auto simp: slots_apart_def)

lemma new_chunks_ok:
  assumes "env_ok E" "length (d_key D) = 32" "\<And>i. length (d_nonce D i) = NONCE_LEN"
    and "list_all pool_ok pools" "\<forall>p \<in> set ps. length p < 2 ^ 30"
  shows "\<exists>cs pools'. new_chunks E D i pools ps = Inr (cs, pools') \<and> chunks_hold E pools' (\<lambda>_. d_key D) ps cs \<and>
    (\<forall>d. slot_ok pools d \<longrightarrow> slot_ok pools' d \<and> read_slot pools' d = read_slot pools d \<and>
       (\<forall>c \<in> set cs. slots_apart d c))"
  using assms(4,5)
proof (induction ps arbitrary: i pools)
  case Nil
  then show ?case by (simp add: chunks_hold_def)
next
  case (Cons p ps)
  obtain c pools1 where n: "new_chunk E (d_nonce D i) (d_pool D (length pools)) pools p (d_key D) = Inr (c, pools1)"
    "list_all pool_ok pools1" "slot_ok pools1 c" "chunk_holds E pools1 (d_key D) p c"
    and old: "\<And>d. slot_ok pools d \<Longrightarrow> slot_ok pools1 d \<and> read_slot pools1 d = read_slot pools d \<and> slots_apart d c"
    using new_chunk_ok [OF assms(1) Cons.prems(1) assms(2,3), of p] Cons.prems(2) by (metis list.set_intros(1))
  obtain cs pools2 where m: "new_chunks E D (Suc i) pools1 ps = Inr (cs, pools2)"
    "chunks_hold E pools2 (\<lambda>_. d_key D) ps cs"
    and old2: "\<And>d. slot_ok pools1 d \<Longrightarrow> slot_ok pools2 d \<and> read_slot pools2 d = read_slot pools1 d \<and>
       (\<forall>c \<in> set cs. slots_apart d c)"
    using Cons.IH [OF n(2), of "Suc i"] Cons.prems(2) by auto
  have c2: "slot_ok pools2 c" "chunk_holds E pools2 (d_key D) p c" "\<forall>d \<in> set cs. slots_apart c d"
    using old2 [OF n(3)] n(4) by (auto simp: chunk_holds_def)
  have len: "length cs = length ps" using m(2) by (simp add: chunks_hold_def)
  have "chunks_hold E pools2 (\<lambda>_. d_key D) (p # ps) (c # cs)"
    using m(2) c2 len nth_mem [of _ cs] slots_apart_sym [of c]
    by (auto simp: chunks_hold_def All_less_Suc2)
  then show ?case
    using n(1) m(1) old old2 by auto
qed

section \<open>What a live box holds\<close>

definition guard_key :: "env \<Rightarrow> guard \<Rightarrow> bytes \<Rightarrow> bool" where
  "guard_key E g k \<longleftrightarrow> guard_ok g \<and> guard_bytes g = lzma_compress E 9 k \<and> length k = 32"

text \<open>Current key \<open>kc\<close>, next key \<open>kn\<close>, pieces \<open>ps\<close>: every chunk is under the key its flag names.\<close>

definition cb_rep :: "env \<Rightarrow> cbox \<Rightarrow> bytes \<Rightarrow> bytes \<Rightarrow> bytes list \<Rightarrow> bool" where
  "cb_rep E s kc kn ps \<longleftrightarrow>
     guard_key E (cb_current s) kc \<and> guard_key E (cb_next s) kn \<and>
     chunks_hold E (cb_pools s) (\<lambda>i. if cb_on_next s ! i then kn else kc) ps (cb_chunks s) \<and>
     length (cb_on_next s) = length ps \<and> cb_next_chunk s < length ps \<and>
     cb_data_len s = length (concat ps) \<and> (\<forall>p \<in> set ps. length p < 2 ^ 30) \<and> \<not> cb_removed s"

definition cb_ok :: "env \<Rightarrow> bytes \<Rightarrow> cbox \<Rightarrow> bool" where
  "cb_ok E data s \<longleftrightarrow> env_ok E \<and> (\<exists>kc kn ps. cb_rep E s kc kn ps \<and> concat ps = data)"

lemma guard_key_reconstruct: "lzma_ok E \<Longrightarrow> guard_key E g k \<Longrightarrow> guard_reconstruct E g = Inr k"
  by (simp add: guard_key_def guard_reconstruct_ok lzma_simps)

lemma default_guard_key: "length k = 32 \<Longrightarrow> guard_key E (default_guard E addrs k) k"
  by (simp add: guard_key_def default_guard_def guard_new_ok guard_new_bytes)

lemma guard_key_bounce: "guard_key E g k \<Longrightarrow> guard_key E (snd (guard_bounce i g)) k"
  by (simp add: guard_key_def guard_bounce_ok)

lemma guard_regions_fresh:
  "guard_regions (default_guard E addrs k) =
     Inr (concat (map (\<lambda>i. [(addrs (2 * i), PAGE_SIZE), (addrs (2 * i + 1), PAGE_SIZE)]) [0..<length (lzma_compress E 9 k)]))"
proof -
  let ?f = "\<lambda>(i, b :: byte). cell_new (addrs (2 * i)) (addrs (2 * i + 1)) b"
  let ?c = "lzma_compress E 9 k"
  have "cell_regions (cell_new x y v) = Inr [(x, PAGE_SIZE), (y, PAGE_SIZE)]" for x y v
    by (simp add: cell_regions_def cell_new_def mm_new_def slice_assign_def)
  then have "mapM cell_regions (map ?f (enumerate 0 ?c)) =
      Inr (map (\<lambda>(i, b). [(addrs (2 * i), PAGE_SIZE), (addrs (2 * i + 1), PAGE_SIZE)]) (enumerate 0 ?c))"
    by (subst mapM_Inr [of _ _ "\<lambda>c. case cell_regions c of Inr r \<Rightarrow> r | Inl _ \<Rightarrow> []"]) (auto simp: comp_def split_def)
  moreover have "map (\<lambda>(i, b). h i) (enumerate 0 ?c) = map h [0..<length ?c]" for h :: "nat \<Rightarrow> (nat \<times> nat) list"
    by (rule nth_equalityI) (simp_all add: nth_enumerate_eq)
  ultimately show ?thesis
    by (simp add: guard_regions_def default_guard_def guard_new_def Let_def)
qed

lemma next_key_length: "sha_ok E \<Longrightarrow> next_key E trust k = Inr k' \<Longrightarrow> length k' = 32"
  by (auto simp: next_key_def ratchet_def sha_length split: option.splits sum.splits)

lemma cb_snapshot_rep:
  assumes "env_ok E" "cb_rep E s kc kn ps"
  shows "cb_snapshot E s = (Inr (concat ps), s\<lparr>cb_paused := False\<rparr>)"
proof -
  note lz = env_okD(2) [OF assms(1)]
  let ?z = "zip (cb_chunks s) (cb_on_next s)"
  have len: "length (cb_chunks s) = length ps" "length (cb_on_next s) = length ps"
    using assms(2) by (simp_all add: cb_rep_def chunks_hold_def)
  have opened: "map_res (take (ch_plain_len (fst (?z ! i)))) (open_chunk E kc kn (cb_pools s) (?z ! i)) = Inr (ps ! i)"
    if "i < length ps" for i
    using chunk_decrypt_holds [OF lz, of "cb_pools s" "if cb_on_next s ! i then kn else kc" "ps ! i" "cb_chunks s ! i"]
      that assms(2) len by (simp add: open_chunk_def cb_rep_def chunks_hold_def)
  have "mapM f xs = Inr ps" if "length xs = length ps" "\<And>i. i < length ps \<Longrightarrow> f (xs ! i) = Inr (ps ! i)"
    for f :: "chunk \<times> bool \<Rightarrow> bytes res" and xs
    using that
  proof (induction xs ps rule: list_induct2)
    case (Cons x xs p ps)
    have "f x = Inr p" using Cons.prems [of 0] by simp
    moreover have "mapM f xs = Inr ps"
      using Cons.prems [of "Suc _"] by (intro Cons.IH) simp
    ultimately show ?case by simp
  qed simp
  then have "mapM (\<lambda>cb. map_res (take (ch_plain_len (fst cb))) (open_chunk E kc kn (cb_pools s) cb)) ?z = Inr ps"
    using len opened by simp
  moreover have "guard_reconstruct E (cb_current s) = Inr kc" "guard_reconstruct E (cb_next s) = Inr kn"
    using assms(2) guard_key_reconstruct [OF lz] by (auto simp: cb_rep_def)
  ultimately show ?thesis
    using assms(2) by (simp add: cb_snapshot_def cb_rep_def)
qed

text \<open>Re-encrypting a chunk that holds \<open>p\<close> under \<open>k\<close>: it holds \<open>p\<close> under the new key, the others are as they were.\<close>

lemma reencrypt_ok:
  assumes "env_ok E" "list_all pool_ok pools" "slot_ok pools c" "chunk_holds E pools k p c"
    and "length k' = 32" "length nonce = NONCE_LEN"
  obtains pools' where "reencrypt E nonce k k' c pools = Inr pools'" "list_all pool_ok pools'"
    "\<And>d. slot_ok pools' d = slot_ok pools d" "chunk_holds E pools' k' p c"
    "\<And>d. slot_ok pools d \<Longrightarrow> slots_apart c d \<Longrightarrow> read_slot pools' d = read_slot pools d"
proof -
  obtain n ct where old: "read_slot pools c = Inr (n, ct)" "aes_decrypt E k n ct = Inr (compress6 E p)"
    and b: "ch_payload_len c = length (compress6 E p) + 16" "length (compress6 E p) < 2 ^ 31" "ch_plain_len c = length p"
    using assms(4) by (auto simp: chunk_holds_def)
  obtain ct' where ct': "aes_encrypt E k' nonce (compress6 E p) = Inr ct'"
    "length ct' = length (compress6 E p) + 16" "aes_decrypt E k' nonce ct' = Inr (compress6 E p)"
    using aead_okE [OF env_okD(1) [OF assms(1)] assms(5) _ b(2), of nonce] assms(6) unfolding NONCE_LEN_def by metis
  from fill_slot_read [OF assms(2,3,6), of ct'] b(1) ct'(2) obtain pools' where
    f: "fill_slot (ch_pool c) (ch_offset c) nonce ct' pools = Inr pools'" "list_all pool_ok pools'"
      "map po_cursor pools' = map po_cursor pools" "read_slot pools' c = Inr (nonce, ct')"
    and rest: "\<And>d. slot_ok pools d \<Longrightarrow> slots_apart c d \<Longrightarrow> read_slot pools' d = read_slot pools d" by auto
  have "slot_ok pools' d = slot_ok pools d" for d
    using f(3) by (metis (no_types, lifting) length_map nth_map slot_ok_def)
  moreover have "reencrypt E nonce k k' c pools = Inr pools'"
    using old ct'(1) f(1) by (simp add: reencrypt_def)
  moreover have "chunk_holds E pools' k' p c"
    using f(4) ct'(3) b by (auto simp: chunk_holds_def)
  ultimately show thesis using that f(2) rest by blast
qed

text \<open>What one hop is, in terms of the representation.\<close>

definition moved :: "cbox \<Rightarrow> pool list \<Rightarrow> cbox" where
  "moved s pools = s\<lparr>cb_pools := pools, cb_on_next := (cb_on_next s)[cb_next_chunk s := True],
     cb_next_chunk := (cb_next_chunk s + 1) mod length (cb_chunks s), cb_hops := cb_hops s + 1\<rparr>"

definition rotation_due :: "cbox \<Rightarrow> bool" where
  "rotation_due s \<longleftrightarrow> (cb_next_chunk s + 1) mod length (cb_chunks s) = 0 \<and>
     list_all id ((cb_on_next s)[cb_next_chunk s := True])"

lemma cb_hop_moves:
  assumes "env_ok E" "cb_rep E s kc kn ps" "length nonce = NONCE_LEN"
  obtains pools' where "cb_rep E (moved s pools') kc kn ps"
    "cb_hop E nonce trust addrs s =
      (if rotation_due s then
         let s2 = (moved s pools')\<lparr>cb_current := cb_next s\<rparr> in
         case next_key E trust kn of Inl e \<Rightarrow> (Inl e, s2, None)
         | Inr k \<Rightarrow> (Inr (), s2\<lparr>cb_next := default_guard E addrs k,
             cb_on_next := replicate (length (cb_chunks s)) False\<rparr>,
             if cb_notify s then Some (case guard_regions (default_guard E addrs k) of Inl _ \<Rightarrow> [] | Inr r \<Rightarrow> r) else None)
       else (Inr (), moved s pools', None))"
proof -
  let ?i = "cb_next_chunk s"
  note lz = env_okD(2) [OF assms(1)]
  have rep: "guard_key E (cb_current s) kc" "guard_key E (cb_next s) kn" "list_all pool_ok (cb_pools s)"
    "length (cb_chunks s) = length ps" "length (cb_on_next s) = length ps" "?i < length ps"
    "\<And>i. i < length ps \<Longrightarrow> slot_ok (cb_pools s) (cb_chunks s ! i)"
    "\<And>i. i < length ps \<Longrightarrow> chunk_holds E (cb_pools s) (if cb_on_next s ! i then kn else kc) (ps ! i) (cb_chunks s ! i)"
    "\<And>i j. i < length ps \<Longrightarrow> j < length ps \<Longrightarrow> i \<noteq> j \<Longrightarrow> slots_apart (cb_chunks s ! i) (cb_chunks s ! j)"
    using assms(2) unfolding cb_rep_def chunks_hold_def by blast+
  have kn: "length kn = 32" using rep(2) by (simp add: guard_key_def)
  obtain pools' where r: "reencrypt E nonce (if cb_on_next s ! ?i then kn else kc) kn (cb_chunks s ! ?i) (cb_pools s) = Inr pools'"
    "list_all pool_ok pools'" "\<And>d. slot_ok pools' d = slot_ok (cb_pools s) d" "chunk_holds E pools' kn (ps ! ?i) (cb_chunks s ! ?i)"
    "\<And>d. slot_ok (cb_pools s) d \<Longrightarrow> slots_apart (cb_chunks s ! ?i) d \<Longrightarrow> read_slot pools' d = read_slot (cb_pools s) d"
    using reencrypt_ok [OF assms(1) rep(3) rep(7) [OF rep(6)] rep(8) [OF rep(6)] kn assms(3)] by metis
  have "chunk_holds E pools' (if ((cb_on_next s)[?i := True]) ! j then kn else kc) (ps ! j) (cb_chunks s ! j)"
    if "j < length ps" for j
    using r(4,5) rep(5,6,7,8,9) that by (cases "j = ?i") (auto simp: chunk_holds_def)
  then have "cb_rep E (moved s pools') kc kn ps"
    using assms(2) r(2,3) rep mod_in_range [OF rep(6)] by (auto simp: cb_rep_def chunks_hold_def moved_def)
  then show thesis
    using that [of pools'] r(1) rep(4,6) guard_key_reconstruct [OF lz rep(1)] guard_key_reconstruct [OF lz rep(2)]
    by (auto simp: cb_hop_def cb_move_def generation_done_def moved_def rotation_due_def Let_def guard_regions_fresh
        split: sum.splits)
qed

lemma chunks_hold_flags:
  "chunks_hold E pools f ps cs \<Longrightarrow> (\<And>i. i < length ps \<Longrightarrow> f i = g i) \<Longrightarrow> chunks_hold E pools g ps cs"
  by (simp add: chunks_hold_def)

text \<open>After the last chunk has moved, one key opens everything.\<close>

lemma rep_all_next:
  assumes "cb_rep E s kc kn ps" "list_all id (cb_on_next s)" "guard_key E g k"
  shows "cb_rep E (s\<lparr>cb_current := cb_next s\<rparr>) kn kn ps"
    and "cb_rep E (s\<lparr>cb_current := cb_next s, cb_next := g, cb_on_next := replicate (length (cb_chunks s)) False\<rparr>) kn k ps"
proof -
  have on: "cb_on_next s ! i" if "i < length ps" for i
    using assms(1,2) that by (simp add: cb_rep_def list_all_length)
  have "chunks_hold E (cb_pools s) (\<lambda>i. if cb_on_next s ! i then kn else kc) ps (cb_chunks s)"
    using assms(1) by (simp add: cb_rep_def)
  then have h: "chunks_hold E (cb_pools s) (\<lambda>_. kn) ps (cb_chunks s)"
    by (rule chunks_hold_flags) (simp add: on)
  note r = assms(1) [unfolded cb_rep_def]
  have len: "length (cb_chunks s) = length ps" using h by (simp add: chunks_hold_def)
  show "cb_rep E (s\<lparr>cb_current := cb_next s\<rparr>) kn kn ps"
    unfolding cb_rep_def using r h by simp
  have "chunks_hold E (cb_pools s) (\<lambda>i. if replicate (length ps) False ! i then k else kn) ps (cb_chunks s)"
    by (rule chunks_hold_flags [OF h]) simp
  then show "cb_rep E (s\<lparr>cb_current := cb_next s, cb_next := g, cb_on_next := replicate (length (cb_chunks s)) False\<rparr>) kn k ps"
    unfolding cb_rep_def using r assms(3) by (simp add: len)
qed

lemma cb_hop_ok:
  assumes "cb_ok E data s" "length nonce = NONCE_LEN"
  shows "cb_ok E data (fst (snd (cb_hop E nonce trust addrs s)))"
proof -
  obtain kc kn ps where rep: "env_ok E" "cb_rep E s kc kn ps" "concat ps = data"
    using assms(1) by (auto simp: cb_ok_def)
  obtain pools' where m: "cb_rep E (moved s pools') kc kn ps" and hop:
    "cb_hop E nonce trust addrs s =
      (if rotation_due s then
         let s2 = (moved s pools')\<lparr>cb_current := cb_next s\<rparr> in
         case next_key E trust kn of Inl e \<Rightarrow> (Inl e, s2, None)
         | Inr k \<Rightarrow> (Inr (), s2\<lparr>cb_next := default_guard E addrs k,
             cb_on_next := replicate (length (cb_chunks s)) False\<rparr>,
             if cb_notify s then Some (case guard_regions (default_guard E addrs k) of Inl _ \<Rightarrow> [] | Inr r \<Rightarrow> r) else None)
       else (Inr (), moved s pools', None))"
    by (rule cb_hop_moves [OF rep(1,2) assms(2), of trust addrs])
  have "\<exists>kc kn. cb_rep E (fst (snd (cb_hop E nonce trust addrs s))) kc kn ps"
  proof (cases "rotation_due s")
    case True
    have all: "list_all id (cb_on_next (moved s pools'))" using True by (simp add: rotation_due_def moved_def)
    have f: "cb_next (moved s pools') = cb_next s" "cb_chunks (moved s pools') = cb_chunks s" by (simp_all add: moved_def)
    have "guard_key E (cb_next s) kn" using rep(2) by (simp add: cb_rep_def)
    then have "cb_rep E ((moved s pools')\<lparr>cb_current := cb_next s\<rparr>) kn kn ps"
      using rep_all_next(1) [OF m all, of "cb_next s" kn] by (simp add: f)
    moreover have "cb_rep E ((moved s pools')\<lparr>cb_current := cb_next s, cb_next := default_guard E addrs k,
        cb_on_next := replicate (length (cb_chunks s)) False\<rparr>) kn k ps" if "next_key E trust kn = Inr k" for k
      using rep_all_next(2) [OF m all default_guard_key] next_key_length [OF env_okD(3) [OF rep(1)] that] by (simp add: f)
    ultimately show ?thesis using True by (fastforce simp: hop Let_def split: sum.splits)
  next
    case False
    then show ?thesis using m by (auto simp: hop)
  qed
  then show ?thesis using rep by (auto simp: cb_ok_def)
qed

lemma cb_serve_ok:
  assumes "cb_ok E data s" "length nonce = NONCE_LEN"
  shows "cb_ok E data (fst (snd (cb_serve E now nonce trust addrs s)))"
  using assms cb_hop_ok [OF assms, of trust addrs]
  by (auto simp: cb_serve_def split_def split: sum.splits prod.splits)

lemma cb_ok_guards:
  assumes "cb_ok E data s"
  shows "cb_ok E data (s\<lparr>cb_current := snd (guard_bounce i (cb_current s))\<rparr>)"
    and "cb_ok E data (s\<lparr>cb_next := snd (guard_bounce i (cb_next s))\<rparr>)"
    and "cb_ok E data (s\<lparr>cb_paused := p\<rparr>)"
  using assms unfolding cb_ok_def cb_rep_def by (auto intro: guard_key_bounce)

lemma cb_ok_snapshot: "cb_ok E data s \<Longrightarrow> cb_snapshot E s = (Inr data, s\<lparr>cb_paused := False\<rparr>)"
  using cb_snapshot_rep by (auto simp: cb_ok_def)

section \<open>Every thread action, and the contract\<close>

text \<open>A turn of a mover (hop, pause check), a bounce of a cell of either guard, a snapshot.\<close>

datatype cb_event =
    CServe time bytes trust "nat \<Rightarrow> nat"
  | CCurrent nat
  | CNext nat
  | CSnap

fun cb_step :: "env \<Rightarrow> cb_event \<Rightarrow> cbox \<Rightarrow> cbox" where
  "cb_step E (CServe now nonce trust addrs) s = fst (snd (cb_serve E now nonce trust addrs s))"
| "cb_step E (CCurrent i) s = s\<lparr>cb_current := snd (guard_bounce i (cb_current s))\<rparr>"
| "cb_step E (CNext i) s = s\<lparr>cb_next := snd (guard_bounce i (cb_next s))\<rparr>"
| "cb_step E CSnap s = snd (cb_snapshot E s)"

text \<open>Nonces have the length \<open>os.urandom\<close> was asked for; trust groups may fail at any time.\<close>

fun cb_good :: "cb_event \<Rightarrow> bool" where
  "cb_good (CServe now nonce trust addrs) \<longleftrightarrow> length nonce = NONCE_LEN"
| "cb_good _ \<longleftrightarrow> True"

lemma cb_step_ok: "cb_ok E data s \<Longrightarrow> cb_good e \<Longrightarrow> cb_ok E data (cb_step E e s)"
  by (cases e) (simp_all add: cb_serve_ok cb_ok_guards cb_ok_snapshot)

interpretation cb: falling cb_good "cb_step E" "\<lambda>s. fst (cb_snapshot E s)" "\<lambda>s. \<exists>data. cb_ok E data s" for E
proof (unfold_locales, goal_cases)
  case (1 i s)
  then show ?case using cb_step_ok by blast
next
  case (2 i s)
  then obtain data where "cb_ok E data s" by blast
  then show ?case using cb_step_ok [of E data s i] 2(1) cb_ok_snapshot by fastforce
qed

section \<open>Construction\<close>

definition draws_ok :: "draws \<Rightarrow> bool" where
  "draws_ok D \<longleftrightarrow> length (d_key D) = 32 \<and> (\<forall>i. length (d_nonce D i) = NONCE_LEN)"

lemma cb_build_ok:
  assumes "env_ok E" "draws_ok D" "next_key E trust (d_key D) = Inr k"
    and "\<forall>p \<in> set ps. length p < 2 ^ 30" "n = length (concat ps)"
  obtains s where "cb_build E trust D n cs iv nt (Inr ps) = Inr s"
    "cb_rep E s (d_key D) k (if ps = [] then [[]] else ps)" "cb_next_chunk s = 0"
    "cb_on_next s = replicate (length (cb_chunks s)) False" "\<not> cb_paused s"
    "cb_current s = default_guard E (d_current D) (d_key D)" "cb_next s = default_guard E (d_next D) k"
proof -
  let ?ps = "if ps = [] then [[]] else ps"
  have D: "length (d_key D) = 32" "\<And>i. length (d_nonce D i) = NONCE_LEN" using assms(2) by (simp_all add: draws_ok_def)
  have "\<forall>p \<in> set ?ps. length p < 2 ^ 30" using assms(4) by auto
  then obtain cs' pools where c: "new_chunks E D 0 [] ?ps = Inr (cs', pools)"
    "chunks_hold E pools (\<lambda>_. d_key D) ?ps cs'"
    using new_chunks_ok [OF assms(1) D, of "[]" ?ps 0] by auto
  have len: "length cs' = length ?ps" using c(2) by (simp add: chunks_hold_def)
  have hold: "chunks_hold E pools (\<lambda>i. if replicate (length cs') False ! i then k else d_key D) ?ps cs'"
    by (rule chunks_hold_flags [OF c(2)]) (simp add: len)
  obtain s where s: "cb_build E trust D n cs iv nt (Inr ps) = Inr s" "cb_current s = default_guard E (d_current D) (d_key D)"
    "cb_next s = default_guard E (d_next D) k" "cb_pools s = pools" "cb_chunks s = cs'" "cb_data_len s = n"
    "cb_on_next s = replicate (length cs') False" "cb_next_chunk s = 0" "\<not> cb_paused s" "\<not> cb_removed s"
    using assms(3) c(1) by (simp add: cb_build_def)
  have "cb_rep E s (d_key D) k ?ps"
    unfolding cb_rep_def using s hold len D(1) assms(4,5) default_guard_key
      next_key_length [OF env_okD(3) [OF assms(1)] assms(3)] by simp
  then show thesis using that [OF s(1)] s by simp
qed

lemma pieces_to_facts:
  assumes "0 < cs" "length data \<le> hi"
  shows "concat (pieces_to hi cs data) = data" "p \<in> set (pieces_to hi cs data) \<Longrightarrow> length p \<le> cs"
  using concat_pieces [OF assms, of 0] by (auto simp: pieces_to_def length_py_slice)

lemma read_blocks_concat: "0 < n \<Longrightarrow> concat (read_blocks n data) = data"
proof (induction n data rule: read_blocks.induct)
  case (1 n data)
  then show ?case by (subst read_blocks.simps) simp
qed

lemma file_pieces_facts:
  assumes "0 < cs"
  obtains ps where "file_pieces cs data = Inr ps" "concat ps = data" "\<forall>p \<in> set ps. length p \<le> cs"
proof -
  let ?bs = "read_blocks (max cs RAW_READ) data"
  have "concat (concat (map (\<lambda>b. pieces_to (length b) cs b) bs)) = concat bs" for bs :: "bytes list"
    by (induction bs) (simp_all add: pieces_to_facts assms)
  then have "concat (concat (map (\<lambda>b. pieces_to (length b) cs b) ?bs)) = data"
    using read_blocks_concat [of "max cs RAW_READ" data] assms by simp
  moreover have "\<forall>p \<in> set (concat (map (\<lambda>b. pieces_to (length b) cs b) ?bs)). length p \<le> cs"
    using pieces_to_facts(2) [OF assms] by fastforce
  ultimately show thesis using that assms by (simp add: file_pieces_def)
qed

lemma cb_new_ok:
  assumes "env_ok E" "draws_ok D" "next_key E trust (d_key D) = Inr k" "0 < cs" "cs < 2 ^ 30"
  obtains s where "cb_new E trust D cs iv nt data = Inr s"
    "cb_rep E s (d_key D) k (pieces_to (max (length data) 1) cs data)" "cb_next_chunk s = 0"
    "cb_on_next s = replicate (length (cb_chunks s)) False" "\<not> cb_paused s"
    "cb_current s = default_guard E (d_current D) (d_key D)" "cb_next s = default_guard E (d_next D) k"
proof -
  let ?ps = "pieces_to (max (length data) 1) cs data"
  have "?ps \<noteq> []" using assms(4) by (auto simp: pieces_to_def py_range_step)
  moreover have "\<forall>p \<in> set ?ps. length p < 2 ^ 30"
    using pieces_to_facts(2) [OF assms(4), of data "max (length data) 1"] assms(5) by force
  moreover have "length data = length (concat ?ps)"
    using pieces_to_facts(1) [OF assms(4), of data "max (length data) 1"] by simp
  ultimately show thesis
    using cb_build_ok [OF assms(1,2,3), of ?ps "length data" cs iv nt thesis] that assms(4)
    by (auto simp: cb_new_def)
qed

lemma cb_from_file_ok:
  assumes "env_ok E" "draws_ok D" "next_key E trust (d_key D) = Inr k" "0 < cs" "cs < 2 ^ 30" "fs path = Some data"
  obtains s ps where "cb_from_file E fs trust D cs iv nt path = Inr s" "cb_rep E s (d_key D) k ps" "concat ps = data"
    "\<forall>p \<in> set ps. length p \<le> cs"
proof -
  obtain ps where ps: "file_pieces cs data = Inr ps" "concat ps = data" "\<forall>p \<in> set ps. length p \<le> cs"
    using file_pieces_facts [OF assms(4)] .
  have "\<forall>p \<in> set ps. length p < 2 ^ 30" using ps(3) assms(5) by auto
  from cb_build_ok [OF assms(1,2,3) this, of "length data" cs iv nt] ps(2) obtain s where
    "cb_build E trust D (length data) cs iv nt (Inr ps) = Inr s" "cb_rep E s (d_key D) k (if ps = [] then [[]] else ps)" by auto
  then show thesis
    using that [of s "if ps = [] then [[]] else ps"] ps assms(6) by (auto simp: cb_from_file_def)
qed

lemma cb_rep_ok: "env_ok E \<Longrightarrow> cb_rep E s kc kn ps \<Longrightarrow> cb_ok E (concat ps) s"
  by (auto simp: cb_ok_def)

section \<open>Properties\<close>

text \<open>
  Property C1. The box keeps its data: built from bytes or streamed in from a file, and after any
  interleaving of hops, key rotations (with or without a trust group, its fetches succeeding or
  failing), cell bounces and other snapshots, a snapshot is the data.
\<close>

theorem chunked_box_keeps_data:
  assumes "env_ok E" "draws_ok D" "next_key E trust (d_key D) = Inr k" "0 < cs" "cs < 2 ^ 30"
    and "list_all cb_good es" "fs path = Some data"
  shows "(\<exists>s. cb_new E trust D cs iv nt data = Inr s \<and> fst (cb_snapshot E (fold (cb_step E) es s)) = Inr data) \<and>
    (\<exists>s. cb_from_file E fs trust D cs iv nt path = Inr s \<and> fst (cb_snapshot E (fold (cb_step E) es s)) = Inr data)"
proof -
  have keep: "fst (cb_snapshot E (fold (cb_step E) es s)) = Inr data" if "cb_ok E data s" for s
    using that cb.hops_from [OF _ _ assms(6), of E s "Inr data"] cb_ok_snapshot [OF that] by auto
  obtain s where s: "cb_new E trust D cs iv nt data = Inr s"
    "cb_rep E s (d_key D) k (pieces_to (max (length data) 1) cs data)"
    using cb_new_ok [OF assms(1-5)] by metis
  obtain f ps where f: "cb_from_file E fs trust D cs iv nt path = Inr f" "cb_rep E f (d_key D) k ps" "concat ps = data"
    using cb_from_file_ok [of E D trust k cs fs path data, OF assms(1-5,7)] by metis
  have "concat (pieces_to (max (length data) 1) cs data) = data"
    using pieces_to_facts(1) [OF assms(4)] by simp
  then show ?thesis
    using s f keep cb_rep_ok [OF assms(1)] by metis
qed

definition demo_draws :: draws where
  "demo_draws = \<lparr>d_key = replicate 32 5, d_nonce = (\<lambda>i. replicate 12 (of_nat i)), d_current = (\<lambda>i. 4096 * i),
     d_next = (\<lambda>i. 4096 * (i + 1000)), d_pool = (\<lambda>i. 2 ^ 30 * (i + 1))\<rparr>"

lemma demo_draws_ok: "draws_ok demo_draws"
  by (simp add: draws_ok_def demo_draws_def NONCE_LEN_def)

lemma demo_next_key: "next_key E None (d_key demo_draws) = Inr (ratchet E (d_key demo_draws))"
  by (simp add: next_key_def)

theorem chunked_box_keeps_data_witness:
  "\<exists>s. cb_new demo_env None demo_draws 2 0 False [1, 2, 3] = Inr s \<and>
     fst (cb_snapshot demo_env (fold (cb_step demo_env) [CServe 0 (replicate 12 9) (Some (Inl TrustGroupCompromised)) id, CCurrent 3] s))
       = Inr [1, 2, 3]"
  using chunked_box_keeps_data [OF demo_env_ok demo_draws_ok demo_next_key, of 2
      "[CServe 0 (replicate 12 9) (Some (Inl TrustGroupCompromised)) id, CCurrent 3]" "[''f'' \<mapsto> [1, 2, 3]]" "''f''" "[1, 2, 3]" 0 False]
  by (simp add: NONCE_LEN_def)

fun cb_hops_run :: "env \<Rightarrow> (nat \<Rightarrow> bytes) \<Rightarrow> trust \<Rightarrow> (nat \<Rightarrow> nat) \<Rightarrow> nat \<Rightarrow> cbox \<Rightarrow> cbox" where
  "cb_hops_run E nonces trust addrs 0 s = s"
| "cb_hops_run E nonces trust addrs (Suc n) s =
     fst (snd (cb_hop E (nonces n) trust addrs (cb_hops_run E nonces trust addrs n s)))"

lemma cb_generation:
  assumes "env_ok E" "cb_rep E s kc kn ps" "cb_next_chunk s = 0" "cb_on_next s = replicate (length ps) False"
    and "\<And>i. length (nonces i) = NONCE_LEN" "m < length ps"
  shows "cb_rep E (cb_hops_run E nonces trust addrs m s) kc kn ps \<and>
    cb_next_chunk (cb_hops_run E nonces trust addrs m s) = m \<and>
    cb_on_next (cb_hops_run E nonces trust addrs m s) = replicate m True @ replicate (length ps - m) False"
  using assms(6)
proof (induction m)
  case (Suc m)
  let ?t = "cb_hops_run E nonces trust addrs m s"
  have IH: "cb_rep E ?t kc kn ps" "cb_next_chunk ?t = m"
    "cb_on_next ?t = replicate m True @ replicate (length ps - m) False" using Suc by auto
  have len: "length (cb_chunks ?t) = length ps" using IH(1) by (simp add: cb_rep_def chunks_hold_def)
  have upd: "(replicate m True @ replicate (length ps - m) False)[m := True] =
      replicate (Suc m) True @ replicate (length ps - Suc m) False"
    using Suc.prems by (simp add: list_update_append replicate_append_same [symmetric] Suc_diff_Suc [symmetric])
  have not_due: "\<not> rotation_due ?t" using IH(2) Suc.prems len by (simp add: rotation_due_def)
  obtain pools' where m: "cb_rep E (moved ?t pools') kc kn ps"
    "cb_hop E (nonces m) trust addrs ?t = (Inr (), moved ?t pools', None)"
    by (rule cb_hop_moves [OF assms(1) IH(1) assms(5), of m trust addrs]) (simp add: not_due)
  have "cb_next_chunk (moved ?t pools') = Suc m" using IH(2) Suc.prems len by (simp add: moved_def)
  moreover have "cb_on_next (moved ?t pools') = replicate (Suc m) True @ replicate (length ps - Suc m) False"
    using IH(2,3) upd by (simp add: moved_def)
  ultimately show ?case using m by simp
qed (use assms in simp)

lemma cb_last_hop:
  assumes "env_ok E" "cb_rep E s kc kn ps" "cb_next_chunk s = 0" "cb_on_next s = replicate (length ps) False"
    and "\<And>i. length (nonces i) = NONCE_LEN" "next_key E trust kn = Inr k"
  shows "cb_rep E (cb_hops_run E nonces trust addrs (length ps) s) kn k ps"
proof -
  have pos: "0 < length ps" using assms(2) by (auto simp: cb_rep_def)
  then obtain m where m: "length ps = Suc m" by (cases "length ps") auto
  let ?t = "cb_hops_run E nonces trust addrs m s"
  have t: "cb_rep E ?t kc kn ps" "cb_next_chunk ?t = m" "cb_on_next ?t = replicate m True @ [False]"
    using cb_generation [OF assms(1-5), where m = m and trust = trust and addrs = addrs] m by auto
  have len: "length (cb_chunks ?t) = length ps" using t(1) by (simp add: cb_rep_def chunks_hold_def)
  have due: "rotation_due ?t"
    using t(2,3) m len by (simp add: rotation_due_def list_update_append list_all_iff)
  obtain pools' where h: "cb_rep E (moved ?t pools') kc kn ps"
    "fst (snd (cb_hop E (nonces m) trust addrs ?t)) = (moved ?t pools')\<lparr>cb_current := cb_next ?t,
        cb_next := default_guard E addrs k, cb_on_next := replicate (length (cb_chunks ?t)) False\<rparr>"
    by (rule cb_hop_moves [OF assms(1) t(1) assms(5), of m trust addrs]) (simp add: due assms(6) Let_def)
  have all: "list_all id (cb_on_next (moved ?t pools'))" using due by (simp add: rotation_due_def moved_def)
  have f: "cb_next (moved ?t pools') = cb_next ?t" "cb_chunks (moved ?t pools') = cb_chunks ?t" by (simp_all add: moved_def)
  show ?thesis
    using rep_all_next(2) [OF h(1) all default_guard_key] next_key_length [OF env_okD(3) [OF assms(1)] assms(6)] h(2) m
    by (simp add: f)
qed

text \<open>
  Property C17. Key schedule: while the chunks of a generation move, one per hop, the keys stay; the
  hop that moves the last chunk makes the next key the current one and derives the one after it
  from it and the secret the trust group gave; and every piece is still readable at each point.
\<close>

theorem key_rotates_after_every_chunk:
  assumes "env_ok E" "draws_ok D" "next_key E trust (d_key D) = Inr k1" "next_key E trust k1 = Inr k2"
    and "0 < cs" "cs < 2 ^ 30" "\<And>i. length (nonces i) = NONCE_LEN"
  shows "\<exists>s. cb_new E trust D cs iv nt data = Inr s \<and> 0 < length (cb_chunks s) \<and>
    (\<forall>m < length (cb_chunks s).
       guard_reconstruct E (cb_current (cb_hops_run E nonces trust addrs m s)) = Inr (d_key D) \<and>
       guard_reconstruct E (cb_next (cb_hops_run E nonces trust addrs m s)) = Inr k1 \<and>
       fst (cb_snapshot E (cb_hops_run E nonces trust addrs m s)) = Inr data) \<and>
    guard_reconstruct E (cb_current (cb_hops_run E nonces trust addrs (length (cb_chunks s)) s)) = Inr k1 \<and>
    guard_reconstruct E (cb_next (cb_hops_run E nonces trust addrs (length (cb_chunks s)) s)) = Inr k2 \<and>
    fst (cb_snapshot E (cb_hops_run E nonces trust addrs (length (cb_chunks s)) s)) = Inr data"
proof -
  let ?ps = "pieces_to (max (length data) 1) cs data"
  obtain s where s: "cb_new E trust D cs iv nt data = Inr s" "cb_rep E s (d_key D) k1 ?ps" "cb_next_chunk s = 0"
    "cb_on_next s = replicate (length (cb_chunks s)) False"
    using cb_new_ok [OF assms(1,2,3,5,6)] by metis
  have len: "length (cb_chunks s) = length ?ps" using s(2) by (simp add: cb_rep_def chunks_hold_def)
  have facts: "guard_reconstruct E (cb_current u) = Inr kc \<and> guard_reconstruct E (cb_next u) = Inr kn \<and>
      fst (cb_snapshot E u) = Inr data" if "cb_rep E u kc kn ?ps" for u kc kn
    using that guard_key_reconstruct [OF env_okD(2) [OF assms(1)]] cb_snapshot_rep [OF assms(1) that]
      pieces_to_facts(1) [OF assms(5), of data] by (auto simp: cb_rep_def)
  have during: "cb_rep E (cb_hops_run E nonces trust addrs m s) (d_key D) k1 ?ps" if "m < length ?ps" for m
    using cb_generation [OF assms(1) s(2,3) _ assms(7) that] s(4) len by simp
  have after: "cb_rep E (cb_hops_run E nonces trust addrs (length ?ps) s) k1 k2 ?ps"
    using cb_last_hop [OF assms(1) s(2,3) _ assms(7,4)] s(4) len by simp
  have "0 < length ?ps" using s(2) by (auto simp: cb_rep_def)
  then show ?thesis
    using s(1) facts [OF during] facts [OF after] by (intro exI [of _ s]) (simp only: len, blast)
qed

theorem key_rotates_after_every_chunk_witness:
  "\<exists>s. cb_new demo_env (Some (Inr [1])) demo_draws 2 0 False [1, 2, 3] = Inr s \<and>
     guard_reconstruct demo_env (cb_current (cb_hops_run demo_env (\<lambda>_. replicate 12 0) (Some (Inr [1])) id 0 s)) = Inr (d_key demo_draws)"
proof -
  have n: "length (replicate 12 (0 :: byte)) = NONCE_LEN" by (simp add: NONCE_LEN_def)
  have k: "next_key demo_env (Some (Inr [1])) x = Inr (sha256 demo_env (x @ [1] @ encode_utf8 ''vstorage-ratchet''))" for x
    by (simp add: next_key_def)
  show ?thesis
    using key_rotates_after_every_chunk [OF demo_env_ok demo_draws_ok k k, of 2 "\<lambda>_. replicate 12 0" 0 False "[1, 2, 3]" id] n
    by auto
qed

text \<open>
  Property C19. A trust group that fails at the moment of rotation: the hop raises, the scheduler
  drops the box, which never falls again, and the box is left with one key in both generations; its
  data can still be read, with no help from the trust group.
\<close>

theorem failed_rotation_stops_motion:
  assumes "cb_ok E data s" "rotation_due s" "\<not> cb_paused s" "length nonce = NONCE_LEN"
  shows "\<exists>t. cb_serve E now nonce (Some (Inl e)) addrs s = (None, t, None) \<and>
    cb_current t = cb_next t \<and> cb_hops t = cb_hops s + 1 \<and> fst (cb_snapshot E t) = Inr data"
proof -
  obtain kc kn ps where rep: "env_ok E" "cb_rep E s kc kn ps" "concat ps = data"
    using assms(1) by (auto simp: cb_ok_def)
  obtain pools' where "cb_hop E nonce (Some (Inl e)) addrs s = (Inl e, (moved s pools')\<lparr>cb_current := cb_next s\<rparr>, None)"
    by (rule cb_hop_moves [OF rep(1,2) assms(4), of "Some (Inl e)" addrs]) (simp add: assms(2) next_key_def Let_def)
  moreover from this have "cb_ok E data ((moved s pools')\<lparr>cb_current := cb_next s\<rparr>)"
    using cb_hop_ok [OF assms(1,4), of "Some (Inl e)" addrs] by simp
  moreover have "\<not> cb_removed s" using rep(2) by (simp add: cb_rep_def)
  ultimately show ?thesis
    using assms(3) cb_ok_snapshot by (auto simp: cb_serve_def moved_def)
qed

definition demo_single :: cbox where
  "demo_single = (case cb_new demo_env None demo_draws 4 0 False [1, 2, 3] of Inr s \<Rightarrow> s)"

lemma demo_single_facts:
  "cb_ok demo_env [1, 2, 3] demo_single" "rotation_due demo_single" "\<not> cb_paused demo_single"
  "cb_rep demo_env demo_single (d_key demo_draws) (ratchet demo_env (d_key demo_draws)) [[1, 2, 3]]"
proof -
  obtain s where s: "cb_new demo_env None demo_draws 4 0 False [1, 2, 3] = Inr s"
    "cb_rep demo_env s (d_key demo_draws) (ratchet demo_env (d_key demo_draws)) (pieces_to (max (length [1, 2, 3 :: byte]) 1) 4 [1, 2, 3])"
    "cb_next_chunk s = 0" "cb_on_next s = replicate (length (cb_chunks s)) False" "\<not> cb_paused s"
    by (rule cb_new_ok [OF demo_env_ok demo_draws_ok demo_next_key, of 4 0 False "[1, 2, 3]"]) simp_all
  have p: "pieces_to (max (length [1, 2, 3 :: byte]) 1) 4 [1, 2, 3] = [[1, 2, 3]]"
    by (simp add: pieces_to_def py_range_single py_slice_def)
  have d: "demo_single = s" by (simp add: demo_single_def s(1))
  have r: "cb_rep demo_env s (d_key demo_draws) (ratchet demo_env (d_key demo_draws)) [[1, 2, 3]]" using s(2) p by simp
  then have "length (cb_chunks s) = 1" by (simp add: cb_rep_def chunks_hold_def)
  then show "cb_ok demo_env [1, 2, 3] demo_single" "rotation_due demo_single" "\<not> cb_paused demo_single"
    "cb_rep demo_env demo_single (d_key demo_draws) (ratchet demo_env (d_key demo_draws)) [[1, 2, 3]]"
    using r s(3,4,5) cb_rep_ok [OF demo_env_ok r] by (simp_all add: d rotation_due_def)
qed

theorem failed_rotation_stops_motion_witness:
  "\<exists>t. cb_serve demo_env 0 (replicate 12 1) (Some (Inl TrustGroupCompromised)) id demo_single = (None, t, None) \<and>
     fst (cb_snapshot demo_env t) = Inr [1, 2, 3]"
proof -
  have "length (replicate 12 (1 :: byte)) = NONCE_LEN" by (simp add: NONCE_LEN_def)
  from failed_rotation_stops_motion [OF demo_single_facts(1,2,3) this] show ?thesis by blast
qed

section \<open>Streams\<close>

text \<open>The pieces a stream emits: nothing once the data's length has been reached.\<close>

fun trim :: "nat \<Rightarrow> bytes list \<Rightarrow> bytes list" where
  "trim remaining [] = []"
| "trim remaining (p # ps) = (if remaining = 0 then [] else take remaining p # trim (remaining - length p) ps)"

fun emit_all :: "(nat \<Rightarrow> bytes \<Rightarrow> 'w \<Rightarrow> unit res \<times> 'w) \<Rightarrow> nat \<Rightarrow> bytes list \<Rightarrow> 'w \<Rightarrow> unit res \<times> 'w" where
  "emit_all emit i [] w = (Inr (), w)"
| "emit_all emit i (p # ps) w =
     (case emit i p w of (Inl e, w') \<Rightarrow> (Inl e, w') | (Inr _, w') \<Rightarrow> emit_all emit (Suc i) ps w')"

lemma trim_concat: "concat (trim n ps) = take n (concat ps)"
  by (induction n ps rule: trim.induct) simp_all

lemma trim_bound: "q \<in> set (trim n ps) \<Longrightarrow> \<exists>p \<in> set ps. length q \<le> length p"
  by (induction n ps rule: trim.induct) (auto split: if_splits)

lemma stream_loop_trim:
  assumes "length cbs = length ps"
    and "\<And>j. j < length ps \<Longrightarrow> opener (cbs ! j) = Inr (ps ! j) \<and> ch_plain_len (fst (cbs ! j)) = length (ps ! j)"
  shows "stream_loop emit opener i cbs n w = emit_all emit i (trim n ps) w"
  using assms
proof (induction cbs ps arbitrary: i n w rule: list_induct2)
  case (Cons cb cbs p ps)
  have hd: "opener cb = Inr p" "ch_plain_len (fst cb) = length p" using Cons.prems [of 0] by simp_all
  have tl: "stream_loop emit opener i cbs n w = emit_all emit i (trim n ps) w" for i n w
    using Cons.prems [of "Suc _"] by (intro Cons.IH) simp
  have piece: "take (min (length p) n) p = take n p" "n - length (take n p) = n - length p"
    by (simp_all add: min_def)
  show ?case by (simp add: hd tl piece del: length_take split: prod.splits sum.splits)
qed simp

lemma cb_stream_rep:
  assumes "env_ok E" "cb_rep E s kc kn ps"
  shows "cb_stream E emit w s =
    (fst (emit_all emit 0 (trim (cb_data_len s) ps) w), snd (emit_all emit 0 (trim (cb_data_len s) ps) w), s\<lparr>cb_paused := False\<rparr>)"
proof -
  note lz = env_okD(2) [OF assms(1)]
  let ?z = "zip (cb_chunks s) (cb_on_next s)"
  have len: "length (cb_chunks s) = length ps" "length (cb_on_next s) = length ps"
    using assms(2) by (simp_all add: cb_rep_def chunks_hold_def)
  have "open_chunk E kc kn (cb_pools s) (?z ! j) = Inr (ps ! j) \<and> ch_plain_len (fst (?z ! j)) = length (ps ! j)"
    if "j < length ps" for j
    using chunk_decrypt_holds [OF lz, of "cb_pools s" "if cb_on_next s ! j then kn else kc" "ps ! j" "cb_chunks s ! j"]
      that assms(2) len by (simp add: open_chunk_def cb_rep_def chunks_hold_def)
  then have "stream_loop emit (open_chunk E kc kn (cb_pools s)) 0 ?z (cb_data_len s) w =
      emit_all emit 0 (trim (cb_data_len s) ps) w"
    using len by (intro stream_loop_trim) simp_all
  moreover have "guard_reconstruct E (cb_current s) = Inr kc" "guard_reconstruct E (cb_next s) = Inr kn"
    using assms(2) guard_key_reconstruct [OF lz] by (auto simp: cb_rep_def)
  ultimately show ?thesis by (simp add: cb_stream_def split_def Let_def)
qed

lemma emit_all_collect:
  "emit_all (\<lambda>_ p w. (Inr (), w @ [p])) i ps w = (Inr (), w @ ps)"
  by (induction ps arbitrary: i w) simp_all

text \<open>
  Property C18. Streaming hands out exactly the data, in order, in pieces no longer than the chunks,
  and none at all for an empty file; the box is falling again afterwards, also when \<open>write\<close> raised.
\<close>

theorem stream_gives_data_in_pieces:
  assumes "env_ok E" "cb_rep E s kc kn ps" "\<forall>p \<in> set ps. length p \<le> cs"
  shows "\<exists>qs. cb_stream_to E (\<lambda>p w. (Inr (), w @ [p])) [] s = (Inr (), qs, s\<lparr>cb_paused := False\<rparr>) \<and>
    concat qs = concat ps \<and> (\<forall>q \<in> set qs. length q \<le> cs) \<and> (concat ps = [] \<longrightarrow> qs = []) \<and>
    cb_paused (snd (snd (cb_stream_to E write w s))) = False"
proof -
  let ?qs = "trim (cb_data_len s) ps"
  have n: "cb_data_len s = length (concat ps)" using assms(2) by (simp add: cb_rep_def)
  have "concat ?qs = concat ps" using trim_concat [of "cb_data_len s" ps] n by simp
  moreover have "\<forall>q \<in> set ?qs. length q \<le> cs" using trim_bound assms(3) by (metis order_trans)
  moreover have "concat ps = [] \<Longrightarrow> ?qs = []" using n by (cases ps) simp_all
  moreover have "cb_stream_to E (\<lambda>p w. (Inr (), w @ [p])) [] s = (Inr (), ?qs, s\<lparr>cb_paused := False\<rparr>)"
    by (simp add: cb_stream_to_def cb_stream_rep [OF assms(1,2)] emit_all_collect)
  moreover have "cb_paused (snd (snd (cb_stream_to E write w s))) = False"
    by (simp add: cb_stream_to_def cb_stream_rep [OF assms(1,2)])
  ultimately show ?thesis by blast
qed

theorem stream_gives_data_in_pieces_witness:
  "\<exists>qs. cb_stream_to demo_env (\<lambda>p w. (Inr (), w @ [p])) [] demo_single = (Inr (), qs, demo_single\<lparr>cb_paused := False\<rparr>) \<and>
     concat qs = [1, 2, 3]"
  using stream_gives_data_in_pieces [OF demo_env_ok demo_single_facts(4), of 4 "\<lambda>_ w. (Inr (), w)" "()"] by auto

lemma collapsed_box:
  assumes "g_cells (cb_current s) \<noteq> []"
  shows "cb_snapshot E (cb_collapse s) = (Inl ValueError, (cb_collapse s)\<lparr>cb_paused := True\<rparr>)"
    and "cb_serve E now nonce trust addrs (cb_collapse s) = (None, cb_collapse s, None)"
proof -
  obtain c cs where "g_cells (cb_current s) = c # cs" using assms by (cases "g_cells (cb_current s)") auto
  then have "guard_reconstruct E (guard_collapse (cb_current s)) = Inl ValueError"
    by (simp add: guard_reconstruct_def guard_collapse_def cell_collapsed)
  then show "cb_snapshot E (cb_collapse s) = (Inl ValueError, (cb_collapse s)\<lparr>cb_paused := True\<rparr>)"
    by (simp add: cb_snapshot_def cb_collapse_def Let_def)
  show "cb_serve E now nonce trust addrs (cb_collapse s) = (None, cb_collapse s, None)"
    by (simp add: cb_serve_def cb_collapse_def)
qed

lemma cb_ok_cells: "cb_ok E data s \<Longrightarrow> g_cells (cb_current s) \<noteq> []"
  using lzma_nonempty [OF env_okD(2), THEN not_sym] by (auto simp: cb_ok_def cb_rep_def guard_key_def guard_bytes_def)

text \<open>
  Death: after \<open>collapse\<close> a snapshot raises, the scheduler drops the box at its next
  turn without touching it, and no chunk's memory can be read any more. The snapshot that raises
  leaves its pause flag set.
\<close>

theorem collapsed_box_is_dead:
  assumes "g_cells (cb_current s) \<noteq> []"
  shows "cb_snapshot E (cb_collapse s) = (Inl ValueError, (cb_collapse s)\<lparr>cb_paused := True\<rparr>) \<and>
    cb_serve E now nonce trust addrs (cb_collapse s) = (None, cb_collapse s, None) \<and>
    (\<forall>c key. ch_pool c < length (cb_pools s) \<longrightarrow> chunk_decrypt E key (cb_pools (cb_collapse s)) c = Inl ValueError)"
  using collapsed_box [OF assms]
  by (auto simp: cb_collapse_def chunk_decrypt_def read_slot_def pool_collapse_def mm_close_def)

theorem collapsed_box_is_dead_witness:
  "fst (cb_snapshot demo_env (cb_collapse demo_single)) = Inl ValueError"
proof -
  have "guard_bytes (cb_current demo_single) = lzma_compress demo_env 9 (d_key demo_draws)"
    using demo_single_facts(4) by (simp add: cb_rep_def guard_key_def)
  then have "g_cells (cb_current demo_single) \<noteq> []"
    using lzma_nonempty [OF env_okD(2) [OF demo_env_ok], of 9 "d_key demo_draws"] by (metis guard_bytes_def list.map_disc_iff)
  from collapsed_box_is_dead [OF this] show ?thesis by (metis fst_conv)
qed

end
