(* ===== verification/EncryptedBoxes.thy ===== *)
theory EncryptedBoxes
  imports ChunkedBox
begin

text \<open>
  \<open>vstorage/superseded/encrypted_falling_box.py\<close> and \<open>combined_secure_box.py\<close>: one buffer
  that holds a nonce and a ciphertext and is re-encrypted under a new key at every hop. The first box
  keeps its key beside the buffer; the second in the cells of a split guard, and asks the trust group, if
  any, at every hop. Trimming the heap has no effect on the state; what \<open>mlock\<close> and
  \<open>madvise\<close> answer is not kept.
\<close>

section \<open>The buffer\<close>

text \<open>\<open>buf[:NONCE_LEN] = nonce; buf[NONCE_LEN:NONCE_LEN + len(ct)] = ct\<close>, and reading them.\<close>

definition seal :: "bytes \<Rightarrow> bytes \<Rightarrow> mmap \<Rightarrow> unit res \<times> mmap" where
  "seal nonce ct m =
     (case mm_write m 0 NONCE_LEN nonce of Inl e \<Rightarrow> (Inl e, m) | Inr m1 \<Rightarrow>
      case mm_write m1 NONCE_LEN (NONCE_LEN + length ct) ct of Inl e \<Rightarrow> (Inl e, m1) | Inr m2 \<Rightarrow> (Inr (), m2))"

definition unseal :: "env \<Rightarrow> bytes \<Rightarrow> nat \<Rightarrow> mmap \<Rightarrow> bytes res" where
  "unseal E key payload_len m =
     (case mm_read m 0 NONCE_LEN of Inl e \<Rightarrow> Inl e | Inr nonce \<Rightarrow>
      case mm_read m NONCE_LEN (NONCE_LEN + payload_len) of Inl e \<Rightarrow> Inl e | Inr ct \<Rightarrow>
      aes_decrypt E key nonce ct)"

definition raw_payload :: "nat \<Rightarrow> mmap \<Rightarrow> bytes res" where
  "raw_payload payload_len m = mm_read m 0 (NONCE_LEN + payload_len)"

definition buffer_len :: "nat \<Rightarrow> nat \<Rightarrow> nat" where
  "buffer_len page data_len = round_up_page page (max (data_len + 16 + NONCE_LEN) 1)"

section \<open>The key beside the buffer\<close>

record ebox =
  eb_data_len :: nat
  eb_buf :: mmap
  eb_buf_len :: nat
  eb_key :: bytes
  eb_payload_len :: nat
  eb_hops :: nat
  eb_stop :: bool
  eb_paused :: bool

definition eb_init :: "env \<Rightarrow> nat \<Rightarrow> bytes \<Rightarrow> bytes \<Rightarrow> bytes \<Rightarrow> ebox res" where
  "eb_init E page key nonce data =
     (let len = buffer_len page (length data) in
      case aes_encrypt E key nonce data of Inl e \<Rightarrow> Inl e | Inr ct \<Rightarrow>
      case seal nonce ct (mm_new len) of (Inl e, m) \<Rightarrow> Inl e | (Inr _, m) \<Rightarrow>
      Inr \<lparr>eb_data_len = length data, eb_buf = m, eb_buf_len = len, eb_key = key, eb_payload_len = length ct,
           eb_hops = 0, eb_stop = False, eb_paused = False\<rparr>)"

text \<open>The new key is in place before anything is encrypted under it.\<close>

definition eb_hop :: "env \<Rightarrow> bytes \<Rightarrow> ebox \<Rightarrow> unit res \<times> ebox" where
  "eb_hop E new_nonce s =
     (case unseal E (eb_key s) (eb_payload_len s) (eb_buf s) of Inl e \<Rightarrow> (Inl e, s) | Inr plaintext \<Rightarrow>
      let s1 = s\<lparr>eb_key := ratchet E (eb_key s)\<rparr> in
      case aes_encrypt E (eb_key s1) new_nonce plaintext of Inl e \<Rightarrow> (Inl e, s1) | Inr new_ct \<Rightarrow>
      case seal new_nonce new_ct (eb_buf s1) of
        (Inl e, m) \<Rightarrow> (Inl e, s1\<lparr>eb_buf := m\<rparr>)
      | (Inr _, m) \<Rightarrow> (Inr (), s1\<lparr>eb_buf := m, eb_payload_len := length new_ct, eb_hops := eb_hops s + 1\<rparr>))"

text \<open>A turn of the mover; the flag says whether the thread goes on: an exception ends it.\<close>

definition eb_turn :: "env \<Rightarrow> bytes \<Rightarrow> ebox \<Rightarrow> bool \<times> ebox" where
  "eb_turn E new_nonce s =
     (if eb_stop s then (False, s) else if eb_paused s then (True, s)
      else (let (r, s') = eb_hop E new_nonce s in (r = Inr (), s')))"

definition eb_raw :: "ebox \<Rightarrow> bytes res" where
  "eb_raw s = raw_payload (eb_payload_len s) (eb_buf s)"

definition eb_snapshot :: "env \<Rightarrow> ebox \<Rightarrow> bytes res \<times> ebox" where
  "eb_snapshot E s =
     (let s1 = s\<lparr>eb_paused := True\<rparr> in
      case unseal E (eb_key s1) (eb_payload_len s1) (eb_buf s1) of
        Inl e \<Rightarrow> (Inl e, s1) | Inr out \<Rightarrow> (Inr out, s1\<lparr>eb_paused := False\<rparr>))"

definition eb_collapse :: "ebox \<Rightarrow> ebox" where
  "eb_collapse s = s\<lparr>eb_stop := True, eb_key := zeros (length (eb_key s)), eb_buf := mm_close (eb_buf s)\<rparr>"

section \<open>The key in a split guard\<close>

definition TARGET_RATCHET_BYTES_PER_SEC :: rat where
  "TARGET_RATCHET_BYTES_PER_SEC = 100 * 1024 * 1024"

definition MAX_HOP_INTERVAL :: time where
  "MAX_HOP_INTERVAL = 2"

definition pick_hop_interval :: "nat \<Rightarrow> time" where
  "pick_hop_interval data_len =
     (if data_len < 1024 * 1024 then 0 else min (of_nat data_len / TARGET_RATCHET_BYTES_PER_SEC) MAX_HOP_INTERVAL)"

record xbox =
  xb_data_len :: nat
  xb_hop_interval :: time
  xb_buf :: mmap
  xb_buf_addr :: nat
  xb_buf_len :: nat
  xb_payload_len :: nat
  xb_guard :: guard
  xb_hops :: nat
  xb_stop :: bool
  xb_paused :: bool

definition xb_init ::
  "env \<Rightarrow> nat \<Rightarrow> (nat \<Rightarrow> nat) \<Rightarrow> nat \<Rightarrow> bytes \<Rightarrow> bytes \<Rightarrow> time option \<Rightarrow> bytes \<Rightarrow> xbox res" where
  "xb_init E page addrs buf_addr key nonce interval data =
     (let len = buffer_len page (length data) in
      case aes_encrypt E key nonce data of Inl e \<Rightarrow> Inl e | Inr ct \<Rightarrow>
      case seal nonce ct (mm_new len) of (Inl e, m) \<Rightarrow> Inl e | (Inr _, m) \<Rightarrow>
      Inr \<lparr>xb_data_len = length data,
           xb_hop_interval = (case interval of None \<Rightarrow> pick_hop_interval (length data) | Some t \<Rightarrow> t),
           xb_buf = m, xb_buf_addr = buf_addr, xb_buf_len = len, xb_payload_len = length ct,
           xb_guard = default_guard E addrs key, xb_hops = 0, xb_stop = False, xb_paused = False\<rparr>)"

text \<open>The result of \<open>update\<close>, which is False if the new key does not fit the cells, is not looked at.\<close>

definition xb_hop :: "env \<Rightarrow> trust \<Rightarrow> bytes \<Rightarrow> xbox \<Rightarrow> unit res \<times> xbox" where
  "xb_hop E trust new_nonce s =
     (case guard_reconstruct E (xb_guard s) of Inl e \<Rightarrow> (Inl e, s) | Inr current_key \<Rightarrow>
      case unseal E current_key (xb_payload_len s) (xb_buf s) of Inl e \<Rightarrow> (Inl e, s) | Inr plaintext \<Rightarrow>
      case next_key E trust current_key of Inl e \<Rightarrow> (Inl e, s) | Inr new_key \<Rightarrow>
      let (u, g) = guard_update E new_key (xb_guard s); s1 = s\<lparr>xb_guard := g\<rparr> in
      case u of Inl e \<Rightarrow> (Inl e, s1) | Inr _ \<Rightarrow>
      case aes_encrypt E new_key new_nonce plaintext of Inl e \<Rightarrow> (Inl e, s1) | Inr new_ct \<Rightarrow>
      case seal new_nonce new_ct (xb_buf s1) of
        (Inl e, m) \<Rightarrow> (Inl e, s1\<lparr>xb_buf := m\<rparr>)
      | (Inr _, m) \<Rightarrow> (Inr (), s1\<lparr>xb_buf := m, xb_payload_len := length new_ct, xb_hops := xb_hops s + 1\<rparr>))"

definition xb_turn :: "env \<Rightarrow> trust \<Rightarrow> bytes \<Rightarrow> xbox \<Rightarrow> bool \<times> xbox" where
  "xb_turn E trust new_nonce s =
     (if xb_stop s then (False, s) else if xb_paused s then (True, s)
      else (let (r, s') = xb_hop E trust new_nonce s in (r = Inr (), s')))"

definition xb_regions :: "xbox \<Rightarrow> (nat \<times> nat) list res" where
  "xb_regions s =
     (case guard_regions (xb_guard s) of Inl e \<Rightarrow> Inl e | Inr out \<Rightarrow>
      case xb_buf s of None \<Rightarrow> Inl ValueError | Some _ \<Rightarrow> Inr (out @ [(xb_buf_addr s, xb_buf_len s)]))"

definition xb_raw :: "xbox \<Rightarrow> bytes res" where
  "xb_raw s = raw_payload (xb_payload_len s) (xb_buf s)"

definition xb_snapshot :: "env \<Rightarrow> xbox \<Rightarrow> bytes res \<times> xbox" where
  "xb_snapshot E s =
     (let s1 = s\<lparr>xb_paused := True\<rparr> in
      case guard_reconstruct E (xb_guard s1) of Inl e \<Rightarrow> (Inl e, s1) | Inr current_key \<Rightarrow>
      case unseal E current_key (xb_payload_len s1) (xb_buf s1) of
        Inl e \<Rightarrow> (Inl e, s1) | Inr out \<Rightarrow> (Inr out, s1\<lparr>xb_paused := False\<rparr>))"

definition xb_collapse :: "xbox \<Rightarrow> xbox" where
  "xb_collapse s = s\<lparr>xb_stop := True, xb_guard := guard_collapse (xb_guard s), xb_buf := mm_close (xb_buf s)\<rparr>"

section \<open>What the buffer holds\<close>

text \<open>A buffer with room for the payload, which decrypts to \<open>data\<close> under \<open>key\<close>.\<close>

definition sealed :: "env \<Rightarrow> bytes \<Rightarrow> bytes \<Rightarrow> nat \<Rightarrow> mmap \<Rightarrow> bool" where
  "sealed E key data payload_len m \<longleftrightarrow> (\<exists>b. m = Some b \<and> NONCE_LEN + length data + 16 \<le> length b) \<and>
     length key = 32 \<and> length data < 2 ^ 31 \<and> unseal E key payload_len m = Inr data"

lemma seal_ok:
  assumes "length nonce = NONCE_LEN" "NONCE_LEN + length ct \<le> length b"
  obtains b' where "seal nonce ct (Some b) = (Inr (), Some b')" "length b' = length b"
    "\<And>key. unseal E key (length ct) (Some b') = aes_decrypt E key nonce ct"
proof -
  let ?b1 = "slice_assign b 0 NONCE_LEN nonce"
  have l1: "length ?b1 = length b" using assms by (simp add: slice_simps)
  let ?b2 = "slice_assign ?b1 NONCE_LEN (NONCE_LEN + length ct) ct"
  have w1: "mm_write (Some b) 0 NONCE_LEN nonce = Inr (Some ?b1)" using assms by (simp add: mm_write_Some)
  have w2: "mm_write (Some ?b1) NONCE_LEN (NONCE_LEN + length ct) ct = Inr (Some ?b2)"
    using assms l1 by (simp add: mm_write_Some)
  have "py_slice ?b2 0 NONCE_LEN = py_slice ?b1 0 NONCE_LEN"
    using assms l1 by (intro py_slice_before) simp_all
  also have "\<dots> = nonce" using assms by (intro py_slice_same) simp_all
  finally have "py_slice ?b2 0 NONCE_LEN = nonce" .
  moreover have "py_slice ?b2 NONCE_LEN (NONCE_LEN + length ct) = ct"
    using assms l1 by (intro py_slice_same) simp_all
  moreover have "length ?b2 = length b" using assms l1 by (simp add: length_slice_assign)
  ultimately show thesis
    using that [of ?b2] w1 w2 by (simp add: seal_def unseal_def)
qed

lemma reseal:
  assumes "aead_ok E" "length key = 32" "length nonce = NONCE_LEN" "length data < 2 ^ 31"
    and "NONCE_LEN + length data + 16 \<le> length b"
  obtains ct m where "aes_encrypt E key nonce data = Inr ct" "seal nonce ct (Some b) = (Inr (), m)"
    "sealed E key data (length ct) m" "\<And>key'. unseal E key' (length ct) m = aes_decrypt E key' nonce ct"
proof -
  obtain ct where ct: "aes_encrypt E key nonce data = Inr ct" "length ct = length data + 16"
    "aes_decrypt E key nonce ct = Inr data"
    using aead_okE [OF assms(1,2), of nonce data] assms(3,4) by (auto simp: NONCE_LEN_def)
  obtain b' where b': "seal nonce ct (Some b) = (Inr (), Some b')" "length b' = length b"
    "\<And>key. unseal E key (length ct) (Some b') = aes_decrypt E key nonce ct"
    using seal_ok [OF assms(3), of ct b] assms(5) ct(2) by auto
  show thesis
    by (rule that [OF ct(1) b'(1)]) (use assms b' ct in \<open>auto simp: sealed_def\<close>)
qed

lemma sealedE:
  assumes "sealed E key data n m"
  obtains b where "m = Some b" "NONCE_LEN + length data + 16 \<le> length b" "length key = 32" "length data < 2 ^ 31"
    "unseal E key n m = Inr data"
  using assms by (auto simp: sealed_def)

lemma buffer_len_room:
  assumes "0 < page"
  shows "NONCE_LEN + n + 16 \<le> buffer_len page n"
  using round_up_page_ge [OF assms, of "max (n + 16 + NONCE_LEN) 1"] by (simp add: buffer_len_def)

section \<open>The first box\<close>

definition eb_rep :: "env \<Rightarrow> bytes \<Rightarrow> ebox \<Rightarrow> bool" where
  "eb_rep E data s \<longleftrightarrow> env_ok E \<and> sealed E (eb_key s) data (eb_payload_len s) (eb_buf s)"

lemma eb_init_ok:
  assumes "env_ok E" "0 < page" "length key = 32" "length nonce = NONCE_LEN" "length data < 2 ^ 31"
  obtains s where "eb_init E page key nonce data = Inr s" "eb_rep E data s" "eb_key s = key" "eb_hops s = 0"
    "\<not> eb_stop s" "\<not> eb_paused s"
proof -
  have "NONCE_LEN + length data + 16 \<le> length (zeros (buffer_len page (length data)))"
    using buffer_len_room [OF assms(2)] by simp
  from reseal [OF env_okD(1) [OF assms(1)] assms(3,4,5) this] obtain ct m where
    "aes_encrypt E key nonce data = Inr ct" "seal nonce ct (mm_new (buffer_len page (length data))) = (Inr (), m)"
    "sealed E key data (length ct) m" unfolding mm_new_def by metis
  then show thesis using that assms(1) by (simp add: eb_init_def eb_rep_def)
qed

lemma eb_hop_ok:
  assumes "eb_rep E data s" "length nonce = NONCE_LEN"
  obtains s' where "eb_hop E nonce s = (Inr (), s')" "eb_rep E data s'" "eb_key s' = ratchet E (eb_key s)"
    "eb_hops s' = eb_hops s + 1" "eb_stop s' = eb_stop s" "eb_paused s' = eb_paused s"
proof -
  have E: "env_ok E" and sl: "sealed E (eb_key s) data (eb_payload_len s) (eb_buf s)" using assms(1) by (simp_all add: eb_rep_def)
  obtain b where b: "eb_buf s = Some b" "NONCE_LEN + length data + 16 \<le> length b" "length data < 2 ^ 31"
    "unseal E (eb_key s) (eb_payload_len s) (eb_buf s) = Inr data"
    by (rule sealedE [OF sl])
  have "length (ratchet E (eb_key s)) = 32" using env_okD(3) [OF E] by (simp add: ratchet_def sha_length)
  from reseal [OF env_okD(1) [OF E] this assms(2) b(3,2)] obtain ct m where
    "aes_encrypt E (ratchet E (eb_key s)) nonce data = Inr ct" "seal nonce ct (Some b) = (Inr (), m)"
    "sealed E (ratchet E (eb_key s)) data (length ct) m" by metis
  then show thesis
    using b E that [of "s\<lparr>eb_key := ratchet E (eb_key s), eb_buf := m, eb_payload_len := length ct, eb_hops := eb_hops s + 1\<rparr>"]
    by (simp add: eb_hop_def eb_rep_def)
qed

lemma eb_snapshot_ok: "eb_rep E data s \<Longrightarrow> eb_snapshot E s = (Inr data, s\<lparr>eb_paused := False\<rparr>)"
  by (auto simp: eb_rep_def eb_snapshot_def elim: sealedE)

lemma eb_turns:
  assumes "eb_rep E data s" "\<forall>n \<in> set ns. length n = NONCE_LEN" "\<not> eb_stop s" "\<not> eb_paused s"
  shows "eb_rep E data (fold (\<lambda>n s. snd (eb_turn E n s)) ns s) \<and>
    eb_key (fold (\<lambda>n s. snd (eb_turn E n s)) ns s) = (ratchet E ^^ length ns) (eb_key s) \<and>
    eb_hops (fold (\<lambda>n s. snd (eb_turn E n s)) ns s) = eb_hops s + length ns"
  using assms
proof (induction ns arbitrary: s)
  case (Cons n ns)
  have n: "length n = NONCE_LEN" using Cons.prems(2) by simp
  obtain s' where s': "eb_hop E n s = (Inr (), s')" "eb_rep E data s'" "eb_key s' = ratchet E (eb_key s)"
    "eb_hops s' = eb_hops s + 1" "eb_stop s' = eb_stop s" "eb_paused s' = eb_paused s"
    by (rule eb_hop_ok [OF Cons.prems(1) n])
  have "snd (eb_turn E n s) = s'" using Cons.prems(3,4) s'(1) by (simp add: eb_turn_def)
  moreover have "(ratchet E ^^ length ns) (ratchet E (eb_key s)) = (ratchet E ^^ length (n # ns)) (eb_key s)"
    by (simp add: funpow_swap1)
  ultimately show ?case using Cons.IH [OF s'(2)] s'(3-6) Cons.prems(2-4) by simp
qed simp

text \<open>
  The box keeps its data over any number of hops, and its key is a hash chain: after n hops it is
  the n-fold ratchet of the first key, whatever the nonces. So one captured key gives every later one
  without access to the box, and decrypts every later capture of its buffer.
\<close>

theorem encrypted_box_hash_chain:
  assumes "env_ok E" "0 < page" "length key = 32" "length nonce = NONCE_LEN" "length data < 2 ^ 31"
    and "\<forall>n \<in> set ns. length n = NONCE_LEN"
  shows "\<exists>s t. eb_init E page key nonce data = Inr s \<and> t = fold (\<lambda>n s. snd (eb_turn E n s)) ns s \<and>
    fst (eb_snapshot E t) = Inr data \<and> eb_hops t = length ns \<and> eb_key t = (ratchet E ^^ length ns) key \<and>
    unseal E ((ratchet E ^^ length ns) key) (eb_payload_len t) (eb_buf t) = Inr data"
proof -
  obtain s where s: "eb_init E page key nonce data = Inr s" "eb_rep E data s" "eb_key s = key" "eb_hops s = 0"
    "\<not> eb_stop s" "\<not> eb_paused s" by (rule eb_init_ok [OF assms(1-5)])
  let ?t = "fold (\<lambda>n s. snd (eb_turn E n s)) ns s"
  have t: "eb_rep E data ?t" "eb_key ?t = (ratchet E ^^ length ns) key" "eb_hops ?t = length ns"
    using eb_turns [OF s(2) assms(6) s(5,6)] s(3,4) by simp_all
  have "unseal E (eb_key ?t) (eb_payload_len ?t) (eb_buf ?t) = Inr data"
    using t(1) by (auto simp: eb_rep_def elim: sealedE)
  then show ?thesis using s(1) t eb_snapshot_ok [OF t(1)] by (intro exI [of _ s] exI [of _ ?t]) simp
qed

theorem encrypted_box_hash_chain_witness:
  "\<exists>s. eb_init demo_env 4096 (replicate 32 5) (replicate 12 1) [1, 2, 3] = Inr s \<and>
     fst (eb_snapshot demo_env (snd (eb_turn demo_env (replicate 12 2) s))) = Inr [1, 2, 3]"
  using encrypted_box_hash_chain [OF demo_env_ok, of 4096 "replicate 32 5" "replicate 12 1" "[1, 2, 3]" "[replicate 12 2]"]
  by (auto simp: NONCE_LEN_def)

section \<open>The second box\<close>

text \<open>What the box relies on and does not check: every 256-bit key compresses to one length.\<close>

definition keys_fit :: "env \<Rightarrow> bool" where
  "keys_fit E \<longleftrightarrow> (\<forall>k k'. length k = 32 \<longrightarrow> length k' = 32 \<longrightarrow> length (lzma_compress E 9 k) = length (lzma_compress E 9 k'))"

definition xb_rep :: "env \<Rightarrow> bytes \<Rightarrow> bytes \<Rightarrow> xbox \<Rightarrow> bool" where
  "xb_rep E key data s \<longleftrightarrow> env_ok E \<and> guard_key E (xb_guard s) key \<and> sealed E key data (xb_payload_len s) (xb_buf s)"

lemma xb_init_ok:
  assumes "env_ok E" "0 < page" "length key = 32" "length nonce = NONCE_LEN" "length data < 2 ^ 31"
  obtains s where "xb_init E page addrs ba key nonce iv data = Inr s" "xb_rep E key data s" "\<not> xb_stop s" "\<not> xb_paused s"
proof -
  have "NONCE_LEN + length data + 16 \<le> length (zeros (buffer_len page (length data)))"
    using buffer_len_room [OF assms(2)] by simp
  from reseal [OF env_okD(1) [OF assms(1)] assms(3,4,5) this] obtain ct m where
    "aes_encrypt E key nonce data = Inr ct" "seal nonce ct (mm_new (buffer_len page (length data))) = (Inr (), m)"
    "sealed E key data (length ct) m" unfolding mm_new_def by metis
  then show thesis using that assms(1,3) default_guard_key by (simp add: xb_init_def xb_rep_def)
qed

lemma xb_snapshot_ok: "xb_rep E key data s \<Longrightarrow> xb_snapshot E s = (Inr data, s\<lparr>xb_paused := False\<rparr>)"
  using guard_key_reconstruct [OF env_okD(2)] by (auto simp: xb_rep_def xb_snapshot_def Let_def elim: sealedE)

lemma guard_update_key:
  assumes "guard_key E g k" "length k' = 32" "length (lzma_compress E 9 k') = length (lzma_compress E 9 k)"
  shows "fst (guard_update E k' g) = Inr True \<and> guard_key E (snd (guard_update E k' g)) k'"
proof -
  have "length (g_cells g) = length (lzma_compress E 9 k)"
    using assms(1) by (metis guard_key_def guard_bytes_def length_map)
  then show ?thesis using guard_update_ok [of g E k'] assms by (simp add: guard_key_def)
qed

text \<open>A hop that is not answered by the trust group changes nothing; any other moves the data to a new key.\<close>

lemma xb_hop_ok:
  assumes "xb_rep E key data s" "keys_fit E" "length nonce = NONCE_LEN"
  shows "(\<exists>e. next_key E trust key = Inl e \<and> xb_hop E trust nonce s = (Inl e, s)) \<or>
    (\<exists>k s'. next_key E trust key = Inr k \<and> xb_hop E trust nonce s = (Inr (), s') \<and> xb_rep E k data s')"
proof -
  have E: "env_ok E" and gk: "guard_key E (xb_guard s) key" and sl: "sealed E key data (xb_payload_len s) (xb_buf s)"
    using assms(1) by (simp_all add: xb_rep_def)
  obtain b where b: "xb_buf s = Some b" "NONCE_LEN + length data + 16 \<le> length b" "length key = 32"
    "length data < 2 ^ 31" "unseal E key (xb_payload_len s) (xb_buf s) = Inr data"
    by (rule sealedE [OF sl])
  have rc: "guard_reconstruct E (xb_guard s) = Inr key" using guard_key_reconstruct [OF env_okD(2) [OF E] gk] .
  show ?thesis
  proof (cases "next_key E trust key")
    case (Inl e)
    then show ?thesis using rc b(5) by (simp add: xb_hop_def)
  next
    case (Inr k)
    have k: "length k = 32" by (rule next_key_length [OF env_okD(3) [OF E] Inr])
    have fit: "length (lzma_compress E 9 k) = length (lzma_compress E 9 key)" using assms(2) k b(3) unfolding keys_fit_def by blast
    obtain u g where ug: "guard_update E k (xb_guard s) = (u, g)" by fastforce
    have g: "u = Inr True" "guard_key E g k" using guard_update_key [OF gk k fit] ug by simp_all
    from reseal [OF env_okD(1) [OF E] k assms(3) b(4,2)] obtain ct m where
      c: "aes_encrypt E k nonce data = Inr ct" "seal nonce ct (Some b) = (Inr (), m)" "sealed E k data (length ct) m" by metis
    let ?s = "s\<lparr>xb_guard := g, xb_buf := m, xb_payload_len := length ct, xb_hops := xb_hops s + 1\<rparr>"
    have "xb_hop E trust nonce s = (Inr (), ?s)"
      using b(1,5) c(1,2) by (simp add: xb_hop_def rc Inr ug g(1))
    moreover have "xb_rep E k data ?s" using E g(2) c(3) by (simp add: xb_rep_def)
    ultimately show ?thesis using Inr by blast
  qed
qed

datatype xb_event = XTurn trust bytes | XBounce nat | XSnap

fun xb_step :: "env \<Rightarrow> xb_event \<Rightarrow> xbox \<Rightarrow> xbox" where
  "xb_step E (XTurn trust nonce) s = snd (xb_turn E trust nonce s)"
| "xb_step E (XBounce i) s = s\<lparr>xb_guard := snd (guard_bounce i (xb_guard s))\<rparr>"
| "xb_step E XSnap s = snd (xb_snapshot E s)"

fun xb_good :: "xb_event \<Rightarrow> bool" where
  "xb_good (XTurn trust nonce) \<longleftrightarrow> length nonce = NONCE_LEN"
| "xb_good _ \<longleftrightarrow> True"

lemma xb_step_ok:
  assumes "xb_rep E key data s" "keys_fit E" "xb_good e"
  shows "\<exists>key'. xb_rep E key' data (xb_step E e s)"
proof (cases e)
  case (XTurn trust nonce)
  then have "length nonce = NONCE_LEN" using assms(3) by simp
  from xb_hop_ok [OF assms(1,2) this, of trust] show ?thesis
    using assms(1) by (auto simp: XTurn xb_turn_def Let_def split_def)
next
  case (XBounce i)
  then show ?thesis using assms(1) guard_key_bounce by (intro exI [of _ key]) (simp add: xb_rep_def)
next
  case XSnap
  then show ?thesis using xb_snapshot_ok [OF assms(1)] assms(1) by (auto simp: xb_rep_def)
qed

interpretation xb: falling xb_good "xb_step E" "\<lambda>s. fst (xb_snapshot E s)"
  "\<lambda>s. keys_fit E \<and> (\<exists>key data. xb_rep E key data s)" for E
proof (unfold_locales, goal_cases)
  case (1 i s)
  then show ?case using xb_step_ok by blast
next
  case (2 i s)
  then obtain key data where s: "xb_rep E key data s" by blast
  then obtain key' where "xb_rep E key' data (xb_step E i s)" using xb_step_ok 2 by blast
  then show ?case using s xb_snapshot_ok by fastforce
qed

text \<open>
  If all keys compress to one length, the combined box gives back its data after any turns
  of its mover, with trust groups that answer or fail, any bounces of its key cells and any snapshots.
\<close>

theorem combined_box_keeps_data:
  assumes "env_ok E" "keys_fit E" "0 < page" "length key = 32" "length nonce = NONCE_LEN" "length data < 2 ^ 31"
    and "list_all xb_good es"
  shows "\<exists>s. xb_init E page addrs ba key nonce iv data = Inr s \<and>
    fst (xb_snapshot E (fold (xb_step E) es s)) = Inr data"
proof -
  obtain s where s: "xb_init E page addrs ba key nonce iv data = Inr s" "xb_rep E key data s"
    by (rule xb_init_ok [OF assms(1,3-6)])
  then have "keys_fit E \<and> (\<exists>key data. xb_rep E key data s)" using assms(2) by blast
  from xb.hops_from [OF this _ assms(7), of "Inr data"] xb_snapshot_ok [OF s(2)] s(1) show ?thesis by simp
qed

lemma demo_keys_fit: "keys_fit demo_env"
  by (simp add: keys_fit_def demo_env_def)

theorem combined_box_keeps_data_witness:
  "\<exists>s. xb_init demo_env 4096 (\<lambda>i. 4096 * i) 0 (replicate 32 5) (replicate 12 1) None [1, 2, 3] = Inr s \<and>
     fst (xb_snapshot demo_env (fold (xb_step demo_env) [XTurn None (replicate 12 2), XBounce 3, XTurn (Some (Inl RuntimeError)) (replicate 12 4)] s))
       = Inr [1, 2, 3]"
  by (rule combined_box_keeps_data [OF demo_env_ok demo_keys_fit]) (simp_all add: NONCE_LEN_def)

text \<open>
  What happens otherwise: if the next key compresses to another length, the hop encrypts
  the data under it but the guard keeps the key before. The hop reports success, and from then on
  every snapshot and every hop fails the authentication check, with nothing changed any more: the data is lost.
\<close>

theorem failed_key_update_loses_data:
  assumes "xb_rep E key data s" "next_key E trust key = Inr k" "length nonce = NONCE_LEN"
    and "length (lzma_compress E 9 k) \<noteq> length (lzma_compress E 9 key)"
    and "\<forall>ct. aes_encrypt E k nonce data = Inr ct \<longrightarrow> aes_decrypt E key nonce ct = Inl InvalidTag"
    and "\<not> xb_stop s" "\<not> xb_paused s"
  shows "\<exists>t. xb_turn E trust nonce s = (True, t) \<and> xb_snapshot E t = (Inl InvalidTag, t\<lparr>xb_paused := True\<rparr>) \<and>
    (\<forall>trust' nonce'. xb_turn E trust' nonce' t = (False, t))"
proof -
  have E: "env_ok E" and gk: "guard_key E (xb_guard s) key" and sl: "sealed E key data (xb_payload_len s) (xb_buf s)"
    using assms(1) by (simp_all add: xb_rep_def)
  obtain b where b: "xb_buf s = Some b" "NONCE_LEN + length data + 16 \<le> length b" "length key = 32"
    "length data < 2 ^ 31" "unseal E key (xb_payload_len s) (xb_buf s) = Inr data"
    by (rule sealedE [OF sl])
  have rc: "guard_reconstruct E (xb_guard s) = Inr key" using guard_key_reconstruct [OF env_okD(2) [OF E] gk] .
  have "length (g_cells (xb_guard s)) = length (lzma_compress E 9 key)"
    using gk by (metis guard_key_def guard_bytes_def length_map)
  then have u: "guard_update E k (xb_guard s) = (Inr False, xb_guard s)"
    using guard_update_ok [of "xb_guard s" E k] gk assms(4) by (simp add: guard_key_def)
  have k: "length k = 32" by (rule next_key_length [OF env_okD(3) [OF E] assms(2)])
  from reseal [OF env_okD(1) [OF E] k assms(3) b(4,2)] obtain ct m where
    c: "aes_encrypt E k nonce data = Inr ct" "seal nonce ct (Some b) = (Inr (), m)"
      "\<And>key'. unseal E key' (length ct) m = aes_decrypt E key' nonce ct" by metis
  let ?t = "s\<lparr>xb_buf := m, xb_payload_len := length ct, xb_hops := xb_hops s + 1\<rparr>"
  have "xb_hop E trust nonce s = (Inr (), ?t)"
    using b(1,5) c(1,2) by (simp add: xb_hop_def rc assms(2) u)
  then have "xb_turn E trust nonce s = (True, ?t)" using assms(6,7) by (simp add: xb_turn_def)
  moreover have bad: "unseal E key (length ct) m = Inl InvalidTag" using c(1,3) assms(5) by simp
  then have "xb_snapshot E ?t = (Inl InvalidTag, ?t\<lparr>xb_paused := True\<rparr>)"
    by (simp add: xb_snapshot_def rc)
  moreover have "xb_turn E trust' nonce' ?t = (False, ?t)" for trust' nonce'
    using bad assms(6,7) by (simp add: xb_turn_def xb_hop_def rc)
  ultimately show ?thesis by blast
qed

text \<open>A compressor that needs one byte more for keys that begin with a large byte.\<close>

definition uneven_env :: env where
  "uneven_env = demo_env\<lparr>
     lzma_compress := (\<lambda>q d. if d \<noteq> [] \<and> 100 \<le> hd d then 94 # 0 # d else 93 # d),
     lzma_decompress := (\<lambda>c. case c of [] \<Rightarrow> Inl LZMAError | m # d \<Rightarrow> if m = 94 then Inr (tl d) else Inr d),
     sha256 := (\<lambda>m. replicate 32 200)\<rparr>"

lemma uneven_env_ok: "env_ok uneven_env"
  using demo_env_ok
  by (auto simp: env_ok_def aead_ok_def lzma_ok_def sha_ok_def uneven_env_def demo_env_def)

theorem failed_key_update_loses_data_witness:
  "\<exists>s t. xb_init uneven_env 4096 id 0 (replicate 32 5) (replicate 12 1) None [1, 2, 3] = Inr s \<and>
     xb_turn uneven_env None (replicate 12 2) s = (True, t) \<and> fst (xb_snapshot uneven_env t) = Inl InvalidTag"
proof -
  obtain s where s: "xb_init uneven_env 4096 id 0 (replicate 32 5) (replicate 12 1) None [1, 2, 3] = Inr s"
    "xb_rep uneven_env (replicate 32 5) [1, 2, 3] s" "\<not> xb_stop s" "\<not> xb_paused s"
    by (rule xb_init_ok [OF uneven_env_ok, of 4096 "replicate 32 5" "replicate 12 1" "[1, 2, 3]" id 0 None])
      (simp_all add: NONCE_LEN_def)
  have k: "next_key uneven_env None (replicate 32 5) = Inr (replicate 32 200)"
    by (simp add: next_key_def ratchet_def uneven_env_def)
  have len: "length (lzma_compress uneven_env 9 (replicate 32 200)) \<noteq> length (lzma_compress uneven_env 9 (replicate 32 5))"
    by (simp add: uneven_env_def)
  have tag: "\<forall>ct. aes_encrypt uneven_env (replicate 32 200) (replicate 12 2) [1, 2, 3] = Inr ct \<longrightarrow>
      aes_decrypt uneven_env (replicate 32 5) (replicate 12 2) ct = Inl InvalidTag"
    by (simp add: uneven_env_def demo_env_simps)
  from failed_key_update_loses_data [OF s(2) k _ len tag s(3,4)] show ?thesis
    using s(1) by (auto simp: NONCE_LEN_def)
qed

text \<open>Death of both boxes.\<close>

lemma boxes_collapsed:
  "eb_turn E n (eb_collapse s) = (False, eb_collapse s)" "fst (eb_snapshot E (eb_collapse s)) = Inl ValueError"
  "eb_raw (eb_collapse s) = Inl ValueError" "set (eb_key (eb_collapse s)) \<subseteq> {0}"
  "xb_turn E trust n (xb_collapse x) = (False, xb_collapse x)" "xb_raw (xb_collapse x) = Inl ValueError"
  by (auto simp: eb_turn_def eb_collapse_def eb_snapshot_def eb_raw_def raw_payload_def unseal_def mm_close_def zeros_def
      xb_turn_def xb_collapse_def xb_raw_def Let_def)

text \<open>The pause between hops is at most two seconds, and none for data below one megabyte.\<close>

lemma pick_hop_interval_bounds: "0 \<le> pick_hop_interval n" "pick_hop_interval n \<le> MAX_HOP_INTERVAL"
  "n < 2 ^ 20 \<Longrightarrow> pick_hop_interval n = 0"
  by (auto simp: pick_hop_interval_def MAX_HOP_INTERVAL_def TARGET_RATCHET_BYTES_PER_SEC_def)

end
