(* ===== verification/SecretsStore.thy ===== *)
theory SecretsStore
  imports VirtualStorage
begin

text \<open>
  \<open>vstorage/secrets_api.py\<close>: secrets owned by tokens, kept in a \<open>VirtualStorage\<close>, and the
  replicated store. The ids that \<open>uuid4\<close> returns and the clock readings are arguments. The
  abstract specification is an access-controlled map; the store is shown to implement it with the
  laws of \<open>VirtualStorage\<close> (the interpretation \<open>vs\<close>).
\<close>

record entry =
  en_file :: string
  en_owner :: string
  en_created :: time

record secrets =
  ss_vs :: vstore
  ss_entries :: "(string, entry) dict"
  ss_shared :: "(string, string set) dict"

definition hash_token :: "env \<Rightarrow> string \<Rightarrow> string" where
  "hash_token E token = hexdigest (sha256 E (encode_utf8 token))"

definition ss_init :: secrets where
  "ss_init = \<lparr>ss_vs = vs_init 6, ss_entries = [], ss_shared = []\<rparr>"

definition ss_store ::
  "env \<Rightarrow> string \<Rightarrow> time \<Rightarrow> string \<Rightarrow> bytes \<Rightarrow> string \<Rightarrow> secrets \<Rightarrow> unit res \<times> secrets" where
  "ss_store E uuid now key v token s =
     (case vs_save_bytes E uuid v key (ss_vs s) of
        (Inl e, vs) \<Rightarrow> (Inl e, s\<lparr>ss_vs := vs\<rparr>)
      | (Inr file_id, vs) \<Rightarrow>
          (Inr (), s\<lparr>ss_vs := vs,
             ss_entries := dict_set key \<lparr>en_file = file_id, en_owner = hash_token E token, en_created = now\<rparr>
               (ss_entries s),
             ss_shared := dict_set key {} (ss_shared s)\<rparr>))"

text \<open>\<open>self._shared_with[key]\<close>, only reached for keys that have an entry.\<close>

definition shared_with :: "string \<Rightarrow> secrets \<Rightarrow> string set" where
  "shared_with key s = (case dict_get (ss_shared s) key of None \<Rightarrow> {} | Some g \<Rightarrow> g)"

definition ss_retrieve :: "env \<Rightarrow> string \<Rightarrow> string \<Rightarrow> secrets \<Rightarrow> bytes res \<times> secrets" where
  "ss_retrieve E key token s =
     (case dict_get (ss_entries s) key of
        None \<Rightarrow> (Inl KeyError, s)
      | Some e \<Rightarrow>
          if hash_token E token = en_owner e \<or> hash_token E token \<in> shared_with key s
          then (let (r, vs) = vs_retrieve E (en_file e) Full (ss_vs s) in (r, s\<lparr>ss_vs := vs\<rparr>))
          else (Inl AuthError, s))"

definition ss_share :: "env \<Rightarrow> string \<Rightarrow> string \<Rightarrow> string \<Rightarrow> secrets \<Rightarrow> unit res \<times> secrets" where
  "ss_share E key owner_token grantee_token s =
     (case dict_get (ss_entries s) key of
        None \<Rightarrow> (Inl KeyError, s)
      | Some e \<Rightarrow>
          if hash_token E owner_token \<noteq> en_owner e then (Inl AuthError, s)
          else (Inr (), s\<lparr>ss_shared := dict_set key (insert (hash_token E grantee_token) (shared_with key s))
                            (ss_shared s)\<rparr>))"

definition ss_rotate ::
  "env \<Rightarrow> string \<Rightarrow> string \<Rightarrow> bytes \<Rightarrow> string \<Rightarrow> secrets \<Rightarrow> unit res \<times> secrets" where
  "ss_rotate E uuid key new_value token s =
     (case dict_get (ss_entries s) key of
        None \<Rightarrow> (Inl KeyError, s)
      | Some e \<Rightarrow>
          if hash_token E token \<noteq> en_owner e then (Inl AuthError, s)
          else (case vs_save_bytes E uuid new_value key (ss_vs s) of
              (Inl err, vs) \<Rightarrow> (Inl err, s\<lparr>ss_vs := vs\<rparr>)
            | (Inr new_file_id, vs) \<Rightarrow>
                (Inr (), s\<lparr>ss_vs := vs_forget (en_file e) vs,
                   ss_entries := dict_set key (e\<lparr>en_file := new_file_id\<rparr>) (ss_entries s)\<rparr>)))"

definition ss_revoke :: "env \<Rightarrow> string \<Rightarrow> string \<Rightarrow> secrets \<Rightarrow> unit res \<times> secrets" where
  "ss_revoke E key token s =
     (case dict_get (ss_entries s) key of
        None \<Rightarrow> (Inl KeyError, s)
      | Some e \<Rightarrow>
          if hash_token E token \<noteq> en_owner e then (Inl AuthError, s)
          else (Inr (), s\<lparr>ss_vs := vs_forget (en_file e) (ss_vs s),
                   ss_entries := dict_del key (ss_entries s), ss_shared := dict_del key (ss_shared s)\<rparr>))"

definition ss_keys_for :: "env \<Rightarrow> string \<Rightarrow> secrets \<Rightarrow> string list" where
  "ss_keys_for E token s =
     map fst (filter (\<lambda>(k, e). en_owner e = hash_token E token \<or> hash_token E token \<in> shared_with k s)
       (ss_entries s))"

section \<open>The replicated store\<close>

record replicated =
  rp_replicas :: "secrets option list"
  rp_alive :: "bool list"

definition rp_init :: "nat \<Rightarrow> replicated" where
  "rp_init replica_count = \<lparr>rp_replicas = replicate replica_count (Some ss_init),
     rp_alive = replicate replica_count True\<rparr>"

text \<open>\<open>uuids i\<close> is the id drawn by replica \<open>i\<close>. A replica marked alive is an object; \<open>kill_replica\<close>
  marks it dead and drops it together.\<close>

definition rp_store ::
  "env \<Rightarrow> (nat \<Rightarrow> string) \<Rightarrow> time \<Rightarrow> string \<Rightarrow> bytes \<Rightarrow> string \<Rightarrow> replicated \<Rightarrow> replicated" where
  "rp_store E uuids now key v token r =
     r\<lparr>rp_replicas := map (\<lambda>i. if rp_alive r ! i
          then map_option (\<lambda>s. snd (ss_store E (uuids i) now key v token s)) (rp_replicas r ! i)
          else rp_replicas r ! i) [0..<length (rp_replicas r)]\<rparr>"

fun rp_scan :: "env \<Rightarrow> string \<Rightarrow> string \<Rightarrow> (bool \<times> secrets option) list \<Rightarrow> bytes res \<times> secrets option list" where
  "rp_scan E key token [] = (Inl KeyError, [])"
| "rp_scan E key token ((alive, rep) # rs) =
     (if alive then
        (case rep of
           None \<Rightarrow> (Inl AttributeError, rep # map snd rs)
         | Some s \<Rightarrow>
             (case ss_retrieve E key token s of
                (Inl KeyError, s') \<Rightarrow> (let (out, rest) = rp_scan E key token rs in (out, Some s' # rest))
              | (out, s') \<Rightarrow> (out, Some s' # map snd rs)))
      else (let (out, rest) = rp_scan E key token rs in (out, rep # rest)))"

definition rp_retrieve :: "env \<Rightarrow> string \<Rightarrow> string \<Rightarrow> replicated \<Rightarrow> bytes res \<times> replicated" where
  "rp_retrieve E key token r =
     (let (out, reps) = rp_scan E key token (zip (rp_alive r) (rp_replicas r)) in (out, r\<lparr>rp_replicas := reps\<rparr>))"

definition rp_kill_replica :: "nat \<Rightarrow> replicated \<Rightarrow> unit res \<times> replicated" where
  "rp_kill_replica index r =
     (if length (rp_alive r) \<le> index then (Inl IndexError, r)
      else (Inr (), r\<lparr>rp_alive := (rp_alive r)[index := False], rp_replicas := (rp_replicas r)[index := None]\<rparr>))"

definition rp_alive_count :: "replicated \<Rightarrow> nat" where
  "rp_alive_count r = length (filter id (rp_alive r))"

section \<open>The specification: an access-controlled map\<close>

text \<open>Per key the value, the owner's token hash and the hashes of the grantees.\<close>

type_synonym acl = "string \<Rightarrow> (bytes \<times> string \<times> string set) option"

datatype ss_event =
    Store string time string bytes string
  | Get string string
  | Share string string string
  | Rotate string string bytes string
  | Revoke string string
  | Motion "string \<times> which"

fun acl_step :: "(string \<Rightarrow> string) \<Rightarrow> ss_event \<Rightarrow> acl \<Rightarrow> bytes res \<times> acl" where
  "acl_step h (Store _ _ key v token) m = (Inr [], m(key := Some (v, h token, {})))"
| "acl_step h (Get key token) m =
     (case m key of None \<Rightarrow> (Inl KeyError, m)
      | Some (v, owner, gs) \<Rightarrow> (if h token = owner \<or> h token \<in> gs then Inr v else Inl AuthError, m))"
| "acl_step h (Share key token grantee) m =
     (case m key of None \<Rightarrow> (Inl KeyError, m)
      | Some (v, owner, gs) \<Rightarrow> if h token = owner then (Inr [], m(key := Some (v, owner, insert (h grantee) gs)))
                        else (Inl AuthError, m))"
| "acl_step h (Rotate _ key v' token) m =
     (case m key of None \<Rightarrow> (Inl KeyError, m)
      | Some (v, owner, gs) \<Rightarrow> if h token = owner then (Inr [], m(key := Some (v', owner, gs))) else (Inl AuthError, m))"
| "acl_step h (Revoke key token) m =
     (case m key of None \<Rightarrow> (Inl KeyError, m)
      | Some (v, owner, gs) \<Rightarrow> if h token = owner then (Inr [], m(key := None)) else (Inl AuthError, m))"
| "acl_step h (Motion _) m = (Inr [], m)"

definition done_res :: "unit res \<times> 's \<Rightarrow> bytes res \<times> 's" where
  "done_res p = (map_res (\<lambda>_. []) (fst p), snd p)"

fun ss_step :: "env \<Rightarrow> ss_event \<Rightarrow> secrets \<Rightarrow> bytes res \<times> secrets" where
  "ss_step E (Store uuid now key v token) s = done_res (ss_store E uuid now key v token s)"
| "ss_step E (Get key token) s = ss_retrieve E key token s"
| "ss_step E (Share key owner grantee) s = done_res (ss_share E key owner grantee s)"
| "ss_step E (Rotate uuid key v token) s = done_res (ss_rotate E uuid key v token s)"
| "ss_step E (Revoke key token) s = done_res (ss_revoke E key token s)"
| "ss_step E (Motion m) s = (Inr [], s\<lparr>ss_vs := vs_move m (ss_vs s)\<rparr>)"

text \<open>Every entry has a file of its own in the storage and a set of grantees.\<close>

definition ss_ok :: "env \<Rightarrow> secrets \<Rightarrow> bool" where
  "ss_ok E s \<longleftrightarrow> vs_env_ok E (ss_vs s) \<and> dict_ok (ss_entries s) \<and>
     (\<forall>k e. dict_get (ss_entries s) k = Some e \<longrightarrow> vs_known (ss_vs s) (en_file e) \<and>
        (\<exists>v. fst (vs_retrieve E (en_file e) Full (ss_vs s)) = Inr v)) \<and>
     (\<forall>k e k' e'. dict_get (ss_entries s) k = Some e \<longrightarrow> dict_get (ss_entries s) k' = Some e' \<longrightarrow>
        en_file e = en_file e' \<longrightarrow> k = k')"

definition res_value :: "bytes res \<Rightarrow> bytes" where
  "res_value r = (case r of Inl e \<Rightarrow> [] | Inr v \<Rightarrow> v)"

definition ss_abs :: "env \<Rightarrow> secrets \<Rightarrow> acl" where
  "ss_abs E s k = map_option
     (\<lambda>e. (res_value (fst (vs_retrieve E (en_file e) Full (ss_vs s))), en_owner e, shared_with k s))
     (dict_get (ss_entries s) k)"

fun event_fresh :: "ss_event \<Rightarrow> secrets \<Rightarrow> bool" where
  "event_fresh (Store uuid now key v token) s = (\<not> vs_known (ss_vs s) uuid)"
| "event_fresh (Rotate uuid key v token) s = (\<not> vs_known (ss_vs s) uuid)"
| "event_fresh e s = True"

section \<open>Refinement\<close>

lemma ss_store_eq:
  "ss_store E uuid now key v token s =
     (Inr (), s\<lparr>ss_vs := snd (vs_save_bytes E uuid v key (ss_vs s)),
        ss_entries := dict_set key \<lparr>en_file = uuid, en_owner = hash_token E token, en_created = now\<rparr> (ss_entries s),
        ss_shared := dict_set key {} (ss_shared s)\<rparr>)"
  by (simp add: ss_store_def vs_save_bytes_eq)

lemma ss_rotate_eq:
  assumes "dict_get (ss_entries s) key = Some e" "hash_token E token = en_owner e"
  shows "ss_rotate E uuid key v token s =
     (Inr (), s\<lparr>ss_vs := vs_forget (en_file e) (snd (vs_save_bytes E uuid v key (ss_vs s))),
        ss_entries := dict_set key (e\<lparr>en_file := uuid\<rparr>) (ss_entries s)\<rparr>)"
  using assms by (simp add: ss_rotate_def vs_save_bytes_eq)

lemma ss_entry:
  assumes "ss_ok E s" "dict_get (ss_entries s) k = Some e"
  shows "vs_known (ss_vs s) (en_file e)"
    and "\<exists>v. fst (vs_retrieve E (en_file e) Full (ss_vs s)) = Inr v"
  using assms unfolding ss_ok_def by blast+

lemma ss_apart:
  assumes "ss_ok E s" "dict_get (ss_entries s) k = Some e" "dict_get (ss_entries s) k' = Some e'" "k' \<noteq> k"
  shows "en_file e' \<noteq> en_file e"
  using assms unfolding ss_ok_def by metis

lemma ss_env: "ss_ok E s \<Longrightarrow> vs_env_ok E (ss_vs s)"
  by (simp add: ss_ok_def)

text \<open>A change of the storage that keeps every entry's file known and readable with the same value.\<close>

lemma ss_same_files:
  assumes "ss_ok E s" "vs_env_ok E vs"
    and "\<And>k e. dict_get (ss_entries s) k = Some e \<Longrightarrow> vs_known vs (en_file e) \<and>
      fst (vs_retrieve E (en_file e) Full vs) = fst (vs_retrieve E (en_file e) Full (ss_vs s))"
  shows "ss_ok E (s\<lparr>ss_vs := vs\<rparr>)" "ss_abs E (s\<lparr>ss_vs := vs\<rparr>) = ss_abs E s"
proof -
  have "\<forall>k e k' e'. dict_get (ss_entries s) k = Some e \<longrightarrow> dict_get (ss_entries s) k' = Some e' \<longrightarrow>
        en_file e = en_file e' \<longrightarrow> k = k'" "dict_ok (ss_entries s)"
    using assms(1) unfolding ss_ok_def by blast+
  moreover have "\<exists>v. fst (vs_retrieve E (en_file e) Full vs) = Inr v" if "dict_get (ss_entries s) k = Some e" for k e
    using assms(3) [OF that] ss_entry(2) [OF assms(1) that] by simp
  ultimately show "ss_ok E (s\<lparr>ss_vs := vs\<rparr>)"
    using assms(2,3) by (simp add: ss_ok_def)
  show "ss_abs E (s\<lparr>ss_vs := vs\<rparr>) = ss_abs E s"
    using assms(3) by (auto simp: ss_abs_def shared_with_def fun_eq_iff intro!: option.map_cong)
qed

text \<open>Giving a key a fresh file: the common part of \<open>store\<close> and \<open>rotate\<close>.\<close>

lemma ss_new_file:
  assumes ok: "ss_ok E s" and fresh: "\<not> vs_known (ss_vs s) uuid" and vs: "vs_env_ok E vs"
    and known: "\<And>j. j = uuid \<or> (vs_known (ss_vs s) j \<and> (\<forall>e. dict_get (ss_entries s) key = Some e \<longrightarrow> j \<noteq> en_file e)) \<Longrightarrow>
        vs_known vs j"
    and new: "fst (vs_retrieve E uuid Full vs) = Inr v"
    and old: "\<And>j. j \<noteq> uuid \<Longrightarrow> (\<forall>e. dict_get (ss_entries s) key = Some e \<longrightarrow> j \<noteq> en_file e) \<Longrightarrow>
        fst (vs_retrieve E j Full vs) = fst (vs_retrieve E j Full (ss_vs s))"
    and "en_file e' = uuid"
  shows "ss_ok E (s\<lparr>ss_vs := vs, ss_entries := dict_set key e' (ss_entries s), ss_shared := sh\<rparr>)"
proof -
  have nf: "en_file e \<noteq> uuid" if "dict_get (ss_entries s) k = Some e" for k e
    using ss_entry(1) [OF ok that] fresh by auto
  have other: "vs_known vs (en_file e) \<and> (\<exists>v. fst (vs_retrieve E (en_file e) Full vs) = Inr v)"
    if "dict_get (ss_entries s) k = Some e" "k \<noteq> key" for k e
    using known old nf [OF that(1)] ss_entry [OF ok that(1)] ss_apart [OF ok _ that(1) that(2)] by metis
  have "k = k'" if "dict_get (dict_set key e' (ss_entries s)) k = Some e1"
    "dict_get (dict_set key e' (ss_entries s)) k' = Some e2" "en_file e1 = en_file e2" for k k' e1 e2
    using that nf ss_apart [OF ok] \<open>en_file e' = uuid\<close> by (auto split: if_splits) metis
  moreover have "vs_known vs (en_file e1) \<and> (\<exists>v. fst (vs_retrieve E (en_file e1) Full vs) = Inr v)"
    if "dict_get (dict_set key e' (ss_entries s)) k = Some e1" for k e1
    using that other new known \<open>en_file e' = uuid\<close> by (auto split: if_splits)
  moreover have "dict_ok (dict_set key e' (ss_entries s))" using ok by (simp add: ss_ok_def)
  ultimately show ?thesis
    using vs by (simp add: ss_ok_def del: dict_get_set)
qed

lemma ss_store_refines:
  assumes "ss_ok E s" "\<not> vs_known (ss_vs s) uuid"
  shows "ss_ok E (snd (ss_store E uuid now key v token s)) \<and>
    ss_abs E (snd (ss_store E uuid now key v token s)) = (ss_abs E s)(key := Some (v, hash_token E token, {}))"
proof
  note env = ss_env [OF assms(1)]
  show "ss_ok E (snd (ss_store E uuid now key v token s))"
    unfolding ss_store_eq snd_conv
    by (rule ss_new_file [OF assms])
      (use vs.store_laws [OF env] assms(2) in \<open>auto simp: vs.save_ok [OF env assms(2)]\<close>)
  have "en_file e \<noteq> uuid" if "dict_get (ss_entries s) k = Some e" for k e
    using ss_entry(1) [OF assms(1) that] assms(2) by auto
  then show "ss_abs E (snd (ss_store E uuid now key v token s)) =
      (ss_abs E s)(key := Some (v, hash_token E token, {}))"
    by (auto simp: ss_store_eq ss_abs_def fun_eq_iff shared_with_def res_value_def vs.save_same [OF env assms(2)]
        vs.save_other [OF env assms(2)] intro!: option.map_cong)
qed

lemma ss_rotate_refines:
  assumes "ss_ok E s" "\<not> vs_known (ss_vs s) uuid" "dict_get (ss_entries s) key = Some e"
    and "hash_token E token = en_owner e"
  shows "ss_ok E (snd (ss_rotate E uuid key v token s)) \<and>
    ss_abs E (snd (ss_rotate E uuid key v token s)) = (ss_abs E s)(key := Some (v, en_owner e, shared_with key s))"
proof
  note env = ss_env [OF assms(1)]
  note saved = vs.save_ok [OF env assms(2)]
  have ne: "en_file e' \<noteq> uuid" if "dict_get (ss_entries s) k = Some e'" for k e'
    using ss_entry(1) [OF assms(1) that] assms(2) by auto
  define vs' where "vs' = vs_forget (en_file e) (snd (vs_save_bytes E uuid v key (ss_vs s)))"
  have new: "fst (vs_retrieve E uuid Full vs') = Inr v"
    using vs.replace_same [OF env assms(2) ne [OF assms(3)]] by (simp add: vs'_def)
  have old: "fst (vs_retrieve E j Full vs') = fst (vs_retrieve E j Full (ss_vs s))"
    if "j \<noteq> uuid" "j \<noteq> en_file e" for j
    using vs.replace_other [OF env assms(2) that] by (simp add: vs'_def)
  have "ss_ok E (s\<lparr>ss_vs := vs', ss_entries := dict_set key (e\<lparr>en_file := uuid\<rparr>) (ss_entries s),
          ss_shared := ss_shared s\<rparr>)"
    using ne [OF assms(3)]
    by (intro ss_new_file [OF assms(1,2) _ _ new])
      (auto simp: vs'_def vs.forget_ok [OF saved] vs.forget_known [OF saved] vs.save_known [OF env assms(2)]
        assms(3) old [unfolded vs'_def])
  then show "ss_ok E (snd (ss_rotate E uuid key v token s))"
    by (simp add: ss_rotate_eq [OF assms(3,4)] vs'_def)
  have "en_file e' \<noteq> en_file e" if "dict_get (ss_entries s) k = Some e'" "k \<noteq> key" for k e'
    using ss_apart [OF assms(1,3) that] .
  then show "ss_abs E (snd (ss_rotate E uuid key v token s)) =
      (ss_abs E s)(key := Some (v, en_owner e, shared_with key s))"
    using ne by (auto simp: ss_rotate_eq [OF assms(3,4)] ss_abs_def fun_eq_iff shared_with_def res_value_def
        new [unfolded vs'_def] old [unfolded vs'_def] intro!: option.map_cong)
qed

lemma ss_revoke_refines:
  assumes "ss_ok E s" "dict_get (ss_entries s) key = Some e" "hash_token E token = en_owner e"
  shows "ss_ok E (snd (ss_revoke E key token s)) \<and>
    ss_abs E (snd (ss_revoke E key token s)) = (ss_abs E s)(key := None)"
proof -
  note env = ss_env [OF assms(1)]
  have apart: "en_file e' \<noteq> en_file e" if "dict_get (ss_entries s) k = Some e'" "k \<noteq> key" for k e'
    using ss_apart [OF assms(1,2) that] .
  define t where "t = s\<lparr>ss_entries := dict_del key (ss_entries s), ss_shared := dict_del key (ss_shared s)\<rparr>"
  have t: "ss_ok E t" "ss_abs E t = (ss_abs E s)(key := None)"
    using assms(1) unfolding t_def ss_ok_def
    by (simp, (intro conjI allI impI; (metis | force split: if_splits))?)
      (auto simp: ss_abs_def fun_eq_iff shared_with_def intro!: option.map_cong)
  have "vs_known (vs_forget (en_file e) (ss_vs t)) (en_file e') \<and>
      fst (vs_retrieve E (en_file e') Full (vs_forget (en_file e) (ss_vs t)))
        = fst (vs_retrieve E (en_file e') Full (ss_vs t))"
    if "dict_get (ss_entries t) k = Some e'" for k e'
    using that apart [of k e'] ss_entry(1) [OF assms(1), of k e']
    by (auto simp: t_def vs.forget_known [OF env] vs.forget_other [OF env] split: if_splits)
  then have "ss_ok E (t\<lparr>ss_vs := vs_forget (en_file e) (ss_vs t)\<rparr>)"
    "ss_abs E (t\<lparr>ss_vs := vs_forget (en_file e) (ss_vs t)\<rparr>) = ss_abs E t"
    using ss_same_files [OF t(1) vs.forget_ok [OF ss_env [OF t(1)]]] by blast+
  moreover have "snd (ss_revoke E key token s) = t\<lparr>ss_vs := vs_forget (en_file e) (ss_vs t)\<rparr>"
    using assms(2,3) by (cases s) (simp add: ss_revoke_def t_def)
  ultimately show ?thesis by (simp add: t(2))
qed

lemma ss_share_refines:
  assumes "ss_ok E s"
  shows "ss_ok E (s\<lparr>ss_shared := dict_set key g (ss_shared s)\<rparr>)"
    and "ss_abs E (s\<lparr>ss_shared := dict_set key g (ss_shared s)\<rparr>) =
      (ss_abs E s)(key := map_option (\<lambda>(v, owner, _). (v, owner, g)) (ss_abs E s key))"
  using assms by (auto simp: ss_ok_def ss_abs_def fun_eq_iff shared_with_def option.map_comp comp_def
      intro!: option.map_cong)

lemma ss_retrieve_refines:
  assumes "ss_ok E s"
  shows "ss_ok E (s\<lparr>ss_vs := snd (vs_retrieve E j Full (ss_vs s))\<rparr>)"
    and "ss_abs E (s\<lparr>ss_vs := snd (vs_retrieve E j Full (ss_vs s))\<rparr>) = ss_abs E s"
  using vs.store_laws [OF ss_env [OF assms]] ss_entry(1) [OF assms]
  by (auto intro!: ss_same_files [OF assms])

lemma ss_motion_refines:
  assumes "ss_ok E s"
  shows "ss_ok E (s\<lparr>ss_vs := vs_move m (ss_vs s)\<rparr>)"
    and "ss_abs E (s\<lparr>ss_vs := vs_move m (ss_vs s)\<rparr>) = ss_abs E s"
proof -
  have "vs_known (vs_move m (ss_vs s)) (en_file e) \<and>
      fst (vs_retrieve E (en_file e) Full (vs_move m (ss_vs s))) = fst (vs_retrieve E (en_file e) Full (ss_vs s))"
    if "dict_get (ss_entries s) k = Some e" for k e
    using ss_entry(1) [OF assms that] by (simp add: vs.move_known [OF ss_env [OF assms]] vs.move_retrieve [OF ss_env [OF assms]])
  then show "ss_ok E (s\<lparr>ss_vs := vs_move m (ss_vs s)\<rparr>)"
    "ss_abs E (s\<lparr>ss_vs := vs_move m (ss_vs s)\<rparr>) = ss_abs E s"
    using ss_same_files [OF assms vs.move_ok [OF ss_env [OF assms]]] by blast+
qed

lemma ss_abs_none: "dict_get (ss_entries s) k = None \<Longrightarrow> ss_abs E s k = None"
  by (simp add: ss_abs_def)

lemma ss_abs_some:
  "ss_ok E s \<Longrightarrow> dict_get (ss_entries s) k = Some e \<Longrightarrow>
     \<exists>v. ss_abs E s k = Some (v, en_owner e, shared_with k s) \<and>
         fst (vs_retrieve E (en_file e) Full (ss_vs s)) = Inr v"
  using ss_entry(2) [of E s k e] by (auto simp: ss_abs_def res_value_def)

lemma ss_step_refines:
  assumes "ss_ok E s" "event_fresh e s"
  shows "fst (ss_step E e s) = fst (acl_step (hash_token E) e (ss_abs E s)) \<and>
    ss_ok E (snd (ss_step E e s)) \<and>
    ss_abs E (snd (ss_step E e s)) = snd (acl_step (hash_token E) e (ss_abs E s))"
proof (cases e)
  case (Store uuid now key v token)
  then show ?thesis
    using assms ss_store_refines [OF assms(1)] by (simp add: done_res_def ss_store_eq)
next
  case (Get key token)
  then show ?thesis
  proof (cases "dict_get (ss_entries s) key")
    case (Some en)
    then show ?thesis
      using Get ss_abs_some [OF assms(1) Some] ss_retrieve_refines [OF assms(1)] assms(1)
      by (auto simp: ss_retrieve_def split_def)
  qed (simp add: assms ss_retrieve_def ss_abs_none)
next
  case (Share key owner grantee)
  then show ?thesis
  proof (cases "dict_get (ss_entries s) key")
    case (Some en)
    then show ?thesis
      using Share ss_abs_some [OF assms(1) Some] ss_share_refines [OF assms(1)] assms(1)
      by (auto simp: ss_share_def done_res_def)
  qed (simp add: assms ss_share_def ss_abs_none done_res_def)
next
  case (Rotate uuid key v token)
  then show ?thesis
  proof (cases "dict_get (ss_entries s) key")
    case (Some en)
    have f: "\<not> vs_known (ss_vs s) uuid" using Rotate assms(2) by simp
    show ?thesis
      using Rotate ss_abs_some [OF assms(1) Some] ss_rotate_refines [OF assms(1) f Some, of token v] assms(1) Some
      by (cases "hash_token E token = en_owner en")
        (simp_all add: done_res_def ss_rotate_eq [OF Some], auto simp: ss_rotate_def)
  qed (simp add: assms ss_rotate_def ss_abs_none done_res_def)
next
  case (Revoke key token)
  then show ?thesis
  proof (cases "dict_get (ss_entries s) key")
    case (Some en)
    then show ?thesis
      using Revoke ss_abs_some [OF assms(1) Some] ss_revoke_refines [OF assms(1) Some, of token] assms(1)
      by (cases "hash_token E token = en_owner en") (auto simp: done_res_def ss_revoke_def)
  qed (simp add: assms ss_revoke_def ss_abs_none done_res_def)
next
  case (Motion m)
  then show ?thesis using ss_motion_refines [OF assms(1)] by simp
qed

section \<open>Runs\<close>

fun ss_run :: "env \<Rightarrow> ss_event list \<Rightarrow> secrets \<Rightarrow> secrets" where
  "ss_run E [] s = s"
| "ss_run E (e # es) s = ss_run E es (snd (ss_step E e s))"

fun run_fresh :: "env \<Rightarrow> ss_event list \<Rightarrow> secrets \<Rightarrow> bool" where
  "run_fresh E [] s = True"
| "run_fresh E (e # es) s = (event_fresh e s \<and> run_fresh E es (snd (ss_step E e s)))"

definition acl_run :: "(string \<Rightarrow> string) \<Rightarrow> ss_event list \<Rightarrow> acl \<Rightarrow> acl" where
  "acl_run h es m = fold (\<lambda>e m. snd (acl_step h e m)) es m"

lemma ss_run_refines:
  "ss_ok E s \<Longrightarrow> run_fresh E es s \<Longrightarrow>
     ss_ok E (ss_run E es s) \<and> ss_abs E (ss_run E es s) = acl_run (hash_token E) es (ss_abs E s)"
  by (induction es arbitrary: s) (simp_all add: acl_run_def ss_step_refines)

lemma ss_init_ok: "lzma_ok E \<Longrightarrow> ss_ok E ss_init" and ss_init_abs: "ss_abs E ss_init = (\<lambda>_. None)"
  by (simp_all add: ss_ok_def ss_init_def vs_env_ok_def ss_abs_def fun_eq_iff)

text \<open>
  Property C6. Refinement of the secrets API: whatever is stored, shared, rotated, revoked and
  read, errors included, and however the boxes move in between, every call answers as the
  access-controlled map does.
\<close>

theorem secrets_store_refines_acl:
  assumes "lzma_ok E" "run_fresh E (es @ [e]) ss_init"
  shows "fst (ss_step E e (ss_run E es ss_init)) =
         fst (acl_step (hash_token E) e (acl_run (hash_token E) es (\<lambda>_. None)))"
proof -
  have "run_fresh E es s \<and> event_fresh e (ss_run E es s)" if "run_fresh E (es @ [e]) s" for s
    using that by (induction es arbitrary: s) auto
  then show ?thesis
    using assms(2) ss_run_refines [OF ss_init_ok [OF assms(1)], of es] ss_step_refines
    by (simp add: ss_init_abs)
qed

theorem secrets_store_refines_acl_witness:
  "fst (ss_step demo_env (Get ''k'' ''bob'') (ss_run demo_env
      [Store ''id1'' 0 ''k'' [1] ''alice'', Share ''k'' ''alice'' ''bob'', Rotate ''id2'' ''k'' [2] ''alice''] ss_init)) =
   Inr [2]"
  using secrets_store_refines_acl [of demo_env
      "[Store ''id1'' 0 ''k'' [1] ''alice'', Share ''k'' ''alice'' ''bob'', Rotate ''id2'' ''k'' [2] ''alice'']"
      "Get ''k'' ''bob''"]
  by (simp add: acl_run_def env_okD(2) [OF demo_env_ok] ss_store_eq done_res_def ss_init_def vs_init_def vs_known_def
      vs_save_bytes_eq ss_share_def dict_set_def dict_get_def)

definition names_token :: "(string \<Rightarrow> string) \<Rightarrow> string \<Rightarrow> string \<Rightarrow> ss_event \<Rightarrow> bool" where
  "names_token h key t e =
     (case e of
        Store _ _ k _ token \<Rightarrow> k = key \<and> h token = t
      | Share k _ grantee \<Rightarrow> k = key \<and> h grantee = t
      | _ \<Rightarrow> False)"

lemma acl_run_outsider:
  assumes "\<And>v owner gs. m key = Some (v, owner, gs) \<Longrightarrow> owner \<noteq> t \<and> t \<notin> gs"
    and "list_all (\<lambda>e. \<not> names_token h key t e) es" "acl_run h es m key = Some (v, owner, gs)"
  shows "owner \<noteq> t \<and> t \<notin> gs"
  using assms
proof (induction es arbitrary: m)
  case (Cons e es)
  have "owner \<noteq> t \<and> t \<notin> gs" if "snd (acl_step h e m) key = Some (v, owner, gs)" for v owner gs
    using that Cons.prems(1,2)
    by (cases e) (auto simp: names_token_def split: option.splits if_splits)
  then show ?case
    using Cons.IH [of "snd (acl_step h e m)"] Cons.prems(2,3) by (simp add: acl_run_def)
qed (simp add: acl_run_def)

text \<open>
  Property C29. No token gets in without being let in: after any history in which no call stored
  the key under a token of this hash, and no call granted this hash access to it, reading the
  key with it raises.
\<close>

theorem secrets_store_keeps_outsiders_out:
  assumes "lzma_ok E" "run_fresh E es ss_init"
    and "list_all (\<lambda>e. \<not> names_token (hash_token E) key (hash_token E token) e) es"
  shows "fst (ss_retrieve E key token (ss_run E es ss_init)) \<in> {Inl KeyError, Inl AuthError}"
proof -
  have "fst (ss_step E (Get key token) (ss_run E es ss_init)) =
      fst (acl_step (hash_token E) (Get key token) (acl_run (hash_token E) es (\<lambda>_. None)))"
    using ss_run_refines [OF ss_init_ok [OF assms(1)] assms(2)] ss_step_refines [of E _ "Get key token"]
      event_fresh.simps(3) ss_init_abs by metis
  then show ?thesis
    using acl_run_outsider [OF _ assms(3), of "\<lambda>_. None"] by (auto split: option.splits)
qed

theorem secrets_store_keeps_outsiders_out_witness:
  "fst (ss_retrieve demo_env ''k'' ''eve'' (ss_run demo_env [Store ''id1'' 0 ''k'' [1] ''alice''] ss_init))
     \<in> {Inl KeyError, Inl AuthError}"
  by (rule secrets_store_keeps_outsiders_out)
    (rule env_okD(2) [OF demo_env_ok], simp add: ss_init_def, code_simp)

text \<open>
  A second \<open>store\<close> on an existing key asks for no authorization: the caller becomes the
  owner, the former owner and every grantee lose access, and the former file is neither forgotten
  nor reachable: it stays in the storage with its three movers.
\<close>

theorem secrets_store_overwrite_leaks:
  assumes "ss_ok E s" "\<not> vs_known (ss_vs s) uuid" "dict_get (ss_entries s) key = Some e"
    and "hash_token E token \<noteq> hash_token E stranger"
    and t_def: "t = snd (ss_store E uuid now key v stranger s)"
  shows "fst (ss_retrieve E key stranger t) = Inr v \<and>
    fst (ss_retrieve E key token t) = Inl AuthError \<and>
    vs_known (ss_vs t) (en_file e) \<and>
    (\<forall>k e'. dict_get (ss_entries t) k = Some e' \<longrightarrow> en_file e' \<noteq> en_file e)"
proof -
  have abs: "ss_ok E t" "ss_abs E t = (ss_abs E s)(key := Some (v, hash_token E stranger, {}))"
    using ss_store_refines [OF assms(1,2)] by (simp_all add: t_def)
  have "fst (ss_retrieve E key tok t) =
      fst (acl_step (hash_token E) (Get key tok) (ss_abs E t))" for tok
    using ss_step_refines [OF abs(1), of "Get key tok"] by simp
  then have "fst (ss_retrieve E key stranger t) = Inr v" "fst (ss_retrieve E key token t) = Inl AuthError"
    using assms(4) by (simp_all add: abs)
  moreover have "vs_known (ss_vs t) (en_file e)"
    using ss_entry(1) [OF assms(1,3)] by (simp add: t_def ss_store_eq vs_save_known)
  moreover have "en_file e' \<noteq> en_file e" if "dict_get (ss_entries t) k = Some e'" for k e'
    using that assms(2) ss_apart [OF assms(1,3)] ss_entry(1) [OF assms(1,3)]
    by (auto simp: t_def ss_store_eq split: if_splits)
  ultimately show ?thesis by blast
qed

definition demo_secrets :: secrets where
  "demo_secrets = snd (ss_store demo_env ''id1'' 0 ''k'' [1] ''alice'' ss_init)"

theorem secrets_store_overwrite_leaks_witness:
  "fst (ss_retrieve demo_env ''k'' ''mallory'' (snd (ss_store demo_env ''id2'' 1 ''k'' [9] ''mallory'' demo_secrets)))
     = Inr [9]"
proof -
  have ok: "ss_ok demo_env demo_secrets"
    using ss_store_refines [OF ss_init_ok [OF env_okD(2) [OF demo_env_ok]]]
    by (simp add: demo_secrets_def ss_init_def)
  have "dict_get (ss_entries demo_secrets) ''k'' =
      Some \<lparr>en_file = ''id1'', en_owner = hash_token demo_env ''alice'', en_created = 0\<rparr>"
    "\<not> vs_known (ss_vs demo_secrets) ''id2''"
    by (simp_all add: demo_secrets_def ss_store_eq ss_init_def vs_save_known)
  moreover have "hash_token demo_env ''alice'' \<noteq> hash_token demo_env ''mallory''" by code_simp
  ultimately show ?thesis using secrets_store_overwrite_leaks [OF ok _ _ _ refl] by blast
qed

section \<open>Replication\<close>

definition rep_holds :: "env \<Rightarrow> acl \<Rightarrow> secrets option \<Rightarrow> bool" where
  "rep_holds E m rep \<longleftrightarrow> (\<exists>s. rep = Some s \<and> ss_ok E s \<and> ss_abs E s = m)"

text \<open>Every replica that is alive holds the same map.\<close>

definition rp_ok :: "env \<Rightarrow> acl \<Rightarrow> replicated \<Rightarrow> bool" where
  "rp_ok E m r \<longleftrightarrow> list_all2 (\<lambda>alive rep. alive \<longrightarrow> rep_holds E m rep) (rp_alive r) (rp_replicas r)"

lemma rp_scan_ok:
  assumes "list_all2 (\<lambda>alive rep. alive \<longrightarrow> rep_holds E m rep) as reps"
  shows "fst (rp_scan E key token (zip as reps)) =
       (if True \<in> set as then fst (acl_step (hash_token E) (Get key token) m) else Inl KeyError) \<and>
     list_all2 (\<lambda>alive rep. alive \<longrightarrow> rep_holds E m rep) as (snd (rp_scan E key token (zip as reps)))"
  using assms
proof (induction rule: list_all2_induct)
  case (Cons a as rep reps)
  show ?case
  proof (cases a)
    case True
    then obtain s where s: "rep = Some s" "ss_ok E s" "ss_abs E s = m"
      using Cons.hyps(1) by (auto simp: rep_holds_def)
    obtain out s' where get: "ss_retrieve E key token s = (out, s')" by fastforce
    then have out: "out = fst (acl_step (hash_token E) (Get key token) m)" "rep_holds E m (Some s')"
      using ss_step_refines [OF s(2), of "Get key token"] s(3)
      by (auto simp: rep_holds_def split: option.splits)
    have "map snd (zip as reps) = reps" using Cons.hyps(2) by (simp add: list_all2_lengthD)
    moreover have "out = Inl KeyError \<Longrightarrow> m key = None"
      using out(1) by (auto split: option.splits if_splits)
    moreover have "m key = None \<Longrightarrow> out = Inl KeyError" using out(1) by simp
    ultimately show ?thesis
      using True s(1) get out Cons.IH Cons.hyps(2)
      by (cases "out = Inl KeyError") (auto simp: split_def split: sum.splits pyerr.splits)
  next
    case False
    then show ?thesis using Cons.IH by (simp add: split_def)
  qed
qed simp

lemma rp_retrieve_ok:
  assumes "rp_ok E m r"
  shows "rp_ok E m (snd (rp_retrieve E key token r)) \<and>
    (True \<in> set (rp_alive r) \<longrightarrow>
       fst (rp_retrieve E key token r) = fst (acl_step (hash_token E) (Get key token) m))"
  using rp_scan_ok [of E m "rp_alive r" "rp_replicas r" key token] assms
  by (simp add: rp_ok_def rp_retrieve_def split_def)

definition rp_fresh :: "(nat \<Rightarrow> string) \<Rightarrow> replicated \<Rightarrow> bool" where
  "rp_fresh uuids r \<longleftrightarrow> list_all (\<lambda>i. case rp_replicas r ! i of None \<Rightarrow> True
     | Some s \<Rightarrow> \<not> vs_known (ss_vs s) (uuids i)) [0..<length (rp_replicas r)]"

lemma rp_store_ok:
  assumes "rp_ok E m r" "rp_fresh uuids r"
  shows "rp_ok E (m(key := Some (v, hash_token E token, {}))) (rp_store E uuids now key v token r)"
  using assms ss_store_refines [of E _ "uuids _" now key v token]
  by (auto simp: rp_ok_def rp_store_def rp_fresh_def list_all2_conv_all_nth rep_holds_def list_all_iff
      split: option.splits)

lemma rp_retrieve_alive: "rp_alive (snd (rp_retrieve E key token r)) = rp_alive r"
  by (simp add: rp_retrieve_def split_def Let_def)

lemma rp_kill_ok: "rp_ok E m r \<Longrightarrow> rp_ok E m (snd (rp_kill_replica i r))"
  by (auto simp: rp_ok_def rp_kill_replica_def list_all2_conv_all_nth nth_list_update)

datatype rp_event =
    RStore "nat \<Rightarrow> string" time string bytes string
  | RGet string string
  | RKill nat

fun rp_step :: "env \<Rightarrow> rp_event \<Rightarrow> replicated \<Rightarrow> replicated" where
  "rp_step E (RStore uuids now key v token) r = rp_store E uuids now key v token r"
| "rp_step E (RGet key token) r = snd (rp_retrieve E key token r)"
| "rp_step E (RKill i) r = snd (rp_kill_replica i r)"

fun rp_spec :: "(string \<Rightarrow> string) \<Rightarrow> rp_event \<Rightarrow> acl \<Rightarrow> acl" where
  "rp_spec h (RStore uuids now key v token) m = m(key := Some (v, h token, {}))"
| "rp_spec h e m = m"

fun rp_run_fresh :: "env \<Rightarrow> rp_event list \<Rightarrow> replicated \<Rightarrow> bool" where
  "rp_run_fresh E [] r = True"
| "rp_run_fresh E (e # es) r =
     ((case e of RStore uuids now key v token \<Rightarrow> rp_fresh uuids r | _ \<Rightarrow> True) \<and>
      rp_run_fresh E es (rp_step E e r))"

lemma rp_run_ok:
  "rp_ok E m r \<Longrightarrow> rp_run_fresh E es r \<Longrightarrow>
     rp_ok E (fold (rp_spec (hash_token E)) es m) (fold (rp_step E) es r)"
proof (induction es arbitrary: m r)
  case (Cons e es)
  have "rp_ok E (rp_spec (hash_token E) e m) (rp_step E e r)"
    using Cons.prems by (cases e) (simp_all add: rp_store_ok rp_kill_ok rp_retrieve_ok)
  then show ?case using Cons by simp
qed simp

lemma rp_init_ok: "lzma_ok E \<Longrightarrow> rp_ok E (\<lambda>_. None) (rp_init n)"
  by (simp add: rp_ok_def rp_init_def list_all2_conv_all_nth rep_holds_def ss_init_ok ss_init_abs)

lemma alive_count_pos: "0 < rp_alive_count r \<longleftrightarrow> True \<in> set (rp_alive r)"
  by (auto simp: rp_alive_count_def filter_empty_conv)

text \<open>
  Property C30. Replication: after any sequence of writes, reads and crashes of replicas, as long
  as one replica is alive a read answers exactly as if no replica had ever crashed; with none
  alive it raises \<open>KeyError\<close>.
\<close>

theorem replicated_store_survives_crashes:
  assumes "lzma_ok E" "rp_run_fresh E es (rp_init n)"
  shows "fst (rp_retrieve E key token (fold (rp_step E) es (rp_init n))) =
    (if 0 < rp_alive_count (fold (rp_step E) es (rp_init n))
     then fst (acl_step (hash_token E) (Get key token) (fold (rp_spec (hash_token E)) es (\<lambda>_. None)))
     else Inl KeyError)"
proof -
  have ok: "rp_ok E (fold (rp_spec (hash_token E)) es (\<lambda>_. None)) (fold (rp_step E) es (rp_init n))"
    by (rule rp_run_ok [OF rp_init_ok [OF assms(1)] assms(2)])
  then show ?thesis
    using rp_scan_ok [OF ok [unfolded rp_ok_def], of key token]
    by (simp add: alive_count_pos rp_retrieve_def split_def del: acl_step.simps)
qed

definition demo_rp_events :: "rp_event list" where
  "demo_rp_events = [RStore (\<lambda>i. if i = 0 then ''id1'' else ''id2'') 0 ''k'' [5] ''alice'', RKill 0,
     RGet ''k'' ''bob'']"

theorem replicated_store_survives_crashes_witness:
  "fst (rp_retrieve demo_env ''k'' ''alice'' (fold (rp_step demo_env) demo_rp_events (rp_init 2))) = Inr [5]"
proof -
  have "rp_run_fresh demo_env demo_rp_events (rp_init 2)"
    "0 < rp_alive_count (fold (rp_step demo_env) demo_rp_events (rp_init 2))"
    by (simp_all add: demo_rp_events_def rp_fresh_def rp_init_def ss_init_def rp_store_def rp_kill_replica_def
        rp_alive_count_def rp_retrieve_alive numeral_2_eq_2)
  moreover have "fst (acl_step (hash_token demo_env) (Get ''k'' ''alice'')
      (fold (rp_spec (hash_token demo_env)) demo_rp_events (\<lambda>_. None))) = Inr [5]"
    by (simp add: demo_rp_events_def)
  ultimately show ?thesis
    using replicated_store_survives_crashes [OF env_okD(2) [OF demo_env_ok], of demo_rp_events 2] by simp
qed

end
