(* ===== verification/GF256.thy ===== *)
theory GF256
  imports Prelude
begin

unbundle bit_operations_syntax

text \<open>
  The arithmetic of \<open>vstorage/shamir.py\<close>: the exponential and logarithm tables built by repeated
  multiplication by 3, multiplication and division through them, and the proof that the bytes
  with exclusive or and this multiplication are a field, so that the algebra of the library
  applies to the code.
\<close>

section \<open>The tables\<close>

text \<open>\<open>x2 = x << 1; if x2 & 0x100: x2 ^= 0x11B; x = x2 ^ x; x &= 0xFF\<close>.\<close>

definition times3 :: "nat \<Rightarrow> nat" where
  "times3 x = (let x2 = push_bit 1 x; y = (if x2 AND 256 \<noteq> 0 then x2 XOR 283 else x2) in (y XOR x) AND 255)"

definition init_step :: "nat \<Rightarrow> nat list \<times> nat list \<times> nat \<Rightarrow> nat list \<times> nat list \<times> nat" where
  "init_step i st = (case st of (ex, lg, x) \<Rightarrow> (ex[i := x], lg[x := i], times3 x))"

definition init_first :: "nat list \<times> nat list \<times> nat" where
  "init_first = fold init_step [0..<255] (replicate 512 0, replicate 256 0, 1)"

definition EXP_TABLE :: "nat list" where
  "EXP_TABLE = fold (\<lambda>i ex. ex[i := ex ! (i - 255)]) [255..<512] (fst init_first)"

definition LOG_TABLE :: "nat list" where
  "LOG_TABLE = fst (snd init_first)"

definition gf_mul :: "nat \<Rightarrow> nat \<Rightarrow> nat res" where
  "gf_mul a b =
     (if a = 0 \<or> b = 0 then Inr 0
      else case py_index LOG_TABLE a of Inl e \<Rightarrow> Inl e | Inr la \<Rightarrow>
           case py_index LOG_TABLE b of Inl e \<Rightarrow> Inl e | Inr lb \<Rightarrow> py_index EXP_TABLE (la + lb))"

definition gf_div :: "nat \<Rightarrow> nat \<Rightarrow> nat res" where
  "gf_div a b =
     (if a = 0 then Inr 0 else if b = 0 then Inl ZeroDivisionError
      else case py_index LOG_TABLE a of Inl e \<Rightarrow> Inl e | Inr la \<Rightarrow>
           case py_index LOG_TABLE b of Inl e \<Rightarrow> Inl e | Inr lb \<Rightarrow>
           py_index EXP_TABLE (nat ((int la - int lb) mod 255)))"

section \<open>Multiplication by three on bytes\<close>

definition tw :: "byte \<Rightarrow> byte" where
  "tw x = (if bit x 7 then push_bit 1 x XOR 27 else push_bit 1 x) XOR x"

lemma tw_xor: "tw (a XOR b) = tw a XOR tw b"
  by (rule bit_eqI) (auto simp: tw_def bit_simps)

lemma tw_0 [simp]: "tw 0 = 0"
  by (simp add: tw_def)

lemma tw_pow_xor: "(tw ^^ n) (a XOR b) = (tw ^^ n) a XOR (tw ^^ n) b"
  by (induction n) (simp_all add: tw_xor)

lemma tw_pow_0 [simp]: "(tw ^^ n) 0 = 0"
  by (induction n) simp_all

lemma and_256: "(n AND 256 = 0) = (\<not> bit n 8)" for n :: nat
  using and_exp_eq_0_iff_not_bit [of n 8] by simp

lemma times3_byte: "times3 (unat w) = unat (tw w)"
proof -
  have m: "(n :: nat) AND 255 = take_bit 8 n" for n by (simp add: take_bit_eq_mask mask_eq_exp_minus_1)
  have u: "unat (v XOR w) = unat v XOR unat w" for v w :: byte by (fact unsigned_xor_eq)
  have p: "unat (push_bit 1 w) = take_bit 8 (push_bit 1 (unat w))" by (simp add: unat_word_ariths take_bit_eq_mod)
  have b: "bit (push_bit 1 (unat w)) 8 = bit w 7" by (simp only: bit_push_bit_iff bit_unsigned_iff) simp
  have t: "take_bit 8 (unat w) = unat w" using unsigned_less [of w, where ?'a = nat] by (simp add: take_bit_nat_eq_self)
  have "take_bit 8 (283 :: nat) = 27" by simp
  then show ?thesis
    unfolding times3_def Let_def and_256 b tw_def m take_bit_xor t
    by (simp only: u p t if_distrib [of unat] if_distrib [of "take_bit 8"] take_bit_xor not_not) simp
qed

section \<open>The powers of three run through every nonzero byte\<close>

definition pw :: "nat \<Rightarrow> byte" where
  "pw n = (tw ^^ n) 1"

lemma pw_add: "(tw ^^ m) (pw n) = pw (m + n)"
  by (simp add: pw_def funpow_add)

text \<open>The one computation: starting from 3, 1 does not come up again before the 255th power. It is
  done on integers.\<close>

definition times3_int :: "int \<Rightarrow> int" where
  "times3_int x = (let x2 = push_bit 1 x; y = (if x2 AND 256 \<noteq> 0 then x2 XOR 283 else x2) in (y XOR x) AND 255)"

fun powers_int :: "nat \<Rightarrow> int \<Rightarrow> int list" where
  "powers_int 0 x = []"
| "powers_int (Suc n) x = x # powers_int n (times3_int x)"

lemma powers_check: "list_all (\<lambda>x. x \<noteq> 1) (powers_int 254 3) \<and> last (powers_int (Suc 255) 1) = 1"
  by code_simp

lemma times3_int: "times3_int (int n) = int (times3 n)"
proof -
  have "int (n * 2 AND 256) = int n * 2 AND 256" by (simp add: of_nat_and_eq)
  then have "(int n * 2 AND 256 = 0) = (n * 2 AND 256 = 0)" by (metis of_nat_eq_0_iff)
  then show ?thesis
    by (simp add: times3_def times3_int_def Let_def of_nat_and_eq of_nat_xor_eq)
qed

lemma times3_int_byte: "times3_int (uint w) = uint (tw w)"
  using times3_int [of "unat w"] by (simp add: times3_byte)

lemma powers_int_pw: "powers_int n (uint (pw m)) = map (\<lambda>j. uint (pw (m + j))) [0..<n]"
proof (induction n arbitrary: m)
  case (Suc n)
  have "times3_int (uint (pw m)) = uint (pw (Suc m))"
    by (simp add: times3_int_byte pw_def)
  then show ?case
    using Suc.IH [of "Suc m"] by (simp add: upt_conv_Cons map_Suc_upt [symmetric] comp_def del: upt_Suc)
qed simp

lemma powers_last: "last (powers_int (Suc n) (uint (pw m))) = uint (pw (m + n))"
  by (simp only: powers_int_pw) simp

lemma powers_avoid:
  "list_all (\<lambda>x. x \<noteq> 1) (powers_int n (uint (pw 1))) \<Longrightarrow> 0 < k \<Longrightarrow> k \<le> n \<Longrightarrow> pw k \<noteq> 1"
proof (unfold powers_int_pw list_all_iff set_map, rule notI)
  assume a: "\<forall>x \<in> (\<lambda>j. uint (pw (1 + j))) ` set [0..<n]. x \<noteq> 1" "0 < k" "k \<le> n" "pw k = 1"
  then have "k - 1 \<in> set [0..<n]" by auto
  then have "uint (pw (1 + (k - 1))) \<noteq> 1" using a(1) by blast
  then show False using a(2,4) by simp
qed

lemma pw_0: "pw 0 = 1" and pw_1: "pw 1 = 3"
  by (simp_all add: pw_def tw_def)

lemma pw_255: "pw 255 = 1"
proof -
  have "last (powers_int (Suc 255) (uint (pw 0))) = 1" unfolding pw_0 unsigned_1 using powers_check by blast
  then have "uint (pw 255) = uint (1 :: byte)" unfolding powers_last by simp
  then show ?thesis by (simp only: unsigned_word_eqI)
qed

lemma pw_not_1: "0 < n \<Longrightarrow> n < 255 \<Longrightarrow> pw n \<noteq> 1"
proof (rule powers_avoid [of 254])
  have "uint (pw 1) = 3" unfolding pw_1 by simp
  then show "list_all (\<lambda>x. x \<noteq> 1) (powers_int 254 (uint (pw 1)))" using powers_check by (simp only:)
qed linarith+

lemma pw_period: "pw (n + 255) = pw n"
proof -
  have "pw (n + 255) = (tw ^^ n) (pw 255)" by (simp only: pw_add)
  also have "\<dots> = (tw ^^ n) 1" by (simp only: pw_255)
  finally show ?thesis by (simp only: pw_def)
qed

lemma pw_periods: "pw (n + q * 255) = pw n"
proof (induction q)
  case (Suc q)
  have "pw (n + Suc q * 255) = pw (n + q * 255 + 255)" by (rule arg_cong [of _ _ pw]) simp
  then show ?case using Suc pw_period by simp
qed simp

lemma pw_mod: "pw (n mod 255) = pw n"
  using pw_periods [of "n mod 255" "n div 255"] by simp

lemma pw_nonzero: "pw n \<noteq> 0"
proof
  assume "pw n = 0"
  then have "pw (m + n) = 0" for m using pw_add [of m n] by simp
  then have "pw (n * 254 + n) = 0" .
  moreover have "n * 254 + n = 0 + n * 255" by simp
  ultimately have "pw 0 = 0" using pw_periods [of 0 n] by simp
  then show False by (simp add: pw_0)
qed

lemma pw_inj: "inj_on pw {..<255}"
proof -
  have "pw i \<noteq> pw j" if "i < j" "j < 255" for i j
  proof
    assume eq: "pw i = pw j"
    have "pw (255 - i + i) = pw (255 - i + j)" unfolding pw_add [symmetric] eq ..
    moreover have "255 - i + j = (j - i) + 255" "255 - i + i = 255" using that by linarith+
    ultimately have "pw (j - i) = 1" by (simp only: pw_period pw_255)
    then show False using pw_not_1 [of "j - i"] that by linarith
  qed
  then show ?thesis by (metis inj_onI lessThan_iff linorder_neqE_nat)
qed

lemma pw_surj: "pw ` {..<255} = UNIV - {0}"
proof (rule card_subset_eq)
  show "finite (UNIV - {0 :: byte})" by simp
  show "pw ` {..<255} \<subseteq> UNIV - {0}" using pw_nonzero by auto
  have "card (UNIV :: byte set) = 256" by (simp add: card_word)
  then show "card (pw ` {..<255}) = card (UNIV - {0 :: byte})" by (simp add: card_image [OF pw_inj] card_Diff_singleton)
qed

section \<open>What the tables hold\<close>

definition init_run :: "nat \<Rightarrow> nat list \<times> nat list \<times> nat" where
  "init_run n = fold init_step [0..<n] (replicate 512 0, replicate 256 0, 1)"

lemma init_run_Suc: "init_run (Suc n) = init_step n (init_run n)"
  by (simp add: init_run_def)

lemma init_run_facts:
  "n \<le> 255 \<Longrightarrow> \<exists>ex lg. init_run n = (ex, lg, unat (pw n)) \<and> length ex = 512 \<and> length lg = 256 \<and>
     (\<forall>i < n. ex ! i = unat (pw i)) \<and> (\<forall>i < n. lg ! unat (pw i) = i)"
proof (induction n)
  case 0
  show ?case by (simp add: init_run_def pw_0)
next
  case (Suc n)
  then obtain ex lg where IH: "init_run n = (ex, lg, unat (pw n))" "length ex = 512" "length lg = 256"
    "\<forall>i < n. ex ! i = unat (pw i)" "\<forall>i < n. lg ! unat (pw i) = i" by auto
  have b: "unat (pw n) < 256" using unsigned_less [of "pw n", where ?'a = nat] by simp
  have "pw i \<noteq> pw n" if "i < n" for i
    using inj_onD [OF pw_inj, of i n] that Suc.prems by auto
  then have d: "unat (pw i) \<noteq> unat (pw n)" if "i < n" for i using that by (metis unsigned_word_eqI)
  have s: "times3 (unat (pw n)) = unat (pw (Suc n))" by (simp add: times3_byte pw_def)
  have "init_run (Suc n) = (ex[n := unat (pw n)], lg[unat (pw n) := n], unat (pw (Suc n)))"
    by (simp add: init_run_Suc IH(1) init_step_def s)
  then show ?case
    using IH(2-5) b d d [symmetric] Suc.prems by (auto simp: nth_list_update less_Suc_eq)
qed

lemma init_first_facts:
  "length (fst init_first) = 512" "length LOG_TABLE = 256"
  "i < 255 \<Longrightarrow> fst init_first ! i = unat (pw i)" "i < 255 \<Longrightarrow> LOG_TABLE ! unat (pw i) = i"
proof -
  obtain ex lg where r: "init_run 255 = (ex, lg, unat (pw 255))" "length ex = 512" "length lg = 256"
    "\<forall>i < 255. ex ! i = unat (pw i)" "\<forall>i < 255. lg ! unat (pw i) = i"
    using init_run_facts [OF order_refl] by blast
  have "init_first = init_run 255" by (simp only: init_first_def init_run_def)
  then have e: "init_first = (ex, lg, unat (pw 255))" using r(1) by (rule trans)
  have "fst init_first = ex" "LOG_TABLE = lg" unfolding LOG_TABLE_def e by simp_all
  then show "length (fst init_first) = 512" "length LOG_TABLE = 256"
    "i < 255 \<Longrightarrow> fst init_first ! i = unat (pw i)" "i < 255 \<Longrightarrow> LOG_TABLE ! unat (pw i) = i"
    using r(2-5) by simp_all
qed

definition exp_run :: "nat \<Rightarrow> nat list" where
  "exp_run m = fold (\<lambda>i ex. ex[i := ex ! (i - 255)]) [255..<255 + m] (fst init_first)"

lemma exp_run_Suc: "exp_run (Suc m) = (exp_run m)[255 + m := exp_run m ! m]"
proof -
  have "[255..<255 + Suc m] = [255..<255 + m] @ [255 + m]"
    using upt_Suc_append [of 255 "255 + m"] by (simp only: add_Suc_right le_add1)
  then show ?thesis unfolding exp_run_def by simp
qed

lemma exp_run_facts:
  "m \<le> 257 \<Longrightarrow> length (exp_run m) = 512 \<and> (\<forall>i < 255 + m. exp_run m ! i = unat (pw i))"
proof (induction m)
  case 0
  show ?case by (simp add: init_first_facts exp_run_def)
next
  case (Suc m)
  then have IH: "length (exp_run m) = 512" "\<forall>i < 255 + m. exp_run m ! i = unat (pw i)" by auto
  have "exp_run m ! m = unat (pw (255 + m))"
    using IH(2) pw_period [of m] by (simp add: add.commute)
  then show ?case
    using IH Suc.prems by (auto simp: exp_run_Suc nth_list_update less_Suc_eq)
qed

lemma EXP_TABLE_facts: "length EXP_TABLE = 512" "i < 512 \<Longrightarrow> EXP_TABLE ! i = unat (pw i)"
proof -
  have n: "(512 :: nat) = 255 + 257" by simp
  have "EXP_TABLE = exp_run 257" unfolding EXP_TABLE_def exp_run_def n ..
  then show "length EXP_TABLE = 512" "i < 512 \<Longrightarrow> EXP_TABLE ! i = unat (pw i)"
    using exp_run_facts [OF order_refl] by simp_all
qed

definition lg :: "byte \<Rightarrow> nat" where
  "lg a = LOG_TABLE ! unat a"

lemma lg_facts:
  assumes "a \<noteq> 0"
  shows "lg a < 255" "pw (lg a) = a"
proof -
  obtain i where "i < 255" "a = pw i" using pw_surj assms by blast
  then show "lg a < 255" "pw (lg a) = a" by (simp_all add: lg_def init_first_facts)
qed

lemma py_index_log: "py_index LOG_TABLE (unat (a :: byte)) = Inr (lg a)"
  using unsigned_less [of a, where ?'a = nat] by (simp add: py_index_def init_first_facts lg_def)

lemma py_index_exp: "n < 512 \<Longrightarrow> py_index EXP_TABLE n = Inr (unat (pw n))"
  by (simp add: py_index_def EXP_TABLE_facts)

section \<open>The field\<close>

definition mul_byte :: "byte \<Rightarrow> byte \<Rightarrow> byte" where
  "mul_byte a b = (if a = 0 \<or> b = 0 then 0 else pw (lg a + lg b))"

definition inv_byte :: "byte \<Rightarrow> byte" where
  "inv_byte a = (if a = 0 then 0 else pw (255 - lg a))"

lemma mul_byte_pow: "a \<noteq> 0 \<Longrightarrow> mul_byte a b = (tw ^^ lg a) b"
  using lg_facts(2) [of b] pw_add [of "lg a" "lg b"] by (cases "b = 0") (simp_all add: mul_byte_def)

lemma mul_byte_comm: "mul_byte a b = mul_byte b a"
  by (simp add: mul_byte_def add.commute)

lemma mul_byte_zero [simp]: "mul_byte 0 b = 0" "mul_byte a 0 = 0"
  by (simp_all add: mul_byte_def)

lemma mul_byte_xor: "mul_byte a (b XOR c) = mul_byte a b XOR mul_byte a c"
  by (cases "a = 0") (simp_all add: mul_byte_pow tw_pow_xor)

lemma mul_byte_assoc: "mul_byte (mul_byte a b) c = mul_byte a (mul_byte b c)"
proof (cases "a = 0 \<or> c = 0")
  case False
  have "mul_byte (mul_byte a b) c = (tw ^^ lg c) ((tw ^^ lg a) b)"
    using False by (simp add: mul_byte_comm [of _ c] mul_byte_pow)
  also have "\<dots> = (tw ^^ lg a) ((tw ^^ lg c) b)"
    by (metis add.commute comp_apply funpow_add)
  also have "\<dots> = mul_byte a (mul_byte b c)"
    using False by (simp add: mul_byte_comm [of _ c] mul_byte_pow)
  finally show ?thesis .
qed auto

lemma lg_1: "lg 1 = 0"
  using init_first_facts(4) [of 0] by (simp add: lg_def pw_0)

lemma mul_byte_1: "mul_byte 1 a = a"
  by (simp add: mul_byte_pow lg_1)

lemma mul_byte_inv: "a \<noteq> 0 \<Longrightarrow> mul_byte (inv_byte a) a = 1"
proof -
  assume a: "a \<noteq> 0"
  have "mul_byte a (pw (255 - lg a)) = pw (lg a + (255 - lg a))"
    by (simp only: mul_byte_pow [OF a] pw_add)
  also have "lg a + (255 - lg a) = 255" using lg_facts(1) [OF a] by simp
  finally show ?thesis using a by (simp add: inv_byte_def mul_byte_comm pw_255)
qed

typedef gf256 = "UNIV :: byte set"
  morphisms gf_byte GF
  by simp

lemma gf_byte_GF [simp]: "gf_byte (GF x) = x"
  by (simp add: GF_inverse)

lemma gf_eq_iff: "a = b \<longleftrightarrow> gf_byte a = gf_byte b"
  by (simp add: gf_byte_inject)

instantiation gf256 :: field
begin

definition zero_gf256 :: gf256 where
  "zero_gf256 = GF 0"

definition one_gf256 :: gf256 where
  "one_gf256 = GF 1"

definition plus_gf256 :: "gf256 \<Rightarrow> gf256 \<Rightarrow> gf256" where
  "plus_gf256 a b = GF (gf_byte a XOR gf_byte b)"

definition minus_gf256 :: "gf256 \<Rightarrow> gf256 \<Rightarrow> gf256" where
  "minus_gf256 a b = GF (gf_byte a XOR gf_byte b)"

definition uminus_gf256 :: "gf256 \<Rightarrow> gf256" where
  "uminus_gf256 a = a"

definition times_gf256 :: "gf256 \<Rightarrow> gf256 \<Rightarrow> gf256" where
  "times_gf256 a b = GF (mul_byte (gf_byte a) (gf_byte b))"

definition inverse_gf256 :: "gf256 \<Rightarrow> gf256" where
  "inverse_gf256 a = GF (inv_byte (gf_byte a))"

definition divide_gf256 :: "gf256 \<Rightarrow> gf256 \<Rightarrow> gf256" where
  "divide_gf256 a b = GF (mul_byte (gf_byte a) (inv_byte (gf_byte b)))"

instance
proof
  fix a b c :: gf256
  show "a * b * c = a * (b * c)" by (simp add: times_gf256_def mul_byte_assoc)
  show "a * b = b * a" by (simp add: times_gf256_def mul_byte_comm)
  show "1 * a = a" by (simp add: times_gf256_def one_gf256_def mul_byte_1 gf_byte_inverse)
  show "a + b + c = a + (b + c)" by (simp add: plus_gf256_def ac_simps)
  show "a + b = b + a" by (simp add: plus_gf256_def ac_simps)
  show "0 + a = a" by (simp add: plus_gf256_def zero_gf256_def gf_byte_inverse)
  show "- a + a = 0" by (simp add: plus_gf256_def uminus_gf256_def zero_gf256_def)
  show "a - b = a + - b" by (simp add: plus_gf256_def uminus_gf256_def minus_gf256_def)
  show "(a + b) * c = a * c + b * c"
    by (simp add: plus_gf256_def times_gf256_def mul_byte_comm [of _ "gf_byte c"] mul_byte_xor)
  show "(0 :: gf256) \<noteq> 1" by (simp add: zero_gf256_def one_gf256_def gf_eq_iff)
  show "a \<noteq> 0 \<Longrightarrow> inverse a * a = 1"
    by (simp add: inverse_gf256_def times_gf256_def one_gf256_def zero_gf256_def gf_eq_iff mul_byte_inv)
  show "a div b = a * inverse b" by (simp add: divide_gf256_def times_gf256_def inverse_gf256_def)
  show "inverse (0 :: gf256) = 0" by (simp add: inverse_gf256_def zero_gf256_def inv_byte_def)
qed

end

section \<open>The code computes in the field\<close>

definition val :: "gf256 \<Rightarrow> nat" where
  "val a = unat (gf_byte a)"

lemma val_less [simp]: "val a < 256"
  using unsigned_less [of "gf_byte a", where ?'a = nat] by (simp add: val_def)

lemma val_eq_iff: "val a = val b \<longleftrightarrow> a = b"
  by (metis gf_eq_iff unsigned_word_eqI val_def)

lemma val_0: "val 0 = 0" and val_1: "val 1 = 1"
  by (simp_all add: val_def zero_gf256_def one_gf256_def)

lemma val_zero_iff: "val a = 0 \<longleftrightarrow> a = 0"
  using val_eq_iff [of a 0] by (simp add: val_0)

lemma val_GF: "val (GF w) = unat w"
  by (simp add: val_def)

lemma val_xor: "val a XOR val b = val (a + b)"
  by (simp add: val_def plus_gf256_def unsigned_xor_eq)

lemma gf_minus_plus: "a - b = (a + b :: gf256)" and gf_uminus: "- a = (a :: gf256)"
  by (simp_all add: minus_gf256_def plus_gf256_def uminus_gf256_def)

lemma gf_byte_zero_iff: "gf_byte a = 0 \<longleftrightarrow> a = 0"
  by (simp add: gf_eq_iff zero_gf256_def)

lemma gf_mul_val: "gf_mul (val a) (val b) = Inr (val (a * b))"
proof (cases "a = 0 \<or> b = 0")
  case True
  then show ?thesis by (auto simp: gf_mul_def val_0)
next
  case False
  then have nz: "gf_byte a \<noteq> 0" "gf_byte b \<noteq> 0" by (simp_all add: gf_byte_zero_iff)
  then have "lg (gf_byte a) + lg (gf_byte b) < 512"
    using lg_facts(1) [OF nz(1)] lg_facts(1) [OF nz(2)] by linarith
  then show ?thesis
    using False nz by (simp add: gf_mul_def val_zero_iff) (simp add: val_def py_index_log py_index_exp times_gf256_def mul_byte_def)
qed

lemma gf_div_val: "b \<noteq> 0 \<Longrightarrow> gf_div (val a) (val b) = Inr (val (a / b))"
proof (cases "a = 0")
  case True
  then show ?thesis by (simp add: gf_div_def val_0)
next
  case False
  assume b: "b \<noteq> 0"
  have nz: "gf_byte a \<noteq> 0" "gf_byte b \<noteq> 0" using False b by (simp_all add: gf_byte_zero_iff)
  let ?i = "lg (gf_byte a)" and ?j = "lg (gf_byte b)"
  have ij: "?i < 255" "?j < 255" using nz lg_facts(1) by blast+
  let ?r = "nat ((int ?i - int ?j) mod 255)"
  have "(int ?i - int ?j) mod 255 < 255" "0 \<le> (int ?i - int ?j) mod 255" by simp_all
  then have "?r < 512" by linarith
  have "int (?i + (255 - ?j)) = int ?i - int ?j + 255" using ij by simp
  moreover have "int ((?i + (255 - ?j)) mod 255) = int (?i + (255 - ?j)) mod 255"
    by (simp only: zmod_int of_nat_numeral)
  ultimately have "int ((?i + (255 - ?j)) mod 255) = (int ?i - int ?j) mod 255"
    by (simp only: mod_add_self2)
  then have "?r = (?i + (255 - ?j)) mod 255" by linarith
  then have "pw ?r = pw (?i + (255 - ?j))" by (simp only: pw_mod)
  moreover have "mul_byte (gf_byte a) (inv_byte (gf_byte b)) = pw (?i + (255 - ?j))"
    using nz pw_add [of ?i "255 - ?j"] by (simp only: mul_byte_pow inv_byte_def if_False not_False_eq_True)
  ultimately have "val (a / b) = unat (pw ?r)" by (simp add: divide_gf256_def val_GF)
  then show ?thesis
    using False b \<open>?r < 512\<close> by (simp add: gf_div_def val_zero_iff) (simp add: val_def py_index_log py_index_exp)
qed

lemma gf_mul_large: "a \<noteq> 0 \<Longrightarrow> 256 \<le> b \<Longrightarrow> gf_mul a b = Inl IndexError"
  by (auto simp: gf_mul_def py_index_def init_first_facts)

definition elt :: "nat \<Rightarrow> gf256" where
  "elt n = GF (of_nat n)"

lemma val_elt: "n < 256 \<Longrightarrow> val (elt n) = n"
  by (simp add: elt_def val_def unat_of_nat)

lemma elt_val [simp]: "elt (val a) = a"
  using val_eq_iff val_elt [OF val_less] by blast

lemma elt_eq_iff: "m < 256 \<Longrightarrow> n < 256 \<Longrightarrow> elt m = elt n \<longleftrightarrow> m = n"
  by (metis val_elt)

lemma elt_zero_iff: "n < 256 \<Longrightarrow> elt n = 0 \<longleftrightarrow> n = 0"
  using val_zero_iff val_elt by metis

lemmas gf_code = gf_mul_val gf_div_val val_xor

lemma card_gf256: "card (UNIV :: gf256 set) = 256"
proof -
  have "(UNIV :: gf256 set) = GF ` UNIV" by (metis gf_byte_inverse surj_def)
  moreover have "card (range GF) = card (UNIV :: byte set)"
    by (rule card_image) (metis GF_inverse UNIV_I injI)
  ultimately show ?thesis by (simp add: card_word)
qed

section \<open>Properties\<close>



end
