(* ===== verification/Interpolation.thy ===== *)
theory Interpolation
  imports Main
begin

text \<open>
  Polynomials over a field as coefficient lists, as \<open>vstorage/shamir.py\<close> has them (the constant
  term first): how many roots one can have, that Lagrange's sum is the one polynomial through
  given points, and the consequence that a missing point leaves every value open.
\<close>

definition poly :: "'a::field list \<Rightarrow> 'a \<Rightarrow> 'a" where
  "poly cs x = foldr (\<lambda>c r. c + x * r) cs 0"

lemma poly_simps [simp]: "poly [] x = 0" "poly (c # cs) x = c + x * poly cs x"
  by (simp_all add: poly_def)

lemma poly_at_0: "cs \<noteq> [] \<Longrightarrow> poly cs 0 = hd cs"
  by (cases cs) simp_all

lemma poly_snoc: "poly (cs @ [c]) x = poly cs x + c * x ^ length cs"
  by (induction cs) (simp_all add: algebra_simps)

section \<open>Polynomial functions of bounded degree\<close>

definition is_poly :: "nat \<Rightarrow> ('a::field \<Rightarrow> 'a) \<Rightarrow> bool" where
  "is_poly n f \<longleftrightarrow> (\<exists>cs. length cs = n \<and> f = poly cs)"

lemma poly_add:
  "length cs = length ds \<Longrightarrow> poly (map2 (+) cs ds) x = poly cs x + poly ds x"
  by (induction cs ds rule: list_induct2) (simp_all add: algebra_simps)

lemma poly_scale: "poly (map ((*) a) cs) x = a * poly cs x"
  by (induction cs) (simp_all add: algebra_simps)

lemma is_poly_zero: "is_poly n (\<lambda>x. 0)"
proof -
  have "poly (replicate n 0) x = (0::'a)" for x by (induction n) simp_all
  then show ?thesis unfolding is_poly_def by (metis ext length_replicate)
qed

lemma is_poly_add:
  assumes "is_poly n f" "is_poly n g"
  shows "is_poly n (\<lambda>x. f x + g x)"
proof -
  obtain cs ds where c: "length cs = n" "f = poly cs" "length ds = n" "g = poly ds"
    using assms unfolding is_poly_def by blast
  then show ?thesis
    unfolding is_poly_def by (intro exI [of _ "map2 (+) cs ds"]) (simp add: poly_add fun_eq_iff)
qed

lemma is_poly_scale:
  assumes "is_poly n f"
  shows "is_poly n (\<lambda>x. a * f x)"
proof -
  obtain cs where "length cs = n" "f = poly cs" using assms unfolding is_poly_def by blast
  then show ?thesis
    unfolding is_poly_def by (intro exI [of _ "map ((*) a) cs"]) (simp add: poly_scale fun_eq_iff)
qed

lemma is_poly_times_x:
  assumes "is_poly n f"
  shows "is_poly (Suc n) (\<lambda>x. x * f x)"
proof -
  obtain cs where "length cs = n" "f = poly cs" using assms unfolding is_poly_def by blast
  then show ?thesis
    unfolding is_poly_def by (intro exI [of _ "0 # cs"]) (simp add: fun_eq_iff)
qed

lemma is_poly_mono1:
  assumes "is_poly n f"
  shows "is_poly (Suc n) f"
proof -
  obtain cs where "length cs = n" "f = poly cs" using assms unfolding is_poly_def by blast
  then show ?thesis
    unfolding is_poly_def by (intro exI [of _ "cs @ [0]"]) (simp add: poly_snoc fun_eq_iff)
qed

lemma is_poly_mono: "is_poly m f \<Longrightarrow> m \<le> n \<Longrightarrow> is_poly n f"
  by (induction n) (auto simp: le_Suc_eq is_poly_mono1)

lemma is_poly_const: "is_poly (Suc 0) (\<lambda>x. a)"
  unfolding is_poly_def by (intro exI [of _ "[a]"]) (simp add: fun_eq_iff)

lemma is_poly_linear:
  assumes "is_poly n f"
  shows "is_poly (Suc n) (\<lambda>x. (x - a) * f x)"
proof -
  have "is_poly (Suc n) (\<lambda>x. x * f x + (- a) * f x)"
    using assms by (intro is_poly_add is_poly_times_x is_poly_mono1 is_poly_scale)
  then show ?thesis by (simp add: algebra_simps)
qed

lemma is_poly_sum_list: "(\<And>i. i \<in> set is \<Longrightarrow> is_poly n (f i)) \<Longrightarrow> is_poly n (\<lambda>x. \<Sum>i\<leftarrow>is. f i x)"
  by (induction "is") (auto simp: is_poly_zero intro: is_poly_add)

lemma is_poly_prod_list: "is_poly (Suc (length as)) (\<lambda>x. \<Prod>a\<leftarrow>as. x - a)"
  by (induction as) (auto simp: is_poly_const intro: is_poly_linear)

section \<open>Roots\<close>

text \<open>Synthetic division by \<open>x - a\<close>.\<close>

lemma divide_linear: "\<exists>q. Suc (length q) = length cs \<and> (\<forall>x. poly cs x = (x - a) * poly q x + poly cs a)"
  if "cs \<noteq> []"
  using that
proof (induction cs)
  case (Cons c cs)
  show ?case
  proof (cases "cs = []")
    case False
    with Cons.IH obtain q where q: "Suc (length q) = length cs" "\<And>x. poly cs x = (x - a) * poly q x + poly cs a"
      by blast
    have "poly (c # cs) x = (x - a) * poly (poly cs a # q) x + poly (c # cs) a" for x
    proof -
      have "poly (c # cs) x = c + x * ((x - a) * poly q x + poly cs a)"
        using q(2) [of x] by (simp only: poly_simps)
      also have "\<dots> = (x - a) * (poly cs a + x * poly q x) + (c + a * poly cs a)"
        by (simp add: algebra_simps)
      finally show ?thesis by (simp only: poly_simps)
    qed
    then have "\<forall>x. poly (c # cs) x = (x - a) * poly (poly cs a # q) x + poly (c # cs) a" by blast
    moreover have "Suc (length (poly cs a # q)) = length (c # cs)" using q(1) by simp
    ultimately show ?thesis by blast
  qed (intro exI [of _ "[]"], simp)
qed simp

lemma roots_zero:
  assumes "is_poly n f" "distinct xs" "n \<le> length xs" "\<And>x. x \<in> set xs \<Longrightarrow> f x = 0"
  shows "f x = 0"
proof -
  have "poly cs x = 0" if "length cs \<le> length xs" "distinct xs" "\<And>x. x \<in> set xs \<Longrightarrow> poly cs x = 0" for cs :: "'a list" and xs x
    using that
  proof (induction xs arbitrary: cs x)
    case (Cons a xs)
    show ?case
    proof (cases "cs = []")
      case False
      then obtain q where q: "Suc (length q) = length cs" "\<And>x. poly cs x = (x - a) * poly q x + poly cs a"
        using divide_linear by blast
      have a: "poly cs a = 0" using Cons.prems(3) by simp
      have "poly q y = 0" if "y \<in> set xs" for y
        using q(2) [of y] Cons.prems(2,3) that a by auto
      then have "poly q x = 0" for x
        using Cons.IH [of q x] Cons.prems(1,2) q(1) by simp
      then show ?thesis using q(2) a by simp
    qed simp
  qed simp
  then show ?thesis using assms unfolding is_poly_def by metis
qed

lemma poly_zero_coeffs:
  "distinct xs \<Longrightarrow> length cs \<le> length xs \<Longrightarrow> (\<And>x. x \<in> set xs \<Longrightarrow> poly cs x = 0) \<Longrightarrow> cs = replicate (length cs) 0"
proof (induction cs arbitrary: xs)
  case (Cons c cs)
  have "poly (c # cs) 0 = 0"
    using roots_zero [of "length (c # cs)" "poly (c # cs)" xs 0] Cons.prems unfolding is_poly_def by blast
  then have c: "c = 0" by simp
  have "poly cs x = 0" if "x \<in> set (remove1 0 xs)" for x
  proof -
    have "x \<in> set xs" "x \<noteq> 0" using that Cons.prems(1) by (auto dest: notin_set_remove1)
    then show ?thesis using Cons.prems(3) [of x] c by simp
  qed
  moreover have "length cs \<le> length (remove1 0 xs)"
    using Cons.prems(2) by (cases "0 \<in> set xs") (auto simp: length_remove1)
  ultimately show ?case
    using Cons.IH [of "remove1 0 xs"] Cons.prems(1) c by simp
qed simp

lemma poly_unique:
  assumes "length cs = length ds" "distinct xs" "length cs \<le> length xs" "\<And>x. x \<in> set xs \<Longrightarrow> poly cs x = poly ds x"
  shows "cs = ds"
proof -
  let ?es = "map2 (-) cs ds"
  have "poly (map2 (-) cs ds) x = poly cs x - poly ds x" for x
    using assms(1) by (induction cs ds rule: list_induct2) (simp_all add: right_diff_distrib)
  then have "?es = replicate (length ?es) 0"
    using assms by (intro poly_zero_coeffs) simp_all
  then have "\<forall>i < length cs. cs ! i - ds ! i = 0"
    using assms(1) by (metis (no_types, lifting) length_map length_zip min.idem nth_map nth_replicate nth_zip case_prod_conv)
  then show ?thesis using assms(1) by (intro nth_equalityI) simp_all
qed

section \<open>Lagrange interpolation\<close>

text \<open>The basis function of point \<open>i\<close>.\<close>

definition others :: "'a list \<Rightarrow> nat \<Rightarrow> 'a list" where
  "others xs i = take i xs @ drop (Suc i) xs"

definition basis :: "'a::field list \<Rightarrow> nat \<Rightarrow> 'a \<Rightarrow> 'a" where
  "basis xs i t = (\<Prod>a\<leftarrow>others xs i. t - a) / (\<Prod>a\<leftarrow>others xs i. xs ! i - a)"

definition lagrange :: "'a::field list \<Rightarrow> 'a list \<Rightarrow> 'a \<Rightarrow> 'a" where
  "lagrange xs ys t = (\<Sum>i\<leftarrow>[0..<length xs]. ys ! i * basis xs i t)"

lemma others_set:
  assumes "distinct xs" "i < length xs"
  shows "set (others xs i) = set xs - {xs ! i}"
proof -
  define us v vs where "us = take i xs" and "v = xs ! i" and "vs = drop (Suc i) xs"
  have xs: "xs = us @ v # vs" using assms(2) by (simp add: us_def v_def vs_def id_take_nth_drop)
  have "distinct (us @ v # vs)" using assms(1) xs by metis
  then have "set (us @ vs) = set (us @ v # vs) - {v}" by auto
  then have "set (us @ vs) = set xs - {v}" using xs by metis
  moreover have "others xs i = us @ vs" by (simp add: others_def us_def vs_def)
  ultimately show ?thesis by (simp add: v_def)
qed

lemma basis_at:
  assumes "distinct xs" "i < length xs" "j < length xs"
  shows "basis xs i (xs ! j) = (if i = j then 1 else 0)"
proof (cases "i = j")
  case True
  have "xs ! i \<notin> set (others xs i)" using others_set [OF assms(1,2)] by simp
  then have "(\<Prod>a\<leftarrow>others xs i. xs ! i - a) \<noteq> 0" by (auto simp: prod_list_zero_iff)
  then show ?thesis using True by (simp add: basis_def)
next
  case False
  then have "xs ! j \<in> set (others xs i)"
    using others_set [OF assms(1,2)] assms by (auto simp: nth_eq_iff_index_eq)
  then have "(\<Prod>a\<leftarrow>others xs i. xs ! j - a) = 0" by (auto simp: prod_list_zero_iff)
  then show ?thesis using False by (simp add: basis_def)
qed

lemma is_poly_basis: "i < length xs \<Longrightarrow> is_poly (length xs) (basis xs i)"
proof -
  assume i: "i < length xs"
  have "is_poly (Suc (length (others xs i))) (\<lambda>t. inverse (\<Prod>a\<leftarrow>others xs i. xs ! i - a) * (\<Prod>a\<leftarrow>others xs i. t - a))"
    by (intro is_poly_scale is_poly_prod_list)
  moreover have "Suc (length (others xs i)) = length xs" using i by (simp add: others_def)
  moreover have "basis xs i = (\<lambda>t. inverse (\<Prod>a\<leftarrow>others xs i. xs ! i - a) * (\<Prod>a\<leftarrow>others xs i. t - a))"
    by (simp add: basis_def fun_eq_iff divide_inverse)
  ultimately show ?thesis by simp
qed

lemma is_poly_lagrange: "is_poly (length xs) (lagrange xs ys)"
proof -
  have "is_poly (length xs) (\<lambda>t. \<Sum>i\<leftarrow>[0..<length xs]. ys ! i * basis xs i t)"
    by (intro is_poly_sum_list is_poly_scale is_poly_basis) simp
  then show ?thesis by (simp add: lagrange_def [abs_def])
qed

lemma sum_list_all_zero: "(\<And>i. i \<in> set is \<Longrightarrow> f i = 0) \<Longrightarrow> (\<Sum>i\<leftarrow>is. f i) = (0 :: 'a::field)"
  by (induction "is") auto

lemma sum_list_single: "distinct is \<Longrightarrow> j \<in> set is \<Longrightarrow> (\<Sum>i\<leftarrow>is. f i * (if i = j then 1 else 0)) = (f j :: 'a::field)"
proof (induction "is")
  case (Cons k ks)
  show ?case
  proof (cases "k = j")
    case True
    then have "(\<Sum>i\<leftarrow>ks. f i * (if i = j then 1 else 0)) = 0"
      using Cons.prems(1) by (intro sum_list_all_zero) auto
    then show ?thesis using True by simp
  qed (use Cons in auto)
qed simp

lemma lagrange_at:
  assumes "distinct xs" "j < length xs"
  shows "lagrange xs ys (xs ! j) = ys ! j"
proof -
  have "lagrange xs ys (xs ! j) = (\<Sum>i\<leftarrow>[0..<length xs]. ys ! i * (if i = j then 1 else 0))"
    unfolding lagrange_def using assms by (intro arg_cong [of _ _ sum_list] map_cong) (auto simp: basis_at)
  then show ?thesis using assms by (simp add: sum_list_single)
qed

text \<open>Interpolating through at least as many points as there are coefficients gives the polynomial.\<close>

lemma lagrange_poly:
  assumes "distinct xs" "length cs \<le> length xs" "length ys = length xs"
    and "\<And>i. i < length xs \<Longrightarrow> ys ! i = poly cs (xs ! i)"
  shows "lagrange xs ys t = poly cs t"
proof -
  have "is_poly (length xs) (poly cs)" by (rule is_poly_mono [OF _ assms(2)]) (auto simp: is_poly_def)
  then have "is_poly (length xs) (\<lambda>t. lagrange xs ys t + (- 1) * poly cs t)"
    by (intro is_poly_add is_poly_scale is_poly_lagrange)
  moreover have "lagrange xs ys x + (- 1) * poly cs x = 0" if "x \<in> set xs" for x
    using that assms lagrange_at [OF assms(1)] by (auto simp: in_set_conv_nth)
  ultimately have "lagrange xs ys t + (- 1) * poly cs t = 0"
    using roots_zero [of "length xs" _ xs t] assms(1) by blast
  then show ?thesis by simp
qed

text \<open>One point fewer: every value at another point is reached by exactly one polynomial.\<close>

lemma poly_through_ex1:
  assumes "distinct (a # xs)" "length ys = length xs"
  shows "\<exists>!cs. length cs = Suc (length xs) \<and> poly cs a = v \<and> (\<forall>i < length xs. poly cs (xs ! i) = ys ! i)"
proof -
  obtain cs where cs: "length cs = Suc (length xs)" "lagrange (a # xs) (v # ys) = poly cs"
    using is_poly_lagrange [of "a # xs" "v # ys"] unfolding is_poly_def by auto
  have at: "poly cs ((a # xs) ! j) = (v # ys) ! j" if "j < Suc (length xs)" for j
    using lagrange_at [OF assms(1), of j "v # ys"] that cs(2) by simp
  show ?thesis
  proof (rule ex1I [of _ cs])
    show "length cs = Suc (length xs) \<and> poly cs a = v \<and> (\<forall>i < length xs. poly cs (xs ! i) = ys ! i)"
      using cs(1) at [of 0] at [of "Suc _"] by simp
    fix ds assume ds: "length ds = Suc (length xs) \<and> poly ds a = v \<and> (\<forall>i < length xs. poly ds (xs ! i) = ys ! i)"
    have "poly ds x = poly cs x" if "x \<in> set (a # xs)" for x
      using that ds at [of 0] at [of "Suc _"] by (auto simp: in_set_conv_nth)
    then show "ds = cs"
      using poly_unique [of ds cs "a # xs"] assms(1) ds cs(1) by simp
  qed
qed

end
