(* ===== verification/Shamir.thy ===== *)
theory Shamir
  imports GF256 Interpolation
begin

text \<open>
  \<open>vstorage/shamir.py\<close>: splitting a secret into n shares and combining k of them. \<open>os.urandom\<close> is
  an argument: \<open>rnd i j\<close> is the j-th random coefficient of the polynomial of byte \<open>i\<close>.
\<close>

unbundle bit_operations_syntax

text \<open>\<open>result = 0; for coeff in reversed(coeffs): result = _gf_mul(result, x) ^ coeff\<close>.\<close>

fun eval_loop :: "nat list \<Rightarrow> nat \<Rightarrow> nat \<Rightarrow> nat res" where
  "eval_loop [] x result = Inr result"
| "eval_loop (c # cs) x result =
     (case gf_mul result x of Inl e \<Rightarrow> Inl e | Inr m \<Rightarrow> eval_loop cs x (m XOR c))"

definition eval_poly :: "nat list \<Rightarrow> nat \<Rightarrow> nat res" where
  "eval_poly coeffs x = eval_loop (rev coeffs) x 0"

type_synonym share = "nat \<times> bytes"

definition coeffs_of :: "(nat \<Rightarrow> nat \<Rightarrow> byte) \<Rightarrow> nat \<Rightarrow> nat \<Rightarrow> byte \<Rightarrow> nat list" where
  "coeffs_of rnd k byte_idx secret_byte =
     unat secret_byte # map (\<lambda>j. unat (rnd byte_idx j)) [0..<k - 1]"

text \<open>The row of one secret byte: its value in each of the n shares.\<close>

definition share_row :: "(nat \<Rightarrow> nat \<Rightarrow> byte) \<Rightarrow> nat \<Rightarrow> nat \<Rightarrow> nat \<times> byte \<Rightarrow> bytes res" where
  "share_row rnd k n ib =
     mapM (\<lambda>share_idx. map_res of_nat (eval_poly (coeffs_of rnd k (fst ib) (snd ib)) (share_idx + 1))) [0..<n]"

definition split_secret :: "(nat \<Rightarrow> nat \<Rightarrow> byte) \<Rightarrow> bytes \<Rightarrow> nat \<Rightarrow> nat \<Rightarrow> share list res" where
  "split_secret rnd secret k n =
     (if \<not> (1 \<le> k \<and> k \<le> n) then Inl ValueError
      else case mapM (share_row rnd k n) (enumerate 0 secret) of Inl e \<Rightarrow> Inl e
        | Inr rows \<Rightarrow> Inr (map (\<lambda>i. (i + 1, map (\<lambda>row. row ! i) rows)) [0..<n]))"

text \<open>The inner loop of \<open>combine_shares\<close>: numerator and denominator of term \<open>i\<close>.\<close>

fun num_den :: "nat \<Rightarrow> nat \<Rightarrow> nat \<Rightarrow> (nat \<times> nat) list \<Rightarrow> nat \<Rightarrow> nat \<Rightarrow> (nat \<times> nat) res" where
  "num_den i xi j [] num den = Inr (num, den)"
| "num_den i xi j ((xj, yj) # ps) num den =
     (if i = j then num_den i xi (Suc j) ps num den
      else case gf_mul num xj of Inl e \<Rightarrow> Inl e | Inr num' \<Rightarrow>
           case gf_mul den (xi XOR xj) of Inl e \<Rightarrow> Inl e | Inr den' \<Rightarrow> num_den i xi (Suc j) ps num' den')"

fun sum_terms :: "(nat \<times> nat) list \<Rightarrow> nat \<Rightarrow> (nat \<times> nat) list \<Rightarrow> nat \<Rightarrow> nat res" where
  "sum_terms points i [] acc = Inr acc"
| "sum_terms points i ((xi, yi) # ps) acc =
     (case num_den i xi 0 points 1 1 of Inl e \<Rightarrow> Inl e | Inr (num, den) \<Rightarrow>
      case gf_div num den of Inl e \<Rightarrow> Inl e | Inr q \<Rightarrow>
      case gf_mul yi q of Inl e \<Rightarrow> Inl e | Inr term \<Rightarrow> sum_terms points (Suc i) ps (acc XOR term))"

definition combine_byte :: "share list \<Rightarrow> nat \<Rightarrow> byte res" where
  "combine_byte shares byte_idx =
     (case mapM (\<lambda>(x, y). map_res (\<lambda>v. (x, unat v)) (py_index y byte_idx)) shares of Inl e \<Rightarrow> Inl e
      | Inr points \<Rightarrow> map_res of_nat (sum_terms points 0 points 0))"

definition combine_shares :: "share list \<Rightarrow> bytes res" where
  "combine_shares shares =
     (case shares of [] \<Rightarrow> Inl IndexError
      | s # _ \<Rightarrow> mapM (combine_byte shares) [0..<length (snd s)])"

section \<open>The code computes polynomials and Lagrange's sum\<close>

lemma eval_loop_val:
  "eval_loop (map val (rev cs)) (val x) (val r) = Inr (val (foldl (\<lambda>r c. r * x + c) r (rev cs)))"
proof -
  have "eval_loop (map val ds) (val x) (val r) = Inr (val (foldl (\<lambda>r c. r * x + c) r ds))" for ds
    by (induction ds arbitrary: r) (simp_all add: gf_code)
  then show ?thesis .
qed

lemma horner: "foldl (\<lambda>r c. r * x + c) 0 (rev cs) = poly cs x"
  by (induction cs) (simp_all add: algebra_simps)

lemma eval_poly_val: "eval_poly (map val cs) (val x) = Inr (val (poly cs x))"
  using eval_loop_val [of cs x 0] by (simp add: eval_poly_def rev_map [symmetric] horner val_0)


fun kept :: "nat \<Rightarrow> nat \<Rightarrow> 'a list \<Rightarrow> 'a list" where
  "kept i j [] = []"
| "kept i j (x # xs) = (if i = j then kept i (Suc j) xs else x # kept i (Suc j) xs)"

lemma kept_before: "i < j \<Longrightarrow> kept i j xs = xs"
  by (induction xs arbitrary: j) auto

lemma kept_others: "j \<le> i \<Longrightarrow> i - j < length xs \<Longrightarrow> kept i j xs = take (i - j) xs @ drop (Suc (i - j)) xs"
proof (induction xs arbitrary: j)
  case (Cons x xs)
  show ?case
  proof (cases "i = j")
    case False
    then obtain d where "i - j = Suc d" "i - Suc j = d" using Cons.prems(1) by (metis Suc_diff_Suc le_neq_implies_less)
    then show ?thesis using False Cons.IH [of "Suc j"] Cons.prems by simp
  qed (simp add: kept_before)
qed simp

lemma num_den_val:
  "num_den i (val xi) j (zip (map val xs) ys) (val num) (val den) =
     Inr (val (num * (\<Prod>a\<leftarrow>kept i j xs. a)), val (den * (\<Prod>a\<leftarrow>kept i j xs. xi - a)))" if "length ys = length xs"
  using that [symmetric]
proof (induction xs ys arbitrary: j num den rule: list_induct2)
  case (Cons x xs y ys)
  then show ?case
    by (cases "i = j") (simp_all add: gf_code gf_minus_plus mult.assoc)
qed simp

lemma sum_terms_val:
  assumes "distinct xs" "length ys = length xs" "0 \<notin> set xs"
  shows "i + length us = length xs \<Longrightarrow> drop i xs = us \<Longrightarrow> drop i ys = vs \<Longrightarrow>
    sum_terms (zip (map val xs) (map val ys)) i (zip (map val us) (map val vs)) (val acc) =
      Inr (val (acc + (\<Sum>j\<leftarrow>[i..<length xs]. ys ! j * basis xs j 0)))"
proof (induction us arbitrary: i vs acc)
  case (Cons u us)
  have i: "i < length xs" using Cons.prems(1) by simp
  then obtain v vs' where vs: "vs = v # vs'" using Cons.prems(3) assms(2) by (cases vs) auto
  have u: "u = xs ! i" "us = drop (Suc i) xs" "v = ys ! i" "vs' = drop (Suc i) ys"
    using Cons.prems vs i assms(2) by (metis Cons_nth_drop_Suc list.inject)+
  have k: "kept i 0 xs = others xs i" using i by (simp add: kept_others others_def)
  have "xs ! i \<notin> set (others xs i)" using others_set [OF assms(1) i] by simp
  then have nz: "(\<Prod>a\<leftarrow>others xs i. u - a) \<noteq> 0" by (auto simp: prod_list_zero_iff u(1))
  have nd: "num_den i (val u) 0 (zip (map val xs) (map val ys)) 1 1 =
      Inr (val (\<Prod>a\<leftarrow>others xs i. a), val (\<Prod>a\<leftarrow>others xs i. u - a))"
    using num_den_val [of "map val ys" xs i u 0 1 1] assms(2) by (simp add: k val_1)
  have b: "basis xs i 0 = (\<Prod>a\<leftarrow>others xs i. a) / (\<Prod>a\<leftarrow>others xs i. u - a)"
    by (simp add: basis_def u(1) gf_uminus)
  have "sum_terms (zip (map val xs) (map val ys)) i (zip (map val (u # us)) (map val vs)) (val acc) =
      sum_terms (zip (map val xs) (map val ys)) (Suc i) (zip (map val us) (map val vs')) (val (acc + ys ! i * basis xs i 0))"
    using nz by (simp add: vs nd gf_code b u(3) del: One_nat_def times_divide_eq_right)
  also have "\<dots> = Inr (val (acc + ys ! i * basis xs i 0 + (\<Sum>j\<leftarrow>[Suc i..<length xs]. ys ! j * basis xs j 0)))"
    using Cons.prems(1) u(2,4) by (intro Cons.IH) simp_all
  finally show ?case using i by (simp add: upt_conv_Cons add.assoc)
qed simp

lemma sum_terms_lagrange:
  assumes "distinct xs" "length ys = length xs" "0 \<notin> set xs"
  shows "sum_terms (zip (map val xs) (map val ys)) 0 (zip (map val xs) (map val ys)) 0 = Inr (val (lagrange xs ys 0))"
  using sum_terms_val [OF assms, of 0 xs ys 0] by (simp add: val_0 lagrange_def)

section \<open>What splitting returns\<close>

definition field_coeffs :: "(nat \<Rightarrow> nat \<Rightarrow> byte) \<Rightarrow> nat \<Rightarrow> nat \<times> byte \<Rightarrow> gf256 list" where
  "field_coeffs rnd k ib = GF (snd ib) # map (\<lambda>j. GF (rnd (fst ib) j)) [0..<k - 1]"

lemma coeffs_of_val: "coeffs_of rnd k (fst ib) (snd ib) = map val (field_coeffs rnd k ib)"
  by (simp add: coeffs_of_def field_coeffs_def val_GF)

definition share_byte :: "(nat \<Rightarrow> nat \<Rightarrow> byte) \<Rightarrow> nat \<Rightarrow> nat \<Rightarrow> nat \<times> byte \<Rightarrow> byte" where
  "share_byte rnd k x ib = gf_byte (poly (field_coeffs rnd k ib) (elt x))"

definition shares_of :: "(nat \<Rightarrow> nat \<Rightarrow> byte) \<Rightarrow> bytes \<Rightarrow> nat \<Rightarrow> nat \<Rightarrow> share list" where
  "shares_of rnd secret k n = map (\<lambda>i. (i + 1, map (share_byte rnd k (i + 1)) (enumerate 0 secret))) [0..<n]"

lemma share_row_ok: "n \<le> 255 \<Longrightarrow> share_row rnd k n ib = Inr (map (\<lambda>i. share_byte rnd k (i + 1) ib) [0..<n])"
proof (unfold share_row_def, rule mapM_Inr)
  fix i assume "n \<le> 255" "i \<in> set [0..<n]"
  then have "i + 1 = val (elt (i + 1))" by (simp add: val_elt)
  then have "eval_poly (coeffs_of rnd k (fst ib) (snd ib)) (i + 1) = Inr (val (poly (field_coeffs rnd k ib) (elt (i + 1))))"
    using eval_poly_val [of "field_coeffs rnd k ib" "elt (i + 1)"] by (simp add: coeffs_of_val)
  then show "map_res of_nat (eval_poly (coeffs_of rnd k (fst ib) (snd ib)) (i + 1)) = Inr (share_byte rnd k (i + 1) ib)"
    by (simp add: share_byte_def val_def)
qed

lemma split_secret_ok:
  assumes "1 \<le> k" "k \<le> n" "n \<le> 255"
  shows "split_secret rnd secret k n = Inr (shares_of rnd secret k n)"
proof -
  have "mapM (share_row rnd k n) (enumerate 0 secret) =
      Inr (map (\<lambda>ib. map (\<lambda>i. share_byte rnd k (i + 1) ib) [0..<n]) (enumerate 0 secret))"
    using share_row_ok [OF assms(3)] by (intro mapM_Inr) simp
  then show ?thesis using assms(1,2) by (simp add: split_secret_def shares_of_def comp_def)
qed

lemma shares_of_mem:
  assumes "s \<in> set (shares_of rnd secret k n)" "n \<le> 255"
  shows "0 < fst s" "fst s < 256" "fst s \<le> n" "length (snd s) = length secret"
    "i < length secret \<Longrightarrow> GF (snd s ! i) = poly (field_coeffs rnd k (i, secret ! i)) (elt (fst s))"
  using assms by (auto simp: shares_of_def share_byte_def gf_byte_inverse nth_enumerate_eq)

lemma combine_byte_ok:
  assumes "set sub \<subseteq> set (shares_of rnd secret k n)" "n \<le> 255" "distinct (map fst sub)" "k \<le> length sub" "1 \<le> k"
    and "i < length secret"
  shows "combine_byte sub i = Inr (secret ! i)"
proof -
  let ?xs = "map (\<lambda>s. elt (fst s)) sub" and ?ys = "map (\<lambda>s. GF (snd s ! i)) sub"
  let ?cs = "field_coeffs rnd k (i, secret ! i)"
  have mem: "0 < fst s \<and> fst s < 256 \<and> length (snd s) = length secret \<and> GF (snd s ! i) = poly ?cs (elt (fst s))"
    if "s \<in> set sub" for s
    using shares_of_mem [of s rnd secret k n] assms(1,2,6) that by auto
  have "inj_on (\<lambda>s. elt (fst s)) (set sub)"
    using assms(3) mem by (auto simp: inj_on_def distinct_map elt_eq_iff)
  then have d: "distinct ?xs" using assms(3) by (simp add: distinct_map)
  have nz: "0 \<notin> set ?xs"
  proof
    assume "0 \<in> set ?xs"
    then obtain s where "s \<in> set sub" "elt (fst s) = 0" by auto
    then show False using mem [of s] elt_zero_iff [of "fst s"] by auto
  qed
  have pts: "mapM (\<lambda>(x, y). map_res (\<lambda>v. (x, unat v)) (py_index y i)) sub = Inr (zip (map val ?xs) (map val ?ys))"
  proof -
    have "mapM (\<lambda>(x, y). map_res (\<lambda>v. (x, unat v)) (py_index y i)) sub = Inr (map (\<lambda>s. (fst s, unat (snd s ! i))) sub)"
      using mem assms(6) by (intro mapM_Inr) (auto simp: py_index_def)
    also have "map (\<lambda>s. (fst s, unat (snd s ! i))) sub = zip (map val ?xs) (map val ?ys)"
      using mem by (simp add: zip_map_map zip_same_conv_map comp_def val_elt val_GF)
    finally show ?thesis .
  qed
  have "lagrange ?xs ?ys 0 = poly ?cs 0"
    using mem assms(4,5) by (intro lagrange_poly [OF d]) (simp_all add: field_coeffs_def)
  then have "lagrange ?xs ?ys 0 = GF (secret ! i)" by (simp add: field_coeffs_def)
  then have "sum_terms (zip (map val ?xs) (map val ?ys)) 0 (zip (map val ?xs) (map val ?ys)) 0 = Inr (unat (secret ! i))"
    using sum_terms_lagrange [OF d _ nz, of ?ys] by (simp add: val_GF)
  then show ?thesis by (simp add: combine_byte_def pts)
qed

lemma combine_shares_ok:
  assumes "set sub \<subseteq> set (shares_of rnd secret k n)" "n \<le> 255" "distinct (map fst sub)" "k \<le> length sub" "1 \<le> k"
  shows "combine_shares sub = Inr secret"
proof -
  obtain s ss where s: "sub = s # ss" using assms(4,5) by (cases sub) auto
  then have "length (snd s) = length secret" using shares_of_mem(4) [of s] assms(1,2) by auto
  moreover have "mapM (combine_byte sub) [0..<length secret] = Inr (map ((!) secret) [0..<length secret])"
    using combine_byte_ok [OF assms] by (intro mapM_Inr) simp
  ultimately show ?thesis by (simp add: combine_shares_def s map_nth)
qed

section \<open>Properties\<close>

text \<open>
  Property C5. Any k shares suffice: for 1 to 255 shares, whatever the random coefficients, splitting
  returns n shares, and combining any selection of at least k of them with different indices, in
  any order, returns the secret.
\<close>

theorem shamir_reconstructs:
  assumes "1 \<le> k" "k \<le> n" "n \<le> 255"
  shows "\<exists>shares. split_secret rnd secret k n = Inr shares \<and> map fst shares = [1..<n + 1] \<and>
    (\<forall>sub. set sub \<subseteq> set shares \<and> distinct (map fst sub) \<and> k \<le> length sub \<longrightarrow> combine_shares sub = Inr secret)"
proof (intro exI conjI allI impI)
  show "split_secret rnd secret k n = Inr (shares_of rnd secret k n)" by (rule split_secret_ok [OF assms])
  show "map fst (shares_of rnd secret k n) = [1..<n + 1]"
    by (simp add: shares_of_def comp_def map_Suc_upt)
  show "combine_shares sub = Inr secret"
    if "set sub \<subseteq> set (shares_of rnd secret k n) \<and> distinct (map fst sub) \<and> k \<le> length sub" for sub
    using that combine_shares_ok [OF _ assms(3) _ _ assms(1)] by blast
qed

theorem shamir_reconstructs_witness:
  "\<exists>shares. split_secret (\<lambda>i j. of_nat (7 * i + j)) [42, 43] 3 5 = Inr shares \<and> map fst shares = [1..<6]"
  using shamir_reconstructs [of 3 5 "\<lambda>i j. of_nat (7 * i + j)" "[42, 43]"] by auto

text \<open>
  Property C31. k - 1 shares say nothing: whatever values any k - 1 different shares of a byte show,
  every secret byte is consistent with them, and by exactly one choice of the k - 1 random
  coefficients, so with uniform coefficients all secrets are equally likely.
\<close>

theorem shamir_reveals_nothing:
  assumes "distinct xs" "set xs \<subseteq> {1..255}" "length ys = length xs"
  shows "\<exists>!r :: byte list. length r = length xs \<and>
    (\<forall>i < length xs. eval_poly (unat (b :: byte) # map unat r) (xs ! i) = Inr (unat (ys ! i :: byte)))"
proof -
  let ?X = "map elt xs" and ?Y = "map GF ys"
  have range: "0 < x \<and> x < 256" if "x \<in> set xs" for x using assms(2) that by fastforce
  have "inj_on elt (set xs)" using range elt_eq_iff by (auto simp: inj_on_def)
  moreover have "0 \<notin> elt ` set xs" using range elt_zero_iff by (metis imageE less_numeral_extra(3))
  ultimately have d: "distinct (0 # ?X)" using assms(1) by (simp add: distinct_map)
  have ev: "eval_poly (unat b # map unat r) (xs ! i) = Inr (unat (ys ! i)) \<longleftrightarrow> poly (GF b # map GF r) (?X ! i) = ?Y ! i"
    if "i < length xs" for i r
  proof -
    have "xs ! i = val (?X ! i)" using that range by (simp add: val_elt)
    then have "eval_poly (unat b # map unat r) (xs ! i) = Inr (val (poly (GF b # map GF r) (?X ! i)))"
      using eval_poly_val [of "GF b # map GF r" "?X ! i"] by (simp add: val_GF comp_def)
    moreover have "unat (ys ! i) = val (?Y ! i)" using that assms(3) by (simp add: val_GF)
    ultimately show ?thesis by (simp add: val_eq_iff)
  qed
  have len: "length ?Y = length ?X" using assms(3) by simp
  have "\<exists>!cs. length cs = Suc (length xs) \<and> poly cs 0 = GF b \<and> (\<forall>i < length xs. poly cs (?X ! i) = ?Y ! i)"
    using poly_through_ex1 [OF d len, of "GF b"] by (simp only: length_map)
  then obtain cs where cs: "length cs = Suc (length xs)" "poly cs 0 = GF b" "\<forall>i < length xs. poly cs (?X ! i) = ?Y ! i"
    and uniq: "\<And>ds. length ds = Suc (length xs) \<Longrightarrow> poly ds 0 = GF b \<Longrightarrow> \<forall>i < length xs. poly ds (?X ! i) = ?Y ! i \<Longrightarrow> ds = cs"
    by (elim ex1E) blast
  obtain rs where rs: "cs = GF b # rs" using cs(1,2) by (cases cs) auto
  have "map GF (map gf_byte rs) = rs" by (simp add: comp_def gf_byte_inverse)
  then have r: "cs = GF b # map GF (map gf_byte rs)" using rs by simp
  show ?thesis
  proof (rule ex1I [of _ "map gf_byte rs"])
    show "length (map gf_byte rs) = length xs \<and>
      (\<forall>i < length xs. eval_poly (unat b # map unat (map gf_byte rs)) (xs ! i) = Inr (unat (ys ! i)))"
    proof (intro conjI allI impI)
      show "length (map gf_byte rs) = length xs" using cs(1) rs by simp
      fix i assume i: "i < length xs"
      show "eval_poly (unat b # map unat (map gf_byte rs)) (xs ! i) = Inr (unat (ys ! i))"
        unfolding ev [OF i] r [symmetric] using cs(3) i by blast
    qed
    fix r' :: "byte list"
    assume r': "length r' = length xs \<and> (\<forall>i < length xs. eval_poly (unat b # map unat r') (xs ! i) = Inr (unat (ys ! i)))"
    then have "GF b # map GF r' = cs" using ev by (intro uniq) simp_all
    then have "map GF r' = rs" using rs by simp
    then show "r' = map gf_byte rs" by (auto simp: comp_def)
  qed
qed

theorem shamir_reveals_nothing_witness:
  "\<exists>!r :: byte list. length r = 2 \<and>
    (\<forall>i < 2. eval_poly (unat (9 :: byte) # map unat r) ([2, 5] ! i) = Inr (unat ([200, 17] ! i :: byte)))"
  using shamir_reveals_nothing [of "[2, 5]" "[200, 17]" 9] by (simp add: numeral_2_eq_2)

lemma gf_mul_error: "gf_mul a b = Inl e \<Longrightarrow> e = IndexError"
  by (auto simp: gf_mul_def py_index_def split: if_splits)

lemma eval_loop_error: "eval_loop cs x r = Inl e \<Longrightarrow> e = IndexError"
  by (induction cs arbitrary: r) (auto split: sum.splits dest: gf_mul_error)

text \<open>
  The limits of the construction, not all of which the code checks: k and n are checked
  against each other, but from 256 shares on the arithmetic runs out of its tables, and splitting
  raises \<open>IndexError\<close> as soon as the leading coefficient of the first byte is not zero.
\<close>

theorem shamir_limits:
  "(\<not> (1 \<le> k \<and> k \<le> n) \<longrightarrow> split_secret rnd secret k n = Inl ValueError) \<and>
   (2 \<le> k \<and> k \<le> n \<and> 256 \<le> n \<and> secret \<noteq> [] \<and> rnd 0 (k - 2) \<noteq> 0 \<longrightarrow> split_secret rnd secret k n = Inl IndexError) \<and>
   combine_shares [] = Inl IndexError"
proof (intro conjI impI)
  assume a: "2 \<le> k \<and> k \<le> n \<and> 256 \<le> n \<and> secret \<noteq> [] \<and> rnd 0 (k - 2) \<noteq> 0"
  have row_err: "e = IndexError" if "share_row rnd k n ib = Inl e" for ib e
    using mapM_raises [OF that [unfolded share_row_def]]
    by (auto simp: map_res_iff eval_poly_def dest: eval_loop_error)
  have "k - 1 = Suc (k - 2)" using a by linarith
  then have "[0..<k - 1] = [0..<k - 2] @ [k - 2]" by (simp only: upt_Suc_append le0)
  then have "rev (coeffs_of rnd k 0 b) =
      unat (rnd 0 (k - 2)) # rev (map (\<lambda>j. unat (rnd 0 j)) [0..<k - 2]) @ [unat b]" for b
    by (simp add: coeffs_of_def)
  moreover have "gf_mul (unat (rnd 0 (k - 2))) 256 = Inl IndexError"
    using a by (simp add: gf_mul_large unat_eq_0)
  ultimately have top: "eval_poly (coeffs_of rnd k 0 b) 256 = Inl IndexError" for b
    by (cases "rev (map (\<lambda>j. unat (rnd 0 j)) [0..<k - 2]) @ [unat b]") (simp_all add: eval_poly_def gf_mul_def [of 0])
  obtain b bs where sec: "secret = b # bs" using a by (cases secret) auto
  have "share_row rnd k n (0, b) = Inl IndexError"
    unfolding share_row_def
  proof (rule mapM_error [of _ _ _ 255])
    show "(255 :: nat) \<in> set [0..<n]" using a by simp
  qed (auto simp: top [unfolded eval_poly_def] map_res_iff eval_poly_def dest: eval_loop_error)
  then have "mapM (share_row rnd k n) (enumerate 0 secret) = Inl IndexError"
    by (intro mapM_error [of _ _ _ "(0, b)"]) (auto simp: sec dest: row_err)
  then show "split_secret rnd secret k n = Inl IndexError" using a by (simp add: split_secret_def)
qed (auto simp: split_secret_def combine_shares_def)

theorem shamir_limits_witness:
  "split_secret (\<lambda>_ _. 1) [42] 5 3 = Inl ValueError \<and> split_secret (\<lambda>_ _. 1) [42] 2 256 = Inl IndexError"
  using shamir_limits [of 5 3 "\<lambda>_ _. 1" "[42]"] shamir_limits [of 2 256 "\<lambda>_ _. 1" "[42]"] by simp

end
