(* ===== verification/TrustGroup.thy ===== *)
theory TrustGroup
  imports Shamir Splitter
begin

text \<open>
  The distributed trust: \<open>vstorage/distributed_key.py\<close> (holder processes on pipes),
  \<open>vstorage/network_trust.py\<close> and \<open>vstorage/holder_server.py\<close> (holders behind a token-checked
  connection). Both groups keep the same bookkeeping of compromised holders and differ in how a
  holder is asked. The locale \<open>trust_group\<close> is what a box relies on; both groups are
  interpretations of it.
\<close>

section \<open>The contract\<close>

text \<open>
  \<open>trusted s\<close> are the holders not marked compromised, \<open>reachable s i\<close> says whether holder \<open>i\<close> answers,
  \<open>need\<close> is the threshold of the secret sharing.
\<close>

text \<open>A caller that asks again, at most \<open>n\<close> times, while \<open>fetch\<close> raises.\<close>

fun retrying :: "nat \<Rightarrow> ('s \<Rightarrow> bytes res \<times> 's) \<Rightarrow> 's \<Rightarrow> bytes res \<times> 's" where
  "retrying 0 fetch s = fetch s"
| "retrying (Suc n) fetch s =
     (case fetch s of (Inr x, t) \<Rightarrow> (Inr x, t) | (Inl e, t) \<Rightarrow> retrying n fetch t)"

locale trust_group =
  fixes ok :: "'s \<Rightarrow> bool"
    and trusted :: "'s \<Rightarrow> nat list"
    and reachable :: "'s \<Rightarrow> nat \<Rightarrow> bool"
    and need :: "'s \<Rightarrow> nat"
    and secret :: "'s \<Rightarrow> bytes"
    and fetch :: "'s \<Rightarrow> bytes res \<times> 's"
  assumes too_few: "ok s \<Longrightarrow> length (trusted s) < need s \<Longrightarrow> fetch s = (Inl TrustGroupCompromised, s)"
    and all_answer: "ok s \<Longrightarrow> need s \<le> length (trusted s) \<Longrightarrow> list_all (reachable s) (take (need s) (trusted s)) \<Longrightarrow>
          fetch s = (Inr (secret s), s)"
    and one_fails: "ok s \<Longrightarrow> need s \<le> length (trusted s) \<Longrightarrow> \<not> list_all (reachable s) (take (need s) (trusted s)) \<Longrightarrow>
          \<exists>i s'. fetch s = (Inl TrustGroupCompromised, s') \<and> i \<in> set (trusted s) \<and> \<not> reachable s i \<and>
            trusted s' = filter (\<lambda>j. j \<noteq> i) (trusted s) \<and> reachable s' = reachable s \<and> need s' = need s \<and>
            secret s' = secret s \<and> ok s'"
begin

lemma fetch_sound: "ok s \<Longrightarrow> fst (fetch s) = Inr x \<Longrightarrow> x = secret s"
  using too_few [of s] all_answer [of s] one_fails [of s] by (metis Inl_Inr_False fst_conv linorder_not_le sum.inject(2))

lemma fetch_ok: "ok s \<Longrightarrow> ok (snd (fetch s))"
  using too_few [of s] all_answer [of s] one_fails [of s] by (metis linorder_not_le snd_conv)

text \<open>Every failed fetch marks a holder that does not answer, so with enough that do, retrying works.\<close>

lemma retry_succeeds:
  "ok s \<Longrightarrow> need s \<le> length (filter (reachable s) (trusted s)) \<Longrightarrow>
     length (filter (\<lambda>i. \<not> reachable s i) (trusted s)) \<le> n \<Longrightarrow> fst (retrying n fetch s) = Inr (secret s)"
proof (induction n arbitrary: s)
  case (0 s)
  then have "list_all (reachable s) (trusted s)" by (auto simp: filter_empty_conv list_all_iff)
  moreover from this have "filter (reachable s) (trusted s) = trusted s" by (simp add: filter_id_conv list_all_iff)
  ultimately have "list_all (reachable s) (take (need s) (trusted s))" by (auto simp: list_all_iff dest: in_set_takeD)
  then show ?case using all_answer [of s] 0 by (simp add: \<open>filter (reachable s) (trusted s) = trusted s\<close>)
next
  case (Suc n)
  have len: "need s \<le> length (trusted s)" using Suc.prems(2) by (meson length_filter_le le_trans)
  show ?case
  proof (cases "list_all (reachable s) (take (need s) (trusted s))")
    case True
    then show ?thesis using all_answer [OF Suc.prems(1) len] by simp
  next
    case False
    obtain i s' where f: "fetch s = (Inl TrustGroupCompromised, s')" "i \<in> set (trusted s)" "\<not> reachable s i"
      "trusted s' = filter (\<lambda>j. j \<noteq> i) (trusted s)" "reachable s' = reachable s" "need s' = need s"
      "secret s' = secret s" "ok s'"
      using one_fails [OF Suc.prems(1) len False] by blast
    have "filter (reachable s) (filter (\<lambda>j. j \<noteq> i) (trusted s)) = filter (reachable s) (trusted s)"
      using f(3) by (auto intro: filter_cong)
    moreover have "length (filter (\<lambda>j. \<not> reachable s j) (filter (\<lambda>j. j \<noteq> i) (trusted s)))
        < length (filter (\<lambda>j. \<not> reachable s j) (trusted s))"
    proof -
      have "i \<in> set (filter (\<lambda>j. \<not> reachable s j) (trusted s))" using f(2,3) by simp
      then have "length (filter (\<lambda>j. j \<noteq> i) (filter (\<lambda>j. \<not> reachable s j) (trusted s)))
          < length (filter (\<lambda>j. \<not> reachable s j) (trusted s))"
        by (intro length_filter_less [of i]) auto
      then show ?thesis by (simp add: conj_commute)
    qed
    ultimately have "fst (retrying n fetch s') = Inr (secret s')"
      using Suc.prems(3) f(4-6) Suc.prems(2) by (intro Suc.IH [OF f(8)]) simp_all
    then show ?thesis using f(1,7) by simp
  qed
qed

end

section \<open>The bookkeeping of both groups\<close>

text \<open>\<open>gp_main_alive\<close>: whether the process has been spared the \<open>SIGKILL\<close> it sends itself.\<close>

record 'h group =
  gp_k :: nat
  gp_n :: nat
  gp_threshold :: int
  gp_stopping :: bool
  gp_compromised :: "nat list"
  gp_kill_triggered :: bool
  gp_main_alive :: bool
  gp_holders :: "'h list"

definition default_threshold :: "nat \<Rightarrow> int option \<Rightarrow> int" where
  "default_threshold k kill_threshold = (case kill_threshold of Some t \<Rightarrow> t | None \<Rightarrow> max 1 (int k - 1))"

definition group_of :: "nat \<Rightarrow> nat \<Rightarrow> int option \<Rightarrow> 'h list \<Rightarrow> 'h group" where
  "group_of k n kill_threshold holders =
     \<lparr>gp_k = k, gp_n = n, gp_threshold = default_threshold k kill_threshold, gp_stopping = False,
      gp_compromised = [], gp_kill_triggered = False, gp_main_alive = True, gp_holders = holders\<rparr>"

definition compromised_count :: "'h group \<Rightarrow> nat" where
  "compromised_count g = length (gp_compromised g)"

definition on_holder_compromised :: "nat \<Rightarrow> 'h group \<Rightarrow> 'h group" where
  "on_holder_compromised i g =
     (if i \<in> set (gp_compromised g) then g
      else let g1 = g\<lparr>gp_compromised := gp_compromised g @ [i]\<rparr> in
        if gp_kill_triggered g1 \<or> gp_threshold g1 \<le> 0 then g1
        else if gp_threshold g1 \<le> int (length (gp_compromised g1))
             then g1\<lparr>gp_kill_triggered := True, gp_main_alive := False\<rparr> else g1)"

text \<open>One round of \<open>_monitor\<close>, without its sleep: \<open>dead i\<close> is what it finds out about holder \<open>i\<close>.\<close>

definition monitor_tick :: "(nat \<Rightarrow> bool) \<Rightarrow> 'h group \<Rightarrow> 'h group" where
  "monitor_tick dead g =
     fold (\<lambda>i g. if gp_stopping g then g
                 else if i \<notin> set (gp_compromised g) \<and> dead i then on_holder_compromised i g else g)
       [0..<length (gp_holders g)] g"

definition alive_indices :: "'h group \<Rightarrow> nat list" where
  "alive_indices g = filter (\<lambda>i. i \<notin> set (gp_compromised g)) [0..<gp_n g]"

text \<open>The loop of \<open>fetch\<close>: \<open>ask h\<close> is the holder's share, or none if the exchange fails.\<close>

fun collect :: "('h \<Rightarrow> share option) \<Rightarrow> 'h group \<Rightarrow> nat list \<Rightarrow> share list res \<times> 'h group" where
  "collect ask g [] = (Inr [], g)"
| "collect ask g (i # is) =
     (case ask (gp_holders g ! i) of
        None \<Rightarrow> (Inl TrustGroupCompromised, on_holder_compromised i g)
      | Some s \<Rightarrow> (case collect ask g is of (Inl e, g') \<Rightarrow> (Inl e, g') | (Inr ss, g') \<Rightarrow> (Inr (s # ss), g')))"

definition group_fetch :: "('h \<Rightarrow> share option) \<Rightarrow> 'h group \<Rightarrow> bytes res \<times> 'h group" where
  "group_fetch ask g =
     (let alive = alive_indices g in
      if length alive < gp_k g then (Inl TrustGroupCompromised, g)
      else (case collect ask g (take (gp_k g) alive) of
              (Inl e, g') \<Rightarrow> (Inl e, g')
            | (Inr collected, g') \<Rightarrow> (combine_shares collected, g')))"

section \<open>Holders on pipes\<close>

record holder =
  ho_x :: nat
  ho_share :: bytes
  ho_running :: bool

datatype holder_msg = GetShare | StopMsg | OtherMsg

text \<open>One message to \<open>_holder_process\<close>: its answer, and the holder afterwards.\<close>

definition holder_step :: "holder_msg \<Rightarrow> holder \<Rightarrow> share option \<times> holder" where
  "holder_step m h =
     (if \<not> ho_running h then (None, h)
      else case m of
        GetShare \<Rightarrow> (Some (ho_x h, ho_share h), h)
      | StopMsg \<Rightarrow> (None, h\<lparr>ho_running := False\<rparr>)
      | OtherMsg \<Rightarrow> (None, h))"

definition dg_init ::
  "(nat \<Rightarrow> nat \<Rightarrow> byte) \<Rightarrow> bytes \<Rightarrow> nat \<Rightarrow> nat \<Rightarrow> int option \<Rightarrow> holder group res" where
  "dg_init rnd root_secret k n kill_threshold =
     (case split_secret rnd root_secret k n of Inl e \<Rightarrow> Inl e
      | Inr shares \<Rightarrow> Inr (group_of k n kill_threshold
          (map (\<lambda>(x, y). \<lparr>ho_x = x, ho_share = y, ho_running = True\<rparr>) shares)))"

definition dg_ask :: "holder \<Rightarrow> share option" where
  "dg_ask h = fst (holder_step GetShare h)"

definition dg_fetch :: "holder group \<Rightarrow> bytes res \<times> holder group" where
  "dg_fetch g = group_fetch dg_ask g"

text \<open>\<open>_is_dead\<close>: no stat file, or the state letter, two characters after the last parenthesis, is Z.\<close>

definition is_dead :: "string option \<Rightarrow> bool res" where
  "is_dead stat =
     (case stat of None \<Rightarrow> Inr True
      | Some content \<Rightarrow>
          (let after = length (takeWhile (\<lambda>c. c \<noteq> CHR '')'') (rev content));
               i = (if CHR '')'' \<in> set content then length content - after - 1 + 2 else 1)
           in map_res (\<lambda>c. c = CHR ''Z'') (py_index content i)))"

text \<open>\<open>stat i\<close> is the stat file of holder \<open>i\<close>'s process; the kernel always writes a state letter.\<close>

definition dg_monitor :: "(nat \<Rightarrow> string option) \<Rightarrow> holder group \<Rightarrow> holder group" where
  "dg_monitor stat g = monitor_tick (\<lambda>i. is_dead (stat i) = Inr True) g"

definition dg_stop :: "holder group \<Rightarrow> holder group" where
  "dg_stop g = g\<lparr>gp_stopping := True, gp_holders := map (\<lambda>h. snd (holder_step StopMsg h)) (gp_holders g)\<rparr>"

section \<open>Holders behind a network connection\<close>

text \<open>
  A line as the server sees it: it does not parse, it parses to something that is no object, or it is
  an object with these \<open>token\<close> and \<open>op\<close> fields (the token as \<open>str\<close> shows it).
\<close>

datatype request_line = Unparsed | NotObject | Request string string

datatype reply = ShareReply int string | Pong

definition ascii :: "string \<Rightarrow> bool" where
  "ascii s = list_all (\<lambda>c. (of_char c :: nat) < 128) s"

text \<open>\<open>hmac.compare_digest\<close> on two strings.\<close>

definition compare_digest :: "string \<Rightarrow> string \<Rightarrow> bool res" where
  "compare_digest a b = (if ascii a \<and> ascii b then Inr (a = b) else Inl TypeError)"

definition server_reply :: "string \<Rightarrow> int \<Rightarrow> string \<Rightarrow> request_line \<Rightarrow> reply option res" where
  "server_reply token x share_hex line =
     (case line of Unparsed \<Rightarrow> Inr None
      | NotObject \<Rightarrow> Inl AttributeError
      | Request tok op \<Rightarrow>
          (case compare_digest tok token of Inl e \<Rightarrow> Inl e
           | Inr right \<Rightarrow> Inr
               (if \<not> right then None
                else if op = ''get_share'' then Some (ShareReply x share_hex)
                else if op = ''ping'' then Some Pong else None)))"

text \<open>
  \<open>_handle_connection\<close>: the answers, and how it ends. The first line without an answer closes the
  connection; \<open>Inl\<close> is an exception it does not catch, which ends the server.
\<close>

fun handle_connection :: "string \<Rightarrow> int \<Rightarrow> string \<Rightarrow> request_line list \<Rightarrow> reply list \<times> unit res" where
  "handle_connection token x share_hex [] = ([], Inr ())"
| "handle_connection token x share_hex (line # ls) =
     (case server_reply token x share_hex line of
        Inl e \<Rightarrow> ([], Inl e)
      | Inr None \<Rightarrow> ([], Inr ())
      | Inr (Some r) \<Rightarrow> (case handle_connection token x share_hex ls of (rs, end_of) \<Rightarrow> (r # rs, end_of)))"

definition unhex :: "char \<Rightarrow> nat option" where
  "unhex c =
     (let n = (of_char c :: nat) in
      if 48 \<le> n \<and> n \<le> 57 then Some (n - 48) else if 97 \<le> n \<and> n \<le> 102 then Some (n - 87)
      else if 65 \<le> n \<and> n \<le> 70 then Some (n - 55) else None)"

text \<open>\<open>bytes.fromhex\<close>: blanks are allowed between two bytes.\<close>

definition hex_blank :: "char \<Rightarrow> bool" where
  "hex_blank c \<longleftrightarrow> (let n = (of_char c :: nat) in n = 32 \<or> (9 \<le> n \<and> n \<le> 13))"

fun fromhex :: "string \<Rightarrow> bytes res" where
  "fromhex [] = Inr []"
| "fromhex [a] = (if hex_blank a then Inr [] else Inl ValueError)"
| "fromhex (a # b # cs) =
     (if hex_blank a then fromhex (b # cs)
      else (case (unhex a, unhex b) of
        (Some h, Some l) \<Rightarrow> map_res (\<lambda>d. of_nat (16 * h + l) # d) (fromhex cs)
      | _ \<Rightarrow> Inl ValueError))"

record nholder =
  nh_token :: string
  nh_x :: nat
  nh_share_hex :: string
  nh_connected :: bool

record network =
  ng_token :: string
  ng_group :: "nholder group"

definition ng_init ::
  "(nat \<Rightarrow> nat \<Rightarrow> byte) \<Rightarrow> bytes \<Rightarrow> string \<Rightarrow> nat \<Rightarrow> nat \<Rightarrow> int option \<Rightarrow> network res" where
  "ng_init rnd root_secret token k n kill_threshold =
     (case split_secret rnd root_secret k n of Inl e \<Rightarrow> Inl e
      | Inr shares \<Rightarrow> Inr \<lparr>ng_token = token, ng_group = group_of k n kill_threshold
          (map (\<lambda>(x, y). \<lparr>nh_token = token, nh_x = x, nh_share_hex = hexdigest y, nh_connected = True\<rparr>) shares)\<rparr>)"

text \<open>One request on a holder's connection: \<open>_send\<close> and \<open>_recv_line\<close>.\<close>

definition exchange :: "string \<Rightarrow> string \<Rightarrow> nholder \<Rightarrow> reply option" where
  "exchange token op h =
     (if \<not> nh_connected h then None
      else case fst (handle_connection (nh_token h) (int (nh_x h)) (nh_share_hex h) [Request token op]) of
        [] \<Rightarrow> None | r # _ \<Rightarrow> Some r)"

definition ng_ping :: "string \<Rightarrow> nholder \<Rightarrow> bool" where
  "ng_ping token h = (exchange token ''ping'' h = Some Pong)"

text \<open>The reply to \<open>get_share\<close>; a missing field or bad hex digits count as a failed exchange.\<close>

definition ng_ask :: "string \<Rightarrow> nholder \<Rightarrow> share option" where
  "ng_ask token h =
     (case exchange token ''get_share'' h of
        Some (ShareReply x hex) \<Rightarrow> (case fromhex hex of Inl _ \<Rightarrow> None | Inr y \<Rightarrow> Some (nat x, y))
      | _ \<Rightarrow> None)"

definition ng_fetch :: "network \<Rightarrow> bytes res \<times> network" where
  "ng_fetch s = (let (r, g) = group_fetch (ng_ask (ng_token s)) (ng_group s) in (r, s\<lparr>ng_group := g\<rparr>))"

definition ng_monitor :: "network \<Rightarrow> network" where
  "ng_monitor s = s\<lparr>ng_group := monitor_tick (\<lambda>i. \<not> ng_ping (ng_token s) (gp_holders (ng_group s) ! i)) (ng_group s)\<rparr>"

definition ng_stop :: "network \<Rightarrow> network" where
  "ng_stop s = s\<lparr>ng_group := (ng_group s)\<lparr>gp_stopping := True,
     gp_holders := map (\<lambda>h. h\<lparr>nh_connected := False\<rparr>) (gp_holders (ng_group s))\<rparr>\<rparr>"

section \<open>Both groups fulfil the contract\<close>

text \<open>Holder \<open>i\<close>, when it answers, answers with share \<open>i + 1\<close> of the secret.\<close>

definition group_ok ::
  "('h \<Rightarrow> share option) \<Rightarrow> (nat \<Rightarrow> nat \<Rightarrow> byte) \<Rightarrow> bytes \<Rightarrow> 'h group \<Rightarrow> bool" where
  "group_ok ask rnd sec g \<longleftrightarrow>
     1 \<le> gp_k g \<and> gp_k g \<le> gp_n g \<and> gp_n g \<le> 255 \<and> length (gp_holders g) = gp_n g \<and>
     (\<forall>i < gp_n g. ask (gp_holders g ! i) = None \<or>
        ask (gp_holders g ! i) = Some (shares_of rnd sec (gp_k g) (gp_n g) ! i))"

lemma compromised_fields:
  "gp_holders (on_holder_compromised i g) = gp_holders g" "gp_k (on_holder_compromised i g) = gp_k g"
  "gp_n (on_holder_compromised i g) = gp_n g" "gp_stopping (on_holder_compromised i g) = gp_stopping g"
  "gp_threshold (on_holder_compromised i g) = gp_threshold g"
  "set (gp_compromised (on_holder_compromised i g)) = insert i (set (gp_compromised g))"
  by (simp_all add: on_holder_compromised_def Let_def insert_absorb)

lemma alive_compromised: "alive_indices (on_holder_compromised i g) = filter (\<lambda>j. j \<noteq> i) (alive_indices g)"
  by (auto simp: alive_indices_def compromised_fields intro: filter_cong)

lemma group_ok_compromised: "group_ok ask rnd sec (on_holder_compromised i g) = group_ok ask rnd sec g"
  by (simp add: group_ok_def compromised_fields)

lemma collect_all:
  "list_all (\<lambda>i. ask (gp_holders g ! i) \<noteq> None) is \<Longrightarrow>
     collect ask g is = (Inr (map (\<lambda>i. the (ask (gp_holders g ! i))) is), g)"
  by (induction "is") auto

lemma collect_fails:
  "\<not> list_all (\<lambda>i. ask (gp_holders g ! i) \<noteq> None) is \<Longrightarrow>
     \<exists>i \<in> set is. ask (gp_holders g ! i) = None \<and> collect ask g is = (Inl TrustGroupCompromised, on_holder_compromised i g)"
proof (induction "is")
  case (Cons i "is")
  then show ?case by (cases "ask (gp_holders g ! i)") auto
qed simp

lemma group_fetch_works:
  assumes "group_ok ask rnd sec g" "gp_k g \<le> length (alive_indices g)"
    and "list_all (\<lambda>i. ask (gp_holders g ! i) \<noteq> None) (take (gp_k g) (alive_indices g))"
  shows "group_fetch ask g = (Inr sec, g)"
proof -
  let ?is = "take (gp_k g) (alive_indices g)" and ?sh = "shares_of rnd sec (gp_k g) (gp_n g)"
  have mem: "i < gp_n g" if "i \<in> set ?is" for i
    using that by (auto simp: alive_indices_def dest: in_set_takeD)
  have eq: "map (\<lambda>i. the (ask (gp_holders g ! i))) ?is = map ((!) ?sh) ?is"
  proof (rule map_cong [OF refl])
    fix i assume i: "i \<in> set ?is"
    then have "ask (gp_holders g ! i) \<noteq> None" using assms(3) by (simp add: list_all_iff)
    then show "the (ask (gp_holders g ! i)) = ?sh ! i" using assms(1) mem [OF i] by (auto simp: group_ok_def)
  qed
  have "combine_shares (map ((!) ?sh) ?is) = Inr sec"
  proof (rule combine_shares_ok)
    have len: "length ?sh = gp_n g" by (simp add: shares_of_def)
    show "set (map ((!) ?sh) ?is) \<subseteq> set ?sh" using mem len nth_mem [of _ ?sh] by auto
    have "map fst (map ((!) ?sh) ?is) = map Suc ?is"
      using mem by (simp add: shares_of_def)
    moreover have "distinct ?is" by (simp add: alive_indices_def)
    ultimately show "distinct (map fst (map ((!) ?sh) ?is))" by (simp only: distinct_map inj_Suc)
  qed (use assms(1,2) in \<open>simp_all add: group_ok_def\<close>)
  then have "combine_shares (map (\<lambda>i. the (ask (gp_holders g ! i))) ?is) = Inr sec" by (simp only: eq)
  then show ?thesis
    using assms(2) collect_all [OF assms(3)] by (simp add: group_fetch_def Let_def)
qed

lemma group_fetch_fails:
  assumes "gp_k g \<le> length (alive_indices g)"
    and "\<not> list_all (\<lambda>i. ask (gp_holders g ! i) \<noteq> None) (take (gp_k g) (alive_indices g))"
  obtains i where "i \<in> set (alive_indices g)" "ask (gp_holders g ! i) = None"
    "group_fetch ask g = (Inl TrustGroupCompromised, on_holder_compromised i g)"
proof -
  obtain i where i: "i \<in> set (take (gp_k g) (alive_indices g))" "ask (gp_holders g ! i) = None"
    "collect ask g (take (gp_k g) (alive_indices g)) = (Inl TrustGroupCompromised, on_holder_compromised i g)"
    using collect_fails [OF assms(2)] by blast
  show thesis
    using that [OF in_set_takeD [OF i(1)] i(2)] i(3) assms(1) by (simp add: group_fetch_def Let_def)
qed

lemma group_fetch_few: "length (alive_indices g) < gp_k g \<Longrightarrow> group_fetch ask g = (Inl TrustGroupCompromised, g)"
  by (simp add: group_fetch_def Let_def)

interpretation dg: trust_group "group_ok dg_ask rnd sec" alive_indices "\<lambda>g i. dg_ask (gp_holders g ! i) \<noteq> None"
  gp_k "\<lambda>_. sec" dg_fetch for rnd sec
proof (unfold_locales, unfold dg_fetch_def)
  fix s
  assume ok: "group_ok dg_ask rnd sec s"
  show "group_fetch dg_ask s = (Inl TrustGroupCompromised, s)" if "length (alive_indices s) < gp_k s"
    using that by (rule group_fetch_few)
  show "group_fetch dg_ask s = (Inr sec, s)" if "gp_k s \<le> length (alive_indices s)"
    "list_all (\<lambda>i. dg_ask (gp_holders s ! i) \<noteq> None) (take (gp_k s) (alive_indices s))"
    using ok that by (rule group_fetch_works)
  assume "gp_k s \<le> length (alive_indices s)"
    "\<not> list_all (\<lambda>i. dg_ask (gp_holders s ! i) \<noteq> None) (take (gp_k s) (alive_indices s))"
  then obtain i where "i \<in> set (alive_indices s)" "dg_ask (gp_holders s ! i) = None"
    "group_fetch dg_ask s = (Inl TrustGroupCompromised, on_holder_compromised i s)"
    by (rule group_fetch_fails)
  then show "\<exists>i s'. group_fetch dg_ask s = (Inl TrustGroupCompromised, s') \<and> i \<in> set (alive_indices s) \<and>
      \<not> dg_ask (gp_holders s ! i) \<noteq> None \<and> alive_indices s' = filter (\<lambda>j. j \<noteq> i) (alive_indices s) \<and>
      (\<lambda>i. dg_ask (gp_holders s' ! i) \<noteq> None) = (\<lambda>i. dg_ask (gp_holders s ! i) \<noteq> None) \<and> gp_k s' = gp_k s \<and>
      sec = sec \<and> group_ok dg_ask rnd sec s'"
    using ok by (auto simp: alive_compromised compromised_fields group_ok_compromised)
qed

interpretation ng: trust_group "\<lambda>s. group_ok (ng_ask (ng_token s)) rnd sec (ng_group s)" "\<lambda>s. alive_indices (ng_group s)"
  "\<lambda>s i. ng_ask (ng_token s) (gp_holders (ng_group s) ! i) \<noteq> None" "\<lambda>s. gp_k (ng_group s)" "\<lambda>_. sec" ng_fetch for rnd sec
proof (unfold_locales)
  fix s :: network
  let ?g = "ng_group s" and ?a = "ng_ask (ng_token s)"
  assume ok: "group_ok ?a rnd sec ?g"
  show "ng_fetch s = (Inl TrustGroupCompromised, s)" if "length (alive_indices ?g) < gp_k ?g"
    using group_fetch_few [OF that, of ?a] by (simp add: ng_fetch_def)
  show "ng_fetch s = (Inr sec, s)" if "gp_k ?g \<le> length (alive_indices ?g)"
    "list_all (\<lambda>i. ?a (gp_holders ?g ! i) \<noteq> None) (take (gp_k ?g) (alive_indices ?g))"
    using group_fetch_works [OF ok that] by (simp add: ng_fetch_def)
  assume "gp_k ?g \<le> length (alive_indices ?g)"
    "\<not> list_all (\<lambda>i. ?a (gp_holders ?g ! i) \<noteq> None) (take (gp_k ?g) (alive_indices ?g))"
  then obtain i where i: "i \<in> set (alive_indices ?g)" "?a (gp_holders ?g ! i) = None"
    "group_fetch ?a ?g = (Inl TrustGroupCompromised, on_holder_compromised i ?g)"
    by (rule group_fetch_fails)
  let ?s' = "s\<lparr>ng_group := on_holder_compromised i ?g\<rparr>"
  have "ng_fetch s = (Inl TrustGroupCompromised, ?s')" using i(3) by (simp add: ng_fetch_def)
  then show "\<exists>i s'. ng_fetch s = (Inl TrustGroupCompromised, s') \<and> i \<in> set (alive_indices ?g) \<and>
      \<not> ?a (gp_holders ?g ! i) \<noteq> None \<and> alive_indices (ng_group s') = filter (\<lambda>j. j \<noteq> i) (alive_indices ?g) \<and>
      (\<lambda>i. ng_ask (ng_token s') (gp_holders (ng_group s') ! i) \<noteq> None) = (\<lambda>i. ?a (gp_holders ?g ! i) \<noteq> None) \<and>
      gp_k (ng_group s') = gp_k ?g \<and> sec = sec \<and> group_ok (ng_ask (ng_token s')) rnd sec (ng_group s')"
    using i(1,2) ok by (intro exI [of _ i] exI [of _ ?s']) (simp add: alive_compromised compromised_fields group_ok_compromised)
qed

section \<open>Runs\<close>

text \<open>
  What can happen to a group: \<open>fetch\<close>, a monitor round, a message reaching a holder, the death of a
  holder, \<open>stop\<close>. Once the main process has been killed nothing happens any more.
\<close>

datatype dg_event = DFetch | DMonitor "nat \<Rightarrow> string option" | DMessage nat holder_msg | DDeath nat | DStop

definition dg_step :: "dg_event \<Rightarrow> holder group \<Rightarrow> holder group" where
  "dg_step e g =
     (if \<not> gp_main_alive g then g
      else case e of
        DFetch \<Rightarrow> snd (dg_fetch g)
      | DMonitor stat \<Rightarrow> dg_monitor stat g
      | DMessage i m \<Rightarrow> g\<lparr>gp_holders := (gp_holders g)[i := snd (holder_step m (gp_holders g ! i))]\<rparr>
      | DDeath i \<Rightarrow> g\<lparr>gp_holders := (gp_holders g)[i := (gp_holders g ! i)\<lparr>ho_running := False\<rparr>]\<rparr>
      | DStop \<Rightarrow> dg_stop g)"

datatype ng_event = NFetch | NMonitor | NLost nat | NStop

definition ng_step :: "ng_event \<Rightarrow> network \<Rightarrow> network" where
  "ng_step e s =
     (if \<not> gp_main_alive (ng_group s) then s
      else case e of
        NFetch \<Rightarrow> snd (ng_fetch s)
      | NMonitor \<Rightarrow> ng_monitor s
      | NLost i \<Rightarrow> s\<lparr>ng_group := (ng_group s)\<lparr>gp_holders :=
          (gp_holders (ng_group s))[i := (gp_holders (ng_group s) ! i)\<lparr>nh_connected := False\<rparr>]\<rparr>\<rparr>
      | NStop \<Rightarrow> ng_stop s)"

subsection \<open>The kill threshold\<close>

definition kill_inv :: "'h group \<Rightarrow> bool" where
  "kill_inv g \<longleftrightarrow>
     distinct (gp_compromised g) \<and> gp_kill_triggered g = (\<not> gp_main_alive g) \<and>
     gp_main_alive g = (\<not> (0 < gp_threshold g \<and> gp_threshold g \<le> int (compromised_count g)))"

lemma kill_inv_init: "kill_inv (group_of k n kt hs)"
  by (simp add: kill_inv_def group_of_def compromised_count_def)

lemma kill_inv_holders: "kill_inv (g\<lparr>gp_holders := hs\<rparr>) = kill_inv g"
  "kill_inv (g\<lparr>gp_stopping := st\<rparr>) = kill_inv g"
  by (simp_all add: kill_inv_def compromised_count_def)

lemma kill_inv_compromised: "kill_inv g \<Longrightarrow> kill_inv (on_holder_compromised i g)"
  by (auto simp: kill_inv_def on_holder_compromised_def compromised_count_def Let_def)

lemma fold_preserves: "P s \<Longrightarrow> (\<And>x s. P s \<Longrightarrow> P (f x s)) \<Longrightarrow> P (fold f xs s)"
  by (induction xs arbitrary: s) auto

lemma kill_inv_monitor: "kill_inv g \<Longrightarrow> kill_inv (monitor_tick dead g)"
  unfolding monitor_tick_def by (rule fold_preserves) (simp_all add: kill_inv_compromised)

lemma group_fetch_state: "snd (group_fetch ask g) = g \<or> (\<exists>i. snd (group_fetch ask g) = on_holder_compromised i g)"
proof (cases "length (alive_indices g) < gp_k g")
  case False
  show ?thesis
  proof (cases "list_all (\<lambda>i. ask (gp_holders g ! i) \<noteq> None) (take (gp_k g) (alive_indices g))")
    case True
    then show ?thesis using False collect_all [OF True] by (simp add: group_fetch_def Let_def)
  next
    case fails: False
    obtain i where "group_fetch ask g = (Inl TrustGroupCompromised, on_holder_compromised i g)"
      using group_fetch_fails [of g ask] False fails by (meson not_less)
    then show ?thesis by auto
  qed
qed (simp add: group_fetch_few)

lemma kill_inv_fetch: "kill_inv g \<Longrightarrow> kill_inv (snd (group_fetch ask g))"
  using group_fetch_state [of ask g] kill_inv_compromised by fastforce

lemma monitor_fold:
  "\<not> gp_stopping g \<Longrightarrow> set (gp_compromised (fold (\<lambda>i g. if gp_stopping g then g
      else if i \<notin> set (gp_compromised g) \<and> dead i then on_holder_compromised i g else g) is g)) =
    set (gp_compromised g) \<union> {i \<in> set is. dead i}"
  by (induction "is" arbitrary: g) (auto simp: compromised_fields)

lemma monitor_marks:
  "\<not> gp_stopping g \<Longrightarrow>
     set (gp_compromised (monitor_tick dead g)) = set (gp_compromised g) \<union> {i. i < length (gp_holders g) \<and> dead i}"
  unfolding monitor_tick_def by (subst monitor_fold) auto

subsection \<open>The holders keep answering with shares of the secret\<close>

lemma group_ok_holders:
  assumes "group_ok ask rnd sec g" "length hs = length (gp_holders g)"
    and "\<And>i. i < length hs \<Longrightarrow> ask (hs ! i) = None \<or> ask (hs ! i) = ask (gp_holders g ! i)"
  shows "group_ok ask rnd sec (g\<lparr>gp_holders := hs\<rparr>)" "group_ok ask rnd sec (g\<lparr>gp_stopping := True, gp_holders := hs\<rparr>)"
  using assms unfolding group_ok_def by (simp, metis)+

lemma group_ok_update:
  assumes "group_ok ask rnd sec g" and "\<And>h. ask (f h) = None \<or> ask (f h) = ask h"
  shows "group_ok ask rnd sec (g\<lparr>gp_holders := (gp_holders g)[i := f (gp_holders g ! i)]\<rparr>)"
proof (rule group_ok_holders(1) [OF assms(1)])
  fix j assume "j < length ((gp_holders g)[i := f (gp_holders g ! i)])"
  then show "ask ((gp_holders g)[i := f (gp_holders g ! i)] ! j) = None \<or>
      ask ((gp_holders g)[i := f (gp_holders g ! i)] ! j) = ask (gp_holders g ! j)"
    using assms(2) [of "gp_holders g ! i"] by (cases "j = i") simp_all
qed simp

lemma group_ok_map:
  assumes "group_ok ask rnd sec g" and "\<And>h. ask (f h) = None \<or> ask (f h) = ask h"
  shows "group_ok ask rnd sec (g\<lparr>gp_stopping := True, gp_holders := map f (gp_holders g)\<rparr>)"
  by (rule group_ok_holders(2) [OF assms(1)]) (use assms(2) in simp_all)

lemma group_ok_monitor: "group_ok ask rnd sec g \<Longrightarrow> group_ok ask rnd sec (monitor_tick dead g)"
  unfolding monitor_tick_def by (rule fold_preserves) (simp_all add: group_ok_compromised)

lemma dg_ask_iff: "dg_ask h = (if ho_running h then Some (ho_x h, ho_share h) else None)"
  by (simp add: dg_ask_def holder_step_def)

lemma holder_step_ask: "dg_ask (snd (holder_step m h)) = None \<or> dg_ask (snd (holder_step m h)) = dg_ask h"
  by (cases m) (simp_all add: holder_step_def dg_ask_iff)

lemma dg_step_inv:
  assumes "kill_inv g" "group_ok dg_ask rnd sec g"
  shows "kill_inv (dg_step e g) \<and> group_ok dg_ask rnd sec (dg_step e g)"
proof (cases "gp_main_alive g")
  case True
  show ?thesis
  proof (cases e)
    case DFetch
    then show ?thesis
      using True assms dg.fetch_ok [OF assms(2)] kill_inv_fetch [of g dg_ask] by (simp add: dg_step_def dg_fetch_def)
  next
    case (DMonitor stat)
    then show ?thesis
      using True assms by (simp add: dg_step_def dg_monitor_def kill_inv_monitor group_ok_monitor)
  next
    case (DMessage i m)
    have "group_ok dg_ask rnd sec
        (g\<lparr>gp_holders := (gp_holders g)[i := snd (holder_step m (gp_holders g ! i))]\<rparr>)"
      by (rule group_ok_update [OF assms(2), where f = "\<lambda>h. snd (holder_step m h)"]) (rule holder_step_ask)
    then show ?thesis using True assms DMessage by (simp add: dg_step_def kill_inv_holders)
  next
    case (DDeath i)
    have "group_ok dg_ask rnd sec (g\<lparr>gp_holders := (gp_holders g)[i := (gp_holders g ! i)\<lparr>ho_running := False\<rparr>]\<rparr>)"
      by (rule group_ok_update [OF assms(2), where f = "\<lambda>h. h\<lparr>ho_running := False\<rparr>"]) (simp add: dg_ask_iff)
    then show ?thesis using True assms DDeath by (simp add: dg_step_def kill_inv_holders)
  next
    case DStop
    then show ?thesis
      using True assms group_ok_map [OF assms(2), where f = "\<lambda>h. snd (holder_step StopMsg h)"]
      by (simp add: dg_step_def dg_stop_def kill_inv_holders holder_step_ask)
  qed
qed (use assms in \<open>simp add: dg_step_def\<close>)

lemma dg_run_inv:
  "kill_inv g \<Longrightarrow> group_ok dg_ask rnd sec g \<Longrightarrow> kill_inv (fold dg_step es g) \<and> group_ok dg_ask rnd sec (fold dg_step es g)"
  by (induction es arbitrary: g) (simp_all add: dg_step_inv)

lemma step_params:
  "gp_threshold (monitor_tick dead g) = gp_threshold g" "gp_n (monitor_tick dead g) = gp_n g"
  "gp_k (monitor_tick dead g) = gp_k g"
proof -
  have "gp_threshold (monitor_tick dead g) = gp_threshold g \<and> gp_n (monitor_tick dead g) = gp_n g \<and>
      gp_k (monitor_tick dead g) = gp_k g"
    unfolding monitor_tick_def by (rule fold_preserves) (simp_all add: compromised_fields)
  then show "gp_threshold (monitor_tick dead g) = gp_threshold g" "gp_n (monitor_tick dead g) = gp_n g"
    "gp_k (monitor_tick dead g) = gp_k g" by simp_all
qed

lemma fetch_params:
  "gp_threshold (snd (group_fetch ask g)) = gp_threshold g" "gp_n (snd (group_fetch ask g)) = gp_n g"
  "gp_k (snd (group_fetch ask g)) = gp_k g"
  using group_fetch_state [of ask g] by (auto simp: compromised_fields)

lemma dg_run_params:
  "gp_threshold (fold dg_step es g) = gp_threshold g \<and> gp_n (fold dg_step es g) = gp_n g \<and>
     gp_k (fold dg_step es g) = gp_k g"
  by (induction es arbitrary: g)
    (simp_all add: dg_step_def dg_fetch_def dg_monitor_def dg_stop_def step_params fetch_params split: dg_event.split)

lemma dg_init_ok:
  assumes "1 \<le> k" "k \<le> n" "n \<le> 255"
  obtains g where "dg_init rnd sec k n kt = Inr g" "kill_inv g" "group_ok dg_ask rnd sec g"
    "gp_threshold g = default_threshold k kt" "gp_n g = n" "gp_k g = k"
proof -
  let ?g = "group_of k n kt (map (\<lambda>(x, y). \<lparr>ho_x = x, ho_share = y, ho_running = True\<rparr>) (shares_of rnd sec k n))"
  have "dg_init rnd sec k n kt = Inr ?g" by (simp add: dg_init_def split_secret_ok [OF assms])
  moreover have "group_ok dg_ask rnd sec ?g"
    using assms by (simp add: group_ok_def group_of_def dg_ask_iff shares_of_def)
  moreover have "gp_threshold ?g = default_threshold k kt" "gp_n ?g = n" "gp_k ?g = k" by (simp_all add: group_of_def)
  ultimately show thesis by (rule that [OF _ kill_inv_init])
qed

subsection \<open>The holders on the network\<close>

lemma unhex_digit: "d < 16 \<Longrightarrow> unhex (hex_digit d) = Some d"
  by (simp add: unhex_def hex_digit_def)

lemma hex_digit_no_blank: "d < 16 \<Longrightarrow> \<not> hex_blank (hex_digit d)"
  by (auto simp: hex_blank_def hex_digit_def Let_def)

lemma fromhex_hexdigest: "fromhex (hexdigest d) = Inr d"
proof (induction d)
  case (Cons b bs)
  have "unat b < 256" using unsigned_less [of b] by simp
  then have "unat b div 16 < 16" "unat b mod 16 < 16" by simp_all
  moreover have "of_nat (16 * (unat b div 16) + unat b mod 16) = b"
    by (simp only: mult_div_mod_eq of_nat_unat ucast_id)
  ultimately show ?case using Cons by (simp add: hexdigest_def unhex_digit hex_digit_no_blank)
qed (simp add: hexdigest_def)

lemma ng_ask_iff:
  "ascii (nh_token h) \<Longrightarrow> ng_ask (nh_token h) h =
     (if nh_connected h then (case fromhex (nh_share_hex h) of Inl _ \<Rightarrow> None | Inr y \<Rightarrow> Some (nh_x h, y)) else None)"
  by (simp add: ng_ask_def exchange_def server_reply_def compare_digest_def split: sum.split)

lemma ng_ask_lost: "\<not> nh_connected h \<Longrightarrow> ng_ask token h = None"
  by (simp add: ng_ask_def exchange_def)

abbreviation network_ok :: "(nat \<Rightarrow> nat \<Rightarrow> byte) \<Rightarrow> bytes \<Rightarrow> network \<Rightarrow> bool" where
  "network_ok rnd sec s \<equiv> group_ok (ng_ask (ng_token s)) rnd sec (ng_group s)"

lemma ng_fetch_parts:
  "ng_group (snd (ng_fetch s)) = snd (group_fetch (ng_ask (ng_token s)) (ng_group s))" "ng_token (snd (ng_fetch s)) = ng_token s"
  by (simp_all add: ng_fetch_def split: prod.split)

lemma ng_step_inv:
  assumes "kill_inv (ng_group s)" "network_ok rnd sec s"
  shows "kill_inv (ng_group (ng_step e s)) \<and> network_ok rnd sec (ng_step e s)"
proof (cases "gp_main_alive (ng_group s)")
  case True
  show ?thesis
  proof (cases e)
    case NFetch
    then show ?thesis
      using True assms(1) ng.fetch_ok [OF assms(2)] kill_inv_fetch
      by (simp add: ng_step_def ng_fetch_parts)
  next
    case NMonitor
    then show ?thesis
      using True assms by (simp add: ng_step_def ng_monitor_def kill_inv_monitor group_ok_monitor)
  next
    case (NLost i)
    have "group_ok (ng_ask (ng_token s)) rnd sec ((ng_group s)\<lparr>gp_holders :=
        (gp_holders (ng_group s))[i := (gp_holders (ng_group s) ! i)\<lparr>nh_connected := False\<rparr>]\<rparr>)"
      by (rule group_ok_update [OF assms(2), where f = "\<lambda>h. h\<lparr>nh_connected := False\<rparr>"]) (simp add: ng_ask_lost)
    then show ?thesis using True assms NLost by (simp add: ng_step_def kill_inv_holders)
  next
    case NStop
    then show ?thesis
      using True assms group_ok_map [OF assms(2), where f = "\<lambda>h. h\<lparr>nh_connected := False\<rparr>"]
      by (simp add: ng_step_def ng_stop_def kill_inv_holders ng_ask_lost)
  qed
qed (use assms in \<open>simp add: ng_step_def\<close>)

lemma ng_run_inv:
  "kill_inv (ng_group s) \<Longrightarrow> network_ok rnd sec s \<Longrightarrow>
     kill_inv (ng_group (fold ng_step es s)) \<and> network_ok rnd sec (fold ng_step es s)"
  by (induction es arbitrary: s) (simp_all add: ng_step_inv)

lemma ng_run_k: "gp_k (ng_group (fold ng_step es s)) = gp_k (ng_group s)"
  by (induction es arbitrary: s)
    (simp_all add: ng_step_def ng_fetch_parts ng_monitor_def ng_stop_def step_params fetch_params split: ng_event.split)

lemma length_shares: "length (shares_of rnd sec k n) = n"
  by (simp add: shares_of_def)

lemma ng_init_ok:
  assumes "1 \<le> k" "k \<le> n" "n \<le> 255" "ascii token"
  obtains s where "ng_init rnd sec token k n kt = Inr s" "kill_inv (ng_group s)" "network_ok rnd sec s" "gp_k (ng_group s) = k"
proof -
  let ?h = "\<lambda>(x, y). \<lparr>nh_token = token, nh_x = x, nh_share_hex = hexdigest y, nh_connected = True\<rparr>"
  let ?g = "group_of k n kt (map ?h (shares_of rnd sec k n))"
  have "ng_init rnd sec token k n kt = Inr \<lparr>ng_token = token, ng_group = ?g\<rparr>"
    by (simp add: ng_init_def split_secret_ok [OF assms(1-3)])
  moreover have "ng_ask token \<lparr>nh_token = token, nh_x = x, nh_share_hex = hexdigest y, nh_connected = True\<rparr> = Some (x, y)"
    for x y
    using ng_ask_iff [of "\<lparr>nh_token = token, nh_x = x, nh_share_hex = hexdigest y, nh_connected = True\<rparr>"] assms(4)
    by (simp add: fromhex_hexdigest)
  then have "\<forall>i < n. ng_ask token (map ?h (shares_of rnd sec k n) ! i) = Some (shares_of rnd sec k n ! i)"
    by (simp add: shares_of_def)
  then have "group_ok (ng_ask token) rnd sec ?g"
    using assms unfolding group_ok_def group_of_def by (simp add: length_shares)
  moreover have "kill_inv ?g" "gp_k ?g = k" by (rule kill_inv_init, simp add: group_of_def)
  ultimately show thesis using that [of "\<lparr>ng_token = token, ng_group = ?g\<rparr>"] by (simp only: network.simps)
qed

lemma length_untrusted: "length (filter P (alive_indices g)) \<le> gp_n g"
  by (rule order_trans [OF length_filter_le]) (use length_filter_le [of _ "[0..<gp_n g]"] in \<open>simp add: alive_indices_def\<close>)

section \<open>Properties\<close>

text \<open>
  Property C12. The trust group gives back its root secret: after any run of fetches, monitor rounds,
  messages and holder deaths, a fetch that returns at all returns the secret that was split; and as
  long as k of the holders not marked compromised run, asking again at most n times returns it,
  unless the marking kills the main process first.
\<close>

theorem trust_group_returns_secret:
  assumes "1 \<le> k" "k \<le> n" "n \<le> 255"
  shows "\<exists>g0. dg_init rnd sec k n kt = Inr g0 \<and>
    (let g = fold dg_step es g0 in
      (\<forall>x. fst (dg_fetch g) = Inr x \<longrightarrow> x = sec) \<and>
      (k \<le> length (filter (\<lambda>i. ho_running (gp_holders g ! i)) (alive_indices g)) \<longrightarrow>
         gp_main_alive (snd (retrying n dg_fetch g)) \<longrightarrow> fst (retrying n dg_fetch g) = Inr sec))"
proof -
  obtain g0 where g0: "dg_init rnd sec k n kt = Inr g0" "kill_inv g0" "group_ok dg_ask rnd sec g0" "gp_n g0 = n"
    "gp_k g0 = k"
    using dg_init_ok [OF assms] .
  define g where "g = fold dg_step es g0"
  have ok: "group_ok dg_ask rnd sec g" using dg_run_inv [OF g0(2,3)] by (simp add: g_def)
  have n: "gp_n g = n" using dg_run_params [of es g0] g0(4) by (simp add: g_def)
  have k: "gp_k g = k" using dg_run_params [of es g0] g0(5) by (simp add: g_def)
  have "fst (retrying n dg_fetch g) = Inr sec" if "k \<le> length (filter (\<lambda>i. ho_running (gp_holders g ! i)) (alive_indices g))"
    using dg.retry_succeeds [OF ok, of n] that length_untrusted [of _ g] by (simp add: dg_ask_iff k n)
  then show ?thesis
    using g0(1) dg.fetch_sound [OF ok] by (auto simp: Let_def g_def [symmetric])
qed

theorem trust_group_returns_secret_witness:
  "\<exists>g0. dg_init (\<lambda>i j. of_nat (i + j)) [42, 7] 2 3 None = Inr g0 \<and>
     (\<forall>x. fst (dg_fetch (fold dg_step [DDeath 0, DMonitor (\<lambda>_. Some ''7 (p) S 1''), DFetch] g0)) = Inr x \<longrightarrow> x = [42, 7])"
  using trust_group_returns_secret [of 2 3 "\<lambda>i j. of_nat (i + j)" "[42, 7]" None
      "[DDeath 0, DMonitor (\<lambda>_. Some ''7 (p) S 1''), DFetch]"] by (auto simp: Let_def)

text \<open>
  Property C16. The kill policy: in every run the compromised holders are counted once each, the main
  process is alive exactly as long as that count is below a positive threshold, so with the default
  threshold and two or more shares needed an attacker holds fewer than k - 1 of them while it lives;
  and one monitor round marks exactly the holders whose process is gone or a zombie.
\<close>

theorem kill_threshold_respected:
  assumes "1 \<le> k" "k \<le> n" "n \<le> 255"
  shows "\<exists>g0. dg_init rnd sec k n kt = Inr g0 \<and>
    (let g = fold dg_step es g0 in
      distinct (gp_compromised g) \<and>
      (gp_main_alive g \<longleftrightarrow> \<not> (0 < default_threshold k kt \<and> default_threshold k kt \<le> int (compromised_count g))) \<and>
      (kt = None \<and> 2 \<le> k \<and> gp_main_alive g \<longrightarrow> compromised_count g < k - 1) \<and>
      (\<not> gp_stopping g \<longrightarrow> set (gp_compromised (dg_monitor stat g)) =
         set (gp_compromised g) \<union> {i. i < n \<and> is_dead (stat i) = Inr True}))"
proof -
  obtain g0 where g0: "dg_init rnd sec k n kt = Inr g0" "kill_inv g0" "group_ok dg_ask rnd sec g0"
    "gp_threshold g0 = default_threshold k kt" "gp_n g0 = n"
    using dg_init_ok [OF assms] .
  define g where "g = fold dg_step es g0"
  have inv: "kill_inv g" "group_ok dg_ask rnd sec g" using dg_run_inv [OF g0(2,3)] by (simp_all add: g_def)
  have par: "gp_threshold g = default_threshold k kt" "gp_n g = n"
    using dg_run_params [of es g0] g0(4,5) by (simp_all add: g_def)
  have "length (gp_holders g) = n" using inv(2) par(2) by (simp add: group_ok_def)
  then have "\<not> gp_stopping g \<longrightarrow> set (gp_compromised (dg_monitor stat g)) =
         set (gp_compromised g) \<union> {i. i < n \<and> is_dead (stat i) = Inr True}"
    by (simp add: dg_monitor_def monitor_marks)
  then show ?thesis
    using g0(1) inv(1) par(1) by (auto simp: Let_def g_def [symmetric] kill_inv_def default_threshold_def)
qed

theorem kill_threshold_respected_witness:
  "\<exists>g0. dg_init (\<lambda>i j. of_nat (i + j)) [42, 7] 3 5 None = Inr g0 \<and>
     distinct (gp_compromised (fold dg_step [DDeath 0, DFetch, DDeath 1, DFetch] g0))"
  using kill_threshold_respected [of 3 5 "\<lambda>i j. of_nat (i + j)" "[42, 7]" None
      "[DDeath 0, DFetch, DDeath 1, DFetch]" "\<lambda>_. None"] by (auto simp: Let_def)

text \<open>
  A network holder answers exactly the leading requests that carry its token and ask for
  the share or a ping; nothing after the first other line is answered. A line with a wrong token
  just closes the connection, but a JSON line that is no object, or a token outside ASCII, raises
  an exception the handler does not catch, and the holder's server ends.
\<close>

theorem holder_answers_token_only:
  assumes "ascii token"
  defines "served \<equiv> {Request token ''get_share'', Request token ''ping''}"
  shows "handle_connection token x share_hex ls =
    (map (\<lambda>l. if l = Request token ''ping'' then Pong else ShareReply x share_hex) (takeWhile (\<lambda>l. l \<in> served) ls),
     (case dropWhile (\<lambda>l. l \<in> served) ls of
        NotObject # _ \<Rightarrow> Inl AttributeError
      | Request tok op # _ \<Rightarrow> if ascii tok then Inr () else Inl TypeError
      | _ \<Rightarrow> Inr ()))"
proof (induction ls)
  case (Cons l ls)
  show ?case
  proof (cases "l \<in> served")
    case True
    then show ?thesis
      using Cons assms(1) by (auto simp: served_def server_reply_def compare_digest_def)
  next
    case False
    then show ?thesis
      using assms(1) by (cases l) (auto simp: served_def server_reply_def compare_digest_def)
  qed
qed simp

theorem holder_answers_token_only_witness:
  "handle_connection ''a1'' 3 ''2a'' [Request ''a1'' ''get_share'', Request ''zz'' ''get_share'', Request ''a1'' ''ping''] =
    ([ShareReply 3 ''2a''], Inr ())"
  using holder_answers_token_only [of "''a1''" 3 "''2a''"
      "[Request ''a1'' ''get_share'', Request ''zz'' ''get_share'', Request ''a1'' ''ping'']"]
  by (simp add: ascii_def)

text \<open>
  The network group keeps the same promise over its connections: after any run of
  fetches, heartbeats and lost connections, a fetch that returns at all returns the secret; and as
  long as k trusted holders still answer, asking again at most n times returns it unless the main
  process is killed first.
\<close>

theorem network_group_returns_secret:
  assumes "1 \<le> k" "k \<le> n" "n \<le> 255" "ascii token"
  shows "\<exists>s0. ng_init rnd sec token k n kt = Inr s0 \<and>
    (let s = fold ng_step es s0; trusted = alive_indices (ng_group s) in
      (\<forall>x. fst (ng_fetch s) = Inr x \<longrightarrow> x = sec) \<and>
      (k \<le> length (filter (\<lambda>i. ng_ask (ng_token s) (gp_holders (ng_group s) ! i) \<noteq> None) trusted) \<longrightarrow>
         gp_main_alive (ng_group (snd (retrying (length trusted) ng_fetch s))) \<longrightarrow>
         fst (retrying (length trusted) ng_fetch s) = Inr sec))"
proof -
  obtain s0 where s0: "ng_init rnd sec token k n kt = Inr s0" "kill_inv (ng_group s0)" "network_ok rnd sec s0"
    "gp_k (ng_group s0) = k"
    using ng_init_ok [OF assms] .
  define s where "s = fold ng_step es s0"
  have ok: "network_ok rnd sec s" using ng_run_inv [OF s0(2,3)] by (simp add: s_def)
  have k: "gp_k (ng_group s) = k" using ng_run_k [of es s0] s0(4) by (simp add: s_def)
  show ?thesis
    using s0(1) ng.fetch_sound [OF ok] ng.retry_succeeds [OF ok] by (auto simp: Let_def s_def [symmetric] k)
qed

theorem network_group_returns_secret_witness:
  "\<exists>s0. ng_init (\<lambda>i j. of_nat (i + j)) [42, 7] ''5e'' 2 3 None = Inr s0 \<and>
     (\<forall>x. fst (ng_fetch (fold ng_step [NLost 0, NFetch, NMonitor] s0)) = Inr x \<longrightarrow> x = [42, 7])"
  using network_group_returns_secret [of 2 3 "''5e''" "\<lambda>i j. of_nat (i + j)" "[42, 7]" None "[NLost 0, NFetch, NMonitor]"]
  by (auto simp: Let_def ascii_def)

end
