(* ===== verification/Watchdog.thy ===== *)
theory Watchdog
  imports Prelude
begin

text \<open>
  \<open>vstorage/process_watchdog.py\<close>: the table of memory regions shared with a watching process and
  that process's loop, which wipes every registered region of the watched process when a tracer
  attaches; and \<open>vstorage/tamper_watchdog.py\<close>, the earlier thread. The table's entries are
  64-bit words as in the \<open>c_uint64\<close> array of the code, so a stored number is reduced mod 2 to the 64.
\<close>

type_synonym word64 = "64 word"
type_synonym region = "nat \<times> nat"

definition MAX_REGIONS :: nat where
  "MAX_REGIONS = 200000"

section \<open>Reading the tracer's pid\<close>

text \<open>\<open>line.split()\<close>, for the blanks that occur in \<open>/proc\<close> files.\<close>

definition is_blank :: "char \<Rightarrow> bool" where
  "is_blank c \<longleftrightarrow> c = CHR '' '' \<or> c = char_of (9 :: nat) \<or> c = char_of (10 :: nat)"

function split_words :: "string \<Rightarrow> string list" where
  "split_words s =
     (case dropWhile is_blank s of
        [] \<Rightarrow> []
      | c # cs \<Rightarrow> takeWhile (\<lambda>x. \<not> is_blank x) (c # cs) # split_words (dropWhile (\<lambda>x. \<not> is_blank x) (c # cs)))"
  by pat_completeness auto
termination
proof (relation "measure length")
  fix s c cs assume d: "dropWhile is_blank s = c # cs"
  then have "\<not> is_blank c" using hd_dropWhile [of is_blank s] by auto
  then have "length (dropWhile (\<lambda>x. \<not> is_blank x) (c # cs)) \<le> length cs"
    by (simp add: length_dropWhile_le)
  also have "\<dots> < length (dropWhile is_blank s)" using d by simp
  also have "\<dots> \<le> length s" by (rule length_dropWhile_le)
  finally show "(dropWhile (\<lambda>x. \<not> is_blank x) (c # cs), s) \<in> measure length" by simp
qed simp

declare split_words.simps [simp del]

definition parse_digits :: "string \<Rightarrow> nat res" where
  "parse_digits s =
     (if s \<noteq> [] \<and> list_all (\<lambda>c. 48 \<le> (of_char c :: nat) \<and> of_char c \<le> (57 :: nat)) s
      then Inr (foldl (\<lambda>n c. 10 * n + (of_char c - 48)) 0 s) else Inl ValueError)"

definition starts_with :: "string \<Rightarrow> string \<Rightarrow> bool" where
  "starts_with p s \<longleftrightarrow> take (length p) s = p"

text \<open>\<open>int(line.split()[1])\<close>.\<close>

definition second_int :: "string \<Rightarrow> nat res" where
  "second_int line = (case py_index (split_words line) 1 of Inl e \<Rightarrow> Inl e | Inr w \<Rightarrow> parse_digits w)"

fun find_tracer :: "string list \<Rightarrow> int res" where
  "find_tracer [] = Inr 0"
| "find_tracer (line # rest) =
     (if starts_with ''TracerPid:'' line then map_res int (second_int line) else find_tracer rest)"

text \<open>\<open>None\<close>: the process, and its status file, are gone.\<close>

definition tracer_pid_of :: "string list option \<Rightarrow> int res" where
  "tracer_pid_of status = (case status of None \<Rightarrow> Inr (-1) | Some ls \<Rightarrow> find_tracer ls)"

section \<open>The table\<close>

record watchdog =
  wd_regions :: "word64 list"
  wd_count :: nat
  wd_detected :: bool
  wd_detected_at :: time
  wd_kill_target :: bool
  wd_running :: bool

definition wd_new :: "bool \<Rightarrow> watchdog" where
  "wd_new kill_target = \<lparr>wd_regions = replicate (MAX_REGIONS * 2) 0, wd_count = 0, wd_detected = False,
     wd_detected_at = 0, wd_kill_target = kill_target, wd_running = True\<rparr>"

text \<open>The two loops that write addresses and lengths: an index beyond the array raises and keeps what
  was written before it.\<close>

fun write_regions :: "nat \<Rightarrow> region list \<Rightarrow> word64 list \<Rightarrow> unit res \<times> word64 list" where
  "write_regions i [] t = (Inr (), t)"
| "write_regions i ((addr, len) # rs) t =
     (if length t \<le> i * 2 then (Inl IndexError, t)
      else if length t \<le> i * 2 + 1 then (Inl IndexError, t[i * 2 := of_nat addr])
      else write_regions (Suc i) rs (t[i * 2 := of_nat addr, i * 2 + 1 := of_nat len]))"

definition add_regions :: "region list \<Rightarrow> watchdog \<Rightarrow> unit res \<times> watchdog" where
  "add_regions rs s =
     (let i = wd_count s in
      if i + length rs > MAX_REGIONS then (Inl RuntimeError, s)
      else (case write_regions i rs (wd_regions s) of
              (Inl e, t) \<Rightarrow> (Inl e, s\<lparr>wd_regions := t\<rparr>)
            | (Inr _, t) \<Rightarrow> (Inr (), s\<lparr>wd_regions := t, wd_count := i + length rs\<rparr>)))"

definition add_region :: "nat \<Rightarrow> nat \<Rightarrow> watchdog \<Rightarrow> unit res \<times> watchdog" where
  "add_region addr len s = add_regions [(addr, len)] s"

definition reserve_slot :: "nat \<Rightarrow> watchdog \<Rightarrow> int \<times> watchdog" where
  "reserve_slot count s =
     (let i = wd_count s in
      if i + count > MAX_REGIONS then (-1, s) else (int i, s\<lparr>wd_count := i + count\<rparr>))"

definition update_slot :: "int \<Rightarrow> region list \<Rightarrow> watchdog \<Rightarrow> unit res \<times> watchdog" where
  "update_slot start_index rs s =
     (if start_index < 0 then (Inr (), s)
      else (let (r, t) = write_regions (nat start_index) rs (wd_regions s) in (r, s\<lparr>wd_regions := t\<rparr>)))"

definition wd_triggered :: "watchdog \<Rightarrow> bool" where
  "wd_triggered s = wd_detected s"

definition wd_detected_when :: "watchdog \<Rightarrow> time option" where
  "wd_detected_when s = (if wd_detected s then Some (wd_detected_at s) else None)"

definition wd_stop :: "watchdog \<Rightarrow> watchdog" where
  "wd_stop s = s\<lparr>wd_running := False\<rparr>"

section \<open>The watching process\<close>

text \<open>The watched process: its memory, and whether it is alive.\<close>

record target =
  t_mem :: "nat \<Rightarrow> byte"
  t_alive :: bool

definition zero_region :: "nat \<Rightarrow> nat \<Rightarrow> (nat \<Rightarrow> byte) \<Rightarrow> nat \<Rightarrow> byte" where
  "zero_region addr len m = (\<lambda>a. if addr \<le> a \<and> a < addr + len then 0 else m a)"

definition table_region :: "watchdog \<Rightarrow> nat \<Rightarrow> region" where
  "table_region s i = (unat (wd_regions s ! (i * 2)), unat (wd_regions s ! (i * 2 + 1)))"

text \<open>\<open>writable addr len\<close>: whether the write to \<open>/proc/pid/mem\<close> succeeds; when it does not, the loop goes on.\<close>

definition wipe :: "(nat \<Rightarrow> nat \<Rightarrow> bool) \<Rightarrow> watchdog \<Rightarrow> (nat \<Rightarrow> byte) \<Rightarrow> nat \<Rightarrow> byte" where
  "wipe writable s m =
     fold (\<lambda>i m. let (addr, len) = table_region s i in if writable addr len then zero_region addr len m else m)
       [0..<wd_count s] m"

text \<open>One turn of \<open>_watch_process\<close>; the flag says whether the process has returned.\<close>

definition watch_turn ::
  "int \<Rightarrow> bool \<Rightarrow> (nat \<Rightarrow> nat \<Rightarrow> bool) \<Rightarrow> time \<Rightarrow> watchdog \<Rightarrow> target \<Rightarrow> bool \<times> watchdog \<times> target" where
  "watch_turn tp can_open writable now s p =
     (if tp = -1 then (True, s, p)
      else if tp \<noteq> 0 then
        (True, s\<lparr>wd_detected := True, wd_detected_at := now\<rparr>,
         p\<lparr>t_mem := if can_open then wipe writable s (t_mem p) else t_mem p,
           t_alive := t_alive p \<and> \<not> wd_kill_target s\<rparr>)
      else (False, s, p))"

section \<open>The in-process watchdog thread\<close>

record tamper =
  tw_stop :: bool
  tw_triggered :: bool

text \<open>One turn of \<open>_watch\<close>; \<open>on_tamper\<close> acts on the state \<open>w\<close> it closes over.\<close>

definition tamper_turn :: "nat \<Rightarrow> ('w \<Rightarrow> 'w) \<Rightarrow> tamper \<Rightarrow> 'w \<Rightarrow> bool \<times> tamper \<times> 'w" where
  "tamper_turn tracer on_tamper s w =
     (if tw_stop s then (True, s, w)
      else if tracer \<noteq> 0 then (True, s\<lparr>tw_triggered := True\<rparr>, on_tamper w)
      else (False, s, w))"

section \<open>Lemmas\<close>

definition wd_ok :: "watchdog \<Rightarrow> bool" where
  "wd_ok s \<longleftrightarrow> length (wd_regions s) = MAX_REGIONS * 2 \<and> wd_count s \<le> MAX_REGIONS"

lemma write_regions_ok:
  "(i + length rs) * 2 \<le> length t \<Longrightarrow>
     \<exists>t'. write_regions i rs t = (Inr (), t') \<and> length t' = length t \<and>
       (\<forall>j < length rs. t' ! ((i + j) * 2) = of_nat (fst (rs ! j)) \<and> t' ! ((i + j) * 2 + 1) = of_nat (snd (rs ! j))) \<and>
       (\<forall>k. k < i * 2 \<or> (i + length rs) * 2 \<le> k \<longrightarrow> t' ! k = t ! k)"
proof (induction rs arbitrary: i t)
  case (Cons r rs)
  obtain a l where r: "r = (a, l)" by fastforce
  let ?t = "t[i * 2 := of_nat a, i * 2 + 1 := of_nat l]"
  have "(Suc i + length rs) * 2 \<le> length ?t" using Cons.prems by simp
  from Cons.IH [OF this] obtain t' where IH: "write_regions (Suc i) rs ?t = (Inr (), t')" "length t' = length t"
    "\<forall>j < length rs. t' ! ((Suc i + j) * 2) = of_nat (fst (rs ! j)) \<and> t' ! ((Suc i + j) * 2 + 1) = of_nat (snd (rs ! j))"
    "\<forall>k. k < Suc i * 2 \<or> (Suc i + length rs) * 2 \<le> k \<longrightarrow> t' ! k = ?t ! k" by auto
  have "t' ! (i * 2) = of_nat a" "t' ! (i * 2 + 1) = of_nat l" using IH(4) Cons.prems by (simp_all add: nth_list_update)
  moreover have "t' ! ((i + j) * 2) = of_nat (fst ((r # rs) ! j)) \<and> t' ! ((i + j) * 2 + 1) = of_nat (snd ((r # rs) ! j))"
    if "j < length (r # rs)" for j
    using that calculation IH(3) r by (cases j) simp_all
  moreover have "t' ! k = t ! k" if "k < i * 2 \<or> (i + length (r # rs)) * 2 \<le> k" for k
    using that IH(4) by (auto simp: nth_list_update)
  ultimately show ?case
    using IH(1,2) Cons.prems by (intro exI [of _ t']) (simp add: r)
qed simp

lemma add_regions_ok:
  assumes "wd_ok s"
  shows "wd_ok (snd (add_regions rs s)) \<and>
    (wd_count s + length rs \<le> MAX_REGIONS \<longrightarrow>
       fst (add_regions rs s) = Inr () \<and> wd_count (snd (add_regions rs s)) = wd_count s + length rs \<and>
       (\<forall>j < length rs. table_region (snd (add_regions rs s)) (wd_count s + j) =
          (fst (rs ! j) mod 2 ^ 64, snd (rs ! j) mod 2 ^ 64)) \<and>
       (\<forall>i < wd_count s. table_region (snd (add_regions rs s)) i = table_region s i)) \<and>
    (MAX_REGIONS < wd_count s + length rs \<longrightarrow> add_regions rs s = (Inl RuntimeError, s))"
proof (cases "wd_count s + length rs \<le> MAX_REGIONS")
  case True
  then have "(wd_count s + length rs) * 2 \<le> length (wd_regions s)" using assms by (simp add: wd_ok_def)
  from write_regions_ok [OF this] show ?thesis
    using True assms by (auto simp: add_regions_def wd_ok_def Let_def table_region_def unat_of_nat)
qed (use assms in \<open>simp add: add_regions_def Let_def\<close>)

lemma update_slot_ok:
  assumes "wd_ok s" "0 \<le> start" "nat start + length rs \<le> MAX_REGIONS"
  shows "fst (update_slot start rs s) = Inr () \<and> wd_ok (snd (update_slot start rs s)) \<and>
    wd_count (snd (update_slot start rs s)) = wd_count s \<and>
    (\<forall>j < length rs. table_region (snd (update_slot start rs s)) (nat start + j) =
       (fst (rs ! j) mod 2 ^ 64, snd (rs ! j) mod 2 ^ 64)) \<and>
    (\<forall>i. i < nat start \<or> nat start + length rs \<le> i \<longrightarrow>
       table_region (snd (update_slot start rs s)) i = table_region s i)"
proof -
  have "(nat start + length rs) * 2 \<le> length (wd_regions s)" using assms by (simp add: wd_ok_def)
  from write_regions_ok [OF this] show ?thesis
    using assms by (auto simp: update_slot_def wd_ok_def table_region_def unat_of_nat)
qed

lemma reserve_slot_ok: "wd_ok s \<Longrightarrow> wd_ok (snd (reserve_slot n s))"
  by (auto simp: reserve_slot_def wd_ok_def Let_def)

lemma wd_new_ok: "wd_ok (wd_new k)"
  by (simp add: wd_ok_def wd_new_def)

lemma wipe_fold:
  fixes s :: watchdog and writable :: "nat \<Rightarrow> nat \<Rightarrow> bool" and m0 :: "nat \<Rightarrow> byte"
  defines "w \<equiv> \<lambda>i m. let (addr, len) = table_region s i in if writable addr len then zero_region addr len m else m"
  shows "fold w is m0 a = m0 a \<or> fold w is m0 a = 0"
    and "i \<in> set is \<Longrightarrow> table_region s i = (addr, len) \<Longrightarrow> writable addr len \<Longrightarrow> addr \<le> a \<Longrightarrow> a < addr + len \<Longrightarrow>
      fold w is m0 a = 0"
    and "(\<And>i addr len. i \<in> set is \<Longrightarrow> table_region s i = (addr, len) \<Longrightarrow> \<not> (addr \<le> a \<and> a < addr + len)) \<Longrightarrow>
      fold w is m0 a = m0 a"
proof -
  have one: "w i m a = m a \<or> w i m a = 0" for i m
    by (auto simp: w_def zero_region_def split: prod.splits)
  have keep: "fold w ks m a = m a \<or> fold w ks m a = 0" for ks m
  proof (induction ks arbitrary: m)
    case (Cons k ks)
    show ?case using one [of k m] Cons.IH [of "w k m"] by (metis fold_simps(2))
  qed simp
  show "fold w is m0 a = m0 a \<or> fold w is m0 a = 0" by (rule keep)
  show "fold w is m0 a = 0"
    if "i \<in> set is" "table_region s i = (addr, len)" "writable addr len" "addr \<le> a" "a < addr + len"
    using that
  proof (induction "is" arbitrary: m0)
    case (Cons j js)
    have "fold w js m a = 0" if "m a = 0" for m
      using keep [of js m] that by auto
    then show ?case using Cons by (cases "j = i") (auto simp: w_def zero_region_def)
  qed simp
  show "fold w is m0 a = m0 a"
    if "\<And>i addr len. i \<in> set is \<Longrightarrow> table_region s i = (addr, len) \<Longrightarrow> \<not> (addr \<le> a \<and> a < addr + len)"
    using that
  proof (induction "is" arbitrary: m0)
    case (Cons j js)
    have "w j m0 a = m0 a"
      using Cons.prems [of j] by (cases "table_region s j") (auto simp: w_def zero_region_def)
    moreover have "fold w js (w j m0) a = w j m0 a"
      using Cons.prems by (intro Cons.IH) auto
    ultimately show ?case by simp
  qed simp
qed

text \<open>What a client does with the table after registering regions at \<open>lo .. hi - 1\<close>.\<close>

datatype wd_op = Add "region list" | Reserve nat | Update int "region list"

fun wd_step :: "wd_op \<Rightarrow> watchdog \<Rightarrow> watchdog" where
  "wd_step (Add rs) s = snd (add_regions rs s)"
| "wd_step (Reserve n) s = snd (reserve_slot n s)"
| "wd_step (Update start rs) s = snd (update_slot start rs s)"

text \<open>Updates go to no slot (-1) or to a slot of the table apart from the entries in question.\<close>

fun wd_apart :: "nat \<Rightarrow> nat \<Rightarrow> wd_op \<Rightarrow> bool" where
  "wd_apart lo hi (Update start rs) \<longleftrightarrow>
     start = -1 \<or> (0 \<le> start \<and> nat start + length rs \<le> MAX_REGIONS \<and> (nat start + length rs \<le> lo \<or> hi \<le> nat start))"
| "wd_apart lo hi _ \<longleftrightarrow> True"

lemma wd_step_keeps:
  assumes "wd_ok s" "wd_apart lo hi e" "hi \<le> wd_count s"
  shows "wd_ok (wd_step e s) \<and> wd_count s \<le> wd_count (wd_step e s) \<and>
    wd_kill_target (wd_step e s) = wd_kill_target s \<and>
    (\<forall>i. lo \<le> i \<and> i < hi \<longrightarrow> table_region (wd_step e s) i = table_region s i)"
proof (cases e)
  case (Add rs)
  have "wd_kill_target (snd (add_regions rs s)) = wd_kill_target s"
    by (auto simp: add_regions_def Let_def split: prod.splits sum.splits)
  then show ?thesis
    using Add add_regions_ok [OF assms(1), of rs] assms(3) by (cases "wd_count s + length rs \<le> MAX_REGIONS") auto
next
  case (Reserve n)
  then show ?thesis using reserve_slot_ok [OF assms(1), of n] by (auto simp: reserve_slot_def Let_def table_region_def)
next
  case (Update start rs)
  have "wd_kill_target (snd (update_slot start rs s)) = wd_kill_target s"
    by (auto simp: update_slot_def split: prod.splits)
  then show ?thesis
    using Update update_slot_ok [OF assms(1), of start rs] assms by (auto simp: update_slot_def [of "-1"])
qed

lemma wd_steps_keep:
  "wd_ok s \<Longrightarrow> list_all (wd_apart lo hi) es \<Longrightarrow> hi \<le> wd_count s \<Longrightarrow>
     wd_ok (fold wd_step es s) \<and> wd_count s \<le> wd_count (fold wd_step es s) \<and>
     wd_kill_target (fold wd_step es s) = wd_kill_target s \<and>
     (\<forall>i. lo \<le> i \<and> i < hi \<longrightarrow> table_region (fold wd_step es s) i = table_region s i)"
proof (induction es arbitrary: s)
  case (Cons e es)
  then have e: "wd_ok (wd_step e s) \<and> wd_count s \<le> wd_count (wd_step e s) \<and>
    wd_kill_target (wd_step e s) = wd_kill_target s \<and>
    (\<forall>i. lo \<le> i \<and> i < hi \<longrightarrow> table_region (wd_step e s) i = table_region s i)"
    by (intro wd_step_keeps) simp_all
  then show ?case using Cons.IH [of "wd_step e s"] Cons.prems by auto
qed simp

section \<open>Properties\<close>

text \<open>
  Property C20. A registered region is wiped: once \<open>add_regions\<close> has accepted regions, and whatever is
  added, reserved and updated elsewhere in the table afterwards, the first turn that sees a tracer
  zeroes every byte of those of them that can be written, raises the flag, kills the target
  if asked to, and ends.
\<close>

theorem registered_regions_are_wiped:
  assumes "wd_ok s" "add_regions rs s = (Inr (), s1)" "list_all (wd_apart (wd_count s) (wd_count s + length rs)) es"
    and "tp \<noteq> -1" "tp \<noteq> 0" "watch_turn tp True writable now (fold wd_step es s1) p = (stop, s2, q)"
    and "(addr, len) \<in> set rs" "addr < 2 ^ 64" "len < 2 ^ 64" "writable addr len" "addr \<le> a" "a < addr + len"
  shows "t_mem q a = 0 \<and> stop \<and> wd_triggered s2 \<and> (wd_kill_target s1 \<longrightarrow> \<not> t_alive q)"
proof -
  have fits: "wd_count s + length rs \<le> MAX_REGIONS"
    using add_regions_ok [OF assms(1), of rs] assms(2) by (metis Inl_Inr_False linorder_not_le prod.inject)
  have s1: "wd_ok s1" "wd_count s1 = wd_count s + length rs"
    "\<forall>j < length rs. table_region s1 (wd_count s + j) = (fst (rs ! j) mod 2 ^ 64, snd (rs ! j) mod 2 ^ 64)"
    using add_regions_ok [OF assms(1), of rs] assms(2) fits by auto
  have keep: "wd_count s1 \<le> wd_count (fold wd_step es s1)" "wd_kill_target (fold wd_step es s1) = wd_kill_target s1"
    "\<And>i. wd_count s \<le> i \<Longrightarrow> i < wd_count s + length rs \<Longrightarrow> table_region (fold wd_step es s1) i = table_region s1 i"
    using wd_steps_keep [OF s1(1) assms(3)] s1(2) by auto
  obtain j where j: "j < length rs" "rs ! j = (addr, len)" using assms(7) by (auto simp: in_set_conv_nth)
  have "table_region (fold wd_step es s1) (wd_count s + j) = (addr, len)"
    using keep(3) [of "wd_count s + j"] s1(3) j assms(8,9) by simp
  moreover have "wd_count s + j \<in> set [0..<wd_count (fold wd_step es s1)]" using keep(1) s1(2) j by simp
  ultimately have "wipe writable (fold wd_step es s1) (t_mem p) a = 0"
    unfolding wipe_def using wipe_fold(2) assms(10-12) by blast
  then show ?thesis
    using assms(4-6) keep(2) by (auto simp: watch_turn_def wd_triggered_def)
qed

definition demo_watchdog :: watchdog where
  "demo_watchdog = snd (add_regions [(100, 2)] (wd_new True))"

theorem registered_regions_are_wiped_witness:
  "t_mem (snd (snd (watch_turn 7 True (\<lambda>_ _. True) 0 (fold wd_step [Add [(300, 4)], Reserve 5] demo_watchdog)
     \<lparr>t_mem = (\<lambda>_. 9), t_alive = True\<rparr>))) 101 = 0"
proof -
  have "add_regions [(100, 2)] (wd_new True) = (Inr (), demo_watchdog)"
    using add_regions_ok [OF wd_new_ok, of "[(100, 2)]" True]
    by (simp add: demo_watchdog_def prod_eq_iff wd_new_def MAX_REGIONS_def)
  moreover obtain stop s2 q where turn: "watch_turn 7 True (\<lambda>_ _. True) 0
      (fold wd_step [Add [(300, 4)], Reserve 5] demo_watchdog) \<lparr>t_mem = (\<lambda>_. 9), t_alive = True\<rparr> = (stop, s2, q)"
    using prod_cases3 by blast
  ultimately show ?thesis
    using registered_regions_are_wiped [OF wd_new_ok _ _ _ _ turn, of "[(100, 2)]" True 100 2 101] by simp
qed

end
