(* ===== verification/SecureSystem.thy ===== *)
theory SecureSystem
  imports ChunkedBox FileStore TrustGroup Watchdog
begin

text \<open>
  \<open>vstorage/secure_system.py\<close>: the store whose pieces are held by chunked secure boxes, with one
  watchdog over all of them and at most one trust group, and its ways out: a plain file, a file
  encrypted under a transit key, a key released once the file is durable, or a token for the key.
  What the operating system draws (ids, keys, nonces, tokens, addresses, the time) is an argument.
\<close>

section \<open>The outside world\<close>

text \<open>
  Files as other programs read them, and what of them is durable. Every input or output operation may
  fail: \<open>w_fails n\<close> says whether the n-th one does. A failing write appends nothing.
\<close>

record world =
  w_files :: disk
  w_durable :: disk
  w_ops :: nat
  w_fails :: "nat \<Rightarrow> bool"

definition io_do :: "(world \<Rightarrow> world) \<Rightarrow> world \<Rightarrow> unit res \<times> world" where
  "io_do f w =
     (let w' = w\<lparr>w_ops := w_ops w + 1\<rparr> in if w_fails w (w_ops w) then (Inl OSError, w') else (Inr (), f w'))"

text \<open>\<open>open(path, "wb")\<close>, \<open>f.write(b)\<close> and \<open>os.fsync\<close>.\<close>

definition io_create :: "string \<Rightarrow> world \<Rightarrow> unit res \<times> world" where
  "io_create path = io_do (\<lambda>w. w\<lparr>w_files := (w_files w)(path \<mapsto> [])\<rparr>)"

definition io_write :: "string \<Rightarrow> bytes \<Rightarrow> world \<Rightarrow> unit res \<times> world" where
  "io_write path b = io_do (\<lambda>w. w\<lparr>w_files := (w_files w)(path := map_option (\<lambda>d. d @ b) (w_files w path))\<rparr>)"

definition io_fsync :: "string \<Rightarrow> world \<Rightarrow> unit res \<times> world" where
  "io_fsync path = io_do (\<lambda>w. w\<lparr>w_durable := (w_durable w)(path := w_files w path)\<rparr>)"

section \<open>The state\<close>

datatype tgroup = LocalGroup "holder group" | NetGroup network

definition tg_fetch :: "tgroup \<Rightarrow> bytes res \<times> tgroup" where
  "tg_fetch t = (case t of
       LocalGroup g \<Rightarrow> (let (r, g') = dg_fetch g in (r, LocalGroup g'))
     | NetGroup n \<Rightarrow> (let (r, n') = ng_fetch n in (r, NetGroup n')))"

definition tg_stop :: "tgroup \<Rightarrow> tgroup" where
  "tg_stop t = (case t of LocalGroup g \<Rightarrow> LocalGroup (dg_stop g) | NetGroup n \<Rightarrow> NetGroup (ng_stop n))"

definition ask_group :: "tgroup option \<Rightarrow> trust \<times> tgroup option" where
  "ask_group t = (case t of None \<Rightarrow> (None, None) | Some g \<Rightarrow> (let (r, g') = tg_fetch g in (Some r, Some g')))"

text \<open>A box and what its registrar closes over: the index and size of its slot of the watchdog's table.\<close>

record rbox =
  rb_box :: cbox
  rb_slot :: "(int \<times> nat) option"

record sheld =
  sh_boxes :: "(which, rbox) dict"
  sh_reconstruct_from :: which
  sh_original_size :: nat
  sh_name :: string

record pending =
  pk_key :: bytes
  pk_expires_at :: time

text \<open>\<open>sv_orphans\<close>: boxes that fall in the pool although their save has failed; no entry names them.\<close>

record sstore =
  sv_held :: "(string, sheld) dict"
  sv_watchdog :: "watchdog option"
  sv_group :: "tgroup option"
  sv_pending :: "(string, pending) dict"
  sv_orphans :: "rbox list"

definition DEFAULT_TOKEN_TTL :: time where
  "DEFAULT_TOKEN_TTL = 60"

definition sv_threshold :: "int option \<Rightarrow> bool \<Rightarrow> int option" where
  "sv_threshold trust_kill_threshold kill_on_tamper =
     (if trust_kill_threshold = None \<and> \<not> kill_on_tamper then Some 0 else trust_kill_threshold)"

text \<open>\<open>__init__\<close>: \<open>mk threshold\<close> builds the trust group asked for, if one is.\<close>

definition sv_init :: "bool \<Rightarrow> bool \<Rightarrow> int option \<Rightarrow> (int option \<Rightarrow> tgroup res) option \<Rightarrow> sstore res" where
  "sv_init watch kill_on_tamper trust_kill_threshold mk =
     (let s = \<lparr>sv_held = [], sv_watchdog = (if watch then Some (wd_new kill_on_tamper) else None),
               sv_group = None, sv_pending = [], sv_orphans = []\<rparr>
      in case mk of None \<Rightarrow> Inr s
         | Some f \<Rightarrow> map_res (\<lambda>g. s\<lparr>sv_group := Some g\<rparr>) (f (sv_threshold trust_kill_threshold kill_on_tamper)))"

section \<open>Saving\<close>

text \<open>A box with the default chunk size and interval; a \<open>FromFile\<close> of a missing file raises before
  the trust group is asked.\<close>

definition make_box :: "env \<Rightarrow> disk \<Rightarrow> draws \<Rightarrow> piece \<Rightarrow> sstore \<Rightarrow> rbox res \<times> sstore" where
  "make_box E fs D pc s =
     (let (trust, g') = ask_group (sv_group s); watched = (sv_watchdog s \<noteq> None);
          new = map_res (\<lambda>b. \<lparr>rb_box = b, rb_slot = None\<rparr>)
      in case pc of
           FromFile p \<Rightarrow>
             (if fs p = None then (Inl FileNotFoundError, s)
              else (new (cb_from_file E fs trust D DEFAULT_CHUNK_SIZE 0 watched p), s\<lparr>sv_group := g'\<rparr>))
         | Bytes d \<Rightarrow> (new (cb_new E trust D DEFAULT_CHUNK_SIZE 0 watched d), s\<lparr>sv_group := g'\<rparr>))"

definition orphan :: "rbox list \<Rightarrow> sstore \<Rightarrow> sstore" where
  "orphan bs s = s\<lparr>sv_orphans := sv_orphans s @ bs\<rparr>"

text \<open>\<open>regions.extend(box.regions())\<close> for every box, then \<open>add_regions\<close>.\<close>

definition register_boxes :: "rbox list \<Rightarrow> sstore \<Rightarrow> unit res \<times> sstore" where
  "register_boxes bs s =
     (case sv_watchdog s of None \<Rightarrow> (Inr (), s)
      | Some wd \<Rightarrow>
          (case mapM (\<lambda>b. cb_regions (rb_box b)) bs of Inl e \<Rightarrow> (Inl e, s)
           | Inr rs \<Rightarrow> (let (r, wd') = add_regions (concat rs) wd in (r, s\<lparr>sv_watchdog := Some wd'\<rparr>))))"

text \<open>\<open>_hold\<close>, with the draws of the three boxes.\<close>

definition sv_hold ::
  "env \<Rightarrow> disk \<Rightarrow> (which \<Rightarrow> draws) \<Rightarrow> string \<Rightarrow> split_result \<Rightarrow> string \<Rightarrow> sstore \<Rightarrow> string res \<times> sstore" where
  "sv_hold E fs D file_id r name s =
     (case make_box E fs (D Content) (sr_content r) s of (Inl e, s1) \<Rightarrow> (Inl e, s1) | (Inr b1, s1) \<Rightarrow>
      case make_box E fs (D Structure) (sr_structure r) s1 of (Inl e, s2) \<Rightarrow> (Inl e, orphan [b1] s2) | (Inr b2, s2) \<Rightarrow>
      case make_box E fs (D Metadata) (Bytes (sr_metadata r)) s2 of (Inl e, s3) \<Rightarrow> (Inl e, orphan [b1, b2] s3) | (Inr b3, s3) \<Rightarrow>
      case register_boxes [b1, b2, b3] s3 of (Inl e, s4) \<Rightarrow> (Inl e, orphan [b1, b2, b3] s4) | (Inr _, s4) \<Rightarrow>
      case piece_size fs (if sr_reconstruct_from r = Content then sr_content r else sr_structure r) of
        Inl e \<Rightarrow> (Inl e, orphan [b1, b2, b3] s4)
      | Inr original_size \<Rightarrow>
          (Inr file_id, s4\<lparr>sv_held := dict_set file_id
             \<lparr>sh_boxes = [(Content, b1), (Structure, b2), (Metadata, b3)], sh_reconstruct_from = sr_reconstruct_from r,
              sh_original_size = original_size, sh_name = name\<rparr> (sv_held s4)\<rparr>))"

definition sv_save ::
  "env \<Rightarrow> disk \<Rightarrow> (which \<Rightarrow> draws) \<Rightarrow> string \<Rightarrow> string \<Rightarrow> sstore \<Rightarrow> string res \<times> sstore" where
  "sv_save E fs D file_id path s =
     (case split_file E fs path of Inl e \<Rightarrow> (Inl e, s) | Inr r \<Rightarrow> sv_hold E fs D file_id r (basename path) s)"

definition sv_save_bytes ::
  "env \<Rightarrow> (which \<Rightarrow> draws) \<Rightarrow> string \<Rightarrow> bytes \<Rightarrow> string \<Rightarrow> sstore \<Rightarrow> string res \<times> sstore" where
  "sv_save_bytes E D file_id raw name_hint s =
     sv_hold E (\<lambda>_. None) D file_id (split_bytes E raw name_hint) name_hint s"

section \<open>Falling\<close>

text \<open>The callback of \<open>_rotation_registrar\<close>.\<close>

definition on_new_guard ::
  "region list \<Rightarrow> (int \<times> nat) option \<Rightarrow> watchdog \<Rightarrow> unit res \<times> (int \<times> nat) \<times> watchdog" where
  "on_new_guard rs slot wd =
     (let ((index, n), wd1) = (case slot of
            None \<Rightarrow> (let (i, wd') = reserve_slot (length rs) wd in ((i, length rs), wd'))
          | Some sl \<Rightarrow> (sl, wd))
      in if index \<noteq> -1 \<and> length rs = n
         then (let (r, wd2) = update_slot index rs wd1 in (r, (index, n), wd2))
         else (Inr (), (index, n), wd1))"

text \<open>A worker's turn with a box: the trust group is asked only when the hop ends a generation; an
  exception of the callback would leave the flags set and drop the box.\<close>

definition serve_box ::
  "env \<Rightarrow> time \<Rightarrow> bytes \<Rightarrow> (nat \<Rightarrow> nat) \<Rightarrow> rbox \<Rightarrow> watchdog option \<Rightarrow> tgroup option \<Rightarrow>
   time option \<times> rbox \<times> watchdog option \<times> tgroup option" where
  "serve_box E now nonce addrs rb wd grp =
     (let b = rb_box rb; (trust, asked) = ask_group grp;
          (again, b', told) = cb_serve E now nonce trust addrs b;
          grp' = (if \<not> cb_removed b \<and> \<not> cb_paused b \<and> cb_asks E nonce b then asked else grp)
      in case (told, wd) of
           (Some rs, Some w) \<Rightarrow>
             (case on_new_guard rs (rb_slot rb) w of
                (Inl e, sl, w') \<Rightarrow>
                  (None, \<lparr>rb_box = b'\<lparr>cb_on_next := replicate (length (cb_chunks b')) True\<rparr>, rb_slot = Some sl\<rparr>, Some w', grp')
              | (Inr _, sl, w') \<Rightarrow> (again, \<lparr>rb_box = b', rb_slot = Some sl\<rparr>, Some w', grp'))
         | _ \<Rightarrow> (again, rb\<lparr>rb_box := b'\<rparr>, wd, grp'))"

definition put_rbox :: "string \<Rightarrow> which \<Rightarrow> rbox \<Rightarrow> sheld \<Rightarrow> sstore \<Rightarrow> sstore" where
  "put_rbox i w rb h s = s\<lparr>sv_held := dict_set i (h\<lparr>sh_boxes := dict_set w rb (sh_boxes h)\<rparr>) (sv_held s)\<rparr>"

definition find_box :: "string \<Rightarrow> which \<Rightarrow> sstore \<Rightarrow> (sheld \<times> rbox) option" where
  "find_box i w s =
     (case dict_get (sv_held s) i of None \<Rightarrow> None
      | Some h \<Rightarrow> map_option (\<lambda>rb. (h, rb)) (dict_get (sh_boxes h) w))"

definition sv_serve :: "env \<Rightarrow> time \<Rightarrow> bytes \<Rightarrow> (nat \<Rightarrow> nat) \<Rightarrow> string \<Rightarrow> which \<Rightarrow> sstore \<Rightarrow> sstore" where
  "sv_serve E now nonce addrs i w s =
     (case find_box i w s of None \<Rightarrow> s
      | Some (h, rb) \<Rightarrow>
          (let (again, rb', wd', g') = serve_box E now nonce addrs rb (sv_watchdog s) (sv_group s)
           in (put_rbox i w rb' h s)\<lparr>sv_watchdog := wd', sv_group := g'\<rparr>))"

section \<open>Retrieving\<close>

text \<open>\<open>held.boxes[which]\<close> after resolving "full".\<close>

definition the_box :: "string \<Rightarrow> request \<Rightarrow> sstore \<Rightarrow> (sheld \<times> which \<times> rbox) res" where
  "the_box i req s =
     (case dict_get (sv_held s) i of None \<Rightarrow> Inl KeyError
      | Some h \<Rightarrow>
          (case req of Other _ \<Rightarrow> Inl KeyError
           | _ \<Rightarrow>
             (let w = (case req of Part w \<Rightarrow> w | _ \<Rightarrow> sh_reconstruct_from h) in
              case dict_get (sh_boxes h) w of None \<Rightarrow> Inl KeyError | Some rb \<Rightarrow> Inr (h, w, rb))))"

definition sv_retrieve :: "env \<Rightarrow> string \<Rightarrow> request \<Rightarrow> sstore \<Rightarrow> bytes res \<times> sstore" where
  "sv_retrieve E i req s =
     (case the_box i req s of Inl e \<Rightarrow> (Inl e, s)
      | Inr (h, w, rb) \<Rightarrow>
          (let (r, b') = cb_snapshot E (rb_box rb) in (r, put_rbox i w (rb\<lparr>rb_box := b'\<rparr>) h s)))"

definition sv_retrieve_to_file ::
  "env \<Rightarrow> string \<Rightarrow> string \<Rightarrow> request \<Rightarrow> world \<Rightarrow> sstore \<Rightarrow> unit res \<times> world \<times> sstore" where
  "sv_retrieve_to_file E i dest req w s =
     (case the_box i req s of Inl e \<Rightarrow> (Inl e, w, s)
      | Inr (h, pc, rb) \<Rightarrow>
          (case io_create dest w of (Inl e, w1) \<Rightarrow> (Inl e, w1, s)
           | (Inr _, w1) \<Rightarrow>
               (let (r, w2, b') = cb_stream_to E (io_write dest) w1 (rb_box rb)
                in (r, w2, put_rbox i pc (rb\<lparr>rb_box := b'\<rparr>) h s))))"

text \<open>The wrapped stream of the last three methods; \<open>finish\<close> is what follows it inside the \<open>with\<close>.\<close>

definition wrapped_to ::
  "env \<Rightarrow> (nat \<Rightarrow> bytes) \<Rightarrow> bytes \<Rightarrow> string \<Rightarrow> (world \<Rightarrow> unit res \<times> world) \<Rightarrow> string \<Rightarrow> request \<Rightarrow> world \<Rightarrow> sstore \<Rightarrow>
   unit res \<times> world \<times> sstore" where
  "wrapped_to E nonces transit_key dest finish i req w s =
     (case the_box i req s of Inl e \<Rightarrow> (Inl e, w, s)
      | Inr (h, pc, rb) \<Rightarrow>
          (case io_create dest w of (Inl e, w1) \<Rightarrow> (Inl e, w1, s)
           | (Inr _, w1) \<Rightarrow>
               (case cb_stream_to_wrapped E nonces transit_key (io_write dest) w1 (rb_box rb) of
                  (Inl e, w2, b') \<Rightarrow> (Inl e, w2, put_rbox i pc (rb\<lparr>rb_box := b'\<rparr>) h s)
                | (Inr _, w2, b') \<Rightarrow>
                    (let (r, w3) = finish w2 in (r, w3, put_rbox i pc (rb\<lparr>rb_box := b'\<rparr>) h s)))))"

text \<open>\<open>transit_key\<close> is the caller's, or else \<open>fresh\<close>.\<close>

definition sv_retrieve_to_encrypted_file ::
  "env \<Rightarrow> (nat \<Rightarrow> bytes) \<Rightarrow> bytes \<Rightarrow> string \<Rightarrow> string \<Rightarrow> bytes option \<Rightarrow> request \<Rightarrow> world \<Rightarrow> sstore \<Rightarrow>
   bytes res \<times> world \<times> sstore" where
  "sv_retrieve_to_encrypted_file E nonces fresh i dest transit_key req w s =
     (let key = (case transit_key of None \<Rightarrow> fresh | Some k \<Rightarrow> k);
          (r, w', s') = wrapped_to E nonces key dest (\<lambda>w. (Inr (), w)) i req w s
      in (map_res (\<lambda>_. key) r, w', s'))"

record receipt =
  rc_dest_path :: string
  rc_trust :: string
  rc_key :: "bytes option"
  rc_token :: "string option"
  rc_expires_at :: "time option"

definition sweep :: "time \<Rightarrow> (string, pending) dict \<Rightarrow> (string, pending) dict" where
  "sweep now d = fold dict_del (map fst (filter (\<lambda>(t, e). pk_expires_at e < now) d)) d"

text \<open>\<open>now\<close> is the time at the issue of a token; \<open>sweep_now\<close> a little later, in the sweep.\<close>

definition issue_token :: "time \<Rightarrow> time \<Rightarrow> time \<Rightarrow> string \<Rightarrow> bytes \<Rightarrow> sstore \<Rightarrow> sstore" where
  "issue_token now sweep_now ttl token key s =
     s\<lparr>sv_pending := dict_set token \<lparr>pk_key = key, pk_expires_at = now + ttl\<rparr> (sweep sweep_now (sv_pending s))\<rparr>"

definition sv_retrieve_to_destination ::
  "env \<Rightarrow> (nat \<Rightarrow> bytes) \<Rightarrow> bytes \<Rightarrow> string \<Rightarrow> time \<Rightarrow> time \<Rightarrow> string \<Rightarrow> string \<Rightarrow> string \<Rightarrow> request \<Rightarrow> time \<Rightarrow>
   world \<Rightarrow> sstore \<Rightarrow> receipt res \<times> world \<times> sstore" where
  "sv_retrieve_to_destination E nonces fresh token now sweep_now i dest trust req ttl w s =
     (let rc = \<lparr>rc_dest_path = dest, rc_trust = trust, rc_key = None, rc_token = None, rc_expires_at = None\<rparr> in
      if trust = ''trusted'' then
        (let (r, w', s') = sv_retrieve_to_file E i dest req w s in (map_res (\<lambda>_. rc) r, w', s'))
      else if trust \<notin> {''untrusted'', ''hostile''} then (Inl ValueError, w, s)
      else (case wrapped_to E nonces fresh dest (io_fsync dest) i req w s of
              (Inl e, w', s') \<Rightarrow> (Inl e, w', s')
            | (Inr _, w', s') \<Rightarrow>
                (if trust = ''untrusted'' then (Inr (rc\<lparr>rc_key := Some fresh\<rparr>), w', s')
                 else (Inr (rc\<lparr>rc_token := Some token, rc_expires_at := Some (now + ttl)\<rparr>), w',
                       issue_token now sweep_now ttl token fresh s'))))"

definition sv_redeem_key :: "time \<Rightarrow> string \<Rightarrow> sstore \<Rightarrow> bytes res \<times> sstore" where
  "sv_redeem_key now token s =
     (case dict_get (sv_pending s) token of
        None \<Rightarrow> (Inl KeyError, s)
      | Some e \<Rightarrow>
          (let s' = s\<lparr>sv_pending := dict_del token (sv_pending s)\<rparr> in
           if pk_expires_at e < now then (Inl TimeoutError, s') else (Inr (pk_key e), s')))"

definition sv_original_size :: "string \<Rightarrow> sstore \<Rightarrow> nat res" where
  "sv_original_size i s = (case dict_get (sv_held s) i of None \<Rightarrow> Inl KeyError | Some h \<Rightarrow> Inr (sh_original_size h))"

definition sv_list_ids :: "sstore \<Rightarrow> string list" where
  "sv_list_ids s = dict_keys (sv_held s)"

section \<open>Death\<close>

text \<open>The collapsed boxes, which no entry names any more, are the second component.\<close>

definition sv_forget :: "string \<Rightarrow> sstore \<Rightarrow> sstore \<times> rbox list" where
  "sv_forget i s =
     (case dict_get (sv_held s) i of None \<Rightarrow> (s, [])
      | Some h \<Rightarrow> (s\<lparr>sv_held := dict_del i (sv_held s)\<rparr>,
          map (\<lambda>(w, rb). rb\<lparr>rb_box := cb_collapse (rb_box rb)\<rparr>) (sh_boxes h)))"

definition sv_collapse_all :: "sstore \<Rightarrow> sstore" where
  "sv_collapse_all s =
     (let s1 = fold (\<lambda>i s. fst (sv_forget i s)) (sv_list_ids s) s
      in s1\<lparr>sv_watchdog := map_option wd_stop (sv_watchdog s1), sv_group := map_option tg_stop (sv_group s1)\<rparr>)"

section \<open>Reading a wrapped file back\<close>

definition of_be32 :: "bytes \<Rightarrow> nat" where
  "of_be32 bs = foldl (\<lambda>n b. 256 * n + unat b) 0 bs"

text \<open>The loop of \<open>decrypt_wrapped_file\<close> over what is left of the source; the destination so far.\<close>

function unwrap_loop :: "env \<Rightarrow> bytes \<Rightarrow> bytes \<Rightarrow> bytes \<Rightarrow> unit res \<times> bytes" where
  "unwrap_loop E transit_key src dst =
     (if src = [] then (Inr (), dst)
      else (let ct_len = of_be32 (take 4 src); nonce = take NONCE_LEN (drop 4 src);
                ct = take ct_len (drop (4 + NONCE_LEN) src)
            in case aes_decrypt E transit_key nonce ct of Inl e \<Rightarrow> (Inl e, dst)
               | Inr plaintext \<Rightarrow> unwrap_loop E transit_key (drop (4 + NONCE_LEN + ct_len) src) (dst @ plaintext)))"
  by pat_completeness auto
termination
  by (relation "measure (\<lambda>(E, k, src, dst). length src)") (auto simp: NONCE_LEN_def)

declare unwrap_loop.simps [simp del]

definition decrypt_wrapped_file :: "env \<Rightarrow> string \<Rightarrow> bytes \<Rightarrow> string \<Rightarrow> disk \<Rightarrow> unit res \<times> disk" where
  "decrypt_wrapped_file E path transit_key dest fs =
     (case fs path of None \<Rightarrow> (Inl FileNotFoundError, fs)
      | Some src \<Rightarrow>
          (let (r, dst) = unwrap_loop E transit_key (if path = dest then [] else src) [] in (r, fs(dest \<mapsto> dst))))"

section \<open>Invariant, and what is observed of a file\<close>

definition slot_in :: "watchdog option \<Rightarrow> (int \<times> nat) option \<Rightarrow> bool" where
  "slot_in wd slot \<longleftrightarrow>
     (case (wd, slot) of (Some w, Some (i, n)) \<Rightarrow> i = -1 \<or> 0 \<le> i \<and> nat i + n \<le> wd_count w | _ \<Rightarrow> True)"

definition rbox_ok :: "env \<Rightarrow> watchdog option \<Rightarrow> rbox \<Rightarrow> bool" where
  "rbox_ok E wd rb \<longleftrightarrow> (\<exists>data. cb_ok E data (rb_box rb)) \<and> slot_in wd (rb_slot rb)"

definition sheld_ok :: "env \<Rightarrow> watchdog option \<Rightarrow> sheld \<Rightarrow> bool" where
  "sheld_ok E wd h \<longleftrightarrow> dict_keys (sh_boxes h) = [Content, Structure, Metadata] \<and>
     (\<forall>w rb. dict_get (sh_boxes h) w = Some rb \<longrightarrow> rbox_ok E wd rb)"

definition sv_ok :: "env \<Rightarrow> sstore \<Rightarrow> bool" where
  "sv_ok E s \<longleftrightarrow> dict_ok (sv_held s) \<and> (\<forall>wd. sv_watchdog s = Some wd \<longrightarrow> wd_ok wd) \<and>
     (\<forall>i h. dict_get (sv_held s) i = Some h \<longrightarrow> sheld_ok E (sv_watchdog s) h)"

definition sv_known :: "sstore \<Rightarrow> string \<Rightarrow> bool" where
  "sv_known s i \<longleftrightarrow> dict_get (sv_held s) i \<noteq> None"

definition rbox_data :: "env \<Rightarrow> rbox \<Rightarrow> bytes res" where
  "rbox_data E rb = fst (cb_snapshot E (rb_box rb))"

definition sheld_data :: "env \<Rightarrow> sheld \<Rightarrow> which \<times> (which \<Rightarrow> bytes res option)" where
  "sheld_data E h = (sh_reconstruct_from h, \<lambda>w. map_option (rbox_data E) (dict_get (sh_boxes h) w))"

definition sv_data :: "env \<Rightarrow> sstore \<Rightarrow> string \<Rightarrow> (which \<times> (which \<Rightarrow> bytes res option)) option" where
  "sv_data E s i = map_option (sheld_data E) (dict_get (sv_held s) i)"

definition sv_read :: "request \<Rightarrow> (which \<times> (which \<Rightarrow> bytes res option)) option \<Rightarrow> bytes res" where
  "sv_read req d =
     (case d of None \<Rightarrow> Inl KeyError
      | Some (rf, f) \<Rightarrow>
          (case req of Other _ \<Rightarrow> Inl KeyError
           | Part w \<Rightarrow> (case f w of None \<Rightarrow> Inl KeyError | Some r \<Rightarrow> r)
           | Full \<Rightarrow> (case f rf of None \<Rightarrow> Inl KeyError | Some r \<Rightarrow> r)))"

lemma sv_retrieve_out: "fst (sv_retrieve E i req s) = sv_read req (sv_data E s i)"
  by (auto simp: sv_retrieve_def the_box_def sv_read_def sv_data_def sheld_data_def rbox_data_def
      split: option.splits request.splits prod.splits)

lemma sv_known_data: "sv_data E s i = None \<longleftrightarrow> \<not> sv_known s i"
  by (simp add: sv_data_def sv_known_def)

text \<open>Putting back a box that shows the same data changes nothing a client sees.\<close>

lemma put_rbox_same:
  assumes "sv_ok E s" "find_box i w s = Some (h, rb)" "rbox_ok E (sv_watchdog s) rb'" "rbox_data E rb' = rbox_data E rb"
  shows "sv_ok E (put_rbox i w rb' h s)" "sv_data E (put_rbox i w rb' h s) = sv_data E s"
proof -
  have h: "dict_get (sv_held s) i = Some h" "dict_get (sh_boxes h) w = Some rb"
    using assms(2) by (auto simp: find_box_def split: option.splits)
  have "sheld_ok E (sv_watchdog s) h" using assms(1) h(1) by (simp add: sv_ok_def)
  then have "sheld_ok E (sv_watchdog s) (h\<lparr>sh_boxes := dict_set w rb' (sh_boxes h)\<rparr>)"
    using assms(3) dict_keys_replace [OF h(2)] by (simp add: sheld_ok_def)
  then show "sv_ok E (put_rbox i w rb' h s)"
    using assms(1) by (auto simp: sv_ok_def put_rbox_def)
  show "sv_data E (put_rbox i w rb' h s) = sv_data E s"
    using h assms(4) by (auto simp: sv_data_def put_rbox_def sheld_data_def fun_eq_iff)
qed

lemma find_box_ok: "sv_ok E s \<Longrightarrow> find_box i w s = Some (h, rb) \<Longrightarrow> rbox_ok E (sv_watchdog s) rb"
  by (auto simp: sv_ok_def sheld_ok_def find_box_def split: option.splits)

lemma the_box_find: "the_box i req s = Inr (h, w, rb) \<Longrightarrow> find_box i w s = Some (h, rb)"
  by (auto simp: the_box_def find_box_def Let_def split: option.splits request.splits)

lemma rbox_ok_data: "rbox_ok E wd rb \<Longrightarrow> \<exists>data. cb_ok E data (rb_box rb) \<and> rbox_data E rb = Inr data"
  using cb_ok_snapshot by (auto simp: rbox_ok_def rbox_data_def)

lemma rbox_data_ok: "cb_ok E data (rb_box rb) \<Longrightarrow> rbox_data E rb = Inr data"
  by (simp add: rbox_data_def cb_ok_snapshot)

section \<open>Motion\<close>

text \<open>The table only grows, and no entry of a slot is out of range.\<close>

lemma on_new_guard_ok:
  assumes "wd_ok wd" "slot_in (Some wd) slot"
  obtains sl wd' where "on_new_guard rs slot wd = (Inr (), sl, wd')" "wd_ok wd'" "slot_in (Some wd') (Some sl)"
    "wd_count wd \<le> wd_count wd'"
proof -
  define p where "p = (case slot of None \<Rightarrow> (let (i, wd') = reserve_slot (length rs) wd in ((i, length rs), wd'))
          | Some sl \<Rightarrow> (sl, wd))"
  obtain i n wd1 where p': "p = ((i, n), wd1)" by (metis surj_pair)
  have p1: "wd_ok wd1" "slot_in (Some wd1) (Some (i, n))" "wd_count wd \<le> wd_count wd1"
  proof -
    show "wd_ok wd1" using p' assms reserve_slot_ok [of wd "length rs"]
      by (auto simp: p_def split: option.splits prod.splits)
    show "slot_in (Some wd1) (Some (i, n))" "wd_count wd \<le> wd_count wd1"
      using p' assms by (auto simp: p_def slot_in_def reserve_slot_def Let_def split: option.splits if_splits)
  qed
  show thesis
  proof (cases "i \<noteq> -1 \<and> length rs = n")
    case True
    then have "0 \<le> i" "nat i + length rs \<le> MAX_REGIONS"
      using p1(1,2) by (auto simp: slot_in_def wd_ok_def)
    from update_slot_ok [OF p1(1) this] p1 True show thesis
      using that [of "(i, n)" "snd (update_slot i rs wd1)"]
      by (simp add: on_new_guard_def p_def [symmetric] p' split_def slot_in_def prod_eq_iff)
  next
    case False
    then have "on_new_guard rs slot wd = (Inr (), (i, n), wd1)"
      by (auto simp: on_new_guard_def p_def [symmetric] p')
    then show thesis using that p1 by blast
  qed
qed

lemma serve_box_ok:
  assumes "rbox_ok E wd rb" "\<forall>w. wd = Some w \<longrightarrow> wd_ok w" "length nonce = NONCE_LEN"
    and "serve_box E now nonce addrs rb wd grp = (again, rb', wd', grp')"
  shows "rbox_ok E wd' rb' \<and> rbox_data E rb' = rbox_data E rb \<and> (\<forall>w. wd' = Some w \<longrightarrow> wd_ok w) \<and>
    (\<forall>sl. slot_in wd sl \<longrightarrow> slot_in wd' sl)"
proof -
  obtain data where d: "cb_ok E data (rb_box rb)" using assms(1) by (auto simp: rbox_ok_def)
  obtain trust asked where t: "ask_group grp = (trust, asked)" by fastforce
  obtain ag b' told where c: "cb_serve E now nonce trust addrs (rb_box rb) = (ag, b', told)" by (metis surj_pair)
  have b': "cb_ok E data b'" using cb_serve_ok [OF d assms(3), of now trust addrs] c by simp
  have same: "rbox_data E rb = Inr data" by (rule rbox_data_ok [OF d])
  have dat: "rbox_data E rb' = Inr data" if "rb_box rb' = b'"
    using that b' rbox_data_ok by simp
  show ?thesis
  proof (cases "told = None \<or> wd = None")
    case True
    then have "rb' = rb\<lparr>rb_box := b'\<rparr>" "wd' = wd"
      using assms(4) by (auto simp: serve_box_def t c Let_def split: option.splits)
    then show ?thesis
      using assms(1,2) b' same dat by (auto simp: rbox_ok_def)
  next
    case False
    then obtain rs w where rw: "told = Some rs" "wd = Some w" by auto
    have "wd_ok w" "slot_in (Some w) (rb_slot rb)" using assms(1,2) rw by (auto simp: rbox_ok_def)
    then obtain sl w' where n: "on_new_guard rs (rb_slot rb) w = (Inr (), sl, w')" "wd_ok w'"
      "slot_in (Some w') (Some sl)" "wd_count w \<le> wd_count w'"
      by (rule on_new_guard_ok)
    then have "rb' = \<lparr>rb_box = b', rb_slot = Some sl\<rparr>" "wd' = Some w'"
      using assms(4) by (auto simp: serve_box_def t c rw Let_def)
    moreover have "slot_in (Some w') x" if "slot_in (Some w) x" for x
      using that n(4) by (auto simp: slot_in_def split: option.splits)
    ultimately show ?thesis
      using n same b' dat rw by (auto simp: rbox_ok_def)
  qed
qed

text \<open>What can happen to the boxes: a worker's turn, a bounce of a key cell, a retrieval.\<close>

datatype sv_event =
    SServe string which time bytes "nat \<Rightarrow> nat"
  | SBounce string which bool nat
  | SRead string request

definition bounce_box :: "bool \<Rightarrow> nat \<Rightarrow> cbox \<Rightarrow> cbox" where
  "bounce_box current n b =
     (if current then b\<lparr>cb_current := snd (guard_bounce n (cb_current b))\<rparr>
      else b\<lparr>cb_next := snd (guard_bounce n (cb_next b))\<rparr>)"

fun sv_step :: "env \<Rightarrow> sv_event \<Rightarrow> sstore \<Rightarrow> sstore" where
  "sv_step E (SServe i w now nonce addrs) s = sv_serve E now nonce addrs i w s"
| "sv_step E (SBounce i w current n) s =
     (case find_box i w s of None \<Rightarrow> s
      | Some (h, rb) \<Rightarrow> put_rbox i w (rb\<lparr>rb_box := bounce_box current n (rb_box rb)\<rparr>) h s)"
| "sv_step E (SRead i req) s = snd (sv_retrieve E i req s)"

fun sv_good :: "sv_event \<Rightarrow> bool" where
  "sv_good (SServe i w now nonce addrs) \<longleftrightarrow> length nonce = NONCE_LEN"
| "sv_good _ \<longleftrightarrow> True"

lemma put_rbox_fields:
  "sv_watchdog (put_rbox i w rb h s) = sv_watchdog s" "sv_pending (put_rbox i w rb h s) = sv_pending s"
  "sv_orphans (put_rbox i w rb h s) = sv_orphans s"
  by (simp_all add: put_rbox_def)

lemma sv_ok_watchdog:
  assumes "sv_ok E s" "\<forall>w. wd' = Some w \<longrightarrow> wd_ok w" "\<forall>sl. slot_in (sv_watchdog s) sl \<longrightarrow> slot_in wd' sl"
  shows "sv_ok E (s\<lparr>sv_watchdog := wd', sv_group := g'\<rparr>)"
  using assms by (simp add: sv_ok_def sheld_ok_def rbox_ok_def)

lemma sv_data_fields: "sv_data E (s\<lparr>sv_watchdog := wd', sv_group := g'\<rparr>) = sv_data E s"
  by (simp add: sv_data_def fun_eq_iff)

lemma sv_serve_same:
  assumes "sv_ok E s" "length nonce = NONCE_LEN"
  shows "sv_ok E (sv_serve E now nonce addrs i w s) \<and> sv_data E (sv_serve E now nonce addrs i w s) = sv_data E s"
proof (cases "find_box i w s")
  case (Some hr)
  obtain h rb where f: "find_box i w s = Some (h, rb)" using Some by (cases hr) auto
  obtain again rb' wd' g' where r: "serve_box E now nonce addrs rb (sv_watchdog s) (sv_group s) = (again, rb', wd', g')"
    by (metis surj_pair)
  have wd: "\<forall>w. sv_watchdog s = Some w \<longrightarrow> wd_ok w" using assms(1) by (simp add: sv_ok_def)
  note box = serve_box_ok [OF find_box_ok [OF assms(1) f] wd assms(2) r]
  let ?s1 = "s\<lparr>sv_watchdog := wd', sv_group := g'\<rparr>"
  have ok: "sv_ok E ?s1" by (rule sv_ok_watchdog [OF assms(1)]) (use box in blast)+
  have f1: "find_box i w ?s1 = Some (h, rb)" using f by (simp add: find_box_def)
  have eq: "sv_serve E now nonce addrs i w s = put_rbox i w rb' h ?s1"
    by (simp add: sv_serve_def f r put_rbox_def)
  show ?thesis
    unfolding eq using put_rbox_same [OF ok f1, of rb'] box by (simp add: sv_data_fields)
qed (simp add: sv_serve_def assms)

lemma sv_retrieve_same:
  assumes "sv_ok E s"
  shows "sv_ok E (snd (sv_retrieve E i req s)) \<and> sv_data E (snd (sv_retrieve E i req s)) = sv_data E s"
proof (cases "the_box i req s")
  case (Inr x)
  obtain h w rb where x: "the_box i req s = Inr (h, w, rb)" using Inr by (cases x) auto
  note f = the_box_find [OF x]
  obtain data where d: "cb_ok E data (rb_box rb)" "rbox_data E rb = Inr data"
    using rbox_ok_data [OF find_box_ok [OF assms f]] by blast
  let ?rb = "rb\<lparr>rb_box := (rb_box rb)\<lparr>cb_paused := False\<rparr>\<rparr>"
  have "cb_ok E data (rb_box ?rb)" using cb_ok_guards(3) [OF d(1)] by simp
  then have "rbox_ok E (sv_watchdog s) ?rb" "rbox_data E ?rb = rbox_data E rb"
    using find_box_ok [OF assms f] d(2) rbox_data_ok by (auto simp: rbox_ok_def)
  then show ?thesis
    using put_rbox_same [OF assms f] by (simp add: sv_retrieve_def x cb_ok_snapshot [OF d(1)])
qed (simp add: sv_retrieve_def assms)

lemma sv_bounce_same:
  assumes "sv_ok E s"
  shows "sv_ok E (sv_step E (SBounce i w c n) s) \<and> sv_data E (sv_step E (SBounce i w c n) s) = sv_data E s"
proof (cases "find_box i w s")
  case (Some hr)
  obtain h rb where f: "find_box i w s = Some (h, rb)" using Some by (cases hr) auto
  obtain data where d: "cb_ok E data (rb_box rb)" "rbox_data E rb = Inr data"
    using rbox_ok_data [OF find_box_ok [OF assms f]] by blast
  let ?rb = "rb\<lparr>rb_box := bounce_box c n (rb_box rb)\<rparr>"
  have "cb_ok E data (rb_box ?rb)" using cb_ok_guards(1,2) [OF d(1)] by (simp add: bounce_box_def)
  then have "rbox_ok E (sv_watchdog s) ?rb" "rbox_data E ?rb = rbox_data E rb"
    using find_box_ok [OF assms f] d(2) rbox_data_ok by (auto simp: rbox_ok_def)
  then show ?thesis using put_rbox_same [OF assms f] by (simp add: f)
qed (simp add: assms)

lemma sv_step_same:
  "sv_ok E s \<Longrightarrow> sv_good e \<Longrightarrow> sv_ok E (sv_step E e s) \<and> sv_data E (sv_step E e s) = sv_data E s"
  using sv_bounce_same by (cases e) (simp_all add: sv_serve_same sv_retrieve_same del: sv_step.simps(2))

lemma sv_steps_same:
  "sv_ok E s \<Longrightarrow> list_all sv_good es \<Longrightarrow> sv_ok E (fold (sv_step E) es s) \<and> sv_data E (fold (sv_step E) es s) = sv_data E s"
proof (induction es arbitrary: s)
  case (Cons e es)
  then show ?case using sv_step_same [of E s e] by simp
qed simp

section \<open>Saving keeps the invariant\<close>

lemma sv_ok_group: "sv_ok E (s\<lparr>sv_group := g\<rparr>) = sv_ok E s" "sv_data E (s\<lparr>sv_group := g\<rparr>) = sv_data E s"
  "sv_ok E (s\<lparr>sv_orphans := o'\<rparr>) = sv_ok E s" "sv_data E (s\<lparr>sv_orphans := o'\<rparr>) = sv_data E s"
  by (simp_all add: sv_ok_def sv_data_def fun_eq_iff)

lemma chunk_size_ok: "0 < DEFAULT_CHUNK_SIZE" "DEFAULT_CHUNK_SIZE < 2 ^ 30"
  by (simp_all add: DEFAULT_CHUNK_SIZE_def)

lemma next_key_asked: "next_key E trust k = Inl e \<Longrightarrow> trust = Some (Inl e)"
  by (auto simp: next_key_def split: option.splits sum.splits)

lemma make_box_ok:
  assumes "env_ok E" "draws_ok D"
  obtains r g where "make_box E fs D pc s = (r, s\<lparr>sv_group := g\<rparr>)"
    "\<And>rb. r = Inr rb \<Longrightarrow> \<exists>data. resolve fs pc = Some data \<and> cb_ok E data (rb_box rb) \<and> rb_slot rb = None"
    "\<And>data. resolve fs pc = Some data \<Longrightarrow> sv_group s = None \<Longrightarrow> (\<exists>rb. r = Inr rb) \<and> g = None"
proof -
  obtain trust g' where t: "ask_group (sv_group s) = (trust, g')" by fastforce
  have none: "trust = None \<and> g' = None" if "sv_group s = None" using t that by (simp add: ask_group_def)
  let ?new = "map_res (\<lambda>b. \<lparr>rb_box = b, rb_slot = None\<rparr>)" and ?n = "sv_watchdog s \<noteq> None"
  have bytes: "(\<forall>b. cb_new E trust D DEFAULT_CHUNK_SIZE 0 ?n d = Inr b \<longrightarrow> cb_ok E d b) \<and>
      (trust = None \<longrightarrow> (\<exists>b. cb_new E trust D DEFAULT_CHUNK_SIZE 0 ?n d = Inr b))" for d
  proof (cases "next_key E trust (d_key D)")
    case (Inl e)
    then show ?thesis using next_key_asked [OF Inl] chunk_size_ok by (simp add: cb_new_def cb_build_def)
  next
    case (Inr k)
    obtain b where b: "cb_new E trust D DEFAULT_CHUNK_SIZE 0 ?n d = Inr b"
      "cb_rep E b (d_key D) k (pieces_to (max (length d) 1) DEFAULT_CHUNK_SIZE d)"
      using cb_new_ok [OF assms Inr chunk_size_ok, of 0 ?n d] by metis
    have "cb_ok E d b"
      using cb_rep_ok [OF assms(1) b(2)] pieces_to_facts(1) [OF chunk_size_ok(1), of d "max (length d) 1"] by simp
    then show ?thesis using b(1) by (metis sum.inject(2))
  qed
  have files: "(\<forall>b. cb_from_file E fs trust D DEFAULT_CHUNK_SIZE 0 ?n p = Inr b \<longrightarrow> cb_ok E d b) \<and>
      (trust = None \<longrightarrow> (\<exists>b. cb_from_file E fs trust D DEFAULT_CHUNK_SIZE 0 ?n p = Inr b))" if "fs p = Some d" for p d
  proof (cases "next_key E trust (d_key D)")
    case (Inl e)
    then show ?thesis using that next_key_asked [OF Inl] by (simp add: cb_from_file_def cb_build_def)
  next
    case (Inr k)
    obtain b ps where b: "cb_from_file E fs trust D DEFAULT_CHUNK_SIZE 0 ?n p = Inr b" "cb_rep E b (d_key D) k ps" "concat ps = d"
      using cb_from_file_ok [of E D trust k DEFAULT_CHUNK_SIZE fs p d 0 ?n, OF assms Inr chunk_size_ok \<open>fs p = Some d\<close>]
      by metis
    have "cb_ok E d b" using cb_rep_ok [OF assms(1) b(2)] b(3) by simp
    then show ?thesis using b(1) by (metis sum.inject(2))
  qed
  note result = that
  have made: thesis if X: "\<forall>b. X = Inr b \<longrightarrow> cb_ok E d b" "trust = None \<longrightarrow> (\<exists>b. X = Inr b)"
    and d: "resolve fs pc = Some d" and eq: "make_box E fs D pc s = (?new X, s\<lparr>sv_group := g'\<rparr>)" for X d
  proof (rule result [OF eq])
    show "\<exists>data. resolve fs pc = Some data \<and> cb_ok E data (rb_box rb) \<and> rb_slot rb = None" if "?new X = Inr rb" for rb
      using that X(1) d by (auto simp: map_res_iff)
    show "(\<exists>rb. ?new X = Inr rb) \<and> g' = None" if "sv_group s = None"
      using none [OF that] X(2) by auto
  qed
  show thesis
  proof (cases pc)
    case (Bytes d)
    show thesis
      by (rule made [OF conjunct1 [OF bytes] conjunct2 [OF bytes], of d])
        (simp_all add: Bytes make_box_def t resolve_def)
  next
    case (FromFile p)
    show thesis
    proof (cases "fs p")
      case None
      then show thesis
        using that [of "Inl FileNotFoundError" "sv_group s"] FromFile by (simp add: make_box_def t resolve_def)
    next
      case (Some d)
      show thesis
        by (rule made [OF conjunct1 [OF files [OF Some]] conjunct2 [OF files [OF Some]]])
          (simp_all add: FromFile make_box_def t resolve_def Some)
    qed
  qed
qed

lemma guard_regions_ok: "guard_ok g \<Longrightarrow> \<exists>r. guard_regions g = Inr r"
proof -
  assume "guard_ok g"
  then have "mapM cell_regions (g_cells g) = Inr (map (\<lambda>c. case cell_regions c of Inl _ \<Rightarrow> [] | Inr r \<Rightarrow> r) (g_cells g))"
    by (intro mapM_Inr) (auto simp: guard_ok_def list_all_iff cell_ok_def cell_regions_def)
  then show ?thesis by (simp add: guard_regions_def)
qed

lemma cb_regions_ok:
  assumes "cb_ok E d b"
  shows "\<exists>rs. cb_regions b = Inr rs"
proof -
  have g: "guard_ok (cb_current b)" "guard_ok (cb_next b)" and p: "list_all pool_ok (cb_pools b)"
    using assms by (auto simp: cb_ok_def cb_rep_def guard_key_def chunks_hold_def)
  have "mapM pool_region (cb_pools b) = Inr (map (\<lambda>p. case pool_region p of Inl _ \<Rightarrow> (0, 0) | Inr r \<Rightarrow> r) (cb_pools b))"
    using p by (intro mapM_Inr) (auto simp: list_all_iff pool_ok_def pool_region_def)
  then show ?thesis
    using guard_regions_ok [OF g(1)] guard_regions_ok [OF g(2)] by (auto simp: cb_regions_def)
qed

lemma slot_in_more: "wd_count w \<le> wd_count w' \<Longrightarrow> slot_in (Some w) sl \<Longrightarrow> slot_in (Some w') sl"
  by (auto simp: slot_in_def split: option.splits)

lemma register_boxes_ok:
  assumes "sv_ok E s" "\<forall>b \<in> set bs. \<exists>d. cb_ok E d (rb_box b)"
  obtains r wd' where "register_boxes bs s = (r, s\<lparr>sv_watchdog := wd'\<rparr>)" "sv_ok E (s\<lparr>sv_watchdog := wd'\<rparr>)"
    "r = Inr () \<or> r = Inl RuntimeError \<and> wd' = sv_watchdog s \<and> sv_watchdog s \<noteq> None"
proof (cases "sv_watchdog s")
  case None
  then have eq: "s\<lparr>sv_watchdog := None\<rparr> = s" by (cases s) simp
  show thesis
  proof (rule that)
    show "register_boxes bs s = (Inr (), s\<lparr>sv_watchdog := None\<rparr>)" unfolding eq by (simp add: register_boxes_def None)
    show "sv_ok E (s\<lparr>sv_watchdog := None\<rparr>)" unfolding eq by (rule assms(1))
  qed simp
next
  case (Some wd)
  have "mapM (\<lambda>b. cb_regions (rb_box b)) bs = Inr (map (\<lambda>b. case cb_regions (rb_box b) of Inl _ \<Rightarrow> [] | Inr r \<Rightarrow> r) bs)"
    using assms(2) cb_regions_ok by (intro mapM_Inr) fastforce
  then obtain rss where rs: "mapM (\<lambda>b. cb_regions (rb_box b)) bs = Inr rss" by blast
  have ok: "wd_ok wd" using assms(1) Some by (simp add: sv_ok_def)
  note add = add_regions_ok [OF ok, of "concat rss"]
  let ?wd = "snd (add_regions (concat rss) wd)"
  have cnt: "wd_count wd \<le> wd_count ?wd" and res: "fst (add_regions (concat rss) wd) = Inr () \<or>
      fst (add_regions (concat rss) wd) = Inl RuntimeError \<and> ?wd = wd"
    using add by (cases "wd_count wd + length (concat rss) \<le> MAX_REGIONS"; simp)+
  have "sv_ok E (s\<lparr>sv_watchdog := Some ?wd, sv_group := sv_group s\<rparr>)"
    by (rule sv_ok_watchdog [OF assms(1)]) (use add cnt Some in \<open>auto intro: slot_in_more\<close>)
  then have "sv_ok E (s\<lparr>sv_watchdog := Some ?wd\<rparr>)" by simp
  then show thesis
    using that [of "fst (add_regions (concat rss) wd)" "Some ?wd"] res Some
    by (auto simp: register_boxes_def rs split_def)
qed

definition saved_data :: "disk \<Rightarrow> split_result \<Rightarrow> which \<times> (which \<Rightarrow> bytes res option)" where
  "saved_data fs r = (sr_reconstruct_from r, \<lambda>w. map_option Inr (resolve fs (sr_piece r w)))"

lemma sv_hold_ok:
  assumes "env_ok E" "\<And>w. draws_ok (D w)" "sv_ok E s"
  obtains res s' where "sv_hold E fs D i r name s = (res, s')" "sv_ok E s'"
    "case res of Inl e \<Rightarrow> sv_held s' = sv_held s
     | Inr x \<Rightarrow> x = i \<and> sv_data E s' = (sv_data E s)(i \<mapsto> saved_data fs r)"
    "sv_group s = None \<Longrightarrow> (\<And>w. resolve fs (sr_piece r w) \<noteq> None) \<Longrightarrow> sv_group s' = None \<and>
       (res = Inr i \<and> sv_orphans s' = sv_orphans s \<or>
        res = Inl RuntimeError \<and> sv_watchdog s' = sv_watchdog s \<and> sv_watchdog s \<noteq> None \<and>
        length (sv_orphans s') = length (sv_orphans s) + 3)"
proof -
  note mk = make_box_ok [OF assms(1,2), where fs = fs]
  obtain r1 g1 where m1: "make_box E fs (D Content) (sr_content r) s = (r1, s\<lparr>sv_group := g1\<rparr>)"
    "\<And>rb. r1 = Inr rb \<Longrightarrow> \<exists>data. resolve fs (sr_content r) = Some data \<and> cb_ok E data (rb_box rb) \<and> rb_slot rb = None"
    "\<And>data. resolve fs (sr_content r) = Some data \<Longrightarrow> sv_group s = None \<Longrightarrow> (\<exists>rb. r1 = Inr rb) \<and> g1 = None"
    by (rule mk [of Content "sr_content r" s]) blast
  let ?s1 = "s\<lparr>sv_group := g1\<rparr>"
  obtain r2 g2 where m2: "make_box E fs (D Structure) (sr_structure r) ?s1 = (r2, ?s1\<lparr>sv_group := g2\<rparr>)"
    "\<And>rb. r2 = Inr rb \<Longrightarrow> \<exists>data. resolve fs (sr_structure r) = Some data \<and> cb_ok E data (rb_box rb) \<and> rb_slot rb = None"
    "\<And>data. resolve fs (sr_structure r) = Some data \<Longrightarrow> sv_group ?s1 = None \<Longrightarrow> (\<exists>rb. r2 = Inr rb) \<and> g2 = None"
    by (rule mk [of Structure "sr_structure r" ?s1]) blast
  let ?s2 = "s\<lparr>sv_group := g2\<rparr>"
  obtain r3 g3 where m3: "make_box E fs (D Metadata) (Bytes (sr_metadata r)) ?s2 = (r3, ?s2\<lparr>sv_group := g3\<rparr>)"
    "\<And>rb. r3 = Inr rb \<Longrightarrow> \<exists>data. resolve fs (Bytes (sr_metadata r)) = Some data \<and> cb_ok E data (rb_box rb) \<and> rb_slot rb = None"
    "\<And>data. resolve fs (Bytes (sr_metadata r)) = Some data \<Longrightarrow> sv_group ?s2 = None \<Longrightarrow> (\<exists>rb. r3 = Inr rb) \<and> g3 = None"
    by (rule mk [of Metadata "Bytes (sr_metadata r)" ?s2]) blast
  let ?s3 = "s\<lparr>sv_group := g3\<rparr>"
  show thesis
  proof (cases "\<exists>b1 b2 b3. r1 = Inr b1 \<and> r2 = Inr b2 \<and> r3 = Inr b3")
    case False
    have "\<exists>e g bs. sv_hold E fs D i r name s = (Inl e, orphan bs (s\<lparr>sv_group := g\<rparr>))"
    proof (cases r1)
      case (Inl e)
      then have "sv_hold E fs D i r name s = (Inl e, orphan [] (s\<lparr>sv_group := g1\<rparr>))"
        by (simp add: sv_hold_def m1(1) orphan_def)
      then show ?thesis by blast
    next
      case b1: (Inr b1)
      show ?thesis
      proof (cases r2)
        case (Inl e)
        then have "sv_hold E fs D i r name s = (Inl e, orphan [b1] (s\<lparr>sv_group := g2\<rparr>))"
          by (simp add: sv_hold_def m1(1) m2(1) b1)
        then show ?thesis by blast
      next
        case b2: (Inr b2)
        then obtain e where "r3 = Inl e" using False b1 by (cases r3) auto
        then have "sv_hold E fs D i r name s = (Inl e, orphan [b1, b2] (s\<lparr>sv_group := g3\<rparr>))"
          using m1(1) m2(1) m3(1) b1 b2 by (simp add: sv_hold_def)
        then show ?thesis by blast
      qed
    qed
    then obtain e g bs where h: "sv_hold E fs D i r name s = (Inl e, orphan bs (s\<lparr>sv_group := g\<rparr>))" by blast
    have "\<not> (sv_group s = None \<and> (\<forall>w. resolve fs (sr_piece r w) \<noteq> None))"
    proof
      assume a: "sv_group s = None \<and> (\<forall>w. resolve fs (sr_piece r w) \<noteq> None)"
      then have w: "resolve fs (sr_piece r w) \<noteq> None" for w by blast
      from w [of Content] w [of Structure] w [of Metadata] a False m1(3) m2(3) m3(3) show False
        by (auto simp: sr_piece_def)
    qed
    then show thesis
      by (intro that [OF h]) (use assms(3) in \<open>auto simp: orphan_def sv_ok_group\<close>)
  next
    case True
    then obtain b1 b2 b3 where b: "r1 = Inr b1" "r2 = Inr b2" "r3 = Inr b3" by blast
    obtain d1 d2 where d: "resolve fs (sr_content r) = Some d1" "cb_ok E d1 (rb_box b1)" "rb_slot b1 = None"
      "resolve fs (sr_structure r) = Some d2" "cb_ok E d2 (rb_box b2)" "rb_slot b2 = None"
      "cb_ok E (sr_metadata r) (rb_box b3)" "rb_slot b3 = None"
      using m1(2) [OF b(1)] m2(2) [OF b(2)] m3(2) [OF b(3)] by (auto simp: resolve_def)
    have boxes: "\<forall>b \<in> set [b1, b2, b3]. \<exists>d. cb_ok E d (rb_box b)" using d by auto
    have ok3: "sv_ok E ?s3" using assms(3) by (simp add: sv_ok_group)
    obtain rr wd' where reg: "register_boxes [b1, b2, b3] ?s3 = (rr, ?s3\<lparr>sv_watchdog := wd'\<rparr>)"
      "sv_ok E (?s3\<lparr>sv_watchdog := wd'\<rparr>)"
      "rr = Inr () \<or> rr = Inl RuntimeError \<and> wd' = sv_watchdog ?s3 \<and> sv_watchdog ?s3 \<noteq> None"
      by (rule register_boxes_ok [OF ok3 boxes])
    let ?s4 = "?s3\<lparr>sv_watchdog := wd'\<rparr>"
    have group: "g3 = None" if "sv_group s = None"
      using that m1(3) m2(3) m3(3) d(1,4) by (simp add: resolve_def)
    have sz: "piece_size fs (if sr_reconstruct_from r = Content then sr_content r else sr_structure r) =
        Inr (length (if sr_reconstruct_from r = Content then d1 else d2))"
      using d(1,4) by (auto simp: piece_size_def resolve_def getsize_def split: piece.splits)
    show thesis
    proof (cases rr)
      case (Inl e)
      have "sv_hold E fs D i r name s = (Inl e, orphan [b1, b2, b3] ?s4)"
        using m1(1) m2(1) m3(1) b reg(1) Inl by (simp add: sv_hold_def)
      then show thesis
        by (rule that) (use reg(2,3) Inl group in \<open>auto simp: orphan_def sv_ok_group\<close>)
    next
      case (Inr u)
      define h where "h = \<lparr>sh_boxes = [(Content, b1), (Structure, b2), (Metadata, b3)],
        sh_reconstruct_from = sr_reconstruct_from r,
        sh_original_size = length (if sr_reconstruct_from r = Content then d1 else d2), sh_name = name\<rparr>"
      let ?s5 = "?s4\<lparr>sv_held := dict_set i h (sv_held ?s4)\<rparr>"
      have eq: "sv_hold E fs D i r name s = (Inr i, ?s5)"
        using m1(1) m2(1) m3(1) b reg(1) Inr sz by (simp add: sv_hold_def h_def)
      have get: "dict_get (sh_boxes h) w = Some (case w of Content \<Rightarrow> b1 | Structure \<Rightarrow> b2 | Metadata \<Rightarrow> b3)" for w
        by (cases w) (simp_all add: h_def dict_get_def)
      have hok: "sheld_ok E wd' h"
        using d get by (auto simp: sheld_ok_def rbox_ok_def slot_in_def dict_keys_def h_def
            split: which.splits option.splits)
      have dat: "rbox_data E b1 = Inr d1" "rbox_data E b2 = Inr d2" "rbox_data E b3 = Inr (sr_metadata r)"
        using d rbox_data_ok by blast+
      have "map_option (rbox_data E) (dict_get (sh_boxes h) w) = map_option Inr (resolve fs (sr_piece r w))" for w
        using d dat by (cases w) (simp_all add: get sr_piece_def resolve_def)
      then have hd: "sheld_data E h = saved_data fs r"
        by (simp add: sheld_data_def saved_data_def h_def [THEN arg_cong, of sh_reconstruct_from])
      show thesis
      proof (rule that [OF eq])
        show "sv_ok E ?s5" using reg(2) hok by (simp add: sv_ok_def)
        show "case Inr i of Inl e \<Rightarrow> sv_held ?s5 = sv_held s
            | Inr x \<Rightarrow> x = i \<and> sv_data E ?s5 = (sv_data E s)(i \<mapsto> saved_data fs r)"
          using hd by (simp add: sv_data_def fun_eq_iff)
      qed (use group in simp)
    qed
  qed
qed

section \<open>The store interface\<close>

text \<open>What \<open>retrieve\<close> gives for a saved file.\<close>

lemma saved_read:
  assumes "resolve fs (sr_piece r (sr_reconstruct_from r)) = Some raw"
  shows "sv_read Full (Some (saved_data fs r)) = Inr raw"
  using assms by (simp add: sv_read_def saved_data_def)

lemma sv_read_data: "sv_data E s = sv_data E t \<Longrightarrow> fst (sv_retrieve E i req s) = fst (sv_retrieve E i req t)"
  by (simp add: sv_retrieve_out)

lemma sv_forget_same:
  assumes "sv_ok E s"
  shows "sv_ok E (fst (sv_forget i s)) \<and> sv_data E (fst (sv_forget i s)) = (sv_data E s)(i := None)"
  using assms by (auto simp: sv_forget_def sv_ok_def sv_data_def fun_eq_iff split: option.splits)

end
