(* ===== verification/SecureRetrieval.thy ===== *)
theory SecureRetrieval
  imports SecureSystem "HOL-Library.Sublist"
begin

text \<open>
  What the secure store promises: files come back, wrapped files decrypt to them, a key leaves the
  process only after the wrapped file is durable, tokens work once and in time, and after death
  nothing is left. The watchdog's table as the rotation callbacks keep it.
\<close>

section \<open>The frames of a wrapped file\<close>

lemma of_be32_be32: "n < 2 ^ 32 \<Longrightarrow> of_be32 (be32 n) = n"
proof -
  assume n: "n < 2 ^ 32"
  have d: "n div 65536 = n div 256 div 256" "n div 16777216 = n div 256 div 256 div 256"
    by (simp_all flip: div_mult2_eq)
  have "of_be32 (be32 n) = 256 * (256 * (256 * (n div 16777216 mod 256) + n div 65536 mod 256) + n div 256 mod 256) + n mod 256"
    by (simp add: of_be32_def be32_def unat_of_nat del: mult_Suc)
  also have "n div 16777216 mod 256 = n div 16777216" using n by (intro mod_less) (simp add: less_mult_imp_div_less)
  also have "256 * (n div 16777216) + n div 65536 mod 256 = n div 65536" unfolding d by simp
  also have "256 * (n div 65536) + n div 256 mod 256 = n div 256" unfolding d by simp
  finally show ?thesis by simp
qed

lemma length_be32 [simp]: "length (be32 n) = 4"
  by (simp add: be32_def)

fun frames :: "env \<Rightarrow> bytes \<Rightarrow> (nat \<Rightarrow> bytes) \<Rightarrow> nat \<Rightarrow> bytes list \<Rightarrow> bytes" where
  "frames E key nonces i [] = []"
| "frames E key nonces i (p # ps) =
     (case wrap_piece E key (nonces i) p of Inl _ \<Rightarrow> [] | Inr f \<Rightarrow> f) @ frames E key nonces (Suc i) ps"

text \<open>Key and nonces as the code draws them, and pieces no longer than a chunk may be.\<close>

definition wrap_ok :: "env \<Rightarrow> bytes \<Rightarrow> (nat \<Rightarrow> bytes) \<Rightarrow> bool" where
  "wrap_ok E key nonces \<longleftrightarrow> env_ok E \<and> length key = 32 \<and> (\<forall>i. length (nonces i) = NONCE_LEN)"

lemma wrap_pieceE:
  assumes "wrap_ok E key nonces" "length p < 2 ^ 30"
  obtains ct where "wrap_piece E key (nonces i) p = Inr (be32 (length ct) @ nonces i @ ct)"
    "aes_decrypt E key (nonces i) ct = Inr p" "length ct < 2 ^ 32"
proof -
  have "length key = 32" "length (nonces i) = 12" "length p < 2 ^ 31" "aead_ok E"
    using assms by (auto simp: wrap_ok_def NONCE_LEN_def env_okD)
  then obtain ct where ct: "aes_encrypt E key (nonces i) p = Inr ct" "length ct = length p + 16"
    "aes_decrypt E key (nonces i) ct = Inr p" by (metis aead_okE)
  then have "length ct < 2 ^ 32" using assms(2) by simp
  then show thesis using that ct by (simp add: wrap_piece_def to_be32_def)
qed

lemma unwrap_frame:
  assumes "length nonce = NONCE_LEN" "aes_decrypt E key nonce ct = Inr p" "length ct < 2 ^ 32"
  shows "unwrap_loop E key (be32 (length ct) @ nonce @ ct @ rest) dst = unwrap_loop E key rest (dst @ p)"
proof -
  have "be32 (length ct) \<noteq> []" by (simp add: be32_def)
  then show ?thesis
    using assms by (subst unwrap_loop.simps) (simp add: of_be32_be32 Let_def)
qed

lemma unwrap_frames:
  assumes "wrap_ok E key nonces" "\<forall>p \<in> set ps. length p < 2 ^ 30"
  shows "unwrap_loop E key (frames E key nonces i ps) dst = (Inr (), dst @ concat ps)"
  using assms(2)
proof (induction ps arbitrary: i dst)
  case Nil
  then show ?case by (simp add: unwrap_loop.simps)
next
  case (Cons p ps)
  obtain ct where ct: "wrap_piece E key (nonces i) p = Inr (be32 (length ct) @ nonces i @ ct)"
    "aes_decrypt E key (nonces i) ct = Inr p" "length ct < 2 ^ 32"
    using wrap_pieceE [OF assms(1), of p] Cons.prems by auto
  have "length (nonces i) = NONCE_LEN" using assms(1) by (simp add: wrap_ok_def)
  from unwrap_frame [OF this ct(2,3)] Cons show ?case by (simp add: ct(1))
qed

section \<open>Writing them\<close>

lemma io_write_out:
  assumes "w_files w dest = Some d"
  shows "io_write dest b w = (if w_fails w (w_ops w) then (Inl OSError, w\<lparr>w_ops := w_ops w + 1\<rparr>)
     else (Inr (), w\<lparr>w_ops := w_ops w + 1, w_files := (w_files w)(dest \<mapsto> d @ b)\<rparr>))"
  using assms by (simp add: io_write_def io_do_def Let_def)

text \<open>However far a stream gets, what it has written is the frames of the first pieces.\<close>

definition wrap_emit ::
  "env \<Rightarrow> (nat \<Rightarrow> bytes) \<Rightarrow> bytes \<Rightarrow> string \<Rightarrow> nat \<Rightarrow> bytes \<Rightarrow> world \<Rightarrow> unit res \<times> world" where
  "wrap_emit E nonces key dest i piece w =
     (case wrap_piece E key (nonces i) piece of Inl e \<Rightarrow> (Inl e, w) | Inr frame \<Rightarrow> io_write dest frame w)"

lemma emit_frames:
  assumes "wrap_ok E key nonces" "\<forall>p \<in> set ps. length p < 2 ^ 30" "w_files w dest = Some d"
  shows "\<exists>r w' n. emit_all (wrap_emit E nonces key dest) i ps w = (r, w') \<and>
    w_files w' = (w_files w)(dest \<mapsto> d @ frames E key nonces i (take n ps)) \<and>
    w_durable w' = w_durable w \<and> w_fails w' = w_fails w \<and>
    (r = Inr () \<and> length ps \<le> n \<or> r = Inl OSError \<and> (\<exists>m. w_fails w m))"
  using assms(2,3)
proof (induction ps arbitrary: i w d)
  case Nil
  then show ?case by (intro exI [of _ "Inr ()"] exI [of _ w] exI [of _ 0]) (simp add: fun_upd_idem)
next
  case (Cons p ps)
  obtain ct where ct: "wrap_piece E key (nonces i) p = Inr (be32 (length ct) @ nonces i @ ct)"
    using wrap_pieceE [OF assms(1), of p i] Cons.prems(1) by auto
  let ?f = "be32 (length ct) @ nonces i @ ct"
  show ?case
  proof (cases "w_fails w (w_ops w)")
    case True
    then show ?thesis
      using Cons.prems(2)
      by (intro exI [of _ "Inl OSError"] exI [of _ "w\<lparr>w_ops := w_ops w + 1\<rparr>"] exI [of _ 0])
        (auto simp: wrap_emit_def ct io_write_out fun_upd_idem)
  next
    case False
    let ?w = "w\<lparr>w_ops := w_ops w + 1, w_files := (w_files w)(dest \<mapsto> d @ ?f)\<rparr>"
    have step: "wrap_emit E nonces key dest i p w = (Inr (), ?w)"
      using False Cons.prems(2) by (simp add: wrap_emit_def ct io_write_out)
    have d: "w_files ?w dest = Some (d @ ?f)" by simp
    have "\<forall>p \<in> set ps. length p < 2 ^ 30" using Cons.prems(1) by simp
    from Cons.IH [OF this d, of "Suc i"] obtain r w' n where
      IH: "emit_all (wrap_emit E nonces key dest) (Suc i) ps ?w = (r, w')"
      "w_files w' = (w_files ?w)(dest \<mapsto> (d @ ?f) @ frames E key nonces (Suc i) (take n ps))"
      "w_durable w' = w_durable ?w" "w_fails w' = w_fails ?w"
      "r = Inr () \<and> length ps \<le> n \<or> r = Inl OSError \<and> (\<exists>m. w_fails ?w m)" by blast
    then show ?thesis
      by (intro exI [of _ r] exI [of _ w'] exI [of _ "Suc n"]) (auto simp: step ct)
  qed
qed

lemma stream_to_wrapped_out:
  assumes "wrap_ok E key nonces" "cb_ok E data b" "w_files w dest = Some []"
  obtains r w' blob m where
    "cb_stream_to_wrapped E nonces key (io_write dest) w b = (r, w', b\<lparr>cb_paused := False\<rparr>)"
    "w_files w' = (w_files w)(dest \<mapsto> blob)" "unwrap_loop E key blob [] = (Inr (), take m data)"
    "w_durable w' = w_durable w" "w_fails w' = w_fails w"
    "r = Inr () \<and> length data \<le> m \<or> r = Inl OSError \<and> (\<exists>m. w_fails w m)"
proof -
  obtain kc kn ps where rep: "cb_rep E b kc kn ps" "concat ps = data" and E: "env_ok E"
    using assms(2) by (auto simp: cb_ok_def)
  let ?qs = "trim (cb_data_len b) ps"
  have n: "cb_data_len b = length (concat ps)" and len: "\<forall>p \<in> set ps. length p < 2 ^ 30"
    using rep(1) by (simp_all add: cb_rep_def)
  have all: "concat ?qs = data" using trim_concat [of "cb_data_len b" ps] n rep(2) by simp
  have bound: "\<forall>p \<in> set ?qs. length p < 2 ^ 30" using trim_bound len by (metis le_less_trans)
  from emit_frames [OF assms(1) this assms(3), of 0] obtain r w' k where
    out: "emit_all (wrap_emit E nonces key dest) 0 ?qs w = (r, w')"
    "w_files w' = (w_files w)(dest \<mapsto> frames E key nonces 0 (take k ?qs))"
    "w_durable w' = w_durable w" "w_fails w' = w_fails w"
    "r = Inr () \<and> length ?qs \<le> k \<or> r = Inl OSError \<and> (\<exists>m. w_fails w m)" by auto
  have eq: "cb_stream_to_wrapped E nonces key (io_write dest) w b = (r, w', b\<lparr>cb_paused := False\<rparr>)"
    using cb_stream_rep [OF E rep(1), of "wrap_emit E nonces key dest" w] out(1)
    unfolding cb_stream_to_wrapped_def wrap_emit_def [abs_def] by simp
  have "\<forall>p \<in> set (take k ?qs). length p < 2 ^ 30" using bound by (meson in_set_takeD)
  from unwrap_frames [OF assms(1) this] have unw: "unwrap_loop E key (frames E key nonces 0 (take k ?qs)) [] = (Inr (), concat (take k ?qs))" by simp
  have "concat ?qs = concat (take k ?qs) @ concat (drop k ?qs)" by (simp flip: concat_append)
  then have part: "concat (take k ?qs) = take (length (concat (take k ?qs))) data" using all by (metis append_eq_conv_conj)
  have whole: "length data \<le> length (concat (take k ?qs))" if "length ?qs \<le> k" using that all by simp
  show thesis
  proof (rule that [OF eq out(2) _ out(3,4), of "length (concat (take k ?qs))"])
    show "unwrap_loop E key (frames E key nonces 0 (take k ?qs)) [] = (Inr (), take (length (concat (take k ?qs))) data)"
      using unw by (simp only: part [symmetric])
    show "r = Inr () \<and> length data \<le> length (concat (take k ?qs)) \<or> r = Inl OSError \<and> (\<exists>m. w_fails w m)"
      using out(5) whole by blast
  qed
qed

section \<open>The ways out of the store\<close>

lemma sv_read_box:
  assumes "sv_ok E s" "sv_read req (sv_data E s i) = Inr data"
  obtains h pc rb where "the_box i req s = Inr (h, pc, rb)" "cb_ok E data (rb_box rb)" "find_box i pc s = Some (h, rb)"
proof -
  obtain h pc rb where b: "the_box i req s = Inr (h, pc, rb)" "rbox_data E rb = Inr data"
    using assms(2) by (auto simp: sv_read_def sv_data_def sheld_data_def the_box_def split: option.splits request.splits)
  note f = the_box_find [OF b(1)]
  obtain d where "cb_ok E d (rb_box rb)" "rbox_data E rb = Inr d"
    using rbox_ok_data [OF find_box_ok [OF assms(1) f]] by blast
  then show thesis using that [OF b(1) _ f] b(2) by simp
qed

lemma put_unpaused_same:
  assumes "sv_ok E s" "find_box i w s = Some (h, rb)" "cb_ok E data (rb_box rb)"
  shows "sv_ok E (put_rbox i w (rb\<lparr>rb_box := (rb_box rb)\<lparr>cb_paused := p\<rparr>\<rparr>) h s) \<and>
    sv_data E (put_rbox i w (rb\<lparr>rb_box := (rb_box rb)\<lparr>cb_paused := p\<rparr>\<rparr>) h s) = sv_data E s"
proof -
  let ?rb = "rb\<lparr>rb_box := (rb_box rb)\<lparr>cb_paused := p\<rparr>\<rparr>"
  have ok: "cb_ok E data (rb_box ?rb)" using cb_ok_guards(3) [OF assms(3)] by simp
  then have "rbox_ok E (sv_watchdog s) ?rb" using find_box_ok [OF assms(1,2)] by (auto simp: rbox_ok_def)
  then show ?thesis using put_rbox_same [OF assms(1,2)] rbox_data_ok [OF ok] rbox_data_ok [OF assms(3)] by metis
qed

lemma io_create_out:
  "io_create dest w = (if w_fails w (w_ops w) then (Inl OSError, w\<lparr>w_ops := w_ops w + 1\<rparr>)
     else (Inr (), w\<lparr>w_ops := w_ops w + 1, w_files := (w_files w)(dest \<mapsto> [])\<rparr>))"
  by (simp add: io_create_def io_do_def Let_def)

text \<open>A step after the stream that writes no file.\<close>

definition finishes :: "(world \<Rightarrow> unit res \<times> world) \<Rightarrow> bool" where
  "finishes f \<longleftrightarrow> (\<forall>w. w_files (snd (f w)) = w_files w \<and> w_fails (snd (f w)) = w_fails w \<and>
     (fst (f w) = Inr () \<or> fst (f w) = Inl OSError \<and> (\<exists>n. w_fails w n)))"

text \<open>
  The whole outcome of a wrapped retrieval: at most the destination changes; whatever was written of
  it decrypts to a beginning of the data, and to all of it when nothing was raised.
\<close>

lemma wrapped_to_out:
  assumes "wrap_ok E key nonces" "sv_ok E s" "sv_read req (sv_data E s i) = Inr data" "finishes finish"
  obtains r w' s' where "wrapped_to E nonces key dest finish i req w s = (r, w', s')"
    "sv_ok E s'" "sv_data E s' = sv_data E s" "sv_pending s' = sv_pending s"
    "r = Inl OSError \<and> (\<exists>n. w_fails w n) \<or> r = Inr () \<and> (\<exists>w1. finish w1 = (Inr (), w'))"
    "r = Inl OSError \<and> w_files w' = w_files w \<or>
      (\<exists>blob m. w_files w' = (w_files w)(dest \<mapsto> blob) \<and> unwrap_loop E key blob [] = (Inr (), take m data) \<and>
        (r = Inr () \<longrightarrow> length data \<le> m))"
proof -
  obtain h pc rb where b: "the_box i req s = Inr (h, pc, rb)" "cb_ok E data (rb_box rb)" "find_box i pc s = Some (h, rb)"
    by (rule sv_read_box [OF assms(2,3)])
  let ?s = "put_rbox i pc (rb\<lparr>rb_box := (rb_box rb)\<lparr>cb_paused := False\<rparr>\<rparr>) h s"
  have same: "sv_ok E ?s" "sv_data E ?s = sv_data E s" "sv_pending ?s = sv_pending s"
    using put_unpaused_same [OF assms(2) b(3,2)] by (simp_all add: put_rbox_fields)
  show thesis
  proof (cases "w_fails w (w_ops w)")
    case True
    show thesis
      by (rule that [of "Inl OSError" "w\<lparr>w_ops := w_ops w + 1\<rparr>" s])
        (use True assms(2) in \<open>auto simp: wrapped_to_def b(1) io_create_out\<close>)
  next
    case False
    let ?w1 = "w\<lparr>w_ops := w_ops w + 1, w_files := (w_files w)(dest \<mapsto> [])\<rparr>"
    have d: "w_files ?w1 dest = Some []" by simp
    have c: "io_create dest w = (Inr (), ?w1)" using False by (simp add: io_create_out)
    obtain r w2 blob m where st:
      "cb_stream_to_wrapped E nonces key (io_write dest) ?w1 (rb_box rb) = (r, w2, (rb_box rb)\<lparr>cb_paused := False\<rparr>)"
      "w_files w2 = (w_files ?w1)(dest \<mapsto> blob)" "unwrap_loop E key blob [] = (Inr (), take m data)"
      "w_durable w2 = w_durable ?w1" "w_fails w2 = w_fails ?w1"
      "r = Inr () \<and> length data \<le> m \<or> r = Inl OSError \<and> (\<exists>m. w_fails ?w1 m)"
      by (rule stream_to_wrapped_out [OF assms(1) b(2) d])
    have files: "w_files w2 = (w_files w)(dest \<mapsto> blob)" using st(2) by simp
    show thesis
    proof (cases r)
      case (Inl e)
      show thesis
        by (rule that [of r w2 ?s]) (use Inl st files same in \<open>auto simp: wrapped_to_def b(1) c\<close>)
    next
      case (Inr u)
      obtain rf w3 where fin: "finish w2 = (rf, w3)" by fastforce
      have f: "w_files w3 = w_files w2" "rf = Inr () \<or> rf = Inl OSError \<and> (\<exists>n. w_fails w n)"
        using assms(4) [unfolded finishes_def, rule_format, of w2] fin st(5) by auto
      have eq: "wrapped_to E nonces key dest finish i req w s = (rf, w3, ?s)"
        using Inr st(1) by (simp add: wrapped_to_def b(1) c fin)
      have "\<exists>blob m. w_files w3 = (w_files w)(dest \<mapsto> blob) \<and> unwrap_loop E key blob [] = (Inr (), take m data) \<and>
          (rf = Inr () \<longrightarrow> length data \<le> m)"
        by (intro exI [of _ blob] exI [of _ m]) (use files f(1) st(3,6) Inr in auto)
      moreover have "rf = Inl OSError \<and> (\<exists>n. w_fails w n) \<or> rf = Inr () \<and> (\<exists>w1. finish w1 = (Inr (), w3))"
        using f(2) fin by blast
      ultimately show thesis using that [OF eq] same by blast
    qed
  qed
qed

lemma finishes_nothing: "finishes (\<lambda>w. (Inr (), w))"
  by (simp add: finishes_def)

lemma finishes_fsync: "finishes (io_fsync dest)"
  by (auto simp: finishes_def io_fsync_def io_do_def Let_def)

lemma fsync_durable: "io_fsync dest w = (Inr (), w') \<Longrightarrow> w_durable w' dest = w_files w' dest"
  by (auto simp: io_fsync_def io_do_def Let_def split: if_splits)

lemma decrypt_wrapped_out:
  assumes "fs path = Some blob" "unwrap_loop E key blob [] = (Inr (), data)" "path \<noteq> out"
  shows "decrypt_wrapped_file E path key out fs = (Inr (), fs(out \<mapsto> data))"
  using assms by (simp add: decrypt_wrapped_file_def)


text \<open>A store that holds one small file, for the witnesses.\<close>

definition demo_empty :: sstore where
  "demo_empty = \<lparr>sv_held = [], sv_watchdog = None, sv_group = None, sv_pending = [], sv_orphans = []\<rparr>"

definition demo_secure :: sstore where
  "demo_secure = snd (sv_save_bytes demo_env (\<lambda>_. demo_draws) ''a'' [1, 2, 3] ''f.txt'' demo_empty)"

lemma sv_init_ok: "sv_init watch kill thr mk = Inr s \<Longrightarrow> sv_ok E s \<and> sv_list_ids s = [] \<and> dict_ok (sv_pending s)"
  by (cases mk) (auto simp: sv_init_def Let_def map_res_iff sv_ok_def sv_list_ids_def dict_keys_def wd_new_ok split: if_splits)

lemma demo_empty_init: "sv_init False True None None = Inr demo_empty"
  by (simp add: sv_init_def demo_empty_def)

lemma saved_bytes_ok:
  assumes "env_ok E" "\<forall>w. draws_ok (D w)" "sv_ok E s"
  obtains res s' where "sv_save_bytes E D i raw name s = (res, s')" "sv_ok E s'"
    "\<forall>x. res = Inr x \<longrightarrow> x = i \<and> sv_data E s' = (sv_data E s)(i \<mapsto> saved_data (\<lambda>_. None) (split_bytes E raw name))"
    "\<forall>e. res = Inl e \<longrightarrow> sv_held s' = sv_held s"
    "sv_group s = None \<longrightarrow> sv_group s' = None \<and> (res = Inr i \<and> sv_orphans s' = sv_orphans s \<or>
        res = Inl RuntimeError \<and> sv_watchdog s' = sv_watchdog s \<and> sv_watchdog s \<noteq> None \<and>
        length (sv_orphans s') = length (sv_orphans s) + 3)"
proof -
  let ?r = "split_bytes E raw name"
  have pieces: "resolve (\<lambda>_. None) (sr_piece ?r w) \<noteq> None" for w
    using split_bytes_no_file [of E raw name w] by (auto simp: resolve_def)
  show thesis
  proof (rule sv_hold_ok [where E = E and D = D and s = s and fs = "\<lambda>_. None" and i = i and r = ?r and name = name,
        OF assms(1) assms(2) [rule_format] assms(3)])
    fix res s'
    assume h: "sv_hold E (\<lambda>_. None) D i ?r name s = (res, s')" "sv_ok E s'"
      "case res of Inl e \<Rightarrow> sv_held s' = sv_held s
       | Inr x \<Rightarrow> x = i \<and> sv_data E s' = (sv_data E s)(i \<mapsto> saved_data (\<lambda>_. None) ?r)"
      "sv_group s = None \<Longrightarrow> (\<And>w. resolve (\<lambda>_. None) (sr_piece ?r w) \<noteq> None) \<Longrightarrow> sv_group s' = None \<and>
         (res = Inr i \<and> sv_orphans s' = sv_orphans s \<or>
          res = Inl RuntimeError \<and> sv_watchdog s' = sv_watchdog s \<and> sv_watchdog s \<noteq> None \<and>
          length (sv_orphans s') = length (sv_orphans s) + 3)"
    show thesis
      by (rule that [OF _ h(2)]) (use h(1,3) h(4) [OF _ pieces] in \<open>auto simp: sv_save_bytes_def\<close>)
  qed
qed

lemma saved_bytes_read: "sv_read Full (Some (saved_data fs (split_bytes E raw name))) = Inr raw"
  by (rule saved_read) (simp add: resolve_def)

lemma demo_secure_facts:
  "sv_save_bytes demo_env (\<lambda>_. demo_draws) ''a'' [1, 2, 3] ''f.txt'' demo_empty = (Inr ''a'', demo_secure)"
  "sv_ok demo_env demo_secure" "sv_read Full (sv_data demo_env demo_secure ''a'') = Inr [1, 2, 3]"
proof -
  have ok: "sv_ok demo_env demo_empty" using sv_init_ok [OF demo_empty_init] by blast
  have D: "\<forall>w. draws_ok ((\<lambda>_. demo_draws) w)" by (simp add: demo_draws_ok)
  obtain res s' where s0: "sv_save_bytes demo_env (\<lambda>_. demo_draws) ''a'' [1, 2, 3] ''f.txt'' demo_empty = (res, s')"
    "sv_ok demo_env s'"
    "\<forall>x. res = Inr x \<longrightarrow> x = ''a'' \<and> sv_data demo_env s' = (sv_data demo_env demo_empty)(''a'' \<mapsto>
        saved_data (\<lambda>_. None) (split_bytes demo_env [1, 2, 3] ''f.txt''))"
    "sv_group demo_empty = None \<longrightarrow> sv_group s' = None \<and> (res = Inr ''a'' \<and> sv_orphans s' = sv_orphans demo_empty \<or>
        res = Inl RuntimeError \<and> sv_watchdog s' = sv_watchdog demo_empty \<and> sv_watchdog demo_empty \<noteq> None \<and>
        length (sv_orphans s') = length (sv_orphans demo_empty) + 3)"
    by (rule saved_bytes_ok [OF demo_env_ok D ok, where i = "''a''" and raw = "[1, 2, 3]" and name = "''f.txt''"])
  have r: "res = Inr ''a''" using s0(4) by (simp add: demo_empty_def)
  note s = s0(1) [unfolded r] s0(2) s0(3) [rule_format, OF r]
  have d: "demo_secure = s'" by (simp add: demo_secure_def s(1))
  show "sv_save_bytes demo_env (\<lambda>_. demo_draws) ''a'' [1, 2, 3] ''f.txt'' demo_empty = (Inr ''a'', demo_secure)"
    "sv_ok demo_env demo_secure" unfolding d by (fact s(1), fact s(2))
  have "sv_data demo_env s' ''a'' = Some (saved_data (\<lambda>_. None) (split_bytes demo_env [1, 2, 3] ''f.txt''))"
    using s(3) by simp
  then show "sv_read Full (sv_data demo_env demo_secure ''a'') = Inr [1, 2, 3]"
    unfolding d by (simp only: saved_bytes_read)
qed

definition demo_world :: world where
  "demo_world = \<lparr>w_files = (\<lambda>_. None), w_durable = (\<lambda>_. None), w_ops = 0, w_fails = (\<lambda>_. False)\<rparr>"

definition demo_nonces :: "nat \<Rightarrow> bytes" where
  "demo_nonces i = replicate 12 (of_nat i)"

lemma demo_wrap_ok: "wrap_ok demo_env (replicate 32 8) demo_nonces"
  by (simp add: wrap_ok_def demo_env_ok demo_nonces_def NONCE_LEN_def)


section \<open>Release of the key\<close>

lemma sv_data_pending: "sv_data E (s\<lparr>sv_pending := d\<rparr>) = sv_data E s" "sv_ok E (s\<lparr>sv_pending := d\<rparr>) = sv_ok E s"
  by (simp_all add: sv_data_def sv_ok_def fun_eq_iff)

lemma redeem_issued:
  "sv_redeem_key t token (issue_token now sn ttl token key s) =
     (if now + ttl < t then Inl TimeoutError else Inr key,
      s\<lparr>sv_pending := dict_del token (dict_set token \<lparr>pk_key = key, pk_expires_at = now + ttl\<rparr> (sweep sn (sv_pending s)))\<rparr>)"
  by (simp add: sv_redeem_key_def issue_token_def Let_def)

text \<open>
  Property C9. For an untrusted or hostile destination the key leaves the process only after the wrapped
  file is durable: if the call returns, what is durable at the destination is the file, and it decrypts to
  the data under the fresh key, which the receipt carries (untrusted) or the issued token redeems within its
  lifetime (hostile), never both. If it raises, no key and no token is out.
\<close>

theorem key_released_after_departure:
  assumes "wrap_ok E key nonces" "sv_ok E s" "sv_read req (sv_data E s i) = Inr data"
    and "trust = ''untrusted'' \<or> trust = ''hostile''" "dest \<noteq> out"
    and "sv_retrieve_to_destination E nonces key token now sn i dest trust req ttl w s = (r, w', s')"
  shows "case r of
      Inl e \<Rightarrow> e = OSError \<and> (\<exists>n. w_fails w n) \<and> sv_pending s' = sv_pending s
    | Inr rc \<Rightarrow> w_durable w' dest = w_files w' dest \<and>
        decrypt_wrapped_file E dest key out (w_files w') = (Inr (), (w_files w')(out \<mapsto> data)) \<and>
        (if trust = ''untrusted'' then rc_key rc = Some key \<and> rc_token rc = None \<and> sv_pending s' = sv_pending s
         else rc_key rc = None \<and> rc_token rc = Some token \<and> rc_expires_at rc = Some (now + ttl) \<and>
           fst (sv_redeem_key t token s') = (if now + ttl < t then Inl TimeoutError else Inr key))"
proof -
  obtain q w1 s1 where o: "wrapped_to E nonces key dest (io_fsync dest) i req w s = (q, w1, s1)"
    "sv_pending s1 = sv_pending s"
    "q = Inl OSError \<and> (\<exists>n. w_fails w n) \<or> q = Inr () \<and> (\<exists>w2. io_fsync dest w2 = (Inr (), w1))"
    "q = Inl OSError \<and> w_files w1 = w_files w \<or>
      (\<exists>blob m. w_files w1 = (w_files w)(dest \<mapsto> blob) \<and> unwrap_loop E key blob [] = (Inr (), take m data) \<and>
        (q = Inr () \<longrightarrow> length data \<le> m))"
    by (rule wrapped_to_out [where dest = dest and w = w, OF assms(1-3) finishes_fsync]) blast
  have trust: "trust \<noteq> ''trusted''" "trust \<in> {''untrusted'', ''hostile''}" using assms(4) by auto
  note ret = assms(6) [unfolded sv_retrieve_to_destination_def Let_def o(1)]
  show ?thesis
  proof (cases q)
    case (Inl e)
    then show ?thesis using ret trust o(2,3) by auto
  next
    case (Inr u)
    obtain blob m where b: "w_files w1 = (w_files w)(dest \<mapsto> blob)" "unwrap_loop E key blob [] = (Inr (), take m data)"
      "length data \<le> m" using o(4) Inr by auto
    have "w_files w1 dest = Some blob" "take m data = data" using b by simp_all
    then have dec: "decrypt_wrapped_file E dest key out (w_files w1) = (Inr (), (w_files w1)(out \<mapsto> data))"
      using b(2) assms(5) decrypt_wrapped_out [where fs = "w_files w1" and path = dest] by simp
    have dur: "w_durable w1 dest = w_files w1 dest" using o(3) Inr fsync_durable by auto
    show ?thesis
      using ret Inr trust o(2) dec dur by (auto simp: redeem_issued split: if_splits)
  qed
qed

theorem key_released_after_departure_witness:
  "\<exists>rc w' s'. sv_retrieve_to_destination demo_env demo_nonces (replicate 32 8) ''t'' 5 5 ''a'' ''p'' ''hostile'' Full 60
      demo_world demo_secure = (Inr rc, w', s') \<and> w_durable w' ''p'' = w_files w' ''p'' \<and>
      fst (sv_redeem_key 60 ''t'' s') = Inr (replicate 32 8)"
proof -
  obtain r w' s' where r: "sv_retrieve_to_destination demo_env demo_nonces (replicate 32 8) ''t'' 5 5 ''a'' ''p'' ''hostile'' Full 60
      demo_world demo_secure = (r, w', s')" by (metis surj_pair)
  from key_released_after_departure [OF demo_wrap_ok demo_secure_facts(2,3) _ _ r, of "''q''" 60]
  have "\<exists>rc. r = Inr rc \<and> w_durable w' ''p'' = w_files w' ''p'' \<and> fst (sv_redeem_key 60 ''t'' s') = Inr (replicate 32 8)"
    by (auto simp: demo_world_def split: sum.splits)
  then show ?thesis using r by blast
qed

section \<open>Tokens\<close>

text \<open>What else happens to the table of pending keys: tokens issued at a sweep time, and redemptions.\<close>

datatype token_event =
    TIssue time time time string bytes
  | TRedeem time string

fun token_step :: "token_event \<Rightarrow> sstore \<Rightarrow> sstore" where
  "token_step (TIssue now sn ttl token key) s = issue_token now sn ttl token key s"
| "token_step (TRedeem now token) s = snd (sv_redeem_key now token s)"

fun about_token :: "string \<Rightarrow> token_event \<Rightarrow> bool" where
  "about_token token (TIssue now sn ttl token' key) \<longleftrightarrow> token' = token"
| "about_token token (TRedeem now token') \<longleftrightarrow> token' = token"

fun issues_token :: "string \<Rightarrow> token_event \<Rightarrow> bool" where
  "issues_token token (TIssue now sn ttl token' key) \<longleftrightarrow> token' = token"
| "issues_token token (TRedeem now token') \<longleftrightarrow> False"

text \<open>An issuance sweeps later than a deadline.\<close>

fun sweeps_after :: "time \<Rightarrow> token_event \<Rightarrow> bool" where
  "sweeps_after deadline (TIssue now sn ttl token' key) \<longleftrightarrow> deadline < sn"
| "sweeps_after deadline (TRedeem now token') \<longleftrightarrow> False"

lemma dict_get_fold_del: "dict_get (fold dict_del ks d) k = (if k \<in> set ks then None else dict_get d k)"
  by (induction ks arbitrary: d) auto

lemma dict_ok_fold_del: "dict_ok d \<Longrightarrow> dict_ok (fold dict_del ks d)"
  by (induction ks arbitrary: d) auto

lemma sweep_get:
  assumes "dict_ok d"
  shows "dict_get (sweep now d) k =
    (case dict_get d k of None \<Rightarrow> None | Some e \<Rightarrow> if pk_expires_at e < now then None else Some e)"
  using dict_get_mem [OF assms] by (force simp: sweep_def dict_get_fold_del split: option.splits)

lemma token_step_ok: "dict_ok (sv_pending s) \<Longrightarrow> dict_ok (sv_pending (token_step e s))"
  by (cases e) (auto simp: issue_token_def sweep_def dict_ok_fold_del sv_redeem_key_def Let_def split: option.splits)

lemma token_steps_ok: "dict_ok (sv_pending s) \<Longrightarrow> dict_ok (sv_pending (fold token_step es s))"
  by (induction es arbitrary: s) (simp_all add: token_step_ok)

lemma token_steps_pending:
  assumes "dict_ok (sv_pending s)" "dict_get (sv_pending s) token = Some e" "list_all (\<lambda>x. \<not> about_token token x) es"
  shows "dict_get (sv_pending (fold token_step es s)) token =
    (if list_ex (sweeps_after (pk_expires_at e)) es then None else Some e)"
  using assms
proof (induction es rule: rev_induct)
  case (snoc x es)
  have "dict_ok (sv_pending (fold token_step es s))" by (rule token_steps_ok [OF snoc.prems(1)])
  with snoc show ?case
    by (cases x) (auto simp: issue_token_def sweep_get sv_redeem_key_def Let_def split: option.splits)
qed simp

lemma token_steps_gone:
  assumes "dict_ok (sv_pending s)" "dict_get (sv_pending s) token = None" "list_all (\<lambda>x. \<not> issues_token token x) es"
  shows "dict_get (sv_pending (fold token_step es s)) token = None"
  using assms
proof (induction es rule: rev_induct)
  case (snoc x es)
  have "dict_ok (sv_pending (fold token_step es s))" by (rule token_steps_ok [OF snoc.prems(1)])
  with snoc show ?case
    by (cases x) (auto simp: issue_token_def sweep_get sv_redeem_key_def Let_def split: option.splits)
qed simp

text \<open>
  Property C11. A token works at most once and only in time. Whatever other tokens are issued and redeemed in
  between, redeeming it gives the key until its deadline and nothing after: a \<open>TimeoutError\<close>, but a
  \<open>KeyError\<close>, as for a token never issued, if a later issuance has swept it. After the first try, successful
  or not, every further one is a \<open>KeyError\<close>, until the token is issued again.
\<close>

theorem token_redeemed_once_and_in_time:
  assumes "dict_ok (sv_pending s)" "list_all (\<lambda>x. \<not> about_token token x) es"
    and "list_all (\<lambda>x. \<not> issues_token token x) es'"
  shows "let s1 = fold token_step es (issue_token now sn ttl token key s);
             (r, s2) = sv_redeem_key t token s1
         in r = (if list_ex (sweeps_after (now + ttl)) es then Inl KeyError
                 else if now + ttl < t then Inl TimeoutError else Inr key) \<and>
            fst (sv_redeem_key t' token (fold token_step es' s2)) = Inl KeyError"
proof -
  let ?s0 = "issue_token now sn ttl token key s" and ?e = "\<lparr>pk_key = key, pk_expires_at = now + ttl\<rparr>"
  let ?s1 = "fold token_step es ?s0"
  have s0: "dict_ok (sv_pending ?s0)" using token_step_ok [OF assms(1), of "TIssue now sn ttl token key"] by simp
  have get: "dict_get (sv_pending ?s1) token = (if list_ex (sweeps_after (now + ttl)) es then None else Some ?e)"
    using token_steps_pending [OF s0, of token ?e es] assms(2) by (simp add: issue_token_def)
  let ?s2 = "snd (sv_redeem_key t token ?s1)"
  have "dict_ok (sv_pending ?s2)" using token_step_ok [OF token_steps_ok [OF s0], of "TRedeem t token"] by simp
  moreover have "dict_get (sv_pending ?s2) token = None"
    by (auto simp: sv_redeem_key_def Let_def split: option.splits)
  ultimately have "dict_get (sv_pending (fold token_step es' ?s2)) token = None"
    by (rule token_steps_gone [OF _ _ assms(3)])
  then have "fst (sv_redeem_key t' token (fold token_step es' ?s2)) = Inl KeyError"
    by (simp add: sv_redeem_key_def)
  moreover have "fst (sv_redeem_key t token ?s1) = (if list_ex (sweeps_after (now + ttl)) es then Inl KeyError
      else if now + ttl < t then Inl TimeoutError else Inr key)"
    using get by (simp add: sv_redeem_key_def Let_def)
  ultimately show ?thesis by (simp add: Let_def split_def)
qed

theorem token_redeemed_once_and_in_time_witness:
  "fst (sv_redeem_key 100 ''t'' (fold token_step [TIssue 80 80 60 ''u'' [2]] (issue_token 5 5 60 ''t'' [1] demo_empty))) = Inl KeyError \<and>
   fst (sv_redeem_key 60 ''t'' (fold token_step [TIssue 50 50 60 ''u'' [2]] (issue_token 5 5 60 ''t'' [1] demo_empty))) = Inr [1]"
  using token_redeemed_once_and_in_time [of demo_empty "''t''" "[TIssue 80 80 60 ''u'' [2]]" "[]" 5 5 60 "[1]" 100 0]
    token_redeemed_once_and_in_time [of demo_empty "''t''" "[TIssue 50 50 60 ''u'' [2]]" "[]" 5 5 60 "[1]" 60 0]
  by (simp add: demo_empty_def Let_def split_def)

section \<open>The store as a whole\<close>

lemma saved_file_ok:
  assumes "env_ok E" "\<forall>w. draws_ok (D w)" "sv_ok E s" "sv_save E fs D i path s = (Inr x, s')"
  shows "x = i \<and> sv_ok E s' \<and> (\<exists>raw d. fs path = Some raw \<and> sv_data E s' = (sv_data E s)(i \<mapsto> d) \<and> sv_read Full (Some d) = Inr raw)"
proof -
  obtain r where r: "split_file E fs path = Inr r" "sv_hold E fs D i r (basename path) s = (Inr x, s')"
    using assms(4) by (auto simp: sv_save_def split: sum.splits)
  obtain raw where raw: "fs path = Some raw" "resolve fs (sr_piece r (sr_reconstruct_from r)) = Some raw"
    using r(1) by (cases "fs path") (auto simp: split_defs metadata_bytes_for_path_def split: if_splits)
  obtain res t where h: "sv_hold E fs D i r (basename path) s = (res, t)" "sv_ok E t"
    "case res of Inl e \<Rightarrow> sv_held t = sv_held s
     | Inr x \<Rightarrow> x = i \<and> sv_data E t = (sv_data E s)(i \<mapsto> saved_data fs r)"
    by (rule sv_hold_ok [where E = E and D = D and s = s and fs = fs and i = i and r = r and name = "basename path",
          OF assms(1) assms(2) [rule_format] assms(3)]) blast
  show ?thesis
    using h r(2) raw saved_read [OF raw(2)] by (intro conjI exI [of _ raw] exI [of _ "saved_data fs r"]) auto
qed

text \<open>
  Property C2. What the secure store saved comes back: after a successful \<open>save_bytes\<close> or \<open>save\<close>, and after
  any turns of the movers, bounces of the key cells and retrievals of any file, \<open>retrieve\<close> gives the bytes of
  the file, and every other file what it gave before, with a watchdog or not, with a trust group that answers
  or fails.
\<close>

theorem secure_store_roundtrip:
  assumes "env_ok E" "\<forall>w. draws_ok (D w)" "sv_ok E s" "list_all sv_good es"
    and "sv_save_bytes E D i raw name s = (Inr x, s') \<or> fs path = Some raw \<and> sv_save E fs D i path s = (Inr x, s')"
  shows "x = i \<and> fst (sv_retrieve E i Full (fold (sv_step E) es s')) = Inr raw \<and>
    (j \<noteq> i \<longrightarrow> fst (sv_retrieve E j req (fold (sv_step E) es s')) = fst (sv_retrieve E j req s))"
proof -
  have "x = i \<and> sv_ok E s' \<and> (\<exists>d. sv_data E s' = (sv_data E s)(i \<mapsto> d) \<and> sv_read Full (Some d) = Inr raw)"
    using assms(5)
  proof
    assume b: "sv_save_bytes E D i raw name s = (Inr x, s')"
    obtain res t where "sv_save_bytes E D i raw name s = (res, t)" "sv_ok E t"
      "\<forall>x. res = Inr x \<longrightarrow> x = i \<and> sv_data E t = (sv_data E s)(i \<mapsto> saved_data (\<lambda>_. None) (split_bytes E raw name))"
      by (rule saved_bytes_ok [where i = i and raw = raw and name = name, OF assms(1-3)]) blast
    then show ?thesis
      using b saved_bytes_read [where fs = "\<lambda>_. None" and E = E and raw = raw and name = name]
      by (intro conjI exI [of _ "saved_data (\<lambda>_. None) (split_bytes E raw name)"]) auto
  next
    assume "fs path = Some raw \<and> sv_save E fs D i path s = (Inr x, s')"
    then show ?thesis using saved_file_ok [OF assms(1-3), of fs i path x s'] by auto
  qed
  then obtain d where d: "x = i" "sv_ok E s'" "sv_data E s' = (sv_data E s)(i \<mapsto> d)" "sv_read Full (Some d) = Inr raw"
    by blast
  have "sv_data E (fold (sv_step E) es s') = sv_data E s'" using sv_steps_same [OF d(2) assms(4)] by blast
  then show ?thesis using d by (simp add: sv_retrieve_out)
qed

theorem secure_store_roundtrip_witness:
  "fst (sv_retrieve demo_env ''a'' Full (fold (sv_step demo_env)
     [SServe ''a'' Content 0 (replicate 12 7) id, SBounce ''a'' Content True 3, SRead ''b'' Full] demo_secure)) = Inr [1, 2, 3]"
proof -
  have D: "\<forall>w. draws_ok ((\<lambda>_. demo_draws) w)" by (simp add: demo_draws_ok)
  have ok: "sv_ok demo_env demo_empty" using sv_init_ok [OF demo_empty_init] by blast
  have "list_all sv_good [SServe ''a'' Content 0 (replicate 12 7) id, SBounce ''a'' Content True 3, SRead ''b'' Full]"
    by (simp add: NONCE_LEN_def)
  from secure_store_roundtrip [OF demo_env_ok D ok this disjI1 [OF demo_secure_facts(1)]] show ?thesis by blast
qed



section \<open>The watchdog's table under rotation\<close>

text \<open>The registrar of a box over its successive rotations.\<close>

fun registrar_run :: "region list list \<Rightarrow> (int \<times> nat) option \<Rightarrow> watchdog \<Rightarrow> (int \<times> nat) option \<times> watchdog" where
  "registrar_run [] slot wd = (slot, wd)"
| "registrar_run (rs # rss) slot wd = (let (r, sl, wd') = on_new_guard rs slot wd in registrar_run rss (Some sl) wd')"

text \<open>The regions registered, in the order of the table.\<close>

definition table :: "watchdog \<Rightarrow> region list" where
  "table wd = map (table_region wd) [0..<wd_count wd]"

definition trunc :: "region \<Rightarrow> region" where
  "trunc r = (fst r mod 2 ^ 64, snd r mod 2 ^ 64)"

lemma tableI:
  assumes "wd_count wd = length xs + length rs" "\<And>i. i < length xs \<Longrightarrow> table_region wd i = xs ! i"
    and "\<And>j. j < length rs \<Longrightarrow> table_region wd (length xs + j) = trunc (rs ! j)"
  shows "table wd = xs @ map trunc rs"
proof (rule nth_equalityI)
  fix i assume "i < length (table wd)"
  then have i: "i < length xs + length rs" using assms(1) by (simp add: table_def)
  show "table wd ! i = (xs @ map trunc rs) ! i"
  proof (cases "i < length xs")
    case False
    then have "i - length xs < length rs" "i = length xs + (i - length xs)" using i by simp_all
    then show ?thesis using assms(1,3) False i by (metis (no_types, lifting) add_0 length_map nth_append nth_map
          nth_map_upt table_def diff_zero)
  qed (use assms i in \<open>simp add: table_def nth_append\<close>)
qed (use assms in \<open>simp add: table_def\<close>)

lemma on_new_guard_slot:
  assumes "wd_ok wd" "wd_count wd = start + length rs"
  shows "\<exists>wd'. on_new_guard rs (Some (int start, length rs)) wd = (Inr (), (int start, length rs), wd') \<and> wd_ok wd' \<and>
    wd_count wd' = wd_count wd \<and> table wd' = take start (table wd) @ map trunc rs"
proof -
  have fit: "nat (int start) + length rs \<le> MAX_REGIONS" using assms by (simp add: wd_ok_def)
  note u = update_slot_ok [OF assms(1) _ fit]
  let ?wd = "snd (update_slot (int start) rs wd)"
  have "table ?wd = map (table_region wd) [0..<start] @ map trunc rs"
    using u assms(2) by (intro tableI) (simp_all add: trunc_def)
  moreover have "take start (table wd) = map (table_region wd) [0..<start]"
    using assms(2) by (simp add: table_def take_map)
  ultimately show ?thesis
    using u by (intro exI [of _ ?wd]) (simp add: on_new_guard_def Let_def split_def prod_eq_iff)
qed

lemma on_new_guard_first:
  assumes "wd_ok wd" "wd_count wd + length rs \<le> MAX_REGIONS"
  shows "\<exists>wd'. on_new_guard rs None wd = (Inr (), (int (wd_count wd), length rs), wd') \<and> wd_ok wd' \<and>
    wd_count wd' = wd_count wd + length rs \<and> table wd' = table wd @ map trunc rs"
proof -
  let ?w = "wd\<lparr>wd_count := wd_count wd + length rs\<rparr>"
  have r: "reserve_slot (length rs) wd = (int (wd_count wd), ?w)" using assms(2) by (simp add: reserve_slot_def Let_def)
  have "on_new_guard rs None wd = on_new_guard rs (Some (int (wd_count wd), length rs)) ?w"
    by (simp add: on_new_guard_def r)
  moreover have "wd_ok ?w" using assms by (simp add: wd_ok_def)
  moreover have "take (wd_count wd) (table ?w) = table wd"
    by (simp add: table_def take_map table_region_def [abs_def])
  ultimately show ?thesis using on_new_guard_slot [of ?w "wd_count wd" rs] by fastforce
qed

lemma registrar_run_slot:
  assumes "wd_ok wd" "wd_count wd = start + n" "\<forall>rs \<in> set rss. length rs = n" "rss \<noteq> []"
  shows "\<exists>wd'. registrar_run rss (Some (int start, n)) wd = (Some (int start, n), wd') \<and> wd_ok wd' \<and>
    wd_count wd' = start + n \<and> table wd' = take start (table wd) @ map trunc (last rss)"
  using assms
proof (induction rss arbitrary: wd)
  case (Cons rs rss)
  have "length rs = n" "wd_count wd = start + length rs" using Cons.prems by simp_all
  from on_new_guard_slot [OF Cons.prems(1) this(2)] this obtain wd' where
    s: "on_new_guard rs (Some (int start, n)) wd = (Inr (), (int start, n), wd')" "wd_ok wd'"
      "wd_count wd' = start + n" "table wd' = take start (table wd) @ map trunc rs" by auto
  have len: "length (take start (table wd)) = start" using Cons.prems(2) by (simp add: table_def)
  show ?case
  proof (cases "rss = []")
    case False
    from Cons.IH [OF s(2,3) _ False] Cons.prems(3) s(4) len False show ?thesis by (simp add: s(1))
  qed (use s in simp)
qed simp

text \<open>
  Property C25. However often a box rotates its key, it takes one slot of the table: what others registered
  stays, and the slot holds the regions of the newest guard only. The guard before it, which by then has become
  the current one, is registered no longer: from a box's second rotation on, the watchdog has the
  guard of the next key and not the one of the key in use.
\<close>

theorem rotations_share_one_slot:
  assumes "wd_ok wd" "rss \<noteq> []" "\<forall>rs \<in> set rss. length rs = n" "wd_count wd + n \<le> MAX_REGIONS"
  shows "let (slot, wd') = registrar_run rss None wd in
    slot = Some (int (wd_count wd), n) \<and> wd_count wd' = wd_count wd + n \<and> table wd' = table wd @ map trunc (last rss)"
proof -
  obtain rs rss' where c: "rss = rs # rss'" using assms(2) by (cases rss) auto
  have n: "length rs = n" using assms(3) c by simp
  from on_new_guard_first [OF assms(1), of rs] assms(4) n obtain wd1 where
    f: "on_new_guard rs None wd = (Inr (), (int (wd_count wd), n), wd1)" "wd_ok wd1"
      "wd_count wd1 = wd_count wd + n" "table wd1 = table wd @ map trunc rs" by auto
  show ?thesis
  proof (cases "rss' = []")
    case False
    have "length (table wd) = wd_count wd" by (simp add: table_def)
    then show ?thesis
      using registrar_run_slot [OF f(2,3) _ False] assms(3) f(4) False by (auto simp: c f(1))
  qed (simp add: c f)
qed

theorem rotations_share_one_slot_witness:
  "let (slot, wd') = registrar_run [[(4096, 1)], [(8192, 1)]] None (wd_new True) in
     slot = Some (0, 1) \<and> table wd' = [(8192, 1)]"
proof -
  have "wd_count (wd_new True) = 0" by (simp add: wd_new_def)
  then show ?thesis
    using rotations_share_one_slot [OF wd_new_ok, of "[[(4096, 1)], [(8192, 1)]]" 1 True]
    by (auto simp: MAX_REGIONS_def table_def trunc_def)
qed

section \<open>The store interface\<close>

text \<open>A store with neither watchdog nor trust group, where a save cannot fail.\<close>

definition sv_still :: "env \<Rightarrow> (which \<Rightarrow> draws) \<Rightarrow> sstore \<Rightarrow> bool" where
  "sv_still E D s \<longleftrightarrow> env_ok E \<and> (\<forall>w. draws_ok (D w)) \<and> sv_ok E s \<and> sv_watchdog s = None \<and> sv_group s = None"

definition sv_move :: "env \<Rightarrow> sv_event \<Rightarrow> sstore \<Rightarrow> sstore" where
  "sv_move E e s = (if sv_good e then sv_step E e s else s)"

lemma make_box_watchdog: "make_box E fs D pc s = (r, s') \<Longrightarrow> sv_watchdog s' = sv_watchdog s"
  by (auto simp: make_box_def Let_def split: prod.splits piece.splits if_splits)

lemma sv_hold_unwatched:
  assumes "sv_watchdog s = None"
  shows "sv_watchdog (snd (sv_hold E fs D i r name s)) = None"
  using assms make_box_watchdog
  by (fastforce simp: sv_hold_def register_boxes_def orphan_def split: prod.splits sum.splits)

lemma serve_unwatched:
  "serve_box E now nonce addrs rb None None = (again, rb', wd', g') \<Longrightarrow> wd' = None \<and> g' = None"
  by (auto simp: serve_box_def ask_group_def Let_def split: prod.splits option.splits)

lemma sv_step_unwatched:
  assumes "sv_watchdog s = None" "sv_group s = None"
  shows "sv_watchdog (sv_step E e s) = None \<and> sv_group (sv_step E e s) = None"
proof (cases e)
  case (SServe i w now nonce addrs)
  then show ?thesis
    using assms serve_unwatched
    by (auto simp: sv_serve_def put_rbox_def split: option.splits prod.splits)
qed (auto simp: assms put_rbox_def sv_retrieve_def split: option.splits sum.splits prod.splits)

lemma still_save:
  assumes "sv_still E D s"
  shows "sv_still E D (snd (sv_save_bytes E D i raw n s)) \<and>
    sv_data E (snd (sv_save_bytes E D i raw n s)) = (sv_data E s)(i \<mapsto> saved_data (\<lambda>_. None) (split_bytes E raw n))"
proof -
  have a: "env_ok E" "\<forall>w. draws_ok (D w)" "sv_ok E s" "sv_watchdog s = None" "sv_group s = None"
    using assms by (simp_all add: sv_still_def)
  obtain res s' where h: "sv_save_bytes E D i raw n s = (res, s')" "sv_ok E s'"
    "\<forall>x. res = Inr x \<longrightarrow> x = i \<and> sv_data E s' = (sv_data E s)(i \<mapsto> saved_data (\<lambda>_. None) (split_bytes E raw n))"
    "sv_group s = None \<longrightarrow> sv_group s' = None \<and> (res = Inr i \<and> sv_orphans s' = sv_orphans s \<or>
        res = Inl RuntimeError \<and> sv_watchdog s' = sv_watchdog s \<and> sv_watchdog s \<noteq> None \<and>
        length (sv_orphans s') = length (sv_orphans s) + 3)"
    by (rule saved_bytes_ok [where i = i and raw = raw and name = n, OF a(1-3)])
  have "sv_watchdog s' = None" 
    using sv_hold_unwatched [OF a(4), of E "\<lambda>_. None" D i "split_bytes E raw n" n] h(1) by (simp add: sv_save_bytes_def)
  moreover have "res = Inr i" "sv_group s' = None" using h(4) a(4,5) by simp_all
  ultimately show ?thesis using h(2,3) a(1,2) by (simp add: sv_still_def h(1))
qed

lemma still_move:
  assumes "sv_still E D s"
  shows "sv_still E D (sv_move E m s) \<and> sv_data E (sv_move E m s) = sv_data E s"
  using assms sv_step_unwatched [of s E m] sv_step_same [of E s m] by (auto simp: sv_still_def sv_move_def)

lemma still_retrieve: "sv_still E D s \<Longrightarrow> sv_still E D (snd (sv_retrieve E i req s)) \<and>
    sv_data E (snd (sv_retrieve E i req s)) = sv_data E s"
  using still_move [of E D s "SRead i req"] by (simp add: sv_move_def)

lemma still_forget: "sv_still E D s \<Longrightarrow> sv_still E D (fst (sv_forget i s)) \<and>
    sv_data E (fst (sv_forget i s)) = (sv_data E s)(i := None)"
  using sv_forget_same [of E s i] by (auto simp: sv_still_def sv_forget_def split: option.splits)

lemma sv_known_iff: "sv_known s i \<longleftrightarrow> sv_data E s i \<noteq> None"
  by (simp add: sv_data_def sv_known_def)

interpretation sv: moving_store "\<lambda>i raw n s. snd (sv_save_bytes E D i raw n s)" "\<lambda>i s. sv_retrieve E i Full s"
  "\<lambda>i s. fst (sv_forget i s)" sv_known "sv_still E D" "sv_move E" for E D
proof (unfold_locales, goal_cases)
  case (3 s i raw n)
  then show ?case by (simp add: sv_retrieve_out still_save saved_bytes_read)
next
  case (8 s i)
  then have "sv_data E s i = None" by (simp add: sv_known_data)
  then show ?case by (simp add: sv_retrieve_out sv_read_def)
qed (auto simp: sv_retrieve_out still_save still_retrieve still_forget still_move sv_known_iff [of _ _ E] fun_eq_iff)

text \<open>
  An update as the store's clients make it, saving a new version under a fresh id and
  forgetting the old one, holds the new version and disturbs no other file, whatever moves afterwards.
\<close>

theorem secure_store_replaces:
  assumes "sv_still E D s" "\<not> sv_known s new" "old \<noteq> new" "j \<noteq> new" "j \<noteq> old"
  shows "let s' = fold (sv_move E) ms (fst (sv_forget old (snd (sv_save_bytes E D new raw name s)))) in
    fst (sv_retrieve E new Full s') = Inr raw \<and> fst (sv_retrieve E j Full s') = fst (sv_retrieve E j Full s) \<and>
    fst (sv_retrieve E old Full s') = Inl KeyError"
proof -
  let ?s1 = "snd (sv_save_bytes E D new raw name s)"
  let ?s2 = "fst (sv_forget old ?s1)"
  have ok: "sv_still E D ?s1" "sv_still E D ?s2"
    using sv.save_ok [OF assms(1,2)] sv.forget_ok by blast+
  note moved = sv.moves [OF ok(2), where ms = ms, THEN conjunct2, THEN conjunct2]
  show ?thesis
    using sv.replace_same [OF assms(1-3)] sv.replace_other [OF assms(1,2,4,5)] sv.forget_same [OF ok(1)]
    by (simp add: Let_def moved)
qed

theorem secure_store_replaces_witness:
  "fst (sv_retrieve demo_env ''b'' Full (fst (sv_forget ''a'' (snd (sv_save_bytes demo_env (\<lambda>_. demo_draws) ''b'' [7] ''g.bin'' demo_empty)))))
     = Inr [7]"
proof -
  have "sv_still demo_env (\<lambda>_. demo_draws) demo_empty"
    using sv_init_ok [OF demo_empty_init] by (simp add: sv_still_def demo_env_ok demo_draws_ok) (simp add: demo_empty_def)
  moreover have "\<not> sv_known demo_empty ''b''" by (simp add: sv_known_def demo_empty_def)
  ultimately show ?thesis
    using secure_store_replaces [of demo_env "\<lambda>_. demo_draws" demo_empty "''b''" "''a''" "''c''" "[]" "[7]" "''g.bin''"]
    by (simp add: Let_def)
qed

section \<open>Death\<close>

lemma fold_forget_held:
  "dict_get (sv_held (fold (\<lambda>i s. fst (sv_forget i s)) ks s)) k = (if k \<in> set ks then None else dict_get (sv_held s) k)"
  by (induction ks arbitrary: s) (auto simp: sv_forget_def split: option.splits)

lemma collapse_all_held: "sv_held (sv_collapse_all s) = []"
proof (rule dict_empty)
  fix k
  show "dict_get (sv_held (sv_collapse_all s)) k = None"
    using dict_keys_iff [of k "sv_held s"]
    by (auto simp: sv_collapse_all_def Let_def fold_forget_held sv_list_ids_def)
qed

text \<open>
  Property C28. Death. Forgetting a file makes it unknown and leaves the others; its boxes, once collapsed,
  give no data and are dropped by the scheduler at their next turn. After \<open>collapse_all\<close> nothing is
  held, the watchdog has stopped, and every id is unknown.
\<close>

theorem secure_store_death:
  assumes "sv_ok E s"
  shows "fst (sv_retrieve E i req (fst (sv_forget i s))) = Inl KeyError \<and>
    (\<forall>j. j \<noteq> i \<longrightarrow> fst (sv_retrieve E j req (fst (sv_forget i s))) = fst (sv_retrieve E j req s)) \<and>
    (\<forall>rb \<in> set (snd (sv_forget i s)). fst (cb_snapshot E (rb_box rb)) = Inl ValueError \<and>
       cb_serve E now nonce trust addrs (rb_box rb) = (None, rb_box rb, None)) \<and>
    sv_list_ids (sv_collapse_all s) = [] \<and> fst (sv_retrieve E i req (sv_collapse_all s)) = Inl KeyError \<and>
    (\<forall>wd. sv_watchdog (sv_collapse_all s) = Some wd \<longrightarrow> \<not> wd_running wd)"
proof -
  have data: "sv_data E (fst (sv_forget i s)) = (sv_data E s)(i := None)" using sv_forget_same [OF assms] by blast
  have dead: "\<forall>rb \<in> set (snd (sv_forget i s)). fst (cb_snapshot E (rb_box rb)) = Inl ValueError \<and>
       cb_serve E now nonce trust addrs (rb_box rb) = (None, rb_box rb, None)"
  proof
    fix rb assume "rb \<in> set (snd (sv_forget i s))"
    then obtain h w rb0 where h: "dict_get (sv_held s) i = Some h" "(w, rb0) \<in> set (sh_boxes h)"
      and rb: "rb = rb0\<lparr>rb_box := cb_collapse (rb_box rb0)\<rparr>"
      by (auto simp: sv_forget_def split: option.splits)
    have "sheld_ok E (sv_watchdog s) h" using assms h(1) by (simp add: sv_ok_def)
    then have "dict_ok (sh_boxes h)" "\<And>v b. dict_get (sh_boxes h) v = Some b \<Longrightarrow> rbox_ok E (sv_watchdog s) b"
      by (auto simp: sheld_ok_def dict_ok_def dict_keys_def)
    then have "rbox_ok E (sv_watchdog s) rb0" using h(2) dict_get_mem by metis
    then have "g_cells (cb_current (rb_box rb0)) \<noteq> []" using cb_ok_cells by (auto simp: rbox_ok_def)
    then show "fst (cb_snapshot E (rb_box rb)) = Inl ValueError \<and>
       cb_serve E now nonce trust addrs (rb_box rb) = (None, rb_box rb, None)"
      using collapsed_box by (simp add: rb)
  qed
  have "\<forall>wd. sv_watchdog (sv_collapse_all s) = Some wd \<longrightarrow> \<not> wd_running wd"
    by (auto simp: sv_collapse_all_def Let_def wd_stop_def)
  moreover have "sv_data E (sv_collapse_all s) = (\<lambda>_. None)"
    by (simp add: sv_data_def collapse_all_held fun_eq_iff)
  ultimately show ?thesis
    using data dead by (simp add: sv_retrieve_out sv_read_def sv_list_ids_def collapse_all_held dict_keys_def)
qed

theorem secure_store_death_witness:
  "fst (sv_retrieve demo_env ''a'' Full (fst (sv_forget ''a'' demo_secure))) = Inl KeyError \<and>
   sv_list_ids (sv_collapse_all demo_secure) = []"
  using secure_store_death [OF demo_secure_facts(2), of "''a''" Full] by blast

end
