(* ===== verification/Countdown.thy ===== *)
theory Countdown
  imports Main
begin

text \<open>
  What the concurrent runs of this repository that always end have in common: a step relation, an
  invariant every step keeps, and a number every step lowers.
\<close>

locale countdown =
  fixes step :: "'s \<Rightarrow> 's \<Rightarrow> bool"
    and inv :: "'s \<Rightarrow> bool"
    and left :: "'s \<Rightarrow> nat"
  assumes inv_step: "step s t \<Longrightarrow> inv s \<Longrightarrow> inv t"
    and left_step: "step s t \<Longrightarrow> inv s \<Longrightarrow> left t < left s"
begin

lemma inv_steps: "(step ^^ n) s t \<Longrightarrow> inv s \<Longrightarrow> inv t"
  by (induction n arbitrary: t) (auto intro: inv_step)

lemma inv_reach: "step\<^sup>*\<^sup>* s t \<Longrightarrow> inv s \<Longrightarrow> inv t"
  using inv_steps by (metis rtranclp_imp_relpowp)

lemma left_steps: "(step ^^ n) s t \<Longrightarrow> inv s \<Longrightarrow> n + left t \<le> left s"
proof (induction n arbitrary: t)
  case (Suc n)
  then obtain u where u: "(step ^^ n) s u" "step u t" by auto
  then have "left t < left u" using left_step inv_steps Suc.prems(2) by blast
  then show ?case using Suc.IH [OF u(1) Suc.prems(2)] by simp
qed simp

text \<open>So every run can be extended to one after which nothing can happen.\<close>

lemma runs_to_end: "inv s \<Longrightarrow> \<exists>n t. (step ^^ n) s t \<and> (\<forall>u. \<not> step t u) \<and> inv t"
proof (induction "left s" arbitrary: s rule: less_induct)
  case less
  show ?case
  proof (cases "\<exists>u. step s u")
    case True
    then obtain u where u: "step s u" by blast
    from less.hyps [OF left_step [OF u less.prems] inv_step [OF u less.prems]]
    obtain n t where "(step ^^ n) u t" "\<forall>v. \<not> step t v" "inv t" by blast
    then have "(step ^^ Suc n) s t" using relpowp_Suc_I2 [where P = step, OF u] by blast
    then show ?thesis using \<open>\<forall>v. \<not> step t v\<close> \<open>inv t\<close> by blast
  next
    case False
    then have "(step ^^ 0) s s \<and> (\<forall>u. \<not> step s u) \<and> inv s" using less.prems by simp
    then show ?thesis by blast
  qed
qed

end

end
