(* ===== verification/Sharing.thy ===== *)
theory Sharing
  imports FallingBox Countdown
begin

text \<open>
  \<open>vstorage/sharing.py\<close> and \<open>sharing_tracked.py\<close>: a piece falls in the two boxes of one
  process, leaves it through a pipe, and goes on falling in the boxes of another. The pipe is a byte
  queue of bounded capacity; how much each \<open>write\<close> and \<open>read\<close> moves, and how the two processes
  interleave, is left to the operating system: a step relation. How many hops fit into the receiver's
  time, and what the memory snapshots show, are arguments.
\<close>

section \<open>The bounce\<close>

type_synonym boxes = "bytes \<times> bytes \<times> slot"

text \<open>\<open>dst[i:i + BOX_SIZE] = src[i:i + BOX_SIZE]\<close>: here the slice written has the full box size.\<close>

definition bounce_piece :: "bytes \<Rightarrow> nat \<Rightarrow> bytes \<Rightarrow> bytes" where
  "bounce_piece src i dst = slice_assign dst i (i + BOX_SIZE) (py_slice src i (i + BOX_SIZE))"

definition bounce_once :: "boxes \<Rightarrow> boxes" where
  "bounce_once s =
     (case s of
        (a, b, BoxA) \<Rightarrow> (a, fold (bounce_piece a) (py_range 0 (length a) BOX_SIZE) b, BoxB)
      | (a, b, BoxB) \<Rightarrow> (fold (bounce_piece b) (py_range 0 (length b) BOX_SIZE) a, b, BoxA))"

definition start_boxes :: "bytes \<Rightarrow> boxes" where
  "start_boxes data = (data, zeros (length data), BoxA)"

definition active_bytes :: "boxes \<Rightarrow> bytes" where
  "active_bytes s = (case s of (a, b, BoxA) \<Rightarrow> a | (a, b, BoxB) \<Rightarrow> b)"

definition boxes_ok :: "boxes \<Rightarrow> bool" where
  "boxes_ok s \<longleftrightarrow> (case s of (a, b, _) \<Rightarrow> length a = length b)"

lemma bounce_piece_copy:
  assumes "length dst = length src" "i < length src"
  shows "bounce_piece src i dst = copy_piece BOX_SIZE src i dst"
proof -
  let ?c = "py_slice src i (i + BOX_SIZE)"
  have "drop (i + BOX_SIZE) dst = drop (i + length ?c) dst"
    using assms by (simp add: length_py_slice min_def)
  then show ?thesis by (simp add: bounce_piece_def copy_piece_def slice_assign_def max_def Let_def)
qed

lemma bounce_pieces_copy:
  "length dst = length src \<Longrightarrow>
     fold (bounce_piece src) (py_range i (length src) BOX_SIZE) dst = fold (copy_piece BOX_SIZE src) (py_range i (length src) BOX_SIZE) dst"
proof (induction i "length src" BOX_SIZE arbitrary: dst rule: py_range.induct)
  case (1 i)
  show ?case
  proof (cases "i < length src")
    case True
    have "length (copy_piece BOX_SIZE src i dst) = length src"
      using "1.prems" True by (auto simp: copy_piece_def slice_assign_def py_slice_def Let_def)
    then show ?thesis
      using 1 True by (simp add: py_range_step bounce_piece_copy)
  qed simp
qed

lemma bounce_all:
  "length dst = length src \<Longrightarrow> n = length src \<Longrightarrow> fold (bounce_piece src) (py_range 0 n BOX_SIZE) dst = src"
  using bounce_pieces_copy [of dst src 0] by (simp flip: copy_pieces_def)

interpretation share: falling "\<lambda>_. True" "\<lambda>_::unit. bounce_once" active_bytes boxes_ok
  by unfold_locales (auto simp: boxes_ok_def active_bytes_def bounce_once_def bounce_all split: slot.splits)

lemma bounces_keep: "active_bytes ((bounce_once ^^ n) (start_boxes data)) = data"
proof -
  have "boxes_ok (start_boxes data)" "active_bytes (start_boxes data) = data"
    by (simp_all add: boxes_ok_def start_boxes_def active_bytes_def)
  from share.hops_from [OF this, of "replicate n ()"] show ?thesis by (simp add: fold_replicate list_all_iff)
qed

section \<open>The hand-off\<close>

text \<open>
  The sender has \<open>h_view\<close>, of which \<open>h_pos\<close> bytes are written. \<open>h_writers\<close> counts the open write ends: the
  sender, the parent, and the receiver, which inherits one at the fork and never closes it. \<open>h_boxes\<close>
  is what the sender's boxes still hold.
\<close>

record handoff =
  h_view :: bytes
  h_pos :: nat
  h_boxes :: boxes
  h_pipe :: bytes
  h_writers :: nat
  h_parent_open :: bool
  h_sender_alive :: bool
  h_received :: bytes
  h_expected :: nat
  h_done :: bool

definition sender_boxes :: "bytes \<Rightarrow> nat \<Rightarrow> boxes" where
  "sender_boxes data hops = (bounce_once ^^ hops) (start_boxes data)"

definition handoff_start :: "bytes \<Rightarrow> nat \<Rightarrow> handoff" where
  "handoff_start data hops =
     \<lparr>h_view = active_bytes (sender_boxes data hops), h_pos = 0, h_boxes = sender_boxes data hops, h_pipe = [],
      h_writers = 3, h_parent_open = True, h_sender_alive = True, h_received = [], h_expected = length data,
      h_done = False\<rparr>"

inductive hand_step :: "nat \<Rightarrow> handoff \<Rightarrow> handoff \<Rightarrow> bool" for cap where
  hs_write: "\<lbrakk>h_sender_alive s; h_pos s < length (h_view s); 0 < n;
      n \<le> length (py_slice (h_view s) (h_pos s) (h_pos s + BOX_SIZE)); length (h_pipe s) + n \<le> cap\<rbrakk> \<Longrightarrow>
    hand_step cap s (s\<lparr>h_pipe := h_pipe s @ py_slice (h_view s) (h_pos s) (h_pos s + n), h_pos := h_pos s + n\<rparr>)"
| hs_leave: "\<lbrakk>h_sender_alive s; length (h_view s) \<le> h_pos s\<rbrakk> \<Longrightarrow>
    hand_step cap s (s\<lparr>h_writers := h_writers s - 1, h_boxes := ([], [], BoxA), h_sender_alive := False\<rparr>)"
| hs_die: "\<lbrakk>h_sender_alive s; h_pos s < length (h_view s)\<rbrakk> \<Longrightarrow>
    hand_step cap s (s\<lparr>h_writers := h_writers s - 1, h_boxes := ([], [], BoxA), h_sender_alive := False\<rparr>)"
| hs_parent: "h_parent_open s \<Longrightarrow>
    hand_step cap s (s\<lparr>h_writers := h_writers s - 1, h_parent_open := False\<rparr>)"
| hs_read: "\<lbrakk>\<not> h_done s; length (h_received s) < h_expected s; 0 < n; n \<le> BOX_SIZE; n \<le> length (h_pipe s)\<rbrakk> \<Longrightarrow>
    hand_step cap s (s\<lparr>h_received := h_received s @ take n (h_pipe s), h_pipe := drop n (h_pipe s)\<rparr>)"
| hs_eof: "\<lbrakk>\<not> h_done s; length (h_received s) < h_expected s; h_pipe s = []; h_writers s = 0\<rbrakk> \<Longrightarrow>
    hand_step cap s (s\<lparr>h_done := True\<rparr>)"
| hs_finish: "\<lbrakk>\<not> h_done s; h_expected s \<le> length (h_received s)\<rbrakk> \<Longrightarrow> hand_step cap s (s\<lparr>h_done := True\<rparr>)"

inductive_cases hand_stepE: "hand_step cap s t"

definition receiver_final :: "bytes \<Rightarrow> nat \<Rightarrow> bytes" where
  "receiver_final received hops = active_bytes ((bounce_once ^^ hops) (start_boxes received))"

record handoff_result =
  byte_perfect :: bool
  hops_in_a :: nat
  hops_in_b :: nat
  bytes_moved :: nat

text \<open>The parent's result, when the receiver is done and has hopped \<open>b_hops\<close> times.\<close>

definition share_result :: "bytes \<Rightarrow> nat \<Rightarrow> nat \<Rightarrow> handoff \<Rightarrow> handoff_result" where
  "share_result data hops_before b_hops s =
     \<lparr>byte_perfect = (receiver_final (h_received s) b_hops = data), hops_in_a = hops_before, hops_in_b = b_hops,
      bytes_moved = length data\<rparr>"

section \<open>Nothing is lost and nothing is copied\<close>

text \<open>
  The bytes are, in order, with the receiver, in the pipe, and still with the sender; one write end is
  the receiver's own; a sender that is alive still holds its boxes.
\<close>

definition hand_inv :: "bytes \<Rightarrow> handoff \<Rightarrow> bool" where
  "hand_inv data s \<longleftrightarrow>
     h_view s = data \<and> h_received s @ h_pipe s = take (h_pos s) data \<and> h_pos s \<le> length data \<and>
     h_expected s = length data \<and>
     h_writers s = 1 + (if h_parent_open s then 1 else 0) + (if h_sender_alive s then 1 else 0) \<and>
     (h_done s \<longrightarrow> h_received s = data) \<and> (\<not> h_sender_alive s \<longrightarrow> h_boxes s = ([], [], BoxA))"

lemma hand_inv_start: "hand_inv data (handoff_start data hops)"
  by (simp add: hand_inv_def handoff_start_def sender_boxes_def bounces_keep)

lemma hand_inv_step:
  assumes "hand_step cap s t" "hand_inv data s"
  shows "hand_inv data t"
  using assms
proof (induction rule: hand_step.induct)
  case (hs_write s n)
  then have "take (h_pos s) data @ py_slice data (h_pos s) (h_pos s + n) = take (h_pos s + n) data"
    by (simp add: py_slice_def take_add)
  with hs_write show ?case by (auto simp: hand_inv_def length_py_slice simp flip: append_assoc)
next
  case (hs_read s n)
  then show ?case by (simp add: hand_inv_def)
next
  case (hs_finish s)
  then have "length (h_received s) + length (h_pipe s) = h_pos s"
    by (metis hand_inv_def length_append length_take min_absorb2)
  moreover have "h_pos s \<le> length data" "length data \<le> length (h_received s)"
    using hs_finish by (simp_all add: hand_inv_def)
  ultimately have "length (h_pipe s) = 0" "h_pos s = length data" by linarith+
  with hs_finish show ?case by (simp add: hand_inv_def)
qed (auto simp: hand_inv_def)

definition hand_left :: "handoff \<Rightarrow> nat" where
  "hand_left s = 2 * (length (h_view s) - h_pos s) + length (h_pipe s) + (if h_parent_open s then 1 else 0) +
     (if h_sender_alive s then 1 else 0) + (if h_done s then 0 else 1)"

lemma hand_left_step: "hand_step cap s t \<Longrightarrow> hand_left t < hand_left s"
  by (erule hand_stepE) (auto simp: hand_left_def length_py_slice)

interpretation hand: countdown "hand_step cap" "hand_inv data" hand_left for cap data
  by unfold_locales (auto intro: hand_inv_step hand_left_step)

text \<open>
  Property C33. A hand-off is a transfer: at every moment, however the two processes interleave and however
  small the pipe is, the bytes received, in the pipe and not yet written are together the data, in order;
  when the sender has left, its boxes hold nothing; and if the receiver gets done, the parent reports
  the piece as byte-perfect, whatever number of hops the receiver made.
\<close>

theorem handoff_is_a_transfer:
  assumes "(hand_step cap)\<^sup>*\<^sup>* (handoff_start data hops) s"
  shows "h_received s @ h_pipe s @ drop (h_pos s) (h_view s) = data \<and>
    (\<not> h_sender_alive s \<longrightarrow> active_bytes (h_boxes s) = []) \<and>
    (h_done s \<longrightarrow> h_pipe s = [] \<and> share_result data hops b_hops s =
       \<lparr>byte_perfect = True, hops_in_a = hops, hops_in_b = b_hops, bytes_moved = length data\<rparr>)"
proof -
  have inv: "hand_inv data s" by (rule hand.inv_reach [OF assms hand_inv_start])
  then have all: "h_received s @ h_pipe s @ drop (h_pos s) (h_view s) = data"
    by (metis append_assoc append_take_drop_id hand_inv_def)
  then have "h_done s \<longrightarrow> h_received s = data \<and> h_pipe s = []" using inv by (auto simp: hand_inv_def)
  moreover have "\<not> h_sender_alive s \<longrightarrow> active_bytes (h_boxes s) = []"
    using inv by (simp add: hand_inv_def active_bytes_def)
  ultimately show ?thesis using all by (auto simp: share_result_def receiver_final_def bounces_keep)
qed

section \<open>How a hand-off ends\<close>

lemma hand_stuck:
  assumes "0 < cap" "hand_inv data s" "\<not> h_done s" "\<And>t. \<not> hand_step cap s t"
  shows "h_pos s < length data \<and> \<not> h_sender_alive s"
proof -
  have alive: "\<not> h_sender_alive s"
    using assms(4) hs_leave [of s cap] hs_die [of s cap] by (meson not_le)
  have inv: "h_received s @ h_pipe s = take (h_pos s) data" "h_pos s \<le> length data" "h_expected s = length data"
    using assms(2) by (simp_all add: hand_inv_def)
  have less: "length (h_received s) < h_expected s"
    using assms(3,4) hs_finish [of s cap] by (meson not_le)
  have "h_pipe s = []"
  proof (rule ccontr)
    assume "h_pipe s \<noteq> []"
    then have "1 \<le> length (h_pipe s)" by (cases "h_pipe s") auto
    then show False
      using assms(3,4) less hs_read [of s 1 cap] by (auto simp: BOX_SIZE_def)
  qed
  then have "length (h_received s) = h_pos s" using inv(1,2) by simp
  then show ?thesis using alive less inv(3) by simp
qed

text \<open>
  Property C34. A hand-off always comes to an end within twice as many steps as there are bytes, plus three. When
  nothing more can happen, the receiver is done if and only if all bytes were written: a complete
  hand-off is never stuck, but if the sender dies before, the receiver waits for ever. The end of file it
  looks for cannot come, because it holds a write end of the pipe itself.
\<close>

theorem handoff_ends:
  assumes "0 < cap"
  shows "\<forall>n s. (hand_step cap ^^ n) (handoff_start data hops) s \<longrightarrow> n \<le> 2 * length data + 3 \<and>
    ((\<forall>t. \<not> hand_step cap s t) \<longrightarrow> (h_done s \<longleftrightarrow> h_pos s = length data)) \<and> 0 < h_writers s"
proof (intro allI impI)
  fix n s
  assume run: "(hand_step cap ^^ n) (handoff_start data hops) s"
  then have inv: "hand_inv data s" using hand_inv_start by (rule hand.inv_steps)
  have "hand_left (handoff_start data hops) = 2 * length data + 3"
    by (simp add: hand_left_def handoff_start_def sender_boxes_def bounces_keep)
  then have "n \<le> 2 * length data + 3" using hand.left_steps [OF run hand_inv_start] by simp
  moreover have "h_done s \<longrightarrow> h_pos s = length data"
  proof
    assume "h_done s"
    then have "data @ h_pipe s = take (h_pos s) data" "h_pos s \<le> length data" using inv by (auto simp: hand_inv_def)
    then have "length data + length (h_pipe s) = h_pos s" by (metis length_append length_take min_absorb2)
    then show "h_pos s = length data" using \<open>h_pos s \<le> length data\<close> by simp
  qed
  moreover have "(\<forall>t. \<not> hand_step cap s t) \<longrightarrow> h_pos s = length data \<longrightarrow> h_done s"
  proof (intro impI, rule ccontr)
    assume stuck: "\<forall>t. \<not> hand_step cap s t" "h_pos s = length data" "\<not> h_done s"
    from hand_stuck [OF assms inv stuck(3) stuck(1) [rule_format]] stuck(2) show False by simp
  qed
  moreover have "0 < h_writers s" using inv by (simp add: hand_inv_def)
  ultimately show "n \<le> 2 * length data + 3 \<and>
      ((\<forall>t. \<not> hand_step cap s t) \<longrightarrow> (h_done s \<longleftrightarrow> h_pos s = length data)) \<and> 0 < h_writers s" by blast
qed

text \<open>One byte through a pipe of one byte.\<close>

lemma demo_hand_run:
  "\<exists>s. (hand_step 1 ^^ 4) (handoff_start [7] 2) s \<and> h_done s \<and> h_received s = [7]"
proof -
  let ?s0 = "handoff_start [7] 2"
  have v: "h_view ?s0 = [7]" "h_expected ?s0 = 1"
    by (simp_all add: handoff_start_def sender_boxes_def bounces_keep)
  let ?s1 = "?s0\<lparr>h_pipe := h_pipe ?s0 @ py_slice (h_view ?s0) (h_pos ?s0) (h_pos ?s0 + 1), h_pos := h_pos ?s0 + 1\<rparr>"
  have p: "h_pipe ?s0 = []" "h_pos ?s0 = 0" "h_received ?s0 = []" "h_sender_alive ?s0" "\<not> h_done ?s0"
    by (simp_all add: handoff_start_def)
  have 1: "hand_step 1 ?s0 ?s1" by (rule hs_write) (simp_all add: v p py_slice_def BOX_SIZE_def)
  let ?s2 = "?s1\<lparr>h_writers := h_writers ?s1 - 1, h_boxes := ([], [], BoxA), h_sender_alive := False\<rparr>"
  have 2: "hand_step 1 ?s1 ?s2" by (rule hs_leave) (simp_all add: v p)
  let ?s3 = "?s2\<lparr>h_received := h_received ?s2 @ take 1 (h_pipe ?s2), h_pipe := drop 1 (h_pipe ?s2)\<rparr>"
  have 3: "hand_step 1 ?s2 ?s3" by (rule hs_read) (simp_all add: v p py_slice_def BOX_SIZE_def)
  have 4: "hand_step 1 ?s3 (?s3\<lparr>h_done := True\<rparr>)" by (rule hs_finish) (simp_all add: v p py_slice_def)
  have "(hand_step 1 ^^ 4) ?s0 (?s3\<lparr>h_done := True\<rparr>)"
    using 1 2 3 4 by (auto simp: numeral_eq_Suc relcompp_apply)
  then show ?thesis by (intro exI [of _ "?s3\<lparr>h_done := True\<rparr>"]) (simp add: v p py_slice_def)
qed

theorem handoff_is_a_transfer_witness:
  "\<exists>s. h_done s \<and> byte_perfect (share_result [7] 2 9 s)"
proof -
  obtain s where s: "(hand_step 1 ^^ 4) (handoff_start [7] 2) s" "h_done s" using demo_hand_run by blast
  from handoff_is_a_transfer [OF relpowp_imp_rtranclp [OF s(1)], of 9] s(2) show ?thesis by auto
qed

theorem handoff_ends_witness:
  "\<exists>s. (hand_step 1 ^^ 4) (handoff_start [7] 2) s \<and> 4 \<le> 2 * length [7 :: byte] + 3 \<and> 0 < h_writers s"
  using handoff_ends [of 1 "[7]" 2] demo_hand_run by auto

section \<open>With memory snapshots\<close>

text \<open>\<open>sharing_tracked.py\<close>: both processes send their labelled snapshots, the receiver also its piece.\<close>

datatype 'm payload =
    FromA "(string \<times> 'm) list"
  | FromB "(string \<times> 'm) list" bytes nat

text \<open>The sender: what it writes to the pipe, its boxes afterwards, and its message.\<close>

definition tracked_sender :: "(nat \<Rightarrow> 'm) \<Rightarrow> bytes \<Rightarrow> nat \<Rightarrow> bytes \<times> boxes \<times> 'm payload" where
  "tracked_sender snap data hops =
     (let current = active_bytes ((bounce_once ^^ hops) (start_boxes data))
      in (current, ([], [], BoxA), FromA
           [(''A: start'', snap 0), (''A: holding piece, before falling'', snap 1), (''A: right before hand-off'', snap 2),
            (''A: right after hand-off (boxes cleared)'', snap 3)]))"

text \<open>The receiver's loop over the chunks that \<open>os.read\<close> returns, an empty one at the end of the file.\<close>

fun receive_loop :: "nat \<Rightarrow> bytes list \<Rightarrow> bytes \<Rightarrow> bytes" where
  "receive_loop expected [] received = received"
| "receive_loop expected (chunk # chunks) received =
     (if expected \<le> length received \<or> chunk = [] then received else receive_loop expected chunks (received @ chunk))"

definition tracked_receiver :: "(nat \<Rightarrow> 'm) \<Rightarrow> nat \<Rightarrow> bytes list \<Rightarrow> nat \<Rightarrow> 'm payload" where
  "tracked_receiver snap expected chunks hops =
     (let received = receive_loop expected chunks []
      in FromB
           [(''B: start, before receiving anything'', snap 0), (''B: right after receiving'', snap 1),
            (''B: after falling independently'', snap 2)] (receiver_final received hops) hops)"

record ('m, 'y) tracked =
  tk_a :: "(string \<times> 'm) list option"
  tk_b :: "(string \<times> 'm) list option"
  tk_final :: "bytes option"
  tk_hops :: "nat option"
  tk_before :: 'y
  tk_after :: "'y option"

fun take_payload :: "'m payload \<Rightarrow> ('m, 'y) tracked \<Rightarrow> ('m, 'y) tracked" where
  "take_payload (FromA snaps) t = t\<lparr>tk_a := Some snaps\<rparr>"
| "take_payload (FromB snaps final hops) t = t\<lparr>tk_b := Some snaps, tk_final := Some final, tk_hops := Some hops\<rparr>"

definition gather :: "'y \<Rightarrow> 'y \<Rightarrow> 'm payload list \<Rightarrow> ('m, 'y) tracked" where
  "gather sys_before sys_after queue =
     (fold take_payload (take 2 queue)
        \<lparr>tk_a = None, tk_b = None, tk_final = None, tk_hops = None, tk_before = sys_before, tk_after = None\<rparr>)
      \<lparr>tk_after := Some sys_after\<rparr>"

definition tracked_perfect :: "bytes \<Rightarrow> ('m, 'y) tracked \<Rightarrow> bool" where
  "tracked_perfect data t = (tk_final t = Some data)"

lemma receive_all:
  "[] \<notin> set chunks \<Longrightarrow> length received + length (concat chunks) = expected \<Longrightarrow>
     receive_loop expected chunks received = received @ concat chunks"
proof (induction chunks arbitrary: received)
  case (Cons c chunks)
  then have "\<not> expected \<le> length received" "c \<noteq> []" by (auto simp flip: length_greater_0_conv)
  then show ?case using Cons by simp
qed simp

text \<open>The two messages may come in either order; the piece is byte-perfect however the pipe cuts it.\<close>

lemma gather_any_order:
  assumes "fst (tracked_sender f data a_hops) = concat chunks" "[] \<notin> set chunks"
  shows "gather y z [snd (snd (tracked_sender f data a_hops)), tracked_receiver g (length data) chunks n] =
      gather y z [tracked_receiver g (length data) chunks n, snd (snd (tracked_sender f data a_hops))]"
    and "tracked_perfect data (gather y z [snd (snd (tracked_sender f data a_hops)), tracked_receiver g (length data) chunks n])"
proof -
  have data: "concat chunks = data" using assms(1) by (simp add: tracked_sender_def Let_def bounces_keep)
  then have "receive_loop (length data) chunks [] = data" using receive_all [OF assms(2), of "[]"] by simp
  then show "gather y z [snd (snd (tracked_sender f data a_hops)), tracked_receiver g (length data) chunks n] =
      gather y z [tracked_receiver g (length data) chunks n, snd (snd (tracked_sender f data a_hops))]"
    "tracked_perfect data (gather y z [snd (snd (tracked_sender f data a_hops)), tracked_receiver g (length data) chunks n])"
    by (simp_all add: gather_def tracked_sender_def tracked_receiver_def tracked_perfect_def Let_def receiver_final_def bounces_keep)
qed

end
