(* ===== verification/Splice.thy ===== *)
theory Splice
  imports Prelude Countdown
begin

text \<open>
  \<open>splice_move\<close> of \<open>vstorage/splice_stealth.py\<close>: a feeding thread writes the data into one pipe, the
  caller splices it into a second one, a draining thread collects it. Who runs when, and how much each
  call moves, is the operating system's choice; both pipes have bounded capacity; a write of the feeder may
  fail. \<open>measure_stealth_flow_from_file\<close> moves a file the same way and keeps none of it.
\<close>

definition CHUNK :: nat where
  "CHUNK = 64 * 1024"

record splicing =
  sp_rest :: bytes
  sp_src :: bytes
  sp_src_open :: bool
  sp_errors :: "pyerr list"
  sp_remaining :: nat
  sp_running :: bool
  sp_dst :: bytes
  sp_received :: bytes
  sp_drained :: bool

definition splice_start :: "bytes \<Rightarrow> splicing" where
  "splice_start data = \<lparr>sp_rest = data, sp_src = [], sp_src_open = True, sp_errors = [], sp_remaining = length data,
     sp_running = True, sp_dst = [], sp_received = [], sp_drained = False\<rparr>"

text \<open>\<open>feed\<close>: the feeder; \<open>move\<close>: the loop around \<open>os.splice\<close>; \<open>drain\<close>: the reader.\<close>

inductive splice_step :: "nat \<Rightarrow> splicing \<Rightarrow> splicing \<Rightarrow> bool" for cap where
  feed: "\<lbrakk>sp_src_open s; 0 < n; n \<le> CHUNK; n \<le> length (sp_rest s); length (sp_src s) + n \<le> cap\<rbrakk> \<Longrightarrow>
    splice_step cap s (s\<lparr>sp_src := sp_src s @ take n (sp_rest s), sp_rest := drop n (sp_rest s)\<rparr>)"
| feed_fails: "\<lbrakk>sp_src_open s; sp_rest s \<noteq> []\<rbrakk> \<Longrightarrow>
    splice_step cap s (s\<lparr>sp_errors := sp_errors s @ [OSError], sp_src_open := False\<rparr>)"
| feed_ends: "\<lbrakk>sp_src_open s; sp_rest s = []\<rbrakk> \<Longrightarrow> splice_step cap s (s\<lparr>sp_src_open := False\<rparr>)"
| move: "\<lbrakk>sp_running s; 0 < n; n \<le> min CHUNK (sp_remaining s); n \<le> length (sp_src s); length (sp_dst s) + n \<le> cap\<rbrakk> \<Longrightarrow>
    splice_step cap s (s\<lparr>sp_dst := sp_dst s @ take n (sp_src s), sp_src := drop n (sp_src s),
      sp_remaining := sp_remaining s - n\<rparr>)"
| move_breaks: "\<lbrakk>sp_running s; 0 < sp_remaining s; sp_src s = []; \<not> sp_src_open s\<rbrakk> \<Longrightarrow>
    splice_step cap s (s\<lparr>sp_running := False\<rparr>)"
| move_ends: "\<lbrakk>sp_running s; sp_remaining s = 0\<rbrakk> \<Longrightarrow> splice_step cap s (s\<lparr>sp_running := False\<rparr>)"
| drain: "\<lbrakk>\<not> sp_drained s; 0 < n; n \<le> CHUNK; n \<le> length (sp_dst s)\<rbrakk> \<Longrightarrow>
    splice_step cap s (s\<lparr>sp_received := sp_received s @ take n (sp_dst s), sp_dst := drop n (sp_dst s)\<rparr>)"
| drain_ends: "\<lbrakk>\<not> sp_drained s; sp_dst s = []; \<not> sp_running s\<rbrakk> \<Longrightarrow> splice_step cap s (s\<lparr>sp_drained := True\<rparr>)"

inductive_cases splice_stepE: "splice_step cap s t"

text \<open>After joining both threads.\<close>

definition splice_joined :: "splicing \<Rightarrow> bool" where
  "splice_joined s \<longleftrightarrow> \<not> sp_running s \<and> \<not> sp_src_open s \<and> sp_drained s"

definition splice_result :: "splicing \<Rightarrow> bytes res" where
  "splice_result s = (case sp_errors s of [] \<Rightarrow> Inr (sp_received s) | e # _ \<Rightarrow> Inl e)"

definition splice_inv :: "bytes \<Rightarrow> splicing \<Rightarrow> bool" where
  "splice_inv data s \<longleftrightarrow>
     sp_received s @ sp_dst s @ sp_src s @ sp_rest s = data \<and>
     sp_remaining s = length (sp_src s) + length (sp_rest s) \<and>
     (\<not> sp_src_open s \<longrightarrow> sp_rest s = [] \<and> sp_errors s = [] \<or> sp_rest s \<noteq> [] \<and> sp_errors s = [OSError]) \<and>
     (sp_src_open s \<longrightarrow> sp_errors s = []) \<and>
     (\<not> sp_running s \<longrightarrow> sp_src s = [] \<and> (sp_rest s \<noteq> [] \<longrightarrow> \<not> sp_src_open s)) \<and>
     (sp_drained s \<longrightarrow> sp_dst s = [] \<and> \<not> sp_running s)"

definition splice_left :: "splicing \<Rightarrow> nat" where
  "splice_left s = 3 * length (sp_rest s) + 2 * length (sp_src s) + length (sp_dst s) +
     (if sp_src_open s then 1 else 0) + (if sp_running s then 1 else 0) + (if sp_drained s then 0 else 1)"

lemma splice_inv_start: "splice_inv data (splice_start data)"
  by (simp add: splice_inv_def splice_start_def)

lemma splice_inv_step: "splice_step cap s t \<Longrightarrow> splice_inv data s \<Longrightarrow> splice_inv data t"
  by (erule splice_stepE) (auto simp: splice_inv_def)

lemma splice_left_step: "splice_step cap s t \<Longrightarrow> splice_left t < splice_left s"
  by (erule splice_stepE) (auto simp: splice_left_def)

interpretation splice: countdown "splice_step cap" "splice_inv data" splice_left for cap data
  by unfold_locales (auto intro: splice_inv_step splice_left_step)

text \<open>Until all threads are joined one of them can go on, and not only by failing.\<close>

lemma splice_goes_on:
  assumes "0 < cap" "splice_inv data s" "\<And>t. splice_step cap s t \<Longrightarrow> sp_errors t \<noteq> sp_errors s"
  shows "splice_joined s"
proof -
  have dst: "sp_dst s = [] \<or> sp_drained s"
  proof (rule ccontr)
    assume "\<not> (sp_dst s = [] \<or> sp_drained s)"
    then have "\<not> sp_drained s" "1 \<le> length (sp_dst s)" by (auto simp: Suc_le_eq)
    then show False using assms(3) [OF drain [of s 1]] by (simp add: CHUNK_def)
  qed
  then have empty: "sp_dst s = []" using assms(2) by (auto simp: splice_inv_def)
  have src: "sp_src s = [] \<or> \<not> sp_running s"
  proof (rule ccontr)
    assume "\<not> (sp_src s = [] \<or> \<not> sp_running s)"
    then have "sp_running s" "1 \<le> length (sp_src s)" by (auto simp: Suc_le_eq)
    moreover have "1 \<le> sp_remaining s" using calculation assms(2) by (simp add: splice_inv_def)
    ultimately show False using assms(1) empty assms(3) [OF move [of s 1]] by (simp add: CHUNK_def)
  qed
  then have empty2: "sp_src s = []" using assms(2) by (auto simp: splice_inv_def)
  have closed: "\<not> sp_src_open s"
  proof
    assume o: "sp_src_open s"
    show False
    proof (cases "sp_rest s = []")
      case True
      then show False using o assms(3) [OF feed_ends [of s]] by simp
    next
      case False
      then have "1 \<le> length (sp_rest s)" by (simp add: Suc_le_eq)
      then show False using o assms(1) empty2 assms(3) [OF feed [of s 1]] by (simp add: CHUNK_def)
    qed
  qed
  have "\<not> sp_running s"
  proof
    assume r: "sp_running s"
    show False
    proof (cases "sp_remaining s = 0")
      case True
      then show False using r assms(3) [OF move_ends [of s]] by simp
    next
      case False
      then show False using r closed empty2 assms(3) [OF move_breaks [of s]] by simp
    qed
  qed
  moreover have "sp_drained s"
    using calculation empty assms(3) [OF drain_ends [of s]] by (cases "sp_drained s") simp_all
  ultimately show ?thesis using closed by (simp add: splice_joined_def)
qed

text \<open>
  Property C35. \<open>splice_move\<close> always returns, and gives the data or raises, never a part of it: however the
  three threads interleave and however small the pipes are, no run takes more than three steps per
  byte, plus three; until all threads are joined one of them can go on without failing, so there is no
  deadlock; and then the result is exactly the data
  unless the feeder failed, in which case its error is raised.
\<close>

theorem splice_gives_all_or_raises:
  assumes "0 < cap"
  shows "\<forall>n s. (splice_step cap ^^ n) (splice_start data) s \<longrightarrow> n \<le> 3 * length data + 3 \<and>
    (splice_joined s \<or> (\<exists>t. splice_step cap s t \<and> sp_errors t = sp_errors s)) \<and>
    (splice_joined s \<longrightarrow> splice_result s = (if sp_rest s = [] then Inr data else Inl OSError))"
proof (intro allI impI)
  fix n s
  assume run: "(splice_step cap ^^ n) (splice_start data) s"
  have inv: "splice_inv data s" by (rule splice.inv_steps [OF run splice_inv_start])
  have "splice_left (splice_start data) = 3 * length data + 3" by (simp add: splice_left_def splice_start_def)
  then have "n \<le> 3 * length data + 3" using splice.left_steps [OF run splice_inv_start] by simp
  moreover have "splice_joined s \<or> (\<exists>t. splice_step cap s t \<and> sp_errors t = sp_errors s)"
    using splice_goes_on [OF assms inv] by blast
  moreover have "splice_joined s \<longrightarrow> splice_result s = (if sp_rest s = [] then Inr data else Inl OSError)"
    using inv by (auto simp: splice_joined_def splice_inv_def splice_result_def)
  ultimately show "n \<le> 3 * length data + 3 \<and>
      (splice_joined s \<or> (\<exists>t. splice_step cap s t \<and> sp_errors t = sp_errors s)) \<and>
      (splice_joined s \<longrightarrow> splice_result s = (if sp_rest s = [] then Inr data else Inl OSError))" by blast
qed

text \<open>One byte all the way.\<close>

lemma demo_splice:
  "\<exists>s. (splice_step 1 ^^ 6) (splice_start [4]) s \<and> splice_joined s \<and> sp_rest s = []"
proof -
  let ?s0 = "splice_start [4]"
  let ?s1 = "?s0\<lparr>sp_src := [4], sp_rest := []\<rparr>"
  let ?s2 = "?s1\<lparr>sp_src_open := False\<rparr>"
  let ?s3 = "?s2\<lparr>sp_dst := [4], sp_src := [], sp_remaining := 0\<rparr>"
  let ?s4 = "?s3\<lparr>sp_running := False\<rparr>"
  let ?s5 = "?s4\<lparr>sp_received := [4], sp_dst := []\<rparr>"
  let ?s6 = "?s5\<lparr>sp_drained := True\<rparr>"
  have a1: "splice_step 1 ?s0 ?s1" using feed [of ?s0 1 1] by (simp add: splice_start_def CHUNK_def)
  have a2: "splice_step 1 ?s1 ?s2" by (rule feed_ends) (simp_all add: splice_start_def)
  have a3: "splice_step 1 ?s2 ?s3" using move [of ?s2 1 1] by (simp add: splice_start_def CHUNK_def)
  have a4: "splice_step 1 ?s3 ?s4" by (rule move_ends) (simp_all add: splice_start_def)
  have a5: "splice_step 1 ?s4 ?s5" using drain [of ?s4 1 1] by (simp add: splice_start_def CHUNK_def)
  have a6: "splice_step 1 ?s5 ?s6" by (rule drain_ends) (simp_all add: splice_start_def)
  note I = relpowp_Suc_I [where P = "splice_step 1"]
  have "(splice_step 1 ^^ Suc (Suc (Suc (Suc (Suc (Suc 0)))))) ?s0 ?s6"
    by (rule I [OF I [OF I [OF I [OF I [OF I [OF relpowp_0_I a1] a2] a3] a4] a5] a6])
  then have "(splice_step 1 ^^ 6) ?s0 ?s6" by (simp add: eval_nat_numeral)
  then show ?thesis by (intro exI [of _ ?s6]) (simp add: splice_joined_def splice_start_def)
qed

theorem splice_gives_all_or_raises_witness:
  "\<exists>n s. (splice_step 1 ^^ n) (splice_start [4]) s \<and> splice_joined s \<and> splice_result s = Inr [4]"
proof -
  obtain s where s: "(splice_step 1 ^^ 6) (splice_start [4]) s" "splice_joined s" "sp_rest s = []"
    using demo_splice by blast
  from splice_gives_all_or_raises [OF zero_less_one, rule_format, OF s(1)] s show ?thesis by auto
qed

section \<open>The stealth measurement\<close>

text \<open>
  \<open>measure_stealth_flow_from_file\<close>: the feeder reads the file \<open>CHUNK\<close> bytes at a time and writes each chunk in
  pieces; the drain keeps only the number of bytes; a fourth thread takes samples. The size of the file was looked
  up before and need not be what is read. Once the caller has closed the reading end of the first pipe the
  feeder's writes fail.
\<close>

record flowing =
  fw_file :: bytes
  fw_chunk :: bytes
  fw_src :: bytes
  fw_src_open :: bool
  fw_errors :: "pyerr list"
  fw_remaining :: nat
  fw_running :: bool
  fw_dst :: bytes
  fw_discarded :: nat
  fw_drained :: bool
  fw_done :: bool
  fw_sampling :: bool
  fw_samples :: "rat list"

definition flow_start :: "nat \<Rightarrow> bytes \<Rightarrow> flowing" where
  "flow_start file_size data = \<lparr>fw_file = data, fw_chunk = [], fw_src = [], fw_src_open = True, fw_errors = [],
     fw_remaining = file_size, fw_running = True, fw_dst = [], fw_discarded = 0, fw_drained = False, fw_done = False,
     fw_sampling = False, fw_samples = []\<rparr>"

definition flow_joined :: "flowing \<Rightarrow> bool" where
  "flow_joined s \<longleftrightarrow> \<not> fw_running s \<and> \<not> fw_src_open s \<and> fw_drained s"

inductive flow_step :: "nat \<Rightarrow> flowing \<Rightarrow> flowing \<Rightarrow> bool" for cap where
  read_chunk: "\<lbrakk>fw_src_open s; fw_chunk s = []; fw_file s \<noteq> []\<rbrakk> \<Longrightarrow>
    flow_step cap s (s\<lparr>fw_chunk := take CHUNK (fw_file s), fw_file := drop CHUNK (fw_file s)\<rparr>)"
| read_fails: "\<lbrakk>fw_src_open s; fw_chunk s = []\<rbrakk> \<Longrightarrow>
    flow_step cap s (s\<lparr>fw_errors := fw_errors s @ [OSError], fw_src_open := False\<rparr>)"
| read_ends: "\<lbrakk>fw_src_open s; fw_chunk s = []; fw_file s = []\<rbrakk> \<Longrightarrow> flow_step cap s (s\<lparr>fw_src_open := False\<rparr>)"
| put: "\<lbrakk>fw_src_open s; fw_running s; 0 < n; n \<le> length (fw_chunk s); length (fw_src s) + n \<le> cap\<rbrakk> \<Longrightarrow>
    flow_step cap s (s\<lparr>fw_src := fw_src s @ take n (fw_chunk s), fw_chunk := drop n (fw_chunk s)\<rparr>)"
| put_fails: "\<lbrakk>fw_src_open s; \<not> fw_running s; fw_chunk s \<noteq> []\<rbrakk> \<Longrightarrow>
    flow_step cap s (s\<lparr>fw_errors := fw_errors s @ [OSError], fw_src_open := False\<rparr>)"
| flow_move: "\<lbrakk>fw_running s; 0 < n; n \<le> min CHUNK (fw_remaining s); n \<le> length (fw_src s); length (fw_dst s) + n \<le> cap\<rbrakk> \<Longrightarrow>
    flow_step cap s (s\<lparr>fw_dst := fw_dst s @ take n (fw_src s), fw_src := drop n (fw_src s),
      fw_remaining := fw_remaining s - n\<rparr>)"
| flow_breaks: "\<lbrakk>fw_running s; 0 < fw_remaining s; fw_src s = []; \<not> fw_src_open s\<rbrakk> \<Longrightarrow>
    flow_step cap s (s\<lparr>fw_running := False\<rparr>)"
| flow_ends: "\<lbrakk>fw_running s; fw_remaining s = 0\<rbrakk> \<Longrightarrow> flow_step cap s (s\<lparr>fw_running := False\<rparr>)"
| discard: "\<lbrakk>\<not> fw_drained s; 0 < n; n \<le> CHUNK; n \<le> length (fw_dst s)\<rbrakk> \<Longrightarrow>
    flow_step cap s (s\<lparr>fw_dst := drop n (fw_dst s), fw_discarded := fw_discarded s + n\<rparr>)"
| discard_ends: "\<lbrakk>\<not> fw_drained s; fw_dst s = []; \<not> fw_running s\<rbrakk> \<Longrightarrow> flow_step cap s (s\<lparr>fw_drained := True\<rparr>)"
| set_done: "\<lbrakk>flow_joined s; \<not> fw_done s\<rbrakk> \<Longrightarrow> flow_step cap s (s\<lparr>fw_done := True\<rparr>)"

inductive_cases flow_stepE: "flow_step cap s t"

text \<open>With the sampler in between, as often as it likes; \<open>m\<close> counts the steps of the others.\<close>

inductive flow_run :: "nat \<Rightarrow> nat \<Rightarrow> flowing \<Rightarrow> flowing \<Rightarrow> bool" for cap where
  no_step: "flow_run cap 0 s s"
| one_step: "flow_run cap m s t \<Longrightarrow> flow_step cap t u \<Longrightarrow> flow_run cap (Suc m) s u"
| sampler_tests: "flow_run cap m s t \<Longrightarrow> \<not> fw_done t \<Longrightarrow> flow_run cap m s (t\<lparr>fw_sampling := True\<rparr>)"
| sampler_samples: "flow_run cap m s t \<Longrightarrow> fw_sampling t \<Longrightarrow>
    flow_run cap m s (t\<lparr>fw_samples := fw_samples t @ [v], fw_sampling := False\<rparr>)"

definition flow_finished :: "flowing \<Rightarrow> bool" where
  "flow_finished s \<longleftrightarrow> fw_done s \<and> \<not> fw_sampling s"

record flow =
  fl_bytes_moved :: nat
  fl_rss_min :: rat
  fl_rss_avg :: rat
  fl_rss_max :: rat
  fl_system_delta :: rat
  fl_samples :: nat

text \<open>\<open>now\<close> is the sample taken if the sampler got none.\<close>

definition flow_result :: "nat \<Rightarrow> rat \<Rightarrow> rat \<Rightarrow> rat \<Rightarrow> flowing \<Rightarrow> flow res" where
  "flow_result file_size now sys_before sys_after s =
     (case fw_errors s of e # _ \<Rightarrow> Inl e
      | [] \<Rightarrow> (let xs = (if fw_samples s = [] then [now] else fw_samples s) in
          Inr \<lparr>fl_bytes_moved = file_size, fl_rss_min = Min (set xs), fl_rss_avg = sum_list xs / of_nat (length xs),
               fl_rss_max = Max (set xs), fl_system_delta = sys_after - sys_before, fl_samples = length xs\<rparr>))"

definition flow_inv :: "nat \<Rightarrow> nat \<Rightarrow> nat \<Rightarrow> flowing \<Rightarrow> bool" where
  "flow_inv cap file_size len s \<longleftrightarrow>
     fw_discarded s + length (fw_dst s) + length (fw_src s) + length (fw_chunk s) + length (fw_file s) = len \<and>
     fw_discarded s + length (fw_dst s) + fw_remaining s = file_size \<and>
     length (fw_chunk s) \<le> CHUNK \<and> length (fw_src s) \<le> cap \<and> length (fw_dst s) \<le> cap \<and>
     (fw_src_open s \<longrightarrow> fw_errors s = []) \<and>
     (\<not> fw_src_open s \<and> fw_errors s = [] \<longrightarrow> fw_chunk s = [] \<and> fw_file s = []) \<and>
     (fw_errors s = [] \<or> fw_errors s = [OSError]) \<and>
     (\<not> fw_running s \<longrightarrow> fw_remaining s = 0 \<or> fw_src s = [] \<and> \<not> fw_src_open s) \<and>
     (fw_drained s \<longrightarrow> fw_dst s = [] \<and> \<not> fw_running s) \<and>
     (fw_done s \<longrightarrow> flow_joined s)"

definition flow_left :: "flowing \<Rightarrow> nat" where
  "flow_left s = 4 * length (fw_file s) + 3 * length (fw_chunk s) + 2 * length (fw_src s) + length (fw_dst s) +
     (if fw_src_open s then 1 else 0) + (if fw_running s then 1 else 0) + (if fw_drained s then 0 else 1) +
     (if fw_done s then 0 else 1)"

lemma flow_inv_start: "flow_inv cap file_size (length data) (flow_start file_size data)"
  by (simp add: flow_inv_def flow_start_def)

lemma flow_inv_step: "flow_step cap s t \<Longrightarrow> flow_inv cap file_size len s \<Longrightarrow> flow_inv cap file_size len t"
  by (erule flow_stepE) (auto simp: flow_inv_def flow_joined_def)

lemma flow_left_step: "flow_step cap s t \<Longrightarrow> flow_left t < flow_left s"
  by (erule flow_stepE) (auto simp: flow_left_def CHUNK_def min_def split: if_splits)

interpretation flow: countdown "flow_step cap" "flow_inv cap file_size len" flow_left for cap file_size len
  by unfold_locales (auto intro: flow_inv_step flow_left_step)

lemma flow_run_inv:
  "flow_run cap m s t \<Longrightarrow> flow_inv cap file_size len s \<Longrightarrow> flow_inv cap file_size len t \<and> m + flow_left t \<le> flow_left s"
proof (induction rule: flow_run.induct)
  case (one_step m s t u)
  then have "flow_inv cap file_size len t" "m + flow_left t \<le> flow_left s" by simp_all
  then show ?case using flow_inv_step [OF one_step.hyps(2)] flow_left_step [OF one_step.hyps(2)] by auto
next
  case (sampler_tests m s t)
  then show ?case by (simp add: flow_inv_def flow_left_def flow_joined_def)
next
  case (sampler_samples m s t v)
  then show ?case by (simp add: flow_inv_def flow_left_def flow_joined_def)
qed simp

text \<open>Whoever is not done can go on without a failure.\<close>

lemma flow_goes_on:
  assumes "0 < cap" "flow_inv cap file_size len s" "\<not> fw_done s" "\<And>t. flow_step cap s t \<Longrightarrow> \<not> fw_running s \<or> fw_errors t \<noteq> fw_errors s"
    and "\<And>t. \<not> fw_running s \<Longrightarrow> \<not> flow_step cap s t"
  shows False
proof -
  have "fw_dst s = [] \<or> fw_drained s"
  proof (rule ccontr)
    assume "\<not> (fw_dst s = [] \<or> fw_drained s)"
    then have "\<not> fw_drained s" "1 \<le> length (fw_dst s)" by (auto simp: Suc_le_eq)
    note d = discard [of s 1, OF this(1) _ _ this(2)]
    show False using assms(4) [OF d] assms(5) d by (auto simp: CHUNK_def)
  qed
  then have dst: "fw_dst s = []" using assms(2) by (auto simp: flow_inv_def)
  show False
  proof (cases "fw_running s")
    case True
    have "fw_remaining s \<noteq> 0" using assms(4) [OF flow_ends [of s]] True by auto
    moreover have "fw_src s = []"
    proof (rule ccontr)
      assume "fw_src s \<noteq> []"
      then have "1 \<le> length (fw_src s)" "1 \<le> fw_remaining s" using \<open>fw_remaining s \<noteq> 0\<close> by (simp_all add: Suc_le_eq)
      then show False using True assms(1) dst assms(4) [OF flow_move [of s 1]] by (simp add: CHUNK_def)
    qed
    moreover have "\<not> fw_src_open s"
    proof
      assume o: "fw_src_open s"
      show False
      proof (cases "fw_chunk s = []")
        case True
        then show False using o \<open>fw_running s\<close> assms(4) [OF read_chunk [of s]] assms(4) [OF read_ends [of s]]
          by (cases "fw_file s = []") simp_all
      next
        case False
        then have "1 \<le> length (fw_chunk s)" by (simp add: Suc_le_eq)
        then show False using o True \<open>fw_src s = []\<close> assms(1) assms(4) [OF put [of s 1]] by simp
      qed
    qed
    ultimately show False using True assms(4) [OF flow_breaks [of s]] by simp
  next
    case False
    note stuck = assms(5) [OF False]
    have "\<not> fw_src_open s"
      using stuck False read_chunk [of s cap] read_ends [of s cap] put_fails [of s cap]
      by (cases "fw_chunk s = []"; cases "fw_file s = []"; cases "fw_src_open s") blast+
    moreover have "fw_drained s" using stuck False dst discard_ends [of s cap] by blast
    ultimately show False using stuck False assms(3) set_done [of s cap] by (simp add: flow_joined_def)
  qed
qed

lemma sum_list_bounds:
  fixes xs :: "rat list"
  assumes "\<forall>x \<in> set xs. lo \<le> x \<and> x \<le> hi"
  shows "of_nat (length xs) * lo \<le> sum_list xs \<and> sum_list xs \<le> of_nat (length xs) * hi"
  using assms by (induction xs) (auto simp: algebra_simps intro: add_mono)

lemma flow_result_bounds:
  assumes "flow_result n now sb sa s = Inr f"
  shows "fl_rss_min f \<le> fl_rss_avg f" "fl_rss_avg f \<le> fl_rss_max f" "0 < fl_samples f"
proof -
  define xs where "xs = (if fw_samples s = [] then [now] else fw_samples s)"
  have f: "fl_rss_min f = Min (set xs)" "fl_rss_avg f = sum_list xs / of_nat (length xs)" "fl_rss_max f = Max (set xs)"
    "fl_samples f = length xs"
    using assms by (auto simp: flow_result_def Let_def xs_def split: list.splits)
  have "xs \<noteq> []" by (simp add: xs_def)
  moreover have "\<forall>x \<in> set xs. Min (set xs) \<le> x \<and> x \<le> Max (set xs)" by simp
  note sum_list_bounds [OF this]
  ultimately show "fl_rss_min f \<le> fl_rss_avg f" "fl_rss_avg f \<le> fl_rss_max f" "0 < fl_samples f"
    by (simp_all add: f field_simps)
qed

text \<open>
  The stealth measurement never holds more than one chunk of the file and always ends: however the four
  threads interleave, the feeder holds at most \<open>CHUNK\<close> bytes and the pipes their capacity, the threads other than the
  sampler make at most four steps per byte and four more, and until the caller is done one of them can go on, without a
  failure while the caller still moves data. A result that is returned reports the size looked up, the bytes
  moved are that many or all the file had, whichever is less, and the sampled average lies between the extremes.
\<close>

theorem stealth_flow_bounded:
  assumes "0 < cap" "flow_run cap m (flow_start file_size data) s"
  shows "length (fw_chunk s) \<le> CHUNK \<and> length (fw_src s) \<le> cap \<and> length (fw_dst s) \<le> cap \<and>
    m \<le> 4 * length data + 4 \<and>
    (\<not> fw_done s \<longrightarrow> (\<exists>t. flow_step cap s t \<and> (fw_running s \<longrightarrow> fw_errors t = fw_errors s))) \<and>
    (\<forall>f. flow_finished s \<and> flow_result file_size now sb sa s = Inr f \<longrightarrow>
       fl_bytes_moved f = file_size \<and> fw_discarded s = min file_size (length data) \<and>
       fl_rss_min f \<le> fl_rss_avg f \<and> fl_rss_avg f \<le> fl_rss_max f)"
proof -
  have inv: "flow_inv cap file_size (length data) s" "m + flow_left s \<le> flow_left (flow_start file_size data)"
    using flow_run_inv [OF assms(2) flow_inv_start] by blast+
  have "flow_left (flow_start file_size data) = 4 * length data + 4" by (simp add: flow_left_def flow_start_def)
  then have "m \<le> 4 * length data + 4" using inv(2) by simp
  moreover have "\<not> fw_done s \<longrightarrow> (\<exists>t. flow_step cap s t \<and> (fw_running s \<longrightarrow> fw_errors t = fw_errors s))"
    using flow_goes_on [OF assms(1) inv(1)] by blast
  moreover have "fl_bytes_moved f = file_size \<and> fw_discarded s = min file_size (length data) \<and>
      fl_rss_min f \<le> fl_rss_avg f \<and> fl_rss_avg f \<le> fl_rss_max f"
    if "flow_finished s" "flow_result file_size now sb sa s = Inr f" for f
  proof -
    have "fw_errors s = []" "fl_bytes_moved f = file_size"
      using that(2) by (auto simp: flow_result_def Let_def split: list.splits)
    moreover have "fw_discarded s = min file_size (length data)"
      using inv(1) that(1) \<open>fw_errors s = []\<close> by (auto simp: flow_inv_def flow_finished_def flow_joined_def)
    ultimately show ?thesis using flow_result_bounds [OF that(2)] by simp
  qed
  moreover have "length (fw_chunk s) \<le> CHUNK" "length (fw_src s) \<le> cap" "length (fw_dst s) \<le> cap"
    using inv(1) by (simp_all add: flow_inv_def)
  ultimately show ?thesis by blast
qed

text \<open>A file that has lost its second byte since its size was looked up: two bytes are reported, one was moved.\<close>

lemma demo_flow:
  "\<exists>s. flow_run 1 8 (flow_start 2 [4]) s \<and> flow_finished s \<and> fw_errors s = []"
proof -
  let ?s0 = "flow_start 2 [4]"
  let ?s1 = "?s0\<lparr>fw_chunk := [4], fw_file := []\<rparr>"
  let ?s2 = "?s1\<lparr>fw_src := [4], fw_chunk := []\<rparr>"
  let ?s3 = "?s2\<lparr>fw_src_open := False\<rparr>"
  let ?s4 = "?s3\<lparr>fw_dst := [4], fw_src := [], fw_remaining := 1\<rparr>"
  let ?s5 = "?s4\<lparr>fw_running := False\<rparr>"
  let ?s6 = "?s5\<lparr>fw_dst := [], fw_discarded := 1\<rparr>"
  let ?s7 = "?s6\<lparr>fw_drained := True\<rparr>"
  let ?s8 = "?s7\<lparr>fw_done := True\<rparr>"
  have a: "flow_step 1 ?s0 ?s1" using read_chunk [of ?s0 1] by (simp add: flow_start_def CHUNK_def)
  have b: "flow_step 1 ?s1 ?s2" using put [of ?s1 1 1] by (simp add: flow_start_def)
  have c: "flow_step 1 ?s2 ?s3" by (rule read_ends) (simp_all add: flow_start_def)
  have d: "flow_step 1 ?s3 ?s4" using flow_move [of ?s3 1 1] by (simp add: flow_start_def CHUNK_def)
  have e: "flow_step 1 ?s4 ?s5" by (rule flow_breaks) (simp_all add: flow_start_def)
  have f: "flow_step 1 ?s5 ?s6" using discard [of ?s5 1 1] by (simp add: flow_start_def CHUNK_def)
  have g: "flow_step 1 ?s6 ?s7" by (rule discard_ends) (simp_all add: flow_start_def)
  have h: "flow_step 1 ?s7 ?s8" by (rule set_done) (simp_all add: flow_start_def flow_joined_def)
  note R = flow_run.one_step
  have "flow_run 1 (Suc (Suc (Suc (Suc (Suc (Suc (Suc (Suc 0)))))))) ?s0 ?s8"
    by (rule R [OF R [OF R [OF R [OF R [OF R [OF R [OF R [OF flow_run.no_step a] b] c] d] e] f] g] h])
  then show ?thesis by (intro exI [of _ ?s8]) (simp add: eval_nat_numeral flow_finished_def flow_start_def)
qed

theorem stealth_flow_bounded_witness:
  "\<exists>m s f. flow_run 1 m (flow_start 2 [4]) s \<and> flow_result 2 30 7 7 s = Inr f \<and>
    fl_bytes_moved f = 2 \<and> fw_discarded s = 1"
proof -
  obtain s where s: "flow_run 1 8 (flow_start 2 [4]) s" "flow_finished s" "fw_errors s = []" using demo_flow by blast
  obtain f where f: "flow_result 2 30 7 7 s = Inr f" using s(3) by (simp add: flow_result_def Let_def)
  from stealth_flow_bounded [OF zero_less_one s(1), of 30 7 7] s(2) f
  have "fl_bytes_moved f = 2 \<and> fw_discarded s = 1" by simp
  then show ?thesis using s(1) f by blast
qed

end
