(* ===== verification/Measure.thy ===== *)
theory Measure
  imports Watchdog Splitter
begin

text \<open>
  \<open>vstorage/measure.py\<close>, \<open>measure_full.py\<close> and the reader of \<open>/proc/meminfo\<close> in
  \<open>splice_stealth.py\<close>: numbers parsed from the files of \<open>/proc\<close>, which are lists of lines here, or
  \<open>None\<close> where there is no such file. Megabytes are rationals.
\<close>

section \<open>One figure\<close>

text \<open>The first line that starts with the key: \<open>int(line.split()[1])\<close>.\<close>

fun find_field :: "string \<Rightarrow> string list \<Rightarrow> nat option res" where
  "find_field key [] = Inr None"
| "find_field key (line # rest) =
     (if starts_with key line then map_res Some (second_int line) else find_field key rest)"

definition field_kb :: "string \<Rightarrow> string list option \<Rightarrow> nat res" where
  "field_kb key f =
     (case f of None \<Rightarrow> Inl FileNotFoundError
      | Some ls \<Rightarrow> map_res (\<lambda>r. case r of None \<Rightarrow> 0 | Some n \<Rightarrow> n) (find_field key ls))"

definition rss_anon_mb :: "string list option \<Rightarrow> rat res" where
  "rss_anon_mb status = map_res (\<lambda>n. of_nat n / 1024) (field_kb ''RssAnon:'' status)"

definition vm_rss_mb :: "string list option \<Rightarrow> rat res" where
  "vm_rss_mb status = map_res (\<lambda>n. of_nat n / 1024) (field_kb ''VmRSS:'' status)"

definition disk_write_bytes :: "string list option \<Rightarrow> nat res" where
  "disk_write_bytes io = field_kb ''write_bytes:'' io"

text \<open>Here the last line of each key counts; a used memory below zero is possible.\<close>

fun meminfo_loop :: "string list \<Rightarrow> nat option \<Rightarrow> nat option \<Rightarrow> (nat option \<times> nat option) res" where
  "meminfo_loop [] total_kb avail = Inr (total_kb, avail)"
| "meminfo_loop (line # rest) total_kb avail =
     (if starts_with ''MemTotal:'' line
      then (case second_int line of Inl e \<Rightarrow> Inl e | Inr n \<Rightarrow> meminfo_loop rest (Some n) avail)
      else if starts_with ''MemAvailable:'' line
      then (case second_int line of Inl e \<Rightarrow> Inl e | Inr n \<Rightarrow> meminfo_loop rest total_kb (Some n))
      else meminfo_loop rest total_kb avail)"

definition system_ram_used_mb :: "string list option \<Rightarrow> rat res" where
  "system_ram_used_mb meminfo =
     (case meminfo of None \<Rightarrow> Inl FileNotFoundError
      | Some ls \<Rightarrow> map_res (\<lambda>p. case p of (Some t, Some a) \<Rightarrow> (of_nat t - of_nat a) / 1024 | _ \<Rightarrow> 0)
          (meminfo_loop ls None None))"

section \<open>All figures\<close>

definition STATUS_FIELDS :: "string list" where
  "STATUS_FIELDS = [''VmPeak'', ''VmSize'', ''VmHWM'', ''VmRSS'', ''RssAnon'', ''RssFile'', ''RssShmem'',
     ''VmData'', ''VmStk'', ''VmExe'', ''VmLib'', ''VmPTE'', ''VmSwap'', ''VmLck'', ''VmPin'']"

definition SMAPS_FIELDS :: "string list" where
  "SMAPS_FIELDS = [''Rss'', ''Pss'', ''Shared_Clean'', ''Shared_Dirty'', ''Private_Clean'',
     ''Private_Dirty'', ''Referenced'', ''Anonymous'', ''LazyFree'', ''AnonHugePages'', ''Swap'', ''SwapPss'']"

definition MEMINFO_FIELDS :: "string list" where
  "MEMINFO_FIELDS = [''MemTotal'', ''MemFree'', ''MemAvailable'', ''Buffers'', ''Cached'',
     ''SwapCached'', ''SwapTotal'', ''SwapFree'', ''Shmem'', ''AnonPages'', ''Mapped'', ''Slab'', ''SReclaimable'',
     ''SUnreclaim'', ''Dirty'', ''Writeback'']"

fun foldM :: "('a \<Rightarrow> 'b \<Rightarrow> 'b res) \<Rightarrow> 'a list \<Rightarrow> 'b \<Rightarrow> 'b res" where
  "foldM f [] b = Inr b"
| "foldM f (x # xs) b = (case f x b of Inl e \<Rightarrow> Inl e | Inr b' \<Rightarrow> foldM f xs b')"

text \<open>The inner loop over the keys, for one line.\<close>

definition scan_key :: "string \<Rightarrow> string \<Rightarrow> string \<Rightarrow> (string, nat) dict \<Rightarrow> (string, nat) dict res" where
  "scan_key prefix line key d =
     (if starts_with (key @ '':'') line then map_res (\<lambda>n. dict_set (prefix @ key) n d) (second_int line) else Inr d)"

definition scan_file :: "string list \<Rightarrow> string \<Rightarrow> string list \<Rightarrow> (string, nat) dict \<Rightarrow> (string, nat) dict res" where
  "scan_file keys prefix ls d = foldM (\<lambda>line. foldM (scan_key prefix line) keys) ls d"

definition full_snapshot :: "string list option \<Rightarrow> string list option \<Rightarrow> (string, nat) dict res" where
  "full_snapshot status smaps =
     (case status of None \<Rightarrow> Inl FileNotFoundError
      | Some ls \<Rightarrow>
          (case scan_file STATUS_FIELDS '''' ls [] of Inl e \<Rightarrow> Inl e
           | Inr d \<Rightarrow> (case smaps of None \<Rightarrow> Inr d | Some ms \<Rightarrow> scan_file SMAPS_FIELDS ''smaps_'' ms d)))"

text \<open>\<open>parts[0].rstrip(":")\<close>; a line of blanks raises.\<close>

definition rstrip_colon :: "string \<Rightarrow> string" where
  "rstrip_colon s = rev (dropWhile (\<lambda>c. c = CHR '':'') (rev s))"

definition meminfo_line :: "string \<Rightarrow> (string, nat) dict \<Rightarrow> (string, nat) dict res" where
  "meminfo_line line d =
     (let parts = split_words line in
      case py_index parts 0 of Inl e \<Rightarrow> Inl e | Inr p \<Rightarrow>
      let key = rstrip_colon p in
      if key \<in> set MEMINFO_FIELDS
      then (case py_index parts 1 of Inl e \<Rightarrow> Inl e | Inr v \<Rightarrow> map_res (\<lambda>n. dict_set key n d) (parse_digits v))
      else Inr d)"

definition system_snapshot :: "string list option \<Rightarrow> (string, nat) dict res" where
  "system_snapshot meminfo = (case meminfo of None \<Rightarrow> Inl FileNotFoundError | Some ls \<Rightarrow> foldM meminfo_line ls [])"

section \<open>Lines as the kernel prints them\<close>

definition is_key :: "string \<Rightarrow> bool" where
  "is_key k \<longleftrightarrow> k \<noteq> [] \<and> list_all (\<lambda>c. \<not> is_blank c \<and> c \<noteq> CHR '':'') k"

text \<open>Key, colon, some blanks, the number, the unit.\<close>

definition is_pad :: "string \<Rightarrow> bool" where
  "is_pad pad \<longleftrightarrow> pad \<noteq> [] \<and> list_all is_blank pad"

definition proc_line :: "string \<Rightarrow> string \<times> nat \<Rightarrow> string" where
  "proc_line pad kn = fst kn @ '':'' @ pad @ dec (snd kn) @ '' kB'' @ [char_of (10 :: nat)]"

lemma digit_code: "d < 10 \<Longrightarrow> (of_char (char_of (48 + d) :: char) :: nat) = 48 + d"
  by simp

lemma parse_digits_dec: "parse_digits (dec n) = Inr n"
proof (induction n rule: dec.induct)
  case (1 n)
  show ?case
  proof (cases "n < 10")
    case True
    then show ?thesis by (subst dec.simps) (simp add: parse_digits_def digit_code)
  next
    case False
    then have "parse_digits (dec (n div 10)) = Inr (n div 10)" using 1 by blast
    then have "parse_digits (dec (n div 10) @ [char_of (48 + n mod 10)]) = Inr (10 * (n div 10) + n mod 10)"
      by (auto simp: parse_digits_def digit_code split: if_splits)
    then show ?thesis using False by (subst dec.simps) simp
  qed
qed

lemma dec_word: "dec n \<noteq> [] \<and> list_all (\<lambda>c. \<not> is_blank c) (dec n)"
proof -
  have code: "(of_char c :: nat) \<in> {48..57} \<Longrightarrow> \<not> is_blank c" for c by (auto simp: is_blank_def)
  have "dec n \<noteq> [] \<and> list_all (\<lambda>c. 48 \<le> (of_char c :: nat) \<and> of_char c \<le> (57 :: nat)) (dec n)"
    using parse_digits_dec [of n] by (auto simp: parse_digits_def split: if_splits)
  then show ?thesis using code by (auto simp: list_all_iff)
qed

lemma split_words_word:
  assumes "w \<noteq> []" "list_all (\<lambda>c. \<not> is_blank c) w" "is_blank b"
  shows "split_words (w @ b # rest) = w # split_words rest" "split_words (b # rest) = split_words rest"
proof -
  show b: "split_words (b # rest) = split_words rest" for rest
    using assms(3) by (subst split_words.simps, subst (2) split_words.simps) simp
  have "dropWhile is_blank (w @ b # rest) = w @ b # rest" using assms(1,2) by (cases w) simp_all
  moreover have "takeWhile (\<lambda>x. \<not> is_blank x) (w @ b # rest) = w" "dropWhile (\<lambda>x. \<not> is_blank x) (w @ b # rest) = b # rest"
    using assms by (auto simp: list_all_iff)
  ultimately show "split_words (w @ b # rest) = w # split_words rest"
    using assms(1) b by (subst split_words.simps) (auto split: list.splits)
qed

lemma not_blank: "\<not> is_blank CHR '':''" "\<not> is_blank CHR ''k''" "\<not> is_blank CHR ''B''"
proof -
  have code: "(of_char c :: nat) \<notin> {9, 10, 32} \<Longrightarrow> \<not> is_blank c" for c by (auto simp: is_blank_def)
  show "\<not> is_blank CHR '':''" "\<not> is_blank CHR ''k''" "\<not> is_blank CHR ''B''" by (simp_all add: code)
qed

lemma proc_line_words:
  assumes "is_key k" "is_pad pad"
  shows "split_words (proc_line pad (k, n)) = [k @ '':'', dec n, ''kB'']"
proof -
  obtain b bs where pad: "pad = b # bs" "is_blank b" "list_all is_blank bs"
    using assms(2) by (cases pad) (auto simp: is_pad_def)
  have blanks: "is_blank CHR '' ''" "is_blank (char_of (10 :: nat))"
    by (simp_all add: is_blank_def)
  have w: "k @ '':'' \<noteq> []" "list_all (\<lambda>c. \<not> is_blank c) (k @ '':'')" "list_all (\<lambda>c. \<not> is_blank c) ''kB''"
    using assms not_blank by (simp_all add: is_key_def list_all_iff)
  have skip: "list_all is_blank bs \<Longrightarrow> split_words (bs @ rest) = split_words rest" for bs rest
    using split_words_word(2) [OF w(1,2)] by (induction bs) simp_all
  have line: "proc_line pad (k, n) = (k @ '':'') @ b # (bs @ (dec n @ CHR '' '' # (''kB'' @ char_of (10 :: nat) # [])))"
    by (simp add: proc_line_def pad(1))
  have "split_words [] = []" by (simp add: split_words.simps)
  then show ?thesis
    unfolding line
    using split_words_word(1) [OF w(1,2) pad(2)] split_words_word(1) [OF conjunct1 [OF dec_word] conjunct2 [OF dec_word] blanks(1)]
      split_words_word(1) [OF _ w(3) blanks(2)] skip [OF pad(3)] by simp
qed

lemma second_int_line: "is_key k \<Longrightarrow> is_pad pad \<Longrightarrow> second_int (proc_line pad (k, n)) = Inr n"
  by (simp add: second_int_def proc_line_words py_index_def parse_digits_dec)

lemma starts_with_key:
  assumes "is_key key" "is_key k"
  shows "starts_with (key @ '':'') (proc_line pad (k, n)) \<longleftrightarrow> key = k"
proof -
  have "take (length key + 1) (k @ CHR '':'' # r) = key @ [CHR '':''] \<longleftrightarrow> key = k"
    if "CHR '':'' \<notin> set key" "CHR '':'' \<notin> set k" for r
    using that
  proof (induction key arbitrary: k)
    case Nil
    then show ?case by (cases k) auto
  next
    case (Cons c key)
    then show ?case by (cases k) auto
  qed
  moreover have "CHR '':'' \<notin> set key" "CHR '':'' \<notin> set k" using assms by (auto simp: is_key_def list_all_iff)
  ultimately show ?thesis by (simp add: starts_with_def proc_line_def)
qed

text \<open>What a scan of printed lines collects.\<close>

definition printed :: "string \<Rightarrow> (string, nat) dict \<Rightarrow> string list" where
  "printed pad entries = map (proc_line pad) entries"

definition entries_ok :: "(string, nat) dict \<Rightarrow> bool" where
  "entries_ok entries \<longleftrightarrow> dict_ok entries \<and> list_all is_key (dict_keys entries)"

lemma entries_okE:
  assumes "entries_ok ((k, n) # es)"
  shows "is_key k" "entries_ok es" "dict_get es k = None"
  using assms by (auto simp: entries_ok_def dict_ok_def dict_keys_def dict_get_def map_of_eq_None_iff)

lemma dict_get_Cons: "dict_get ((k, n) # es) j = (if j = k then Some n else dict_get es j)"
  by (simp add: dict_get_def)

lemma find_field_printed:
  "is_pad pad \<Longrightarrow> is_key key \<Longrightarrow> entries_ok es \<Longrightarrow> find_field (key @ '':'') (printed pad es) = Inr (dict_get es key)"
proof (induction es)
  case (Cons e es)
  obtain k n where e: "e = (k, n)" by fastforce
  show ?case
    using Cons entries_okE [OF Cons.prems(3) [unfolded e]]
    by (auto simp: printed_def e starts_with_key second_int_line dict_get_Cons)
qed (simp add: printed_def)

lemma scan_keys_line:
  assumes "is_key k" "is_pad pad"
  shows "distinct keys \<Longrightarrow> list_all is_key keys \<Longrightarrow> foldM (scan_key prefix (proc_line pad (k, n))) keys d =
    Inr (if k \<in> set keys then dict_set (prefix @ k) n d else d)"
  using assms
  by (induction keys arbitrary: d) (auto simp: scan_key_def starts_with_key second_int_line)

lemma scan_file_printed:
  assumes "distinct keys" "list_all is_key keys" "is_pad pad" "entries_ok es"
  shows "\<exists>d'. scan_file keys prefix (printed pad es) d = Inr d' \<and>
    (\<forall>k \<in> set keys. dict_get d' (prefix @ k) = (case dict_get es k of None \<Rightarrow> dict_get d (prefix @ k) | Some n \<Rightarrow> Some n)) \<and>
    (\<forall>j. j \<notin> (@) prefix ` set keys \<longrightarrow> dict_get d' j = dict_get d j)"
  using assms(4)
proof (induction es arbitrary: d)
  case Nil
  then show ?case by (simp add: scan_file_def printed_def)
next
  case (Cons e es)
  obtain k n where e: "e = (k, n)" by fastforce
  note es = entries_okE [OF Cons.prems [unfolded e]]
  let ?d = "if k \<in> set keys then dict_set (prefix @ k) n d else d"
  have "scan_file keys prefix (printed pad (e # es)) d = scan_file keys prefix (printed pad es) ?d"
    by (simp add: scan_file_def printed_def e scan_keys_line [OF es(1) assms(3,1,2)])
  then show ?case
    using Cons.IH [OF es(2), of ?d] es(3) by (auto simp: e dict_get_Cons split: option.splits if_splits)
qed

lemma meminfo_printed:
  assumes "is_pad pad" "entries_ok es"
  shows "\<exists>d'. foldM meminfo_line (printed pad es) d = Inr d' \<and>
    (\<forall>k. k \<in> set MEMINFO_FIELDS \<longrightarrow> dict_get d' k = (case dict_get es k of None \<Rightarrow> dict_get d k | Some n \<Rightarrow> Some n)) \<and>
    (\<forall>k. k \<notin> set MEMINFO_FIELDS \<longrightarrow> dict_get d' k = dict_get d k)"
  using assms(2)
proof (induction es arbitrary: d)
  case Nil
  then show ?case by (simp add: printed_def)
next
  case (Cons e es)
  obtain k n where e: "e = (k, n)" by fastforce
  note es = entries_okE [OF Cons.prems [unfolded e]]
  have k: "k \<noteq> []" "last k \<noteq> CHR '':''" using es(1) by (auto simp: is_key_def list_all_iff)
  then obtain c cs where "rev k = c # cs" "c \<noteq> CHR '':''" by (cases "rev k") (auto simp: last_rev [symmetric])
  then have "rstrip_colon (k @ '':'') = k" by (simp add: rstrip_colon_def)
  then have line: "meminfo_line (proc_line pad (k, n)) d = Inr (if k \<in> set MEMINFO_FIELDS then dict_set k n d else d)"
    by (simp add: meminfo_line_def proc_line_words [OF es(1) assms(1)] py_index_def parse_digits_dec)
  let ?d = "if k \<in> set MEMINFO_FIELDS then dict_set k n d else d"
  have "foldM meminfo_line (printed pad (e # es)) d = foldM meminfo_line (printed pad es) ?d"
    using line by (simp add: printed_def e)
  then show ?case
    using Cons.IH [OF es(2), of ?d] es(3) by (auto simp: e dict_get_Cons split: option.splits if_splits)
qed

lemma fields_ok:
  "distinct STATUS_FIELDS" "list_all is_key STATUS_FIELDS" "distinct SMAPS_FIELDS" "list_all is_key SMAPS_FIELDS"
  "\<forall>k \<in> set STATUS_FIELDS. k \<notin> (@) ''smaps_'' ` set SMAPS_FIELDS"
proof -
  have code: "(of_char c :: nat) \<notin> {9, 10, 32} \<Longrightarrow> \<not> is_blank c" for c by (auto simp: is_blank_def)
  show "distinct STATUS_FIELDS" "distinct SMAPS_FIELDS" by (simp_all add: STATUS_FIELDS_def SMAPS_FIELDS_def)
  show "list_all is_key STATUS_FIELDS" "list_all is_key SMAPS_FIELDS"
    by (simp_all add: STATUS_FIELDS_def SMAPS_FIELDS_def is_key_def code)
  show "\<forall>k \<in> set STATUS_FIELDS. k \<notin> (@) ''smaps_'' ` set SMAPS_FIELDS"
    by (auto simp: STATUS_FIELDS_def)
qed

text \<open>
  Reading back what the kernel prints: for files whose lines are the entries of a dictionary with
  distinct keys, printed as \<open>/proc\<close> prints them (colon, blanks, number, unit), the snapshots contain for every key they look for exactly
  its entry, also where one key begins with another (as the two about swap do), and the single
  figures are its entry in megabytes.
\<close>

theorem snapshots_read_proc_files:
  assumes "is_pad pad" "entries_ok st" "entries_ok sm" "entries_ok mi"
  shows "\<exists>d m. full_snapshot (Some (printed pad st)) (Some (printed pad sm)) = Inr d \<and> system_snapshot (Some (printed pad mi)) = Inr m \<and>
    (\<forall>k \<in> set STATUS_FIELDS. dict_get d k = dict_get st k) \<and>
    (\<forall>k \<in> set SMAPS_FIELDS. dict_get d (''smaps_'' @ k) = dict_get sm k) \<and>
    (\<forall>k \<in> set MEMINFO_FIELDS. dict_get m k = dict_get mi k) \<and>
    rss_anon_mb (Some (printed pad st)) = Inr (case dict_get st ''RssAnon'' of None \<Rightarrow> 0 | Some n \<Rightarrow> of_nat n / 1024)"
proof -
  obtain d1 where d1: "scan_file STATUS_FIELDS [] (printed pad st) [] = Inr d1"
    "\<forall>k \<in> set STATUS_FIELDS. dict_get d1 ([] @ k) = (case dict_get st k of None \<Rightarrow> dict_get [] ([] @ k) | Some n \<Rightarrow> Some n)"
    "\<forall>j. j \<notin> (@) [] ` set STATUS_FIELDS \<longrightarrow> dict_get d1 j = dict_get [] j"
    using scan_file_printed [OF fields_ok(1,2) assms(1,2)] by blast
  obtain d2 where d2: "scan_file SMAPS_FIELDS ''smaps_'' (printed pad sm) d1 = Inr d2"
    "\<forall>k \<in> set SMAPS_FIELDS. dict_get d2 (''smaps_'' @ k) = (case dict_get sm k of None \<Rightarrow> dict_get d1 (''smaps_'' @ k) | Some n \<Rightarrow> Some n)"
    "\<forall>j. j \<notin> (@) ''smaps_'' ` set SMAPS_FIELDS \<longrightarrow> dict_get d2 j = dict_get d1 j"
    using scan_file_printed [OF fields_ok(3,4) assms(1,3)] by blast
  obtain m where m: "foldM meminfo_line (printed pad mi) [] = Inr m"
    "\<forall>k. k \<in> set MEMINFO_FIELDS \<longrightarrow> dict_get m k = (case dict_get mi k of None \<Rightarrow> dict_get [] k | Some n \<Rightarrow> Some n)"
    using meminfo_printed [OF assms(1,4)] by blast
  have sep: "''smaps_'' @ k \<notin> (@) [] ` set STATUS_FIELDS" if "k \<in> set SMAPS_FIELDS" for k
    using fields_ok(5) that by auto
  have "full_snapshot (Some (printed pad st)) (Some (printed pad sm)) = Inr d2" by (simp add: full_snapshot_def d1(1) d2(1))
  moreover have "system_snapshot (Some (printed pad mi)) = Inr m" by (simp add: system_snapshot_def m(1))
  moreover have "\<forall>k \<in> set STATUS_FIELDS. dict_get d2 k = dict_get st k"
    using d1(2) d2(3) fields_ok(5) by (auto split: option.splits)
  moreover have "dict_get d2 (''smaps_'' @ k) = dict_get sm k" if "k \<in> set SMAPS_FIELDS" for k
  proof -
    have "dict_get d1 (''smaps_'' @ k) = None" using d1(3) sep [OF that] by simp
    then show ?thesis using d2(2) that by (simp split: option.splits)
  qed
  moreover have "\<forall>k \<in> set MEMINFO_FIELDS. dict_get m k = dict_get mi k"
    using m(2) by (auto split: option.splits)
  moreover have "is_key ''RssAnon''" using fields_ok(2) by (simp add: STATUS_FIELDS_def)
  then have "rss_anon_mb (Some (printed pad st)) = Inr (case dict_get st ''RssAnon'' of None \<Rightarrow> 0 | Some n \<Rightarrow> of_nat n / 1024)"
    using find_field_printed [OF assms(1) _ assms(2), of "''RssAnon''"]
    by (auto simp: rss_anon_mb_def field_kb_def split: option.splits)
  ultimately show ?thesis by blast
qed

theorem snapshots_read_proc_files_witness:
  "rss_anon_mb (Some (printed ''  '' [(''VmRSS'', 4096), (''RssAnon'', 2048)])) = Inr 2"
proof -
  have "is_key ''VmRSS''" "is_key ''RssAnon''" using fields_ok(2) by (simp_all add: STATUS_FIELDS_def)
  then have "entries_ok [(''VmRSS'', 4096), (''RssAnon'', 2048)]" "entries_ok []"
    by (simp_all add: entries_ok_def dict_ok_def dict_keys_def)
  moreover have "is_pad ''  ''" by (simp add: is_pad_def is_blank_def)
  ultimately have "rss_anon_mb (Some (printed ''  '' [(''VmRSS'', 4096), (''RssAnon'', 2048)])) =
      Inr (case dict_get [(''VmRSS'', 4096 :: nat), (''RssAnon'', 2048)] ''RssAnon'' of None \<Rightarrow> 0 | Some n \<Rightarrow> of_nat n / 1024)"
    using snapshots_read_proc_files by blast
  then show ?thesis by (auto simp: dict_get_def)
qed

end
