(* ===== verification/Json.thy ===== *)
theory Json
  imports Measure TrustGroup
begin

text \<open>
  The part of Python's \<open>json\<close> module the program uses: \<open>json.dumps\<close>, with and without \<open>indent=2\<close>, and
  \<open>json.loads\<close>, on strings of Latin-1 characters. An escape for a character above 255 is not read, and how
  deep values may be nested is not bounded, where Python's parser raises \<open>RecursionError\<close> at some depth. A
  number with a fraction or an exponent is kept as it was written.
\<close>

datatype json =
    JNull | JBool bool | JInt int | JFloat string | JStr string | JList "json list" | JObj "(string \<times> json) list"

abbreviation (input) QUOTE :: char where
  "QUOTE \<equiv> CHR 0x22"

abbreviation (input) BACKSLASH :: char where
  "BACKSLASH \<equiv> CHR 0x5C"

section \<open>Printing\<close>

definition esc_char :: "char \<Rightarrow> string" where
  "esc_char c =
     (let n = (of_char c :: nat) in
      if c = QUOTE \<or> c = BACKSLASH then [BACKSLASH, c]
      else if n = 10 then [BACKSLASH, CHR ''n''] else if n = 13 then [BACKSLASH, CHR ''r'']
      else if n = 9 then [BACKSLASH, CHR ''t''] else if n = 8 then [BACKSLASH, CHR ''b'']
      else if n = 12 then [BACKSLASH, CHR ''f'']
      else if 32 \<le> n \<and> n \<le> 126 then [c]
      else [BACKSLASH, CHR ''u'', CHR ''0'', CHR ''0'', hex_digit (n div 16), hex_digit (n mod 16)])"

definition json_string :: "string \<Rightarrow> string" where
  "json_string s = QUOTE # concat (map esc_char s) @ [QUOTE]"

fun sep_by :: "string \<Rightarrow> string list \<Rightarrow> string" where
  "sep_by sep [] = []"
| "sep_by sep [x] = x"
| "sep_by sep (x # xs) = x @ sep @ sep_by sep xs"

definition json_int :: "int \<Rightarrow> string" where
  "json_int i = (if i < 0 then CHR ''-'' # dec (nat (- i)) else dec (nat i))"

fun dumps :: "json \<Rightarrow> string" where
  "dumps JNull = ''null''"
| "dumps (JBool b) = (if b then ''true'' else ''false'')"
| "dumps (JInt i) = json_int i"
| "dumps (JFloat t) = t"
| "dumps (JStr s) = json_string s"
| "dumps (JList xs) = CHR ''['' # sep_by '', '' (map dumps xs) @ '']''"
| "dumps (JObj kvs) = CHR ''{'' # sep_by '', '' (map (\<lambda>(k, v). json_string k @ '': '' @ dumps v) kvs) @ ''}''"

definition newline :: string where
  "newline = [char_of (10 :: nat)]"

text \<open>\<open>json.dumps(..., indent=2)\<close> of an object that is not empty and holds no lists or objects.\<close>

definition dumps_indent2 :: "(string \<times> json) list \<Rightarrow> string" where
  "dumps_indent2 kvs =
     ''{'' @ newline @ sep_by ('','' @ newline) (map (\<lambda>(k, v). ''  '' @ json_string k @ '': '' @ dumps v) kvs)
       @ newline @ ''}''"

section \<open>Parsing\<close>

definition is_space :: "char \<Rightarrow> bool" where
  "is_space c \<longleftrightarrow> (of_char c :: nat) \<in> {32, 9, 10, 13}"

definition skip_ws :: "string \<Rightarrow> string" where
  "skip_ws s = dropWhile is_space s"

definition hex4 :: "char \<Rightarrow> char \<Rightarrow> char \<Rightarrow> char \<Rightarrow> nat option" where
  "hex4 a b c d =
     (case (unhex a, unhex b, unhex c, unhex d) of
        (Some w, Some x, Some y, Some z) \<Rightarrow> Some (((w * 16 + x) * 16 + y) * 16 + z)
      | _ \<Rightarrow> None)"

definition simple_escape :: "char \<Rightarrow> char option" where
  "simple_escape c =
     (if c = QUOTE \<or> c = BACKSLASH \<or> c = CHR ''/'' then Some c
      else if c = CHR ''n'' then Some (char_of (10 :: nat)) else if c = CHR ''r'' then Some (char_of (13 :: nat))
      else if c = CHR ''t'' then Some (char_of (9 :: nat)) else if c = CHR ''b'' then Some (char_of (8 :: nat))
      else if c = CHR ''f'' then Some (char_of (12 :: nat)) else None)"

text \<open>The rest of a string after its opening quote, and what follows the closing one.\<close>

fun parse_string :: "string \<Rightarrow> (string \<times> string) option" where
  "parse_string [] = None"
| "parse_string (c # cs) =
     (if c = QUOTE then Some ([], cs)
      else if c = BACKSLASH then
        (case cs of
           [] \<Rightarrow> None
         | e # r \<Rightarrow>
             (if e = CHR ''u'' then
                (case r of
                   w # x # y # z # r' \<Rightarrow>
                     (case hex4 w x y z of None \<Rightarrow> None
                      | Some n \<Rightarrow> if n < 256 then map_option (apfst ((#) (char_of n))) (parse_string r') else None)
                 | _ \<Rightarrow> None)
              else (case simple_escape e of None \<Rightarrow> None
                | Some d \<Rightarrow> map_option (apfst ((#) d)) (parse_string r))))
      else if (of_char c :: nat) < 32 then None
      else map_option (apfst ((#) c)) (parse_string cs))"

definition is_digit :: "char \<Rightarrow> bool" where
  "is_digit c \<longleftrightarrow> 48 \<le> (of_char c :: nat) \<and> (of_char c :: nat) \<le> 57"

text \<open>\<open>(-?(?:0|[1-9]\d*))(\.\d+)?([eE][-+]?\d+)?\<close>, else \<open>NaN\<close>, \<open>Infinity\<close> or \<open>-Infinity\<close>.\<close>

definition int_part :: "string \<Rightarrow> string" where
  "int_part s = (let ds = takeWhile is_digit s in if ds \<noteq> [] \<and> hd ds = CHR ''0'' then ''0'' else ds)"

definition frac_part :: "string \<Rightarrow> string" where
  "frac_part s =
     (case s of
        c # r \<Rightarrow> (let ds = takeWhile is_digit r in if c = CHR ''.'' \<and> ds \<noteq> [] then c # ds else [])
      | [] \<Rightarrow> [])"

definition exp_part :: "string \<Rightarrow> string" where
  "exp_part s =
     (case s of
        c # r \<Rightarrow>
          (let sign = (case r of d # _ \<Rightarrow> if d = CHR ''-'' \<or> d = CHR ''+'' then [d] else [] | [] \<Rightarrow> []);
               ds = takeWhile is_digit (drop (length sign) r)
           in if (c = CHR ''e'' \<or> c = CHR ''E'') \<and> ds \<noteq> [] then c # sign @ ds else [])
      | [] \<Rightarrow> [])"

fun first_prefix :: "string list \<Rightarrow> string \<Rightarrow> (string \<times> string) option" where
  "first_prefix [] s = None"
| "first_prefix (p # ps) s = (if take (length p) s = p then Some (p, drop (length p) s) else first_prefix ps s)"

definition parse_number :: "string \<Rightarrow> (json \<times> string) option" where
  "parse_number s =
     (let sign = (case s of c # _ \<Rightarrow> if c = CHR ''-'' then [c] else [] | [] \<Rightarrow> []);
          s1 = drop (length sign) s; ip = int_part s1; s2 = drop (length ip) s1;
          fp = frac_part s2; s3 = drop (length fp) s2; ep = exp_part s3; s4 = drop (length ep) s3
      in if ip = [] then map_option (apfst JFloat) (first_prefix [''NaN'', ''Infinity'', ''-Infinity''] s)
         else if fp = [] \<and> ep = [] then
           (case parse_digits ip of Inl _ \<Rightarrow> None
            | Inr n \<Rightarrow> Some (JInt (if sign = [] then int n else - int n), s4))
         else Some (JFloat (sign @ ip @ fp @ ep), s4))"

text \<open>Values, the rest of an object after \<open>{\<close> and the rest of a list after \<open>[\<close>, neither empty.\<close>

fun parse_value :: "nat \<Rightarrow> string \<Rightarrow> (json \<times> string) option"
  and parse_members :: "nat \<Rightarrow> string \<Rightarrow> ((string \<times> json) list \<times> string) option"
  and parse_elems :: "nat \<Rightarrow> string \<Rightarrow> (json list \<times> string) option" where
  "parse_value 0 s = None"
| "parse_value (Suc n) [] = None"
| "parse_value (Suc n) (c # r) =
     (if c = QUOTE then map_option (apfst JStr) (parse_string r)
      else if c = CHR ''{'' then
        (case skip_ws r of
           d # r' \<Rightarrow> if d = CHR ''}'' then Some (JObj [], r')
                    else map_option (apfst (\<lambda>kvs. JObj (fold (\<lambda>(k, v). dict_set k v) kvs []))) (parse_members n (d # r'))
         | [] \<Rightarrow> None)
      else if c = CHR ''['' then
        (case skip_ws r of
           d # r' \<Rightarrow> if d = CHR '']'' then Some (JList [], r') else map_option (apfst JList) (parse_elems n (d # r'))
         | [] \<Rightarrow> None)
      else (case first_prefix [''null'', ''true'', ''false''] (c # r) of
          Some (w, r') \<Rightarrow> Some (if w = ''null'' then JNull else JBool (w = ''true''), r')
        | None \<Rightarrow> parse_number (c # r)))"
| "parse_members 0 s = None"
| "parse_members (Suc n) s =
     (case s of [] \<Rightarrow> None
      | c # r \<Rightarrow> if c \<noteq> QUOTE then None else
          (case parse_string r of None \<Rightarrow> None
           | Some (k, r1) \<Rightarrow>
               (case skip_ws r1 of [] \<Rightarrow> None
                | d # r2 \<Rightarrow> if d \<noteq> CHR '':'' then None else
                    (case parse_value n (skip_ws r2) of None \<Rightarrow> None
                     | Some (v, r3) \<Rightarrow>
                         (case skip_ws r3 of [] \<Rightarrow> None
                          | e # r4 \<Rightarrow> if e = CHR ''}'' then Some ([(k, v)], r4)
                              else if e = CHR '','' then map_option (apfst ((#) (k, v))) (parse_members n (skip_ws r4))
                              else None)))))"
| "parse_elems 0 s = None"
| "parse_elems (Suc n) s =
     (case parse_value n s of None \<Rightarrow> None
      | Some (v, r) \<Rightarrow>
          (case skip_ws r of [] \<Rightarrow> None
           | e # r1 \<Rightarrow> if e = CHR '']'' then Some ([v], r1)
               else if e = CHR '','' then map_option (apfst ((#) v)) (parse_elems n (skip_ws r1))
               else None))"

text \<open>Every call reads at least one character first, so the length of the text is fuel enough.\<close>

definition loads :: "string \<Rightarrow> json option" where
  "loads s =
     (case parse_value (Suc (length s)) (skip_ws s) of
        Some (j, r) \<Rightarrow> if skip_ws r = [] then Some j else None
      | None \<Rightarrow> None)"

section \<open>What is printed is read back\<close>

lemma parse_esc_char: "parse_string (esc_char c @ cs) = map_option (apfst ((#) c)) (parse_string cs)"
proof -
  let ?n = "of_char c :: nat"
  have n: "?n < 256" by simp
  have h: "?n div 16 < 16" "?n mod 16 < 16" using less_mult_imp_div_less [of ?n 16 16] by simp_all
  have "unhex (CHR ''0'') = Some 0" by (simp add: unhex_def)
  then have hex: "hex4 (CHR ''0'') (CHR ''0'') (hex_digit (?n div 16)) (hex_digit (?n mod 16)) = Some ?n"
    using unhex_digit [OF h(1)] unhex_digit [OF h(2)] by (simp add: hex4_def)
  have again: "char_of m = c" if "?n = m" for m using that by auto
  show ?thesis
    using n hex by (simp add: again esc_char_def Let_def simple_escape_def)
qed

lemma parse_printed_string: "parse_string (concat (map esc_char s) @ QUOTE # rest) = Some (s, rest)"
proof (induction s)
  case (Cons c s)
  then show ?case
    using parse_esc_char [of c "concat (map esc_char s) @ QUOTE # rest"] by simp
qed simp

text \<open>What may follow a number without becoming a part of it.\<close>

definition stops :: "string \<Rightarrow> bool" where
  "stops rest \<longleftrightarrow> (case rest of [] \<Rightarrow> True | c # _ \<Rightarrow> \<not> is_digit c \<and> c \<noteq> CHR ''.'' \<and> c \<noteq> CHR ''e'' \<and> c \<noteq> CHR ''E'')"

lemma dec_digits: "dec n \<noteq> [] \<and> list_all is_digit (dec n)"
  using parse_digits_dec [of n] by (auto simp: parse_digits_def is_digit_def list_all_iff split: if_splits)

lemma char_zero: "char_of (48 :: nat) = CHR ''0''"
  using char_of_char [of "CHR ''0''", where ?'a = nat] by simp

lemma dec_head: "hd (dec n) = CHR ''0'' \<longleftrightarrow> n = 0"
proof (induction n rule: dec.induct)
  case (1 n)
  show ?case
  proof (cases "n < 10")
    case True
    then have "dec n = [char_of (48 + n)]" by (simp add: dec.simps)
    moreover have "char_of (48 + n) = CHR ''0'' \<longleftrightarrow> n = 0"
    proof
      assume "char_of (48 + n) = CHR ''0''"
      then have "(of_char (char_of (48 + n) :: char) :: nat) = of_char (CHR ''0'')" by (simp only:)
      then show "n = 0" using True by simp
    qed (simp add: char_zero)
    ultimately show ?thesis by simp
  next
    case False
    then show ?thesis using 1 dec_digits [of "n div 10"] by (subst dec.simps) (simp add: hd_append)
  qed
qed

lemma int_part_dec: "stops rest \<Longrightarrow> int_part (dec n @ rest) = dec n"
proof -
  assume s: "stops rest"
  have "takeWhile is_digit rest = []" using s by (cases rest) (auto simp: stops_def)
  then have t: "takeWhile is_digit (dec n @ rest) = dec n"
    using dec_digits [of n] by (simp add: takeWhile_append2 list_all_iff)
  show ?thesis
  proof (cases "n = 0")
    case True
    then have "dec n = ''0''" by (simp add: dec.simps char_zero)
    then show ?thesis using t by (simp add: int_part_def)
  next
    case False
    then show ?thesis using t dec_head [of n] by (simp add: int_part_def Let_def)
  qed
qed

lemma parse_printed_int: "stops rest \<Longrightarrow> parse_number (json_int i @ rest) = Some (JInt i, rest)"
proof -
  assume s: "stops rest"
  have none: "frac_part rest = []" "exp_part rest = []" using s by (cases rest; simp add: stops_def frac_part_def exp_part_def Let_def)+
  have "\<not> is_digit (CHR ''-'')" by (simp add: is_digit_def)
  then have head: "hd (dec m) \<noteq> CHR ''-''" "dec m \<noteq> []" for m
    using dec_digits [of m] by (cases "dec m"; auto)+
  show ?thesis
  proof (cases "i < 0")
    case True
    then show ?thesis
      using s none head [of "nat (- i)"] by (simp add: parse_number_def json_int_def int_part_dec parse_digits_dec Let_def)
  next
    case False
    obtain c cs where c: "dec (nat i) = c # cs" using head(2) by (cases "dec (nat i)") auto
    then have "c \<noteq> CHR ''-''" using head(1) [of "nat i"] by simp
    then have "(case dec (nat i) @ rest of c # _ \<Rightarrow> if c = CHR ''-'' then [c] else [] | [] \<Rightarrow> []) = []" by (simp add: c)
    then show ?thesis
      using False s none head(2) [of "nat i"] unfolding parse_number_def json_int_def
      by (simp add: int_part_dec parse_digits_dec Let_def)
  qed
qed

text \<open>The values the printer covers: no fractions, and no key twice in an object.\<close>

fun plain :: "json \<Rightarrow> bool" where
  "plain (JFloat t) = False"
| "plain (JList xs) = list_all plain xs"
| "plain (JObj kvs) = (distinct (map fst kvs) \<and> list_all (\<lambda>(k, v). plain v) kvs)"
| "plain j = True"

lemma dict_set_new: "k \<notin> fst ` set d \<Longrightarrow> dict_set k v d = d @ [(k, v)]"
  by (induction d) (auto simp: dict_set_def)

lemma dict_of_pairs:
  "distinct (map fst kvs) \<Longrightarrow> fst ` set kvs \<inter> fst ` set d = {} \<Longrightarrow> fold (\<lambda>(k, v). dict_set k v) kvs d = d @ kvs"
proof (induction kvs arbitrary: d)
  case (Cons kv kvs)
  then show ?case by (cases kv) (auto simp: dict_set_new)
qed simp

lemma dumps_head: "plain j \<Longrightarrow> dumps j \<noteq> [] \<and> \<not> is_space (hd (dumps j)) \<and> hd (dumps j) \<noteq> CHR '']'' \<and> hd (dumps j) \<noteq> CHR ''}''"
proof (cases j)
  case (JInt i)
  have "\<not> is_space c \<and> c \<noteq> CHR '']'' \<and> c \<noteq> CHR ''}''" if "is_digit c" for c
    using that by (auto simp: is_digit_def is_space_def)
  moreover have "is_digit (hd (dec n))" for n using dec_digits [of n] by (cases "dec n") auto
  ultimately show ?thesis using JInt dec_digits by (auto simp: json_int_def is_space_def)
qed (auto simp: is_space_def json_string_def)

lemma skip_ws_head: "s \<noteq> [] \<Longrightarrow> \<not> is_space (hd s) \<Longrightarrow> skip_ws (s @ rest) = s @ rest"
  by (cases s) (simp_all add: skip_ws_def)

lemma skip_ws_spaces: "list_all is_space w \<Longrightarrow> skip_ws (w @ s) = skip_ws s"
  by (induction w) (simp_all add: skip_ws_def)

definition item :: "string \<times> json \<Rightarrow> string" where
  "item kv = json_string (fst kv) @ '': '' @ dumps (snd kv)"

lemma sep_by_Cons: "xs \<noteq> [] \<Longrightarrow> sep_by sep (x # xs) = x @ sep @ sep_by sep xs"
  by (cases xs) simp_all

lemma sep_by_head: "xs \<noteq> [] \<Longrightarrow> hd xs \<noteq> [] \<Longrightarrow> hd (sep_by sep xs) = hd (hd xs) \<and> sep_by sep xs \<noteq> []"
  by (cases xs; cases "tl xs") auto

lemma hd_tl: "xs \<noteq> [] \<Longrightarrow> hd xs = c \<Longrightarrow> \<exists>r. xs @ ys = c # r"
  by (cases xs) simp_all

lemma item_head: "item kv \<noteq> [] \<and> hd (item kv) = QUOTE"
  by (simp add: item_def json_string_def)

lemma stops_follow: "list_all is_space w \<Longrightarrow> c \<in> {CHR '','', CHR '']'', CHR ''}''} \<Longrightarrow> stops (w @ c # rest)"
  by (cases w) (auto simp: stops_def is_digit_def is_space_def)

text \<open>
  The induction on the fuel: values, lists and objects whose text is no longer than it. Spaces may follow the
  commas, and come before the brace that closes an object.
\<close>

definition reads :: "nat \<Rightarrow> bool" where
  "reads n \<longleftrightarrow>
     (\<forall>j rest. plain j \<longrightarrow> stops rest \<longrightarrow> length (dumps j) \<le> n \<longrightarrow> parse_value n (dumps j @ rest) = Some (j, rest)) \<and>
     (\<forall>xs rest. xs \<noteq> [] \<longrightarrow> list_all plain xs \<longrightarrow> length (sep_by '', '' (map dumps xs)) < n \<longrightarrow>
        parse_elems n (sep_by '', '' (map dumps xs) @ CHR '']'' # rest) = Some (xs, rest)) \<and>
     (\<forall>kvs w w' rest. kvs \<noteq> [] \<longrightarrow> list_all (\<lambda>(k, v). plain v) kvs \<longrightarrow> list_all is_space w \<longrightarrow> list_all is_space w' \<longrightarrow>
        length (sep_by (CHR '','' # w) (map item kvs)) < n \<longrightarrow>
        parse_members n (sep_by (CHR '','' # w) (map item kvs) @ w' @ CHR ''}'' # rest) = Some (kvs, rest))"

lemma reads_elems:
  assumes "reads n" "xs \<noteq> []" "list_all plain xs" "length (sep_by '', '' (map dumps xs)) \<le> n"
  shows "parse_elems (Suc n) (sep_by '', '' (map dumps xs) @ CHR '']'' # rest) = Some (xs, rest)"
proof -
  obtain x ys where x: "xs = x # ys" using assms(2) by (cases xs) auto
  have v: "parse_value n (dumps x @ r) = Some (x, r)" if "stops r" "length (dumps x) \<le> n" for r
    using assms(1,3) that unfolding reads_def x by simp
  have sp: "skip_ws (c # r) = c # r" if "c \<in> {CHR '','', CHR '']''}" for c r using that by (auto simp: skip_ws_def is_space_def)
  show ?thesis
  proof (cases "ys = []")
    case True
    have "stops (CHR '']'' # rest)" using stops_follow [of "[]"] by simp
    then show ?thesis using v [of "CHR '']'' # rest"] assms(4) by (simp add: x True sp)
  next
    case False
    have e: "parse_elems n (sep_by '', '' (map dumps ys) @ CHR '']'' # rest) = Some (ys, rest)"
      using assms(1,3,4) False unfolding reads_def x by (auto simp: sep_by_Cons)
    have h: "skip_ws (sep_by '', '' (map dumps ys) @ CHR '']'' # rest) = sep_by '', '' (map dumps ys) @ CHR '']'' # rest"
      using False assms(3) dumps_head [of "hd ys"] sep_by_head [of "map dumps ys" "'', ''"]
      by (intro skip_ws_head) (auto simp: x hd_map list_all_iff)
    have "skip_ws (CHR '' '' # r) = skip_ws r" for r by (simp add: skip_ws_def is_space_def)
    moreover have "stops (CHR '','' # CHR '' '' # sep_by '', '' (map dumps ys) @ CHR '']'' # rest)" using stops_follow [of "[]"] by simp
    ultimately show ?thesis using v assms(4) False e h by (simp add: x sep_by_Cons sp)
  qed
qed

lemma reads_members:
  assumes "reads n" "kvs \<noteq> []" "list_all (\<lambda>(k, v). plain v) kvs" "list_all is_space w" "list_all is_space w'"
    "length (sep_by (CHR '','' # w) (map item kvs)) \<le> n"
  shows "parse_members (Suc n) (sep_by (CHR '','' # w) (map item kvs) @ w' @ CHR ''}'' # rest) = Some (kvs, rest)"
proof -
  obtain k v ys where x: "kvs = (k, v) # ys" using assms(2) by (cases kvs) auto
  have v: "parse_value n (dumps v @ r) = Some (v, r)" if "stops r" "length (dumps v) \<le> n" for r
    using assms(1,3) that unfolding reads_def x by simp
  have key: "parse_string (concat (map esc_char k) @ QUOTE # r) = Some (k, r)" for r by (rule parse_printed_string)
  have sp: "skip_ws (c # r) = c # r" if "c \<in> {CHR '','', CHR ''}'', CHR '':''}" for c r using that by (auto simp: skip_ws_def is_space_def)
  have h: "skip_ws (CHR '' '' # dumps v @ r) = dumps v @ r" for r
    using dumps_head [of v] assms(3) skip_ws_head [of "dumps v" r] by (simp add: x skip_ws_def is_space_def)
  show ?thesis
  proof (cases "ys = []")
    case True
    have "stops (w' @ CHR ''}'' # rest)" using stops_follow assms(5) by simp
    moreover have "skip_ws (w' @ CHR ''}'' # rest) = CHR ''}'' # rest" by (simp add: skip_ws_spaces [OF assms(5)] sp)
    ultimately show ?thesis using v assms(6) by (simp add: x True sp h key item_def json_string_def)
  next
    case False
    let ?t = "sep_by (CHR '','' # w) (map item ys) @ w' @ CHR ''}'' # rest"
    have e: "parse_members n ?t = Some (ys, rest)"
      using assms(1,3,4,5,6) False unfolding reads_def x by (auto simp: sep_by_Cons)
    have "skip_ws ?t = ?t"
      using False item_head [of "hd ys"] sep_by_head [of "map item ys" "CHR '','' # w"]
      by (intro skip_ws_head) (auto simp: hd_map is_space_def)
    then have t: "skip_ws (w @ ?t) = ?t" by (simp add: skip_ws_spaces [OF assms(4)])
    have "stops (CHR '','' # w @ ?t)" using stops_follow [of "[]"] by simp
    then show ?thesis using v assms(6) False e t by (simp add: x sep_by_Cons sp h key item_def json_string_def)
  qed
qed

lemma reads_value:
  assumes "reads n" "plain j" "stops rest" "length (dumps j) \<le> Suc n"
  shows "parse_value (Suc n) (dumps j @ rest) = Some (j, rest)"
proof (cases j)
  case (JInt i)
  have nodigit: "\<not> is_digit c" if "c \<in> {QUOTE, CHR ''{'', CHR ''['', CHR ''n'', CHR ''t'', CHR ''f''}" for c
    using that by (auto simp: is_digit_def)
  have "\<exists>c cs. json_int i = c # cs \<and> (c = CHR ''-'' \<or> is_digit c)"
    using dec_digits [of "nat i"] by (cases "i < 0"; cases "dec (nat i)") (simp_all add: json_int_def)
  then obtain c cs where c: "json_int i = c # cs" "c = CHR ''-'' \<or> is_digit c" by blast
  then have "c \<notin> {QUOTE, CHR ''{'', CHR ''['', CHR ''n'', CHR ''t'', CHR ''f''}" using nodigit by auto
  then have "parse_value (Suc n) (json_int i @ rest) = parse_number (json_int i @ rest)" by (simp add: c(1))
  then show ?thesis using JInt assms(3) parse_printed_int by simp
next
  case (JStr s)
  then show ?thesis using parse_printed_string [of s rest] by (simp add: json_string_def)
next
  case (JList xs)
  show ?thesis
  proof (cases "xs = []")
    case True
    then show ?thesis using JList by (simp add: skip_ws_def is_space_def)
  next
    case False
    let ?t = "sep_by '', '' (map dumps xs) @ CHR '']'' # rest"
    have h: "hd (dumps (hd xs)) \<noteq> CHR '']''" "\<not> is_space (hd (dumps (hd xs)))"
      "hd (sep_by '', '' (map dumps xs)) = hd (dumps (hd xs))" "sep_by '', '' (map dumps xs) \<noteq> []"
      using False assms(2) JList dumps_head [of "hd xs"] sep_by_head [of "map dumps xs" "'', ''"]
      by (auto simp: hd_map list_all_iff)
    obtain r where t: "?t = hd (dumps (hd xs)) # r" using hd_tl [OF h(4,3)] by blast
    have sk: "skip_ws ?t = ?t" using h skip_ws_head by simp
    obtain m where m: "n = Suc m" "length (sep_by '', '' (map dumps xs)) \<le> m"
      using assms(4) JList False by (cases n) auto
    have "parse_elems n ?t = Some (xs, rest)"
      using assms(1,2) JList False m unfolding reads_def by simp
    then show ?thesis using JList h(1) sk by (simp add: t)
  qed
next
  case (JObj kvs)
  show ?thesis
  proof (cases "kvs = []")
    case True
    then show ?thesis using JObj by (simp add: skip_ws_def is_space_def)
  next
    case False
    let ?t = "sep_by '', '' (map item kvs) @ CHR ''}'' # rest"
    have it: "(\<lambda>(k, v). json_string k @ '': '' @ dumps v) = item" by (simp add: item_def fun_eq_iff)
    have h: "hd (sep_by '', '' (map item kvs)) = QUOTE" "sep_by '', '' (map item kvs) \<noteq> []"
      using False item_head [of "hd kvs"] sep_by_head [of "map item kvs" "'', ''"] by (simp_all add: hd_map)
    obtain r where t: "?t = QUOTE # r" using hd_tl [OF h(2,1)] by blast
    have sk: "skip_ws ?t = ?t" using h skip_ws_head by (simp add: is_space_def)
    have "parse_members n (sep_by '', '' (map item kvs) @ [] @ CHR ''}'' # rest) = Some (kvs, rest)"
      using assms(2,4) JObj False it
      by (intro assms(1) [unfolded reads_def, THEN conjunct2, THEN conjunct2, rule_format]) (auto simp: is_space_def)
    then show ?thesis using JObj sk it assms(2) by (simp add: t dict_of_pairs)
  qed
qed (use assms in \<open>simp_all split: if_splits\<close>)

lemma reads_all: "reads n"
proof (induction n)
  case 0
  show ?case using dumps_head by (auto simp: reads_def)
next
  case (Suc n)
  show ?case
    unfolding reads_def
    using reads_value [OF Suc.IH] reads_elems [OF Suc.IH] reads_members [OF Suc.IH] by (simp add: less_Suc_eq_le)
qed

lemma loads_dumps:
  assumes "plain j" "list_all is_space w"
  shows "loads (dumps j @ w) = Some j"
proof -
  have "stops w" using assms(2) by (cases w) (auto simp: stops_def is_space_def is_digit_def)
  moreover have "skip_ws (dumps j @ w) = dumps j @ w" using dumps_head [OF assms(1)] by (simp add: skip_ws_head)
  moreover have "skip_ws w = []" using skip_ws_spaces [OF assms(2), of "[]"] by (simp add: skip_ws_def)
  ultimately show ?thesis
    using reads_all [of "Suc (length (dumps j @ w))"] assms(1) unfolding reads_def loads_def by simp
qed

lemma dumps_indent2_items:
  "kvs \<noteq> [] \<Longrightarrow> dumps_indent2 kvs =
     ''{'' @ newline @ ''  '' @ sep_by (CHR '','' # newline @ ''  '') (map item kvs) @ newline @ ''}''"
proof -
  have items: "map (\<lambda>(k, v). ''  '' @ json_string k @ '': '' @ dumps v) kvs = map ((@) ''  '' \<circ> item) kvs"
    by (simp add: item_def split_def)
  moreover have "kvs \<noteq> [] \<Longrightarrow> sep_by (CHR '','' # newline) (map ((@) ''  '' \<circ> item) kvs) =
      ''  '' @ sep_by (CHR '','' # newline @ ''  '') (map item kvs)"
    by (induction kvs rule: induct_list012) (simp_all add: newline_def)
  ultimately show "kvs \<noteq> [] \<Longrightarrow> ?thesis" unfolding dumps_indent2_def items by simp
qed

lemma loads_dumps_indent2:
  assumes "kvs \<noteq> []" "distinct (map fst kvs)" "list_all (\<lambda>(k, v). plain v) kvs"
  shows "loads (dumps_indent2 kvs) = Some (JObj kvs)"
proof -
  let ?w = "newline @ ''  ''"
  let ?t = "sep_by (CHR '','' # ?w) (map item kvs) @ newline @ ''}''"
  have sp: "list_all is_space ?w" "list_all is_space newline" by (simp_all add: newline_def is_space_def)
  have printed: "dumps_indent2 kvs = CHR ''{'' # ?w @ ?t" using dumps_indent2_items [OF assms(1)] by simp
  have h: "hd (sep_by (CHR '','' # ?w) (map item kvs)) = QUOTE" "sep_by (CHR '','' # ?w) (map item kvs) \<noteq> []"
    using assms(1) item_head [of "hd kvs"] sep_by_head [of "map item kvs" "CHR '','' # ?w"] by (simp_all add: hd_map)
  obtain r where t: "?t = QUOTE # r" using hd_tl [OF h(2,1)] by blast
  have sk: "skip_ws (?w @ ?t) = ?t" using h skip_ws_head unfolding skip_ws_spaces [OF sp(1)] by (simp add: is_space_def)
  have "parse_members (length (dumps_indent2 kvs)) ?t = Some (kvs, [])"
    using reads_all [of "length (dumps_indent2 kvs)"] assms(1,3) sp unfolding reads_def printed by simp
  then have "parse_value (Suc (length (dumps_indent2 kvs))) (CHR ''{'' # ?w @ ?t) = Some (JObj kvs, [])"
    using sk assms(2) unfolding t by (simp add: dict_of_pairs)
  then show ?thesis unfolding loads_def printed by (simp add: skip_ws_def is_space_def)
qed

section \<open>UTF-8\<close>

text \<open>
  \<open>bytes.decode()\<close> up to U+00FF: a sequence for a later character counts as an error, as a broken one does.
\<close>

fun decode_utf8 :: "bytes \<Rightarrow> string res" where
  "decode_utf8 [] = Inr []"
| "decode_utf8 (b # bs) =
     (let n = unat b in
      if n < 128 then map_res ((#) (char_of n)) (decode_utf8 bs)
      else if n = 194 \<or> n = 195 then
        (case bs of
           c # cs \<Rightarrow> if 128 \<le> unat c \<and> unat c < 192
                     then map_res ((#) (char_of ((n - 192) * 64 + (unat c - 128)))) (decode_utf8 cs) else Inl ValueError
         | [] \<Rightarrow> Inl ValueError)
      else Inl ValueError)"

lemma decode_utf8_char: "decode_utf8 (utf8_char c @ bs) = map_res ((#) c) (decode_utf8 bs)"
proof (cases "(of_char c :: nat) < 128")
  case True
  then have "unat (of_nat (of_char c) :: byte) = of_char c" by (simp add: unat_of_nat)
  then show ?thesis using True by (simp add: utf8_char_def Let_def)
next
  case False
  let ?n = "of_char c :: nat"
  have n: "?n < 256" by simp
  then have d: "?n div 64 < 4" "2 \<le> ?n div 64" "?n mod 64 < 64"
    using False less_mult_imp_div_less [of ?n 4 64] div_le_mono [of 128 ?n 64] by simp_all
  then have u: "unat (of_nat (192 + ?n div 64) :: byte) = 192 + ?n div 64" "unat (of_nat (128 + ?n mod 64) :: byte) = 128 + ?n mod 64"
    by (subst unat_of_nat; simp)+
  moreover have "?n div 64 = 2 \<or> ?n div 64 = 3" using d by linarith
  moreover have "char_of (?n div 64 * 64 + ?n mod 64) = c" by simp
  ultimately show ?thesis using False d by (auto simp: utf8_char_def Let_def simp del: of_nat_add)
qed

lemma decode_encode: "decode_utf8 (encode_utf8 s) = Inr s"
  by (induction s) (simp_all add: encode_utf8_def decode_utf8_char)

end
