(* ===== verification/Wire.thy ===== *)
theory Wire
  imports Json
begin

text \<open>
  The bytes between \<open>network_trust.py\<close> and \<open>holder_server.py\<close>, inside the TLS connection: one JSON object per
  line in each direction. \<open>TrustGroup\<close> models the exchange on parsed lines; here the lines are printed, cut
  into the pieces \<open>recv\<close> returns, and parsed, and the two models are shown to agree.
\<close>

section \<open>Both ends\<close>

text \<open>\<open>_send\<close>: \<open>(json.dumps(obj) + "\n").encode()\<close>.\<close>

definition send_bytes :: "json \<Rightarrow> bytes" where
  "send_bytes obj = encode_utf8 (dumps obj @ newline)"

text \<open>\<open>_recv_line\<close>: \<open>chunks\<close> are what the calls of \<open>recv\<close> return; none, or an empty one, is the end.\<close>

fun recv_line :: "bytes list \<Rightarrow> bytes \<Rightarrow> json res" where
  "recv_line chunks buf =
     (if buf \<noteq> [] \<and> last buf = 10 then
        (case decode_utf8 buf of Inl e \<Rightarrow> Inl e | Inr t \<Rightarrow> of_option ValueError (loads t))
      else (case chunks of
          [] \<Rightarrow> Inl EOFError
        | c # cs \<Rightarrow> if c = [] then Inl EOFError else recv_line cs (buf @ c)))"

declare recv_line.simps [simp del]

text \<open>\<open>readline\<close> on the server's side: up to and with the next newline.\<close>

fun read_lines :: "bytes \<Rightarrow> bytes list" where
  "read_lines [] = []"
| "read_lines (b # bs) =
     (if b = 10 then [10] # read_lines bs
      else (case read_lines bs of [] \<Rightarrow> [[b]] | l # ls \<Rightarrow> (b # l) # ls))"

text \<open>
  \<open>str(msg.get("token", ""))\<close>: a string is itself, other values are shown the way \<open>repr\<close> shows them. A
  fraction is shown as it was written.
\<close>

definition repr_char :: "char \<Rightarrow> char \<Rightarrow> string" where
  "repr_char q c =
     (let n = (of_char c :: nat) in
      if c = q \<or> c = BACKSLASH then [BACKSLASH, c]
      else if n = 10 then [BACKSLASH, CHR ''n''] else if n = 13 then [BACKSLASH, CHR ''r'']
      else if n = 9 then [BACKSLASH, CHR ''t'']
      else if n < 32 \<or> (127 \<le> n \<and> n \<le> 160) \<or> n = 173 then [BACKSLASH, CHR ''x'', hex_digit (n div 16), hex_digit (n mod 16)]
      else [c])"

definition repr_string :: "string \<Rightarrow> string" where
  "repr_string s =
     (let q = (if CHR 0x27 \<in> set s \<and> QUOTE \<notin> set s then QUOTE else CHR 0x27)
      in q # concat (map (repr_char q) s) @ [q])"

fun py_repr :: "json \<Rightarrow> string" where
  "py_repr JNull = ''None''"
| "py_repr (JBool b) = (if b then ''True'' else ''False'')"
| "py_repr (JInt i) = json_int i"
| "py_repr (JFloat t) = t"
| "py_repr (JStr s) = repr_string s"
| "py_repr (JList xs) = CHR ''['' # sep_by '', '' (map py_repr xs) @ '']''"
| "py_repr (JObj kvs) = CHR ''{'' # sep_by '', '' (map (\<lambda>(k, v). repr_string k @ '': '' @ py_repr v) kvs) @ ''}''"

definition py_str :: "json \<Rightarrow> string" where
  "py_str j = (case j of JStr s \<Rightarrow> s | _ \<Rightarrow> py_repr j)"

text \<open>
  \<open>json.loads(line)\<close> and the two fields; an operation that is no string is as good as an unknown one. Bytes
  that are no UTF-8 raise another \<open>ValueError\<close> than bad JSON, with the same effect.
\<close>

definition parse_request :: "bytes \<Rightarrow> request_line" where
  "parse_request line =
     (case decode_utf8 line of Inl _ \<Rightarrow> Unparsed
      | Inr t \<Rightarrow>
          (case loads t of None \<Rightarrow> Unparsed
           | Some (JObj kvs) \<Rightarrow>
               Request (case dict_get kvs ''token'' of None \<Rightarrow> [] | Some v \<Rightarrow> py_str v)
                 (case dict_get kvs ''op'' of Some (JStr op) \<Rightarrow> op | _ \<Rightarrow> [])
           | Some _ \<Rightarrow> NotObject))"

definition reply_json :: "reply \<Rightarrow> json" where
  "reply_json r =
     (case r of ShareReply x share_hex \<Rightarrow> JObj [(''x'', JInt x), (''share_hex'', JStr share_hex)]
      | Pong \<Rightarrow> JObj [(''pong'', JBool True)])"

definition serve_bytes :: "string \<Rightarrow> int \<Rightarrow> string \<Rightarrow> bytes \<Rightarrow> bytes \<times> unit res" where
  "serve_bytes token x share_hex input =
     (let (rs, end_of) = handle_connection token x share_hex (map parse_request (read_lines input))
      in (concat (map (\<lambda>r. send_bytes (reply_json r)) rs), end_of))"

definition request_json :: "string \<Rightarrow> string \<Rightarrow> json" where
  "request_json op token = JObj [(''op'', JStr op), (''token'', JStr token)]"

text \<open>One exchange over the wire; \<open>arrive\<close> is how the answer arrives.\<close>

definition wire_exchange :: "(bytes \<Rightarrow> bytes list) \<Rightarrow> string \<Rightarrow> string \<Rightarrow> nholder \<Rightarrow> json res" where
  "wire_exchange arrive token op h =
     (if \<not> nh_connected h then Inl EOFError
      else recv_line (arrive (fst (serve_bytes (nh_token h) (int (nh_x h)) (nh_share_hex h) (send_bytes (request_json op token))))) [])"

text \<open>\<open>bool(resp.get("pong"))\<close> in \<open>_ping\<close>, and \<open>(resp["x"], bytes.fromhex(resp["share_hex"]))\<close> in \<open>fetch\<close>.\<close>

definition truthy :: "json \<Rightarrow> bool" where
  "truthy j =
     (case j of JNull \<Rightarrow> False | JBool b \<Rightarrow> b | JInt i \<Rightarrow> i \<noteq> 0 | JFloat t \<Rightarrow> list_ex (\<lambda>c. c \<in> set ''123456789Nn'') (takeWhile (\<lambda>c. c \<noteq> CHR ''e'' \<and> c \<noteq> CHR ''E'') t)
      | JStr s \<Rightarrow> s \<noteq> [] | JList xs \<Rightarrow> xs \<noteq> [] | JObj kvs \<Rightarrow> kvs \<noteq> [])"

definition wire_ping :: "(bytes \<Rightarrow> bytes list) \<Rightarrow> string \<Rightarrow> nholder \<Rightarrow> bool" where
  "wire_ping arrive token h =
     (case wire_exchange arrive token ''ping'' h of
        Inr (JObj kvs) \<Rightarrow> (case dict_get kvs ''pong'' of None \<Rightarrow> False | Some v \<Rightarrow> truthy v)
      | _ \<Rightarrow> False)"

definition wire_ask :: "(bytes \<Rightarrow> bytes list) \<Rightarrow> string \<Rightarrow> nholder \<Rightarrow> share option" where
  "wire_ask arrive token h =
     (case wire_exchange arrive token ''get_share'' h of
        Inr (JObj kvs) \<Rightarrow>
          (case (dict_get kvs ''x'', dict_get kvs ''share_hex'') of
             (Some (JInt x), Some (JStr hex)) \<Rightarrow> (case fromhex hex of Inl _ \<Rightarrow> None | Inr y \<Rightarrow> Some (nat x, y))
           | _ \<Rightarrow> None)
      | _ \<Rightarrow> None)"

section \<open>One line\<close>

definition printable :: "string \<Rightarrow> bool" where
  "printable s \<longleftrightarrow> list_all (\<lambda>c. 32 \<le> (of_char c :: nat) \<and> (of_char c :: nat) \<le> 126) s"

lemma printable_app: "printable (s @ t) \<longleftrightarrow> printable s \<and> printable t"
  by (simp add: printable_def)

lemma hex_digit_code: "d < 16 \<Longrightarrow> 32 \<le> (of_char (hex_digit d) :: nat) \<and> (of_char (hex_digit d) :: nat) \<le> 126"
  by (simp add: hex_digit_def)

lemma printable_esc: "printable (esc_char c)"
proof -
  let ?n = "of_char c :: nat"
  have "?n < 256" by simp
  then have "?n div 16 < 16" "?n mod 16 < 16" using less_mult_imp_div_less [of ?n 16 16] by simp_all
  then show ?thesis using hex_digit_code by (auto simp: esc_char_def Let_def printable_def)
qed

lemma printable_string: "printable (json_string s)"
  using printable_esc by (induction s) (simp_all add: json_string_def printable_def)

lemma printable_sep: "printable sep \<Longrightarrow> (\<And>x. x \<in> set xs \<Longrightarrow> printable x) \<Longrightarrow> printable (sep_by sep xs)"
  by (induction sep xs rule: sep_by.induct) (simp_all add: printable_app, simp add: printable_def)

lemma printable_int: "printable (json_int i)"
proof -
  have "printable (dec n)" for n using dec_digits [of n] by (fastforce simp: printable_def is_digit_def list_all_iff)
  then show ?thesis by (simp add: json_int_def printable_def)
qed

lemma printable_dumps: "plain j \<Longrightarrow> printable (dumps j)"
proof (induction j rule: dumps.induct)
  case (6 xs)
  then have "printable (sep_by '', '' (map dumps xs))" by (intro printable_sep) (auto simp: printable_def list_all_iff)
  then show ?case by (simp add: printable_def)
next
  case (7 kvs)
  have "printable (sep_by '', '' (map (\<lambda>(k, v). json_string k @ '': '' @ dumps v) kvs))"
    using 7 printable_string by (intro printable_sep) (auto simp: printable_app list_all_iff, auto simp: printable_def)
  then show ?case by (simp add: printable_def)
qed (simp_all add: printable_int printable_string, simp_all add: printable_def)

lemma encode_printable: "printable s \<Longrightarrow> encode_utf8 s = map (\<lambda>c. of_nat (of_char c)) s \<and> 10 \<notin> set (encode_utf8 s)"
proof (induction s)
  case (Cons c s)
  then have c: "32 \<le> (of_char c :: nat)" "(of_char c :: nat) \<le> 126" and s: "printable s" by (simp_all add: printable_def)
  have "unat (of_nat (of_char c) :: byte) = of_char c" using c by (simp add: unat_of_nat)
  then have "(of_nat (of_char c) :: byte) \<noteq> 10" using c by auto
  moreover have "encode_utf8 (c # s) = of_nat (of_char c) # encode_utf8 s" using c by (simp add: encode_utf8_def utf8_char_def)
  ultimately show ?case using Cons.IH [OF s, THEN conjunct1] Cons.IH [OF s, THEN conjunct2] by simp
qed (simp add: encode_utf8_def)

lemma encode_newline: "encode_utf8 newline = [10]"
  by (simp add: newline_def encode_utf8_def utf8_char_def)

lemma encode_append: "encode_utf8 (s @ t) = encode_utf8 s @ encode_utf8 t"
  by (simp add: encode_utf8_def)

lemma read_one_line: "10 \<notin> set l \<Longrightarrow> read_lines (l @ 10 # bs) = (l @ [10]) # read_lines bs"
  by (induction l) simp_all

text \<open>A printed value is one line, is parsed again by either end, and arrives whole however it is cut.\<close>

lemma send_line:
  assumes "plain j"
  shows "read_lines (send_bytes j) = [send_bytes j]" "\<exists>l. send_bytes j = l @ [10] \<and> 10 \<notin> set l"
    "decode_utf8 (send_bytes j) = Inr (dumps j @ newline)" "loads (dumps j @ newline) = Some j"
proof -
  have l: "10 \<notin> set (encode_utf8 (dumps j))" using encode_printable [OF printable_dumps [OF assms]] by blast
  then show "\<exists>l. send_bytes j = l @ [10] \<and> 10 \<notin> set l" by (auto simp: send_bytes_def encode_append encode_newline)
  show "read_lines (send_bytes j) = [send_bytes j]"
    using read_one_line [OF l, of "[]"] by (simp add: send_bytes_def encode_append encode_newline)
  show "decode_utf8 (send_bytes j) = Inr (dumps j @ newline)" by (simp add: send_bytes_def decode_encode)
  show "loads (dumps j @ newline) = Some j" by (rule loads_dumps [OF assms]) (simp add: newline_def is_space_def)
qed

lemma recv_line_chunks:
  "buf @ concat chunks = l @ [10] \<Longrightarrow> 10 \<notin> set l \<Longrightarrow> [] \<notin> set chunks \<Longrightarrow>
     recv_line chunks buf = (case decode_utf8 (l @ [10]) of Inl e \<Rightarrow> Inl e | Inr t \<Rightarrow> of_option ValueError (loads t))"
proof (induction chunks arbitrary: buf)
  case Nil
  then show ?case by (simp add: recv_line.simps)
next
  case (Cons c cs)
  obtain b bs where c: "c = b # bs" using Cons.prems(3) by (cases c) auto
  have "\<not> (buf \<noteq> [] \<and> last buf = 10)"
  proof
    assume b: "buf \<noteq> [] \<and> last buf = 10"
    then obtain k where "buf = k @ [10]" by (metis append_butlast_last_id)
    then have "k @ [10] @ (b # bs) @ concat cs = l @ [10]" using Cons.prems(1) c by simp
    then have "10 \<in> set l"
      by (metis append_butlast_last_id append_assoc append_is_Nil_conv butlast_append butlast_snoc in_set_conv_decomp list.distinct(1) append_Cons)
    then show False using Cons.prems(2) by simp
  qed
  moreover have "(buf @ c) @ concat cs = l @ [10]" using Cons.prems(1) by simp
  ultimately show ?case using Cons.IH [of "buf @ c"] Cons.prems(2,3) c by (auto simp: recv_line.simps [of "(b # bs) # cs" buf])
qed

lemma recv_sent:
  assumes "plain j" "concat chunks = send_bytes j" "[] \<notin> set chunks"
  shows "recv_line chunks [] = Inr j"
proof -
  obtain l where l: "send_bytes j = l @ [10]" "10 \<notin> set l" using send_line(2) [OF assms(1)] by blast
  have "recv_line chunks [] = (case decode_utf8 (l @ [10]) of Inl e \<Rightarrow> Inl e | Inr t \<Rightarrow> of_option ValueError (loads t))"
    by (rule recv_line_chunks) (use assms l in simp_all)
  then show ?thesis unfolding l(1) [symmetric] send_line(3) [OF assms(1)] sum.case send_line(4) [OF assms(1)] by simp
qed

lemma parse_sent_request: "parse_request (send_bytes (request_json op token)) = Request token op"
proof -
  have "plain (request_json op token)" by (simp add: request_json_def)
  note s = send_line(3,4) [OF this]
  have "parse_request (send_bytes (request_json op token)) =
      (case request_json op token of
         JObj kvs \<Rightarrow> Request (case dict_get kvs ''token'' of None \<Rightarrow> [] | Some v \<Rightarrow> py_str v)
           (case dict_get kvs ''op'' of Some (JStr op) \<Rightarrow> op | _ \<Rightarrow> [])
       | _ \<Rightarrow> NotObject)"
    unfolding parse_request_def s sum.case option.case ..
  then show ?thesis by (simp add: request_json_def dict_get_def py_str_def)
qed

section \<open>Properties\<close>

lemma wire_exchange_reply:
  assumes "nh_connected h" "\<And>b. concat (arrive b) = b \<and> [] \<notin> set (arrive b)"
  shows "wire_exchange arrive token op h =
    (case exchange token op h of None \<Rightarrow> Inl EOFError | Some r \<Rightarrow> Inr (reply_json r))"
proof -
  have pl: "plain (request_json op token)" "plain (reply_json r)" for r
    by (simp_all add: request_json_def reply_json_def split: reply.split)
  let ?rs = "fst (handle_connection (nh_token h) (int (nh_x h)) (nh_share_hex h) [Request token op])"
  have out: "fst (serve_bytes (nh_token h) (int (nh_x h)) (nh_share_hex h) (send_bytes (request_json op token))) =
      concat (map (\<lambda>r. send_bytes (reply_json r)) ?rs)"
    by (simp add: serve_bytes_def send_line(1) [OF pl(1)] parse_sent_request split: prod.split)
  have "?rs = [] \<or> (\<exists>r. ?rs = [r])" by (auto split: sum.split option.split)
  then show ?thesis
  proof
    assume "?rs = []"
    moreover have "arrive [] = []" using assms(2) [of "[]"] by (cases "arrive []") auto
    ultimately show ?thesis using assms(1) by (simp add: wire_exchange_def out exchange_def recv_line.simps)
  next
    assume "\<exists>r. ?rs = [r]"
    then obtain r where r: "?rs = [r]" by blast
    have "recv_line (arrive (send_bytes (reply_json r))) [] = Inr (reply_json r)"
      by (rule recv_sent [OF pl(2)]) (simp_all add: assms(2))
    then show ?thesis using assms(1) r by (simp add: wire_exchange_def out exchange_def)
  qed
qed

lemma served_replies:
  assumes "ascii token"
  defines "answers \<equiv> \<lambda>q. \<exists>op. q = Request token op \<and> op \<in> {''get_share'', ''ping''}"
  shows "fst (handle_connection token x share_hex qs) =
    map (\<lambda>q. if q = Request token ''ping'' then Pong else ShareReply x share_hex) (takeWhile answers qs)"
proof (induction qs)
  case (Cons q qs)
  then show ?case using assms(1) by (cases q) (auto simp: answers_def server_reply_def compare_digest_def split_def)
qed simp

lemma read_sent_lines:
  "(\<And>j. j \<in> set js \<Longrightarrow> plain j) \<Longrightarrow> read_lines (concat (map send_bytes js)) = map send_bytes js"
proof (induction js)
  case (Cons j js)
  obtain l where l: "send_bytes j = l @ [10]" "10 \<notin> set l" using send_line(2) [of j] Cons.prems by auto
  then show ?case using Cons read_one_line [OF l(2)] by simp
qed simp

lemma served_lines:
  assumes "ascii token"
  shows "read_lines (fst (serve_bytes token x share_hex input)) =
    map (\<lambda>l. send_bytes (reply_json (if parse_request l = Request token ''ping'' then Pong else ShareReply x share_hex)))
      (takeWhile (\<lambda>l. \<exists>op. parse_request l = Request token op \<and> op \<in> {''get_share'', ''ping''}) (read_lines input))"
proof -
  have "plain (reply_json r)" for r by (simp add: reply_json_def split: reply.split)
  then have lines: "read_lines (concat (map send_bytes (map reply_json rs))) = map send_bytes (map reply_json rs)" for rs
    by (intro read_sent_lines) auto
  have "fst (serve_bytes token x share_hex input) =
      concat (map send_bytes (map reply_json (fst (handle_connection token x share_hex (map parse_request (read_lines input))))))"
    by (simp add: serve_bytes_def split_def comp_def Let_def)
  then have "read_lines (fst (serve_bytes token x share_hex input)) =
      map send_bytes (map reply_json (fst (handle_connection token x share_hex (map parse_request (read_lines input)))))"
    by (simp only: lines)
  then show ?thesis by (simp only: served_replies [OF assms] takeWhile_map map_map comp_def)
qed

text \<open>
  Property C40. The wire carries the exchanges faithfully: whatever the token, the holder's share and the way
  the bytes arrive, asking a holder for its share or pinging it over the printed and parsed lines gives what
  the exchange of requests and replies gives that the trust group is proved correct with; and whatever
  bytes anyone sends, the server answers only the lines that parse to an object with the token, and with
  exactly the lines of these replies.
\<close>

theorem wire_carries_exchanges:
  assumes "\<And>b. concat (arrive b) = b \<and> [] \<notin> set (arrive b)"
  shows "wire_ask arrive token h = ng_ask token h \<and> wire_ping arrive token h = ng_ping token h \<and>
    (let (out, _) = serve_bytes (nh_token h) (int (nh_x h)) (nh_share_hex h) input;
         answered = takeWhile (\<lambda>l. \<exists>op. parse_request l = Request (nh_token h) op \<and> op \<in> {''get_share'', ''ping''}) (read_lines input)
     in ascii (nh_token h) \<longrightarrow>
        read_lines out = map (\<lambda>l. send_bytes (reply_json
          (if parse_request l = Request (nh_token h) ''ping'' then Pong else ShareReply (int (nh_x h)) (nh_share_hex h)))) answered)"
proof -
  have ask: "wire_ask arrive token h = ng_ask token h"
  proof (cases "nh_connected h")
    case True
    then show ?thesis
      by (cases "exchange token ''get_share'' h")
        (auto simp: wire_ask_def ng_ask_def reply_json_def dict_get_def wire_exchange_reply [OF True assms] split: reply.split sum.split)
  qed (simp add: wire_ask_def ng_ask_def wire_exchange_def exchange_def)
  have ping: "wire_ping arrive token h = ng_ping token h"
  proof (cases "nh_connected h")
    case True
    then show ?thesis
      by (cases "exchange token ''ping'' h")
        (auto simp: wire_ping_def ng_ping_def reply_json_def dict_get_def truthy_def wire_exchange_reply [OF True assms] split: reply.split)
  qed (simp add: wire_ping_def ng_ping_def wire_exchange_def exchange_def)
  show ?thesis using ask ping served_lines [of "nh_token h" "int (nh_x h)" "nh_share_hex h" input]
    by (simp add: split_def Let_def)
qed

theorem wire_carries_exchanges_witness:
  "wire_ask (map (\<lambda>b. [b])) ''5e'' \<lparr>nh_token = ''5e'', nh_x = 3, nh_share_hex = ''2a07'', nh_connected = True\<rparr> = Some (3, [42, 7])"
proof -
  let ?h = "\<lparr>nh_token = ''5e'', nh_x = 3, nh_share_hex = ''2a07'', nh_connected = True\<rparr>"
  have "concat (map (\<lambda>b. [b]) bs) = bs \<and> [] \<notin> set (map (\<lambda>b. [b]) bs)" for bs :: bytes by (induction bs) auto
  then have "wire_ask (map (\<lambda>b. [b])) ''5e'' ?h = ng_ask ''5e'' ?h"
    using wire_carries_exchanges [of "map (\<lambda>b. [b])" "''5e''" ?h "[]"] by blast
  also have "\<dots> = Some (3, [42, 7])"
    by (simp add: ng_ask_def exchange_def server_reply_def compare_digest_def ascii_def unhex_def hex_blank_def)
  finally show ?thesis .
qed

end
