(* ===== verification/FallingFile.thy ===== *)
theory FallingFile
  imports Splitter
begin

text \<open>
  \<open>backup-original-source/vstorage/falling_storage.py\<close>, the first prototype: a file cut into pieces
  that move round a ring of ports, one port further at every hop of a thread that holds the lock.
  Each port holds the number of a piece or nothing.
\<close>

record ffile =
  ff_num_ports :: nat
  ff_pieces :: "bytes list"
  ff_ports :: "nat option list"
  ff_running :: bool
  ff_hops :: nat

definition ff_chunk_size :: "bytes \<Rightarrow> nat \<Rightarrow> nat" where
  "ff_chunk_size data num_ports = max 1 (length data div num_ports)"

definition ff_init :: "bytes \<Rightarrow> nat \<Rightarrow> ffile res" where
  "ff_init data num_ports =
     (if num_ports = 0 then Inl ZeroDivisionError
      else let chunk_size = ff_chunk_size data num_ports;
               cut = map (\<lambda>i. py_slice data i (i + chunk_size)) (py_range 0 (length data) chunk_size);
               pieces = cut @ replicate (num_ports - length cut) []
           in Inr \<lparr>ff_num_ports = num_ports, ff_pieces = pieces,
                ff_ports = map Some [0..<length pieces] @ replicate (num_ports - length pieces) None,
                ff_running = False, ff_hops = 0\<rparr>)"

text \<open>\<open>for i, piece_idx in enumerate(self.ports)\<close>: a port that is taken twice keeps the later piece.\<close>

fun ff_shift :: "nat \<Rightarrow> nat \<Rightarrow> nat option list \<Rightarrow> nat option list \<Rightarrow> nat option list" where
  "ff_shift n i [] new_ports = new_ports"
| "ff_shift n i (None # ps) new_ports = ff_shift n (Suc i) ps new_ports"
| "ff_shift n i (Some k # ps) new_ports = ff_shift n (Suc i) ps (new_ports[Suc i mod n := Some k])"

definition ff_hop :: "ffile \<Rightarrow> ffile" where
  "ff_hop s = s\<lparr>ff_ports := ff_shift (ff_num_ports s) 0 (ff_ports s) (replicate (ff_num_ports s) None),
               ff_hops := ff_hops s + 1\<rparr>"

text \<open>One turn of the thread: it ends when \<open>running\<close> is false.\<close>

definition ff_turn :: "ffile \<Rightarrow> ffile option" where
  "ff_turn s = (if ff_running s then Some (ff_hop s) else None)"

definition ff_start :: "ffile \<Rightarrow> ffile" where
  "ff_start s = s\<lparr>ff_running := True\<rparr>"

definition ff_stop :: "ffile \<Rightarrow> ffile" where
  "ff_stop s = s\<lparr>ff_running := False\<rparr>"

fun ff_locations :: "nat \<Rightarrow> nat option list \<Rightarrow> (nat, nat) dict \<Rightarrow> (nat, nat) dict" where
  "ff_locations i [] location_of = location_of"
| "ff_locations i (None # ps) location_of = ff_locations (Suc i) ps location_of"
| "ff_locations i (Some k # ps) location_of = ff_locations (Suc i) ps (dict_set k i location_of)"

definition ff_reconstruct :: "ffile \<Rightarrow> bytes res" where
  "ff_reconstruct s =
     map_res concat (mapM (py_index (ff_pieces s)) (sort (dict_keys (ff_locations 0 (ff_ports s) []))))"

definition ff_where :: "ffile \<Rightarrow> (string, string) dict" where
  "ff_where s = map (\<lambda>(i, p). (''port_'' @ dec i, case p of None \<Rightarrow> ''empty'' | Some k \<Rightarrow> ''piece_'' @ dec k))
                  (enumerate 0 (ff_ports s))"

section \<open>One hop\<close>

text \<open>Once at least \<open>n\<close> ports were read, the last \<open>n\<close> of them are what the new ports hold.\<close>

lemma length_ff_shift [simp]: "length (ff_shift n i ps new) = length new"
  by (induction n i ps new rule: ff_shift.induct) auto

lemma ff_shift_snoc:
  "ff_shift n i (ps @ [Some k]) new = (ff_shift n i ps new)[Suc (i + length ps) mod n := Some k]"
  by (induction n i ps new rule: ff_shift.induct) auto

lemma ff_shift_port:
  "0 < n \<Longrightarrow> length new = n \<Longrightarrow> i < length ks \<Longrightarrow> length ks \<le> i + n \<Longrightarrow>
     ff_shift n 0 (map Some ks) new ! (Suc i mod n) = Some (ks ! i)"
proof (induction ks rule: rev_induct)
  case (snoc k ks)
  show ?case
  proof (cases "i = length ks")
    case True
    then show ?thesis using snoc.prems by (simp add: ff_shift_snoc [of _ _ "map Some ks"])
  next
    case False
    then have i: "i < length ks" "length ks < i + n" using snoc.prems by auto
    have "Suc (length ks) mod n \<noteq> Suc i mod n"
    proof
      assume "Suc (length ks) mod n = Suc i mod n"
      then have "n dvd length ks - i" using i(1) by (metis Suc_leI diff_Suc_Suc le_SucI mod_eq_dvd_iff_nat)
      then show False using i by (auto dest: dvd_imp_le)
    qed
    then show ?thesis
      using snoc.IH [OF snoc.prems(1,2) i(1)] i
      by (simp add: ff_shift_snoc [of _ _ "map Some ks"] nth_append nth_list_update)
  qed
qed simp

lemma ff_shift_set:
  assumes "0 < n" "length new = n" "n \<le> length ks"
  shows "set (ff_shift n 0 (map Some ks) new) = Some ` set (drop (length ks - n) ks)"
proof -
  let ?m = "length ks" and ?new = "ff_shift n 0 (map Some ks) new"
  have port: "?new ! (Suc i mod n) = Some (ks ! i)" if "?m - n \<le> i" "i < ?m" for i
    using ff_shift_port [OF assms(1,2) that(2)] that(1) by simp
  have cover: "\<exists>i. ?m - n \<le> i \<and> i < ?m \<and> Suc i mod n = j" if "j < n" for j
  proof -
    let ?i = "?m - n + (j + n * ?m - Suc (?m - n)) mod n"
    have le: "Suc (?m - n) \<le> j + n * ?m"
    proof -
      have "?m \<le> n * ?m" using assms(1) by simp
      then show ?thesis using assms(1,3) by linarith
    qed
    have "Suc ?i mod n = (Suc (?m - n) + (j + n * ?m - Suc (?m - n))) mod n"
      by (simp only: add_Suc [symmetric] mod_add_right_eq)
    also have "\<dots> = (j + n * ?m) mod n" by (simp only: le_add_diff_inverse [OF le])
    also have "\<dots> = j" using that by simp
    finally have "Suc ?i mod n = j" .
    moreover have "?i < ?m" using assms(1,3) mod_less_divisor [OF assms(1), of "j + n * ?m - Suc (?m - n)"] by linarith
    ultimately show ?thesis by (intro exI [of _ ?i]) simp
  qed
  have len: "length ?new = n" using assms(2) by simp
  have "drop (?m - n) ks = map ((!) ks) [?m - n..<?m]" by (rule nth_equalityI) simp_all
  then have "set (drop (?m - n) ks) = (\<lambda>i. ks ! i) ` {?m - n..<?m}" by simp
  moreover have "set ?new = (\<lambda>i. Some (ks ! i)) ` {?m - n..<?m}"
  proof (intro equalityI subsetI)
    fix x assume "x \<in> set ?new"
    then obtain j where "j < n" "x = ?new ! j" unfolding in_set_conv_nth len by blast
    then show "x \<in> (\<lambda>i. Some (ks ! i)) ` {?m - n..<?m}" using cover port by force
  next
    fix x assume "x \<in> (\<lambda>i. Some (ks ! i)) ` {?m - n..<?m}"
    then obtain i where "?m - n \<le> i" "i < ?m" "x = ?new ! (Suc i mod n)" using port by auto
    then show "x \<in> set ?new" using len assms(1) by simp
  qed
  ultimately show ?thesis by (simp add: image_image)
qed

section \<open>Any number of hops\<close>

text \<open>
  The pieces from number \<open>lost\<close> on are in the ports, as many as there are ports; the ports of a fresh
  file are more if the last piece is a remainder.
\<close>

definition ring_ok :: "nat \<Rightarrow> bytes list \<Rightarrow> nat \<Rightarrow> ffile \<Rightarrow> bool" where
  "ring_ok n pieces lost s \<longleftrightarrow>
     ff_num_ports s = n \<and> ff_pieces s = pieces \<and>
     (\<exists>ks. ff_ports s = map Some ks \<and> n \<le> length ks \<and> set (drop (length ks - n) ks) = {length pieces - n..<length pieces} \<and>
        set ks = {lost..<length pieces})"

lemma ff_locations_keys:
  "set (dict_keys (ff_locations i (map Some ks) d)) = set (dict_keys d) \<union> set ks"
  by (induction ks arbitrary: i d) (auto simp: dict_keys_iff)

lemma ff_locations_ok: "dict_ok d \<Longrightarrow> dict_ok (ff_locations i (map Some ks) d)"
  by (induction ks arbitrary: i d) auto

lemma ff_hop_ring: "0 < n \<Longrightarrow> n \<le> length pieces \<Longrightarrow> ring_ok n pieces lost s \<Longrightarrow> ring_ok n pieces (length pieces - n) (ff_hop s)"
proof -
  assume n: "0 < n" "n \<le> length pieces" and "ring_ok n pieces lost s"
  then obtain ks where ks: "ff_num_ports s = n" "ff_pieces s = pieces" "ff_ports s = map Some ks" "n \<le> length ks"
    "set (drop (length ks - n) ks) = {length pieces - n..<length pieces}"
    unfolding ring_ok_def by blast
  let ?new = "ff_shift n 0 (map Some ks) (replicate n None)"
  have set_new: "set ?new = Some ` {length pieces - n..<length pieces}"
    using ff_shift_set [OF n(1) _ ks(4), of "replicate n None"] ks(5) by simp
  have "map (Some \<circ> the) ?new = ?new" by (rule map_idI) (use set_new in auto)
  then have new: "?new = map Some (map the ?new)" by simp
  have "set (map the ?new) = {length pieces - n..<length pieces}" using set_new by (simp add: image_image)
  then show ?thesis
    unfolding ring_ok_def using ks new by (intro conjI exI [of _ "map the ?new"]) (simp_all add: ff_hop_def)
qed

lemma ring_reconstruct:
  assumes "ring_ok n pieces lost s"
  shows "ff_reconstruct s = Inr (concat (drop lost pieces))"
proof -
  obtain ks where ks: "ff_pieces s = pieces" "ff_ports s = map Some ks" "set ks = {lost..<length pieces}"
    using assms unfolding ring_ok_def by blast
  have "distinct (dict_keys (ff_locations 0 (map Some ks) []))"
    using ff_locations_ok [of "[]" 0 ks] by (simp add: dict_ok_def dict_keys_def)
  moreover have "set (dict_keys (ff_locations 0 (map Some ks) [])) = set [lost..<length pieces]"
    using ff_locations_keys [of 0 ks "[]"] ks(3) by (simp add: dict_keys_def)
  ultimately have "sort (dict_keys (ff_locations 0 (map Some ks) [])) = [lost..<length pieces]"
    by (intro sorted_distinct_set_unique) simp_all
  moreover have "mapM (py_index pieces) [lost..<length pieces] = Inr (map ((!) pieces) [lost..<length pieces])"
    by (rule mapM_Inr) (simp add: py_index_def)
  moreover have "map ((!) pieces) [lost..<length pieces] = drop lost pieces"
    by (rule nth_equalityI) simp_all
  ultimately show ?thesis by (simp add: ff_reconstruct_def ks)
qed

lemma ring_hops:
  assumes "0 < n" "n \<le> length pieces" "ring_ok n pieces 0 s"
  shows "ring_ok n pieces (if h = 0 then 0 else length pieces - n) ((ff_hop ^^ h) s)"
  using assms by (induction h) (auto intro: ff_hop_ring)

section \<open>How many pieces there are\<close>

lemma py_range_drop: "drop k (py_range lo hi c) = py_range (lo + k * c) hi c"
proof (induction lo hi c arbitrary: k rule: py_range.induct)
  case (1 lo hi c)
  show ?case
  proof (cases "lo < hi \<and> 0 < c")
    case True
    then show ?thesis using 1 by (cases k) (simp_all add: py_range_step ac_simps)
  next
    case False
    then show ?thesis by (auto simp: py_range.simps [of lo] py_range.simps [of "lo + k * c"])
  qed
qed

lemma length_py_range: "length (py_range lo hi c) \<le> k \<longleftrightarrow> c = 0 \<or> hi \<le> lo + k * c"
proof -
  have "length (py_range lo hi c) \<le> k \<longleftrightarrow> py_range (lo + k * c) hi c = []"
    using py_range_drop [of k lo hi c] by (metis drop_eq_Nil)
  also have "\<dots> \<longleftrightarrow> c = 0 \<or> hi \<le> lo + k * c" by (auto simp: py_range.simps)
  finally show ?thesis .
qed

lemma ff_init_ring:
  assumes "0 < n"
  obtains s pieces where "ff_init data n = Inr s" "ring_ok n pieces 0 s" "n \<le> length pieces" "concat pieces = data"
    "\<And>k. concat (drop k pieces) = drop (k * ff_chunk_size data n) data"
    "length pieces = max n (length (py_range 0 (length data) (ff_chunk_size data n)))"
proof -
  let ?c = "ff_chunk_size data n"
  let ?cut = "map (\<lambda>i. py_slice data i (i + ?c)) (py_range 0 (length data) ?c)"
  let ?p = "?cut @ replicate (n - length ?cut) []"
  let ?s = "\<lparr>ff_num_ports = n, ff_pieces = ?p, ff_ports = map Some [0..<length ?p], ff_running = False, ff_hops = 0\<rparr>"
  have c: "0 < ?c" by (simp add: ff_chunk_size_def)
  have len: "length ?p = max n (length (py_range 0 (length data) ?c))" by simp
  then have n: "n \<le> length ?p" by linarith
  then have "n - length ?p = 0" by linarith
  then have "ff_init data n = Inr ?s" using assms unfolding ff_init_def Let_def by simp
  moreover have "ring_ok n ?p 0 ?s"
    unfolding ring_ok_def using n by (intro conjI exI [of _ "[0..<length ?p]"]) (simp_all add: drop_upt)
  moreover have drp: "concat (drop k ?p) = drop (k * ?c) data" for k
  proof -
    have "concat (drop k ?p) = concat (drop k ?cut)" by (simp add: concat_eq_Nil_conv [THEN iffD2] drop_replicate del: drop_map)
    also have "\<dots> = drop (k * ?c) data"
      using concat_pieces [OF c, of data "length data" "k * ?c"] by (simp add: drop_map py_range_drop)
    finally show ?thesis .
  qed
  moreover have "concat ?p = data" using drp [of 0] by simp
  ultimately show thesis using that n len by blast
qed


lemma even_division: "0 < n \<Longrightarrow> length data \<le> n * ff_chunk_size data n \<longleftrightarrow> length data \<le> n \<or> n dvd length data"
proof -
  assume n: "0 < n"
  show ?thesis
  proof (cases "length data < n")
    case True
    then show ?thesis by (simp add: ff_chunk_size_def)
  next
    case False
    then have "1 \<le> length data div n" using n by (simp add: Suc_le_eq div_greater_zero_iff)
    then have "ff_chunk_size data n = length data div n" by (simp add: ff_chunk_size_def max_def)
    moreover have "length data \<le> n * (length data div n) \<longleftrightarrow> n dvd length data"
      by (metis dvd_mult_div_cancel dvd_triv_left le_antisym order_refl times_div_less_eq_dividend)
    ultimately show ?thesis using False by auto
  qed
qed

section \<open>Properties\<close>

text \<open>
  Property C37. A falling file that has made at least one hop reconstructs to a suffix of its data: the
  first pieces are lost, as many as there are more pieces than ports, because the loop writes two of
  them to one port. So the file is read back intact after every number of hops exactly if it
  is no longer than the number of ports or divides evenly among them; the piece left over by an uneven
  division pushes out the first one.
\<close>

theorem falling_file_keeps_even_files:
  assumes "0 < num_ports"
  shows "\<exists>s. ff_init data num_ports = Inr s \<and> ff_reconstruct s = Inr data \<and>
    (\<forall>h. ff_reconstruct ((ff_hop ^^ Suc h) s) =
       Inr (drop ((length (ff_pieces s) - num_ports) * ff_chunk_size data num_ports) data)) \<and>
    ((\<forall>h. ff_reconstruct ((ff_hop ^^ h) s) = Inr data) \<longleftrightarrow> length data \<le> num_ports \<or> num_ports dvd length data)"
proof -
  let ?c = "ff_chunk_size data num_ports"
  obtain s pieces where s: "ff_init data num_ports = Inr s" "ring_ok num_ports pieces 0 s" "num_ports \<le> length pieces"
    "concat pieces = data" "\<And>k. concat (drop k pieces) = drop (k * ?c) data"
    "length pieces = max num_ports (length (py_range 0 (length data) ?c))"
    using ff_init_ring [OF assms, of data] by blast
  have "ff_pieces s = pieces" using s(2) by (simp add: ring_ok_def)
  have ring: "ff_reconstruct ((ff_hop ^^ h) s) = Inr (drop ((if h = 0 then 0 else length pieces - num_ports) * ?c) data)" for h
    using ring_reconstruct [OF ring_hops [OF assms s(3,2), of h]] s(5) by simp
  have "(\<forall>h. ff_reconstruct ((ff_hop ^^ h) s) = Inr data) \<longleftrightarrow> drop ((length pieces - num_ports) * ?c) data = data"
    unfolding ring by (auto dest: spec [of _ 1])
  also have "\<dots> \<longleftrightarrow> length pieces \<le> num_ports"
  proof (cases "length pieces \<le> num_ports")
    case False
    then have "length data \<noteq> 0" using length_py_range [of 0 "length data" ?c num_ports] s(6) by auto
    moreover have "0 < (length pieces - num_ports) * ?c" using False by (simp add: ff_chunk_size_def)
    ultimately have "length (drop ((length pieces - num_ports) * ?c) data) < length data" by simp
    then have "drop ((length pieces - num_ports) * ?c) data \<noteq> data" by (rule contrapos_pn) simp
    then show ?thesis using False by blast
  qed simp
  also have "\<dots> \<longleftrightarrow> length data \<le> num_ports * ?c"
    using s(6) length_py_range [of 0 "length data" ?c num_ports] by (auto simp: ff_chunk_size_def)
  also have "\<dots> \<longleftrightarrow> length data \<le> num_ports \<or> num_ports dvd length data"
    by (rule even_division [OF assms])
  finally show ?thesis using s(1) ring [of 0] ring [of "Suc _"] \<open>ff_pieces s = pieces\<close> by simp
qed

theorem falling_file_keeps_even_files_witness:
  "\<exists>s. ff_init [1, 2, 3] 2 = Inr s \<and> ff_reconstruct s = Inr [1, 2, 3] \<and>
     \<not> (\<forall>h. ff_reconstruct ((ff_hop ^^ h) s) = Inr [1, 2, 3])"
  using falling_file_keeps_even_files [of 2 "[1, 2, 3]"] by auto

section \<open>The fall handed on: perpetual\_fall.py\<close>

text \<open>
  Two chains, each with the one box that holds the piece falling now and the trail of all that fell
  through. The first half of the pieces falls through the first chain, the rest through the second.
\<close>

definition FALL_BOX :: nat where
  "FALL_BOX = 64 * 1024"

record chain =
  ch_current_box :: "bytes option"
  ch_caught :: "bytes list"

definition chain_new :: chain where
  "chain_new = \<lparr>ch_current_box = None, ch_caught = []\<rparr>"

definition catch_falling :: "bytes \<Rightarrow> chain \<Rightarrow> chain" where
  "catch_falling piece c = c\<lparr>ch_current_box := Some piece, ch_caught := ch_caught c @ [piece]\<rparr>"

definition box_bytes_now :: "chain \<Rightarrow> nat" where
  "box_bytes_now c = (case ch_current_box c of None \<Rightarrow> 0 | Some b \<Rightarrow> length b)"

definition fall_pieces :: "bytes \<Rightarrow> bytes list" where
  "fall_pieces data = map (\<lambda>i. py_slice data i (i + FALL_BOX)) (py_range 0 (length data) FALL_BOX)"

fun fall_loop :: "nat \<Rightarrow> nat \<Rightarrow> bytes list \<Rightarrow> chain \<times> chain \<times> nat \<Rightarrow> chain \<times> chain \<times> nat" where
  "fall_loop idx handoff_at [] st = st"
| "fall_loop idx handoff_at (p # ps) (a, b, max_seen) =
     (if idx < handoff_at
      then let a' = catch_falling p a in fall_loop (Suc idx) handoff_at ps (a', b, max max_seen (box_bytes_now a'))
      else let b' = catch_falling p b in fall_loop (Suc idx) handoff_at ps (a, b', max max_seen (box_bytes_now b')))"

definition perpetual_fall :: "env \<Rightarrow> bytes \<Rightarrow> chain \<times> chain \<times> nat \<times> bool" where
  "perpetual_fall E data =
     (let ps = fall_pieces data;
          (a, b, max_seen) = fall_loop 0 (length ps div 2) ps (chain_new, chain_new, 0)
      in (a, b, max_seen, sha256 E (concat (ch_caught a @ ch_caught b)) = sha256 E data))"

lemma catch_all:
  "ch_caught (fold catch_falling ps c) = ch_caught c @ ps"
  "ch_current_box (fold catch_falling ps c) = (if ps = [] then ch_current_box c else Some (last ps))"
  by (induction ps arbitrary: c) (simp_all add: catch_falling_def)

abbreviation seen_box :: "bytes \<Rightarrow> nat \<Rightarrow> nat" where
  "seen_box p m \<equiv> max m (length p)"

lemma fall_first:
  "idx + length ps \<le> h \<Longrightarrow>
     fall_loop idx h (ps @ qs) (a, b, m) = fall_loop (idx + length ps) h qs (fold catch_falling ps a, b, fold seen_box ps m)"
  by (induction ps arbitrary: idx a m) (simp_all add: Let_def box_bytes_now_def catch_falling_def)

lemma fall_second:
  "h \<le> idx \<Longrightarrow> fall_loop idx h ps (a, b, m) = (a, fold catch_falling ps b, fold seen_box ps m)"
proof (induction ps arbitrary: idx b m)
  case (Cons p ps)
  then show ?case using Cons.IH [of "Suc idx"] by (simp add: Let_def box_bytes_now_def catch_falling_def)
qed simp

lemma seen_bound: "(\<And>p. p \<in> set ps \<Longrightarrow> length p \<le> n) \<Longrightarrow> m \<le> n \<Longrightarrow> fold seen_box ps m \<le> n"
  by (induction ps arbitrary: m) simp_all

lemma fall_run:
  assumes "h \<le> length ps"
  shows "fall_loop 0 h ps (a, b, m) =
    (fold catch_falling (take h ps) a, fold catch_falling (drop h ps) b, fold seen_box ps m)"
proof -
  have "fall_loop 0 h (take h ps @ drop h ps) (a, b, m) =
      fall_loop h h (drop h ps) (fold catch_falling (take h ps) a, b, fold seen_box (take h ps) m)"
    using fall_first [of 0 "take h ps" h "drop h ps"] assms by simp
  also have "\<dots> = (fold catch_falling (take h ps) a, fold catch_falling (drop h ps) b,
      fold seen_box (take h ps @ drop h ps) m)"
    by (simp only: fall_second order_refl fold_append comp_apply)
  finally show ?thesis by (simp only: append_take_drop_id)
qed

lemma fall_pieces_facts:
  "concat (fall_pieces data) = data" "p \<in> set (fall_pieces data) \<Longrightarrow> length p \<le> FALL_BOX"
  "FALL_BOX < length data \<Longrightarrow> 2 \<le> length (fall_pieces data)"
proof -
  show "concat (fall_pieces data) = data"
    using concat_pieces [of FALL_BOX data "length data" 0] by (simp add: fall_pieces_def FALL_BOX_def)
  show "p \<in> set (fall_pieces data) \<Longrightarrow> length p \<le> FALL_BOX"
    using pieces_bounded by (fastforce simp: fall_pieces_def)
  show "2 \<le> length (fall_pieces data)" if "FALL_BOX < length data"
    using length_py_range [of 0 "length data" FALL_BOX 1] that by (simp add: fall_pieces_def FALL_BOX_def)
qed

text \<open>
  Every piece is caught by one of the two chains, in order, and no box is larger than 64 KB; but
  the first chain still holds its last piece when the second has taken over.
\<close>

lemma perpetual_fall_hands_over:
  assumes "perpetual_fall E data = (a, b, max_seen, intact)"
  shows "concat (ch_caught a @ ch_caught b) = data" "intact" "max_seen \<le> FALL_BOX"
    "length (ch_caught a) = length (fall_pieces data) div 2"
    "FALL_BOX < length data \<Longrightarrow> ch_current_box a = Some (last (ch_caught a)) \<and> ch_current_box b = Some (last (ch_caught b))"
proof -
  let ?ps = "fall_pieces data"
  let ?h = "length ?ps div 2"
  have r: "a = fold catch_falling (take ?h ?ps) chain_new" "b = fold catch_falling (drop ?h ?ps) chain_new"
    "max_seen = fold seen_box ?ps 0" "intact = (sha256 E (concat (ch_caught a @ ch_caught b)) = sha256 E data)"
    using assms by (auto simp: perpetual_fall_def Let_def fall_run simp del: concat_append)
  have caught: "ch_caught a = take ?h ?ps" "ch_caught b = drop ?h ?ps" by (simp_all add: r(1,2) catch_all chain_new_def)
  then show data: "concat (ch_caught a @ ch_caught b) = data" by (simp only: append_take_drop_id fall_pieces_facts)
  show "intact" using r(4) data by simp
  show "max_seen \<le> FALL_BOX" unfolding r(3) by (rule seen_bound [OF fall_pieces_facts(2)]) simp_all
  show "length (ch_caught a) = ?h" by (simp add: caught)
  show "ch_current_box a = Some (last (ch_caught a)) \<and> ch_current_box b = Some (last (ch_caught b))"
    if "FALL_BOX < length data"
  proof -
    have "2 \<le> length ?ps" using fall_pieces_facts(3) that .
    then have "0 < ?h" "?h < length ?ps" by linarith+
    then have "take ?h ?ps \<noteq> []" "drop ?h ?ps \<noteq> []" by auto
    then show ?thesis unfolding caught by (simp only: r(1,2) catch_all if_False simp_thms)
  qed
qed

end
