(* ===== verification/NestedChain.thy ===== *)
theory NestedChain
  imports Prelude
begin

text \<open>
  \<open>backup-original-source/vstorage/nested_boxes.py\<close> and \<open>nested_boxes_v2.py\<close>: boxes that hold boxes,
  the innermost of which holds the file. Boxes are objects that are changed through references, so they live
  in an explicit store; the address of the next object stands for the uuid that names it. The messages of
  the first version are kept as events; its field \<open>parent\<close> is never set or read.
\<close>

datatype contents = Empty | Inner nat | File bytes

record box =
  bx_contents :: contents
  bx_alive :: bool

datatype message = Broke nat | NoParentLeft | Rewrapped nat nat

record nchain =
  ns_file :: bytes
  ns_store :: "nat \<Rightarrow> box"
  ns_next :: nat
  ns_boxes :: "nat list"
  ns_history :: "message list"
  ns_break_count :: nat

section \<open>Objects\<close>

definition new_box :: "contents \<Rightarrow> nchain \<Rightarrow> nat \<times> nchain" where
  "new_box c s = (ns_next s, s\<lparr>ns_store := (ns_store s)(ns_next s := \<lparr>bx_contents = c, bx_alive = True\<rparr>),
                              ns_next := ns_next s + 1\<rparr>)"

definition set_contents :: "nat \<Rightarrow> contents \<Rightarrow> nchain \<Rightarrow> nchain" where
  "set_contents b c s = s\<lparr>ns_store := (ns_store s)(b := (ns_store s b)\<lparr>bx_contents := c\<rparr>)\<rparr>"

definition kill_box :: "nat \<Rightarrow> nchain \<Rightarrow> nchain" where
  "kill_box b s = s\<lparr>ns_store := (ns_store s)(b := (ns_store s b)\<lparr>bx_alive := False\<rparr>)\<rparr>"

definition log_message :: "message \<Rightarrow> nchain \<Rightarrow> nchain" where
  "log_message m s = s\<lparr>ns_history := ns_history s @ [m]\<rparr>"

section \<open>Construction\<close>

text \<open>The loop of \<open>__init__\<close>: every new box gets the one before it, or the file, as its contents.\<close>

fun form_boxes :: "nat \<Rightarrow> contents \<Rightarrow> nchain \<Rightarrow> nchain" where
  "form_boxes 0 current s = s"
| "form_boxes (Suc n) current s =
     (let (b, s1) = new_box current s in form_boxes n (Inner b) (s1\<lparr>ns_boxes := ns_boxes s1 @ [b]\<rparr>))"

text \<open>\<open>for i in range(len(boxes) - 1): boxes[i].contents = boxes[i + 1]\<close>.\<close>

fun fix_links :: "nat list \<Rightarrow> nchain \<Rightarrow> nchain" where
  "fix_links (b # c # bs) s = fix_links (c # bs) (set_contents b (Inner c) s)"
| "fix_links bs s = s"

definition ns_start :: "bytes \<Rightarrow> nchain" where
  "ns_start file = \<lparr>ns_file = file, ns_store = (\<lambda>_. \<lparr>bx_contents = Empty, bx_alive = False\<rparr>), ns_next = 0,
     ns_boxes = [], ns_history = [], ns_break_count = 0\<rparr>"

definition n1_init :: "bytes \<Rightarrow> nat \<Rightarrow> nchain" where
  "n1_init file initial_depth =
     (let s = form_boxes initial_depth (File file) (ns_start file);
          s1 = s\<lparr>ns_boxes := rev (ns_boxes s)\<rparr>
      in fix_links (ns_boxes s1) s1)"

section \<open>The first version\<close>

text \<open>\<open>boxes[-1]\<close> and \<open>boxes[-2]\<close>.\<close>

definition innermost :: "nchain \<Rightarrow> nat res" where
  "innermost s = (if ns_boxes s = [] then Inl IndexError else Inr (last (ns_boxes s)))"

definition holder_of :: "nchain \<Rightarrow> nat res" where
  "holder_of s = (if length (ns_boxes s) < 2 then Inl IndexError else Inr (last (butlast (ns_boxes s))))"

definition n1_break_innermost :: "nchain \<Rightarrow> bool res \<times> nchain" where
  "n1_break_innermost s =
     (case innermost s of Inl e \<Rightarrow> (Inl e, s)
      | Inr dying \<Rightarrow>
          (let s1 = log_message (Broke dying) (kill_box dying s) in
           if length (ns_boxes s1) < 2 then (Inr False, log_message NoParentLeft s1)
           else (case holder_of s1 of Inl e \<Rightarrow> (Inl e, s1)
             | Inr new_holder \<Rightarrow>
                 (let s2 = set_contents new_holder (File (ns_file s1)) s1;
                      s3 = s2\<lparr>ns_boxes := butlast (ns_boxes s2)\<rparr>;
                      (fresh, s4) = new_box (File (ns_file s3)) s3;
                      s5 = set_contents new_holder (Inner fresh) s4;
                      s6 = s5\<lparr>ns_boxes := ns_boxes s5 @ [fresh]\<rparr>
                  in (Inr True, log_message (Rewrapped new_holder fresh) s6)))))"

definition verify_file_intact :: "nchain \<Rightarrow> bool res" where
  "verify_file_intact s = map_res (\<lambda>b. bx_contents (ns_store s b) = File (ns_file s)) (innermost s)"

section \<open>The second version\<close>

definition reinforce_outer_end :: "nchain \<Rightarrow> unit res \<times> nchain" where
  "reinforce_outer_end s =
     (case ns_boxes s of
        [] \<Rightarrow> (Inl IndexError, s)
      | b # bs \<Rightarrow> (let (w, s1) = new_box (Inner b) s in (Inr (), s1\<lparr>ns_boxes := w # ns_boxes s1\<rparr>)))"

definition n2_init :: "bytes \<Rightarrow> nat \<Rightarrow> unit res \<times> nchain" where
  "n2_init file initial_depth = reinforce_outer_end (n1_init file initial_depth)"

definition n2_break_innermost :: "nchain \<Rightarrow> (nat \<times> nat) res \<times> nchain" where
  "n2_break_innermost s =
     (case innermost s of Inl e \<Rightarrow> (Inl e, s)
      | Inr dying \<Rightarrow>
          (let s1 = (kill_box dying s)\<lparr>ns_break_count := ns_break_count s + 1\<rparr> in
           case holder_of s1 of Inl e \<Rightarrow> (Inl e, s1)
           | Inr new_holder \<Rightarrow>
               (let s2 = s1\<lparr>ns_boxes := butlast (ns_boxes s1)\<rparr>;
                    (fresh, s3) = new_box (File (ns_file s2)) s2;
                    s4 = set_contents new_holder (Inner fresh) s3
                in (Inr (dying, fresh), s4\<lparr>ns_boxes := ns_boxes s4 @ [fresh]\<rparr>))))"

definition n2_break_outermost :: "nchain \<Rightarrow> nat res \<times> nchain" where
  "n2_break_outermost s =
     (case ns_boxes s of
        [] \<Rightarrow> (Inl IndexError, s)
      | dying # bs \<Rightarrow>
          (let s1 = (kill_box dying s)\<lparr>ns_break_count := ns_break_count s + 1, ns_boxes := bs\<rparr>;
               (r, s2) = reinforce_outer_end s1
           in (map_res (\<lambda>_. dying) r, s2)))"

definition chain_depth :: "nchain \<Rightarrow> nat" where
  "chain_depth s = length (ns_boxes s)"

section \<open>The chain in the store\<close>

fun links :: "(nat \<Rightarrow> box) \<Rightarrow> nat list \<Rightarrow> bool" where
  "links h (b # c # bs) \<longleftrightarrow> bx_contents (h b) = Inner c \<and> links h (c # bs)"
| "links h bs \<longleftrightarrow> True"

text \<open>
  From the outermost box on, each box holds the next and the last holds the file; exactly the boxes
  of the chain are alive, of all that were ever formed.
\<close>

definition chain_ok :: "bytes \<Rightarrow> nat \<Rightarrow> nchain \<Rightarrow> bool" where
  "chain_ok file depth s \<longleftrightarrow>
     ns_file s = file \<and> length (ns_boxes s) = depth \<and> ns_boxes s \<noteq> [] \<and> distinct (ns_boxes s) \<and>
     links (ns_store s) (ns_boxes s) \<and> bx_contents (ns_store s (last (ns_boxes s))) = File file \<and>
     (\<forall>b. bx_alive (ns_store s b) \<longleftrightarrow> b \<in> set (ns_boxes s)) \<and> (\<forall>b \<in> set (ns_boxes s). b < ns_next s)"

lemma links_cong: "(\<And>b. b \<in> set (butlast bs) \<Longrightarrow> bx_contents (h b) = bx_contents (h' b)) \<Longrightarrow> links h bs = links h' bs"
  by (induction h bs rule: links.induct) auto

lemma links_app: "links h (xs @ b # ys) \<longleftrightarrow> links h (xs @ [b]) \<and> links h (b # ys)"
proof (induction xs)
  case (Cons x xs)
  then show ?case by (cases xs) auto
qed simp

text \<open>A box breaks inside: its holder gets a fresh box. A box breaks outside: the next one gets a fresh wrapper.\<close>

lemma chain_inner:
  assumes ok: "chain_ok file depth s" "ns_boxes s = xs @ [holder, dying]" "ns_boxes s' = xs @ [holder, n]" "n = ns_next s"
    and same: "ns_file s' = ns_file s" "ns_next s' = Suc n" "\<And>b. b \<notin> {holder, dying, n} \<Longrightarrow> ns_store s' b = ns_store s b"
    and changed: "bx_contents (ns_store s' holder) = Inner n" "bx_alive (ns_store s' holder)"
      "\<not> bx_alive (ns_store s' dying)" "ns_store s' n = \<lparr>bx_contents = File file, bx_alive = True\<rparr>"
  shows "chain_ok file depth s'"
proof -
  have fresh: "n \<notin> set xs" "holder \<noteq> n" "dying \<noteq> n" "distinct (xs @ [holder, dying])"
    using ok by (auto simp: chain_ok_def)
  have "links (ns_store s) (xs @ [holder])" using ok links_app [of "ns_store s" xs holder "[dying]"] by (simp add: chain_ok_def)
  moreover have "links (ns_store s) (xs @ [holder]) = links (ns_store s') (xs @ [holder])"
  proof (rule links_cong)
    fix b assume "b \<in> set (butlast (xs @ [holder]))"
    then have "b \<notin> {holder, dying, n}" using fresh by auto
    then show "bx_contents (ns_store s b) = bx_contents (ns_store s' b)" by (simp only: same(3) not_False_eq_True)
  qed
  ultimately have "links (ns_store s') (xs @ [holder, n])"
    using changed(1) links_app [of "ns_store s'" xs holder "[n]"] by simp
  moreover have "bx_alive (ns_store s' b) \<longleftrightarrow> b \<in> set xs \<union> {holder, n}" for b
    using ok(1,2) fresh changed same(3) [of b] by (cases "b \<in> {holder, dying, n}") (auto simp: chain_ok_def)
  ultimately show ?thesis using ok same(1,2) changed(4) fresh by (auto simp: chain_ok_def less_Suc_eq)
qed

lemma chain_outer:
  assumes ok: "chain_ok file depth s" "ns_boxes s = dying # b # bs" "ns_boxes s' = n # b # bs" "n = ns_next s"
    and same: "ns_file s' = ns_file s" "ns_next s' = Suc n" "\<And>c. c \<notin> {dying, n} \<Longrightarrow> ns_store s' c = ns_store s c"
    and changed: "\<not> bx_alive (ns_store s' dying)" "ns_store s' n = \<lparr>bx_contents = Inner b, bx_alive = True\<rparr>"
  shows "chain_ok file depth s'"
proof -
  have fresh: "n \<notin> set (b # bs)" "dying \<noteq> n" "dying \<notin> set (b # bs)" using ok by (auto simp: chain_ok_def)
  have "links (ns_store s) (b # bs) = links (ns_store s') (b # bs)"
  proof (rule links_cong)
    fix c assume "c \<in> set (butlast (b # bs))"
    then have "c \<in> set (b # bs)" by (rule in_set_butlastD)
    then have "c \<notin> {dying, n}" using fresh by auto
    then show "bx_contents (ns_store s c) = bx_contents (ns_store s' c)" by (simp only: same(3) not_False_eq_True)
  qed
  then have "links (ns_store s') (n # b # bs)" using ok changed(2) by (simp add: chain_ok_def)
  moreover have "ns_store s' (last (b # bs)) = ns_store s (last (b # bs))"
    using fresh last_in_set [of "b # bs"] by (intro same(3)) auto
  moreover have "bx_alive (ns_store s' c) \<longleftrightarrow> c \<in> set (n # b # bs)" for c
    using ok(1,2) fresh changed same(3) [of c] by (cases "c \<in> {dying, n}") (auto simp: chain_ok_def)
  ultimately show ?thesis using ok same(1,2) fresh by (auto simp: chain_ok_def less_Suc_eq)
qed

section \<open>The operations on a chain\<close>

lemmas box_defs = new_box_def set_contents_def kill_box_def log_message_def

lemma chain_split:
  assumes "chain_ok file depth s" "2 \<le> depth"
  obtains xs holder dying where "ns_boxes s = xs @ [holder, dying]" "innermost s = Inr dying"
    "last (butlast (ns_boxes s)) = holder" "butlast (ns_boxes s) = xs @ [holder]"
proof -
  obtain ys dying where ys: "ns_boxes s = ys @ [dying]" using assms(1) by (metis chain_ok_def rev_exhaust)
  moreover have "ys \<noteq> []" using assms ys by (auto simp: chain_ok_def)
  then obtain xs holder where "ys = xs @ [holder]" by (metis rev_exhaust)
  ultimately have "ns_boxes s = xs @ [holder, dying]" by simp
  then show thesis using that by (simp add: innermost_def butlast_append)
qed

lemma n1_break_ok:
  assumes "chain_ok file depth s" "2 \<le> depth"
  shows "fst (n1_break_innermost s) = Inr True \<and> chain_ok file depth (snd (n1_break_innermost s))"
proof -
  obtain xs holder dying where b: "ns_boxes s = xs @ [holder, dying]" "innermost s = Inr dying"
    "last (butlast (ns_boxes s)) = holder" "butlast (ns_boxes s) = xs @ [holder]"
    using chain_split [OF assms] .
  have d: "holder \<noteq> dying" "ns_next s \<noteq> holder" "ns_next s \<noteq> dying" "bx_alive (ns_store s holder)"
    "ns_file s = file" using assms(1) b(1) by (auto simp: chain_ok_def)
  have "chain_ok file depth (snd (n1_break_innermost s))"
    by (rule chain_inner [OF assms(1) b(1) _ refl])
      (use b d in \<open>auto simp: n1_break_innermost_def holder_of_def box_defs Let_def\<close>)
  then show ?thesis using b d by (simp add: n1_break_innermost_def holder_of_def box_defs Let_def)
qed

lemma n2_break_inner_ok:
  assumes "chain_ok file depth s" "2 \<le> depth"
  shows "fst (n2_break_innermost s) = Inr (last (ns_boxes s), ns_next s) \<and> chain_ok file depth (snd (n2_break_innermost s))"
proof -
  obtain xs holder dying where b: "ns_boxes s = xs @ [holder, dying]" "innermost s = Inr dying"
    "last (butlast (ns_boxes s)) = holder" "butlast (ns_boxes s) = xs @ [holder]"
    using chain_split [OF assms] .
  have d: "holder \<noteq> dying" "ns_next s \<noteq> holder" "ns_next s \<noteq> dying" "bx_alive (ns_store s holder)"
    "ns_file s = file" using assms(1) b(1) by (auto simp: chain_ok_def)
  have "chain_ok file depth (snd (n2_break_innermost s))"
    by (rule chain_inner [OF assms(1) b(1) _ refl])
      (use b d in \<open>auto simp: n2_break_innermost_def holder_of_def box_defs Let_def\<close>)
  then show ?thesis using b d by (simp add: n2_break_innermost_def holder_of_def box_defs Let_def)
qed

lemma n2_break_outer_ok:
  assumes "chain_ok file depth s" "2 \<le> depth"
  shows "fst (n2_break_outermost s) = Inr (hd (ns_boxes s)) \<and> chain_ok file depth (snd (n2_break_outermost s))"
proof -
  obtain dying b bs where b: "ns_boxes s = dying # b # bs"
    using assms by (cases "ns_boxes s"; cases "tl (ns_boxes s)") (auto simp: chain_ok_def)
  have d: "dying \<noteq> b" "ns_next s \<noteq> b" "ns_next s \<noteq> dying" using assms(1) b by (auto simp: chain_ok_def)
  have "chain_ok file depth (snd (n2_break_outermost s))"
    by (rule chain_outer [OF assms(1) b _ refl])
      (use b d in \<open>auto simp: n2_break_outermost_def reinforce_outer_end_def box_defs Let_def\<close>)
  then show ?thesis using b by (simp add: n2_break_outermost_def reinforce_outer_end_def box_defs Let_def)
qed

lemma chain_verify: "chain_ok file depth s \<Longrightarrow> verify_file_intact s = Inr True"
  by (simp add: chain_ok_def verify_file_intact_def innermost_def)

section \<open>A fresh chain\<close>

lemma form_boxes_facts:
  fixes n :: nat
  shows "ns_next (form_boxes n cur s) = ns_next s + n"
    "ns_boxes (form_boxes n cur s) = ns_boxes s @ [ns_next s..<ns_next s + n]"
    "ns_file (form_boxes n cur s) = ns_file s"
    "ns_store (form_boxes n cur s) b =
       (if ns_next s \<le> b \<and> b < ns_next s + n
        then \<lparr>bx_contents = (if b = ns_next s then cur else Inner (b - 1)), bx_alive = True\<rparr> else ns_store s b)"
  by (induction n arbitrary: cur s) (auto simp: new_box_def upt_conv_Cons)

lemma fix_links_id: "links (ns_store s) bs \<Longrightarrow> fix_links bs s = s"
proof (induction bs s rule: fix_links.induct)
  case (1 b c bs s)
  have "(ns_store s b)\<lparr>bx_contents := Inner c\<rparr> = ns_store s b" using 1 by (cases "ns_store s b") simp
  then have "set_contents b (Inner c) s = s" by (simp add: set_contents_def)
  then show ?case using 1 by simp
qed simp_all

lemma links_rev_upt: "(\<And>b. 0 < b \<Longrightarrow> b < n \<Longrightarrow> bx_contents (h b) = Inner (b - 1)) \<Longrightarrow> links h (rev [0..<n])"
proof (induction n)
  case (Suc n)
  then show ?case by (cases n) auto
qed simp

lemma n1_init_ok: "1 \<le> depth \<Longrightarrow> chain_ok file depth (n1_init file depth)"
proof -
  assume d: "1 \<le> depth"
  let ?s = "form_boxes depth (File file) (ns_start file)"
  have f: "ns_next ?s = depth" "ns_boxes ?s = [0..<depth]" "ns_file ?s = file"
    "ns_store ?s b = (if b < depth then \<lparr>bx_contents = (if b = 0 then File file else Inner (b - 1)), bx_alive = True\<rparr>
       else \<lparr>bx_contents = Empty, bx_alive = False\<rparr>)" for b
    by (simp_all add: form_boxes_facts ns_start_def)
  have l: "links (ns_store ?s) (rev [0..<depth])" by (rule links_rev_upt) (simp add: f(4))
  then have "n1_init file depth = ?s\<lparr>ns_boxes := rev [0..<depth]\<rparr>"
    by (simp add: n1_init_def Let_def f(2) fix_links_id)
  then show ?thesis using d l by (simp add: chain_ok_def f last_rev hd_upt)
qed

lemma n2_init_ok:
  assumes "1 \<le> depth"
  shows "\<exists>s. n2_init file depth = (Inr (), s) \<and> chain_ok file (depth + 1) s"
proof -
  let ?s = "n1_init file depth"
  have ok: "chain_ok file depth ?s" by (rule n1_init_ok [OF assms])
  then obtain b bs where b: "ns_boxes ?s = b # bs" by (cases "ns_boxes ?s") (auto simp: chain_ok_def)
  have fresh: "ns_next ?s \<notin> set (b # bs)" using ok b by (auto simp: chain_ok_def)
  then have last: "last (b # bs) \<noteq> ns_next ?s" using last_in_set [of "b # bs", OF list.distinct(2)] by metis
  let ?t = "?s\<lparr>ns_store := (ns_store ?s)(ns_next ?s := \<lparr>bx_contents = Inner b, bx_alive = True\<rparr>),
    ns_next := ns_next ?s + 1, ns_boxes := ns_next ?s # b # bs\<rparr>"
  have "links (ns_store ?t) (b # bs) = links (ns_store ?s) (b # bs)"
    by (rule links_cong) (use fresh in \<open>auto dest: in_set_butlastD split: if_splits\<close>)
  then have "chain_ok file (depth + 1) ?t" using ok b fresh last by (auto simp: chain_ok_def less_Suc_eq)
  then show ?thesis using b by (simp add: n2_init_def reinforce_outer_end_def new_box_def Let_def)
qed

section \<open>Properties\<close>

datatype break_event = BreakInner | BreakOuter

fun n2_step :: "break_event \<Rightarrow> nchain \<Rightarrow> nchain" where
  "n2_step BreakInner s = snd (n2_break_innermost s)"
| "n2_step BreakOuter s = snd (n2_break_outermost s)"

lemma n1_breaks_ok:
  "chain_ok file depth s \<Longrightarrow> 2 \<le> depth \<Longrightarrow> chain_ok file depth (((\<lambda>s. snd (n1_break_innermost s)) ^^ m) s)"
  by (induction m) (simp_all add: n1_break_ok)

lemma n2_steps_ok: "chain_ok file depth s \<Longrightarrow> 2 \<le> depth \<Longrightarrow> chain_ok file depth (fold n2_step es s)"
proof (induction es arbitrary: s)
  case (Cons e es)
  then show ?case by (cases e) (simp_all add: n2_break_inner_ok n2_break_outer_ok)
qed simp

text \<open>
  Nested boxes heal: in a chain of two or more boxes of the first version every break inside
  succeeds, and after any number of them the chain has its depth, exactly its boxes are alive, and the file
  is in the innermost one; the second version keeps this for every chain and every order of breaks inside
  and outside, and none of them raises. In a chain of one box of the first version the break
  reports the loss of the file, and \<open>verify_file_intact\<close> still says that it is there.
\<close>

theorem nested_boxes_heal:
  assumes "1 \<le> depth"
  shows "(2 \<le> depth \<longrightarrow>
      (let s = ((\<lambda>s. snd (n1_break_innermost s)) ^^ m) (n1_init file depth) in
        chain_ok file depth s \<and> verify_file_intact s = Inr True \<and> fst (n1_break_innermost s) = Inr True)) \<and>
    (\<exists>s0. n2_init file depth = (Inr (), s0) \<and>
      (let s = fold n2_step es s0 in
        chain_ok file (depth + 1) s \<and> verify_file_intact s = Inr True \<and>
        fst (n2_break_innermost s) = Inr (last (ns_boxes s), ns_next s) \<and> fst (n2_break_outermost s) = Inr (hd (ns_boxes s)))) \<and>
    (depth = 1 \<longrightarrow>
      (let (r, s) = n1_break_innermost (n1_init file depth) in
        r = Inr False \<and> (\<forall>b. \<not> bx_alive (ns_store s b)) \<and> verify_file_intact s = Inr True))"
proof -
  have ok1: "chain_ok file depth (n1_init file depth)" by (rule n1_init_ok [OF assms])
  obtain s0 where s0: "n2_init file depth = (Inr (), s0)" "chain_ok file (depth + 1) s0"
    using n2_init_ok [OF assms] by blast
  have ok2: "chain_ok file (depth + 1) (fold n2_step es s0)" "2 \<le> depth + 1" using n2_steps_ok [OF s0(2)] assms by simp_all
  have one: "let (r, s) = n1_break_innermost (n1_init file depth) in
      r = Inr False \<and> (\<forall>b. \<not> bx_alive (ns_store s b)) \<and> verify_file_intact s = Inr True" if "depth = 1"
  proof -
    have "length (ns_boxes (n1_init file depth)) = Suc 0" using ok1 that by (simp add: chain_ok_def)
    then obtain b where b: "ns_boxes (n1_init file depth) = [b]" by (auto simp: length_Suc_conv)
    then show ?thesis
      using ok1 by (auto simp: n1_break_innermost_def innermost_def box_defs Let_def chain_ok_def verify_file_intact_def)
  qed
  let ?s1 = "((\<lambda>s. snd (n1_break_innermost s)) ^^ m) (n1_init file depth)"
  have two: "chain_ok file depth ?s1 \<and> verify_file_intact ?s1 = Inr True \<and> fst (n1_break_innermost ?s1) = Inr True"
    if "2 \<le> depth"
    using n1_breaks_ok [OF ok1 that, of m] n1_break_ok [OF _ that] chain_verify by blast
  show ?thesis
    using two s0(1) ok2(1) n2_break_inner_ok [OF ok2] n2_break_outer_ok [OF ok2] chain_verify [OF ok2(1)] one
    by (simp add: Let_def)
qed

theorem nested_boxes_heal_witness:
  "verify_file_intact (((\<lambda>s. snd (n1_break_innermost s)) ^^ 10) (n1_init [1, 2] 3)) = Inr True \<and>
     fst (n1_break_innermost (n1_init [1, 2] 1)) = Inr False"
  using nested_boxes_heal [of 3 10 "[1, 2]" "[]"] nested_boxes_heal [of 1 0 "[1, 2]" "[]"]
  by (simp add: Let_def split: prod.splits)

end
