(* ===== verification/FirstStores.thy ===== *)
theory FirstStores
  imports Json FallingBox
begin

text \<open>
  The first stores, of \<open>backup-original-source/vstorage\<close>: \<open>general_splitter.py\<close>,
  \<open>combined_full_system.py\<close> (split, compress, and let every piece fall in a thread of its own) and
  \<open>virtual_storage_system.py\<close>. The members that \<open>zipfile\<close> finds in a file, in their order, each with its
  bytes if it can be read, are an argument: \<open>None\<close> for a file that is no zip archive.
\<close>

type_synonym zip_list = "bytes \<Rightarrow> (string \<times> bytes option) list option"

section \<open>The splitters\<close>

definition FIRST_TEXT_EXTS :: "string list" where
  "FIRST_TEXT_EXTS = [''txt'', ''md'', ''py'', ''c'', ''js'', ''json'', ''csv'', ''log'', ''xml'', ''html'']"

text \<open>\<open>s.rsplit(".", 1)[-1].lower() if "." in s else "bin"\<close>.\<close>

definition first_ext :: "string \<Rightarrow> string" where
  "first_ext s = (if CHR ''.'' \<in> set s then py_lower (rev (takeWhile (\<lambda>c. c \<noteq> CHR ''.'') (rev s))) else ''bin'')"

definition first_pdf_text :: "env \<Rightarrow> bytes \<Rightarrow> bytes" where
  "first_pdf_text E raw =
     (case pdf_pages E raw of
        None \<Rightarrow> []
      | Some pages \<Rightarrow> encode_utf8 (sep_by (newline @ ''---PAGE---'' @ newline)
          (map (\<lambda>p. case p of None \<Rightarrow> [] | Some t \<Rightarrow> t) pages)))"

definition ends_with :: "string \<Rightarrow> string \<Rightarrow> bool" where
  "ends_with p s \<longleftrightarrow> drop (length s - length p) s = p"

fun join_bytes :: "bytes \<Rightarrow> bytes list \<Rightarrow> bytes" where
  "join_bytes sep [] = []"
| "join_bytes sep [b] = b"
| "join_bytes sep (b # bs) = b @ sep @ join_bytes sep bs"

definition first_office_text :: "zip_list \<Rightarrow> bytes \<Rightarrow> bytes" where
  "first_office_text zl raw =
     (case zl raw of
        None \<Rightarrow> []
      | Some ms \<Rightarrow> join_bytes [10]
          (List.map_filter (\<lambda>(name_z, d). if ends_with ''.xml'' name_z \<or> ends_with ''.rels'' name_z then d else None) ms))"

record first_pieces =
  fp_content :: bytes
  fp_structure :: bytes
  fp_metadata :: bytes

definition gs_split_document :: "env \<Rightarrow> zip_list \<Rightarrow> disk \<Rightarrow> string \<Rightarrow> (first_pieces \<times> bytes) res" where
  "gs_split_document E zl fs path =
     (case fs path of None \<Rightarrow> Inl FileNotFoundError
      | Some raw \<Rightarrow>
          (let name = basename path; ext = first_ext name;
               (content, structure) =
                 (if ext \<in> set FIRST_TEXT_EXTS then (raw, encode_utf8 ext)
                  else if ext = ''pdf'' then (first_pdf_text E raw, raw)
                  else if ext \<in> {''docx'', ''xlsx'', ''pptx''} then (first_office_text zl raw, raw)
                  else ([], raw));
               metadata = encode_utf8 (dumps_indent2
                 [(''filename'', JStr (basename path)), (''type'', JStr ext), (''size'', JInt (int (length raw))),
                  (''hash'', JStr (hexdigest (sha256 E raw))), (''content_size'', JInt (int (length content)))])
           in Inr (\<lparr>fp_content = content, fp_structure = structure, fp_metadata = metadata\<rparr>, raw)))"

text \<open>The splitter of \<open>combined_full_system.py\<close>: the extension comes from the whole path.\<close>

definition cs_metadata :: "env \<Rightarrow> string \<Rightarrow> bytes \<Rightarrow> (string \<times> json) list" where
  "cs_metadata E path raw =
     [(''filename'', JStr (basename path)), (''type'', JStr (first_ext path)), (''size'', JInt (int (length raw))),
      (''hash'', JStr (hexdigest (sha256 E raw)))]"

definition cs_split_document :: "env \<Rightarrow> disk \<Rightarrow> string \<Rightarrow> (first_pieces \<times> bytes) res" where
  "cs_split_document E fs path =
     (case fs path of None \<Rightarrow> Inl FileNotFoundError
      | Some raw \<Rightarrow>
          (let ext = first_ext path;
               (content, structure) =
                 (if ext \<in> set FIRST_TEXT_EXTS then (raw, encode_utf8 ext)
                  else if ext = ''pdf'' then (first_pdf_text E raw, raw) else ([], raw))
           in Inr (\<lparr>fp_content = content, fp_structure = structure,
                    fp_metadata = encode_utf8 (dumps_indent2 (cs_metadata E path raw))\<rparr>, raw)))"

text \<open>\<open>lzma.compress(data, preset=9) if data else b""\<close>, for every piece.\<close>

definition press :: "env \<Rightarrow> bytes \<Rightarrow> bytes" where
  "press E data = (if data = [] then [] else lzma_compress E 9 data)"

definition process_through_storage :: "env \<Rightarrow> first_pieces \<Rightarrow> (which, bytes) dict" where
  "process_through_storage E p =
     [(Content, press E (fp_content p)), (Structure, press E (fp_structure p)), (Metadata, press E (fp_metadata p))]"

section \<open>A piece that falls\<close>

definition FIRST_BOX :: nat where
  "FIRST_BOX = 64 * 1024"

record fallthread =
  ft_len :: nat
  ft_a :: bytes
  ft_b :: bytes
  ft_pos :: nat
  ft_stop :: bool

definition ft_start :: "bytes \<Rightarrow> fallthread" where
  "ft_start data = \<lparr>ft_len = length data, ft_a = data, ft_b = zeros (length data), ft_pos = 0, ft_stop = False\<rparr>"

text \<open>One turn of \<open>_fall\<close>; \<open>None\<close> when its event is set.\<close>

definition ft_move :: "fallthread \<Rightarrow> fallthread" where
  "ft_move f =
     (let pos = ft_pos f; end_pos = min (pos + FIRST_BOX) (ft_len f);
          b = slice_assign (ft_b f) pos end_pos (py_slice (ft_a f) pos end_pos)
      in if ft_len f \<le> end_pos then f\<lparr>ft_a := b, ft_b := ft_a f, ft_pos := 0\<rparr>
         else f\<lparr>ft_b := b, ft_pos := end_pos\<rparr>)"

definition ft_turn :: "fallthread \<Rightarrow> fallthread option" where
  "ft_turn f = (if ft_stop f then None else Some (ft_move f))"

definition ft_ok :: "bytes \<Rightarrow> fallthread \<Rightarrow> bool" where
  "ft_ok data f \<longleftrightarrow>
     ft_len f = length data \<and> ft_a f = data \<and> length (ft_b f) = length data \<and> ft_pos f \<le> length data \<and>
     take (ft_pos f) (ft_b f) = take (ft_pos f) data"

lemma ft_start_ok: "ft_ok data (ft_start data)"
  by (simp add: ft_ok_def ft_start_def)

lemma ft_move_ok: "ft_ok data f \<Longrightarrow> ft_ok data (ft_move f)"
proof -
  assume ok: "ft_ok data f"
  let ?e = "min (ft_pos f + FIRST_BOX) (length data)"
  let ?b = "slice_assign (ft_b f) (ft_pos f) ?e (py_slice data (ft_pos f) ?e)"
  have le: "ft_pos f \<le> ?e" "?e \<le> length data" using ok by (simp_all add: ft_ok_def)
  have len: "length ?b = length data" using ok le by (simp add: ft_ok_def length_slice_assign length_py_slice_in)
  have "?b = take ?e data @ drop ?e (ft_b f)"
    using ok le by (simp add: ft_ok_def slice_assign_def py_slice_def max_def take_add [symmetric] del: take_add)
  then have pre: "take ?e ?b = take ?e data" using le by simp
  show ?thesis
  proof (cases "length data \<le> ?e")
    case True
    then have "?b = data" using pre len by simp
    then show ?thesis using ok True by (simp add: ft_move_def ft_ok_def Let_def)
  next
    case False
    then show ?thesis using ok len pre le by (simp add: ft_move_def ft_ok_def Let_def)
  qed
qed

lemma ft_move_held: "ft_ok data f \<Longrightarrow> ft_a (ft_move f) = ft_a f"
  using ft_move_ok [of data f] by (simp add: ft_ok_def)

interpretation ft: falling "\<lambda>_. True" "\<lambda>_::unit. ft_move" ft_a "ft_ok data" for data
  by unfold_locales (simp_all add: ft_move_ok ft_move_held)

section \<open>The combined store\<close>

text \<open>
  Saving under a name in use drops the threads of the old pieces without setting their events: they run on
  in \<open>cs_orphans\<close>.
\<close>

record cstore =
  cs_vault :: "(string, (which, bytes) dict) dict"
  cs_hashes :: "(string, string) dict"
  cs_falling :: "(string, (which, fallthread) dict) dict"
  cs_orphans :: "fallthread list"

definition cs_init :: cstore where
  "cs_init = \<lparr>cs_vault = [], cs_hashes = [], cs_falling = [], cs_orphans = []\<rparr>"

definition threads_of :: "(which, bytes) dict \<Rightarrow> (which, fallthread) dict" where
  "threads_of v = map (\<lambda>(w, d). (w, ft_start d)) (filter (\<lambda>(w, d). d \<noteq> []) v)"

definition cs_save :: "env \<Rightarrow> disk \<Rightarrow> string \<Rightarrow> string \<Rightarrow> cstore \<Rightarrow> (nat \<times> nat) res \<times> cstore" where
  "cs_save E fs name path s =
     (case cs_split_document E fs path of
        Inl e \<Rightarrow> (Inl e, s)
      | Inr (pieces, raw) \<Rightarrow>
          (let v = process_through_storage E pieces;
               left = (case dict_get (cs_falling s) name of None \<Rightarrow> [] | Some ts \<Rightarrow> map snd ts)
           in (Inr (length raw, sum_list (map (\<lambda>(w, d). length d) v)),
               s\<lparr>cs_hashes := dict_set name (hexdigest (sha256 E raw)) (cs_hashes s),
                 cs_vault := dict_set name v (cs_vault s),
                 cs_falling := dict_set name (threads_of v) (cs_falling s),
                 cs_orphans := cs_orphans s @ left\<rparr>)))"

definition vault_piece :: "string \<Rightarrow> which \<Rightarrow> cstore \<Rightarrow> bytes res" where
  "vault_piece name w s =
     (case dict_get (cs_vault s) name of None \<Rightarrow> Inl KeyError | Some v \<Rightarrow> of_option KeyError (dict_get v w))"

definition unpress :: "env \<Rightarrow> bytes res \<Rightarrow> bytes res" where
  "unpress E r = (case r of Inl e \<Rightarrow> Inl e | Inr compressed \<Rightarrow> if compressed = [] then Inr [] else lzma_decompress E compressed)"

definition cs_retrieve_content :: "env \<Rightarrow> string \<Rightarrow> cstore \<Rightarrow> bytes res" where
  "cs_retrieve_content E name s = unpress E (vault_piece name Content s)"

definition cs_retrieve_full :: "env \<Rightarrow> string \<Rightarrow> cstore \<Rightarrow> bytes res" where
  "cs_retrieve_full E name s = unpress E (vault_piece name Structure s)"

text \<open>Here an empty piece is not spared the decompressor; what is no JSON raises \<open>ValueError\<close>.\<close>

definition cs_retrieve_metadata :: "env \<Rightarrow> string \<Rightarrow> cstore \<Rightarrow> json res" where
  "cs_retrieve_metadata E name s =
     (case vault_piece name Metadata s of Inl e \<Rightarrow> Inl e
      | Inr compressed \<Rightarrow>
          (case lzma_decompress E compressed of Inl e \<Rightarrow> Inl e
           | Inr d \<Rightarrow> (case decode_utf8 d of Inl e \<Rightarrow> Inl e | Inr t \<Rightarrow> of_option ValueError (loads t))))"

definition cs_footprint :: "cstore \<Rightarrow> nat" where
  "cs_footprint s = sum_list (map (\<lambda>(n, v). sum_list (map (\<lambda>(w, d). length d) v)) (cs_vault s))"

definition cs_stop_all :: "cstore \<Rightarrow> cstore" where
  "cs_stop_all s = s\<lparr>cs_falling := dict_map (dict_map (\<lambda>f. f\<lparr>ft_stop := True\<rparr>)) (cs_falling s)\<rparr>"

text \<open>A turn of the thread of one piece.\<close>

definition cs_turn :: "string \<Rightarrow> which \<Rightarrow> cstore \<Rightarrow> cstore" where
  "cs_turn name w s =
     s\<lparr>cs_falling := map (\<lambda>(n, ts). (n, map (\<lambda>(w', f). (w', if n = name \<and> w' = w then (case ft_turn f of None \<Rightarrow> f | Some g \<Rightarrow> g) else f)) ts))
        (cs_falling s)\<rparr>"

datatype cs_event = CTurn string which | CSave string string | CStopAll

fun cs_step :: "env \<Rightarrow> disk \<Rightarrow> cs_event \<Rightarrow> cstore \<Rightarrow> cstore" where
  "cs_step E fs (CTurn name w) s = cs_turn name w s"
| "cs_step E fs (CSave name path) s = snd (cs_save E fs name path s)"
| "cs_step E fs CStopAll s = cs_stop_all s"

section \<open>The first virtual storage\<close>

record vault =
  vt_vault :: "(string, bytes) dict"
  vt_hashes :: "(string, string) dict"

definition vt_save :: "env \<Rightarrow> string \<Rightarrow> bytes \<Rightarrow> vault \<Rightarrow> (nat \<times> nat) \<times> vault" where
  "vt_save E name data s =
     (let broken_down = lzma_compress E 9 data
      in ((length data, length broken_down),
          s\<lparr>vt_vault := dict_set name broken_down (vt_vault s),
            vt_hashes := dict_set name (hexdigest (sha256 E data)) (vt_hashes s)\<rparr>))"

definition vt_retrieve :: "env \<Rightarrow> string \<Rightarrow> vault \<Rightarrow> bytes res" where
  "vt_retrieve E name s =
     (case dict_get (vt_vault s) name of None \<Rightarrow> Inl KeyError
      | Some broken_down \<Rightarrow>
          (case lzma_decompress E broken_down of Inl e \<Rightarrow> Inl e
           | Inr full \<Rightarrow>
               (case dict_get (vt_hashes s) name of None \<Rightarrow> Inl KeyError
                | Some h \<Rightarrow> if hexdigest (sha256 E full) = h then Inr full else Inl AssertionError)))"

definition vt_footprint_at_rest :: "vault \<Rightarrow> nat" where
  "vt_footprint_at_rest s = sum_list (map (\<lambda>(n, d). length d) (vt_vault s))"

section \<open>Properties\<close>

lemma unpress_press: "lzma_ok E \<Longrightarrow> unpress E (Inr (press E d)) = Inr d"
  by (simp add: unpress_def press_def lzma_simps)

definition stored_as :: "env \<Rightarrow> string \<Rightarrow> first_pieces \<Rightarrow> bytes \<Rightarrow> cstore \<Rightarrow> bool" where
  "stored_as E name p raw s \<longleftrightarrow>
     dict_get (cs_vault s) name = Some (process_through_storage E p) \<and>
     dict_get (cs_hashes s) name = Some (hexdigest (sha256 E raw)) \<and>
     (\<exists>ts. dict_get (cs_falling s) name = Some ts \<and> map fst ts = map fst (threads_of (process_through_storage E p)) \<and>
        (\<forall>(w, f) \<in> set ts. \<exists>d. dict_get (process_through_storage E p) w = Some d \<and> d \<noteq> [] \<and> ft_ok d f))"

lemma cs_save_stored:
  assumes "cs_split_document E fs path = Inr (p, raw)"
  shows "stored_as E name p raw (snd (cs_save E fs name path s))"
proof -
  have "\<exists>d. dict_get (process_through_storage E p) w = Some d \<and> d \<noteq> [] \<and> ft_ok d f"
    if "(w, f) \<in> set (threads_of (process_through_storage E p))" for w f
    using that ft_start_ok by (auto simp: threads_of_def process_through_storage_def dict_get_def split: if_splits)
  then show ?thesis using assms by (auto simp: stored_as_def cs_save_def Let_def)
qed

lemma cs_save_other: "n \<noteq> name \<Longrightarrow> stored_as E name p raw s \<Longrightarrow> stored_as E name p raw (snd (cs_save E fs n path s))"
  by (auto simp: stored_as_def cs_save_def Let_def split: sum.splits)

lemma stored_motion:
  assumes "stored_as E name p raw s" "cs_vault t = cs_vault s" "cs_hashes t = cs_hashes s"
    and falls: "dict_get (cs_falling t) name = map_option (map (\<lambda>(w, f). (w, g w f))) (dict_get (cs_falling s) name)"
    and keeps: "\<And>w f d. ft_ok d f \<Longrightarrow> ft_ok d (g w f)"
  shows "stored_as E name p raw t"
proof -
  let ?v = "process_through_storage E p"
  obtain ts where ts: "dict_get (cs_falling s) name = Some ts" "map fst ts = map fst (threads_of ?v)"
    "\<forall>(w, f) \<in> set ts. \<exists>d. dict_get ?v w = Some d \<and> d \<noteq> [] \<and> ft_ok d f"
    using assms(1) unfolding stored_as_def by blast
  let ?ts = "map (\<lambda>(w, f). (w, g w f)) ts"
  have "dict_get (cs_falling t) name = Some ?ts" using falls ts(1) by simp
  moreover have "map fst ?ts = map fst (threads_of ?v)" using ts(2) by (simp add: comp_def split_def)
  moreover have "\<forall>(w, f) \<in> set ?ts. \<exists>d. dict_get ?v w = Some d \<and> d \<noteq> [] \<and> ft_ok d f"
    using ts(3) keeps by fastforce
  ultimately show ?thesis using assms(1-3) unfolding stored_as_def by (intro conjI exI [of _ ?ts]) simp_all
qed

lemma dict_get_map_keyed: "dict_get (map (\<lambda>(n, ts). (n, h n ts)) d) k = map_option (h k) (dict_get d k)"
  by (induction d) (auto simp: dict_get_def)

lemma cs_stop_stored: "stored_as E name p raw s \<Longrightarrow> stored_as E name p raw (cs_stop_all s)"
  by (erule stored_motion [where g = "\<lambda>_ f. f\<lparr>ft_stop := True\<rparr>"])
    (simp_all add: cs_stop_all_def dict_map_def [abs_def] ft_ok_def dict_get_map_keyed [where h = "\<lambda>_. dict_map _", unfolded dict_map_def])

lemma cs_turn_stored: "stored_as E name p raw s \<Longrightarrow> stored_as E name p raw (cs_turn n w s)"
  by (erule stored_motion [where g = "\<lambda>w' f. if name = n \<and> w' = w then (case ft_turn f of None \<Rightarrow> f | Some g \<Rightarrow> g) else f"])
    (simp_all add: cs_turn_def dict_get_map_keyed ft_turn_def ft_move_ok)

lemma cs_steps_stored:
  assumes "stored_as E name p raw s" "\<forall>e \<in> set es. \<forall>n path. e = CSave n path \<longrightarrow> n \<noteq> name"
  shows "stored_as E name p raw (fold (cs_step E fs) es s)"
  using assms
proof (induction es arbitrary: s)
  case (Cons e es)
  then show ?case by (cases e) (simp_all add: cs_save_other cs_stop_stored cs_turn_stored)
qed simp

text \<open>
  What the combined store gives back: after a file was saved, whatever turns its threads take,
  whatever other names are saved and even after the threads are stopped, \<open>retrieve_content\<close> gives its
  content, \<open>retrieve_metadata\<close> the name, type, size and hash that were printed as JSON, and every thread of
  its pieces holds its compressed piece; but \<open>retrieve_full\<close>, meant for the full document, gives just the
  extension of a text file, and the file itself for the others only.
\<close>

theorem combined_store_returns_pieces:
  assumes "lzma_ok E" "fs path = Some raw" "\<forall>e \<in> set es. \<forall>n p. e = CSave n p \<longrightarrow> n \<noteq> name"
  shows "\<exists>held. fst (cs_save E fs name path s) = Inr (length raw, held) \<and>
    (let t = fold (cs_step E fs) es (snd (cs_save E fs name path s)); is_text = (first_ext path \<in> set FIRST_TEXT_EXTS) in
      cs_retrieve_content E name t =
        Inr (if is_text then raw else if first_ext path = ''pdf'' then first_pdf_text E raw else []) \<and>
      cs_retrieve_full E name t = Inr (if is_text then encode_utf8 (first_ext path) else raw) \<and>
      cs_retrieve_metadata E name t = Inr (JObj (cs_metadata E path raw)) \<and>
      dict_get (cs_hashes t) name = Some (hexdigest (sha256 E raw)) \<and>
      (\<exists>ts. dict_get (cs_falling t) name = Some ts \<and>
         (\<forall>(w, f) \<in> set ts. vault_piece name w t = Inr (ft_a f))))"
proof -
  define t where "t = fold (cs_step E fs) es (snd (cs_save E fs name path s))"
  define is_text where "is_text \<longleftrightarrow> first_ext path \<in> set FIRST_TEXT_EXTS"
  define p where "p = \<lparr>fp_content = (if is_text then raw else if first_ext path = ''pdf'' then first_pdf_text E raw else []),
      fp_structure = (if is_text then encode_utf8 (first_ext path) else raw),
      fp_metadata = encode_utf8 (dumps_indent2 (cs_metadata E path raw))\<rparr>"
  have p: "cs_split_document E fs path = Inr (p, raw)"
    using assms(2) by (simp add: cs_split_document_def Let_def p_def is_text_def)
  have st: "stored_as E name p raw t"
    unfolding t_def by (rule cs_steps_stored [OF cs_save_stored [OF p] assms(3)])
  then have v: "dict_get (cs_vault t) name = Some (process_through_storage E p)"
    "dict_get (cs_hashes t) name = Some (hexdigest (sha256 E raw))" by (simp_all add: stored_as_def)
  have piece: "vault_piece name Content t = Inr (press E (fp_content p))" "vault_piece name Structure t = Inr (press E (fp_structure p))"
    "vault_piece name Metadata t = Inr (press E (fp_metadata p))"
    unfolding vault_piece_def v by (simp_all add: process_through_storage_def dict_get_def)
  have "fp_metadata p \<noteq> []"
    by (simp add: p_def dumps_indent2_def encode_utf8_def utf8_char_def Let_def)
  moreover have "loads (dumps_indent2 (cs_metadata E path raw)) = Some (JObj (cs_metadata E path raw))"
    by (rule loads_dumps_indent2) (simp_all add: cs_metadata_def)
  ultimately have meta: "cs_retrieve_metadata E name t = Inr (JObj (cs_metadata E path raw))"
    using assms(1) by (simp add: cs_retrieve_metadata_def piece press_def lzma_simps p_def decode_encode)
  obtain ts where ts: "dict_get (cs_falling t) name = Some ts"
    "\<forall>(w, f) \<in> set ts. \<exists>d. dict_get (process_through_storage E p) w = Some d \<and> d \<noteq> [] \<and> ft_ok d f"
    using st unfolding stored_as_def by blast
  have "\<forall>(w, f) \<in> set ts. vault_piece name w t = Inr (ft_a f)"
    using ts(2) by (fastforce simp: vault_piece_def v ft_ok_def)
  moreover have "\<exists>held. fst (cs_save E fs name path s) = Inr (length raw, held)" using p by (simp add: cs_save_def Let_def)
  ultimately show ?thesis
    using assms(1) meta v(2) ts(1) unfolding t_def [symmetric] is_text_def [symmetric] Let_def
    by (simp add: cs_retrieve_content_def cs_retrieve_full_def piece unpress_press p_def)
qed

theorem combined_store_returns_pieces_witness:
  "let fs = [''n.txt'' \<mapsto> [104, 105]]; t = snd (cs_save demo_env fs ''a'' ''n.txt'' cs_init) in
     cs_retrieve_content demo_env ''a'' t = Inr [104, 105] \<and> cs_retrieve_full demo_env ''a'' t = Inr [116, 120, 116]"
proof -
  have e: "first_ext ''n.txt'' = ''txt''" "encode_utf8 ''txt'' = [116, 120, 116]"
    by (simp_all add: first_ext_def py_lower_def lower_char_def encode_utf8_def utf8_char_def)
  show ?thesis
    using combined_store_returns_pieces [of demo_env "[''n.txt'' \<mapsto> [104, 105]]" "''n.txt''" "[104, 105]" "[]" "''a''" cs_init]
      env_okD(2) [OF demo_env_ok] by (simp add: Let_def e FIRST_TEXT_EXTS_def)
qed

text \<open>
  The first virtual storage gives back what was saved last under a name, and \<open>retrieve\<close> never fails its check.
\<close>

lemma vt_retrieve_saved:
  "lzma_ok E \<Longrightarrow> vt_retrieve E n (snd (vt_save E name data s)) = (if n = name then Inr data else vt_retrieve E n s)"
  by (simp add: vt_retrieve_def vt_save_def lzma_simps Let_def split: option.split sum.split)

lemma vt_run:
  assumes "lzma_ok E" "\<forall>(n, d) \<in> set saves. n = name \<longrightarrow> d = data" "name \<in> fst ` set saves"
  shows "vt_retrieve E name (fold (\<lambda>(n, d) s. snd (vt_save E n d s)) saves s) = Inr data"
  using assms(2,3)
proof (induction saves rule: rev_induct)
  case (snoc nd saves)
  then show ?case by (cases nd) (auto simp: vt_retrieve_saved [OF assms(1)])
qed simp

end
