(* ===== verification/XorShares.thy ===== *)
theory XorShares
  imports Countdown Environment
begin

text \<open>
  The experiments of \<open>backup-original-source/vstorage\<close> that split a file by XOR and move the shares through
  pipes: \<open>combined_experiment.py\<close>, \<open>big_file_experiment.py\<close> and \<open>big_file_experiment_v2.py\<close>, and
  \<open>lean_motion_experiment.py\<close>, which moves without splitting. The random shares are an argument.
\<close>

unbundle bit_operations_syntax

section \<open>Splitting and combining\<close>

text \<open>\<open>for i in range(len(src)): dst[i] ^= src[i]\<close>: an index past the end of \<open>dst\<close> raises.\<close>

fun xor_into :: "bytes \<Rightarrow> bytes \<Rightarrow> bytes res" where
  "xor_into dst [] = Inr dst"
| "xor_into [] (s # src) = Inl IndexError"
| "xor_into (d # dst) (s # src) = map_res ((#) (d XOR s)) (xor_into dst src)"

text \<open>\<open>for i in range(len(last)): last[i] ^= s[i]\<close>.\<close>

fun xor_with :: "bytes \<Rightarrow> bytes \<Rightarrow> bytes res" where
  "xor_with [] s = Inr []"
| "xor_with (d # l) [] = Inl IndexError"
| "xor_with (d # l) (s # ss) = map_res ((#) (d XOR s)) (xor_with l ss)"

fun xor_with_all :: "bytes \<Rightarrow> bytes list \<Rightarrow> bytes res" where
  "xor_with_all l [] = Inr l"
| "xor_with_all l (s # ss) = (case xor_with l s of Inl e \<Rightarrow> Inl e | Inr l1 \<Rightarrow> xor_with_all l1 ss)"

fun xor_into_all :: "bytes \<Rightarrow> bytes list \<Rightarrow> bytes res" where
  "xor_into_all res_bytes [] = Inr res_bytes"
| "xor_into_all res_bytes (s # ss) = (case xor_into res_bytes s of Inl e \<Rightarrow> Inl e | Inr r \<Rightarrow> xor_into_all r ss)"

text \<open>\<open>token_bytes n j\<close> is the j-th call of \<open>secrets.token_bytes(n)\<close>.\<close>

definition xor_split :: "(nat \<Rightarrow> nat \<Rightarrow> bytes) \<Rightarrow> bytes \<Rightarrow> nat \<Rightarrow> bytes list res" where
  "xor_split token_bytes data num_shares =
     (let shares = map (token_bytes (length data)) [0..<num_shares - 1]
      in map_res (\<lambda>l. shares @ [l]) (xor_with_all data shares))"

definition xor_combine :: "bytes list \<Rightarrow> bytes res" where
  "xor_combine shares = (case shares of [] \<Rightarrow> Inl IndexError | s # _ \<Rightarrow> xor_into_all (zeros (length s)) shares)"

definition looks_like_noise :: "bytes \<Rightarrow> bool" where
  "looks_like_noise data =
     (if data = [] then True
      else of_nat (length (filter (\<lambda>b. 32 \<le> unat b \<and> unat b \<le> 126) data)) / of_nat (length data) < (1 / 2 :: rat))"

text \<open>The versions on arrays of \<open>uint8\<close>, all of one shape.\<close>

definition xor_arr :: "bytes \<Rightarrow> bytes \<Rightarrow> bytes" where
  "xor_arr a b = map2 (XOR) a b"

definition xor_split_numpy :: "(nat \<Rightarrow> nat \<Rightarrow> bytes) \<Rightarrow> bytes \<Rightarrow> nat \<Rightarrow> bytes list" where
  "xor_split_numpy randint data num_shares =
     (let shares = map (randint (length data)) [0..<num_shares - 1]
      in shares @ [foldl xor_arr data shares])"

definition xor_combine_numpy :: "bytes list \<Rightarrow> bytes res" where
  "xor_combine_numpy shares = (case shares of [] \<Rightarrow> Inl IndexError | s # ss \<Rightarrow> Inr (foldl xor_arr s ss))"

definition xor_split_chunk :: "(nat \<Rightarrow> nat \<Rightarrow> bytes) \<Rightarrow> bytes \<Rightarrow> nat \<Rightarrow> bytes list" where
  "xor_split_chunk randint chunk num_shares =
     (let shares = map (randint (length chunk)) [0..<num_shares - 1]
      in shares @ [foldl xor_arr chunk shares])"

definition xor_combine_chunk :: "bytes list \<Rightarrow> bytes res" where
  "xor_combine_chunk shares = (case shares of [] \<Rightarrow> Inl IndexError | s # ss \<Rightarrow> Inr (foldl xor_arr s ss))"

section \<open>Arrays of one length\<close>

lemma length_xor_arr [simp]: "length (xor_arr a b) = min (length a) (length b)"
  by (simp add: xor_arr_def)

lemma xor_arr_nth: "i < length a \<Longrightarrow> i < length b \<Longrightarrow> xor_arr a b ! i = a ! i XOR b ! i"
  by (simp add: xor_arr_def)

lemma xor_arr_assoc: "length b = length a \<Longrightarrow> length c = length a \<Longrightarrow> xor_arr (xor_arr a b) c = xor_arr a (xor_arr b c)"
  by (rule nth_equalityI) (simp_all add: xor_arr_nth xor.assoc)

lemma xor_arr_commute: "length b = length a \<Longrightarrow> xor_arr a b = xor_arr b a"
  by (rule nth_equalityI) (simp_all add: xor_arr_nth xor.commute)

lemma xor_arr_self: "xor_arr a a = zeros (length a)"
  by (rule nth_equalityI) (simp_all add: xor_arr_nth zeros_nth)

lemma xor_arr_zeros [simp]: "xor_arr (zeros (length a)) a = a" "xor_arr a (zeros (length a)) = a"
  by (rule nth_equalityI; simp add: xor_arr_nth zeros_nth)+

text \<open>XOR with what was added twice.\<close>

lemma xor_arr_cancel:
  assumes "length b = length a"
  shows "xor_arr (xor_arr a b) b = a"
  using assms by (simp add: xor_arr_assoc xor_arr_self)

lemma xor_arr_solve: "length b = length a \<Longrightarrow> length c = length a \<Longrightarrow> xor_arr a b = c \<longleftrightarrow> b = xor_arr a c"
  by (metis xor_arr_cancel xor_arr_commute length_xor_arr min.idem)

definition xor_sum :: "nat \<Rightarrow> bytes list \<Rightarrow> bytes" where
  "xor_sum L ss = foldr xor_arr ss (zeros L)"

lemma length_xor_sum: "(\<And>s. s \<in> set ss \<Longrightarrow> length s = L) \<Longrightarrow> length (xor_sum L ss) = L"
  by (induction ss) (simp_all add: xor_sum_def)

lemma foldl_xor_sum:
  "(\<And>s. s \<in> set ss \<Longrightarrow> length s = length a) \<Longrightarrow> foldl xor_arr a ss = xor_arr a (xor_sum (length a) ss)"
proof (induction ss arbitrary: a)
  case (Cons s ss)
  then show ?case
    using Cons.IH [of "xor_arr a s"] length_xor_sum [of ss "length a"] by (simp add: xor_arr_assoc) (simp add: xor_sum_def)
qed (simp add: xor_sum_def)

lemma xor_sum_update:
  assumes "\<And>s. s \<in> set ss \<Longrightarrow> length s = L" "i < length ss" "length t = L"
  shows "xor_sum L (ss[i := t]) = xor_arr (xor_arr (xor_sum L ss) (ss ! i)) t"
  using assms
proof (induction ss arbitrary: i)
  case (Cons s ss)
  have len: "length (xor_sum L ss) = L" "length s = L" using Cons.prems(1) by (auto intro: length_xor_sum)
  have step: "xor_sum L (x # xs) = xor_arr x (xor_sum L xs)" for x xs by (simp add: xor_sum_def)
  show ?case
  proof (cases i)
    case 0
    have "xor_arr (xor_arr s (xor_sum L ss)) s = xor_sum L ss"
      using xor_arr_cancel [of s "xor_sum L ss"] xor_arr_commute [of "xor_sum L ss" s] len by simp
    then show ?thesis using 0 len Cons.prems(3) by (simp add: step xor_arr_commute)
  next
    case (Suc k)
    then have k: "k < length ss" "length (ss ! k) = L" using Cons.prems(1,2) by auto
    then have "xor_sum L (ss[k := t]) = xor_arr (xor_arr (xor_sum L ss) (ss ! k)) t" using Cons.IH Cons.prems(1,3) by simp
    then show ?thesis using Suc k len Cons.prems(3) by (simp add: step xor_arr_assoc)
  qed
qed simp

lemma xor_into_eq: "length src = length dst \<Longrightarrow> xor_into dst src = Inr (xor_arr dst src)"
  by (induction dst src rule: xor_into.induct) (simp_all add: xor_arr_def)

lemma xor_with_eq: "length s = length l \<Longrightarrow> xor_with l s = Inr (xor_arr l s)"
  by (induction l s rule: xor_with.induct) (simp_all add: xor_arr_def)

lemma xor_into_all_eq: "(\<And>s. s \<in> set ss \<Longrightarrow> length s = length a) \<Longrightarrow> xor_into_all a ss = Inr (foldl xor_arr a ss)"
  by (induction ss arbitrary: a) (simp_all add: xor_into_eq)

lemma xor_with_all_eq: "(\<And>s. s \<in> set ss \<Longrightarrow> length s = length a) \<Longrightarrow> xor_with_all a ss = Inr (foldl xor_arr a ss)"
  by (induction ss arbitrary: a) (simp_all add: xor_with_eq)

section \<open>Any share but one\<close>

lemma missing_share:
  assumes ds: "\<And>d. d \<in> set ds \<Longrightarrow> length d = L" and data: "length data = L" "length data' = L" and "i \<le> length ds"
  defines "shares \<equiv> \<lambda>x es. es @ [xor_arr x (xor_sum L es)]"
  shows "\<exists>!es. length es = length ds \<and> (\<forall>d \<in> set es. length d = L) \<and>
    (\<forall>j \<le> length ds. j \<noteq> i \<longrightarrow> shares data' es ! j = shares data ds ! j)"
proof (cases "i = length ds")
  case True
  have "es = ds" if "length es = length ds" "\<forall>j \<le> length ds. j \<noteq> i \<longrightarrow> shares data' es ! j = shares data ds ! j" for es
    using that True by (intro nth_equalityI) (auto simp: shares_def nth_append)
  then show ?thesis using ds True by (intro ex1I [of _ ds]) (auto simp: shares_def nth_append)
next
  case False
  then have i: "i < length ds" using assms(4) by simp
  let ?x = "xor_arr (xor_sum L ds) (ds ! i)"
  let ?last = "xor_arr data (xor_sum L ds)"
  let ?t = "xor_arr ?x (xor_arr data' ?last)"
  have len: "length (ds ! i) = L" "length (xor_sum L ds) = L" "length ?x = L" "length ?last = L" "length ?t = L"
    using ds i data length_xor_sum [of ds L] by simp_all
  have fits: "xor_arr data' (xor_sum L (ds[i := t])) = ?last \<longleftrightarrow> t = ?t" if "length t = L" for t
  proof -
    have "xor_arr data' (xor_sum L (ds[i := t])) = ?last \<longleftrightarrow> xor_sum L (ds[i := t]) = xor_arr data' ?last"
      using xor_arr_solve [of "xor_sum L (ds[i := t])" data' ?last] length_xor_sum [of "ds[i := t]" L] ds that data len(4)
      by (auto dest: set_update_subset_insert [THEN subsetD])
    also have "\<dots> \<longleftrightarrow> xor_arr ?x t = xor_arr data' ?last" by (simp only: xor_sum_update [OF ds i that])
    also have "\<dots> \<longleftrightarrow> t = ?t" using xor_arr_solve [of t ?x "xor_arr data' ?last"] len that data by simp
    finally show ?thesis .
  qed
  have agree: "(\<forall>j \<le> length ds. j \<noteq> i \<longrightarrow> shares data' es ! j = shares data ds ! j) \<longleftrightarrow> es = ds[i := ?t]"
    if "length es = length ds" "\<forall>d \<in> set es. length d = L" for es
  proof
    assume a: "\<forall>j \<le> length ds. j \<noteq> i \<longrightarrow> shares data' es ! j = shares data ds ! j"
    have same: "es ! j = ds ! j" if "j < length ds" "j \<noteq> i" for j
      using a [rule_format, of j] that \<open>length es = length ds\<close> by (simp add: shares_def nth_append)
    have es: "es = ds[i := es ! i]"
    proof (rule nth_equalityI)
      fix j assume "j < length es"
      then show "es ! j = ds[i := es ! i] ! j" using same that(1) by (cases "j = i") simp_all
    qed (simp add: that(1))
    have "xor_arr data' (xor_sum L es) = ?last" using a [rule_format, of "length ds"] i that(1) by (simp add: shares_def nth_append)
    then show "es = ds[i := ?t]" using fits [of "es ! i"] es that i by (metis nth_mem)
  next
    assume "es = ds[i := ?t]"
    then show "\<forall>j \<le> length ds. j \<noteq> i \<longrightarrow> shares data' es ! j = shares data ds ! j"
      using fits [OF len(5)] by (auto simp: shares_def nth_append)
  qed
  have "\<forall>d \<in> set (ds[i := ?t]). length d = L" using ds len(5) by (auto dest: set_update_subset_insert [THEN subsetD])
  then show ?thesis using agree by (intro ex1I [of _ "ds[i := ?t]"]) auto
qed

lemma combine_arrays:
  assumes "\<And>d. d \<in> set ds \<Longrightarrow> length d = length data"
  shows "xor_combine (ds @ [xor_arr data (xor_sum (length data) ds)]) = Inr data"
    "xor_combine_numpy (ds @ [xor_arr data (xor_sum (length data) ds)]) = Inr data"
proof -
  let ?L = "length data"
  let ?l = "xor_arr data (xor_sum ?L ds)"
  let ?ss = "ds @ [?l]"
  have len: "length (xor_sum ?L ds) = ?L" "length ?l = ?L" using length_xor_sum [OF assms] by simp_all
  have all: "length s = ?L" if "s \<in> set ?ss" for s using that assms len by auto
  obtain s ss where ss: "?ss = s # ss" by (cases ?ss) auto
  have s: "length s = ?L" "\<And>t. t \<in> set ss \<Longrightarrow> length t = ?L" using all ss by (metis list.set_intros)+
  have "foldl xor_arr (zeros ?L) ?ss = xor_arr (xor_sum ?L ds) ?l"
    using foldl_xor_sum [of ds "zeros ?L"] assms len xor_arr_zeros(1) [of "xor_sum ?L ds"] by simp
  also have "\<dots> = data"
    using xor_arr_cancel [of "xor_sum ?L ds" data] xor_arr_commute [of ?l "xor_sum ?L ds"] len by simp
  finally have whole: "foldl xor_arr (zeros ?L) ?ss = data" .
  show "xor_combine ?ss = Inr data"
    using xor_into_all_eq [of ?ss "zeros ?L"] all whole s(1) by (simp add: xor_combine_def ss)
  have "foldl xor_arr (zeros ?L) (s # ss) = foldl xor_arr s ss" using s(1) xor_arr_zeros(1) [of s] by simp
  then show "xor_combine_numpy ?ss = Inr data" using whole by (simp add: xor_combine_numpy_def ss)
qed

lemma split_arrays:
  assumes "\<And>j. j < num_shares - 1 \<Longrightarrow> length (rnd (length data) j) = length data"
  defines "ds \<equiv> map (rnd (length data)) [0..<num_shares - 1]"
  shows "xor_split rnd data num_shares = Inr (ds @ [xor_arr data (xor_sum (length data) ds)])"
    "xor_split_numpy rnd data num_shares = ds @ [xor_arr data (xor_sum (length data) ds)]"
proof -
  have "length d = length data" if "d \<in> set ds" for d using that assms by auto
  then show "xor_split rnd data num_shares = Inr (ds @ [xor_arr data (xor_sum (length data) ds)])"
    "xor_split_numpy rnd data num_shares = ds @ [xor_arr data (xor_sum (length data) ds)]"
    unfolding xor_split_def xor_split_numpy_def Let_def ds_def [symmetric] by (simp_all add: xor_with_all_eq foldl_xor_sum)
qed

lemma xor_chunk_numpy: "xor_split_chunk = xor_split_numpy" "xor_combine_chunk = xor_combine_numpy"
  by (simp_all add: fun_eq_iff xor_split_chunk_def xor_split_numpy_def xor_combine_chunk_def xor_combine_numpy_def)

lemma xor_chunk_combined:
  assumes "\<And>m j. length (rnd m j) = m"
  shows "xor_combine_chunk (xor_split_chunk rnd c n) = Inr c"
proof -
  have "xor_split_numpy rnd c n = map (rnd (length c)) [0..<n - 1] @
      [xor_arr c (xor_sum (length c) (map (rnd (length c)) [0..<n - 1]))]"
    by (rule split_arrays(2)) (simp add: assms)
  then show ?thesis unfolding xor_chunk_numpy by (simp only:) (rule combine_arrays(2), auto simp: assms)
qed

text \<open>
  The shares are a one-time pad: however many there are, all of them combine to the data, in the
  version on bytes and in that on arrays, which produce the same shares; and whichever one share is
  missing, the others fit every other data of the same length, through exactly one choice of the random shares.
\<close>

theorem xor_shares_are_one_time_pads:
  assumes "1 \<le> n" "\<And>j. j < n - 1 \<Longrightarrow> length (rnd (length data) j) = length data"
  shows "\<exists>shares. xor_split rnd data n = Inr shares \<and> xor_split_numpy rnd data n = shares \<and> length shares = n \<and>
    xor_combine shares = Inr data \<and> xor_combine_numpy shares = Inr data \<and>
    (\<forall>i < n. \<forall>other. length other = length data \<longrightarrow>
       (\<exists>!ds. length ds = n - 1 \<and> (\<forall>d \<in> set ds. length d = length data) \<and>
          (\<exists>others. xor_split (\<lambda>_ j. ds ! j) other n = Inr others \<and> (\<forall>j < n. j \<noteq> i \<longrightarrow> others ! j = shares ! j))))"
proof -
  let ?L = "length data"
  define ds where "ds = map (rnd ?L) [0..<n - 1]"
  define pad where "pad = (\<lambda>x es. es @ [xor_arr x (xor_sum ?L es)])"
  have ds: "\<And>d. d \<in> set ds \<Longrightarrow> length d = ?L" "length ds = n - 1" using assms(2) by (auto simp: ds_def)
  have sp: "xor_split rnd data n = Inr (pad data ds)" "xor_split_numpy rnd data n = pad data ds"
    using split_arrays [of n rnd data] assms(2) by (simp_all add: ds_def pad_def)
  have other: "xor_split (\<lambda>_ j. es ! j) other n = Inr (pad other es)"
    if "length es = n - 1" "\<forall>d \<in> set es. length d = ?L" "length other = ?L" for es other
  proof -
    have "map ((!) es) [0..<n - 1] = es" using that(1) by (intro nth_equalityI) simp_all
    then show ?thesis using split_arrays(1) [of n "\<lambda>_ j. es ! j" other] that by (simp add: pad_def)
  qed
  have "\<exists>!es. length es = n - 1 \<and> (\<forall>d \<in> set es. length d = ?L) \<and>
      (\<exists>others. xor_split (\<lambda>_ j. es ! j) other n = Inr others \<and> (\<forall>j < n. j \<noteq> i \<longrightarrow> others ! j = pad data ds ! j))"
    if "i < n" "length other = ?L" for i other
  proof -
    have "\<exists>!es. length es = length ds \<and> (\<forall>d \<in> set es. length d = ?L) \<and>
        (\<forall>j \<le> length ds. j \<noteq> i \<longrightarrow> pad other es ! j = pad data ds ! j)"
      using missing_share [of ds ?L data other i] ds that by (simp add: pad_def)
    moreover have "j \<le> length ds \<longleftrightarrow> j < n" for j using assms(1) ds(2) by linarith
    ultimately have ex: "\<exists>!es. length es = n - 1 \<and> (\<forall>d \<in> set es. length d = ?L) \<and>
        (\<forall>j < n. j \<noteq> i \<longrightarrow> pad other es ! j = pad data ds ! j)" by (simp add: ds(2))
    have "(length es = n - 1 \<and> (\<forall>d \<in> set es. length d = ?L) \<and>
        (\<exists>others. xor_split (\<lambda>_ j. es ! j) other n = Inr others \<and> (\<forall>j < n. j \<noteq> i \<longrightarrow> others ! j = pad data ds ! j))) \<longleftrightarrow>
      (length es = n - 1 \<and> (\<forall>d \<in> set es. length d = ?L) \<and> (\<forall>j < n. j \<noteq> i \<longrightarrow> pad other es ! j = pad data ds ! j))" for es
      using other [of es other] that(2) by auto
    then show ?thesis using ex by (simp only:)
  qed
  moreover have "length (pad data ds) = n" using assms(1) ds(2) by (simp add: pad_def)
  ultimately show ?thesis using sp combine_arrays [OF ds(1)] by (simp add: pad_def)
qed

theorem xor_shares_are_one_time_pads_witness:
  "\<exists>shares. xor_split (\<lambda>_ j. [of_nat j, 7]) [1, 2] 3 = Inr shares \<and> xor_combine shares = Inr [1, 2]"
  using xor_shares_are_one_time_pads [of 3 "\<lambda>_ j. [of_nat j, 7]" "[1, 2]"] by auto

section \<open>Moving a share through a pipe\<close>

text \<open>
  In one thread, the write comes first and needs room for all of it: with a longer share it blocks for ever, as
  nobody reads (\<open>None\<close>). \<open>cap\<close> is the capacity of a pipe.
\<close>

definition stream_share_through_pipe :: "nat \<Rightarrow> bytes \<Rightarrow> bytes option" where
  "stream_share_through_pipe cap share =
     (let pipe = (if length share \<le> cap then Some share else None)
      in map_option (take (length share)) pipe)"

text \<open>With a writer thread: what is unwritten, the pipe and its write end, what was read, whether the reader is done.\<close>

record piping =
  pp_rest :: bytes
  pp_pipe :: bytes
  pp_open :: bool
  pp_received :: bytes
  pp_done :: bool

definition pipe_start :: "bytes \<Rightarrow> piping" where
  "pipe_start data = \<lparr>pp_rest = data, pp_pipe = [], pp_open = True, pp_received = [], pp_done = False\<rparr>"

inductive pipe_step :: "nat \<Rightarrow> piping \<Rightarrow> piping \<Rightarrow> bool" for cap where
  ps_write: "\<lbrakk>0 < n; n \<le> length (pp_rest s); length (pp_pipe s) + n \<le> cap\<rbrakk> \<Longrightarrow>
    pipe_step cap s (s\<lparr>pp_pipe := pp_pipe s @ take n (pp_rest s), pp_rest := drop n (pp_rest s)\<rparr>)"
| ps_close: "\<lbrakk>pp_open s; pp_rest s = []\<rbrakk> \<Longrightarrow> pipe_step cap s (s\<lparr>pp_open := False\<rparr>)"
| ps_read: "\<lbrakk>\<not> pp_done s; 0 < n; n \<le> length (pp_pipe s)\<rbrakk> \<Longrightarrow>
    pipe_step cap s (s\<lparr>pp_received := pp_received s @ take n (pp_pipe s), pp_pipe := drop n (pp_pipe s)\<rparr>)"
| ps_eof: "\<lbrakk>\<not> pp_done s; pp_pipe s = []; \<not> pp_open s\<rbrakk> \<Longrightarrow> pipe_step cap s (s\<lparr>pp_done := True\<rparr>)"

definition pipe_inv :: "bytes \<Rightarrow> piping \<Rightarrow> bool" where
  "pipe_inv data s \<longleftrightarrow>
     pp_received s @ pp_pipe s @ pp_rest s = data \<and> (\<not> pp_open s \<longrightarrow> pp_rest s = []) \<and>
     (pp_done s \<longrightarrow> pp_pipe s = [] \<and> \<not> pp_open s)"

definition pipe_left :: "piping \<Rightarrow> nat" where
  "pipe_left s = 2 * length (pp_rest s) + length (pp_pipe s) + (if pp_open s then 1 else 0) + (if pp_done s then 0 else 1)"

lemma take_drop_append: "take n xs @ drop n xs @ ys = xs @ ys"
  by (simp flip: append_assoc)

lemma pipe_inv_step: "pipe_step cap s t \<Longrightarrow> pipe_inv data s \<Longrightarrow> pipe_inv data t"
  by (induction rule: pipe_step.induct) (auto simp: pipe_inv_def take_drop_append)

lemma pipe_left_step: "pipe_step cap s t \<Longrightarrow> pipe_left t < pipe_left s"
  by (induction rule: pipe_step.induct) (auto simp: pipe_left_def)

interpretation piping: countdown "pipe_step cap" "pipe_inv data" pipe_left for cap data
  by unfold_locales (auto intro: pipe_inv_step pipe_left_step)

lemma pipe_stuck:
  assumes "0 < cap" "pipe_inv data s" "\<And>t. \<not> pipe_step cap s t"
  shows "pp_done s \<and> pp_received s = data"
proof -
  have rest: "pp_rest s = []" if "pp_pipe s = []"
  proof (rule ccontr)
    assume "pp_rest s \<noteq> []"
    then show False using assms(3) ps_write [of 1 s cap] assms(1) that by (simp add: Suc_le_eq)
  qed
  have fin: "pp_done s" if "pp_pipe s = []"
  proof (rule ccontr)
    assume "\<not> pp_done s"
    then show False using assms(3) ps_eof ps_close rest that by blast
  qed
  have "pp_pipe s = []"
  proof (rule ccontr)
    assume "pp_pipe s \<noteq> []"
    moreover from this have "\<not> pp_done s" using assms(2) by (auto simp: pipe_inv_def)
    ultimately show False using assms(3) ps_read [of s 1 cap] by (simp add: Suc_le_eq)
  qed
  then show ?thesis using rest fin assms(2) by (simp add: pipe_inv_def)
qed

text \<open>Every run through the pipe ends, within two steps per byte, with all the data received.\<close>

lemma pipe_gives_all:
  assumes "0 < cap" "(pipe_step cap ^^ n) (pipe_start data) s"
  shows "n \<le> 2 * length data + 2" "pp_done s \<Longrightarrow> pp_received s = data"
    "(\<And>t. \<not> pipe_step cap s t) \<Longrightarrow> pp_done s \<and> pp_received s = data"
proof -
  have start: "pipe_inv data (pipe_start data)" "pipe_left (pipe_start data) = 2 * length data + 2"
    by (simp_all add: pipe_inv_def pipe_left_def pipe_start_def)
  have inv: "pipe_inv data s" by (rule piping.inv_steps [OF assms(2) start(1)])
  show "n \<le> 2 * length data + 2" using piping.left_steps [OF assms(2) start(1)] start(2) by simp
  show "pp_done s \<Longrightarrow> pp_received s = data" using inv by (auto simp: pipe_inv_def)
  show "(\<And>t. \<not> pipe_step cap s t) \<Longrightarrow> pp_done s \<and> pp_received s = data" using pipe_stuck [OF assms(1) inv] by blast
qed

section \<open>The experiments\<close>

definition CHUNK_SIZE :: nat where
  "CHUNK_SIZE = 8 * 1024 * 1024"

definition NUM_SHARES :: nat where
  "NUM_SHARES = 3"

definition file_chunks :: "bytes \<Rightarrow> bytes list" where
  "file_chunks data = map (\<lambda>i. py_slice data i (i + CHUNK_SIZE)) (py_range 0 (length data) CHUNK_SIZE)"

text \<open>The loop of \<open>big_file_experiment_v2.py\<close>; \<open>stream\<close> is one run through a pipe.\<close>

definition reconstruct_in_chunks :: "(bytes \<Rightarrow> bytes) \<Rightarrow> (nat \<Rightarrow> nat \<Rightarrow> bytes) \<Rightarrow> bytes \<Rightarrow> bytes res" where
  "reconstruct_in_chunks stream randint data =
     map_res concat (mapM (\<lambda>raw_chunk. xor_combine_chunk (map stream (xor_split_chunk randint raw_chunk NUM_SHARES))) (file_chunks data))"

definition hop_chunk_n_times :: "(bytes \<Rightarrow> bytes) \<Rightarrow> nat \<Rightarrow> bytes \<Rightarrow> bytes" where
  "hop_chunk_n_times stream hops chunk = (stream ^^ hops) chunk"

lemma file_chunks_concat: "concat (file_chunks data) = data"
  using concat_pieces [of CHUNK_SIZE data "length data" 0] by (simp add: file_chunks_def CHUNK_SIZE_def)

text \<open>With a stream that gives back what it is given, the file is reconstructed, whatever the random shares.\<close>

lemma chunks_reconstructed:
  assumes "\<And>d. stream d = d" "\<And>m j. length (randint m j) = m"
  shows "reconstruct_in_chunks stream randint data = Inr data" "hop_chunk_n_times stream n data = data"
proof -
  have "stream = id" using assms(1) by (simp add: fun_eq_iff)
  then show "hop_chunk_n_times stream n data = data" by (simp add: hop_chunk_n_times_def)
  have "xor_combine_chunk (map stream (xor_split_chunk randint c NUM_SHARES)) = Inr c" for c
    using xor_chunk_combined [OF assms(2)] \<open>stream = id\<close> by simp
  then have "mapM (\<lambda>c. xor_combine_chunk (map stream (xor_split_chunk randint c NUM_SHARES))) (file_chunks data) =
      Inr (map (\<lambda>c. c) (file_chunks data))" by (intro mapM_Inr)
  then show "reconstruct_in_chunks stream randint data = Inr data"
    by (simp add: reconstruct_in_chunks_def file_chunks_concat)
qed

end
