(* ===== verification/SelfHealing.thy ===== *)
theory SelfHealing
  imports Splitter
begin

text \<open>
  \<open>vstorage/self_healing.py\<close>: nested boxes that lose a layer at either end. The first version
  regenerates neither end; the second puts back a fresh layer at the other end, so that no failure loses
  the data. A deque is a list with the innermost layer first; the random choices of the stress test are
  an argument.
\<close>

section \<open>The vulnerable version\<close>

definition v1_init :: "bytes \<Rightarrow> nat \<Rightarrow> bytes list" where
  "v1_init data depth = replicate depth data"

definition v1_fail_innermost :: "bytes list \<Rightarrow> bool \<times> bytes list" where
  "v1_fail_innermost layers =
     (if layers = [] then (False, layers)
      else (let l = tl layers in if l = [] then (False, l) else (True, l)))"

definition v1_fail_outermost :: "bytes list \<Rightarrow> bool \<times> bytes list" where
  "v1_fail_outermost layers =
     (if layers = [] then (False, layers) else (let l = butlast layers in (0 < length l, l)))"

definition v1_current :: "bytes list \<Rightarrow> bytes option" where
  "v1_current layers = (if layers = [] then None else Some (hd layers))"

section \<open>The fix\<close>

record nested =
  nv_data :: bytes
  nv_depth :: nat
  nv_layers :: "bytes list"

definition v2_init :: "bytes \<Rightarrow> nat \<Rightarrow> nested" where
  "v2_init data depth = \<lparr>nv_data = data, nv_depth = depth, nv_layers = replicate depth data\<rparr>"

text \<open>Popping from an empty deque raises.\<close>

definition v2_fail_innermost :: "nested \<Rightarrow> bytes res \<times> nested" where
  "v2_fail_innermost s =
     (if nv_layers s = [] then (Inl IndexError, s)
      else (let l = tl (nv_layers s) @ [nv_data s] in (py_index l 0, s\<lparr>nv_layers := l\<rparr>)))"

definition v2_fail_outermost :: "nested \<Rightarrow> bytes res \<times> nested" where
  "v2_fail_outermost s =
     (if nv_layers s = [] then (Inl IndexError, s)
      else (let l = nv_data s # butlast (nv_layers s) in (py_index l 0, s\<lparr>nv_layers := l\<rparr>)))"

definition v2_current :: "nested \<Rightarrow> bytes res" where
  "v2_current s = py_index (nv_layers s) 0"

section \<open>The stress tests\<close>

record stress =
  st_survived :: nat
  st_failed_at :: "nat option"
  st_lost :: bool

fun stress_loop_v1 :: "nat \<Rightarrow> nat \<Rightarrow> nat \<Rightarrow> bytes list \<Rightarrow> stress" where
  "stress_loop_v1 0 i survived boxes = \<lparr>st_survived = survived, st_failed_at = None, st_lost = False\<rparr>"
| "stress_loop_v1 (Suc n) i survived boxes =
     (let (good, boxes') = (if i mod 2 = 0 then v1_fail_innermost boxes else v1_fail_outermost boxes)
      in if \<not> good then \<lparr>st_survived = survived, st_failed_at = Some i, st_lost = True\<rparr>
         else stress_loop_v1 n (i + 1) (survived + 1) boxes')"

definition stress_test_v1 :: "bytes \<Rightarrow> nat \<Rightarrow> nat \<Rightarrow> stress" where
  "stress_test_v1 data depth failures = stress_loop_v1 failures 0 0 (v1_init data depth)"

text \<open>The second test compares digests; \<open>inner i\<close> says whether \<open>rng.random() < 0.5\<close> at the i-th failure.\<close>

record stress2 =
  s2_survived :: nat
  s2_requested :: nat
  s2_intact :: bool

fun stress_loop_v2 :: "env \<Rightarrow> (nat \<Rightarrow> bool) \<Rightarrow> nat \<Rightarrow> nat \<Rightarrow> nat \<Rightarrow> string \<Rightarrow> nested \<Rightarrow> stress2 res" where
  "stress_loop_v2 E inner failures 0 i expected s = Inr \<lparr>s2_survived = failures, s2_requested = failures, s2_intact = True\<rparr>"
| "stress_loop_v2 E inner failures (Suc n) i expected s =
     (let (r, s') = (if inner i then v2_fail_innermost s else v2_fail_outermost s)
      in case r of Inl e \<Rightarrow> Inl e
         | Inr current \<Rightarrow>
             if hexdigest (sha256 E current) \<noteq> expected
             then Inr \<lparr>s2_survived = i, s2_requested = failures, s2_intact = False\<rparr>
             else stress_loop_v2 E inner failures n (i + 1) expected s')"

definition stress_test_v2 :: "env \<Rightarrow> (nat \<Rightarrow> bool) \<Rightarrow> bytes \<Rightarrow> nat \<Rightarrow> nat \<Rightarrow> stress2 res" where
  "stress_test_v2 E inner data depth failures =
     stress_loop_v2 E inner failures failures 0 (hexdigest (sha256 E data)) (v2_init data depth)"

section \<open>What each version promises\<close>

lemma butlast_replicate_Suc [simp]: "butlast (x # replicate n x) = replicate n x"
  by (metis butlast_snoc replicate_append_same)

lemma v1_step:
  "v1_fail_innermost (replicate d data) = (1 < d, replicate (d - 1) data)"
  "v1_fail_outermost (replicate d data) = (1 < d, replicate (d - 1) data)"
  by (cases d; simp add: v1_fail_innermost_def v1_fail_outermost_def Let_def del: butlast.simps)+

lemma stress_loop_v1_out:
  "stress_loop_v1 n i k (replicate d data) =
     (if n < d \<or> n = 0 then \<lparr>st_survived = k + n, st_failed_at = None, st_lost = False\<rparr>
      else \<lparr>st_survived = k + (d - 1), st_failed_at = Some (i + (d - 1)), st_lost = True\<rparr>)"
proof (induction n arbitrary: i k d)
  case (Suc n)
  have step: "(if i mod 2 = 0 then v1_fail_innermost (replicate d data) else v1_fail_outermost (replicate d data)) =
      (1 < d, replicate (d - 1) data)" by (simp add: v1_step)
  show ?case
  proof (cases "1 < d")
    case True
    then show ?thesis using Suc.IH [of "i + 1" "k + 1" "d - 1"] unfolding stress_loop_v1.simps step by auto
  next
    case False
    then show ?thesis unfolding stress_loop_v1.simps step by auto
  qed
qed simp

lemma v2_step:
  assumes "nv_layers s = replicate d (nv_data s)" "0 < d"
  shows "v2_fail_innermost s = (Inr (nv_data s), s) \<and> v2_fail_outermost s = (Inr (nv_data s), s) \<and>
    v2_current s = Inr (nv_data s)"
proof -
  obtain m where d: "d = Suc m" using assms(2) by (cases d) auto
  have l: "tl (nv_layers s) @ [nv_data s] = nv_layers s" "nv_data s # butlast (nv_layers s) = nv_layers s"
    using assms(1) by (simp_all add: d replicate_append_same del: butlast.simps)
  have same: "s\<lparr>nv_layers := nv_layers s\<rparr> = s" by simp
  have "nv_layers s \<noteq> []" "py_index (nv_layers s) 0 = Inr (nv_data s)"
    using assms(1) by (simp_all add: d py_index_def)
  then show ?thesis
    by (simp add: v2_fail_innermost_def v2_fail_outermost_def v2_current_def l)
qed

lemma stress_loop_v2_out:
  assumes "nv_layers s = replicate d (nv_data s)" "0 < d"
  shows "stress_loop_v2 E inner failures n i (hexdigest (sha256 E (nv_data s))) s =
    Inr \<lparr>s2_survived = failures, s2_requested = failures, s2_intact = True\<rparr>"
proof (induction n arbitrary: i)
  case (Suc n)
  then show ?case using v2_step [OF assms] by simp
qed simp

text \<open>
  The two designs. The first survives fewer failures than it has layers, in the order of the stress
  test, and loses the data with the failure that takes the last layer; the second, with at least one layer,
  survives any number of failures at any ends with the data intact, and with none raises at the first.
\<close>

theorem only_both_ends_heal:
  "stress_test_v1 data depth failures =
     (if failures < depth \<or> failures = 0 then \<lparr>st_survived = failures, st_failed_at = None, st_lost = False\<rparr>
      else \<lparr>st_survived = depth - 1, st_failed_at = Some (depth - 1), st_lost = True\<rparr>) \<and>
   stress_test_v2 E inner data depth failures =
     (if 0 < depth \<or> failures = 0 then Inr \<lparr>s2_survived = failures, s2_requested = failures, s2_intact = True\<rparr>
      else Inl IndexError)"
proof
  show "stress_test_v1 data depth failures =
     (if failures < depth \<or> failures = 0 then \<lparr>st_survived = failures, st_failed_at = None, st_lost = False\<rparr>
      else \<lparr>st_survived = depth - 1, st_failed_at = Some (depth - 1), st_lost = True\<rparr>)"
    using stress_loop_v1_out [of failures 0 0 depth data] by (simp add: stress_test_v1_def v1_init_def)
  show "stress_test_v2 E inner data depth failures =
     (if 0 < depth \<or> failures = 0 then Inr \<lparr>s2_survived = failures, s2_requested = failures, s2_intact = True\<rparr>
      else Inl IndexError)"
  proof (cases "0 < depth")
    case True
    have "nv_layers (v2_init data depth) = replicate depth (nv_data (v2_init data depth))" "nv_data (v2_init data depth) = data"
      by (simp_all add: v2_init_def)
    from stress_loop_v2_out [OF this(1) True, of E inner failures failures 0] this(2) True show ?thesis
      by (simp add: stress_test_v2_def)
  next
    case False
    then show ?thesis
      by (cases failures) (simp_all add: stress_test_v2_def v2_init_def v2_fail_innermost_def v2_fail_outermost_def)
  qed
qed

end
