(* ===== verification/HolderServer.thy ===== *)
theory HolderServer
  imports Wire Watchdog Mmap
begin

text \<open>
  How a holder of \<open>vstorage/holder_server.py\<close> starts and ends (\<open>main\<close>, \<open>_write_cert_files\<close>, \<open>_on_term\<close>), the
  connections it serves one after the other, and how \<open>NetworkTrustGroup.__init__\<close> and \<open>stop\<close> of
  \<open>vstorage/network_trust.py\<close> start and end the holders: one line of configuration goes to each, one line comes
  back when it listens. What the operating system and the TLS library answer is a record of parameters.
\<close>

section \<open>The configuration line\<close>

text \<open>\<open>j[k]\<close> with a string \<open>k\<close>.\<close>

definition getitem :: "json \<Rightarrow> string \<Rightarrow> json res" where
  "getitem j k = (case j of JObj kvs \<Rightarrow> of_option KeyError (dict_get kvs k) | _ \<Rightarrow> Inl TypeError)"

text \<open>\<open>int(s)\<close> of a string: blanks around it, a sign, digits with single underscores between them.\<close>

definition str_blank :: "char \<Rightarrow> bool" where
  "str_blank c \<longleftrightarrow>
     (let n = (of_char c :: nat) in n = 32 \<or> (9 \<le> n \<and> n \<le> 13) \<or> (28 \<le> n \<and> n \<le> 31) \<or> n = 133 \<or> n = 160)"

definition py_strip :: "string \<Rightarrow> string" where
  "py_strip s = rev (dropWhile str_blank (rev (dropWhile str_blank s)))"

text \<open>The flag says whether the character before was a digit.\<close>

fun int_digits :: "bool \<Rightarrow> nat \<Rightarrow> string \<Rightarrow> nat res" where
  "int_digits digit n [] = (if digit then Inr n else Inl ValueError)"
| "int_digits digit n (c # cs) =
     (if is_digit c then int_digits True (10 * n + (of_char c - 48)) cs
      else if c = CHR ''_'' \<and> digit then int_digits False n cs
      else Inl ValueError)"

definition int_of_string :: "string \<Rightarrow> int res" where
  "int_of_string s =
     (case py_strip s of
        c # cs \<Rightarrow>
          if c = CHR ''-'' then map_res (\<lambda>n. - int n) (int_digits False 0 cs)
          else if c = CHR ''+'' then map_res int (int_digits False 0 cs)
          else map_res int (int_digits False 0 (c # cs))
      | [] \<Rightarrow> Inl ValueError)"

text \<open>
  What the process asks of the system: the page size, the address its buffer gets, its pid, the name \<open>mkdtemp\<close>
  makes up, whether the TLS library accepts a certificate and a key, the port \<open>bind\<close> and \<open>listen\<close> end up with,
  whether a client's connection and handshake succeed; and what \<open>int\<close> makes of a number with a fraction.
\<close>

record host =
  hw_page :: nat
  hw_addr :: nat
  hw_pid :: nat
  hw_tmpdir :: string
  hw_load_cert :: "string \<Rightarrow> string \<Rightarrow> unit res"
  hw_bind :: "json \<Rightarrow> int \<Rightarrow> nat res"
  hw_connects :: bool
  hw_trunc :: "string \<Rightarrow> int res"

definition py_int :: "host \<Rightarrow> json \<Rightarrow> int res" where
  "py_int H j =
     (case j of JInt i \<Rightarrow> Inr i | JBool b \<Rightarrow> Inr (if b then 1 else 0) | JFloat t \<Rightarrow> hw_trunc H t
      | JStr s \<Rightarrow> int_of_string s | _ \<Rightarrow> Inl TypeError)"

definition from_hex :: "json \<Rightarrow> bytes res" where
  "from_hex j = (case j of JStr s \<Rightarrow> fromhex s | _ \<Rightarrow> Inl TypeError)"

record config =
  cf_token :: json
  cf_cert :: json
  cf_key :: json
  cf_x :: int
  cf_share :: bytes
  cf_host :: json
  cf_port :: int

text \<open>\<open>sys.stdin.readline()\<close>.\<close>

definition first_line :: "string \<Rightarrow> string" where
  "first_line s =
     (let l = takeWhile (\<lambda>c. c \<noteq> char_of (10 :: nat)) s in if length l < length s then l @ newline else l)"

definition read_config :: "host \<Rightarrow> string \<Rightarrow> config res" where
  "read_config H stdin =
     (case loads (first_line stdin) of None \<Rightarrow> Inl ValueError
      | Some j \<Rightarrow>
     (case getitem j ''token'' of Inl e \<Rightarrow> Inl e
      | Inr token \<Rightarrow>
     (case getitem j ''cert_pem'' of Inl e \<Rightarrow> Inl e
      | Inr cert \<Rightarrow>
     (case getitem j ''key_pem'' of Inl e \<Rightarrow> Inl e
      | Inr key \<Rightarrow>
     (case getitem j ''x'' of Inl e \<Rightarrow> Inl e
      | Inr jx \<Rightarrow>
     (case py_int H jx of Inl e \<Rightarrow> Inl e
      | Inr x \<Rightarrow>
     (case getitem j ''share_hex'' of Inl e \<Rightarrow> Inl e
      | Inr hex \<Rightarrow>
     (case from_hex hex of Inl e \<Rightarrow> Inl e
      | Inr share \<Rightarrow>
     (case getitem j ''host'' of Inl e \<Rightarrow> Inl e
      | Inr hst \<Rightarrow>
     (case py_int H (case getitem j ''port'' of Inr p \<Rightarrow> p | Inl _ \<Rightarrow> JInt 0) of Inl e \<Rightarrow> Inl e
      | Inr port \<Rightarrow>
          Inr \<lparr>cf_token = token, cf_cert = cert, cf_key = key, cf_x = x, cf_share = share, cf_host = hst,
               cf_port = port\<rparr>))))))))))"

section \<open>Certificate files\<close>

record disk =
  dk_dirs :: "string list"
  dk_files :: "(string, string) dict"

text \<open>\<open>os.open(..., O_CREAT | O_EXCL)\<close>, then \<open>f.write(pem)\<close>, which wants a string.\<close>

definition write_pem :: "string \<Rightarrow> json \<Rightarrow> disk \<Rightarrow> unit res \<times> disk" where
  "write_pem path pem d =
     (if dict_get (dk_files d) path \<noteq> None then (Inl OSError, d)
      else (case pem of
          JStr t \<Rightarrow> (Inr (), d\<lparr>dk_files := dict_set path t (dk_files d)\<rparr>)
        | _ \<Rightarrow> (Inl TypeError, d\<lparr>dk_files := dict_set path [] (dk_files d)\<rparr>)))"

definition cert_path :: "string \<Rightarrow> string" where
  "cert_path tmpdir = tmpdir @ ''/cert.pem''"

definition key_path :: "string \<Rightarrow> string" where
  "key_path tmpdir = tmpdir @ ''/key.pem''"

definition write_cert_files :: "string \<Rightarrow> json \<Rightarrow> json \<Rightarrow> disk \<Rightarrow> unit res \<times> disk" where
  "write_cert_files tmpdir cert key d =
     (case write_pem (cert_path tmpdir) cert (d\<lparr>dk_dirs := tmpdir # dk_dirs d\<rparr>) of
        (Inl e, d) \<Rightarrow> (Inl e, d)
      | (Inr _, d) \<Rightarrow> write_pem (key_path tmpdir) key d)"

text \<open>The two \<open>unlink\<close>s and the \<open>rmdir\<close>.\<close>

definition remove_cert_files :: "string \<Rightarrow> disk \<Rightarrow> disk" where
  "remove_cert_files tmpdir d =
     d\<lparr>dk_files := dict_del (key_path tmpdir) (dict_del (cert_path tmpdir) (dk_files d)),
       dk_dirs := remove1 tmpdir (dk_dirs d)\<rparr>"

definition load_cert :: "host \<Rightarrow> json \<Rightarrow> json \<Rightarrow> disk \<Rightarrow> unit res \<times> disk" where
  "load_cert H cert key d =
     (case write_cert_files (hw_tmpdir H) cert key d of
        (Inl e, d) \<Rightarrow> (Inl e, d)
      | (Inr _, d) \<Rightarrow>
          (case (dict_get (dk_files d) (cert_path (hw_tmpdir H)), dict_get (dk_files d) (key_path (hw_tmpdir H))) of
             (Some c, Some k) \<Rightarrow>
               (case hw_load_cert H c k of Inl e \<Rightarrow> (Inl e, d) | Inr _ \<Rightarrow> (Inr (), remove_cert_files (hw_tmpdir H) d))
           | _ \<Rightarrow> (Inl FileNotFoundError, d)))"

section \<open>The process\<close>

record server =
  hs_token :: json
  hs_x :: int
  hs_buf :: mmap
  hs_share_hex :: string
  hs_watchdog :: watchdog
  hs_port :: nat
  hs_running :: bool

text \<open>The share in a page of its own, registered with the process's own watchdog, and its hex form read back.\<close>

definition protect_share :: "host \<Rightarrow> bytes \<Rightarrow> (mmap \<times> string \<times> watchdog) res" where
  "protect_share H share =
     (case mm_write (mm_new (hw_page H)) 0 (length share) share of Inl e \<Rightarrow> Inl e
      | Inr buf \<Rightarrow>
     (case mm_read buf 0 (length share) of Inl e \<Rightarrow> Inl e
      | Inr copy \<Rightarrow>
     (case add_region (hw_addr H) (length share) (wd_new True) of
        (Inl e, _) \<Rightarrow> Inl e
      | (Inr _, w) \<Rightarrow> Inr (buf, hexdigest copy, w))))"

definition ready_json :: "nat \<Rightarrow> nat \<Rightarrow> json" where
  "ready_json pid port = JObj [(''ready'', JBool True), (''pid'', JInt (int pid)), (''port'', JInt (int port))]"

text \<open>\<open>main\<close> up to its loop: the process, and the line it prints.\<close>

definition holder_main :: "host \<Rightarrow> string \<Rightarrow> disk \<Rightarrow> (server \<times> string) res \<times> disk" where
  "holder_main H stdin d =
     (case read_config H stdin of Inl e \<Rightarrow> (Inl e, d)
      | Inr c \<Rightarrow>
     (case protect_share H (cf_share c) of Inl e \<Rightarrow> (Inl e, d)
      | Inr (buf, share_hex, w) \<Rightarrow>
     (case load_cert H (cf_cert c) (cf_key c) d of (Inl e, d) \<Rightarrow> (Inl e, d)
      | (Inr _, d) \<Rightarrow>
     (case hw_bind H (cf_host c) (cf_port c) of Inl e \<Rightarrow> (Inl e, d)
      | Inr port \<Rightarrow>
          (Inr (\<lparr>hs_token = cf_token c, hs_x = cf_x c, hs_buf = buf, hs_share_hex = share_hex, hs_watchdog = w,
             hs_port = port, hs_running = True\<rparr>, dumps (ready_json (hw_pid H) port) @ newline), d)))))"

text \<open>\<open>_on_term\<close>: the watching process is ended, then this one.\<close>

definition on_term :: "server \<Rightarrow> server" where
  "on_term s = s\<lparr>hs_watchdog := wd_stop (hs_watchdog s), hs_running := False\<rparr>"

text \<open>
  One connection. A token that is no string fails the comparison on the first line that gets there. Then the
  loop: \<open>accept\<close> makes the connection and the handshake, and ends the process when either fails.
\<close>

definition serve_one :: "server \<Rightarrow> bytes \<Rightarrow> bytes \<times> unit res" where
  "serve_one s input =
     (case hs_token s of
        JStr token \<Rightarrow> serve_bytes token (hs_x s) (hs_share_hex s) input
      | _ \<Rightarrow> ([], case map parse_request (read_lines input) of
            NotObject # _ \<Rightarrow> Inl AttributeError | Request _ _ # _ \<Rightarrow> Inl TypeError | _ \<Rightarrow> Inr ()))"

datatype accepted = AcceptFails | Accepted bytes

datatype server_end = Waiting | Returned | Raised pyerr

fun serve :: "server \<Rightarrow> accepted list \<Rightarrow> bytes list \<times> server_end" where
  "serve s [] = ([], Waiting)"
| "serve s (AcceptFails # cs) = ([], Returned)"
| "serve s (Accepted input # cs) =
     (case serve_one s input of
        (out, Inl e) \<Rightarrow> ([out], Raised e)
      | (out, Inr _) \<Rightarrow> (case serve s cs of (outs, e) \<Rightarrow> (out # outs, e)))"

section \<open>The client starts and ends the holders\<close>

definition config_json :: "string \<Rightarrow> string \<Rightarrow> string \<Rightarrow> string \<Rightarrow> share \<Rightarrow> json" where
  "config_json token cert key hst s =
     JObj [(''token'', JStr token), (''cert_pem'', JStr cert), (''key_pem'', JStr key), (''x'', JInt (int (fst s))),
           (''share_hex'', JStr (hexdigest (snd s))), (''host'', JStr hst), (''port'', JInt 0)]"

text \<open>What \<open>__init__\<close> makes of the line it reads; nothing was printed if the process ended before.\<close>

definition read_ready :: "string \<Rightarrow> json res" where
  "read_ready line =
     (case loads line of None \<Rightarrow> Inl ValueError
      | Some (JObj kvs) \<Rightarrow>
          (case dict_get kvs ''ready'' of
             Some r \<Rightarrow> if truthy r then of_option KeyError (dict_get kvs ''port'') else Inl RuntimeError
           | None \<Rightarrow> Inl RuntimeError)
      | Some _ \<Rightarrow> Inl AttributeError)"

text \<open>
  One turn of the loop over the shares: the answer of the client, the process if it runs, the disk of its host.
\<close>

definition spawn :: "host \<Rightarrow> string \<Rightarrow> string \<Rightarrow> string \<Rightarrow> string \<Rightarrow> share \<Rightarrow> disk \<Rightarrow>
    json res \<times> server list \<times> disk" where
  "spawn H token cert key hst s d =
     (case holder_main H (dumps (config_json token cert key hst s) @ newline) d of
        (Inl _, d) \<Rightarrow> (read_ready [], [], d)
      | (Inr (srv, line), d) \<Rightarrow>
          (case read_ready line of Inl e \<Rightarrow> (Inl e, [srv], d)
           | Inr port \<Rightarrow> (if hw_connects H then Inr port else Inl OSError, [srv], d)))"

text \<open>The loop: the ports or the exception it ends with, the processes running then, the disk.\<close>

fun spawn_all :: "(nat \<Rightarrow> host) \<Rightarrow> string \<Rightarrow> string \<Rightarrow> string \<Rightarrow> string \<Rightarrow> share list \<Rightarrow> disk \<Rightarrow>
    json list res \<times> server list \<times> disk" where
  "spawn_all H token cert key hst [] d = (Inr [], [], d)"
| "spawn_all H token cert key hst (s # ss) d =
     (case spawn (H (fst s)) token cert key hst s d of
        (Inl e, srvs, d) \<Rightarrow> (Inl e, srvs, d)
      | (Inr port, srvs, d) \<Rightarrow>
          (case spawn_all H token cert key hst ss d of
             (Inl e, srvs', d) \<Rightarrow> (Inl e, srvs @ srvs', d)
           | (Inr ports, srvs', d) \<Rightarrow> (Inr (port # ports), srvs @ srvs', d)))"

definition start_network :: "(nat \<Rightarrow> host) \<Rightarrow> (nat \<Rightarrow> nat \<Rightarrow> byte) \<Rightarrow> bytes \<Rightarrow> string \<Rightarrow> string \<Rightarrow> string \<Rightarrow> string \<Rightarrow>
    nat \<Rightarrow> nat \<Rightarrow> disk \<Rightarrow> json list res \<times> server list \<times> disk" where
  "start_network H rnd root_secret token cert key hst k n d =
     (case split_secret rnd root_secret k n of Inl e \<Rightarrow> (Inl e, [], d)
      | Inr shares \<Rightarrow> spawn_all H token cert key hst shares d)"

text \<open>\<open>stop\<close>: \<open>terminate\<close> sends each process a \<open>SIGTERM\<close>.\<close>

definition stop_network :: "server list \<Rightarrow> server list" where
  "stop_network srvs = map on_term srvs"

section \<open>A holder that starts\<close>

lemma first_line_printed: "plain j \<Longrightarrow> first_line (dumps j @ newline) = dumps j @ newline"
proof -
  assume "plain j"
  then have "list_all (\<lambda>c. c \<noteq> char_of (10 :: nat)) (dumps j)"
    using printable_dumps [of j] by (auto simp: printable_def list_all_iff)
  then show ?thesis by (simp add: first_line_def newline_def takeWhile_append list_all_iff)
qed

lemma loads_line: "plain j \<Longrightarrow> loads (dumps j @ newline) = Some j"
  by (rule send_line(4))

definition config_of :: "string \<Rightarrow> string \<Rightarrow> string \<Rightarrow> string \<Rightarrow> share \<Rightarrow> config" where
  "config_of token cert key hst s =
     \<lparr>cf_token = JStr token, cf_cert = JStr cert, cf_key = JStr key, cf_x = int (fst s), cf_share = snd s,
      cf_host = JStr hst, cf_port = 0\<rparr>"

lemma read_printed_config:
  "read_config H (dumps (config_json token cert key hst s) @ newline) = Inr (config_of token cert key hst s)"
proof -
  have p: "plain (config_json token cert key hst s)" by (simp add: config_json_def)
  show ?thesis
    unfolding read_config_def first_line_printed [OF p] loads_line [OF p] option.case
    by (simp add: config_json_def getitem_def dict_get_def of_option_def py_int_def from_hex_def fromhex_hexdigest config_of_def)
qed

lemma read_printed_ready: "read_ready (dumps (ready_json pid port) @ newline) = Inr (JInt (int port))"
proof -
  have p: "plain (ready_json pid port)" by (simp add: ready_json_def)
  show ?thesis
    unfolding read_ready_def loads_line [OF p] option.case
    by (simp add: ready_json_def dict_get_def truthy_def of_option_def)
qed

lemma read_no_line: "read_ready [] = Inl ValueError"
  by (simp add: read_ready_def loads_def skip_ws_def)

text \<open>The names the process is about to use on its disk are free.\<close>

definition fresh_dir :: "string \<Rightarrow> disk \<Rightarrow> bool" where
  "fresh_dir t d \<longleftrightarrow> cert_path t \<notin> fst ` set (dk_files d) \<and> key_path t \<notin> fst ` set (dk_files d)"

lemma dict_del_new: "k \<notin> fst ` set d \<Longrightarrow> dict_del k (d @ [(k, v)]) = d"
  by (induction d) (auto simp: dict_del_def AList.delete_eq)

lemma cert_key_paths: "cert_path t \<noteq> key_path t"
  by (simp add: cert_path_def key_path_def)

lemma write_cert_files_new:
  assumes "fresh_dir t d"
  shows "write_cert_files t (JStr cert) (JStr key) d =
    (Inr (), \<lparr>dk_dirs = t # dk_dirs d, dk_files = dk_files d @ [(cert_path t, cert), (key_path t, key)]\<rparr>)"
proof -
  have "dict_get (dk_files d) (cert_path t) = None" "dict_get (dk_files d) (key_path t) = None"
    using assms by (simp_all add: fresh_dir_def dict_get_def map_of_eq_None_iff)
  moreover have "key_path t \<notin> fst ` set (dk_files d @ [(cert_path t, cert)])"
    using assms cert_key_paths [of t] by (auto simp: fresh_dir_def)
  note dict_set_new [OF this, of key]
  ultimately show ?thesis
    using assms cert_key_paths [of t]
    by (simp add: write_cert_files_def write_pem_def fresh_dir_def dict_set_new) (simp add: dict_get_def map_add_def)
qed

lemma load_cert_new:
  assumes "fresh_dir (hw_tmpdir H) d"
  shows "load_cert H (JStr cert) (JStr key) d =
    (case hw_load_cert H cert key of
       Inr _ \<Rightarrow> (Inr (), d)
     | Inl e \<Rightarrow> (Inl e, \<lparr>dk_dirs = hw_tmpdir H # dk_dirs d,
         dk_files = dk_files d @ [(cert_path (hw_tmpdir H), cert), (key_path (hw_tmpdir H), key)]\<rparr>))"
proof -
  let ?t = "hw_tmpdir H"
  let ?f = "dk_files d @ [(cert_path ?t, cert), (key_path ?t, key)]"
  have f: "cert_path ?t \<notin> fst ` set (dk_files d)" "key_path ?t \<notin> fst ` set (dk_files d)"
    using assms by (simp_all add: fresh_dir_def)
  have "dict_get ?f (cert_path ?t) = Some cert" "dict_get ?f (key_path ?t) = Some key"
    using f [folded map_of_eq_None_iff] cert_key_paths [of ?t] by (simp_all add: dict_get_def map_add_def)
  moreover have "dict_del (key_path ?t) (dict_del (cert_path ?t) ?f) = dk_files d"
  proof -
    have "dict_del (cert_path ?t) ?f = dk_files d @ [(key_path ?t, key)]"
      using dict_del_new [OF f(1), of cert] cert_key_paths [of ?t] by (simp add: dict_del_def AList.delete_eq)
    then show ?thesis by (simp add: dict_del_new [OF f(2)])
  qed
  ultimately show ?thesis
    using f by (simp add: load_cert_def write_cert_files_new [OF assms] remove_cert_files_def split: sum.split)
qed

definition started :: "host \<Rightarrow> string \<Rightarrow> share \<Rightarrow> nat \<Rightarrow> server" where
  "started H token s port =
     \<lparr>hs_token = JStr token, hs_x = int (fst s), hs_buf = Some (snd s @ zeros (hw_page H - length (snd s))),
      hs_share_hex = hexdigest (snd s), hs_watchdog = snd (add_region (hw_addr H) (length (snd s)) (wd_new True)),
      hs_port = port, hs_running = True\<rparr>"

lemma protect_share_cases:
  "protect_share H share =
     (if length share \<le> hw_page H
      then Inr (Some (share @ zeros (hw_page H - length share)), hexdigest share,
             snd (add_region (hw_addr H) (length share) (wd_new True)))
      else Inl IndexError)"
proof (cases "length share \<le> hw_page H")
  case True
  have "fst (add_region (hw_addr H) (length share) (wd_new True)) = Inr ()"
    using add_regions_ok [OF wd_new_ok [of True], of "[(hw_addr H, length share)]"]
    by (simp add: add_region_def wd_new_def MAX_REGIONS_def)
  then obtain w where "add_region (hw_addr H) (length share) (wd_new True) = (Inr (), w)" by (metis prod.collapse)
  then show ?thesis using True
    by (simp add: protect_share_def mm_new_def mm_write_Some slice_assign_def zeros_def py_slice_def)
next
  case False
  then show ?thesis by (simp add: protect_share_def mm_new_def mm_write_def length_py_slice zeros_def)
qed

text \<open>The three things that can keep a holder with a printed configuration from starting.\<close>

lemma holder_main_printed:
  assumes "fresh_dir (hw_tmpdir H) d"
  shows "holder_main H (dumps (config_json token cert key hst s) @ newline) d =
    (if hw_page H < length (snd s) then (Inl IndexError, d)
     else (case hw_load_cert H cert key of
         Inl e \<Rightarrow> (Inl e, \<lparr>dk_dirs = hw_tmpdir H # dk_dirs d,
           dk_files = dk_files d @ [(cert_path (hw_tmpdir H), cert), (key_path (hw_tmpdir H), key)]\<rparr>)
       | Inr _ \<Rightarrow> (case hw_bind H (JStr hst) 0 of
           Inl e \<Rightarrow> (Inl e, d)
         | Inr port \<Rightarrow> (Inr (started H token s port, dumps (ready_json (hw_pid H) port) @ newline), d))))"
  by (simp add: holder_main_def read_printed_config config_of_def protect_share_cases load_cert_new [OF assms] started_def
      split: sum.split)

definition host_ok :: "string \<Rightarrow> string \<Rightarrow> string \<Rightarrow> nat \<Rightarrow> disk \<Rightarrow> host \<Rightarrow> bool" where
  "host_ok cert key hst len d H \<longleftrightarrow>
     len \<le> hw_page H \<and> hw_load_cert H cert key = Inr () \<and> (\<exists>p. hw_bind H (JStr hst) 0 = Inr p) \<and> hw_connects H \<and>
     fresh_dir (hw_tmpdir H) d"

definition bound :: "host \<Rightarrow> string \<Rightarrow> nat" where
  "bound H hst = (case hw_bind H (JStr hst) 0 of Inr p \<Rightarrow> p | Inl _ \<Rightarrow> 0)"

lemma spawn_ok:
  assumes "host_ok cert key hst (length (snd s)) d H"
  shows "spawn H token cert key hst s d = (Inr (JInt (int (bound H hst))), [started H token s (bound H hst)], d)"
  using assms by (auto simp: host_ok_def spawn_def holder_main_printed read_printed_ready bound_def)

lemma spawn_fails:
  assumes "fresh_dir (hw_tmpdir H) d"
    and "hw_page H < length (snd s) \<or> hw_load_cert H cert key \<noteq> Inr () \<or> (\<exists>e. hw_bind H (JStr hst) 0 = Inl e)"
  shows "\<exists>d'. spawn H token cert key hst s d = (Inl ValueError, [], d') \<and>
    (length (snd s) \<le> hw_page H \<and> hw_load_cert H cert key \<noteq> Inr () \<longrightarrow>
       dict_get (dk_files d') (key_path (hw_tmpdir H)) = Some key)"
proof -
  have "key_path (hw_tmpdir H) \<notin> fst ` set (dk_files d)" using assms(1) by (simp add: fresh_dir_def)
  then show ?thesis
    using assms(2) cert_key_paths [of "hw_tmpdir H"]
    by (auto simp: spawn_def holder_main_printed [OF assms(1)] read_no_line dict_get_def map_add_def
        map_of_eq_None_iff [symmetric] split: sum.split)
qed

lemma spawn_all_ok:
  "(\<And>s. s \<in> set ss \<Longrightarrow> host_ok cert key hst (length (snd s)) d (H (fst s))) \<Longrightarrow>
     spawn_all H token cert key hst (ss @ rest) d =
       (let srvs = map (\<lambda>s. started (H (fst s)) token s (bound (H (fst s)) hst)) ss;
            ports = map (\<lambda>s. JInt (int (bound (H (fst s)) hst))) ss
        in case spawn_all H token cert key hst rest d of
             (Inl e, srvs', d) \<Rightarrow> (Inl e, srvs @ srvs', d)
           | (Inr ports', srvs', d) \<Rightarrow> (Inr (ports @ ports'), srvs @ srvs', d))"
proof (induction ss)
  case Nil
  then show ?case by (auto split: prod.split sum.split)
next
  case (Cons s ss)
  then show ?case
    using spawn_ok [of cert key hst s d "H (fst s)" token] by (auto simp: Let_def split: prod.split sum.split)
qed

lemma started_watchdog:
  "wd_count (hs_watchdog (started H token s port)) = 1"
  "table_region (hs_watchdog (started H token s port)) 0 = (hw_addr H mod 2 ^ 64, length (snd s) mod 2 ^ 64)"
  "wd_kill_target (hs_watchdog (started H token s port))" "wd_running (hs_watchdog (started H token s port))"
proof -
  let ?r = "[(hw_addr H, length (snd s))]"
  have c: "wd_count (wd_new True) = 0" "Suc 0 \<le> MAX_REGIONS" by (simp_all add: wd_new_def MAX_REGIONS_def)
  note ok = add_regions_ok [OF wd_new_ok [of True], of ?r]
  show "wd_count (hs_watchdog (started H token s port)) = 1"
    "table_region (hs_watchdog (started H token s port)) 0 = (hw_addr H mod 2 ^ 64, length (snd s) mod 2 ^ 64)"
    using ok c by (simp_all add: started_def add_region_def)
  show "wd_kill_target (hs_watchdog (started H token s port))" "wd_running (hs_watchdog (started H token s port))"
    by (simp_all add: started_def add_region_def add_regions_def wd_new_def Let_def split: prod.split sum.split)
qed

section \<open>Properties\<close>

text \<open>A server as the trust group sees it.\<close>

definition holder_view :: "server \<Rightarrow> nholder" where
  "holder_view s =
     \<lparr>nh_token = (case hs_token s of JStr t \<Rightarrow> t | _ \<Rightarrow> []), nh_x = nat (hs_x s), nh_share_hex = hs_share_hex s,
      nh_connected = hs_running s\<rparr>"

text \<open>
  Property C14. Starting the network of holders builds the group that the trust group is proved correct with: if every
  host lets its holder start, then the constructor returns, the processes that read their printed configuration are
  exactly the holders of the abstract group, each with its own share, every share lies in its buffer
  and is the one region that process's watchdog guards, no file of the certificate is left on the disk, and stopping
  them ends every process and every watchdog.
\<close>

theorem network_starts_holders:
  assumes "1 \<le> k" "k \<le> n" "n \<le> 255" "\<And>i. host_ok cert key hst (length secret) d (H i)"
  shows "\<exists>ports srvs net. start_network H rnd secret token cert key hst k n d = (Inr ports, srvs, d) \<and>
    length ports = n \<and> ng_init rnd secret token k n kt = Inr net \<and>
    map holder_view srvs = gp_holders (ng_group net) \<and>
    list_all (\<lambda>s. \<exists>share. share \<in> set (shares_of rnd secret k n) \<and> hs_x s = int (fst share) \<and>
      mm_read (hs_buf s) 0 (length secret) = Inr (snd share) \<and> wd_count (hs_watchdog s) = 1 \<and>
      table_region (hs_watchdog s) 0 = (hw_addr (H (fst share)) mod 2 ^ 64, length secret mod 2 ^ 64) \<and>
      wd_kill_target (hs_watchdog s) \<and> wd_running (hs_watchdog s)) srvs \<and>
    list_all (\<lambda>s. \<not> hs_running s \<and> \<not> wd_running (hs_watchdog s)) (stop_network srvs)"
proof -
  let ?ss = "shares_of rnd secret k n"
  let ?srvs = "map (\<lambda>s. started (H (fst s)) token s (bound (H (fst s)) hst)) ?ss"
  let ?ports = "map (\<lambda>s. JInt (int (bound (H (fst s)) hst))) ?ss"
  let ?net = "\<lparr>ng_token = token, ng_group = group_of k n kt
    (map (\<lambda>(x, y). \<lparr>nh_token = token, nh_x = x, nh_share_hex = hexdigest y, nh_connected = True\<rparr>) ?ss)\<rparr>"
  note split = split_secret_ok [OF assms(1-3)]
  have len: "length (snd s) = length secret" if "s \<in> set ?ss" for s using shares_of_mem(4) [OF that assms(3)] .
  have "start_network H rnd secret token cert key hst k n d = (Inr ?ports, ?srvs, d)"
    using spawn_all_ok [of ?ss cert key hst d H token "[]"] assms(4) len
    by (simp add: start_network_def split)
  moreover have "ng_init rnd secret token k n kt = Inr ?net" by (simp add: ng_init_def split)
  moreover have "map holder_view ?srvs = gp_holders (ng_group ?net)"
    by (simp add: group_of_def holder_view_def started_def split_def)
  moreover have "mm_read (hs_buf (started (H (fst s)) token s p)) 0 (length secret) = Inr (snd s)" if "s \<in> set ?ss" for s p
    using len [OF that] by (simp add: started_def py_slice_def)
  then have "list_all (\<lambda>s. \<exists>share. share \<in> set ?ss \<and> hs_x s = int (fst share) \<and>
      mm_read (hs_buf s) 0 (length secret) = Inr (snd share) \<and> wd_count (hs_watchdog s) = 1 \<and>
      table_region (hs_watchdog s) 0 = (hw_addr (H (fst share)) mod 2 ^ 64, length secret mod 2 ^ 64) \<and>
      wd_kill_target (hs_watchdog s) \<and> wd_running (hs_watchdog s)) ?srvs"
    using len by (auto simp: list_all_iff started_watchdog intro!: exI) (simp_all add: started_def)
  moreover have "list_all (\<lambda>s. \<not> hs_running s \<and> \<not> wd_running (hs_watchdog s)) (stop_network ?srvs)"
    by (simp add: stop_network_def on_term_def wd_stop_def list_all_iff)
  moreover have "length ?ports = n" by (simp add: length_shares)
  ultimately show ?thesis by blast
qed

definition demo_host :: host where
  "demo_host = \<lparr>hw_page = 4096, hw_addr = 65536, hw_pid = 7, hw_tmpdir = ''/tmp/h'', hw_load_cert = (\<lambda>c k. Inr ()),
     hw_bind = (\<lambda>h p. Inr 4711), hw_connects = True, hw_trunc = (\<lambda>t. Inl ValueError)\<rparr>"

lemma demo_host_ok: "len \<le> 4096 \<Longrightarrow> host_ok cert key hst len \<lparr>dk_dirs = [], dk_files = []\<rparr> demo_host"
  by (simp add: host_ok_def demo_host_def fresh_dir_def)

theorem network_starts_holders_witness:
  "\<exists>ports srvs. start_network (\<lambda>_. demo_host) (\<lambda>_ _. 9) [4, 2] ''5e'' ''c'' ''k'' ''127.0.0.1'' 2 3 \<lparr>dk_dirs = [], dk_files = []\<rparr> =
      (Inr ports, srvs, \<lparr>dk_dirs = [], dk_files = []\<rparr>) \<and> length ports = 3"
proof -
  have "\<And>i. host_ok ''c'' ''k'' ''127.0.0.1'' (length [4, 2 :: byte]) \<lparr>dk_dirs = [], dk_files = []\<rparr> demo_host"
    by (rule demo_host_ok) simp
  from network_starts_holders [OF _ _ _ this, of 2 3 "\<lambda>_ _. 9" "''5e''"] show ?thesis by simp blast
qed

text \<open>
  What a holder that does not start leaves behind: if the first holders start and the next does not,
  because its share does not fit a page, its certificate is refused or its address cannot be bound, then the
  constructor raises the \<open>ValueError\<close> of parsing an empty line, never its own \<open>RuntimeError\<close>; the
  holders started before keep running with nobody to stop them; and if it was the certificate, the private
  key stays on the disk.
\<close>

theorem failed_start_leaves_holders:
  assumes "1 \<le> k" "k \<le> n" "n \<le> 255" "j < n"
    and "\<And>i. 1 \<le> i \<Longrightarrow> i \<le> j \<Longrightarrow> host_ok cert key hst (length secret) d (H i)"
    and "fresh_dir (hw_tmpdir (H (Suc j))) d"
    and "hw_page (H (Suc j)) < length secret \<or> hw_load_cert (H (Suc j)) cert key \<noteq> Inr () \<or>
      (\<exists>e. hw_bind (H (Suc j)) (JStr hst) 0 = Inl e)"
  shows "\<exists>srvs d'. start_network H rnd secret token cert key hst k n d = (Inl ValueError, srvs, d') \<and>
    length srvs = j \<and> list_all hs_running srvs \<and>
    (length secret \<le> hw_page (H (Suc j)) \<and> hw_load_cert (H (Suc j)) cert key \<noteq> Inr () \<longrightarrow>
       dict_get (dk_files d') (key_path (hw_tmpdir (H (Suc j)))) = Some key)"
proof -
  let ?ss = "shares_of rnd secret k n"
  have cut: "?ss = take j ?ss @ ?ss ! j # drop (Suc j) ?ss" using assms(4) by (simp add: id_take_nth_drop length_shares)
  have fst: "fst (?ss ! i) = Suc i" if "i < n" for i using that by (simp add: shares_of_def)
  have len: "length (snd s) = length secret" if "s \<in> set ?ss" for s using shares_of_mem(4) [OF that assms(3)] .
  have j: "length (snd (?ss ! j)) = length secret" "fst (?ss ! j) = Suc j"
    using len [of "?ss ! j"] fst [of j] assms(4) by (simp_all add: length_shares)
  have ok: "host_ok cert key hst (length (snd s)) d (H (fst s))" if "s \<in> set (take j ?ss)" for s
  proof -
    obtain i where "i < j" "s = ?ss ! i" using \<open>s \<in> set (take j ?ss)\<close> assms(4) by (auto simp: in_set_conv_nth)
    then show ?thesis using assms(4,5) fst [of i] len [of s] by (simp add: length_shares)
  qed
  obtain d' where d': "spawn (H (Suc j)) token cert key hst (?ss ! j) d = (Inl ValueError, [], d')"
    "length secret \<le> hw_page (H (Suc j)) \<and> hw_load_cert (H (Suc j)) cert key \<noteq> Inr () \<longrightarrow>
       dict_get (dk_files d') (key_path (hw_tmpdir (H (Suc j)))) = Some key"
    using spawn_fails [OF assms(6), of "?ss ! j" cert key hst token] assms(7) j by auto
  let ?srvs = "map (\<lambda>s. started (H (fst s)) token s (bound (H (fst s)) hst)) (take j ?ss)"
  have "spawn_all H token cert key hst (take j ?ss @ ?ss ! j # drop (Suc j) ?ss) d = (Inl ValueError, ?srvs, d')"
    using spawn_all_ok [of "take j ?ss" cert key hst d H token "?ss ! j # drop (Suc j) ?ss", OF ok] d'(1) j
    by simp
  then have "start_network H rnd secret token cert key hst k n d = (Inl ValueError, ?srvs, d')"
    using cut split_secret_ok [OF assms(1-3)] by (simp add: start_network_def)
  then show ?thesis
    using d'(2) assms(4) by (intro exI [of _ ?srvs] exI [of _ d']) (auto simp: length_shares list_all_iff started_def)
qed

theorem failed_start_leaves_holders_witness:
  "\<exists>srvs d'. start_network (\<lambda>i. if i = 3 then demo_host\<lparr>hw_load_cert := \<lambda>c k. Inl OSError\<rparr> else demo_host) (\<lambda>_ _. 9)
      [4, 2] ''5e'' ''c'' ''k'' ''127.0.0.1'' 2 3 \<lparr>dk_dirs = [], dk_files = []\<rparr> = (Inl ValueError, srvs, d') \<and>
    length srvs = 2 \<and> dict_get (dk_files d') ''/tmp/h/key.pem'' = Some ''k''"
proof -
  let ?H = "\<lambda>i. if i = (3 :: nat) then demo_host\<lparr>hw_load_cert := \<lambda>c k. Inl OSError\<rparr> else demo_host"
  have "\<exists>srvs d'. start_network ?H (\<lambda>_ _. 9) [4, 2] ''5e'' ''c'' ''k'' ''127.0.0.1'' 2 3 \<lparr>dk_dirs = [], dk_files = []\<rparr> =
        (Inl ValueError, srvs, d') \<and> length srvs = 2 \<and> list_all hs_running srvs \<and>
      (length [4, 2 :: byte] \<le> hw_page (?H (Suc 2)) \<and> hw_load_cert (?H (Suc 2)) ''c'' ''k'' \<noteq> Inr () \<longrightarrow>
         dict_get (dk_files d') (key_path (hw_tmpdir (?H (Suc 2)))) = Some ''k'')"
    by (rule failed_start_leaves_holders) (simp_all add: demo_host_ok, simp_all add: fresh_dir_def demo_host_def)
  then show ?thesis by (simp add: demo_host_def key_path_def) blast
qed

definition answers :: "string \<Rightarrow> request_line \<Rightarrow> bool" where
  "answers token q \<longleftrightarrow> (\<exists>op. q = Request token op \<and> op \<in> {''get_share'', ''ping''})"

definition deadly :: "string \<Rightarrow> bytes \<Rightarrow> bool" where
  "deadly token input =
     (case dropWhile (answers token) (map parse_request (read_lines input)) of
        NotObject # _ \<Rightarrow> True | Request t _ # _ \<Rightarrow> \<not> ascii t | _ \<Rightarrow> False)"

lemma connection_end:
  assumes "ascii token"
  shows "(\<exists>e. snd (handle_connection token x share_hex qs) = Inl e) \<longleftrightarrow>
    (case dropWhile (answers token) qs of NotObject # _ \<Rightarrow> True | Request t _ # _ \<Rightarrow> \<not> ascii t | _ \<Rightarrow> False)"
proof (induction qs)
  case (Cons q qs)
  then show ?case
    using assms by (cases q) (auto simp: answers_def server_reply_def compare_digest_def split: prod.split)
qed simp

lemma serve_one_end: "hs_token s = JStr token \<Longrightarrow> ascii token \<Longrightarrow> (\<exists>e. snd (serve_one s input) = Inl e) \<longleftrightarrow> deadly token input"
  using connection_end [of token "hs_x s" "hs_share_hex s" "map parse_request (read_lines input)"]
  by (simp add: serve_one_def serve_bytes_def deadly_def split_def Let_def)

lemma serve_one_silent:
  assumes "hs_token s = JStr token" "ascii token" "\<And>op. Request token op \<notin> set (map parse_request (read_lines input))"
  shows "fst (serve_one s input) = []"
proof -
  have "takeWhile (\<lambda>q. \<exists>op. q = Request token op \<and> op \<in> {''get_share'', ''ping''}) (map parse_request (read_lines input)) = []"
  proof (cases "map parse_request (read_lines input)")
    case (Cons q qs)
    then have "\<nexists>op. q = Request token op" using assms(3) by (metis list.set_intros(1))
    then show ?thesis using Cons by auto
  qed simp
  then show ?thesis
    using assms(1) served_replies [OF assms(2), of "hs_x s" "hs_share_hex s" "map parse_request (read_lines input)"]
    by (simp add: serve_one_def serve_bytes_def split_def Let_def)
qed



end
