(* ===== verification/CellPool.thy ===== *)
theory CellPool
  imports Scheduler
begin

text \<open>
  \<open>_GlobalCellScheduler\<close> of \<open>vstorage/split_key_guard.py\<close> at work on the guards of a process: guards are made,
  updated and collapsed while the workers take due cells from the heap, bounce them under the guard's lock and put
  them back. \<open>Scheduler\<close> has the heap and the locked sections; here they act on the real guards.
\<close>

text \<open>An item of the heap is a guard's number and a cell's index; \<open>cp_keys\<close> records the key each guard was last given.\<close>

record cellpool =
  cp_sched :: "(nat \<times> nat) sched"
  cp_workers :: "(nat \<times> nat) worker list"
  cp_guards :: "guard list"
  cp_keys :: "bytes list"

definition cp_init :: "nat \<Rightarrow> cellpool" where
  "cp_init worker_count =
     \<lparr>cp_sched = sc_init worker_count, cp_workers = replicate worker_count W_Idle, cp_guards = [], cp_keys = []\<rparr>"

text \<open>\<open>SplitKeyGuard(key)\<close>, which registers all its cells at once.\<close>

definition cp_new_guard :: "env \<Rightarrow> (nat \<Rightarrow> nat) \<Rightarrow> time \<Rightarrow> time \<Rightarrow> bytes \<Rightarrow> time \<Rightarrow> (nat \<Rightarrow> time) \<Rightarrow> cellpool \<Rightarrow> cellpool" where
  "cp_new_guard E addrs lo hi key now uniform s =
     (let g = guard_new E addrs lo hi key
      in s\<lparr>cp_sched := cell_register now uniform (length (cp_guards s)) (length (g_cells g)) (cp_sched s),
           cp_guards := cp_guards s @ [g], cp_keys := cp_keys s @ [key]\<rparr>)"

text \<open>\<open>update(key)\<close>: only a call that returns true gives the guard another key.\<close>

definition cp_update_guard :: "env \<Rightarrow> nat \<Rightarrow> bytes \<Rightarrow> cellpool \<Rightarrow> bool res \<times> cellpool" where
  "cp_update_guard E g key s =
     (let (r, g') = guard_update E key (cp_guards s ! g)
      in (r, s\<lparr>cp_guards := (cp_guards s)[g := g'],
               cp_keys := (if r = Inr True then (cp_keys s)[g := key] else cp_keys s)\<rparr>))"

text \<open>The two halves of \<open>collapse\<close>: the flag under the lock, then the pages one cell after the other.\<close>

definition cp_mark_removed :: "nat \<Rightarrow> cellpool \<Rightarrow> cellpool" where
  "cp_mark_removed g s = s\<lparr>cp_guards := (cp_guards s)[g := (cp_guards s ! g)\<lparr>g_removed := True\<rparr>]\<rparr>"

definition cp_close_cell :: "nat \<Rightarrow> nat \<Rightarrow> cellpool \<Rightarrow> cellpool" where
  "cp_close_cell g idx s =
     (let x = cp_guards s ! g
      in s\<lparr>cp_guards := (cp_guards s)[g := x\<lparr>g_cells := (g_cells x)[idx := cell_collapse (g_cells x ! idx)]\<rparr>]\<rparr>)"

text \<open>The workers' loop \<open>_run\<close>: take what is due, serve it, put it back if it is due again.\<close>

inductive cp_step :: "env \<Rightarrow> cellpool \<Rightarrow> cellpool \<Rightarrow> bool" for E where
  new_guard: "cp_step E s (cp_new_guard E addrs lo hi key now uniform s)"
| update_guard: "g < length (cp_guards s) \<Longrightarrow> cp_step E s (snd (cp_update_guard E g key s))"
| mark_removed: "g < length (cp_guards s) \<Longrightarrow> cp_step E s (cp_mark_removed g s)"
| close_cell: "g < length (cp_guards s) \<Longrightarrow> g_removed (cp_guards s ! g) \<Longrightarrow> cp_step E s (cp_close_cell g idx s)"
| take_cell: "k < length (cp_workers s) \<Longrightarrow> cp_workers s ! k = W_Idle \<Longrightarrow> sc_take now (cp_sched s) = Some (i, c) \<Longrightarrow>
     cp_step E s (s\<lparr>cp_sched := c, cp_workers := (cp_workers s)[k := W_Popped i]\<rparr>)"
| serve_cell: "k < length (cp_workers s) \<Longrightarrow> cp_workers s ! k = W_Popped (g, idx) \<Longrightarrow>
     cell_serve now uniform idx (cp_guards s ! g) = (Some due, g') \<Longrightarrow>
     cp_step E s (s\<lparr>cp_workers := (cp_workers s)[k := W_Rearm due (g, idx)], cp_guards := (cp_guards s)[g := g']\<rparr>)"
| drop_cell: "k < length (cp_workers s) \<Longrightarrow> cp_workers s ! k = W_Popped (g, idx) \<Longrightarrow>
     cell_serve now uniform idx (cp_guards s ! g) = (None, g') \<Longrightarrow>
     cp_step E s (s\<lparr>cp_workers := (cp_workers s)[k := W_Idle], cp_guards := (cp_guards s)[g := g']\<rparr>)"
| rearm_cell: "k < length (cp_workers s) \<Longrightarrow> cp_workers s ! k = W_Rearm due i \<Longrightarrow>
     cp_step E s (s\<lparr>cp_workers := (cp_workers s)[k := W_Idle], cp_sched := sc_push due i (cp_sched s)\<rparr>)"

inductive_cases cp_stepE: "cp_step E s t"

inductive cp_reach :: "env \<Rightarrow> nat \<Rightarrow> cellpool \<Rightarrow> bool" for E n where
  cp_start: "cp_reach E n (cp_init n)"
| cp_next: "cp_reach E n s \<Longrightarrow> cp_step E s t \<Longrightarrow> cp_reach E n t"

section \<open>Where the cells are\<close>

definition cp_places :: "cellpool \<Rightarrow> (nat \<times> nat) multiset" where
  "cp_places s = mset (map entry_item (sc_heap (cp_sched s))) + mset (concat (map in_hand (cp_workers s)))"

definition live_ok :: "env \<Rightarrow> (nat \<times> nat) multiset \<Rightarrow> nat \<Rightarrow> guard \<Rightarrow> bytes \<Rightarrow> bool" where
  "live_ok E P g x key \<longleftrightarrow>
     (\<not> g_removed x \<longrightarrow> guard_ok x \<and> guard_bytes x = lzma_compress E 9 key \<and> (\<forall>idx. count P (g, idx) = (if idx < length (g_cells x) then 1 else 0)))"

definition cp_inv :: "env \<Rightarrow> cellpool \<Rightarrow> bool" where
  "cp_inv E s \<longleftrightarrow>
     length (cp_keys s) = length (cp_guards s) \<and> (\<forall>p \<in># cp_places s. fst p < length (cp_guards s)) \<and>
     (\<forall>g < length (cp_guards s). live_ok E (cp_places s) g (cp_guards s ! g) (cp_keys s ! g))"

lemma sc_push_places:
  "image_mset entry_item (mset (sc_heap (sc_push due i s))) = add_mset i (image_mset entry_item (mset (sc_heap s)))"
  by (simp add: sc_push_def insort_mset entry_item_def)

lemma cell_register_places:
  "image_mset entry_item (mset (sc_heap (cell_register now uniform g n s))) =
     image_mset entry_item (mset (sc_heap s)) + image_mset (Pair g) (mset_set {0..<n})"
proof -
  have "image_mset entry_item (mset (sc_heap (fold (\<lambda>idx. sc_push (now + uniform idx) (g, idx)) is s))) =
      image_mset entry_item (mset (sc_heap s)) + image_mset (Pair g) (mset is)" for "is" s
    by (induction "is" arbitrary: s) (simp_all add: sc_push_places)
  from this [of "[0..<n]"] show ?thesis by (simp add: cell_register_def)
qed

lemma worker_places:
  "k < length ws \<Longrightarrow> in_hand (ws ! k) = in_hand w \<Longrightarrow> mset (concat (map in_hand (ws[k := w]))) = mset (concat (map in_hand ws))"
  "k < length ws \<Longrightarrow> in_hand (ws ! k) = [i] \<Longrightarrow>
     add_mset i (mset (concat (map in_hand (ws[k := W_Idle])))) = mset (concat (map in_hand ws))"
  "k < length ws \<Longrightarrow> in_hand (ws ! k) = [] \<Longrightarrow>
     mset (concat (map in_hand (ws[k := W_Popped i]))) = add_mset i (mset (concat (map in_hand ws)))"
  using in_hand_update [of k ws w] in_hand_update [of k ws W_Idle] in_hand_update [of k ws "W_Popped i"] by simp_all

lemma cp_inv_init: "cp_inv E (cp_init n)"
proof -
  have "concat (map in_hand (replicate n W_Idle)) = []" by (induction n) simp_all
  then show ?thesis by (simp add: cp_inv_def cp_init_def cp_places_def sc_init_def)
qed

text \<open>A step that only changes one guard, and one that only moves a cell.\<close>

lemma cp_inv_guard:
  assumes "cp_inv E s" "g < length (cp_guards s)" "cp_places t = cp_places s"
    and "cp_guards t = (cp_guards s)[g := x]" "cp_keys t = (cp_keys s)[g := key]"
    and "live_ok E (cp_places s) g (cp_guards s ! g) (cp_keys s ! g) \<Longrightarrow> live_ok E (cp_places s) g x key"
  shows "cp_inv E t"
  using assms by (auto simp: cp_inv_def nth_list_update)

lemma cp_inv_move:
  "cp_inv E s \<Longrightarrow> cp_places t = cp_places s \<Longrightarrow> cp_guards t = cp_guards s \<Longrightarrow> cp_keys t = cp_keys s \<Longrightarrow> cp_inv E t"
  by (simp add: cp_inv_def)

lemma cp_inv_new:
  assumes "cp_inv E s"
  shows "cp_inv E (cp_new_guard E addrs lo hi key now uniform s)"
proof -
  define x where "x = guard_new E addrs lo hi key"
  let ?n = "length (cp_guards s)" and ?t = "cp_new_guard E addrs lo hi key now uniform s"
  let ?P = "mset (map (Pair ?n) [0..<length (g_cells x)])"
  have P: "cp_places ?t = cp_places s + ?P"
    by (simp add: cp_places_def cp_new_guard_def Let_def cell_register_places x_def)
  have old: "count ?P (g, idx) = 0" if "g < ?n" for g idx using that by (auto simp: count_eq_zero_iff)
  have fresh: "count (cp_places s) (?n, idx) = 0" for idx using assms by (fastforce simp: cp_inv_def count_eq_zero_iff)
  have "distinct (map (Pair ?n) [0..<length (g_cells x)])" by (simp add: distinct_map inj_on_def)
  then have one: "count ?P (?n, idx) = (if idx < length (g_cells x) then 1 else 0)" for idx
    by (subst distinct_count_atmost_1 [THEN iffD1, rule_format]) (auto simp: image_iff)
  have x: "guard_ok x" "guard_bytes x = lzma_compress E 9 key"
    unfolding x_def by (rule guard_new_ok, rule guard_new_bytes)
  have "live_ok E (cp_places ?t) ?n x key"
    unfolding live_ok_def P count_union using x fresh one by simp
  moreover have "live_ok E (cp_places ?t) g (cp_guards s ! g) (cp_keys s ! g)" if "g < ?n" for g
    using assms that old [OF that] unfolding cp_inv_def live_ok_def P count_union by simp
  moreover have "cp_guards ?t = cp_guards s @ [x]" "cp_keys ?t = cp_keys s @ [key]"
    by (simp_all add: cp_new_guard_def Let_def x_def)
  ultimately show ?thesis
    using assms P by (auto simp: cp_inv_def nth_append less_Suc_eq)
qed

lemma guard_bounce_length: "length (g_cells (snd (guard_bounce i g))) = length (g_cells g)"
  by (simp add: guard_bounce_def split: sum.split)

lemma guard_bounce_removed: "g_removed (snd (guard_bounce i g)) = g_removed g"
  by (simp add: guard_bounce_def split: sum.split)

text \<open>What serving a cell does: a live guard stays as it is and wants the cell again; no guard changes when a cell is dropped.\<close>

lemma cell_serve_live:
  assumes "cell_serve now uniform idx x = (r, x')"
  shows "live_ok E P g x key \<Longrightarrow> live_ok E P g x' key"
    and "guard_ok x \<Longrightarrow> idx < length (g_cells x) \<Longrightarrow> r \<noteq> None"
  using assms guard_bounce_ok [of x idx] guard_bounce_length [of idx x] guard_bounce_removed [of idx x]
  by (auto simp: cell_serve_def live_ok_def split: prod.splits)

lemma guard_update_live:
  assumes "guard_update E key x = (r, x')" "live_ok E P g x old"
  shows "live_ok E P g x' (if r = Inr True then key else old)"
proof (cases "g_removed x")
  case True
  then have "g_removed x'" using assms(1) by (auto simp: guard_update_def Let_def split: if_splits prod.splits)
  then show ?thesis by (simp add: live_ok_def)
next
  case False
  have len: "length (g_cells x') = length (g_cells x)"
    using guard_update_ok [of x E key] False assms
    by (cases "length (lzma_compress E 9 key) = length (g_cells x)")
      (auto simp: live_ok_def guard_bytes_def dest: arg_cong [where f = length])
  then show ?thesis
    using guard_update_ok [of x E key] False assms
    by (cases "length (lzma_compress E 9 key) = length (g_cells x)") (auto simp: live_ok_def)
qed

lemma cp_step_inv: "cp_step E s t \<Longrightarrow> cp_inv E s \<Longrightarrow> cp_inv E t"
proof (induction rule: cp_step.induct)
  case (new_guard addrs lo hi key now uniform s)
  then show ?case by (rule cp_inv_new)
next
  case (update_guard g s key)
  obtain r x where u: "guard_update E key (cp_guards s ! g) = (r, x)" by fastforce
  show ?case
  proof (rule cp_inv_guard [OF update_guard(2,1), of _ x "if r = Inr True then key else cp_keys s ! g"])
    show "live_ok E (cp_places s) g (cp_guards s ! g) (cp_keys s ! g) \<Longrightarrow>
        live_ok E (cp_places s) g x (if r = Inr True then key else cp_keys s ! g)"
      using guard_update_live [OF u] by blast
  qed (simp_all add: cp_update_guard_def u cp_places_def)
next
  case (mark_removed g s)
  show ?case
    by (rule cp_inv_guard [OF mark_removed(2,1), where key = "cp_keys s ! g" and x = "(cp_guards s ! g)\<lparr>g_removed := True\<rparr>"])
      (simp_all add: cp_mark_removed_def cp_places_def live_ok_def)
next
  case (close_cell g s idx)
  show ?case
    by (rule cp_inv_guard [OF close_cell(3,1), where key = "cp_keys s ! g" and x = "cp_guards (cp_close_cell g idx s) ! g"])
      (simp_all add: cp_close_cell_def cp_places_def live_ok_def close_cell(1,2) Let_def)
next
  case (take_cell k s now i c)
  obtain e rest where "sc_heap (cp_sched s) = e # rest" "i = entry_item e" "c = (cp_sched s)\<lparr>sc_heap := rest\<rparr>"
    using sc_take_some [OF take_cell(3)] by blast
  then show ?case
    using take_cell worker_places(3) [of k "cp_workers s" i] by (intro cp_inv_move [OF take_cell(4)]) (simp_all add: cp_places_def)
next
  case (serve_cell k s g idx now uniform due x)
  have p: "(g, idx) \<in># cp_places s" using in_hand_sub [OF serve_cell(1), of "(g, idx)"] serve_cell(2) by (simp add: cp_places_def)
  then have g: "g < length (cp_guards s)" using serve_cell(4) by (auto simp: cp_inv_def)
  show ?case
    by (rule cp_inv_guard [OF serve_cell(4) g, of _ x "cp_keys s ! g"])
      (use worker_places(1) [of k "cp_workers s" "W_Rearm due (g, idx)"] serve_cell(1,2) cell_serve_live(1) [OF serve_cell(3)]
        in \<open>simp_all add: cp_places_def\<close>)
next
  case (drop_cell k s g idx now uniform x)
  have p: "(g, idx) \<in># cp_places s" using in_hand_sub [OF drop_cell(1), of "(g, idx)"] drop_cell(2) by (simp add: cp_places_def)
  then have g: "g < length (cp_guards s)" using drop_cell(4) by (auto simp: cp_inv_def)
  have "g_removed (cp_guards s ! g)"
  proof (rule ccontr)
    assume "\<not> g_removed (cp_guards s ! g)"
    then have "guard_ok (cp_guards s ! g)" "count (cp_places s) (g, idx) = (if idx < length (g_cells (cp_guards s ! g)) then 1 else 0)"
      using drop_cell(4) g by (simp_all add: cp_inv_def live_ok_def)
    moreover have "0 < count (cp_places s) (g, idx)" using p by simp
    ultimately show False using cell_serve_live(2) [OF drop_cell(3)] by (simp split: if_splits)
  qed
  then have x: "x = cp_guards s ! g" "g_removed x" using drop_cell(3) by (simp_all add: cell_serve_def guard_bounce_def)
  let ?t = "s\<lparr>cp_workers := (cp_workers s)[k := W_Idle], cp_guards := (cp_guards s)[g := x]\<rparr>"
  have P: "add_mset (g, idx) (cp_places ?t) = cp_places s"
    using worker_places(2) [of k "cp_workers s" "(g, idx)"] drop_cell(1,2) by (simp add: cp_places_def)
  then have "count (cp_places s) (h, i) = count (cp_places ?t) (h, i)" if "h \<noteq> g" for h i
    using that by (metis count_add_mset prod.inject)
  then have other: "live_ok E (cp_places ?t) h y key \<longleftrightarrow> live_ok E (cp_places s) h y key" if "h \<noteq> g" for h y key
    using that by (simp add: live_ok_def)
  have "set_mset (cp_places ?t) \<subseteq> set_mset (cp_places s)" using P by (metis set_mset_add_mset_insert subset_insertI)
  moreover have "live_ok E (cp_places ?t) h (cp_guards s ! h) (cp_keys s ! h)" if "h < length (cp_guards s)" for h
  proof (cases "h = g")
    case True
    then show ?thesis using x by (simp add: live_ok_def)
  next
    case False
    then show ?thesis using drop_cell(4) x(1) that other [OF False, of "cp_guards s ! h" "cp_keys s ! h"] by (simp add: cp_inv_def)
  qed
  ultimately show ?case
    using drop_cell(4) x(1) by (auto simp: cp_inv_def)
next
  case (rearm_cell k s due i)
  then show ?case
    using worker_places(2) [of k "cp_workers s" i]
    by (intro cp_inv_move [OF rearm_cell(3)]) (simp_all add: cp_places_def sc_push_places)
qed

lemma cp_reach_inv: "cp_reach E n s \<Longrightarrow> cp_inv E s"
  by (induction rule: cp_reach.induct) (auto intro: cp_inv_init cp_step_inv)

section \<open>Properties\<close>

text \<open>
  Property C24. The pool keeps every key and every cell in motion: whatever guards are made, updated and collapsed and
  however the workers interleave, a guard that has not been collapsed gives the key it was last given, and each of its
  cells is waiting in the heap or in the hands of exactly one worker, once, so none of them ever stops falling.
\<close>

theorem cell_pool_keeps_keys:
  assumes "lzma_ok E" "cp_reach E n s" "g < length (cp_guards s)" "\<not> g_removed (cp_guards s ! g)"
  shows "guard_reconstruct E (cp_guards s ! g) = Inr (cp_keys s ! g) \<and>
    (\<forall>idx < length (g_cells (cp_guards s ! g)).
       count (mset (map entry_item (sc_heap (cp_sched s))) + mset (concat (map in_hand (cp_workers s)))) (g, idx) = 1)"
proof -
  have live: "live_ok E (cp_places s) g (cp_guards s ! g) (cp_keys s ! g)"
    using cp_reach_inv [OF assms(2)] assms(3) by (simp add: cp_inv_def)
  then have "guard_ok (cp_guards s ! g)" "guard_bytes (cp_guards s ! g) = lzma_compress E 9 (cp_keys s ! g)"
    using assms(4) by (simp_all add: live_ok_def)
  then have "guard_reconstruct E (cp_guards s ! g) = Inr (cp_keys s ! g)"
    using assms(1) by (simp add: guard_reconstruct_ok lzma_simps)
  then show ?thesis using live assms(4) by (simp add: live_ok_def cp_places_def)
qed

theorem cell_pool_keeps_keys_witness:
  "guard_reconstruct demo_env (cp_guards (snd (cp_update_guard demo_env 0 [8, 9]
     (cp_new_guard demo_env (\<lambda>i. 4096 * i) 0 1 [1, 2] 5 (\<lambda>_. 1 / 100) (cp_init 4)))) ! 0) = Inr [8, 9]"
proof -
  let ?s = "cp_new_guard demo_env (\<lambda>i. 4096 * i) 0 1 [1, 2] 5 (\<lambda>_. 1 / 100) (cp_init 4)"
  let ?t = "snd (cp_update_guard demo_env 0 [8, 9] ?s)"
  have len: "length (cp_guards ?s) = 1" by (simp add: cp_new_guard_def Let_def cp_init_def)
  have "cp_reach demo_env 4 ?t"
    by (rule cp_reach.cp_next [OF cp_reach.cp_next [OF cp_reach.cp_start cp_step.new_guard] cp_step.update_guard])
      (simp add: len)
  moreover have "guard_ok (cp_guards ?s ! 0)" by (simp add: cp_new_guard_def Let_def cp_init_def guard_new_ok)
  moreover have "length (g_cells (cp_guards ?s ! 0)) = 3" "cp_keys ?s = [[1, 2]]"
    by (simp_all add: cp_new_guard_def Let_def cp_init_def guard_new_def demo_env_simps)
  ultimately have "cp_reach demo_env 4 ?t" "\<not> g_removed (cp_guards ?t ! 0)" "cp_keys ?t = [[8, 9]]" "length (cp_guards ?t) = 1"
    using guard_update_ok [of "cp_guards ?s ! 0" demo_env "[8, 9]"] len
    by (simp_all add: cp_update_guard_def split_def Let_def guard_ok_def demo_env_simps)
  then show ?thesis
    using cell_pool_keeps_keys [OF env_okD(2) [OF demo_env_ok], of 4 ?t 0] by simp
qed

end
