(* ===== verification/LayerStreaming.thy ===== *)
theory LayerStreaming
  imports Environment Complex_Main
begin

text \<open>
  \<open>vstorage/layer_streaming.py\<close>: the weights of a model, quantised to one byte each, compressed and loaded one
  layer at a time. The arrays are flat lists of rationals; the arithmetic is that of the IEEE formats numpy
  uses, with rounding to the nearest value, ties to the even one. \<open>None\<close> is a result that is no finite number.
\<close>

section \<open>Floating-point rounding\<close>

definition round_even :: "rat \<Rightarrow> int" where
  "round_even x =
     (let n = \<lfloor>x\<rfloor>; d = x - of_int n
      in if d < 1 / 2 then n else if 1 / 2 < d then n + 1 else if even n then n else n + 1)"

text \<open>The unit in the last place: the least of \<open>u, 2 u, 4 u, ...\<close> at which \<open>x\<close> has fewer than \<open>p\<close> digits, if any of \<open>k\<close>.\<close>

fun ulp_of :: "nat \<Rightarrow> nat \<Rightarrow> rat \<Rightarrow> rat \<Rightarrow> rat option" where
  "ulp_of 0 p u x = None"
| "ulp_of (Suc k) p u x = (if \<bar>x\<bar> < 2 ^ p * u then Some u else ulp_of k p (2 * u) x)"

text \<open>\<open>p\<close> digits, units from \<open>2 ^ -e\<close> on, \<open>k\<close> of them.\<close>

definition fl :: "nat \<Rightarrow> nat \<Rightarrow> nat \<Rightarrow> rat \<Rightarrow> rat option" where
  "fl p e k x =
     (case ulp_of k p (1 / 2 ^ e) x of None \<Rightarrow> None
      | Some u \<Rightarrow> (let y = of_int (round_even (x / u)) * u in if \<bar>y\<bar> < 2 ^ (p + k - 1) / 2 ^ e then Some y else None))"

definition fl32 :: "rat \<Rightarrow> rat option" where
  "fl32 = fl 24 149 254"

definition fl64 :: "rat \<Rightarrow> rat option" where
  "fl64 = fl 53 1074 2046"

section \<open>One layer\<close>

text \<open>\<open>float(weights.min())\<close>, \<open>float(weights.max())\<close> and the scale, a 64-bit number.\<close>

definition scale_of :: "rat \<Rightarrow> rat \<Rightarrow> rat option" where
  "scale_of w_min w_max =
     (if w_min < w_max then (case fl64 (w_max - w_min) of None \<Rightarrow> None | Some r \<Rightarrow> fl64 (r / 255)) else Some 1)"

text \<open>
  \<open>np.round((weights - w_min) / scale).astype(np.uint8)\<close> on one weight, in 32 bits throughout: numpy takes a
  Python number in an operation with such an array as a 32-bit one. \<open>cast\<close> is what the cast makes of
  a number that is not within a byte, or not finite; C leaves that open.
\<close>

definition to_uint8 :: "(rat option \<Rightarrow> byte) \<Rightarrow> rat option \<Rightarrow> byte" where
  "to_uint8 cast t =
     (case t of None \<Rightarrow> cast None
      | Some r \<Rightarrow> (let q = round_even r in if 0 \<le> q \<and> q \<le> 255 then of_int q else cast (Some (of_int q))))"

definition divide32 :: "rat \<Rightarrow> rat \<Rightarrow> rat option" where
  "divide32 a b = (if b = 0 then None else fl32 (a / b))"

definition quantize_value :: "(rat option \<Rightarrow> byte) \<Rightarrow> rat option \<Rightarrow> rat option \<Rightarrow> rat \<Rightarrow> byte" where
  "quantize_value cast s m w =
     to_uint8 cast (Option.bind m (\<lambda>m. Option.bind s (\<lambda>s. Option.bind (fl32 (w - m)) (\<lambda>d. divide32 d s))))"

definition quantize_layer :: "(rat option \<Rightarrow> byte) \<Rightarrow> rat list \<Rightarrow> (bytes \<times> rat option \<times> rat) res" where
  "quantize_layer cast weights =
     (if weights = [] then Inl ValueError
      else let w_min = Min (set weights); scale = scale_of w_min (Max (set weights))
           in Inr (map (quantize_value cast (Option.bind scale fl32) (fl32 w_min)) weights, scale, w_min))"

definition dequantize_value :: "rat option \<Rightarrow> rat option \<Rightarrow> byte \<Rightarrow> rat option" where
  "dequantize_value s m q =
     Option.bind s (\<lambda>s. Option.bind (fl32 (of_nat (unat q) * s)) (\<lambda>p. Option.bind m (\<lambda>m. fl32 (p + m))))"

text \<open>\<open>np.frombuffer(...).reshape(shape)\<close> wants exactly as many bytes as the shape has places.\<close>

definition dequantize_layer :: "bytes \<Rightarrow> nat list \<Rightarrow> rat option \<Rightarrow> rat \<Rightarrow> rat option list res" where
  "dequantize_layer data shape scale zero_point =
     (if length data \<noteq> prod_list shape then Inl ValueError
      else Inr (map (dequantize_value (Option.bind scale fl32) (fl32 zero_point)) data))"

section \<open>The streamed model\<close>

record smodel =
  sm_shapes :: "nat list list"
  sm_compressed :: "bytes list"
  sm_scales :: "rat option list"
  sm_zero_points :: "rat list"
  sm_raw_total :: nat
  sm_held_total :: nat

text \<open>One turn of the constructor's loop; the weights come from numpy's random generator.\<close>

definition add_layer :: "env \<Rightarrow> (rat option \<Rightarrow> byte) \<Rightarrow> rat list \<Rightarrow> smodel \<Rightarrow> smodel res" where
  "add_layer E cast weights m =
     (case quantize_layer cast weights of Inl e \<Rightarrow> Inl e
      | Inr (q_bytes, scale, zero_point) \<Rightarrow>
          (let compressed = lzma_compress E 6 q_bytes
           in Inr (m\<lparr>sm_raw_total := sm_raw_total m + 4 * length weights, sm_compressed := sm_compressed m @ [compressed],
               sm_scales := sm_scales m @ [scale], sm_zero_points := sm_zero_points m @ [zero_point],
               sm_held_total := sm_held_total m + length compressed\<rparr>)))"

fun add_layers :: "env \<Rightarrow> (rat option \<Rightarrow> byte) \<Rightarrow> rat list list \<Rightarrow> smodel \<Rightarrow> smodel res" where
  "add_layers E cast [] m = Inr m"
| "add_layers E cast (w # ws) m = (case add_layer E cast w m of Inl e \<Rightarrow> Inl e | Inr m' \<Rightarrow> add_layers E cast ws m')"

text \<open>\<open>standard_normal shape i\<close> are the weights drawn for layer \<open>i\<close>.\<close>

definition sm_init :: "env \<Rightarrow> (rat option \<Rightarrow> byte) \<Rightarrow> (nat list \<Rightarrow> nat \<Rightarrow> rat list) \<Rightarrow> nat list list \<Rightarrow> smodel res" where
  "sm_init E cast standard_normal shapes =
     add_layers E cast (map (\<lambda>(i, shape). standard_normal shape i) (enumerate 0 shapes))
       \<lparr>sm_shapes = shapes, sm_compressed = [], sm_scales = [], sm_zero_points = [], sm_raw_total = 0, sm_held_total = 0\<rparr>"

definition raw_size_mb :: "smodel \<Rightarrow> rat" where
  "raw_size_mb m = of_nat (sm_raw_total m) / (1024 * 1024)"

definition held_size_mb :: "smodel \<Rightarrow> rat" where
  "held_size_mb m = of_nat (sm_held_total m) / (1024 * 1024)"

text \<open>Layer \<open>i\<close>, while it is loaded.\<close>

definition load_layer :: "env \<Rightarrow> smodel \<Rightarrow> nat \<Rightarrow> nat list \<Rightarrow> rat option list res" where
  "load_layer E m i shape =
     (case py_index (sm_compressed m) i of Inl e \<Rightarrow> Inl e
      | Inr c \<Rightarrow>
     (case lzma_decompress E c of Inl e \<Rightarrow> Inl e
      | Inr q_bytes \<Rightarrow>
     (case py_index (sm_scales m) i of Inl e \<Rightarrow> Inl e
      | Inr scale \<Rightarrow>
     (case py_index (sm_zero_points m) i of Inl e \<Rightarrow> Inl e
      | Inr zero_point \<Rightarrow> dequantize_layer q_bytes shape scale zero_point))))"

record model_run =
  mr_layers_run :: nat
  mr_raw_mb :: rat
  mr_held_mb :: rat
  mr_ratio :: rat
  mr_rss :: "rat list"

text \<open>\<open>rss i\<close> is the memory sampled after layer \<open>i\<close>; the layers that were loaded are returned besides.\<close>

definition sm_run :: "env \<Rightarrow> (nat \<Rightarrow> rat) \<Rightarrow> smodel \<Rightarrow> (rat option list list \<times> model_run) res" where
  "sm_run E rss m =
     map_res (\<lambda>layers. (layers,
         \<lparr>mr_layers_run = length (sm_shapes m), mr_raw_mb = raw_size_mb m, mr_held_mb = held_size_mb m,
          mr_ratio = raw_size_mb m / max (held_size_mb m) (1 / 10 ^ 9), mr_rss = map rss [0..<length (sm_shapes m)]\<rparr>))
       (mapM (\<lambda>(i, shape). load_layer E m i shape) (enumerate 0 (sm_shapes m)))"

section \<open>What rounding does\<close>

lemma round_even_near: "\<bar>of_int (round_even x) - x\<bar> \<le> 1 / 2"
proof -
  let ?d = "x - of_int \<lfloor>x\<rfloor>"
  have "0 \<le> ?d" "?d < 1" by linarith+
  then show ?thesis by (simp add: round_even_def Let_def abs_le_iff)
qed

lemma round_even_int [simp]: "round_even (of_int n) = n"
  by (simp add: round_even_def)

lemma round_even_nonneg: "0 \<le> x \<Longrightarrow> 0 \<le> round_even x"
proof -
  assume "0 \<le> x"
  then have "0 \<le> \<lfloor>x\<rfloor>" by simp
  then show ?thesis by (auto simp: round_even_def Let_def)
qed

lemma ulp_of_Some:
  "ulp_of k p u x = Some v \<Longrightarrow> 0 < u \<Longrightarrow>
     \<exists>j < k. v = 2 ^ j * u \<and> \<bar>x\<bar> < 2 ^ p * v \<and> (j = 0 \<or> 2 ^ p * v \<le> 2 * \<bar>x\<bar>)"
proof (induction k arbitrary: u)
  case (Suc k)
  show ?case
  proof (cases "\<bar>x\<bar> < 2 ^ p * u")
    case True
    then show ?thesis using Suc.prems by (intro exI [of _ 0]) simp
  next
    case False
    then obtain j where j: "j < k" "v = 2 ^ j * (2 * u)" "\<bar>x\<bar> < 2 ^ p * v" "j = 0 \<or> 2 ^ p * v \<le> 2 * \<bar>x\<bar>"
      using Suc.IH [of "2 * u"] Suc.prems by auto
    moreover have "2 ^ p * v \<le> 2 * \<bar>x\<bar>" if "j = 0" using that j(2) False by simp
    ultimately show ?thesis by (intro exI [of _ "Suc j"]) auto
  qed
qed simp

lemma ulp_of_found: "0 < u \<Longrightarrow> \<bar>x\<bar> < 2 ^ p * (2 ^ k * u) \<Longrightarrow> \<exists>v. ulp_of (Suc k) p u x = Some v"
proof (induction k arbitrary: u)
  case (Suc k)
  then show ?case using Suc.IH [of "2 * u"] by (cases "\<bar>x\<bar> < 2 ^ p * u") (simp_all add: ac_simps)
qed simp

text \<open>The relative error is half a unit of the last of \<open>p\<close> digits, and below the normal range the absolute one is.\<close>

lemma fl_error:
  assumes "fl p e k x = Some y"
  shows "\<bar>y - x\<bar> \<le> \<bar>x\<bar> / 2 ^ p + 1 / 2 ^ Suc e"
    and "1 \<le> p \<Longrightarrow> 2 ^ (p - 1) / 2 ^ e \<le> \<bar>x\<bar> \<Longrightarrow> \<bar>y - x\<bar> \<le> \<bar>x\<bar> / 2 ^ p"
    and "0 \<le> x \<Longrightarrow> 0 \<le> y"
proof -
  obtain v where v: "ulp_of k p (1 / 2 ^ e) x = Some v" "y = of_int (round_even (x / v)) * v"
    using assms by (auto simp: fl_def Let_def split: option.splits if_splits)
  obtain j where j: "v = 2 ^ j * (1 / 2 ^ e)" "j = 0 \<or> 2 ^ p * v \<le> 2 * \<bar>x\<bar>" using ulp_of_Some [OF v(1)] by auto
  have pos: "0 < v" using j(1) by simp
  have "y - x = (of_int (round_even (x / v)) - x / v) * v" using pos by (simp add: v(2) left_diff_distrib)
  then have near: "\<bar>y - x\<bar> \<le> v / 2" using round_even_near [of "x / v"] pos by (simp add: abs_mult)
  have big: "v / 2 \<le> \<bar>x\<bar> / 2 ^ p" if "2 ^ p * v \<le> 2 * \<bar>x\<bar>" using that by (simp add: field_simps)
  show "\<bar>y - x\<bar> \<le> \<bar>x\<bar> / 2 ^ p + 1 / 2 ^ Suc e"
  proof (cases "j = 0")
    case True
    have "0 \<le> \<bar>x\<bar> / 2 ^ p" by simp
    moreover have "v / 2 = 1 / 2 ^ Suc e" using True j(1) by simp
    ultimately show ?thesis using near by linarith
  next
    case False
    then have "\<bar>y - x\<bar> \<le> \<bar>x\<bar> / 2 ^ p" using j(2) near big by linarith
    then show ?thesis by (simp add: add_increasing2)
  qed
  show "\<bar>y - x\<bar> \<le> \<bar>x\<bar> / 2 ^ p" if "1 \<le> p" "2 ^ (p - 1) / 2 ^ e \<le> \<bar>x\<bar>"
  proof (cases "j = 0")
    case True
    have "(2 :: rat) ^ p = 2 * 2 ^ (p - 1)" using that(1) by (cases p) simp_all
    then have "2 ^ p * v \<le> 2 * \<bar>x\<bar>" using that(2) True j(1) by simp
    then show ?thesis using near big by linarith
  qed (use j(2) near big in linarith)
  show "0 \<le> y" if "0 \<le> x" using that pos round_even_nonneg [of "x / v"] by (simp add: v(2))
qed

lemma fl_found:
  assumes "1 \<le> p" "1 \<le> m" "\<bar>x\<bar> \<le> 2 ^ (p + m - 1) / 2 ^ e"
  shows "\<exists>y. fl p e (Suc m) x = Some y"
proof -
  let ?B = "2 ^ (p + m - 1) / 2 ^ e :: rat"
  have two: "(2 :: rat) ^ (p + m) = 2 * 2 ^ (p + m - 1)" using assms(1) by (cases "p + m") simp_all
  have B: "0 < ?B" by simp
  have "2 ^ p * (2 ^ m * (1 / 2 ^ e)) = (2 :: rat) ^ (p + m) / 2 ^ e" by (simp add: power_add)
  also have "\<dots> = 2 * ?B" by (simp add: two)
  finally have "\<bar>x\<bar> < 2 ^ p * (2 ^ m * (1 / 2 ^ e))" using assms(3) B by linarith
  from ulp_of_found [OF _ this] obtain v where v: "ulp_of (Suc m) p (1 / 2 ^ e) x = Some v" by auto
  obtain j where j: "v = 2 ^ j * (1 / 2 ^ e)" "j = 0 \<or> 2 ^ p * v \<le> 2 * \<bar>x\<bar>" using ulp_of_Some [OF v] by auto
  have pos: "0 < v" using j(1) by simp
  let ?y = "of_int (round_even (x / v)) * v"
  have "?y - x = (of_int (round_even (x / v)) - x / v) * v" using pos by (simp add: left_diff_distrib)
  then have near: "\<bar>?y - x\<bar> \<le> v / 2" using round_even_near [of "x / v"] pos by (simp add: abs_mult)
  have "v / 2 \<le> ?B / 2"
  proof (cases "j = 0")
    case True
    have "(1 :: rat) \<le> 2 ^ (p + m - 1)" by simp
    then have "1 / 2 ^ e \<le> ?B" by (simp add: divide_right_mono)
    then show ?thesis using True j(1) by simp
  next
    case False
    have "2 * v \<le> 2 ^ p * v" using pos self_le_power [of "2 :: rat" p] assms(1) by simp
    then have "v \<le> \<bar>x\<bar>" using False j(2) by linarith
    then have "v \<le> ?B" using assms(3) by (rule order_trans)
    then show ?thesis by simp
  qed
  moreover have "\<bar>?y\<bar> < 2 * b" if "v / 2 \<le> b / 2" "\<bar>x\<bar> \<le> b" "0 < b" for b :: rat using that near by linarith
  ultimately have "\<bar>?y\<bar> < 2 * ?B" using assms(3) B by blast
  then have "\<bar>?y\<bar> < 2 ^ (p + Suc m - 1) / 2 ^ e" by (simp add: two)
  then show ?thesis unfolding fl_def v option.case Let_def by simp
qed

lemma fl32_ok:
  assumes "\<bar>x\<bar> \<le> 2 ^ 127"
  obtains y where "fl32 x = Some y" "\<bar>y - x\<bar> \<le> \<bar>x\<bar> / 2 ^ 24 + 1 / 2 ^ 150"
    "1 / 2 ^ 126 \<le> \<bar>x\<bar> \<Longrightarrow> \<bar>y - x\<bar> \<le> \<bar>x\<bar> / 2 ^ 24" "0 \<le> x \<Longrightarrow> 0 \<le> y"
proof -
  have "(2 :: rat) ^ (24 + 253 - 1) / 2 ^ 149 = 2 ^ 127" by simp
  then obtain y where y: "fl 24 149 254 x = Some y" using fl_found [of 24 253 x 149] assms by auto
  have "(2 :: rat) ^ (24 - 1) / 2 ^ 149 = 1 / 2 ^ 126" by simp
  then show thesis
    using that [of y] fl_error [OF y] y by (simp add: fl32_def)
qed

lemma fl64_ok:
  assumes "\<bar>x\<bar> \<le> 2 ^ 127" "1 / 2 ^ 127 \<le> \<bar>x\<bar>"
  obtains y where "fl64 x = Some y" "\<bar>y - x\<bar> \<le> \<bar>x\<bar> / 2 ^ 53"
proof -
  have c: "(2 :: rat) ^ (53 + 2045 - 1) / 2 ^ 1074 = 2 ^ 1023" "(2 :: rat) ^ (53 - 1) / 2 ^ 1074 = 1 / 2 ^ 1022"
    by simp_all
  have "(2 :: rat) ^ 127 \<le> 2 ^ 1023" "1 / 2 ^ 1022 \<le> (1 :: rat) / 2 ^ 127" by simp_all
  then have b: "\<bar>x\<bar> \<le> 2 ^ 1023" "1 / 2 ^ 1022 \<le> \<bar>x\<bar>" using assms by linarith+
  then obtain y where y: "fl 53 1074 2046 x = Some y" using fl_found [of 53 2045 x 1074] c(1) by auto
  show thesis using that [of y] fl_error(2) [OF y] b(2) c(2) y by (simp add: fl64_def)
qed

text \<open>The scale in both formats, against the range divided by 255.\<close>

lemma scale_errors:
  fixes R r S s :: rat
  assumes "0 < R" "\<bar>r - R\<bar> \<le> R / 2 ^ 53" "\<bar>S - r / 255\<bar> \<le> r / 255 / 2 ^ 53"
  shows "\<bar>S - R / 255\<bar> \<le> R / 255 / 2 ^ 51"
    and "1 / 2 ^ 118 \<le> R \<Longrightarrow> 1 / 2 ^ 126 \<le> S" "R \<le> 2 ^ 126 \<Longrightarrow> S \<le> 2 ^ 127"
    and "\<bar>s - S\<bar> \<le> S / 2 ^ 24 \<Longrightarrow> \<bar>s - R / 255\<bar> \<le> R / 255 / 2 ^ 22"
  using assms unfolding abs_diff_le_iff by simp_all

lemma scale_near:
  assumes "1 / 2 ^ 118 \<le> M - m" "M - m \<le> 2 ^ 126"
  obtains S s where "scale_of m M = Some S" "fl32 S = Some s" "\<bar>s - (M - m) / 255\<bar> \<le> (M - m) / 255 / 2 ^ 22"
    "s \<le> S + S / 2 ^ 24"
proof -
  define R where "R = M - m"
  have R: "1 / 2 ^ 118 \<le> R" "R \<le> 2 ^ 126" "0 < R"
    using assms less_le_trans [OF _ assms(1), of 0] by (simp_all add: R_def)
  obtain r where r: "fl64 R = Some r" "\<bar>r - R\<bar> \<le> R / 2 ^ 53"
    by (rule fl64_ok [of R]) (use R in simp_all)
  then have rpos: "R / 2 \<le> r" "r \<le> 2 * R" using R(3) unfolding abs_diff_le_iff by simp_all
  obtain S where S: "fl64 (r / 255) = Some S" "\<bar>S - r / 255\<bar> \<le> r / 255 / 2 ^ 53"
    by (rule fl64_ok [of "r / 255"]) (use R rpos in simp_all)
  note err = scale_errors [OF R(3) r(2) S(2)]
  obtain s where s: "fl32 S = Some s" "\<bar>s - S\<bar> \<le> S / 2 ^ 24"
    by (rule fl32_ok [of S]) (use err(2) [OF R(1)] err(3) [OF R(2)] in simp_all)
  have "scale_of m M = Some S" using R(3) r(1) S(1) by (simp add: scale_of_def R_def)
  moreover have "s \<le> S + S / 2 ^ 24" using s(2) unfolding abs_diff_le_iff by simp
  ultimately show thesis using that s(1) err(4) [OF s(2)] unfolding R_def by blast
qed

text \<open>One weight: the quotient, its byte, the product and the sum, each with its rounding.\<close>

lemma quotient_errors:
  fixes R s x d :: rat
  assumes "1 / 2 ^ 118 \<le> R" "\<bar>s - R / 255\<bar> \<le> R / 255 / 2 ^ 22" "0 \<le> x" "x \<le> R" "\<bar>d - x\<bar> \<le> x / 2 ^ 24 + 1 / 2 ^ 150"
  shows "0 < s" "1 / 2 ^ 127 \<le> s" "d \<le> 2551 / 10 * s" "x \<le> 256 * s" "R \<le> 256 * s" "255 * s \<le> 2 * R"
    "\<bar>d - x\<bar> \<le> s / 2 ^ 15"
  using assms unfolding abs_diff_le_iff by simp_all

lemma sum_errors:
  fixes a d s u p x k :: rat
  assumes "0 < s" "1 / 2 ^ 127 \<le> s" "\<bar>u\<bar> \<le> (257 * s + k) / 2 ^ 24 + 1 / 2 ^ 150" "\<bar>a - d\<bar> \<le> (1 / 2 + 1 / 2 ^ 15) * s"
    and "a \<le> 255 * s" "\<bar>p - a\<bar> \<le> a / 2 ^ 24 + 1 / 2 ^ 150" "\<bar>d - x\<bar> \<le> s / 2 ^ 15"
  shows "\<bar>(a - x) + u + (p - a)\<bar> \<le> (1 / 2 + 1 / 2 ^ 13) * s + k / 2 ^ 24"
proof (rule abs_leI)
  have u: "u \<le> (257 * s + k) / 2 ^ 24 + 1 / 2 ^ 150" "- u \<le> (257 * s + k) / 2 ^ 24 + 1 / 2 ^ 150"
    using assms(3) unfolding abs_le_iff by blast+
  show "(a - x) + u + (p - a) \<le> (1 / 2 + 1 / 2 ^ 13) * s + k / 2 ^ 24"
    "- ((a - x) + u + (p - a)) \<le> (1 / 2 + 1 / 2 ^ 13) * s + k / 2 ^ 24"
    using u assms(1,2,4-7) unfolding abs_diff_le_iff by (simp_all add: field_simps)
qed

lemma product_errors:
  fixes s x d z q t p m r w :: rat
  assumes "0 < s" "1 / 2 ^ 127 \<le> s" "\<bar>q - t\<bar> \<le> 1 / 2" "\<bar>t - z\<bar> \<le> 1 / 2 ^ 15" "z * s = d" "\<bar>d - x\<bar> \<le> s / 2 ^ 15"
    and "\<bar>p - q * s\<bar> \<le> q * s / 2 ^ 24 + 1 / 2 ^ 150" "q \<le> 255" "\<bar>r - (p + m)\<bar> \<le> \<bar>p + m\<bar> / 2 ^ 24 + 1 / 2 ^ 150" "w = x + m" "0 \<le> q"
  shows "\<bar>r - w\<bar> \<le> (1 / 2 + 1 / 2 ^ 13) * s + \<bar>m\<bar> / 2 ^ 24"
proof -
  define a where "a = q * s"
  have "\<bar>q - z\<bar> \<le> 1 / 2 + 1 / 2 ^ 15" using assms(3,4) unfolding abs_diff_le_iff by simp
  then have "\<bar>q - z\<bar> * s \<le> (1 / 2 + 1 / 2 ^ 15) * s" using assms(1) by (intro mult_right_mono) simp_all
  moreover have "\<bar>q - z\<bar> * s = \<bar>a - d\<bar>"
    using assms(1,5) by (simp add: a_def abs_mult [symmetric] left_diff_distrib abs_mult_pos)
  ultimately have ad: "\<bar>a - d\<bar> \<le> (1 / 2 + 1 / 2 ^ 15) * s" by simp
  have a: "a \<le> 255 * s" using assms(1,8) by (simp add: a_def)
  have a0: "0 \<le> a" using assms(1,11) by (simp add: a_def)
  have pa: "\<bar>p - a\<bar> \<le> a / 2 ^ 24 + 1 / 2 ^ 150" using assms(7) by (simp add: a_def)
  have p: "p \<le> 257 * s" "- (257 * s) \<le> p"
    using pa a a0 assms(1,2) unfolding abs_diff_le_iff by simp_all
  then have "\<bar>p\<bar> \<le> 257 * s" by (intro abs_leI) linarith+
  then have "\<bar>p + m\<bar> \<le> 257 * s + \<bar>m\<bar>" using abs_triangle_ineq [of p m] by linarith
  then have "\<bar>r - (p + m)\<bar> \<le> (257 * s + \<bar>m\<bar>) / 2 ^ 24 + 1 / 2 ^ 150"
    by (intro order_trans [OF assms(9) add_right_mono] divide_right_mono) simp_all
  from sum_errors [OF assms(1,2) this ad a pa assms(6)]
  have "\<bar>(a - x) + (r - (p + m)) + (p - a)\<bar> \<le> (1 / 2 + 1 / 2 ^ 13) * s + \<bar>m\<bar> / 2 ^ 24" .
  moreover have "(a - x) + (r - (p + m)) + (p - a) = r - w" using assms(10) by simp
  ultimately show ?thesis by simp
qed

lemma quantize_value_near:
  fixes R s x m w :: rat
  assumes R: "1 / 2 ^ 118 \<le> R" "R \<le> 2 ^ 126" and s: "\<bar>s - R / 255\<bar> \<le> R / 255 / 2 ^ 22"
    and m: "fl32 m = Some m" "\<bar>m\<bar> \<le> 2 ^ 125" and w: "w = x + m" "0 \<le> x" "x \<le> R"
  shows "\<exists>r. dequantize_value (Some s) (Some m) (quantize_value cast (Some s) (Some m) w) = Some r \<and>
    \<bar>r - w\<bar> \<le> (1 / 2 + 1 / 2 ^ 13) * s + \<bar>m\<bar> / 2 ^ 24"
proof -
  obtain d where d: "fl32 x = Some d" "\<bar>d - x\<bar> \<le> x / 2 ^ 24 + 1 / 2 ^ 150" "0 \<le> d"
    by (rule fl32_ok [of x]) (use w(2,3) R(2) in simp_all)
  note q = quotient_errors [OF R(1) s w(2,3) d(2)]
  have z: "0 \<le> d / s" "d / s \<le> 2551 / 10" using q(1,3) d(3) by (simp_all add: divide_le_eq)
  obtain t where t: "fl32 (d / s) = Some t" "\<bar>t - d / s\<bar> \<le> d / s / 2 ^ 24 + 1 / 2 ^ 150" "0 \<le> t"
  proof (rule fl32_ok [of "d / s"])
    have "\<bar>z\<bar> \<le> 2 ^ 127" if "0 \<le> z" "z \<le> 2551 / 10" for z :: rat using that by simp
    then show "\<bar>d / s\<bar> \<le> 2 ^ 127" using z by blast
  qed (use z in simp_all)
  have t2: "\<bar>t - z\<bar> \<le> 1 / 2 ^ 15 \<and> t \<le> 2552 / 10"
    if "\<bar>t - z\<bar> \<le> z / 2 ^ 24 + 1 / 2 ^ 150" "0 \<le> z" "z \<le> 2551 / 10" for z :: rat
    using that unfolding abs_diff_le_iff by simp
  have near: "\<bar>t - d / s\<bar> \<le> 1 / 2 ^ 15" and small: "t \<le> 2552 / 10" using t2 [OF t(2) z] by simp_all
  define n where "n = round_even t"
  have n: "\<bar>of_int n - t\<bar> \<le> 1 / 2" "0 \<le> n" using round_even_near [of t] round_even_nonneg [OF t(3)] by (simp_all add: n_def)
  have "(of_int n :: rat) < 256" using n(1) small unfolding abs_diff_le_iff by simp
  then have n255: "n \<le> 255" by simp
  let ?b = "quantize_value cast (Some s) (Some m) w"
  have "?b = of_int n"
    using q(1) w(1) d(1) t(1) n(2) n255 by (simp add: quantize_value_def divide32_def to_uint8_def n_def [symmetric] Let_def)
  then have "unat ?b = nat n" using n(2) n255 by (simp add: unat_eq_nat_uint uint_word_of_int take_bit_eq_mod)
  then have b: "(of_nat (unat ?b) :: rat) = of_int n" using n(2) by simp
  have ns: "0 \<le> of_int n * s" "of_int n * s \<le> 255 * s" using n(2) n255 q(1) by simp_all
  obtain p where p: "fl32 (of_int n * s) = Some p" "\<bar>p - of_int n * s\<bar> \<le> of_int n * s / 2 ^ 24 + 1 / 2 ^ 150" "0 \<le> p"
    by (rule fl32_ok [of "of_int n * s"]) (use ns q(6) R(2) in simp_all)
  have "\<bar>p + m\<bar> \<le> 2 ^ 127"
  proof -
    have "p \<le> 2 ^ 126 + 2 ^ 120" if "0 \<le> a" "a \<le> 255 * s" "\<bar>p - a\<bar> \<le> a / 2 ^ 24 + 1 / 2 ^ 150" for a
      using that s R(2) unfolding abs_diff_le_iff by simp
    from this [OF ns p(2)] show ?thesis using p(3) m(2) by (simp add: abs_le_iff)
  qed
  then obtain r where r: "fl32 (p + m) = Some r" "\<bar>r - (p + m)\<bar> \<le> \<bar>p + m\<bar> / 2 ^ 24 + 1 / 2 ^ 150"
    by (rule fl32_ok)
  have "\<bar>r - w\<bar> \<le> (1 / 2 + 1 / 2 ^ 13) * s + \<bar>m\<bar> / 2 ^ 24"
    by (rule product_errors [OF q(1,2) n(1) near _ q(7) p(2) _ r(2) w(1)]) (use q(1) n255 n(2) in simp_all)
  then show ?thesis using b p(1) r(1) by (simp add: dequantize_value_def)
qed

section \<open>Layers and models\<close>

lemma fl32_zero: "fl32 0 = Some 0"
proof -
  have "ulp_of (Suc k) p (1 / 2 ^ e) 0 = Some (1 / 2 ^ e)" for k p e by simp
  from this [of 253 24 149] show ?thesis unfolding fl32_def fl_def by (simp add: round_even_def)
qed

text \<open>Weights as numpy holds them, apart from each other by nothing or by more than a hair.\<close>

definition layer_ok :: "nat list \<Rightarrow> rat list \<Rightarrow> bool" where
  "layer_ok shape ws \<longleftrightarrow>
     ws \<noteq> [] \<and> prod_list shape = length ws \<and> (\<forall>w \<in> set ws. fl32 w = Some w \<and> \<bar>w\<bar> \<le> 2 ^ 125) \<and>
     (Max (set ws) = Min (set ws) \<or> 1 / 2 ^ 118 \<le> Max (set ws) - Min (set ws))"

definition near_weights :: "rat \<Rightarrow> rat list \<Rightarrow> rat option list \<Rightarrow> bool" where
  "near_weights S ws layer \<longleftrightarrow>
     list_all2 (\<lambda>w r. \<exists>v. r = Some v \<and> \<bar>v - w\<bar> \<le> (1 / 2 + 1 / 2 ^ 12) * S + \<bar>Min (set ws)\<bar> / 2 ^ 24) ws layer"

lemma layer_roundtrip:
  assumes "layer_ok shape ws"
  shows "\<exists>data S layer. quantize_layer cast ws = Inr (data, Some S, Min (set ws)) \<and> length data = length ws \<and>
    dequantize_layer data shape (Some S) (Min (set ws)) = Inr layer \<and> near_weights S ws layer"
proof -
  let ?m = "Min (set ws)" and ?M = "Max (set ws)"
  have ne: "ws \<noteq> []" and shape: "prod_list shape = length ws" using assms by (simp_all add: layer_ok_def)
  have "?m \<in> set ws" "?M \<in> set ws" using ne by simp_all
  then have m: "fl32 ?m = Some ?m" "\<bar>?m\<bar> \<le> 2 ^ 125" "\<bar>?M\<bar> \<le> 2 ^ 125" using assms by (simp_all add: layer_ok_def)
  have in_range: "?m \<le> w" "w \<le> ?M" if "w \<in> set ws" for w using that by simp_all
  obtain S s where S: "scale_of ?m ?M = Some S" "fl32 S = Some s"
    and near: "\<And>w. w \<in> set ws \<Longrightarrow> \<exists>r. dequantize_value (Some s) (Some ?m) (quantize_value cast (Some s) (Some ?m) w) = Some r \<and>
      \<bar>r - w\<bar> \<le> (1 / 2 + 1 / 2 ^ 12) * S + \<bar>?m\<bar> / 2 ^ 24"
  proof (cases "?M = ?m")
    case True
    obtain s where s: "fl32 1 = Some s" "\<bar>s - 1\<bar> \<le> \<bar>1\<bar> / 2 ^ 24" by (rule fl32_ok [of 1]) simp_all
    have "s \<noteq> 0" using s(2) by auto
    have "w = ?m" if "w \<in> set ws" for w using in_range [OF that] True by simp
    then have "dequantize_value (Some s) (Some ?m) (quantize_value cast (Some s) (Some ?m) w) = Some w" if "w \<in> set ws" for w
      using that \<open>s \<noteq> 0\<close> m(1) fl32_zero round_even_int [of 0]
      by (auto simp: quantize_value_def divide32_def to_uint8_def dequantize_value_def)
    moreover have "scale_of ?m ?M = Some 1" using True by (simp add: scale_of_def)
    ultimately show thesis using that [of 1 s] s(1) by simp
  next
    case False
    then have R: "1 / 2 ^ 118 \<le> ?M - ?m" using assms by (simp add: layer_ok_def)
    have R2: "?M - ?m \<le> 2 ^ 126" using m(2,3) by (simp add: abs_le_iff)
    obtain S s where Ss: "scale_of ?m ?M = Some S" "fl32 S = Some s" "\<bar>s - (?M - ?m) / 255\<bar> \<le> (?M - ?m) / 255 / 2 ^ 22"
      "s \<le> S + S / 2 ^ 24" by (rule scale_near [OF R R2])
    have "0 < s" by (rule quotient_errors(1) [OF R Ss(3), of 0 0]) (use R in simp_all)
    then have "(1 / 2 + 1 / 2 ^ 13) * s \<le> (1 / 2 + 1 / 2 ^ 12) * S" using Ss(4) by (simp add: field_simps)
    moreover have "\<exists>r. dequantize_value (Some s) (Some ?m) (quantize_value cast (Some s) (Some ?m) w) = Some r \<and>
      \<bar>r - w\<bar> \<le> (1 / 2 + 1 / 2 ^ 13) * s + \<bar>?m\<bar> / 2 ^ 24" if "w \<in> set ws" for w
      by (rule quantize_value_near [OF R R2 Ss(3) m(1,2), of w "w - ?m"]) (use in_range [OF that] in simp_all)
    ultimately show thesis using that [OF Ss(1,2)] by (meson add_right_mono order_trans)
  qed
  let ?q = "quantize_value cast (Some s) (Some ?m)"
  have "quantize_layer cast ws = Inr (map ?q ws, Some S, ?m)" using ne S m(1) by (simp add: quantize_layer_def Let_def)
  moreover have "dequantize_layer (map ?q ws) shape (Some S) ?m = Inr (map (\<lambda>w. dequantize_value (Some s) (Some ?m) (?q w)) ws)"
    using shape S(2) m(1) by (simp add: dequantize_layer_def comp_def)
  moreover have "near_weights S ws (map (\<lambda>w. dequantize_value (Some s) (Some ?m) (?q w)) ws)"
    using near by (auto simp: near_weights_def list_all2_conv_all_nth)
  ultimately show ?thesis by (metis length_map)
qed

text \<open>The constructor stores every layer, in order.\<close>

definition quantized :: "(rat option \<Rightarrow> byte) \<Rightarrow> rat list \<Rightarrow> bytes \<times> rat option \<times> rat" where
  "quantized cast ws = (case quantize_layer cast ws of Inr q \<Rightarrow> q | Inl _ \<Rightarrow> ([], None, 0))"

lemma add_layers_all:
  "(\<And>ws. ws \<in> set wss \<Longrightarrow> quantize_layer cast ws = Inr (quantized cast ws)) \<Longrightarrow>
     add_layers E cast wss m = Inr (m\<lparr>
       sm_compressed := sm_compressed m @ map (\<lambda>ws. lzma_compress E 6 (fst (quantized cast ws))) wss,
       sm_scales := sm_scales m @ map (\<lambda>ws. fst (snd (quantized cast ws))) wss,
       sm_zero_points := sm_zero_points m @ map (\<lambda>ws. snd (snd (quantized cast ws))) wss,
       sm_raw_total := sm_raw_total m + 4 * sum_list (map length wss),
       sm_held_total := sm_held_total m + sum_list (map (\<lambda>ws. length (lzma_compress E 6 (fst (quantized cast ws)))) wss)\<rparr>)"
proof (induction wss arbitrary: m)
  case (Cons ws wss)
  obtain q S z where q: "quantized cast ws = (q, S, z)" by (metis prod_cases3)
  have "quantize_layer cast ws = Inr (q, S, z)" using Cons.prems [of ws] q by simp
  then show ?case using Cons q by (simp add: add_layer_def Let_def)
qed simp

text \<open>
  Property C36. The streamed model runs every layer on almost the weights it was built from: for any weights numpy can hold
  in the middle of its range, the constructor succeeds, running loads every layer in order, each as many bytes
  as weights at rest, and each weight comes back within half a step of the layer's scale, up to the rounding of 32-bit
  arithmetic; the sizes reported are those of the raw and of the compressed layers.
\<close>

theorem streamed_model_keeps_weights:
  assumes "lzma_ok E" "\<And>i. i < length shapes \<Longrightarrow> layer_ok (shapes ! i) (normal (shapes ! i) i)"
  shows "\<exists>m layers res. sm_init E cast normal shapes = Inr m \<and> sm_run E rss m = Inr (layers, res) \<and>
    length layers = length shapes \<and> mr_layers_run res = length shapes \<and>
    mr_raw_mb res = of_nat (4 * (\<Sum>i < length shapes. length (normal (shapes ! i) i))) / (1024 * 1024) \<and>
    mr_held_mb res = of_nat (sum_list (map length (sm_compressed m))) / (1024 * 1024) \<and>
    (\<forall>i < length shapes. \<exists>S q. lzma_decompress E (sm_compressed m ! i) = Inr q \<and> length q = length (normal (shapes ! i) i) \<and>
       sm_scales m ! i = Some S \<and> near_weights S (normal (shapes ! i) i) (layers ! i))"
proof -
  let ?W = "\<lambda>i. normal (shapes ! i) i"
  define wss where "wss = map ?W [0..<length shapes]"
  have enum: "map (\<lambda>(i, shape). normal shape i) (enumerate 0 shapes) = wss"
    by (rule nth_equalityI) (simp_all add: wss_def nth_enumerate_eq)
  have len: "length wss = length shapes" by (simp add: wss_def)
  have W: "wss ! i = ?W i" if "i < length shapes" for i using that by (simp add: wss_def)
  have rt: "\<exists>S layer. quantize_layer cast (?W i) = Inr (quantized cast (?W i)) \<and>
      length (fst (quantized cast (?W i))) = length (?W i) \<and> fst (snd (quantized cast (?W i))) = Some S \<and>
      dequantize_layer (fst (quantized cast (?W i))) (shapes ! i) (Some S) (snd (snd (quantized cast (?W i)))) =
        Inr layer \<and> near_weights S (?W i) layer" if "i < length shapes" for i
    using layer_roundtrip [OF assms(2) [OF that], of cast] by (auto simp: quantized_def)
  then obtain scale layer where rt: "\<And>i. i < length shapes \<Longrightarrow> quantize_layer cast (?W i) = Inr (quantized cast (?W i)) \<and>
      length (fst (quantized cast (?W i))) = length (?W i) \<and> fst (snd (quantized cast (?W i))) = Some (scale i) \<and>
      dequantize_layer (fst (quantized cast (?W i))) (shapes ! i) (Some (scale i)) (snd (snd (quantized cast (?W i)))) =
        Inr (layer i) \<and> near_weights (scale i) (?W i) (layer i)" by metis
  have q: "quantize_layer cast ws = Inr (quantized cast ws)" if "ws \<in> set wss" for ws
    using that rt by (auto simp: wss_def)
  define m where "m = \<lparr>sm_shapes = shapes,
       sm_compressed = map (\<lambda>ws. lzma_compress E 6 (fst (quantized cast ws))) wss,
       sm_scales = map (\<lambda>ws. fst (snd (quantized cast ws))) wss, sm_zero_points = map (\<lambda>ws. snd (snd (quantized cast ws))) wss,
       sm_raw_total = 4 * sum_list (map length wss),
       sm_held_total = sum_list (map (\<lambda>ws. length (lzma_compress E 6 (fst (quantized cast ws)))) wss)\<rparr>"
  have "sm_init E cast normal shapes = Inr m"
    using add_layers_all [of wss cast E, OF q] by (simp add: sm_init_def enum m_def)
  moreover have load: "load_layer E m i (shapes ! i) = Inr (layer i)" if "i < length shapes" for i
    using that rt [OF that] by (simp add: load_layer_def py_index_def m_def len W lzma_roundtrip [OF assms(1)])
  have "mapM (\<lambda>(i, shape). load_layer E m i shape) (enumerate 0 shapes) = Inr (map (\<lambda>(i, _). layer i) (enumerate 0 shapes))"
    by (rule mapM_Inr) (auto simp: in_set_conv_nth nth_enumerate_eq load)
  then obtain res where "sm_run E rss m = Inr (map (\<lambda>(i, _). layer i) (enumerate 0 shapes), res)"
    "mr_layers_run res = length shapes" "mr_raw_mb res = raw_size_mb m" "mr_held_mb res = held_size_mb m"
    by (simp add: sm_run_def m_def)
  moreover have "sm_raw_total m = 4 * (\<Sum>i < length shapes. length (?W i))"
    by (simp add: m_def wss_def comp_def interv_sum_list_conv_sum_set_nat atLeast0LessThan)
  moreover have "sm_held_total m = sum_list (map length (sm_compressed m))" by (simp add: m_def comp_def)
  moreover have "\<exists>S q. lzma_decompress E (sm_compressed m ! i) = Inr q \<and> length q = length (?W i) \<and>
      sm_scales m ! i = Some S \<and> near_weights S (?W i) (map (\<lambda>(i, _). layer i) (enumerate 0 shapes) ! i)" if "i < length shapes" for i
    using that rt [OF that] by (simp add: m_def len W lzma_roundtrip [OF assms(1)] nth_enumerate_eq)
  ultimately show ?thesis
    by (intro exI [of _ m] exI [of _ "map (\<lambda>(i, _). layer i) (enumerate 0 shapes)"] exI [of _ res])
      (simp add: raw_size_mb_def held_size_mb_def)
qed

lemma fl32_one: "fl32 1 = Some 1"
proof -
  obtain y where y: "fl32 1 = Some y" "\<bar>y - 1\<bar> \<le> \<bar>1\<bar> / 2 ^ 24" by (rule fl32_ok [of 1]) simp_all
  obtain v where v: "ulp_of 254 24 (1 / 2 ^ 149) 1 = Some v" "y = of_int (round_even (1 / v)) * v"
    using y(1) by (auto simp: fl32_def fl_def Let_def split: option.splits if_splits)
  obtain j where j: "v = 2 ^ j * (1 / 2 ^ 149)" "j = 0 \<or> 2 ^ 24 * v \<le> 2 * \<bar>1\<bar>" using ulp_of_Some [OF v(1)] by auto
  have "j \<le> 149"
  proof (rule ccontr)
    assume "\<not> j \<le> 149"
    then have "(2 :: rat) ^ 149 \<le> 2 ^ j" by (intro power_increasing) simp_all
    then have "1 \<le> v" using j(1) by simp
    then show False using j(2) \<open>\<not> j \<le> 149\<close> by auto
  qed
  then have "(2 :: rat) ^ 149 / 2 ^ j = 2 ^ (149 - j)" by (rule power_diff [symmetric, rotated]) simp
  moreover have "1 / v = 2 ^ 149 / 2 ^ j" unfolding j(1) by simp
  ultimately have "1 / v = of_int (2 ^ (149 - j))" by simp
  then have "y = 1 / v * v" using v(2) by (simp only: round_even_int)
  then have "y = 1" using j(1) by simp
  then show ?thesis using y(1) by simp
qed

text \<open>A layer of the two weights 0 and 1.\<close>

theorem streamed_model_keeps_weights_witness:
  "\<exists>m layers res. sm_init demo_env (\<lambda>_. 0) (\<lambda>_ _. [0, 1]) [[2, 1]] = Inr m \<and>
    sm_run demo_env (\<lambda>_. 9) m = Inr (layers, res) \<and> length layers = 1 \<and> mr_layers_run res = 1"
proof -
  have "layer_ok ([[2, 1]] ! i) [0, 1]" if "i < length [[2 :: nat, 1]]" for i
    using that fl32_zero fl32_one by (simp add: layer_ok_def)
  from streamed_model_keeps_weights [OF env_okD(2) [OF demo_env_ok], of "[[2, 1]]" "\<lambda>_ _. [0, 1]", OF this, of "\<lambda>_. 0" "\<lambda>_. 9"]
  show ?thesis by simp blast
qed

text \<open>
  Below that range the scale itself rounds to zero in 32 bits: every quotient is undefined, and so are the bytes;
  what comes back is the zero point for all weights.
\<close>

lemma tiny_range_is_lost:
  assumes "fl32 S = Some 0" "scale_of (Min (set ws)) (Max (set ws)) = Some S" "ws \<noteq> []" "fl32 (Min (set ws)) = Some (Min (set ws))"
  shows "quantize_layer cast ws = Inr (map (\<lambda>w. cast None) ws, Some S, Min (set ws))"
    and "dequantize_layer data [length data] (Some S) (Min (set ws)) = Inr (map (\<lambda>_. Some (Min (set ws))) data)"
proof -
  have "quantize_value cast (Some 0) (Some m) w = cast None" for m w
    by (cases "fl32 (w - m)") (simp_all add: quantize_value_def divide32_def to_uint8_def)
  then show "quantize_layer cast ws = Inr (map (\<lambda>w. cast None) ws, Some S, Min (set ws))"
    using assms by (simp add: quantize_layer_def Let_def)
  show "dequantize_layer data [length data] (Some S) (Min (set ws)) = Inr (map (\<lambda>_. Some (Min (set ws))) data)"
    using assms fl32_zero by (simp add: dequantize_layer_def dequantize_value_def)
qed

end
