(* ===== verification/Attacker.thy ===== *)
theory Attacker
  imports Wire Measure LayerStreaming
begin

text \<open>
  \<open>_ultimate_multifile_attacker.py\<close>: another process reads the memory of one that holds files, region by region as
  \<open>/proc/<pid>/maps\<close> lists them, and looks for byte strings of the original files. What the kernel answers is a
  record of parameters; \<open>scan_once\<close>, the loop of trials and the summary are the program's.
\<close>

section \<open>Numbers and lines of the listing\<close>

text \<open>\<open>int(s, 16)\<close> of a word without a minus: a plus, the prefix \<open>0x\<close>, digits with single underscores between them.\<close>

fun hex_digits :: "bool \<Rightarrow> nat \<Rightarrow> string \<Rightarrow> nat res" where
  "hex_digits digit n [] = (if digit then Inr n else Inl ValueError)"
| "hex_digits digit n (c # cs) =
     (case unhex c of Some d \<Rightarrow> hex_digits True (16 * n + d) cs
      | None \<Rightarrow> if c = CHR ''_'' \<and> digit then hex_digits False n cs else Inl ValueError)"

definition int16 :: "string \<Rightarrow> nat res" where
  "int16 s =
     (let t = (case s of c # cs \<Rightarrow> if c = CHR ''+'' then cs else s | [] \<Rightarrow> s) in
      if take 2 t \<in> {''0x'', ''0X''}
      then (case drop 2 t of c # cs \<Rightarrow> if c = CHR ''_'' then hex_digits False 0 cs else hex_digits False 0 (c # cs)
            | [] \<Rightarrow> Inl ValueError)
      else hex_digits False 0 t)"

text \<open>\<open>start_s, end_s = addr_range.split("-")\<close> wants exactly one dash; then both numbers.\<close>

definition split_dash :: "string \<Rightarrow> (string \<times> string) res" where
  "split_dash s =
     (let a = takeWhile (\<lambda>c. c \<noteq> CHR ''-'') s; b = drop (Suc (length a)) s in
      if length a < length s \<and> CHR ''-'' \<notin> set b then Inr (a, b) else Inl ValueError)"

definition region_bounds :: "string \<Rightarrow> (nat \<times> nat) res" where
  "region_bounds addr_range =
     (case split_dash addr_range of Inl e \<Rightarrow> Inl e
      | Inr (a, b) \<Rightarrow>
          (case int16 a of Inl e \<Rightarrow> Inl e | Inr start \<Rightarrow> map_res (Pair start) (int16 b)))"

text \<open>\<open>p in s\<close> for strings and byte strings.\<close>

fun contains :: "'a list \<Rightarrow> 'a list \<Rightarrow> bool" where
  "contains p [] = (p = [])"
| "contains p (x # xs) = (take (length p) (x # xs) = p \<or> contains p xs)"

section \<open>One scan\<close>

text \<open>
  The victim: the lines of its listing, whether its memory can be opened, and what \<open>seek\<close> and \<open>read\<close> of a number of
  bytes give (\<open>None\<close>: an \<open>OSError\<close>). A missing process, whichever exception it shows by, is \<open>FileNotFoundError\<close>, and
  so is the denied permission that the second \<open>except\<close> names.
\<close>

record victim =
  tp_maps :: "string list res"
  tp_open :: "unit res"
  tp_read :: "nat \<Rightarrow> nat \<Rightarrow> bytes option"

record scan =
  sn_found :: "(string, bool) dict"
  sn_regions :: nat
  sn_bytes :: nat
  sn_alive :: bool

definition MAX_REGION :: nat where
  "MAX_REGION = 512 * 1024 * 1024"

text \<open>The loop over the markers, for one chunk.\<close>

definition mark :: "bytes \<Rightarrow> string \<times> bytes \<Rightarrow> (string, bool) dict \<Rightarrow> (string, bool) dict" where
  "mark chunk nm found =
     (if dict_get found (fst nm) \<noteq> Some True \<and> contains (snd nm) chunk then dict_set (fst nm) True found else found)"

definition special_path :: "string \<Rightarrow> bool" where
  "special_path path \<longleftrightarrow> contains ''[vsyscall]'' path \<or> contains ''[vvar]'' path"

text \<open>
  The body of the loop over the lines. An address that does not fit a 64-bit file offset makes \<open>seek\<close> raise
  \<open>OverflowError\<close>, which is no \<open>OSError\<close>.
\<close>

definition scan_line :: "victim \<Rightarrow> (string, bytes) dict \<Rightarrow> string \<Rightarrow> scan \<Rightarrow> scan res" where
  "scan_line T marker_bytes line s =
     (let parts = split_words line; path = (if 6 \<le> length parts then last parts else []) in
      if length parts < 2 \<or> CHR ''r'' \<notin> set (parts ! 1) \<or> special_path path then Inr s
      else (case region_bounds (parts ! 0) of Inl _ \<Rightarrow> Inr s
        | Inr (start, stop) \<Rightarrow>
            if stop \<le> start \<or> MAX_REGION < stop - start then Inr s
            else if 2 ^ 63 \<le> start then Inl OverflowError
            else (case tp_read T start (stop - start) of None \<Rightarrow> Inr s
              | Some chunk \<Rightarrow>
                  if chunk = [] then Inr s
                  else Inr (s\<lparr>sn_found := fold (mark chunk) marker_bytes (sn_found s), sn_regions := sn_regions s + 1,
                              sn_bytes := sn_bytes s + length chunk\<rparr>))))"

fun scan_lines :: "victim \<Rightarrow> (string, bytes) dict \<Rightarrow> string list \<Rightarrow> scan \<Rightarrow> scan res" where
  "scan_lines T marker_bytes [] s = Inr s"
| "scan_lines T marker_bytes (l # ls) s =
     (case scan_line T marker_bytes l s of Inl e \<Rightarrow> Inl e | Inr s' \<Rightarrow> scan_lines T marker_bytes ls s')"

definition scan_once :: "victim \<Rightarrow> (string, bytes) dict \<Rightarrow> scan res" where
  "scan_once T marker_bytes =
     (let found = map (\<lambda>(name, _). (name, False)) marker_bytes;
          gone = \<lparr>sn_found = found, sn_regions = 0, sn_bytes = 0, sn_alive = False\<rparr> in
      case tp_maps T of Inl e \<Rightarrow> if e = FileNotFoundError then Inr gone else Inl e
      | Inr maps_lines \<Rightarrow>
          (case tp_open T of Inl e \<Rightarrow> if e = FileNotFoundError then Inr gone else Inl e
           | Inr _ \<Rightarrow> scan_lines T marker_bytes maps_lines (gone\<lparr>sn_alive := True\<rparr>)))"

section \<open>The script\<close>

text \<open>
  Three markers with the names of their files, from the manifest; two of the same name leave one. The seconds a trial
  takes are an argument, and so is the way Python prints a fraction.
\<close>

definition markers_of :: "(string \<times> string) list \<Rightarrow> (string, bytes) dict" where
  "markers_of ms = fold (\<lambda>(file, marker). dict_set file (encode_utf8 marker)) ms []"

record trial =
  tr_scan :: scan
  tr_trial :: nat
  tr_seconds :: rat

definition round3 :: "rat \<Rightarrow> rat" where
  "round3 x = of_int (round_even (x * 1000)) / 1000"

text \<open>\<open>range(trials)\<close> from trial \<open>i\<close> on; a dead victim ends the loop.\<close>

fun trial_loop :: "(nat \<Rightarrow> victim) \<Rightarrow> (nat \<Rightarrow> rat) \<Rightarrow> (string, bytes) dict \<Rightarrow> nat \<Rightarrow> nat \<Rightarrow> trial list res" where
  "trial_loop T secs marker_bytes i 0 = Inr []"
| "trial_loop T secs marker_bytes i (Suc n) =
     (case scan_once (T i) marker_bytes of Inl e \<Rightarrow> Inl e
      | Inr r \<Rightarrow>
          (let t = \<lparr>tr_scan = r, tr_trial = i, tr_seconds = round3 (secs i)\<rparr> in
           if \<not> sn_alive r then Inr [t] else map_res ((#) t) (trial_loop T secs marker_bytes (Suc i) n)))"

definition trial_json :: "(rat \<Rightarrow> string) \<Rightarrow> trial \<Rightarrow> json" where
  "trial_json shown t =
     (let r = tr_scan t in
      JObj [(''found'', JObj (dict_map JBool (sn_found r))), (''regions_scanned'', JInt (int (sn_regions r))),
            (''bytes_scanned'', JInt (int (sn_bytes r))), (''target_alive'', JBool (sn_alive r)),
            (''trial'', JInt (int (tr_trial t))), (''seconds'', JFloat (shown (tr_seconds t)))])"

record summary =
  su_completed :: nat
  su_any_found :: bool
  su_total_hits :: nat
  su_avg_seconds :: "rat option"
  su_regions_last :: nat
  su_bytes_last :: nat

definition hits :: "scan \<Rightarrow> nat" where
  "hits r = length (filter snd (sn_found r))"

definition summarise :: "trial list \<Rightarrow> summary" where
  "summarise results =
     (let completed = filter (\<lambda>t. sn_alive (tr_scan t)) results in
      \<lparr>su_completed = length completed,
       su_any_found = list_ex (\<lambda>t. list_ex snd (sn_found (tr_scan t))) results,
       su_total_hits = sum_list (map (\<lambda>t. hits (tr_scan t)) results),
       su_avg_seconds = (if completed = [] then None
                         else Some (round3 (sum_list (map tr_seconds completed) / of_nat (length completed)))),
       su_regions_last = (if completed = [] then 0 else sn_regions (tr_scan (last completed))),
       su_bytes_last = (if completed = [] then 0 else sn_bytes (tr_scan (last completed)))\<rparr>)"

definition summary_json :: "(rat \<Rightarrow> string) \<Rightarrow> summary \<Rightarrow> json" where
  "summary_json shown s =
     JObj [(''summary'', JBool True), (''trials_completed'', JInt (int (su_completed s))),
           (''any_marker_found'', JBool (su_any_found s)), (''total_marker_hits'', JInt (int (su_total_hits s))),
           (''avg_seconds'', case su_avg_seconds s of None \<Rightarrow> JNull | Some x \<Rightarrow> JFloat (shown x)),
           (''regions_scanned_last'', JInt (int (su_regions_last s))),
           (''bytes_scanned_last'', JInt (int (su_bytes_last s)))]"

text \<open>What \<open>main\<close> prints, a line per trial and one for the summary.\<close>

definition attacker_main :: "(rat \<Rightarrow> string) \<Rightarrow> (nat \<Rightarrow> victim) \<Rightarrow> (nat \<Rightarrow> rat) \<Rightarrow> (string \<times> string) list \<Rightarrow> nat \<Rightarrow> string list res" where
  "attacker_main shown T secs markers trials =
     map_res (\<lambda>results. map (\<lambda>j. dumps j @ newline) (map (trial_json shown) results @ [summary_json shown (summarise results)]))
       (trial_loop T secs (markers_of markers) 0 trials)"

section \<open>Listings as the kernel prints them\<close>

lemma contains_iff: "contains p xs \<longleftrightarrow> (\<exists>a b. xs = a @ p @ b)"
proof (induction xs)
  case (Cons x xs)
  have "take (length p) (x # xs) = p \<longleftrightarrow> (\<exists>b. x # xs = p @ b)"
    by (metis append_eq_conv_conj append_take_drop_id)
  moreover have "(\<exists>a b. x # xs = a @ p @ b) \<longleftrightarrow> (\<exists>b. x # xs = p @ b) \<or> (\<exists>a b. xs = a @ p @ b)"
    by (auto simp: Cons_eq_append_conv)
  ultimately show ?case using Cons by simp
qed simp

fun hexs :: "nat \<Rightarrow> string" where
  "hexs n = (if n < 16 then [hex_digit n] else hexs (n div 16) @ [hex_digit (n mod 16)])"

declare hexs.simps [simp del]

lemma hex_digits_append:
  "hex_digits b n xs = Inr m \<Longrightarrow> xs \<noteq> [] \<Longrightarrow> list_all (\<lambda>c. unhex c \<noteq> None) xs \<Longrightarrow> hex_digits b n (xs @ ys) = hex_digits True m ys"
proof (induction b n xs rule: hex_digits.induct)
  case (2 digit n c cs)
  then show ?case by (cases "cs = []") (auto split: option.splits)
qed simp

lemma hexs_facts: "hexs n \<noteq> [] \<and> list_all (\<lambda>c. unhex c \<noteq> None) (hexs n) \<and> hex_digits False 0 (hexs n) = Inr n"
proof (induction n rule: hexs.induct)
  case (1 n)
  show ?case
  proof (cases "n < 16")
    case True
    then show ?thesis by (subst (1 2 3) hexs.simps) (simp add: unhex_digit)
  next
    case False
    then have "hex_digits False 0 (hexs (n div 16) @ [hex_digit (n mod 16)]) = hex_digits True (n div 16) [hex_digit (n mod 16)]"
      using 1 hex_digits_append by blast
    then show ?thesis using False 1 by (subst (1 2 3) hexs.simps) (simp add: unhex_digit)
  qed
qed

definition padded :: "nat \<Rightarrow> string" where
  "padded n = replicate (8 - length (hexs n)) (CHR ''0'') @ hexs n"

lemma padded_facts: "padded n \<noteq> [] \<and> list_all (\<lambda>c. unhex c \<noteq> None) (padded n) \<and> hex_digits False 0 (padded n) = Inr n"
proof -
  have zeros: "xs \<noteq> [] \<Longrightarrow> list_all (\<lambda>c. unhex c \<noteq> None) xs \<Longrightarrow> hex_digits False 0 xs = Inr m \<Longrightarrow>
      hex_digits b 0 (replicate k (CHR ''0'') @ xs) = Inr m" for b k m xs
  proof (induction k arbitrary: b)
    case 0
    then show ?case by (cases xs) (auto split: option.splits)
  next
    case (Suc k)
    then show ?case by (simp add: unhex_def)
  qed
  have z: "unhex (CHR ''0'') = Some 0" by (simp add: unhex_def)
  show ?thesis
    using hexs_facts [of n] zeros [of "hexs n" n False] by (auto simp: padded_def z list_all_iff)
qed

lemma unhex_not: "unhex (CHR ''+'') = None" "unhex (CHR ''x'') = None" "unhex (CHR ''X'') = None" "unhex (CHR ''-'') = None"
    "is_blank c \<Longrightarrow> unhex c = None"
  by (simp_all add: unhex_def) (auto simp: is_blank_def unhex_def)

lemma not_blankI: "(of_char c :: nat) \<notin> {9, 10, 32} \<Longrightarrow> \<not> is_blank c"
  by (auto simp: is_blank_def)

lemma int16_padded: "int16 (padded n) = Inr n"
proof -
  obtain c cs where p: "padded n = c # cs" using padded_facts [of n] by (cases "padded n") auto
  have "list_all (\<lambda>c. unhex c \<noteq> None) (c # cs)" "hex_digits False 0 (c # cs) = Inr n" using padded_facts [of n] p by simp_all
  moreover from this have "c \<noteq> CHR ''+''" "take 2 (c # cs) \<noteq> ''0x''" "take 2 (c # cs) \<noteq> ''0X''"
    using unhex_not by (auto simp: take_Cons split: nat.splits) (cases cs; auto)+
  ultimately show ?thesis by (auto simp: int16_def p Let_def)
qed

lemma split_words_line:
  "list_all (\<lambda>w. w \<noteq> [] \<and> list_all (\<lambda>c. \<not> is_blank c) w) ws \<Longrightarrow> split_words (sep_by '' '' ws @ newline) = ws"
proof (induction ws)
  case Nil
  then show ?case by (simp add: newline_def split_words.simps is_blank_def)
next
  case (Cons w ws)
  have b: "is_blank (CHR '' '')" "is_blank (char_of (10 :: nat))" by (simp_all add: is_blank_def)
  have w: "w \<noteq> []" "list_all (\<lambda>c. \<not> is_blank c) w" using Cons.prems by simp_all
  show ?case
  proof (cases "ws = []")
    case True
    then show ?thesis using split_words_word(1) [OF w b(2), of "[]"] by (simp add: newline_def split_words.simps)
  next
    case False
    then show ?thesis using split_words_word(1) [OF w b(1)] Cons by (simp add: sep_by_Cons)
  qed
qed

text \<open>A line: the range, the permissions, then offset, device, inode and the words of the path.\<close>

record maps_entry =
  ma_start :: nat
  ma_stop :: nat
  ma_perms :: string
  ma_rest :: "string list"

definition entry_words :: "maps_entry \<Rightarrow> string list" where
  "entry_words r = (padded (ma_start r) @ ''-'' @ padded (ma_stop r)) # ma_perms r # ma_rest r"

definition maps_line :: "maps_entry \<Rightarrow> string" where
  "maps_line r = sep_by '' '' (entry_words r) @ newline"

definition entry_ok :: "maps_entry \<Rightarrow> bool" where
  "entry_ok r \<longleftrightarrow> ma_start r < 2 ^ 63 \<and> list_all (\<lambda>w. w \<noteq> [] \<and> list_all (\<lambda>c. \<not> is_blank c) w) (ma_perms r # ma_rest r)"

definition scannable :: "maps_entry \<Rightarrow> bool" where
  "scannable r \<longleftrightarrow> CHR ''r'' \<in> set (ma_perms r) \<and> \<not> (4 \<le> length (ma_rest r) \<and> special_path (last (ma_rest r))) \<and>
     ma_start r < ma_stop r \<and> ma_stop r - ma_start r \<le> MAX_REGION"

lemma region_bounds_printed: "region_bounds (padded a @ ''-'' @ padded b) = Inr (a, b)"
proof -
  have no_dash: "CHR ''-'' \<notin> set (padded n)" for n
    using padded_facts [of n] unhex_not(4) by (auto simp: list_all_iff)
  have "takeWhile (\<lambda>c. c \<noteq> CHR ''-'') (padded a @ CHR ''-'' # padded b) =
      padded a @ takeWhile (\<lambda>c. c \<noteq> CHR ''-'') (CHR ''-'' # padded b)"
    by (rule takeWhile_append2) (use no_dash [of a] in auto)
  then show ?thesis using no_dash [of b] by (simp add: region_bounds_def split_dash_def int16_padded)
qed

lemma printed_words: "entry_ok r \<Longrightarrow> split_words (maps_line r) = entry_words r"
proof -
  assume ok: "entry_ok r"
  have "list_all (\<lambda>c. \<not> is_blank c) (padded n)" for n
    using padded_facts [of n] unhex_not(5) by (auto simp: list_all_iff)
  moreover have "\<not> is_blank (CHR ''-'')" by (simp add: not_blankI)
  ultimately show ?thesis
    unfolding maps_line_def using ok padded_facts by (intro split_words_line) (simp add: entry_words_def entry_ok_def)
qed

text \<open>What of a region gets into the scan.\<close>

definition dumped :: "victim \<Rightarrow> maps_entry \<Rightarrow> bytes option" where
  "dumped T r =
     (if scannable r then (case tp_read T (ma_start r) (ma_stop r - ma_start r) of Some c \<Rightarrow> if c = [] then None else Some c | None \<Rightarrow> None)
      else None)"

lemma scan_line_printed:
  assumes "entry_ok r"
  shows "scan_line T ms (maps_line r) s =
    Inr (case dumped T r of None \<Rightarrow> s
      | Some c \<Rightarrow> s\<lparr>sn_found := fold (mark c) ms (sn_found s), sn_regions := sn_regions s + 1, sn_bytes := sn_bytes s + length c\<rparr>)"
proof -
  have "ma_start r < 2 ^ 63" "\<not> special_path []" using assms by (simp_all add: entry_ok_def special_path_def)
  then show ?thesis
    unfolding scan_line_def printed_words [OF assms]
    by (cases "tp_read T (ma_start r) (ma_stop r - ma_start r)")
      (auto simp: Let_def entry_words_def region_bounds_printed [simplified] dumped_def scannable_def)
qed

lemma mark_get: "dict_get (mark c nm f) n = (if n = fst nm \<and> contains (snd nm) c then Some True else dict_get f n)"
  by (auto simp: mark_def)

lemma marks_get:
  "distinct (map fst ms) \<Longrightarrow> (n, m) \<in> set ms \<Longrightarrow>
     dict_get (fold (mark c) ms f) n = (if contains m c then Some True else dict_get f n)"
proof (induction ms arbitrary: f)
  case (Cons nm ms)
  have other: "n \<notin> fst ` set ms \<Longrightarrow> dict_get (fold (mark c) ms f) n = dict_get f n" for f
    by (induction ms arbitrary: f) (auto simp: mark_get)
  show ?case
    using Cons other by (cases "(n, m) = nm") (auto simp: mark_get image_iff)
qed simp

lemma mark_keys: "fst nm \<in> fst ` set f \<Longrightarrow> map fst (mark c nm f) = map fst f"
  by (auto simp: mark_def dict_set_def update_keys)

lemma marks_keys: "fst ` set ms \<subseteq> fst ` set f \<Longrightarrow> map fst (fold (mark c) ms f) = map fst f"
proof (induction ms arbitrary: f)
  case (Cons nm ms)
  have k: "map fst (mark c nm f) = map fst f" using Cons.prems by (intro mark_keys) simp
  then have "fst ` set (mark c nm f) = fst ` set f" by (metis list.set_map)
  then show ?case using Cons k by simp
qed simp

lemma scan_lines_printed:
  assumes "list_all entry_ok rs" "distinct (map fst ms)" "map fst (sn_found s) = map fst ms"
  shows "\<exists>t. scan_lines T ms (map maps_line rs) s = Inr t \<and> map fst (sn_found t) = map fst ms \<and> sn_alive t = sn_alive s \<and>
    sn_regions t = sn_regions s + length (filter (\<lambda>r. dumped T r \<noteq> None) rs) \<and>
    sn_bytes t = sn_bytes s + sum_list (map (\<lambda>r. case dumped T r of None \<Rightarrow> 0 | Some c \<Rightarrow> length c) rs) \<and>
    (\<forall>(n, m) \<in> set ms. dict_get (sn_found t) n =
       (if \<exists>r \<in> set rs. \<exists>c. dumped T r = Some c \<and> contains m c then Some True else dict_get (sn_found s) n))"
  using assms
proof (induction rs arbitrary: s)
  case (Cons r rs)
  define s1 where "s1 = (case dumped T r of None \<Rightarrow> s
      | Some c \<Rightarrow> s\<lparr>sn_found := fold (mark c) ms (sn_found s), sn_regions := sn_regions s + 1, sn_bytes := sn_bytes s + length c\<rparr>)"
  have sub: "fst ` set ms \<subseteq> fst ` set (sn_found s)" using Cons.prems(3) by (metis list.set_map order_refl)
  have keys: "map fst (sn_found s1) = map fst ms"
    using Cons.prems(3) marks_keys [OF sub] by (simp add: s1_def split: option.splits)
  have get: "(n, m) \<in> set ms \<Longrightarrow> dict_get (sn_found s1) n =
      (if \<exists>c. dumped T r = Some c \<and> contains m c then Some True else dict_get (sn_found s) n)" for n m
    using marks_get [OF Cons.prems(2)] by (simp add: s1_def split: option.splits)
  have "list_all entry_ok rs" using Cons.prems by simp
  from Cons.IH [OF this Cons.prems(2) keys] obtain t where t:
    "scan_lines T ms (map maps_line rs) s1 = Inr t" "map fst (sn_found t) = map fst ms" "sn_alive t = sn_alive s1"
    "sn_regions t = sn_regions s1 + length (filter (\<lambda>r. dumped T r \<noteq> None) rs)"
    "sn_bytes t = sn_bytes s1 + sum_list (map (\<lambda>r. case dumped T r of None \<Rightarrow> 0 | Some c \<Rightarrow> length c) rs)"
    "\<forall>(n, m) \<in> set ms. dict_get (sn_found t) n =
       (if \<exists>r \<in> set rs. \<exists>c. dumped T r = Some c \<and> contains m c then Some True else dict_get (sn_found s1) n)" by blast
  have step: "scan_line T ms (maps_line r) s = Inr s1"
    using Cons.prems(1) scan_line_printed [of r T ms s] by (simp add: s1_def)
  have "\<forall>(n, m) \<in> set ms. dict_get (sn_found t) n =
       (if \<exists>r \<in> set (r # rs). \<exists>c. dumped T r = Some c \<and> contains m c then Some True else dict_get (sn_found s) n)"
    using t(6) get by fastforce
  moreover have "sn_alive s1 = sn_alive s" "sn_regions s1 = sn_regions s + (if dumped T r = None then 0 else 1)"
    "sn_bytes s1 = sn_bytes s + (case dumped T r of None \<Rightarrow> 0 | Some c \<Rightarrow> length c)"
    by (simp_all add: s1_def split: option.splits)
  ultimately show ?case using t step by (intro exI [of _ t]) auto
qed simp

section \<open>What a scan finds\<close>

text \<open>The marker lies somewhere in the bytes from \<open>a\<close> up to \<open>b\<close>.\<close>

definition in_memory :: "(nat \<Rightarrow> byte) \<Rightarrow> nat \<Rightarrow> nat \<Rightarrow> bytes \<Rightarrow> bool" where
  "in_memory mem a b m \<longleftrightarrow> (\<exists>i. a \<le> i \<and> i + length m \<le> b \<and> map mem [i..<i + length m] = m)"

lemma upt_split: "a \<le> i \<Longrightarrow> i \<le> b \<Longrightarrow> [a..<b] = [a..<i] @ [i..<b]"
  using upt_add_eq_append [of a i "b - i"] by simp

lemma contains_memory: "a \<le> b \<Longrightarrow> contains m (map mem [a..<b]) \<longleftrightarrow> in_memory mem a b m"
proof
  assume ab: "a \<le> b" and "contains m (map mem [a..<b])"
  then obtain u v where uv: "map mem [a..<b] = u @ m @ v" by (auto simp: contains_iff)
  have len: "a + length u + length m \<le> b" using arg_cong [OF uv, of length] ab by simp
  have "take (length m) (drop (length u) (map mem [a..<b])) = m" unfolding uv by simp
  then have "map mem [a + length u..<a + length u + length m] = m"
    using len by (simp add: drop_map take_map)
  then show "in_memory mem a b m" using len by (auto simp: in_memory_def intro: exI [of _ "a + length u"])
next
  assume "in_memory mem a b m"
  then obtain i where i: "a \<le> i" "i + length m \<le> b" "map mem [i..<i + length m] = m" by (auto simp: in_memory_def)
  then have "[a..<b] = [a..<i] @ [i..<i + length m] @ [i + length m..<b]"
    using upt_split [of a i b] upt_split [of i "i + length m" b] by simp
  then have "map mem [a..<b] = map mem [a..<i] @ m @ map mem [i + length m..<b]" using i(3) by simp
  then show "contains m (map mem [a..<b])" unfolding contains_iff by blast
qed


text \<open>A marker that lies across the border of two regions.\<close>

definition demo_regions :: "maps_entry list" where
  "demo_regions = map (\<lambda>(a, b). \<lparr>ma_start = a, ma_stop = b, ma_perms = ''rw-p'', ma_rest = [''00000000'', ''00:00'', ''0'']\<rparr>)
     [(4096, 4099), (4099, 4102)]"

definition demo_target :: victim where
  "demo_target = \<lparr>tp_maps = Inr (map maps_line demo_regions), tp_open = Inr (),
     tp_read = (\<lambda>a n. Some (map of_nat [a..<a + n]))\<rparr>"


end
