(* ===== verification/StoreTypes.thy ===== *)
theory StoreTypes
  imports SecureRetrieval
begin

text \<open>
  Type safety of the secure store: the calls of its whole interface and the turns of its movers as one step function,
  the well-formedness every one of them keeps, and the exceptions each call may raise.
\<close>

section \<open>Calls\<close>

datatype sv_call =
    CSave disk "which \<Rightarrow> draws" string string
  | CSaveBytes "which \<Rightarrow> draws" string bytes string
  | CRetrieve string request
  | CToFile string string request world
  | CToEncrypted "nat \<Rightarrow> bytes" bytes string string "bytes option" request world
  | CToDestination "nat \<Rightarrow> bytes" bytes string time time string string string request time world
  | CRedeem time string
  | COriginalSize string
  | CForget string
  | CCollapseAll
  | CMotion sv_event

definition raised :: "'a res \<Rightarrow> pyerr option" where
  "raised r = (case r of Inl e \<Rightarrow> Some e | Inr _ \<Rightarrow> None)"

text \<open>What a call raises, if anything, and the store afterwards.\<close>

fun sv_do :: "env \<Rightarrow> sv_call \<Rightarrow> sstore \<Rightarrow> pyerr option \<times> sstore" where
  "sv_do E (CSave fs D i path) s = (let (r, s') = sv_save E fs D i path s in (raised r, s'))"
| "sv_do E (CSaveBytes D i raw name) s = (let (r, s') = sv_save_bytes E D i raw name s in (raised r, s'))"
| "sv_do E (CRetrieve i req) s = (let (r, s') = sv_retrieve E i req s in (raised r, s'))"
| "sv_do E (CToFile i dest req w) s = (let (r, _, s') = sv_retrieve_to_file E i dest req w s in (raised r, s'))"
| "sv_do E (CToEncrypted nonces fresh i dest key req w) s =
     (let (r, _, s') = sv_retrieve_to_encrypted_file E nonces fresh i dest key req w s in (raised r, s'))"
| "sv_do E (CToDestination nonces fresh token now sn i dest trust req ttl w) s =
     (let (r, _, s') = sv_retrieve_to_destination E nonces fresh token now sn i dest trust req ttl w s in (raised r, s'))"
| "sv_do E (CRedeem now token) s = (let (r, s') = sv_redeem_key now token s in (raised r, s'))"
| "sv_do E (COriginalSize i) s = (raised (sv_original_size i s), s)"
| "sv_do E (CForget i) s = (None, fst (sv_forget i s))"
| "sv_do E CCollapseAll s = (None, sv_collapse_all s)"
| "sv_do E (CMotion e) s = (None, sv_step E e s)"

text \<open>The exceptions a call may raise; \<open>TrustGroupCompromised\<close> is a \<open>RuntimeError\<close> in the code.\<close>

fun may_raise :: "sv_call \<Rightarrow> pyerr set" where
  "may_raise (CSave _ _ _ _) = {FileNotFoundError, RuntimeError, TrustGroupCompromised}"
| "may_raise (CSaveBytes _ _ _ _) = {RuntimeError, TrustGroupCompromised}"
| "may_raise (CRetrieve _ _) = {KeyError}"
| "may_raise (CToFile _ _ _ _) = {KeyError, OSError}"
| "may_raise (CToEncrypted _ _ _ _ _ _ _) = {KeyError, OSError}"
| "may_raise (CToDestination _ _ _ _ _ _ _ trust _ _ _) =
     (if trust \<in> {''trusted'', ''untrusted'', ''hostile''} then {KeyError, OSError} else {ValueError})"
| "may_raise (CRedeem _ _) = {KeyError, TimeoutError}"
| "may_raise (COriginalSize _) = {KeyError}"
| "may_raise (CForget _) = {}"
| "may_raise CCollapseAll = {}"
| "may_raise (CMotion _) = {}"

text \<open>What the operating system draws has the right lengths.\<close>

fun call_ok :: "env \<Rightarrow> sv_call \<Rightarrow> bool" where
  "call_ok E (CSave fs D _ _) \<longleftrightarrow> (\<forall>w. draws_ok (D w))"
| "call_ok E (CSaveBytes D _ _ _) \<longleftrightarrow> (\<forall>w. draws_ok (D w))"
| "call_ok E (CToEncrypted nonces fresh _ _ key _ _) \<longleftrightarrow> wrap_ok E (case key of None \<Rightarrow> fresh | Some k \<Rightarrow> k) nonces"
| "call_ok E (CToDestination nonces fresh _ _ _ _ _ _ _ _ _) \<longleftrightarrow> wrap_ok E fresh nonces"
| "call_ok E (CMotion e) \<longleftrightarrow> sv_good e"
| "call_ok E _ \<longleftrightarrow> True"

section \<open>Well-formed stores\<close>

fun tg_ok :: "tgroup \<Rightarrow> bool" where
  "tg_ok (LocalGroup g) \<longleftrightarrow> (\<exists>rnd sec. group_ok dg_ask rnd sec g)"
| "tg_ok (NetGroup n) \<longleftrightarrow> (\<exists>rnd sec. network_ok rnd sec n)"

definition og_ok :: "tgroup option \<Rightarrow> bool" where
  "og_ok g \<longleftrightarrow> (\<forall>t. g = Some t \<longrightarrow> tg_ok t)"

definition sv_typed :: "env \<Rightarrow> sstore \<Rightarrow> bool" where
  "sv_typed E s \<longleftrightarrow> sv_ok E s \<and> og_ok (sv_group s) \<and> dict_ok (sv_pending s)"

lemma dg_fetch_errors: "group_ok dg_ask rnd sec g \<Longrightarrow> fst (dg_fetch g) = Inl e \<Longrightarrow> e = TrustGroupCompromised"
  using dg.too_few [of rnd sec g] dg.all_answer [of rnd sec g] dg.one_fails [of rnd sec g]
  by (metis Inl_Inr_False fst_conv linorder_not_le sum.inject(1))

lemma ng_fetch_errors: "network_ok rnd sec n \<Longrightarrow> fst (ng_fetch n) = Inl e \<Longrightarrow> e = TrustGroupCompromised"
  using ng.too_few [of n rnd sec] ng.all_answer [of n rnd sec] ng.one_fails [of n rnd sec]
  by (metis Inl_Inr_False fst_conv linorder_not_le sum.inject(1))

lemma ask_group_ok:
  assumes "og_ok g" "ask_group g = (trust, g')"
  shows "og_ok g'" "trust = Some (Inl e) \<Longrightarrow> e = TrustGroupCompromised"
proof -
  have "og_ok g' \<and> (trust = Some (Inl e) \<longrightarrow> e = TrustGroupCompromised)" for e
  proof (cases g)
    case None
    then show ?thesis using assms(2) by (simp add: ask_group_def og_ok_def)
  next
    case (Some t)
    show ?thesis
    proof (cases t)
      case (LocalGroup d)
      then obtain rnd sec where ok: "group_ok dg_ask rnd sec d" using assms(1) Some by (auto simp: og_ok_def)
      show ?thesis
        using assms(2) Some LocalGroup dg.fetch_ok [OF ok] dg_fetch_errors [OF ok]
        by (auto simp: ask_group_def tg_fetch_def og_ok_def split_def Let_def) blast
    next
      case (NetGroup n)
      then obtain rnd sec where ok: "network_ok rnd sec n" using assms(1) Some by (auto simp: og_ok_def)
      show ?thesis
        using assms(2) Some NetGroup ng.fetch_ok [OF ok] ng_fetch_errors [OF ok]
        by (auto simp: ask_group_def tg_fetch_def og_ok_def split_def Let_def) blast
    qed
  qed
  then show "og_ok g'" "trust = Some (Inl e) \<Longrightarrow> e = TrustGroupCompromised" by blast+
qed

section \<open>Saving\<close>

lemma cb_new_errors:
  assumes "env_ok E" "draws_ok D" "cb_new E trust D DEFAULT_CHUNK_SIZE iv nt d = Inl e"
  shows "trust = Some (Inl e)"
proof (cases "next_key E trust (d_key D)")
  case (Inl x)
  then show ?thesis using assms(3) next_key_asked [OF Inl] by (simp add: cb_new_def cb_build_def)
next
  case (Inr k)
  then show ?thesis using cb_new_ok [OF assms(1,2) Inr chunk_size_ok, of iv nt d] assms(3) by auto
qed

lemma cb_from_file_errors:
  assumes "env_ok E" "draws_ok D" "fs p = Some d" "cb_from_file E fs trust D DEFAULT_CHUNK_SIZE iv nt p = Inl e"
  shows "trust = Some (Inl e)"
proof (cases "next_key E trust (d_key D)")
  case (Inl x)
  then show ?thesis using assms(3,4) next_key_asked [OF Inl] by (simp add: cb_from_file_def cb_build_def)
next
  case (Inr k)
  then show ?thesis using cb_from_file_ok [of E D trust k DEFAULT_CHUNK_SIZE fs p d iv nt, OF assms(1,2) Inr chunk_size_ok assms(3)] assms(4) by auto
qed

lemma make_box_typed:
  assumes "env_ok E" "draws_ok D" "og_ok (sv_group s)" "make_box E fs D pc s = (r, s')"
  shows "og_ok (sv_group s')" "s' = s\<lparr>sv_group := sv_group s'\<rparr>"
    and "r = Inl e \<Longrightarrow> resolve fs pc = None \<and> e = FileNotFoundError \<or> e = TrustGroupCompromised"
proof -
  obtain trust g' where t: "ask_group (sv_group s) = (trust, g')" by fastforce
  note g = ask_group_ok [OF assms(3) t]
  show "og_ok (sv_group s')" "s' = s\<lparr>sv_group := sv_group s'\<rparr>"
    using assms(3,4) g(1) by (auto simp: make_box_def t Let_def split: piece.splits if_splits)
  show "resolve fs pc = None \<and> e = FileNotFoundError \<or> e = TrustGroupCompromised" if r: "r = Inl e"
  proof (cases "\<exists>p. pc = FromFile p \<and> fs p = None")
    case True
    then show ?thesis using assms(4) r by (auto simp: make_box_def t resolve_def)
  next
    case False
    have "trust = Some (Inl e)"
    proof (cases pc)
      case (Bytes d)
      then show ?thesis using assms(4) r cb_new_errors [OF assms(1,2)] by (auto simp: make_box_def t map_res_iff)
    next
      case (FromFile p)
      then obtain d where "fs p = Some d" using False by auto
      then show ?thesis
        using assms(4) r FromFile cb_from_file_errors [OF assms(1,2)] by (auto simp: make_box_def t map_res_iff)
    qed
    then show ?thesis using g(2) by simp
  qed
qed

lemma make_box_step:
  assumes "env_ok E" "draws_ok D" "sv_typed E s" "make_box E fs D pc s = (r, s')"
  shows "sv_typed E s'"
    and "r = Inl e \<Longrightarrow> resolve fs pc = None \<and> e = FileNotFoundError \<or> e = TrustGroupCompromised"
    and "r = Inr rb \<Longrightarrow> \<exists>d. cb_ok E d (rb_box rb)"
proof -
  have og: "og_ok (sv_group s)" using assms(3) by (simp add: sv_typed_def)
  note t = make_box_typed [OF assms(1,2) og assms(4)]
  show "sv_typed E s'" using assms(3) t(1) by (subst t(2)) (simp add: sv_typed_def sv_ok_group)
  show "r = Inl e \<Longrightarrow> resolve fs pc = None \<and> e = FileNotFoundError \<or> e = TrustGroupCompromised" by (rule t(3))
  obtain r' g where "make_box E fs D pc s = (r', s\<lparr>sv_group := g\<rparr>)"
    "\<And>rb. r' = Inr rb \<Longrightarrow> \<exists>data. resolve fs pc = Some data \<and> cb_ok E data (rb_box rb) \<and> rb_slot rb = None"
    by (rule make_box_ok [OF assms(1,2), where fs = fs and pc = pc and s = s]) blast
  then show "r = Inr rb \<Longrightarrow> \<exists>d. cb_ok E d (rb_box rb)" using assms(4) by auto
qed

lemma register_boxes_step:
  assumes "sv_typed E s" "\<forall>b \<in> set bs. \<exists>d. cb_ok E d (rb_box b)" "register_boxes bs s = (r, s')"
  shows "sv_typed E s'" "r = Inl e \<Longrightarrow> e = RuntimeError"
proof -
  have "sv_ok E s" using assms(1) by (simp add: sv_typed_def)
  then obtain r' wd' where "register_boxes bs s = (r', s\<lparr>sv_watchdog := wd'\<rparr>)" "sv_ok E (s\<lparr>sv_watchdog := wd'\<rparr>)"
    "r' = Inr () \<or> r' = Inl RuntimeError \<and> wd' = sv_watchdog s \<and> sv_watchdog s \<noteq> None"
    by (rule register_boxes_ok [OF _ assms(2)])
  then show "sv_typed E s'" "r = Inl e \<Longrightarrow> e = RuntimeError"
    using assms(1,3) by (auto simp: sv_typed_def)
qed

lemma orphan_typed [simp]: "sv_typed E (orphan bs s) = sv_typed E s"
  by (simp add: orphan_def sv_typed_def sv_ok_group)

lemma piece_size_error: "piece_size fs p = Inl e \<Longrightarrow> resolve fs p = None \<and> e = FileNotFoundError"
  by (auto simp: piece_size_def resolve_def getsize_def split: piece.splits option.splits)

text \<open>A failed save leaves no entry, but asks of the trust group, registers regions and leaves orphans.\<close>

lemma sv_hold_typed:
  assumes "env_ok E" "\<And>w. draws_ok (D w)" "sv_typed E s" "sv_hold E fs D i r name s = (res, s')"
  shows "sv_typed E s'"
    and "res = Inl e \<Longrightarrow> (\<exists>w. resolve fs (sr_piece r w) = None) \<and> e = FileNotFoundError \<or> e = TrustGroupCompromised \<or> e = RuntimeError"
proof -
  note step = make_box_step [OF assms(1,2)]
  obtain r1 s1 where m1: "make_box E fs (D Content) (sr_content r) s = (r1, s1)" by fastforce
  note b1 = step [OF assms(3) m1]
  obtain r2 s2 where m2: "make_box E fs (D Structure) (sr_structure r) s1 = (r2, s2)" by fastforce
  note b2 = step [OF b1(1) m2]
  obtain r3 s3 where m3: "make_box E fs (D Metadata) (Bytes (sr_metadata r)) s2 = (r3, s3)" by fastforce
  note b3 = step [OF b2(1) m3]
  have pieces: "sr_piece r Content = sr_content r" "sr_piece r Structure = sr_structure r" "sr_piece r Metadata = Bytes (sr_metadata r)"
    by (simp_all add: sr_piece_def)
  have errs: "r1 = Inl y \<or> r2 = Inl y \<or> r3 = Inl y \<Longrightarrow>
      (\<exists>w. resolve fs (sr_piece r w) = None) \<and> y = FileNotFoundError \<or> y = TrustGroupCompromised" for y
    using b1(2) b2(2) b3(2) pieces by metis
  have "sv_ok E s" using assms(3) by (simp add: sv_typed_def)
  then have ok: "sv_ok E s'"
    by (rule sv_hold_ok [where D = D, OF assms(1,2), where fs = fs and i = i and r = r and name = name]) (use assms(4) in auto)
  have "(og_ok (sv_group s') \<and> dict_ok (sv_pending s')) \<and>
    (res = Inl e \<longrightarrow> (\<exists>w. resolve fs (sr_piece r w) = None) \<and> e = FileNotFoundError \<or> e = TrustGroupCompromised \<or> e = RuntimeError)"
    (is "_ \<and> ?err") for e
  proof (cases "\<exists>e. r1 = Inl e \<or> r2 = Inl e \<or> r3 = Inl e")
    case True
    have typed: "sv_typed E s'"
      using True assms(4) b1(1) b2(1) b3(1) by (auto simp: sv_hold_def m1 m2 m3 split: sum.splits)
    have ?err
      using True assms(4) errs by (auto simp: sv_hold_def m1 m2 m3 split: sum.splits)
    then show ?thesis using typed by (simp add: sv_typed_def)
  next
    case False
    then obtain x1 x2 x3 where x: "r1 = Inr x1" "r2 = Inr x2" "r3 = Inr x3" by (metis sum.exhaust)
    obtain r4 s4 where m4: "register_boxes [x1, x2, x3] s3 = (r4, s4)" by fastforce
    have "\<forall>b \<in> set [x1, x2, x3]. \<exists>d. cb_ok E d (rb_box b)" using x b1(3) b2(3) b3(3) by simp
    note b4 = register_boxes_step [OF b3(1) this m4]
    let ?p = "if sr_reconstruct_from r = Content then sr_content r else sr_structure r"
    have "?p = sr_piece r (if sr_reconstruct_from r = Content then Content else Structure)" by (simp add: pieces)
    then have size: "piece_size fs ?p = Inl y \<Longrightarrow> (\<exists>w. resolve fs (sr_piece r w) = None) \<and> y = FileNotFoundError" for y
      using piece_size_error by metis
    have "s' \<in> {orphan [x1, x2, x3] s4} \<or> (\<exists>d. s' = s4\<lparr>sv_held := d\<rparr>)"
      using assms(4) by (auto simp: sv_hold_def m1 m2 m3 m4 x split: sum.splits)
    moreover have ?err
      using assms(4) b4(2) size by (auto simp: sv_hold_def m1 m2 m3 m4 x split: sum.splits)
    ultimately show ?thesis using b4(1) by (auto simp: sv_typed_def orphan_def)
  qed
  then show "sv_typed E s'"
    "res = Inl e \<Longrightarrow> (\<exists>w. resolve fs (sr_piece r w) = None) \<and> e = FileNotFoundError \<or> e = TrustGroupCompromised \<or> e = RuntimeError"
    using ok by (auto simp: sv_typed_def)
qed

section \<open>Retrieving\<close>

text \<open>A call that only reads keeps the store well-formed and every file.\<close>

abbreviation keeps :: "env \<Rightarrow> sstore \<Rightarrow> sstore \<Rightarrow> bool" where
  "keeps E s s' \<equiv> sv_typed E s' \<and> sv_data E s' = sv_data E s"

lemma the_box_error: "the_box i req s = Inl e \<Longrightarrow> e = KeyError"
  by (auto simp: the_box_def Let_def split: option.splits request.splits)

lemma put_rbox_group: "sv_group (put_rbox i w rb h s) = sv_group s"
  by (simp add: put_rbox_def)

lemma put_unpaused_typed:
  assumes "sv_typed E s" "find_box i w s = Some (h, rb)" "cb_ok E data (rb_box rb)"
  shows "keeps E s (put_rbox i w (rb\<lparr>rb_box := (rb_box rb)\<lparr>cb_paused := p\<rparr>\<rparr>) h s)"
  using assms put_unpaused_same [of E s i w h rb data p] by (simp add: sv_typed_def put_rbox_fields put_rbox_group)

lemma the_box_typed:
  assumes "sv_typed E s" "the_box i req s = Inr (h, w, rb)"
  obtains data where "cb_ok E data (rb_box rb)" "find_box i w s = Some (h, rb)"
    "sv_read req (sv_data E s i) = Inr data"
proof -
  have ok: "sv_ok E s" using assms(1) by (simp add: sv_typed_def)
  note f = the_box_find [OF assms(2)]
  obtain data where d: "cb_ok E data (rb_box rb)" "rbox_data E rb = Inr data"
    using rbox_ok_data [OF find_box_ok [OF ok f]] by blast
  have "sv_read req (sv_data E s i) = Inr data"
    using assms(2) d(2) by (auto simp: the_box_def Let_def sv_read_def sv_data_def sheld_data_def split: option.splits request.splits)
  then show thesis using that d(1) f by blast
qed

lemma sv_retrieve_typed:
  assumes "sv_typed E s" "sv_retrieve E i req s = (r, s')"
  shows "keeps E s s'" "r = Inl e \<Longrightarrow> e = KeyError"
proof -
  have "keeps E s s' \<and> (r = Inl e \<longrightarrow> e = KeyError)" for e
  proof (cases "the_box i req s")
    case (Inl x)
    then show ?thesis using assms the_box_error [OF Inl] by (auto simp: sv_retrieve_def)
  next
    case (Inr x)
    obtain h w rb where b: "the_box i req s = Inr (h, w, rb)" using Inr by (cases x) auto
    obtain data where d: "cb_ok E data (rb_box rb)" "find_box i w s = Some (h, rb)"
      by (rule the_box_typed [OF assms(1) b])
    show ?thesis
      using assms(2) put_unpaused_typed [OF assms(1) d(2,1)] by (auto simp: sv_retrieve_def b cb_ok_snapshot [OF d(1)])
  qed
  then show "keeps E s s'" "r = Inl e \<Longrightarrow> e = KeyError" by blast+
qed

lemma io_write_error: "fst (io_write dest b w) = Inl e \<Longrightarrow> e = OSError"
  by (auto simp: io_write_def io_do_def Let_def split: if_splits)

lemma io_create_error: "io_create dest w = (Inl e, w') \<Longrightarrow> e = OSError"
  by (auto simp: io_create_out split: if_splits)

lemma emit_all_error:
  assumes "\<And>i p w. fst (emit i p w) = Inl e \<Longrightarrow> P e"
  shows "fst (emit_all emit i ps w) = Inl e \<Longrightarrow> P e"
proof (induction ps arbitrary: i w)
  case (Cons p ps)
  then show ?case using assms [of i p w] by (auto split: prod.splits sum.splits)
qed simp

lemma cb_stream_to_typed:
  assumes "cb_ok E data b" "cb_stream_to E (io_write dest) w b = (r, w', b')"
  shows "b' = b\<lparr>cb_paused := False\<rparr>" "r = Inl e \<Longrightarrow> e = OSError"
proof -
  obtain kc kn ps where "cb_rep E b kc kn ps" "env_ok E" using assms(1) by (auto simp: cb_ok_def)
  note st = cb_stream_rep [OF this(2,1), of "\<lambda>_. io_write dest" w]
  show "b' = b\<lparr>cb_paused := False\<rparr>" "r = Inl e \<Longrightarrow> e = OSError"
    using assms(2) st emit_all_error [of "\<lambda>_. io_write dest" e "\<lambda>e. e = OSError"] io_write_error
    by (auto simp: cb_stream_to_def)
qed

lemma sv_retrieve_to_file_typed:
  assumes "sv_typed E s" "sv_retrieve_to_file E i dest req w s = (r, w', s')"
  shows "keeps E s s'" "r = Inl e \<Longrightarrow> e = KeyError \<or> e = OSError"
proof -
  have "keeps E s s' \<and> (r = Inl e \<longrightarrow> e = KeyError \<or> e = OSError)" for e
  proof (cases "the_box i req s")
    case (Inl x)
    then show ?thesis using assms the_box_error [OF Inl] by (auto simp: sv_retrieve_to_file_def)
  next
    case (Inr x)
    obtain h pc rb where b: "the_box i req s = Inr (h, pc, rb)" using Inr by (cases x) auto
    obtain data where d: "cb_ok E data (rb_box rb)" "find_box i pc s = Some (h, rb)"
      by (rule the_box_typed [OF assms(1) b])
    obtain rc w1 where c: "io_create dest w = (rc, w1)" by fastforce
    obtain q w2 b' where st: "cb_stream_to E (io_write dest) w1 (rb_box rb) = (q, w2, b')" by (metis surj_pair)
    show ?thesis
      using assms put_unpaused_typed [OF assms(1) d(2,1)] cb_stream_to_typed [OF d(1) st] c
      by (auto simp: sv_retrieve_to_file_def b st split: sum.splits dest: io_create_error)
  qed
  then show "keeps E s s'" "r = Inl e \<Longrightarrow> e = KeyError \<or> e = OSError" by blast+
qed

lemma wrapped_to_typed:
  assumes "wrap_ok E key nonces" "sv_typed E s" "finishes finish" "wrapped_to E nonces key dest finish i req w s = (r, w', s')"
  shows "keeps E s s'" "r = Inl e \<Longrightarrow> e = KeyError \<or> e = OSError"
proof -
  have "keeps E s s' \<and> (r = Inl e \<longrightarrow> e = KeyError \<or> e = OSError)" for e
  proof (cases "the_box i req s")
    case (Inl x)
    then show ?thesis using assms the_box_error [OF Inl] by (auto simp: wrapped_to_def)
  next
    case (Inr x)
    obtain h pc rb where b: "the_box i req s = Inr (h, pc, rb)" using Inr by (cases x) auto
    obtain data where d: "cb_ok E data (rb_box rb)" "find_box i pc s = Some (h, rb)" "sv_read req (sv_data E s i) = Inr data"
      by (rule the_box_typed [OF assms(2) b])
    obtain rc w1 where c: "io_create dest w = (rc, w1)" by fastforce
    obtain q w2 b' where st: "cb_stream_to_wrapped E nonces key (io_write dest) w1 (rb_box rb) = (q, w2, b')" by (metis surj_pair)
    have ok: "sv_ok E s" using assms(2) by (simp add: sv_typed_def)
    from wrapped_to_out [where dest = dest and w = w, OF assms(1) ok d(3) assms(3)]
    have out: "r = Inl OSError \<or> r = Inr ()" using assms(4) by (metis prod.inject)
    have "s' = s \<or> s' = put_rbox i pc (rb\<lparr>rb_box := b'\<rparr>) h s \<and> rc = Inr ()"
      using assms(4) by (auto simp: wrapped_to_def b c st split: sum.splits prod.splits)
    moreover have "b' = (rb_box rb)\<lparr>cb_paused := False\<rparr>"
    proof -
      obtain kc kn ps where "cb_rep E (rb_box rb) kc kn ps" "env_ok E" using d(1) by (auto simp: cb_ok_def)
      note z = cb_stream_rep [OF this(2,1), of "wrap_emit E nonces key dest" w1]
      have "cb_stream_to_wrapped E nonces key (io_write dest) w1 (rb_box rb) = cb_stream E (wrap_emit E nonces key dest) w1 (rb_box rb)"
        by (simp add: cb_stream_to_wrapped_def wrap_emit_def [abs_def])
      then show ?thesis using st z by auto
    qed
    ultimately show ?thesis
      using assms(2) put_unpaused_typed [OF assms(2) d(2,1)] out by auto
  qed
  then show "keeps E s s'" "r = Inl e \<Longrightarrow> e = KeyError \<or> e = OSError" by blast+
qed

section \<open>Keys and tokens\<close>

lemma pending_typed: "sv_typed E s \<Longrightarrow> dict_ok d \<Longrightarrow> keeps E s (s\<lparr>sv_pending := d\<rparr>)"
  by (simp add: sv_typed_def sv_data_pending)

lemma issue_token_typed: "sv_typed E s \<Longrightarrow> keeps E s (issue_token now sn ttl token key s)"
  by (simp add: issue_token_def sv_typed_def sv_data_pending sweep_def dict_ok_fold_del)

lemma sv_redeem_typed:
  assumes "sv_typed E s" "sv_redeem_key now token s = (r, s')"
  shows "keeps E s s'" "r = Inl e \<Longrightarrow> e = KeyError \<or> e = TimeoutError"
  using assms pending_typed [OF assms(1)]
  by (auto simp: sv_redeem_key_def Let_def sv_typed_def split: option.splits if_splits)

lemma sv_retrieve_to_destination_typed:
  assumes "wrap_ok E fresh nonces" "sv_typed E s"
    and "sv_retrieve_to_destination E nonces fresh token now sn i dest trust req ttl w s = (r, w', s')"
  shows "keeps E s s'"
    and "r = Inl e \<Longrightarrow> if trust \<in> {''trusted'', ''untrusted'', ''hostile''} then e = KeyError \<or> e = OSError else e = ValueError"
proof -
  obtain q1 w1 s1 where t: "sv_retrieve_to_file E i dest req w s = (q1, w1, s1)" by (metis surj_pair)
  obtain q2 w2 s2 where u: "wrapped_to E nonces fresh dest (io_fsync dest) i req w s = (q2, w2, s2)" by (metis surj_pair)
  note t' = sv_retrieve_to_file_typed [OF assms(2) t]
  note u' = wrapped_to_typed [OF assms(1,2) finishes_fsync u]
  show "keeps E s s'"
    using assms(2,3) t'(1) u'(1) issue_token_typed [OF conjunct1 [OF u'(1)]]
    by (auto simp: sv_retrieve_to_destination_def Let_def t u split: if_splits sum.splits)
  show "r = Inl e \<Longrightarrow> if trust \<in> {''trusted'', ''untrusted'', ''hostile''} then e = KeyError \<or> e = OSError else e = ValueError"
    using assms(3) t'(2) u'(2)
    by (auto simp: sv_retrieve_to_destination_def Let_def t u map_res_iff split: if_splits sum.splits)
qed

section \<open>Motion and death\<close>

lemma serve_box_group: "serve_box E now nonce addrs rb wd grp = (again, rb', wd', grp') \<Longrightarrow> og_ok grp \<Longrightarrow> og_ok grp'"
proof -
  assume s: "serve_box E now nonce addrs rb wd grp = (again, rb', wd', grp')" and ok: "og_ok grp"
  obtain trust asked where t: "ask_group grp = (trust, asked)" by fastforce
  have "grp' \<in> {asked, grp}"
    using s by (auto simp: serve_box_def t Let_def split: prod.splits option.splits sum.splits)
  then show "og_ok grp'" using ask_group_ok(1) [OF ok t] ok by auto
qed

lemma sv_step_typed:
  assumes "sv_typed E s" "sv_good e"
  shows "sv_typed E (sv_step E e s)"
proof -
  have "og_ok (sv_group (sv_step E e s)) \<and> sv_pending (sv_step E e s) = sv_pending s"
  proof (cases e)
    case (SServe i w now nonce addrs)
    show ?thesis
    proof (cases "find_box i w s")
      case None
      then show ?thesis using SServe assms by (simp add: sv_serve_def sv_typed_def)
    next
      case (Some hr)
      obtain h rb where f: "find_box i w s = Some (h, rb)" using Some by (cases hr) auto
      obtain again rb' wd' g' where r: "serve_box E now nonce addrs rb (sv_watchdog s) (sv_group s) = (again, rb', wd', g')"
        by (metis surj_pair)
      show ?thesis using SServe serve_box_group [OF r] assms(1)
        by (simp add: sv_serve_def f r sv_typed_def put_rbox_fields)
    qed
  qed (use assms(1) in \<open>auto simp: sv_typed_def put_rbox_fields put_rbox_group sv_retrieve_def split: option.splits sum.splits prod.splits\<close>)
  then show ?thesis using assms sv_step_same [of E s e] by (simp add: sv_typed_def)
qed

lemma sv_forget_typed: "sv_typed E s \<Longrightarrow> sv_typed E (fst (sv_forget i s))"
  using sv_forget_same [of E s i] by (auto simp: sv_typed_def sv_forget_def split: option.splits)

lemma tg_stop_ok: "tg_ok t \<Longrightarrow> tg_ok (tg_stop t)"
proof (cases t)
  case (LocalGroup g)
  assume "tg_ok t"
  then obtain rnd sec where "group_ok dg_ask rnd sec g" using LocalGroup by auto
  from group_ok_map [OF this holder_step_ask [of StopMsg]] show ?thesis
    using LocalGroup by (auto simp: tg_stop_def dg_stop_def)
next
  case (NetGroup n)
  assume "tg_ok t"
  then obtain rnd sec where "network_ok rnd sec n" using NetGroup by auto
  from group_ok_map [OF this, where f = "\<lambda>h. h\<lparr>nh_connected := False\<rparr>"] show ?thesis
    using NetGroup by (auto simp: tg_stop_def ng_stop_def ng_ask_lost)
qed

lemma sv_collapse_all_typed:
  assumes "sv_typed E s"
  shows "sv_typed E (sv_collapse_all s)"
proof -
  let ?s1 = "fold (\<lambda>i s. fst (sv_forget i s)) (sv_list_ids s) s"
  have typed: "sv_typed E ?s1" by (rule fold_preserves) (use assms sv_forget_typed in auto)
  then have "og_ok (map_option tg_stop (sv_group ?s1))" using tg_stop_ok by (auto simp: sv_typed_def og_ok_def)
  moreover have "sv_ok E (sv_collapse_all s)"
    using typed by (auto simp: sv_ok_def sv_collapse_all_def Let_def sv_typed_def collapse_all_held [unfolded sv_collapse_all_def Let_def, simplified] wd_stop_def wd_ok_def)
  ultimately show ?thesis using typed by (simp add: sv_typed_def sv_collapse_all_def Let_def)
qed

section \<open>The interface\<close>

lemma raised_iff [simp]: "raised r = None \<longleftrightarrow> (\<exists>x. r = Inr x)" "raised r = Some e \<longleftrightarrow> r = Inl e"
  by (cases r; auto simp: raised_def)+

lemma sv_hold_do:
  assumes "env_ok E" "\<forall>w. draws_ok (D w)" "sv_typed E s" "sv_hold E fs D i r name s = (res, s')"
  shows "sv_typed E s' \<and> (\<forall>e. res = Inl e \<longrightarrow> sv_data E s' = sv_data E s \<and>
    ((\<exists>w. resolve fs (sr_piece r w) = None) \<and> e = FileNotFoundError \<or> e = TrustGroupCompromised \<or> e = RuntimeError))"
proof -
  have "sv_ok E s" using assms(3) by (simp add: sv_typed_def)
  then obtain res' s1 where "sv_hold E fs D i r name s = (res', s1)"
    "case res' of Inl e \<Rightarrow> sv_held s1 = sv_held s | Inr x \<Rightarrow> x = i \<and> sv_data E s1 = (sv_data E s)(i \<mapsto> saved_data fs r)"
    by (rule sv_hold_ok [where D = D and fs = fs and i = i and r = r and name = name,
        OF assms(1) assms(2) [rule_format]]) blast
  then have "\<forall>e. res = Inl e \<longrightarrow> sv_data E s' = sv_data E s" using assms(4) by (auto simp: sv_data_def fun_eq_iff)
  then show ?thesis using sv_hold_typed [OF assms(1) assms(2) [rule_format] assms(3,4)] by blast
qed

lemma split_file_error: "split_file E fs path = Inl e \<Longrightarrow> e = FileNotFoundError"
proof (cases "fs path")
  case None
  assume "split_file E fs path = Inl e"
  then show ?thesis using split_file_agrees_with_split_bytes [where fs = fs and path = path and E = E] None by simp
next
  case (Some d)
  assume "split_file E fs path = Inl e"
  then show ?thesis using split_file_agrees_with_split_bytes [where fs = fs and path = path and E = E] Some by simp
qed

text \<open>Preservation and the exceptions, call by call.\<close>

lemma sv_do_typed:
  assumes "env_ok E" "sv_typed E s" "call_ok E c" "sv_do E c s = (x, s')"
  shows "sv_typed E s' \<and> (\<forall>e. x = Some e \<longrightarrow> e \<in> may_raise c \<and> sv_data E s' = sv_data E s)"
proof (cases c)
  case (CSave fs D i path)
  show ?thesis
  proof (cases "split_file E fs path")
    case (Inl e)
    then show ?thesis using CSave assms(2,4) split_file_error [OF Inl] by (auto simp: sv_save_def)
  next
    case (Inr r)
    obtain res s1 where h: "sv_hold E fs D i r (basename path) s = (res, s1)" by fastforce
    show ?thesis using CSave assms sv_hold_do [OF assms(1) _ assms(2) h] by (auto simp: sv_save_def Inr h)
  qed
next
  case (CSaveBytes D i raw name)
  obtain res s1 where h: "sv_hold E (\<lambda>_. None) D i (split_bytes E raw name) name s = (res, s1)" by fastforce
  have none: "(resolve (\<lambda>_. None) (sr_piece (split_bytes E raw name) w) = None) = False" for w
    using split_bytes_no_file [of E raw name w] by (auto simp: resolve_def)
  then show ?thesis using CSaveBytes assms sv_hold_do [OF assms(1) _ assms(2) h, unfolded none] by (auto simp: sv_save_bytes_def h)
next
  case (CRetrieve i req)
  obtain r s1 where r: "sv_retrieve E i req s = (r, s1)" by fastforce
  then show ?thesis using CRetrieve assms(4) sv_retrieve_typed [OF assms(2) r] by auto
next
  case (CToFile i dest req w)
  obtain r w1 s1 where r: "sv_retrieve_to_file E i dest req w s = (r, w1, s1)" by (metis surj_pair)
  then show ?thesis using CToFile assms(4) sv_retrieve_to_file_typed [OF assms(2) r] by auto
next
  case (CToEncrypted nonces fresh i dest k req w)
  let ?key = "case k of None \<Rightarrow> fresh | Some k \<Rightarrow> k"
  obtain r w1 s1 where r: "wrapped_to E nonces ?key dest (\<lambda>w. (Inr (), w)) i req w s = (r, w1, s1)" by (metis surj_pair)
  have "wrap_ok E ?key nonces" using assms(3) CToEncrypted by simp
  from wrapped_to_typed [OF this assms(2) finishes_nothing r] show ?thesis
    using CToEncrypted assms(4) r by (auto simp: sv_retrieve_to_encrypted_file_def map_res_iff)
next
  case (CToDestination nonces fresh token now sn i dest trust req ttl w)
  obtain r w1 s1 where r: "sv_retrieve_to_destination E nonces fresh token now sn i dest trust req ttl w s = (r, w1, s1)"
    by (metis surj_pair)
  have "wrap_ok E fresh nonces" using assms(3) CToDestination by simp
  from sv_retrieve_to_destination_typed [OF this assms(2) r] show ?thesis
    using CToDestination assms(4) r by (auto split: if_splits)
next
  case (CRedeem now token)
  obtain r s1 where r: "sv_redeem_key now token s = (r, s1)" by fastforce
  then show ?thesis using CRedeem assms(4) sv_redeem_typed [OF assms(2) r] by auto
next
  case (COriginalSize i)
  then show ?thesis using assms(2,4) by (auto simp: sv_original_size_def split: option.splits)
next
  case (CForget i)
  then show ?thesis using assms(4) sv_forget_typed [OF assms(2)] by auto
next
  case CCollapseAll
  then show ?thesis using assms(4) sv_collapse_all_typed [OF assms(2)] by auto
next
  case (CMotion e)
  then show ?thesis using assms(3,4) sv_step_typed [OF assms(2)] by auto
qed

lemma sv_dos_typed:
  "env_ok E \<Longrightarrow> sv_typed E s \<Longrightarrow> list_all (call_ok E) cs \<Longrightarrow> sv_typed E (fold (\<lambda>c s. snd (sv_do E c s)) cs s)"
proof (induction cs arbitrary: s)
  case (Cons c cs)
  then show ?case using sv_do_typed [of E s c "fst (sv_do E c s)" "snd (sv_do E c s)"] by simp
qed simp



end
