(* ===== verification/Capacity.thy ===== *)
theory Capacity
  imports StoreTypes
begin

text \<open>
  How much of the watchdog's table the files of a secure store need: a save registers the regions of three boxes, each
  box reserves one slot for its rotations, and nothing else takes room. So a save raises \<open>RuntimeError\<close> only if
  the sum of these needs exceeds the table.
\<close>

section \<open>Regions of a new box\<close>

text \<open>The compressed forms of 32-byte keys are at most \<open>L\<close> bytes long (88, for \<open>lzma\<close>).\<close>

definition key_cells :: "env \<Rightarrow> nat \<Rightarrow> bool" where
  "key_cells E L \<longleftrightarrow> (\<forall>k. length k = 32 \<longrightarrow> length (lzma_compress E 9 k) \<le> L)"

text \<open>How many pools the chunks of \<open>n\<close> bytes can take.\<close>

definition pools_for :: "nat \<Rightarrow> nat" where
  "pools_for n = n div DEFAULT_CHUNK_SIZE + n div RAW_READ + 2"

lemma py_range_count: "0 < st \<Longrightarrow> length (py_range lo hi st) \<le> (hi - lo) div st + 1"
proof (induction lo hi st rule: py_range.induct)
  case (1 lo hi st)
  show ?case
  proof (cases "lo + st < hi")
    case True
    then have "(hi - lo) div st = (hi - (lo + st)) div st + 1" using 1(2) by (simp add: le_div_geq)
    then show ?thesis using True 1 by (simp add: py_range_step)
  next
    case False
    then have "length (py_range lo hi st) \<le> 1" using py_range_step [of lo hi st] by (cases "lo < hi") (simp_all add: 1(2))
    then show ?thesis by simp
  qed
qed

lemma div_superadd: "a div c + b div c \<le> (a + b) div (c::nat)"
proof (cases "c = 0")
  case False
  have "(a div c + b div c) * c \<le> a + b" by (metis add_mono add_mult_distrib div_times_less_eq_dividend)
  then show ?thesis using False by (simp add: less_eq_div_iff_mult_less_eq)
qed simp

lemma length_block_pieces:
  assumes "0 < cs" "0 < m"
  shows "length (concat (map (\<lambda>b. pieces_to (length b) cs b) (read_blocks m data))) \<le> length data div cs + length data div m + 1"
  using assms(2)
proof (induction m data rule: read_blocks.induct)
  case (1 m data)
  let ?n = "length data"
  have one: "length (pieces_to (length b) cs b) \<le> length b div cs + 1" for b
    using py_range_count [OF assms(1), of 0 "length b"] by (simp add: pieces_to_def)
  consider "data = []" | "data \<noteq> []" "?n \<le> m" | "m < ?n" by linarith
  then show ?case
  proof cases
    case 2
    then have "read_blocks m data = [data]" using 1(2) by (simp add: read_blocks.simps)
    then show ?thesis using one [of data] by simp
  next
    case 3
    let ?rest = "concat (map (\<lambda>b. pieces_to (length b) cs b) (read_blocks m (drop m data)))"
    have "data \<noteq> []" using 3 by auto
    then have "length ?rest \<le> (?n - m) div cs + (?n - m) div m + 1" using 1 by simp
    moreover have "length (pieces_to (length (take m data)) cs (take m data)) \<le> m div cs + 1" using one [of "take m data"] 3 by simp
    moreover have "m div cs + (?n - m) div cs \<le> ?n div cs" using div_superadd [of m cs "?n - m"] 3 by simp
    moreover have "?n div m = (?n - m) div m + 1" using 1(2) 3 by (simp add: le_div_geq)
    ultimately show ?thesis using 1(2) 3 by (subst read_blocks.simps) simp
  qed (simp add: read_blocks.simps)
qed

lemma fill_slot_length: "fill_slot p off nonce ct pools = Inr pools' \<Longrightarrow> length pools' = length pools"
  by (auto simp: fill_slot_def split: sum.splits)

lemma alloc_slot_length: "alloc_slot addr len pools = (off, pools') \<Longrightarrow> length pools' \<le> length pools + 1"
  by (auto simp: alloc_slot_def Let_def split: option.splits prod.splits)

lemma new_chunks_pools: "new_chunks E D i pools ps = Inr (cs, pools') \<Longrightarrow> length pools' \<le> length pools + length ps"
proof (induction ps arbitrary: i pools cs)
  case (Cons p ps)
  obtain c pools1 cs' where s: "new_chunk E (d_nonce D i) (d_pool D (length pools)) pools p (d_key D) = Inr (c, pools1)"
    "new_chunks E D (Suc i) pools1 ps = Inr (cs', pools')" using Cons.prems by (auto split: sum.splits)
  have "length pools1 \<le> length pools + 1"
    using s(1) alloc_slot_length fill_slot_length
    by (fastforce simp: new_chunk_def Let_def split: sum.splits option.splits prod.splits)
  then show ?case using Cons.IH [OF s(2)] by simp
qed simp

lemma mapM_pairs: "mapM cell_regions cs = Inr rss \<Longrightarrow> length (concat rss) = 2 * length cs"
  by (induction cs arbitrary: rss) (auto simp: cell_regions_def split: sum.splits option.splits)

lemma guard_regions_length: "guard_regions g = Inr rs \<Longrightarrow> length rs = 2 * length (g_cells g)"
  using mapM_pairs by (auto simp: guard_regions_def map_res_iff)

lemma default_guard_regions:
  "key_cells E L \<Longrightarrow> length k = 32 \<Longrightarrow> guard_regions (default_guard E addrs k) = Inr rs \<Longrightarrow> length rs \<le> 2 * L"
  using guard_regions_length [of "default_guard E addrs k" rs]
  by (simp add: default_guard_def guard_new_def key_cells_def Let_def)

lemma next_key_32: "env_ok E \<Longrightarrow> next_key E trust k = Inr k' \<Longrightarrow> length k' = 32"
  using env_okD(3) sha_length by (auto simp: next_key_def ratchet_def split: option.splits sum.splits)

lemma cb_build_regions:
  assumes "env_ok E" "draws_ok D" "key_cells E L" "cb_build E trust D n cs iv nt (Inr ps) = Inr b" "cb_regions b = Inr rs"
  shows "length rs \<le> 4 * L + max 1 (length ps)"
proof -
  obtain k cs' pools where b: "next_key E trust (d_key D) = Inr k" "new_chunks E D 0 [] (if ps = [] then [[]] else ps) = Inr (cs', pools)"
    "cb_current b = default_guard E (d_current D) (d_key D)" "cb_next b = default_guard E (d_next D) k" "cb_pools b = pools"
    using assms(4) by (auto simp: cb_build_def split: sum.splits)
  obtain r1 r2 r3 where r: "guard_regions (cb_current b) = Inr r1" "guard_regions (cb_next b) = Inr r2"
    "mapM pool_region (cb_pools b) = Inr r3" "rs = r1 @ r2 @ r3"
    using assms(5) by (auto simp: cb_regions_def split: sum.splits)
  have "length (d_key D) = 32" using assms(2) by (simp add: draws_ok_def)
  then have "length r1 \<le> 2 * L" "length r2 \<le> 2 * L"
    using r(1,2) b(3,4) default_guard_regions [OF assms(3)] next_key_32 [OF assms(1) b(1)] by simp_all
  moreover have "length r3 \<le> max 1 (length ps)"
    using mapM_length [OF r(3)] new_chunks_pools [OF b(2)] b(5) by (auto split: if_splits)
  ultimately show ?thesis using r(4) by simp
qed

text \<open>A box that has just been made of \<open>n\<close> bytes.\<close>

definition fresh_box :: "nat \<Rightarrow> nat \<Rightarrow> rbox \<Rightarrow> bool" where
  "fresh_box L n rb \<longleftrightarrow> rb_slot rb = None \<and> (\<exists>rs. cb_regions (rb_box rb) = Inr rs \<and> length rs \<le> 4 * L + pools_for n)"

lemma make_box_fresh:
  assumes "env_ok E" "draws_ok D" "key_cells E L" "sv_group s = None" "resolve fs pc = Some d"
  shows "\<exists>rb. make_box E fs D pc s = (Inr rb, s) \<and> fresh_box L (length d) rb \<and> (\<exists>d. cb_ok E d (rb_box rb))"
proof -
  obtain r g where m: "make_box E fs D pc s = (r, s\<lparr>sv_group := g\<rparr>)"
    "\<And>rb. r = Inr rb \<Longrightarrow> \<exists>data. resolve fs pc = Some data \<and> cb_ok E data (rb_box rb) \<and> rb_slot rb = None"
    "\<And>data. resolve fs pc = Some data \<Longrightarrow> sv_group s = None \<Longrightarrow> (\<exists>rb. r = Inr rb) \<and> g = None"
    by (rule make_box_ok [OF assms(1,2), where fs = fs and pc = pc and s = s]) blast
  obtain rb where rb: "r = Inr rb" "g = None" using m(3) assms(4,5) by blast
  have same: "s\<lparr>sv_group := None\<rparr> = s" using assms(4) by (cases s) simp
  obtain data where ok: "cb_ok E data (rb_box rb)" "rb_slot rb = None" using m(2) [OF rb(1)] by blast
  obtain rs where rs: "cb_regions (rb_box rb) = Inr rs" using cb_regions_ok [OF ok(1)] by blast
  have "length rs \<le> 4 * L + pools_for (length d)"
  proof (cases pc)
    case (Bytes b)
    then have "cb_new E None D DEFAULT_CHUNK_SIZE 0 (sv_watchdog s \<noteq> None) d = Inr (rb_box rb)"
      using m(1) rb(1) assms(4,5) by (auto simp: make_box_def ask_group_def map_res_iff resolve_def)
    from cb_build_regions [OF assms(1-3) this [unfolded cb_new_def, simplified chunk_size_ok(1) [THEN gr_implies_not0] if_False] rs]
    have "length rs \<le> 4 * L + max 1 (length (pieces_to (max (length d) 1) DEFAULT_CHUNK_SIZE d))" .
    moreover have "length (pieces_to (max (length d) 1) DEFAULT_CHUNK_SIZE d) \<le> max (length d) 1 div DEFAULT_CHUNK_SIZE + 1"
      using py_range_count [OF chunk_size_ok(1), of 0 "max (length d) 1"] by (simp add: pieces_to_def)
    moreover have "max (length d) 1 div DEFAULT_CHUNK_SIZE = length d div DEFAULT_CHUNK_SIZE"
      by (cases "length d") (simp_all add: DEFAULT_CHUNK_SIZE_def max_def)
    ultimately show ?thesis by (simp add: pools_for_def)
  next
    case (FromFile p)
    then have f: "fs p = Some d" using assms(5) by (simp add: resolve_def)
    then have "cb_build E None D (length d) DEFAULT_CHUNK_SIZE 0 (sv_watchdog s \<noteq> None) (file_pieces DEFAULT_CHUNK_SIZE d) = Inr (rb_box rb)"
      using m(1) rb(1) assms(4) FromFile by (auto simp: make_box_def ask_group_def map_res_iff cb_from_file_def)
    then have "cb_build E None D (length d) DEFAULT_CHUNK_SIZE 0 (sv_watchdog s \<noteq> None)
        (Inr (concat (map (\<lambda>b. pieces_to (length b) DEFAULT_CHUNK_SIZE b) (read_blocks RAW_READ d)))) = Inr (rb_box rb)"
      using chunk_size_ok(1) by (simp add: file_pieces_def DEFAULT_CHUNK_SIZE_def RAW_READ_def max_def)
    from cb_build_regions [OF assms(1-3) this rs]
      length_block_pieces [OF chunk_size_ok(1), of RAW_READ d] show ?thesis
      by (simp add: pools_for_def RAW_READ_def)
  qed
  then show ?thesis using m(1) rb same ok rs by (auto simp: fresh_box_def)
qed

section \<open>Room in the table\<close>

definition find_slot :: "sstore \<Rightarrow> string \<times> which \<Rightarrow> (int \<times> nat) option option" where
  "find_slot s iw = map_option (\<lambda>(h, rb). rb_slot rb) (find_box (fst iw) (snd iw) s)"

text \<open>The boxes that have not reserved their slot yet.\<close>

definition unslotted :: "sstore \<Rightarrow> (string \<times> which) set" where
  "unslotted s = {iw. find_slot s iw = Some None}"

definition taken :: "sstore \<Rightarrow> nat" where
  "taken s = (case sv_watchdog s of None \<Rightarrow> 0 | Some wd \<Rightarrow> wd_count wd)"

text \<open>The entries that are taken or will be by a first rotation.\<close>

definition room :: "nat \<Rightarrow> sstore \<Rightarrow> nat" where
  "room L s = taken s + 2 * L * card (unslotted s)"

lemma finite_unslotted: "finite (unslotted s)"
proof -
  have "unslotted s \<subseteq> set (dict_keys (sv_held s)) \<times> {Content, Structure, Metadata}"
  proof
    fix iw assume "iw \<in> unslotted s"
    then have "dict_get (sv_held s) (fst iw) \<noteq> None"
      by (auto simp: unslotted_def find_slot_def find_box_def split: option.splits)
    then have "fst iw \<in> set (dict_keys (sv_held s))" using dict_keys_iff [of "fst iw" "sv_held s"] by blast
    moreover have "snd iw \<in> {Content, Structure, Metadata}" by (cases "snd iw") simp_all
    ultimately show "iw \<in> set (dict_keys (sv_held s)) \<times> {Content, Structure, Metadata}" by (simp add: mem_Times_iff)
  qed
  then show ?thesis by (rule finite_subset) simp
qed

lemma find_slot_put: "find_box i w s = Some (h, rb) \<Longrightarrow> find_slot (put_rbox i w rb' h s) iw = (if iw = (i, w) then Some (rb_slot rb') else find_slot s iw)"
  by (cases iw) (auto simp: find_slot_def find_box_def put_rbox_def option.map_comp comp_def split: option.splits)

lemma unslotted_put:
  assumes "find_box i w s = Some (h, rb)"
  shows "rb_slot rb' = rb_slot rb \<Longrightarrow> unslotted (put_rbox i w rb' h s) = unslotted s"
    and "rb_slot rb' \<noteq> None \<Longrightarrow> unslotted (put_rbox i w rb' h s) = unslotted s - {(i, w)}"
proof -
  have own: "find_slot s (i, w) = Some (rb_slot rb)" using assms by (simp add: find_slot_def)
  show "rb_slot rb' = rb_slot rb \<Longrightarrow> unslotted (put_rbox i w rb' h s) = unslotted s"
    using own by (auto simp: unslotted_def find_slot_put [OF assms])
  show "rb_slot rb' \<noteq> None \<Longrightarrow> unslotted (put_rbox i w rb' h s) = unslotted s - {(i, w)}"
    by (auto simp: unslotted_def find_slot_put [OF assms])
qed

lemma find_slot_fields: "find_slot (s\<lparr>sv_watchdog := wd, sv_group := g\<rparr>) = find_slot s" "find_slot (s\<lparr>sv_watchdog := wd\<rparr>) = find_slot s"
  by (simp_all add: find_slot_def find_box_def fun_eq_iff)

subsection \<open>Calls without a trust group\<close>

lemma sv_step_groupless: "sv_group s = None \<Longrightarrow> sv_group (sv_step E e s) = None"
proof (cases e)
  case (SServe i w now nonce addrs)
  assume g: "sv_group s = None"
  have "serve_box E now nonce addrs rb wd None = (again, rb', wd', g') \<Longrightarrow> g' = None" for rb wd again rb' wd' g'
    by (auto simp: serve_box_def ask_group_def Let_def split: prod.splits option.splits sum.splits if_splits)
  then show ?thesis using g SServe
    by (auto simp: sv_serve_def put_rbox_def split: option.splits prod.splits)
qed (auto simp: put_rbox_def sv_retrieve_def split: option.splits sum.splits prod.splits)

lemma hold_groupless:
  assumes "env_ok E" "\<And>w. draws_ok (D w)" "sv_ok E s" "sv_group s = None" "\<And>w. resolve fs (sr_piece r w) \<noteq> None"
    and "sv_hold E fs D i r name s = (res, s')"
  shows "sv_group s' = None"
proof (rule sv_hold_ok [where E = E and D = D and s = s and fs = fs and i = i and r = r and name = name, OF assms(1-3)])
  fix res' t
  assume h: "sv_hold E fs D i r name s = (res', t)"
    and g: "sv_group s = None \<Longrightarrow> (\<And>w. resolve fs (sr_piece r w) \<noteq> None) \<Longrightarrow> sv_group t = None \<and>
         (res' = Inr i \<and> sv_orphans t = sv_orphans s \<or>
          res' = Inl RuntimeError \<and> sv_watchdog t = sv_watchdog s \<and> sv_watchdog s \<noteq> None \<and>
          length (sv_orphans t) = length (sv_orphans s) + 3)"
  show "sv_group s' = None" using g [OF assms(4,5)] h assms(6) by simp
qed

subsection \<open>Motion takes no more room\<close>

lemma on_new_guard_count:
  "on_new_guard rs slot wd = (r, sl, wd') \<Longrightarrow> wd_count wd' \<le> wd_count wd + (if slot = None then length rs else 0)"
  by (auto simp: on_new_guard_def reserve_slot_def update_slot_def Let_def split: option.splits prod.splits if_splits)

lemma told_length:
  assumes "env_ok E" "key_cells E L" "cb_serve E now nonce None addrs b = (again, b', Some rs)"
  shows "length rs \<le> 2 * L"
proof -
  obtain r where "cb_hop E nonce None addrs b = (r, b', Some rs)"
    using assms(3) by (auto simp: cb_serve_def split: if_splits prod.splits sum.splits)
  then obtain nkey k where "next_key E None nkey = Inr k" "guard_regions (default_guard E addrs k) = Inr rs"
    by (auto simp: cb_hop_def Let_def map_res_iff split: sum.splits prod.splits if_splits)
  then show ?thesis using default_guard_regions [OF assms(2)] next_key_32 [OF assms(1)] by blast
qed

lemma serve_box_room:
  assumes "env_ok E" "key_cells E L" "serve_box E now nonce addrs rb wd None = (again, rb', wd', g')"
  shows "rb_slot rb' = rb_slot rb \<and> wd' = wd \<or>
    rb_slot rb' \<noteq> None \<and> (\<exists>w w'. wd = Some w \<and> wd' = Some w' \<and> wd_count w' \<le> wd_count w + (if rb_slot rb = None then 2 * L else 0))"
proof -
  obtain ag b' told where c: "cb_serve E now nonce None addrs (rb_box rb) = (ag, b', told)" by (metis surj_pair)
  show ?thesis
  proof (cases "\<exists>rs w. told = Some rs \<and> wd = Some w")
    case True
    then obtain rs w where rw: "told = Some rs" "wd = Some w" by blast
    obtain r sl w' where n: "on_new_guard rs (rb_slot rb) w = (r, sl, w')" by (metis surj_pair)
    have "rb_slot rb' = Some sl" "wd' = Some w'"
      using assms(3) by (auto simp: serve_box_def ask_group_def c rw n Let_def split: sum.splits)
    then show ?thesis
      using on_new_guard_count [OF n] told_length [OF assms(1,2) c [unfolded rw(1)]] rw by (auto split: if_splits)
  next
    case False
    then show ?thesis using assms(3) by (auto simp: serve_box_def ask_group_def c Let_def split: option.splits)
  qed
qed

lemma room_step:
  assumes "env_ok E" "key_cells E L" "sv_group s = None"
  shows "room L (sv_step E e s) \<le> room L s"
proof (cases e)
  case (SServe i w now nonce addrs)
  show ?thesis
  proof (cases "find_box i w s")
    case (Some hr)
    obtain h rb where f: "find_box i w s = Some (h, rb)" using Some by (cases hr) auto
    obtain again rb' wd' g' where r: "serve_box E now nonce addrs rb (sv_watchdog s) None = (again, rb', wd', g')" by (metis surj_pair)
    let ?t = "put_rbox i w rb' h s"
    have step: "sv_step E e s = ?t\<lparr>sv_watchdog := wd', sv_group := g'\<rparr>" by (simp add: SServe sv_serve_def f assms(3) r)
    have un: "unslotted (sv_step E e s) = unslotted ?t" unfolding step unslotted_def find_slot_fields by simp
    have tk: "taken (sv_step E e s) = (case wd' of None \<Rightarrow> 0 | Some x \<Rightarrow> wd_count x)" by (simp add: step taken_def)
    from serve_box_room [OF assms(1,2) r] show ?thesis
    proof
      assume "rb_slot rb' = rb_slot rb \<and> wd' = sv_watchdog s"
      then show ?thesis using un tk unslotted_put(1) [OF f] by (simp add: room_def taken_def)
    next
      assume a: "rb_slot rb' \<noteq> None \<and> (\<exists>x x'. sv_watchdog s = Some x \<and> wd' = Some x' \<and>
          wd_count x' \<le> wd_count x + (if rb_slot rb = None then 2 * L else 0))"
      then have t: "taken (sv_step E e s) \<le> taken s + (if rb_slot rb = None then 2 * L else 0)" unfolding tk by (auto simp: taken_def)
      have u: "unslotted (sv_step E e s) = unslotted s - {(i, w)}" using a unslotted_put(2) [OF f] un by simp
      show ?thesis
      proof (cases "rb_slot rb = None")
        case True
        then have "(i, w) \<in> unslotted s" using f by (simp add: unslotted_def find_slot_def)
        then have "card (unslotted s) = Suc (card (unslotted s - {(i, w)}))"
          by (rule card.remove [OF finite_unslotted])
        then have "room L s = taken s + 2 * L + 2 * L * card (unslotted s - {(i, w)})" by (simp add: room_def)
        then show ?thesis using t True by (simp add: room_def u)
      next
        case False
        have "card (unslotted s - {(i, w)}) \<le> card (unslotted s)" by (rule card_Diff1_le)
        then show ?thesis using t False by (simp add: room_def u add_mono mult_le_mono)
      qed
    qed
  qed (simp add: SServe sv_serve_def)
next
  case (SBounce i w current n)
  then show ?thesis
    using unslotted_put(1) by (auto simp: room_def taken_def put_rbox_fields split: option.splits)
next
  case (SRead i req)
  then show ?thesis
    using unslotted_put(1) the_box_find
    by (fastforce simp: sv_retrieve_def room_def taken_def put_rbox_fields Let_def split: sum.splits prod.splits)
qed

subsection \<open>A save takes what its three boxes need\<close>

definition need_of :: "nat \<Rightarrow> disk \<Rightarrow> split_result \<Rightarrow> nat" where
  "need_of L fs r = (\<Sum>w \<leftarrow> [Content, Structure, Metadata]. 6 * L + pools_for (length (the (resolve fs (sr_piece r w)))))"

lemma hold_fits:
  assumes "env_ok E" "\<And>w. draws_ok (D w)" "key_cells E L" "sv_ok E s" "sv_group s = None"
    and "\<And>w. resolve fs (sr_piece r w) \<noteq> None" "room L s + need_of L fs r \<le> MAX_REGIONS"
  obtains s' where "sv_hold E fs D i r name s = (Inr i, s')" "room L s' \<le> room L s + need_of L fs r"
proof -
  let ?n = "\<lambda>w. length (the (resolve fs (sr_piece r w)))"
  have box: "\<exists>rb. make_box E fs (D w) (sr_piece r w) s = (Inr rb, s) \<and> fresh_box L (?n w) rb \<and> (\<exists>d. cb_ok E d (rb_box rb))" for w
  proof -
    obtain d where "resolve fs (sr_piece r w) = Some d" using assms(6) by blast
    from make_box_fresh [OF assms(1,2,3,5) this] show ?thesis by (simp add: \<open>resolve fs (sr_piece r w) = Some d\<close>)
  qed
  obtain b where b: "\<And>w. make_box E fs (D w) (sr_piece r w) s = (Inr (b w), s)" "\<And>w. fresh_box L (?n w) (b w)"
    "\<And>w. \<exists>d. cb_ok E d (rb_box (b w))" using box by metis
  let ?bs = "[b Content, b Structure, b Metadata]"
  have pieces: "sr_content r = sr_piece r Content" "sr_structure r = sr_piece r Structure" "Bytes (sr_metadata r) = sr_piece r Metadata"
    by (simp_all add: sr_piece_def)
  obtain rs1 rs2 rs3 where rs: "cb_regions (rb_box (b Content)) = Inr rs1" "cb_regions (rb_box (b Structure)) = Inr rs2"
    "cb_regions (rb_box (b Metadata)) = Inr rs3"
    "length rs1 \<le> 4 * L + pools_for (?n Content)" "length rs2 \<le> 4 * L + pools_for (?n Structure)" "length rs3 \<le> 4 * L + pools_for (?n Metadata)"
    using b(2) [of Content] b(2) [of Structure] b(2) [of Metadata] by (auto simp: fresh_box_def)
  have len: "length (rs1 @ rs2 @ rs3) + 2 * L * 3 \<le> need_of L fs r" using rs(4-6) by (simp add: need_of_def)
  obtain wd' where reg: "register_boxes ?bs s = (Inr (), s\<lparr>sv_watchdog := wd'\<rparr>)"
    "(case wd' of None \<Rightarrow> 0 | Some w \<Rightarrow> wd_count w) \<le> taken s + length (rs1 @ rs2 @ rs3)"
  proof (cases "sv_watchdog s")
    case None
    have "s\<lparr>sv_watchdog := None\<rparr> = s" using None by (cases s) simp
    then show thesis using that [of None] None by (simp add: register_boxes_def)
  next
    case (Some wd)
    have ok: "wd_ok wd" using assms(4) Some by (simp add: sv_ok_def)
    have "wd_count wd + length (rs1 @ rs2 @ rs3) \<le> MAX_REGIONS" using assms(7) len Some by (simp add: room_def taken_def)
    then have "fst (add_regions (rs1 @ rs2 @ rs3) wd) = Inr ()"
      "wd_count (snd (add_regions (rs1 @ rs2 @ rs3) wd)) = wd_count wd + length (rs1 @ rs2 @ rs3)"
      using add_regions_ok [OF ok, of "rs1 @ rs2 @ rs3"] by blast+
    then show thesis
      using that [of "Some (snd (add_regions (rs1 @ rs2 @ rs3) wd))"] Some
      by (simp add: register_boxes_def rs(1-3) Let_def split_def taken_def)
  qed
  have "\<exists>n. piece_size fs (if sr_reconstruct_from r = Content then sr_content r else sr_structure r) = Inr n"
    using assms(6) [of Content] assms(6) [of Structure] piece_size_error pieces by (cases "piece_size fs
      (if sr_reconstruct_from r = Content then sr_content r else sr_structure r)") (auto split: if_splits)
  then obtain n where size: "piece_size fs (if sr_reconstruct_from r = Content then sr_content r else sr_structure r) = Inr n" by blast
  define s' where "s' = s\<lparr>sv_watchdog := wd', sv_held := dict_set i
      \<lparr>sh_boxes = [(Content, b Content), (Structure, b Structure), (Metadata, b Metadata)], sh_reconstruct_from = sr_reconstruct_from r,
       sh_original_size = n, sh_name = name\<rparr> (sv_held s)\<rparr>"
  have out: "sv_hold E fs D i r name s = (Inr i, s')"
    unfolding sv_hold_def pieces b(1) prod.case sum.case reg(1) size [unfolded pieces] by (simp add: s'_def)
  have "unslotted s' \<subseteq> unslotted s \<union> {(i, Content), (i, Structure), (i, Metadata)}"
  proof
    fix jw assume u: "jw \<in> unslotted s'"
    obtain j w where jw: "jw = (j, w)" by fastforce
    show "jw \<in> unslotted s \<union> {(i, Content), (i, Structure), (i, Metadata)}"
      using u jw by (cases w) (auto simp: unslotted_def find_slot_def find_box_def s'_def split: if_splits option.splits)
  qed
  then have "card (unslotted s') \<le> card (unslotted s \<union> {(i, Content), (i, Structure), (i, Metadata)})"
    by (rule card_mono [rotated]) (simp add: finite_unslotted)
  also have "\<dots> \<le> card (unslotted s) + 3"
    using card_Un_le [of "unslotted s" "{(i, Content), (i, Structure), (i, Metadata)}"] by simp
  finally have "2 * L * card (unslotted s') \<le> 2 * L * card (unslotted s) + 2 * L * 3"
    using mult_le_mono2 [of "card (unslotted s')" "card (unslotted s) + 3" "2 * L"] by (simp add: distrib_left)
  moreover have "taken s' \<le> taken s + length (rs1 @ rs2 @ rs3)" using reg(2) by (simp add: s'_def taken_def)
  ultimately have "room L s' \<le> room L s + need_of L fs r" using len by (simp add: room_def)
  then show thesis using that out by blast
qed

lemma split_file_pieces:
  assumes "fs path = Some d"
  obtains r where "split_file E fs path = Inr r" "\<And>w. resolve fs (sr_piece r w) \<noteq> None"
    "resolve fs (sr_piece r (sr_reconstruct_from r)) = Some d"
proof -
  obtain r where r: "split_file E fs path = Inr r"
    using split_file_agrees_with_split_bytes [where fs = fs and path = path and E = E] assms
    by (cases "split_file E fs path") simp_all
  have agree: "resolve fs (sr_piece r w) = resolve fs (sr_piece (split_bytes E d path) w) \<and>
      resolve fs (sr_piece r (sr_reconstruct_from r)) = Some d" for w
    using split_file_agrees_with_split_bytes [where fs = fs and path = path and E = E and w = w, unfolded assms r option.case sum.case]
    by blast
  have "resolve fs (sr_piece r w) \<noteq> None" for w
    unfolding conjunct1 [OF agree] using split_bytes_no_file [of E d path w] by (auto simp: resolve_def)
  then show thesis using that r agree by blast
qed

text \<open>What saving the file at a path, and what saving bytes, takes.\<close>

definition file_need :: "env \<Rightarrow> nat \<Rightarrow> disk \<Rightarrow> string \<Rightarrow> nat" where
  "file_need E L fs path = (case split_file E fs path of Inl _ \<Rightarrow> 0 | Inr r \<Rightarrow> need_of L fs r)"

definition bytes_need :: "env \<Rightarrow> nat \<Rightarrow> bytes \<Rightarrow> string \<Rightarrow> nat" where
  "bytes_need E L raw name = need_of L (\<lambda>_. None) (split_bytes E raw name)"

text \<open>A file of less than one chunk whose pieces are not extracted takes 6 pools at most, beside its six guards.\<close>

lemma encode_utf8_length: "length (encode_utf8 t) \<le> 2 * length t"
  by (induction t) (auto simp: encode_utf8_def utf8_char_def Let_def)

lemma dec_length: "length (dec n) \<le> n + 1"
proof (induction n rule: dec.induct)
  case (1 n)
  show ?case
  proof (cases "n < 10")
    case False
    then show ?thesis using 1 [OF False] by (simp add: dec.simps [of n])
  qed (simp add: dec.simps [of n])
qed

lemma hexdigest_length: "length (hexdigest h) = 2 * length h"
  by (induction h) (simp_all add: hexdigest_def)

lemma metadata_length:
  "length (metadata_text name ext n h) \<le> 2 * (length name + length ext + n + 2 * length h + 30)"
proof -
  have "length (metadata_text name ext n h) \<le>
      2 * length (''name='' @ name @ [char_of (9::nat)] @ ''ext='' @ ext @ [char_of (9::nat)] @ ''size='' @ dec n
        @ [char_of (9::nat)] @ ''sha256='' @ hexdigest h)"
    unfolding metadata_text_def by (rule encode_utf8_length)
  then show ?thesis using dec_length [of n] hexdigest_length [of h] by simp
qed

lemma pools_for_small: "n < DEFAULT_CHUNK_SIZE \<Longrightarrow> pools_for n = 2"
  by (simp add: pools_for_def DEFAULT_CHUNK_SIZE_def RAW_READ_def)

definition plain_ext :: "string \<Rightarrow> bool" where
  "plain_ext ext \<longleftrightarrow> ext \<noteq> ''.pdf'' \<and> ext \<notin> set ZIP_CONTAINER_EXTS \<and> ext \<notin> set ALREADY_COMPRESSED_EXTS"

lemma small_file_need:
  assumes "sha_ok E" "fs path = Some d" "plain_ext (lower_ext path)"
    and "2 * (length (basename path) + length (lower_ext path) + length d + 94) < DEFAULT_CHUNK_SIZE"
  shows "file_need E L fs path = 18 * L + 6"
proof -
  have m: "length (metadata_text (basename path) (lower_ext path) (length d) (sha256 E d)) < DEFAULT_CHUNK_SIZE"
    using metadata_length [of "basename path" "lower_ext path" "length d" "sha256 E d"] assms(4) sha_length [OF assms(1), of d]
    by simp
  have t: "length (encode_utf8 (lower_ext path)) < DEFAULT_CHUNK_SIZE"
    using encode_utf8_length [of "lower_ext path"] assms(4) by simp
  have d: "length d < DEFAULT_CHUNK_SIZE" using assms(4) by simp
  show ?thesis
    using assms(2,3) by (simp add: file_need_def split_file_def Let_def metadata_path_bytes plain_ext_def need_of_def sr_piece_def
        resolve_def pools_for_small [OF m] pools_for_small [OF t] pools_for_small [OF d])
qed

lemma small_bytes_need:
  assumes "sha_ok E" "plain_ext (lower_ext name)"
    and "2 * (length (basename name) + length (lower_ext name) + length raw + 94) < DEFAULT_CHUNK_SIZE"
  shows "bytes_need E L raw name = 18 * L + 6"
proof -
  have "bytes_need E L raw name = file_need E L [name \<mapsto> raw] name"
    using assms(2) by (simp add: bytes_need_def file_need_def split_file_def split_bytes_def Let_def metadata_path_bytes plain_ext_def
        need_of_def sr_piece_def resolve_def)
  then show ?thesis using small_file_need [OF assms(1) _ assms(2,3), of "[name \<mapsto> raw]"] by simp
qed

section \<open>Runs of saves\<close>

text \<open>Saves by path, with the motion before each; the results.\<close>

type_synonym file_save = "sv_event list \<times> disk \<times> (which \<Rightarrow> draws) \<times> string \<times> string"

fun save_each :: "env \<Rightarrow> file_save list \<Rightarrow> sstore \<Rightarrow> string res list \<times> sstore" where
  "save_each E [] s = ([], s)"
| "save_each E ((es, fs, D, i, path) # cs) s =
     (let (r, s1) = sv_save E fs D i path (fold (sv_step E) es s); (rs, s2) = save_each E cs s1 in (r # rs, s2))"

lemma groupless_steps:
  assumes "env_ok E" "key_cells E L" "sv_ok E s" "sv_group s = None" "list_all sv_good es"
  shows "sv_ok E (fold (sv_step E) es s) \<and> sv_group (fold (sv_step E) es s) = None \<and> room L (fold (sv_step E) es s) \<le> room L s"
  using assms(3-5)
proof (induction es arbitrary: s)
  case (Cons e es)
  have "sv_group (sv_step E e s) = None"
    using Cons.prems(2) sv_step_groupless by blast
  then show ?case
    using Cons sv_step_same [of E s e] room_step [OF assms(1,2) Cons.prems(2), of e] by fastforce
qed simp

lemma save_fits:
  assumes "env_ok E" "\<forall>w. draws_ok (D w)" "key_cells E L" "sv_ok E s" "sv_group s = None"
    and "fs path \<noteq> None" "room L s + file_need E L fs path \<le> MAX_REGIONS"
  obtains s' where "sv_save E fs D i path s = (Inr i, s')" "sv_ok E s'" "sv_group s' = None"
    "room L s' \<le> room L s + file_need E L fs path"
proof -
  obtain d where d: "fs path = Some d" using assms(6) by blast
  obtain r where r: "split_file E fs path = Inr r" "\<And>w. resolve fs (sr_piece r w) \<noteq> None"
    using split_file_pieces [where fs = fs and path = path and d = d and E = E, OF d] by blast
  obtain s' where s': "sv_hold E fs D i r (basename path) s = (Inr i, s')" "room L s' \<le> room L s + need_of L fs r"
    using hold_fits [where D = D and name = "basename path" and i = i, OF assms(1) assms(2) [rule_format] assms(3-5) r(2)] assms(7)
    by (auto simp: file_need_def r(1))
  have save: "sv_save E fs D i path s = (Inr i, s')" by (simp add: sv_save_def r(1) s'(1))
  have "sv_group s' = None"
    using hold_groupless [where D = D, OF assms(1) assms(2) [rule_format] assms(4,5) r(2) s'(1)] .
  moreover have "sv_ok E s'" using saved_file_ok [OF assms(1,2,4) save] by blast
  ultimately show thesis using that save s'(2) by (simp add: file_need_def r(1))
qed


lemma forget_frees_nothing: "taken (fst (sv_forget i s)) = taken s"
  by (simp add: sv_forget_def taken_def split: option.splits)

lemma demo_names: "basename ''/f.csv'' = ''f.csv''" "lower_ext ''/f.csv'' = ''.csv''" "plain_ext ''.csv''"
  by code_simp+


end
