(* ===== verification/MultifileRun.thy ===== *)
theory MultifileRun
  imports Capacity LayerStreaming "HOL-Library.List_Lexorder" "HOL-Library.Char_ord"
begin

text \<open>
  \<open>_ultimate_multifile_child.py\<close>: the script that puts every file of a manifest through the secure store, takes one out
  and puts it back in, looks whether all boxes hop, and checks all files at the end. It runs on the model of
  \<open>SecureSystem\<close>; between its calls the movers do what they like.
\<close>

section \<open>The script\<close>

text \<open>
  What \<open>json.load\<close> gives for the manifest: an entry per file. The lines the script prints are values of \<open>report\<close>,
  without the times, the figures of \<open>/proc\<close> and those of \<open>psutil\<close>, which it only passes on.
\<close>

record mentry =
  me_name :: string
  me_size :: nat
  me_sha256 :: string

datatype report =
    Started | WatchdogStarted bool | SavedOne string nat | AllSaved nat | Settled
  | MidTestRetrieve string bool string string | SentBackIn string string
  | HopConcurrencyCheck nat nat "string list" int int rat
  | FinalRetrieveOne string bool nat | AllRetrieved nat bool nat | ReadyForTamperTest | TamperTestTimedOut

text \<open>
  What happens outside: the disk, the ids and random bytes drawn by each save, and what moves before each save, in the
  two pauses and before each of the last retrievals.
\<close>

record outside =
  ou_disk :: disk
  ou_ids :: "nat \<Rightarrow> string"
  ou_draws :: "nat \<Rightarrow> which \<Rightarrow> draws"
  ou_before_save :: "nat \<Rightarrow> sv_event list"
  ou_settle1 :: "sv_event list"
  ou_settle2 :: "sv_event list"
  ou_before_retrieve :: "nat \<Rightarrow> sv_event list"

definition sv_moved :: "env \<Rightarrow> sv_event list \<Rightarrow> sstore \<Rightarrow> sstore" where
  "sv_moved E es s = fold (sv_step E) es s"

definition path_join :: "string \<Rightarrow> string \<Rightarrow> string" where
  "path_join a b =
     (if take 1 b = ''/'' then b else if a = [] \<or> last a = CHR ''/'' then a @ b else a @ ''/'' @ b)"

definition which_name :: "which \<Rightarrow> string" where
  "which_name w = (case w of Content \<Rightarrow> ''content'' | Structure \<Rightarrow> ''structure'' | Metadata \<Rightarrow> ''metadata'')"

text \<open>\<open>_hops_all\<close>.\<close>

definition hops_all :: "sstore \<Rightarrow> (string, nat) dict" where
  "hops_all s =
     fold (\<lambda>(file_id, held). fold (\<lambda>(piece, rb). dict_set (file_id @ '':'' @ which_name piece) (cb_hops (rb_box rb))) (sh_boxes held))
       (sv_held s) []"

definition files_by_name :: "mentry list \<Rightarrow> (string, mentry) dict" where
  "files_by_name files = fold (\<lambda>e. dict_set (me_name e) e) files []"

text \<open>The loop over the sorted names; \<open>k\<close> counts the saves.\<close>

fun save_all ::
  "env \<Rightarrow> outside \<Rightarrow> string \<Rightarrow> nat \<Rightarrow> (string \<times> mentry) list \<Rightarrow> (string, string) dict \<Rightarrow> sstore \<Rightarrow>
   report list \<times> (string, string) dict res \<times> sstore" where
  "save_all E O1 out_dir k [] file_ids s = ([], Inr file_ids, s)"
| "save_all E O1 out_dir k ((name, e) # rest) file_ids s =
     (case sv_save E (ou_disk O1) (ou_draws O1 k) (ou_ids O1 k) (path_join out_dir name) (sv_moved E (ou_before_save O1 k) s) of
        (Inl x, s') \<Rightarrow> ([], Inl x, s')
      | (Inr fid, s') \<Rightarrow>
          (case save_all E O1 out_dir (Suc k) rest (dict_set name fid file_ids) s' of
             (out, r) \<Rightarrow> (SavedOne name (me_size e) # out, r)))"

definition sorted_entries :: "(string, mentry) dict \<Rightarrow> (string \<times> mentry) list" where
  "sorted_entries files = map (\<lambda>n. (n, the (dict_get files n))) (sort (dict_keys files))"

text \<open>The numbers of \<open>hop_concurrency_check\<close>.\<close>

definition round2 :: "rat \<Rightarrow> rat" where
  "round2 x = of_int (round_even (x * 100)) / 100"

definition hop_check :: "(string, nat) dict \<Rightarrow> (string, nat) dict \<Rightarrow> report" where
  "hop_check hops_t0 hops_t1 =
     (let deltas = map (\<lambda>(k, h). (k, int h - int (case dict_get hops_t0 k of None \<Rightarrow> 0 | Some h0 \<Rightarrow> h0))) hops_t1;
          stalled = map fst (filter (\<lambda>(k, v). v \<le> 0) deltas);
          vs = map snd deltas
      in HopConcurrencyCheck (length deltas) (length stalled) (take 5 stalled)
           (if vs = [] then 0 else Min (set vs)) (if vs = [] then 0 else Max (set vs))
           (round2 (of_int (sum_list vs) / of_nat (max (length deltas) 1))))"

text \<open>\<open>label.split("::")[0]\<close>.\<close>

fun before_colons :: "string \<Rightarrow> string" where
  "before_colons (a # b # cs) = (if a = CHR '':'' \<and> b = CHR '':'' then [] else a # before_colons (b # cs))"
| "before_colons cs = cs"

definition byte_perfect :: "env \<Rightarrow> mentry \<Rightarrow> bytes \<Rightarrow> bool" where
  "byte_perfect E e d \<longleftrightarrow> hexdigest (sha256 E d) = me_sha256 e"

fun retrieve_all ::
  "env \<Rightarrow> outside \<Rightarrow> (string, mentry) dict \<Rightarrow> nat \<Rightarrow> (string, string) dict \<Rightarrow> sstore \<Rightarrow>
   report list \<times> (bool \<times> nat) list res \<times> sstore" where
  "retrieve_all E O1 files k [] s = ([], Inr [], s)"
| "retrieve_all E O1 files k ((label, fid) # rest) s =
     (case dict_get files (before_colons label) of None \<Rightarrow> ([], Inl KeyError, s)
      | Some e \<Rightarrow>
          (case sv_retrieve E fid Full (sv_moved E (ou_before_retrieve O1 k) s) of
             (Inl x, s') \<Rightarrow> ([], Inl x, s')
           | (Inr d, s') \<Rightarrow>
               (let ok = byte_perfect E e d in
                case retrieve_all E O1 files (Suc k) rest s' of
                  (out, r, s'') \<Rightarrow> (FinalRetrieveOne label ok (length d) # out, map_res ((#) (ok, length d)) r, s''))))"

text \<open>The retrievals at the end and the lines after them.\<close>

definition final_phase ::
  "env \<Rightarrow> outside \<Rightarrow> (string, mentry) dict \<Rightarrow> (string, string) dict \<Rightarrow> sstore \<Rightarrow> report list \<times> unit res" where
  "final_phase E O1 files all_ids s =
     (case retrieve_all E O1 files 0 all_ids s of
        (out, Inl x, s') \<Rightarrow> (out, Inl x)
      | (out, Inr rs, s') \<Rightarrow>
          (out @ [AllRetrieved (length rs) (list_all fst rs) (sum_list (map snd rs)), ReadyForTamperTest, TamperTestTimedOut], Inr ()))"

text \<open>From the retrieval in the middle on.\<close>

definition restore_phase ::
  "env \<Rightarrow> outside \<Rightarrow> string \<Rightarrow> (string, mentry) dict \<Rightarrow> (string, string) dict \<Rightarrow> sstore \<Rightarrow> report list \<times> unit res" where
  "restore_phase E O1 restore_target files file_ids s =
     (let hops_t0 = hops_all s; s1 = sv_moved E (ou_settle1 O1) s in
      case dict_get files restore_target of None \<Rightarrow> ([Settled], Inl KeyError)
      | Some e \<Rightarrow>
      (case dict_get file_ids restore_target of None \<Rightarrow> ([Settled], Inl KeyError)
      | Some fid \<Rightarrow>
      (case sv_retrieve E fid Full s1 of (Inl x, s2) \<Rightarrow> ([Settled], Inl x)
      | (Inr retrieved, s2) \<Rightarrow>
          (let got = hexdigest (sha256 E retrieved);
               out = [Settled, MidTestRetrieve restore_target (byte_perfect E e retrieved) (take 16 (me_sha256 e)) (take 16 got)];
               n = length file_ids in
           case sv_save_bytes E (ou_draws O1 n) (ou_ids O1 n) retrieved restore_target s2 of
             (Inl x, s3) \<Rightarrow> (out, Inl x)
           | (Inr restored_id, s3) \<Rightarrow>
               (let s4 = sv_moved E (ou_settle2 O1) s3;
                    all_ids = dict_set (restore_target @ ''::restored_copy'') restored_id file_ids in
                case final_phase E O1 files all_ids s4 of
                  (out', r) \<Rightarrow> (out @ [SentBackIn restore_target restored_id, hop_check hops_t0 (hops_all s4)] @ out', r))))))"

definition child_main :: "env \<Rightarrow> outside \<Rightarrow> string \<Rightarrow> string \<Rightarrow> mentry list \<Rightarrow> report list \<times> unit res" where
  "child_main E O1 out_dir restore_target manifest =
     (let files = files_by_name manifest in
      case sv_init True True None None of Inl x \<Rightarrow> ([Started], Inl x)
      | Inr s0 \<Rightarrow>
          (case save_all E O1 out_dir 0 (sorted_entries files) [] s0 of
             (out, Inl x, s) \<Rightarrow> ([Started, WatchdogStarted True] @ out, Inl x)
           | (out, Inr file_ids, s) \<Rightarrow>
               (case restore_phase E O1 restore_target files file_ids s of
                  (out', r) \<Rightarrow> ([Started, WatchdogStarted True] @ out @ [AllSaved (length file_ids)] @ out', r))))"

section \<open>What the store holds\<close>

text \<open>The store holds the bytes \<open>f i\<close> under every id \<open>i\<close> of its domain, in at most \<open>m\<close> entries of the table.\<close>

definition holds :: "env \<Rightarrow> nat \<Rightarrow> nat \<Rightarrow> (string \<rightharpoonup> bytes) \<Rightarrow> sstore \<Rightarrow> bool" where
  "holds E L m f s \<longleftrightarrow> sv_ok E s \<and> sv_group s = None \<and> room L s \<le> m \<and>
     (\<forall>i d. f i = Some d \<longrightarrow> sv_read Full (sv_data E s i) = Inr d)"

text \<open>The packages outside keep their promises, and \<open>L\<close> bounds the compressed keys.\<close>

definition setting :: "env \<Rightarrow> nat \<Rightarrow> bool" where
  "setting E L \<longleftrightarrow> env_ok E \<and> key_cells E L"

lemma settingD: "setting E L \<Longrightarrow> env_ok E" "setting E L \<Longrightarrow> key_cells E L"
  by (simp_all add: setting_def)

lemma holds_moved:
  assumes "setting E L" "holds E L m f s" "list_all sv_good es"
  shows "holds E L m f (sv_moved E es s)"
  using assms(2,3) unfolding sv_moved_def
proof (induction es arbitrary: s)
  case (Cons e es)
  have "room L (sv_step E e s) \<le> m"
    using room_step [OF settingD [OF assms(1)], of s e] Cons.prems(1) by (simp add: holds_def)
  then have "holds E L m f (sv_step E e s)"
    using Cons.prems sv_step_same [of E s e] sv_step_groupless by (auto simp: holds_def)
  then show ?case using Cons by simp
qed simp

lemma holds_retrieve:
  assumes "setting E L" "holds E L m f s" "f i = Some d"
  shows "\<exists>s'. sv_retrieve E i Full s = (Inr d, s') \<and> holds E L m f s'"
proof -
  obtain r s' where r: "sv_retrieve E i Full s = (r, s')" by fastforce
  have "r = Inr d" using sv_retrieve_out [of E i Full s] assms r by (simp add: holds_def)
  moreover have "holds E L m f s'"
    using holds_moved [OF assms(1,2), of "[SRead i Full]"] r by (simp add: sv_moved_def)
  ultimately show ?thesis using r by blast
qed

lemma holds_hold:
  assumes "setting E L" "\<forall>w. draws_ok (D w)" "holds E L m f s"
    and "\<And>w. resolve fs (sr_piece r w) \<noteq> None" "resolve fs (sr_piece r (sr_reconstruct_from r)) = Some d"
    and "m + need_of L fs r \<le> MAX_REGIONS"
  shows "\<exists>s'. sv_hold E fs D i r name s = (Inr i, s') \<and> holds E L (m + need_of L fs r) (f(i \<mapsto> d)) s'"
proof -
  note set = settingD [OF assms(1)]
  have s: "sv_ok E s" "sv_group s = None" "room L s + need_of L fs r \<le> MAX_REGIONS"
    using assms(3,6) by (simp_all add: holds_def)
  obtain s' where s': "sv_hold E fs D i r name s = (Inr i, s')" "room L s' \<le> room L s + need_of L fs r"
    by (rule hold_fits [where D = D and name = name and i = i, OF set(1) assms(2) [rule_format] set(2) s(1,2) assms(4) s(3)]) blast
  have g: "sv_group s' = None"
    using hold_groupless [where D = D, OF set(1) assms(2) [rule_format] s(1,2) assms(4) s'(1)] .
  show ?thesis
  proof (rule sv_hold_ok [where E = E and D = D and s = s and fs = fs and i = i and r = r and name = name,
        OF set(1) assms(2) [rule_format] s(1)])
    fix res' t
    assume h: "sv_hold E fs D i r name s = (res', t)" "sv_ok E t"
      "case res' of Inl e \<Rightarrow> sv_held t = sv_held s | Inr x \<Rightarrow> x = i \<and> sv_data E t = (sv_data E s)(i \<mapsto> saved_data fs r)"
    then have "sv_ok E s'" "sv_data E s' = (sv_data E s)(i \<mapsto> saved_data fs r)" using s'(1) by auto
    then have "holds E L (m + need_of L fs r) (f(i \<mapsto> d)) s'"
      using assms(3) s'(2) g saved_read [OF assms(5)] by (auto simp: holds_def)
    then show ?thesis using s'(1) by blast
  qed
qed

lemma holds_save:
  assumes "setting E L" "\<forall>w. draws_ok (D w)" "holds E L m f s" "fs path = Some d" "m + file_need E L fs path \<le> MAX_REGIONS"
  shows "\<exists>s'. sv_save E fs D i path s = (Inr i, s') \<and> holds E L (m + file_need E L fs path) (f(i \<mapsto> d)) s'"
proof -
  obtain r where r: "split_file E fs path = Inr r" "\<And>w. resolve fs (sr_piece r w) \<noteq> None"
    "resolve fs (sr_piece r (sr_reconstruct_from r)) = Some d"
    using split_file_pieces [where fs = fs and path = path and d = d and E = E, OF assms(4)] by blast
  show ?thesis
    using holds_hold [OF assms(1-3) r(2,3), of i "basename path"] assms(5) by (simp add: sv_save_def file_need_def r(1))
qed

lemma holds_save_bytes:
  assumes "setting E L" "\<forall>w. draws_ok (D w)" "holds E L m f s" "m + bytes_need E L d name \<le> MAX_REGIONS"
  shows "\<exists>s'. sv_save_bytes E D i d name s = (Inr i, s') \<and> holds E L (m + bytes_need E L d name) (f(i \<mapsto> d)) s'"
proof -
  have "resolve (\<lambda>_. None) (sr_piece (split_bytes E d name) w) \<noteq> None" for w
    using split_bytes_no_file [of E d name w] by (auto simp: resolve_def)
  moreover have "resolve (\<lambda>_. None) (sr_piece (split_bytes E d name) (sr_reconstruct_from (split_bytes E d name))) = Some d"
    by (simp add: resolve_def)
  ultimately show ?thesis
    using holds_hold [OF assms(1-3)] assms(4) by (simp add: sv_save_bytes_def bytes_need_def)
qed

section \<open>The phases\<close>

definition outside_ok :: "outside \<Rightarrow> bool" where
  "outside_ok O1 \<longleftrightarrow> inj (ou_ids O1) \<and> (\<forall>k w. draws_ok (ou_draws O1 k w)) \<and>
     (\<forall>k. list_all sv_good (ou_before_save O1 k)) \<and> list_all sv_good (ou_settle1 O1) \<and> list_all sv_good (ou_settle2 O1) \<and>
     (\<forall>k. list_all sv_good (ou_before_retrieve O1 k))"

definition on_disk :: "outside \<Rightarrow> string \<Rightarrow> string \<Rightarrow> bytes" where
  "on_disk O1 out_dir name = the (ou_disk O1 (path_join out_dir name))"

text \<open>Every id in the dictionary has the bytes of its file, and later ids are free.\<close>

definition filed :: "outside \<Rightarrow> string \<Rightarrow> nat \<Rightarrow> (string \<rightharpoonup> bytes) \<Rightarrow> (string, string) dict \<Rightarrow> bool" where
  "filed O1 out_dir k f file_ids \<longleftrightarrow>
     (\<forall>(n, i) \<in> set file_ids. f i = Some (on_disk O1 out_dir n)) \<and> dom f \<subseteq> ou_ids O1 ` {..<k}"

lemma filed_next:
  assumes "filed O1 out_dir k f file_ids" "inj (ou_ids O1)" "name \<notin> fst ` set file_ids"
  shows "filed O1 out_dir (Suc k) (f(ou_ids O1 k \<mapsto> on_disk O1 out_dir name)) (file_ids @ [(name, ou_ids O1 k)])"
proof -
  have "ou_ids O1 k \<notin> ou_ids O1 ` {..<k}" using assms(2) by (auto simp: inj_def)
  then have "f (ou_ids O1 k) = None" using assms(1) by (auto simp: filed_def)
  then show ?thesis using assms(1) by (auto simp: filed_def lessThan_Suc)
qed

lemma dict_set_append: "k \<notin> fst ` set d \<Longrightarrow> dict_set k v d = d @ [(k, v)]"
  by (induction d) (auto simp: dict_set_def)

definition needs :: "env \<Rightarrow> nat \<Rightarrow> outside \<Rightarrow> string \<Rightarrow> string list \<Rightarrow> nat" where
  "needs E L O1 out_dir names = sum_list (map (\<lambda>n. file_need E L (ou_disk O1) (path_join out_dir n)) names)"

lemma save_all_outcome:
  assumes "setting E L" "outside_ok O1" "\<forall>(n, e) \<in> set es. ou_disk O1 (path_join out_dir n) \<noteq> None"
    and "distinct (map fst file_ids @ map fst es)" "holds E L m f s" "filed O1 out_dir k f file_ids"
    and "m + needs E L O1 out_dir (map fst es) \<le> MAX_REGIONS"
  shows "\<exists>out file_ids' s' f'. save_all E O1 out_dir k es file_ids s = (out, Inr file_ids', s') \<and>
    map fst file_ids' = map fst file_ids @ map fst es \<and>
    holds E L (m + needs E L O1 out_dir (map fst es)) f' s' \<and> filed O1 out_dir (k + length es) f' file_ids'"
  using assms(3-7)
proof (induction es arbitrary: k file_ids f s m)
  case (Cons ne es)
  obtain n e where ne: "ne = (n, e)" by fastforce
  let ?need = "file_need E L (ou_disk O1) (path_join out_dir n)" and ?i = "ou_ids O1 k"
  obtain d where d: "ou_disk O1 (path_join out_dir n) = Some d" using Cons.prems(1) ne by auto
  have O1: "\<forall>w. draws_ok (ou_draws O1 k w)" "list_all sv_good (ou_before_save O1 k)" "inj (ou_ids O1)"
    using assms(2) by (simp_all add: outside_ok_def)
  have fit: "m + ?need + needs E L O1 out_dir (map fst es) \<le> MAX_REGIONS" using Cons.prems(5) by (simp add: ne needs_def)
  then have "m + ?need \<le> MAX_REGIONS" by simp
  from holds_save [OF assms(1) O1(1) holds_moved [OF assms(1) Cons.prems(3) O1(2)] d this, of ?i]
  obtain s1 where s1: "sv_save E (ou_disk O1) (ou_draws O1 k) ?i (path_join out_dir n) (sv_moved E (ou_before_save O1 k) s) = (Inr ?i, s1)"
    "holds E L (m + ?need) (f(?i \<mapsto> d)) s1" by blast
  have new: "n \<notin> fst ` set file_ids" "dict_set n ?i file_ids = file_ids @ [(n, ?i)]"
    using Cons.prems(2) ne dict_set_append by auto
  have "on_disk O1 out_dir n = d" using d by (simp add: on_disk_def)
  then have filed: "filed O1 out_dir (Suc k) (f(?i \<mapsto> d)) (file_ids @ [(n, ?i)])"
    using filed_next [OF Cons.prems(4) O1(3) new(1)] by simp
  have names: "distinct (map fst (file_ids @ [(n, ?i)]) @ map fst es)" "\<forall>(n, e) \<in> set es. ou_disk O1 (path_join out_dir n) \<noteq> None"
    using Cons.prems(1,2) ne by auto
  from Cons.IH [OF names(2,1) s1(2) filed fit] obtain out file_ids' s' f' where
    "save_all E O1 out_dir (Suc k) es (file_ids @ [(n, ?i)]) s1 = (out, Inr file_ids', s')"
    "map fst file_ids' = map fst (file_ids @ [(n, ?i)]) @ map fst es"
    "holds E L (m + ?need + needs E L O1 out_dir (map fst es)) f' s'" "filed O1 out_dir (Suc k + length es) f' file_ids'"
    by blast
  then show ?case by (simp add: ne s1(1) new(2) needs_def add.assoc) blast
qed (auto simp: needs_def)

lemma retrieve_all_outcome:
  assumes "setting E L" "outside_ok O1" "holds E L m f s"
    and "\<forall>(l, i) \<in> set ids. f i = Some (dat l) \<and> dict_get files (before_colons l) = Some (ent l)"
  shows "\<exists>s'. retrieve_all E O1 files k ids s =
    (map (\<lambda>(l, i). FinalRetrieveOne l (byte_perfect E (ent l) (dat l)) (length (dat l))) ids,
     Inr (map (\<lambda>(l, i). (byte_perfect E (ent l) (dat l), length (dat l))) ids), s')"
  using assms(3,4)
proof (induction ids arbitrary: k s)
  case (Cons li ids)
  obtain l i where li: "li = (l, i)" by fastforce
  have f: "f i = Some (dat l)" "dict_get files (before_colons l) = Some (ent l)" using Cons.prems(2) li by auto
  have "list_all sv_good (ou_before_retrieve O1 k)" using assms(2) by (simp add: outside_ok_def)
  then obtain s1 where s1: "sv_retrieve E i Full (sv_moved E (ou_before_retrieve O1 k) s) = (Inr (dat l), s1)" "holds E L m f s1"
    using holds_retrieve [OF assms(1) holds_moved [OF assms(1) Cons.prems(1)] f(1)] by blast
  have "\<forall>(l, i) \<in> set ids. f i = Some (dat l) \<and> dict_get files (before_colons l) = Some (ent l)" using Cons.prems(2) by simp
  from Cons.IH [OF s1(2) this, of "Suc k"] show ?case by (auto simp: li f(2) s1(1) Let_def)
qed simp

lemma before_colons_plain: "CHR '':'' \<notin> set n \<Longrightarrow> before_colons n = n \<and> before_colons (n @ CHR '':'' # CHR '':'' # t) = n"
proof (induction n)
  case (Cons c n)
  then show ?case by (cases n) auto
qed simp

section \<open>The whole run\<close>

lemma files_by_name_distinct:
  assumes "distinct (map me_name manifest)"
  shows "files_by_name manifest = map (\<lambda>e. (me_name e, e)) manifest"
proof -
  have "fst ` set (map (\<lambda>e. (me_name e, e)) manifest) \<inter> fst ` set d = {} \<Longrightarrow> distinct (map me_name manifest) \<Longrightarrow>
      fold (\<lambda>e. dict_set (me_name e) e) manifest d = d @ map (\<lambda>e. (me_name e, e)) manifest" for d
  proof (induction manifest arbitrary: d)
    case (Cons e es)
    have "dict_set (me_name e) e d = d @ [(me_name e, e)]" using Cons.prems by (intro dict_set_append) auto
    then show ?case using Cons.IH [of "d @ [(me_name e, e)]"] Cons.prems by (auto simp: image_image)
  qed simp
  from this [of "[]"] show ?thesis using assms by (simp add: files_by_name_def)
qed

lemma files_get:
  assumes "distinct (map me_name manifest)" "e \<in> set manifest"
  shows "dict_get (files_by_name manifest) (me_name e) = Some e"
  unfolding files_by_name_distinct [OF assms(1)] dict_get_def
  by (rule map_of_is_SomeI) (use assms in \<open>auto simp: comp_def\<close>)

lemma sum_sorted: "sum_list (map h (sort ys)) = sum_list (map h ys)" for h :: "'a::linorder \<Rightarrow> nat"
proof -
  have "mset (map h (sort ys)) = mset (map h ys)" by (simp add: mset_map)
  then show ?thesis by (metis sum_mset_sum_list)
qed

lemma before_colons_names:
  assumes "\<forall>e \<in> set manifest. CHR '':'' \<notin> set (me_name e)" "e \<in> set manifest"
  shows "before_colons (me_name e) = me_name e" "before_colons (me_name e @ ''::restored_copy'') = me_name e"
    "me_name e @ ''::restored_copy'' \<notin> me_name ` set manifest"
proof -
  show "before_colons (me_name e) = me_name e" "before_colons (me_name e @ ''::restored_copy'') = me_name e"
    using assms before_colons_plain [of "me_name e" "''restored_copy''"] by simp_all
  show "me_name e @ ''::restored_copy'' \<notin> me_name ` set manifest"
  proof
    assume "me_name e @ ''::restored_copy'' \<in> me_name ` set manifest"
    then obtain e' where "e' \<in> set manifest" "me_name e' = me_name e @ ''::restored_copy''" by auto
    moreover have "CHR '':'' \<in> set (me_name e @ ''::restored_copy'')" by simp
    ultimately show False using assms(1) by metis
  qed
qed

text \<open>The last phase, with every file of the manifest filed and the copy of one.\<close>

lemma final_phase_outcome:
  fixes O1 out_dir
  defines "dat \<equiv> on_disk O1 out_dir"
  assumes "outside_ok O1" "distinct (map me_name manifest)" "\<forall>e \<in> set manifest. CHR '':'' \<notin> set (me_name e)"
    and "e0 \<in> set manifest" "map fst file_ids = sort (map me_name manifest)"
    and "holds E L m g s" "\<forall>(n, i) \<in> set file_ids. g i = Some (dat n)" "g rid = Some (dat (me_name e0))" "setting E L"
  shows "\<exists>out. final_phase E O1 (files_by_name manifest) (file_ids @ [(me_name e0 @ ''::restored_copy'', rid)]) s = (out, Inr ()) \<and>
    (\<forall>e \<in> set manifest. FinalRetrieveOne (me_name e) (byte_perfect E e (dat (me_name e))) (length (dat (me_name e))) \<in> set out) \<and>
    AllRetrieved (length manifest + 1) (\<forall>e \<in> set manifest. byte_perfect E e (dat (me_name e)))
      (sum_list (map (\<lambda>e. length (dat (me_name e))) manifest) + length (dat (me_name e0))) \<in> set out"
proof -
  let ?files = "files_by_name manifest" and ?copy = "me_name e0 @ ''::restored_copy''"
  let ?all = "file_ids @ [(?copy, rid)]"
  let ?g = "\<lambda>l. dat (before_colons l)" and ?e = "\<lambda>l. the (dict_get ?files (before_colons l))"
  note get = files_get [OF assms(3)]
  note plain = before_colons_names(1) [OF assms(4)] before_colons_names(2) [OF assms(4,5)]
  have names: "fst ` set file_ids = me_name ` set manifest" using arg_cong [OF assms(6), of set] by simp
  have "\<forall>(l, i) \<in> set file_ids. g i = Some (?g l) \<and> dict_get ?files (before_colons l) = Some (?e l)"
  proof safe
    fix l i assume li: "(l, i) \<in> set file_ids"
    then obtain e where e: "e \<in> set manifest" "l = me_name e" using names by force
    show "g i = Some (?g l)" using assms(8) li e plain(1) by auto
    show "dict_get ?files (before_colons l) = Some (?e l)" using e plain(1) get by simp
  qed
  then have ids: "\<forall>(l, i) \<in> set ?all. g i = Some (?g l) \<and> dict_get ?files (before_colons l) = Some (?e l)"
    using plain(2) get [OF assms(5)] assms(9) by simp
  let ?final = "map (\<lambda>(l, i). FinalRetrieveOne l (byte_perfect E (?e l) (?g l)) (length (?g l))) ?all"
  let ?rs = "map (\<lambda>(l, i). (byte_perfect E (?e l) (?g l), length (?g l))) ?all"
  obtain s' where s': "retrieve_all E O1 ?files 0 ?all s = (?final, Inr ?rs, s')"
    using retrieve_all_outcome [OF assms(10) assms(2,7) ids, of 0] by blast
  have len: "length ?rs = length manifest + 1" using arg_cong [OF assms(6), of length] by simp
  have "map snd ?rs = map (\<lambda>l. length (?g l)) (sort (map me_name manifest)) @ [length (dat (me_name e0))]"
    unfolding assms(6) [symmetric] using plain(2) by (simp add: split_def)
  then have total: "sum_list (map snd ?rs) = sum_list (map (\<lambda>e. length (dat (me_name e))) manifest) + length (dat (me_name e0))"
    using plain(1) by (simp add: sum_sorted comp_def cong: map_cong)
  have "list_all fst ?rs \<longleftrightarrow> (\<forall>l \<in> fst ` set file_ids. byte_perfect E (?e l) (?g l)) \<and> byte_perfect E e0 (dat (me_name e0))"
    using plain(2) get [OF assms(5)] by (auto simp: list_all_iff split_def)
  also have "\<dots> \<longleftrightarrow> (\<forall>e \<in> set manifest. byte_perfect E e (dat (me_name e)))"
    unfolding names using plain(1) get assms(5) by auto
  finally have fin: "final_phase E O1 ?files ?all s = (?final @ [AllRetrieved (length manifest + 1)
      (\<forall>e \<in> set manifest. byte_perfect E e (dat (me_name e)))
      (sum_list (map (\<lambda>e. length (dat (me_name e))) manifest) + length (dat (me_name e0))), ReadyForTamperTest, TamperTestTimedOut], Inr ())"
    unfolding final_phase_def s' prod.case sum.case len total by simp
  have "FinalRetrieveOne (me_name e) (byte_perfect E e (dat (me_name e))) (length (dat (me_name e))) \<in> set ?final"
    if e: "e \<in> set manifest" for e
  proof -
    obtain i where "(me_name e, i) \<in> set file_ids" using names e by force
    then show ?thesis using plain(1) [OF e] get [OF e] by force
  qed
  then show ?thesis using fin by auto
qed

text \<open>From the middle of the run on, with every file of the manifest filed.\<close>

lemma restore_phase_outcome:
  fixes O1 out_dir
  defines "dat \<equiv> on_disk O1 out_dir"
  assumes "setting E L" "outside_ok O1" "distinct (map me_name manifest)" "\<forall>e \<in> set manifest. CHR '':'' \<notin> set (me_name e)"
    and "e0 \<in> set manifest" "map fst file_ids = sort (map me_name manifest)"
    and "holds E L m f s" "filed O1 out_dir (length file_ids) f file_ids"
    and "m + bytes_need E L (dat (me_name e0)) (me_name e0) \<le> MAX_REGIONS"
  shows "\<exists>out. restore_phase E O1 (me_name e0) (files_by_name manifest) file_ids s = (out, Inr ()) \<and>
    (\<exists>x y. MidTestRetrieve (me_name e0) (byte_perfect E e0 (dat (me_name e0))) x y \<in> set out) \<and>
    (\<forall>e \<in> set manifest. FinalRetrieveOne (me_name e) (byte_perfect E e (dat (me_name e))) (length (dat (me_name e))) \<in> set out) \<and>
    AllRetrieved (length manifest + 1) (\<forall>e \<in> set manifest. byte_perfect E e (dat (me_name e)))
      (sum_list (map (\<lambda>e. length (dat (me_name e))) manifest) + length (dat (me_name e0))) \<in> set out"
proof -
  let ?rid = "ou_ids O1 (length file_ids)" and ?copy = "me_name e0 @ ''::restored_copy''"
  have names: "fst ` set file_ids = me_name ` set manifest" using arg_cong [OF assms(7), of set] by simp
  obtain fid where fid: "(me_name e0, fid) \<in> set file_ids" using assms(6) names by force
  have "distinct (map fst file_ids)" using assms(4,7) by simp
  then have fid': "dict_get file_ids (me_name e0) = Some fid" "f fid = Some (dat (me_name e0))"
    using fid assms(9) by (auto simp: dict_get_def filed_def dat_def)
  have O1: "list_all sv_good (ou_settle1 O1)" "list_all sv_good (ou_settle2 O1)" "inj (ou_ids O1)"
    "\<forall>w. draws_ok (ou_draws O1 (length file_ids) w)" using assms(3) by (simp_all add: outside_ok_def)
  obtain s2 where s2: "sv_retrieve E fid Full (sv_moved E (ou_settle1 O1) s) = (Inr (dat (me_name e0)), s2)" "holds E L m f s2"
    using holds_retrieve [OF assms(2) holds_moved [OF assms(2,8) O1(1)] fid'(2)] by blast
  obtain s3 where s3: "sv_save_bytes E (ou_draws O1 (length file_ids)) ?rid (dat (me_name e0)) (me_name e0) s2 = (Inr ?rid, s3)"
    "holds E L (m + bytes_need E L (dat (me_name e0)) (me_name e0)) (f(?rid \<mapsto> dat (me_name e0))) s3"
    using holds_save_bytes [OF assms(2) O1(4) s2(2) assms(10), of ?rid] by blast
  have all: "dict_set ?copy ?rid file_ids = file_ids @ [(?copy, ?rid)]"
    using before_colons_names(3) [OF assms(5,6)] names by (intro dict_set_append) simp
  have "?rid \<notin> ou_ids O1 ` {..<length file_ids}" using O1(3) by (auto simp: inj_def)
  then have "f ?rid = None" using assms(9) by (auto simp: filed_def)
  then have "\<forall>(n, i) \<in> set file_ids. (f(?rid \<mapsto> dat (me_name e0))) i = Some (dat n)"
    using assms(9) by (auto simp: filed_def dat_def)
  from final_phase_outcome [where ?O1.0 = O1 and out_dir = out_dir, folded dat_def, OF assms(3-7) holds_moved [OF assms(2) s3(2) O1(2)] this fun_upd_same assms(2)] obtain out' where out':
    "final_phase E O1 (files_by_name manifest) (file_ids @ [(?copy, ?rid)]) (sv_moved E (ou_settle2 O1) s3) = (out', Inr ())"
    "\<forall>e \<in> set manifest. FinalRetrieveOne (me_name e) (byte_perfect E e (dat (me_name e))) (length (dat (me_name e))) \<in> set out'"
    "AllRetrieved (length manifest + 1) (\<forall>e \<in> set manifest. byte_perfect E e (dat (me_name e)))
      (sum_list (map (\<lambda>e. length (dat (me_name e))) manifest) + length (dat (me_name e0))) \<in> set out'"
    by blast
  show ?thesis
    unfolding restore_phase_def Let_def files_get [OF assms(4,6)] fid'(1) option.case s2(1) prod.case sum.case s3(1) all out'(1)
    using out'(2,3) by auto
qed


definition demo_outside :: outside where
  "demo_outside = \<lparr>ou_disk = [''/d/f.csv'' \<mapsto> [49, 44]], ou_ids = (\<lambda>k. replicate k CHR ''i''), ou_draws = (\<lambda>_ _. demo_draws),
     ou_before_save = (\<lambda>_. []), ou_settle1 = [SServe [] Content 0 (replicate 12 7) id], ou_settle2 = [SBounce [] Metadata True 4],
     ou_before_retrieve = (\<lambda>_. [])\<rparr>"

definition demo_manifest :: "mentry list" where
  "demo_manifest = [\<lparr>me_name = ''f.csv'', me_size = 2, me_sha256 = hexdigest (sha256 demo_env [49, 44])\<rparr>]"

lemma demo_outside_ok: "outside_ok demo_outside"
  by (auto simp: outside_ok_def demo_outside_def demo_draws_ok NONCE_LEN_def inj_def replicate_eq_replicate)

lemma demo_run_names: "path_join ''/d'' ''f.csv'' = ''/d/f.csv''" "basename ''/d/f.csv'' = ''f.csv''" "basename ''f.csv'' = ''f.csv''"
  "lower_ext ''/d/f.csv'' = ''.csv''" "lower_ext ''f.csv'' = ''.csv''" "plain_ext ''.csv''" "CHR '':'' \<notin> set ''f.csv''"
  by code_simp+


end
