(* ===== verification/Motion.thy ===== *)
theory Motion
  imports XorShares Measure ChunkedBox
begin

text \<open>
  The scripts of \<open>backup-original-source/vstorage\<close> that send a whole file through pipes and check what comes out:
  \<open>lean_motion_experiment.py\<close> and \<open>gb_under_50mb.py\<close> move its chunks through several pipes each,
  \<open>big_file_experiment_v2.py\<close> splits each chunk into XOR shares, \<open>big_file_experiment.py\<close> splits the whole
  file, and \<open>combined_experiment.py\<close> does so with pipes that it fills before it reads. What a pipe hands out is an
  argument, restricted in the theorems to the outcomes of the runs of \<open>pipe_step\<close>; so are the random bytes, the
  files of \<open>/proc\<close> and the readings of the memory in use. What a script printed before it raises is left out.
\<close>

section \<open>Figures from /proc\<close>

text \<open>\<open>line.strip()\<close>, and \<open>k, v = s.split(": ")\<close>, which wants exactly two parts.\<close>

definition strip :: "string \<Rightarrow> string" where
  "strip s = rev (dropWhile is_blank (rev (dropWhile is_blank s)))"

fun split_once :: "string \<Rightarrow> (string \<times> string) option" where
  "split_once (a # b # cs) =
     (if a = CHR '':'' \<and> b = CHR '' '' then Some ([], cs) else map_option (apfst ((#) a)) (split_once (b # cs)))"
| "split_once cs = None"

definition io_line :: "string \<Rightarrow> (string, nat) dict \<Rightarrow> (string, nat) dict res" where
  "io_line line d =
     (case split_once (strip line) of None \<Rightarrow> Inl ValueError
      | Some (k, v) \<Rightarrow> if split_once v \<noteq> None then Inl ValueError else map_res (\<lambda>n. dict_set k n d) (parse_digits v))"

definition get_disk_io :: "string list \<Rightarrow> (string, nat) dict res" where
  "get_disk_io ls = foldM io_line ls []"

definition get_rss_kb :: "string list \<Rightarrow> nat res" where
  "get_rss_kb status = map_res (\<lambda>r. case r of None \<Rightarrow> 0 | Some n \<Rightarrow> n) (find_field ''VmRSS'' status)"

text \<open>\<open>for k in io_start: print(f"  {k}: {io_end[k] - io_start[k]}")\<close>.\<close>

definition io_deltas :: "(string, nat) dict \<Rightarrow> (string, nat) dict \<Rightarrow> (string \<times> int) list res" where
  "io_deltas io_start io_end =
     mapM (\<lambda>(k, n). map_res (\<lambda>m. (k, int m - int n)) (of_option KeyError (dict_get io_end k))) io_start"

section \<open>The source file\<close>

text \<open>
  \<open>while remaining > 0\<close>: the k-th call of \<open>os.urandom\<close> gives the next piece. The chunk sizes of the scripts are
  positive.
\<close>

function gen_source :: "(nat \<Rightarrow> nat \<Rightarrow> bytes) \<Rightarrow> nat \<Rightarrow> nat \<Rightarrow> nat \<Rightarrow> bytes" where
  "gen_source urandom chunk k remaining =
     (if remaining = 0 \<or> chunk = 0 then []
      else (let n = min chunk remaining in urandom k n @ gen_source urandom chunk (Suc k) (remaining - n)))"
  by pat_completeness auto
termination by (relation "measure (\<lambda>(_, _, _, r). r)") auto

declare gen_source.simps [simp del]

text \<open>The loop that reads the file in chunks and feeds them to the hash.\<close>

definition fed_hash :: "env \<Rightarrow> nat \<Rightarrow> bytes \<Rightarrow> string" where
  "fed_hash E chunk d = hexdigest (sha256 E (fold (\<lambda>c fed. fed @ c) (read_blocks chunk d) []))"

section \<open>Chunks in motion\<close>

text \<open>
  What the loop has done: the bytes written to the output, those fed to the hash, the chunks counted and the peak of
  the readings \<open>mem\<close>, of which the first is taken before the loop.
\<close>

record motion =
  mo_out :: bytes
  mo_fed :: bytes
  mo_chunks :: nat
  mo_peak :: rat

definition motion_start :: "rat \<Rightarrow> motion" where
  "motion_start peak = \<lparr>mo_out = [], mo_fed = [], mo_chunks = 0, mo_peak = peak\<rparr>"

definition chunk_moved :: "bytes \<Rightarrow> motion \<Rightarrow> motion" where
  "chunk_moved c s = s\<lparr>mo_out := mo_out s @ c, mo_fed := mo_fed s @ c, mo_chunks := mo_chunks s + 1\<rparr>"

definition peaked :: "rat \<Rightarrow> motion \<Rightarrow> motion" where
  "peaked m s = s\<lparr>mo_peak := max (mo_peak s) m\<rparr>"

text \<open>\<open>stream k\<close> is what a pipe makes of a chunk while the k-th is at work.\<close>

fun lean_loop :: "(nat \<Rightarrow> bytes \<Rightarrow> bytes) \<Rightarrow> (nat \<Rightarrow> rat) \<Rightarrow> nat \<Rightarrow> bytes list \<Rightarrow> motion \<Rightarrow> motion" where
  "lean_loop stream mem hops [] s = s"
| "lean_loop stream mem hops (raw_chunk # rest) s =
     (let s1 = chunk_moved (hop_chunk_n_times (stream (mo_chunks s)) hops raw_chunk) s
      in lean_loop stream mem hops rest (peaked (mem (mo_chunks s1)) s1))"

text \<open>What the scripts print at the end.\<close>

record motion_report =
  mp_chunks :: nat
  mp_peak :: rat
  mp_matches :: bool
  mp_deltas :: "(string \<times> int) list"

definition lean_FILE_SIZE :: nat where
  "lean_FILE_SIZE = 500 * 1024 * 1024"

definition lean_NUM_HOPS :: nat where
  "lean_NUM_HOPS = 4"

definition lean_main ::
  "env \<Rightarrow> (nat \<Rightarrow> nat \<Rightarrow> bytes) \<Rightarrow> (nat \<Rightarrow> bytes \<Rightarrow> bytes) \<Rightarrow> (nat \<Rightarrow> rat) \<Rightarrow> string list \<Rightarrow> string list \<Rightarrow> (bytes \<times> motion_report) res" where
  "lean_main E urandom stream mem proc_io proc_io' =
     (case get_disk_io proc_io of Inl e \<Rightarrow> Inl e | Inr io_start \<Rightarrow>
      let source = gen_source urandom CHUNK_SIZE 0 lean_FILE_SIZE;
          original_hash = fed_hash E CHUNK_SIZE source;
          s = lean_loop stream mem lean_NUM_HOPS (read_blocks CHUNK_SIZE source) (motion_start (mem 0));
          final_hash = hexdigest (sha256 E (mo_fed s)) in
      case get_disk_io proc_io' of Inl e \<Rightarrow> Inl e | Inr io_end \<Rightarrow>
      map_res (\<lambda>ds. (mo_out s, \<lparr>mp_chunks = mo_chunks s, mp_peak = mo_peak s, mp_matches = (final_hash = original_hash), mp_deltas = ds\<rparr>))
        (io_deltas io_start io_end))"

subsection \<open>One gigabyte in half-megabyte chunks\<close>

definition gb_FILE_SIZE :: nat where
  "gb_FILE_SIZE = 1024 * 1024 * 1024"

definition gb_CHUNK_SIZE :: nat where
  "gb_CHUNK_SIZE = 512 * 1024"

definition gb_NUM_HOPS :: nat where
  "gb_NUM_HOPS = 3"

definition hop_n_times :: "(bytes \<Rightarrow> bytes) \<Rightarrow> nat \<Rightarrow> bytes \<Rightarrow> bytes" where
  "hop_n_times stream hops chunk = (stream ^^ hops) chunk"

text \<open>The memory in use is looked at after every 200 chunks; \<open>rss k\<close> is the status file after the k-th chunk.\<close>

fun gb_loop :: "(nat \<Rightarrow> bytes \<Rightarrow> bytes) \<Rightarrow> (nat \<Rightarrow> string list) \<Rightarrow> bytes list \<Rightarrow> motion \<Rightarrow> motion res" where
  "gb_loop stream rss [] s = Inr s"
| "gb_loop stream rss (raw_chunk # rest) s =
     (let s1 = chunk_moved (hop_n_times (stream (mo_chunks s)) gb_NUM_HOPS raw_chunk) s in
      if mo_chunks s1 mod 200 = 0
      then (case get_rss_kb (rss (mo_chunks s1)) of Inl e \<Rightarrow> Inl e
            | Inr current_rss \<Rightarrow> gb_loop stream rss rest (peaked (of_nat current_rss) s1))
      else gb_loop stream rss rest s1)"

text \<open>The readings at the start, after the generation and at the end of the loop have numbers of their own.\<close>

definition gb_main ::
  "env \<Rightarrow> (nat \<Rightarrow> nat \<Rightarrow> bytes) \<Rightarrow> (nat \<Rightarrow> bytes \<Rightarrow> bytes) \<Rightarrow> (nat \<Rightarrow> string list) \<Rightarrow> string list \<Rightarrow> string list \<Rightarrow> string list \<Rightarrow>
   string list \<Rightarrow> string list \<Rightarrow> (bytes \<times> motion_report) res" where
  "gb_main E urandom stream rss at_start generated at_end proc_io proc_io' =
     (case get_rss_kb at_start of Inl e \<Rightarrow> Inl e | Inr _ \<Rightarrow>
      case get_disk_io proc_io of Inl e \<Rightarrow> Inl e | Inr io_start \<Rightarrow>
      let source = gen_source urandom gb_CHUNK_SIZE 0 gb_FILE_SIZE in
      case get_rss_kb generated of Inl e \<Rightarrow> Inl e | Inr _ \<Rightarrow>
      let original_hash = fed_hash E gb_CHUNK_SIZE source in
      case get_rss_kb (rss 0) of Inl e \<Rightarrow> Inl e | Inr peak_rss \<Rightarrow>
      case gb_loop stream rss (read_blocks gb_CHUNK_SIZE source) (motion_start (of_nat peak_rss)) of Inl e \<Rightarrow> Inl e | Inr s1 \<Rightarrow>
      case get_rss_kb at_end of Inl e \<Rightarrow> Inl e | Inr last_rss \<Rightarrow>
      let s = peaked (of_nat last_rss) s1; final_hash = hexdigest (sha256 E (mo_fed s)) in
      case get_disk_io proc_io' of Inl e \<Rightarrow> Inl e | Inr io_end \<Rightarrow>
      map_res (\<lambda>ds. (mo_out s, \<lparr>mp_chunks = mo_chunks s, mp_peak = mo_peak s, mp_matches = (final_hash = original_hash), mp_deltas = ds\<rparr>))
        (io_deltas io_start io_end))"

subsection \<open>Chunks in shares\<close>

fun shares_loop ::
  "(nat \<Rightarrow> bytes \<Rightarrow> bytes) \<Rightarrow> (nat \<Rightarrow> nat \<Rightarrow> nat \<Rightarrow> bytes) \<Rightarrow> (nat \<Rightarrow> rat) \<Rightarrow> bytes list \<Rightarrow> motion \<Rightarrow> motion res" where
  "shares_loop stream randint mem [] s = Inr s"
| "shares_loop stream randint mem (raw_chunk # rest) s =
     (let shares = xor_split_chunk (randint (mo_chunks s)) raw_chunk NUM_SHARES;
          streamed = map (stream (mo_chunks s)) shares in
      case xor_combine_chunk streamed of Inl e \<Rightarrow> Inl e
      | Inr reconstructed_chunk \<Rightarrow>
          (let s1 = chunk_moved reconstructed_chunk s in shares_loop stream randint mem rest (peaked (mem (mo_chunks s1)) s1)))"

definition v2_FILE_SIZE :: nat where
  "v2_FILE_SIZE = 500 * 1024 * 1024"

text \<open>\<open>mount\<close>: the output of \<open>mount | grep /dev/shm\<close>, of which the script takes the first line.\<close>

definition v2_main ::
  "env \<Rightarrow> (nat \<Rightarrow> nat \<Rightarrow> bytes) \<Rightarrow> (nat \<Rightarrow> bytes \<Rightarrow> bytes) \<Rightarrow> (nat \<Rightarrow> nat \<Rightarrow> nat \<Rightarrow> bytes) \<Rightarrow> (nat \<Rightarrow> rat) \<Rightarrow> string list \<Rightarrow>
   string list \<Rightarrow> string list \<Rightarrow> (bytes \<times> motion_report) res" where
  "v2_main E urandom stream randint mem mount proc_io proc_io' =
     (case get_disk_io proc_io of Inl e \<Rightarrow> Inl e | Inr io_start \<Rightarrow>
      let source = gen_source urandom CHUNK_SIZE 0 v2_FILE_SIZE;
          original_hash = fed_hash E CHUNK_SIZE source in
      case shares_loop stream randint mem (read_blocks CHUNK_SIZE source) (motion_start (mem 0)) of Inl e \<Rightarrow> Inl e | Inr s \<Rightarrow>
      let final_hash = hexdigest (sha256 E (mo_fed s)) in
      case py_index mount 0 of Inl e \<Rightarrow> Inl e | Inr _ \<Rightarrow>
      case get_disk_io proc_io' of Inl e \<Rightarrow> Inl e | Inr io_end \<Rightarrow>
      map_res (\<lambda>ds. (mo_out s, \<lparr>mp_chunks = mo_chunks s, mp_peak = mo_peak s, mp_matches = (final_hash = original_hash), mp_deltas = ds\<rparr>))
        (io_deltas io_start io_end))"

section \<open>Whole files in shares\<close>

text \<open>What is printed: for each share, whether it came through intact; at the end, whether the digests agree.\<close>

record share_report =
  sp_noise :: "bool list"
  sp_intact :: "bool list"
  sp_matches :: bool
  sp_deltas :: "(string \<times> int) list"

definition v1_FILE_SIZE :: nat where
  "v1_FILE_SIZE = 500 * 1024 * 1024"

definition v1_main ::
  "env \<Rightarrow> (nat \<Rightarrow> bytes) \<Rightarrow> (nat \<Rightarrow> bytes \<Rightarrow> bytes) \<Rightarrow> (nat \<Rightarrow> nat \<Rightarrow> bytes) \<Rightarrow> string list \<Rightarrow> string list \<Rightarrow> string list \<Rightarrow>
   (bytes \<times> share_report) res" where
  "v1_main E urandom stream randint mount proc_io proc_io' =
     (case get_disk_io proc_io of Inl e \<Rightarrow> Inl e | Inr io_start \<Rightarrow>
      let original_bytes = urandom v1_FILE_SIZE;
          original_hash = hexdigest (sha256 E original_bytes);
          shares = xor_split_numpy randint original_bytes NUM_SHARES;
          streamed = map (\<lambda>(i, s). stream i s) (enumerate 0 shares) in
      case xor_combine_numpy streamed of Inl e \<Rightarrow> Inl e | Inr reconstructed_bytes \<Rightarrow>
      let final_hash = hexdigest (sha256 E reconstructed_bytes) in
      case py_index mount 0 of Inl e \<Rightarrow> Inl e | Inr _ \<Rightarrow>
      case get_disk_io proc_io' of Inl e \<Rightarrow> Inl e | Inr io_end \<Rightarrow>
      map_res (\<lambda>ds. (reconstructed_bytes, \<lparr>sp_noise = [], sp_intact = map2 (=) streamed shares, sp_matches = (final_hash = original_hash),
          sp_deltas = ds\<rparr>)) (io_deltas io_start io_end))"

text \<open>
  \<open>combined_experiment.py\<close>: five shares, each written whole into a pipe before anybody reads it. \<open>None\<close>: the write
  blocks for ever.
\<close>

definition get_disk_io_bytes :: "string list \<Rightarrow> (string, nat) dict res" where
  "get_disk_io_bytes ls = foldM io_line ls []"

definition through_pipes :: "nat \<Rightarrow> bytes list \<Rightarrow> bytes list option" where
  "through_pipes cap shares =
     foldr (\<lambda>s r. case stream_share_through_pipe cap s of None \<Rightarrow> None | Some d \<Rightarrow> map_option ((#) d) r) shares (Some [])"

definition combined_main ::
  "env \<Rightarrow> nat \<Rightarrow> bytes option \<Rightarrow> (nat \<Rightarrow> nat \<Rightarrow> bytes) \<Rightarrow> string list \<Rightarrow> string list \<Rightarrow> (bytes \<times> share_report) res option" where
  "combined_main E cap test_document token_bytes proc_io proc_io' =
     (case test_document of None \<Rightarrow> Some (Inl FileNotFoundError) | Some real_file \<Rightarrow>
      let original_hash = hexdigest (sha256 E real_file) in
      case get_disk_io_bytes proc_io of Inl e \<Rightarrow> Some (Inl e) | Inr io_before \<Rightarrow>
      case xor_split token_bytes real_file 5 of Inl e \<Rightarrow> Some (Inl e) | Inr shares \<Rightarrow>
      case through_pipes cap shares of None \<Rightarrow> None | Some streamed_shares \<Rightarrow>
      case xor_combine streamed_shares of Inl e \<Rightarrow> Some (Inl e) | Inr reconstructed \<Rightarrow>
      let final_hash = hexdigest (sha256 E reconstructed) in
      case get_disk_io_bytes proc_io' of Inl e \<Rightarrow> Some (Inl e) | Inr io_after \<Rightarrow>
      Some (map_res (\<lambda>ds. (reconstructed, \<lparr>sp_noise = map looks_like_noise shares, sp_intact = map2 (=) streamed_shares shares,
          sp_matches = (final_hash = original_hash), sp_deltas = ds\<rparr>)) (io_deltas io_before io_after)))"

section \<open>What the loops do\<close>

lemma gen_source_length:
  assumes "\<And>k n. length (urandom k n) = n" "0 < chunk"
  shows "length (gen_source urandom chunk k n) = n"
  using assms
proof (induction urandom chunk k n rule: gen_source.induct)
  case (1 urandom chunk k n)
  show ?case
  proof (cases "n = 0")
    case False
    then have "length (gen_source urandom chunk (Suc k) (n - min chunk n)) = n - min chunk n" using 1 by auto
    then show ?thesis using 1(2,3) by (subst gen_source.simps) (auto simp: Let_def)
  qed (simp add: gen_source.simps)
qed

lemma fed_hash_whole: "0 < chunk \<Longrightarrow> fed_hash E chunk d = hexdigest (sha256 E d)"
proof -
  have "fold (\<lambda>c fed. fed @ c) cs fed = fed @ concat cs" for cs and fed :: bytes by (induction cs arbitrary: fed) simp_all
  then show "0 < chunk \<Longrightarrow> ?thesis" by (simp add: fed_hash_def read_blocks_concat)
qed

lemma length_read_blocks: "0 < c \<Longrightarrow> length (read_blocks c d) = (length d + c - 1) div c"
proof (induction c d rule: read_blocks.induct)
  case (1 c d)
  show ?case
  proof (cases "d = []")
    case True
    then show ?thesis using 1(2) by (simp add: read_blocks.simps)
  next
    case False
    have "length (read_blocks c d) = Suc ((length d - c + c - 1) div c)"
      using 1 False by (subst read_blocks.simps) simp
    also have "\<dots> = (length d + c - 1) div c"
    proof (cases "c \<le> length d")
      case True
      then show ?thesis using 1(2) by (simp add: le_div_geq)
    next
      case False
      then have "(length d + c - 1) div c = 1" using \<open>d \<noteq> []\<close> 1(2) by (intro div_nat_eqI) (cases d; simp)+
      then show ?thesis using False 1(2) by simp
    qed
    finally show ?thesis .
  qed
qed

text \<open>A pipe that is used as the scripts do hands out the outcome of some run, and only the data is one.\<close>

definition piped :: "nat \<Rightarrow> (bytes \<Rightarrow> bytes) \<Rightarrow> bool" where
  "piped cap stream \<longleftrightarrow> (\<forall>d. \<exists>n s. (pipe_step cap ^^ n) (pipe_start d) s \<and> pp_done s \<and> stream d = pp_received s)"

lemma piped_same:
  assumes "0 < cap" "piped cap stream"
  shows "stream = id"
proof
  fix d
  obtain n s where s: "(pipe_step cap ^^ n) (pipe_start d) s" "pp_done s" "stream d = pp_received s"
    using assms(2) unfolding piped_def by blast
  show "stream d = id d" using pipe_gives_all(2) [OF assms(1) s(1,2)] s(3) by simp
qed

lemma id_piped:
  assumes "0 < cap"
  shows "piped cap id"
proof -
  have "\<exists>n s. (pipe_step cap ^^ n) (pipe_start d) s \<and> pp_done s \<and> id d = pp_received s" for d
  proof -
    have "pipe_inv d (pipe_start d)" by (simp add: pipe_inv_def pipe_start_def)
    from piping.runs_to_end [where cap = cap, OF this] obtain n t where
      t: "(pipe_step cap ^^ n) (pipe_start d) t" "\<forall>u. \<not> pipe_step cap t u" by blast
    have "pp_done t \<and> pp_received t = d" by (rule pipe_gives_all(3) [OF assms t(1)]) (simp add: t(2))
    then show ?thesis using t(1) by auto
  qed
  then show ?thesis by (simp add: piped_def)
qed

lemma hops_id: "hop_chunk_n_times id n c = c" "hop_n_times id n c = c"
  by (simp_all add: hop_chunk_n_times_def hop_n_times_def)

text \<open>The state after the chunks \<open>cs\<close>, with the readings \<open>ms\<close> taken.\<close>

definition after :: "bytes list \<Rightarrow> rat list \<Rightarrow> motion \<Rightarrow> motion" where
  "after cs ms s = \<lparr>mo_out = mo_out s @ concat cs, mo_fed = mo_fed s @ concat cs, mo_chunks = mo_chunks s + length cs,
     mo_peak = fold max ms (mo_peak s)\<rparr>"

lemma after_simps: "after [] [] s = s" "after cs ms (peaked m (chunk_moved c s)) = after (c # cs) (m # ms) s"
    "after cs ms (chunk_moved c s) = after (c # cs) ms s" "peaked m (after cs ms s) = after cs (ms @ [m]) s"
  by (simp_all add: after_def peaked_def chunk_moved_def max.commute)

definition readings :: "(nat \<Rightarrow> rat) \<Rightarrow> nat \<Rightarrow> nat \<Rightarrow> rat list" where
  "readings mem k n = map mem [Suc k..<Suc (k + n)]"

lemma readings_simps [simp]: "readings mem k 0 = []" "readings mem k (Suc n) = mem (Suc k) # readings mem (Suc k) n"
  by (simp_all add: readings_def upt_conv_Cons del: upt_Suc)

lemma chunk_count [simp]: "mo_chunks (chunk_moved c s) = Suc (mo_chunks s)" "mo_chunks (peaked m s) = mo_chunks s"
  by (simp_all add: chunk_moved_def peaked_def)

lemma lean_loop_after:
  assumes "\<And>k. stream k = id"
  shows "lean_loop stream mem hops cs s = after cs (readings mem (mo_chunks s) (length cs)) s"
  by (induction cs arbitrary: s) (simp_all add: after_simps Let_def hops_id assms)

lemma shares_loop_after:
  assumes "\<And>k. stream k = id" "\<And>k m j. length (randint k m j) = m"
  shows "shares_loop stream randint mem cs s = Inr (after cs (readings mem (mo_chunks s) (length cs)) s)"
proof (induction cs arbitrary: s)
  case (Cons c cs)
  have "xor_combine_chunk (map (stream (mo_chunks s)) (xor_split_chunk (randint (mo_chunks s)) c NUM_SHARES)) = Inr c"
    using xor_chunk_combined [of "randint (mo_chunks s)"] assms by simp
  then show ?case using Cons by (simp add: after_simps Let_def)
qed (simp add: after_simps)

definition every200 :: "(nat \<Rightarrow> rat) \<Rightarrow> nat \<Rightarrow> nat \<Rightarrow> rat list" where
  "every200 mem k n = map mem (filter (\<lambda>i. i mod 200 = 0) [Suc k..<Suc (k + n)])"

lemma every200_simps [simp]: "every200 mem k 0 = []"
    "every200 mem k (Suc n) = (if Suc k mod 200 = 0 then [mem (Suc k)] else []) @ every200 mem (Suc k) n"
  by (simp_all add: every200_def upt_conv_Cons del: upt_Suc)

lemma gb_loop_after:
  assumes "\<And>k. stream k = id" "\<And>k. get_rss_kb (rss k) = Inr (kb k)"
  shows "gb_loop stream rss cs s = Inr (after cs (every200 (of_nat \<circ> kb) (mo_chunks s) (length cs)) s)"
  by (induction cs arbitrary: s) (simp_all add: after_simps Let_def hops_id assms)

section \<open>Printed figures\<close>

definition io_text :: "string \<times> nat \<Rightarrow> string" where
  "io_text kn = fst kn @ '': '' @ dec (snd kn) @ [char_of (10 :: nat)]"

lemma split_once_key: "CHR '':'' \<notin> set k \<Longrightarrow> split_once (k @ CHR '':'' # CHR '' '' # v) = Some (k, v)"
proof (induction k)
  case (Cons c k)
  then show ?case by (cases k) auto
qed simp

lemma split_once_none: "CHR '':'' \<notin> set v \<Longrightarrow> split_once v = None"
  by (induction v rule: split_once.induct) auto

lemma io_line_text:
  assumes "is_key k"
  shows "io_line (io_text (k, n)) d = Inr (dict_set k n d)"
proof -
  have k: "k \<noteq> []" "\<not> is_blank (hd k)" "CHR '':'' \<notin> set k" using assms by (cases k; auto simp: is_key_def list_all_iff)+
  have d: "dec n \<noteq> []" "list_all (\<lambda>c. \<not> is_blank c) (dec n)" using dec_word by auto
  have "dropWhile is_blank (io_text (k, n)) = io_text (k, n)"
    using k(1,2) by (cases k) (simp_all add: io_text_def)
  moreover have "rev (dropWhile is_blank (rev (io_text (k, n)))) = k @ CHR '':'' # CHR '' '' # dec n"
  proof -
    have "\<not> is_blank (last (dec n))" using d by (simp add: list_all_iff)
    then have "\<not> is_blank (hd (rev (dec n)))" by (simp add: hd_rev)
    then have "dropWhile is_blank (rev (dec n) @ r) = rev (dec n) @ r" for r
      using d(1) by (cases "rev (dec n)") simp_all
    moreover have "is_blank (char_of (10 :: nat))" by (simp add: is_blank_def)
    ultimately show ?thesis by (simp add: io_text_def)
  qed
  ultimately have "strip (io_text (k, n)) = k @ CHR '':'' # CHR '' '' # dec n" by (simp add: strip_def)
  moreover have "CHR '':'' \<notin> set (dec n)"
  proof
    assume "CHR '':'' \<in> set (dec n)"
    moreover have "list_all (\<lambda>c. 48 \<le> (of_char c :: nat) \<and> of_char c \<le> (57 :: nat)) (dec n)"
      using parse_digits_dec [of n] by (auto simp: parse_digits_def split: if_splits)
    ultimately show False by (auto simp: list_all_iff)
  qed
  ultimately show ?thesis using k(3) by (simp add: io_line_def split_once_key split_once_none parse_digits_dec)
qed

lemma get_disk_io_text:
  assumes "\<forall>k \<in> fst ` set io. is_key k" "distinct (map fst io)"
  shows "get_disk_io (map io_text io) = Inr io" "get_disk_io_bytes (map io_text io) = Inr io"
proof -
  have "foldM io_line (map io_text io) d = Inr (d @ io)" if "fst ` set io \<inter> fst ` set d = {}" for d
    using assms that
  proof (induction io arbitrary: d)
    case (Cons kn io)
    have "dict_set k n d = d @ [(k, n)]" if "k \<notin> fst ` set d" for k n and d :: "(string, nat) dict"
      using that by (induction d) (auto simp: dict_set_def)
    then show ?case using Cons by (cases kn) (auto simp: io_line_text)
  qed simp
  from this [of "[]"] show "get_disk_io (map io_text io) = Inr io" "get_disk_io_bytes (map io_text io) = Inr io"
    by (simp_all add: get_disk_io_def get_disk_io_bytes_def)
qed

definition deltas :: "(string \<times> nat) list \<Rightarrow> (string \<times> nat) list \<Rightarrow> (string \<times> int) list" where
  "deltas io io' = map2 (\<lambda>(k, n) (_, m). (k, int m - int n)) io io'"

lemma io_deltas_same:
  assumes "map fst io' = map fst io" "distinct (map fst io)"
  shows "io_deltas io io' = Inr (deltas io io')"
proof -
  have len: "length io' = length io" using arg_cong [OF assms(1), of length] by simp
  have get: "dict_get io' (fst (io ! i)) = Some (snd (io' ! i))" if "i < length io" for i
  proof -
    have "fst (io ! i) = fst (io' ! i)" using that assms(1) len by (metis nth_map)
    then have "(fst (io ! i), snd (io' ! i)) \<in> set io'" using that len by (metis nth_mem prod.collapse)
    then show ?thesis unfolding dict_get_def by (rule map_of_is_SomeI [rotated]) (simp add: assms)
  qed
  have "dict_get io' k \<noteq> None" if "(k, n) \<in> set io" for k n
    using that get by (metis fst_conv in_set_conv_nth option.distinct(1))
  then have "mapM (\<lambda>(k, n). map_res (\<lambda>m. (k, int m - int n)) (of_option KeyError (dict_get io' k))) io =
      Inr (map (\<lambda>(k, n). (k, int (the (dict_get io' k)) - int n)) io)"
    by (intro mapM_Inr) fastforce
  moreover have "map (\<lambda>(k, n). (k, int (the (dict_get io' k)) - int n)) io = deltas io io'"
    unfolding deltas_def by (rule nth_equalityI) (use len get in \<open>auto simp: split_def\<close>)
  ultimately show ?thesis by (simp add: io_deltas_def)
qed

section \<open>The runs\<close>

lemma fold_max: "fold max xs (x :: rat) = Max (set (x # xs))"
  by (simp only: Max.set_eq_fold)

lemma readings_set: "set (mem 0 # readings mem 0 n) = mem ` {0..n}"
proof -
  have "{0..n} = insert 0 {Suc 0..<Suc n}" by auto
  then show ?thesis by (simp add: readings_def del: upt_Suc)
qed

lemma every200_set: "set (every200 mem 0 n) = mem ` {k. 0 < k \<and> k \<le> n \<and> 200 dvd k}"
  by (auto simp: every200_def image_iff Suc_le_eq less_Suc_eq_le)

lemma after_start: "after cs ms (motion_start p) =
    \<lparr>mo_out = concat cs, mo_fed = concat cs, mo_chunks = length cs, mo_peak = Max (set (p # ms))\<rparr>"
  by (simp add: after_def motion_start_def fold_max)

text \<open>
  The three scripts that move a large file in chunks print that the digests agree, on every run: if every
  pipe hands out the outcome of some run of writer and reader, the output file is the source file, whatever the
  random bytes and shares; the chunks printed are 63, 2048 and 63, the input and output printed are the
  differences of the figures of \<open>/proc/self/io\<close>, and the peak is the largest reading taken after a chunk, or in the
  second script after every two-hundredth chunk.
\<close>

theorem motion_scripts_report_match:
  assumes "0 < cap" "\<And>k. piped cap (stream k)" "\<And>k n. length (urandom k n) = n" "\<And>k m j. length (randint k m j) = m"
    and "\<forall>k \<in> fst ` set io. is_key k" "distinct (map fst io)" "map fst io' = map fst io"
    and "\<And>k. get_rss_kb (rss k) = Inr (kb k)" "get_rss_kb at_start = Inr a" "get_rss_kb generated = Inr b"
    and "get_rss_kb at_end = Inr c" "mount \<noteq> []"
  shows "lean_main E urandom stream mem (map io_text io) (map io_text io') =
      Inr (gen_source urandom CHUNK_SIZE 0 lean_FILE_SIZE,
        \<lparr>mp_chunks = 63, mp_peak = Max (mem ` {0..63}), mp_matches = True, mp_deltas = deltas io io'\<rparr>) \<and>
    gb_main E urandom stream rss at_start generated at_end (map io_text io) (map io_text io') =
      Inr (gen_source urandom gb_CHUNK_SIZE 0 gb_FILE_SIZE,
        \<lparr>mp_chunks = 2048, mp_peak = Max (insert (of_nat c) (insert (of_nat (kb 0)) ((of_nat \<circ> kb) ` {k. 0 < k \<and> k \<le> 2048 \<and> 200 dvd k}))),
         mp_matches = True, mp_deltas = deltas io io'\<rparr>) \<and>
    v2_main E urandom stream randint mem mount (map io_text io) (map io_text io') =
      Inr (gen_source urandom CHUNK_SIZE 0 v2_FILE_SIZE,
        \<lparr>mp_chunks = 63, mp_peak = Max (mem ` {0..63}), mp_matches = True, mp_deltas = deltas io io'\<rparr>)"
proof (intro conjI)
  have id: "\<And>k. stream k = id" using piped_same [OF assms(1,2)] .
  have pos: "0 < CHUNK_SIZE" "0 < gb_CHUNK_SIZE" by (simp_all add: CHUNK_SIZE_def gb_CHUNK_SIZE_def)
  note io = get_disk_io_text(1) [OF assms(5,6)] get_disk_io_text(1) [of io'] io_deltas_same [OF assms(7,6)]
  have io': "get_disk_io (map io_text io') = Inr io'"
    by (rule get_disk_io_text(1)) (use assms(5-7) in \<open>auto simp flip: set_map\<close>)
  have count: "length (read_blocks CHUNK_SIZE (gen_source urandom CHUNK_SIZE 0 lean_FILE_SIZE)) = 63"
    "length (read_blocks gb_CHUNK_SIZE (gen_source urandom gb_CHUNK_SIZE 0 gb_FILE_SIZE)) = 2048"
    "length (read_blocks CHUNK_SIZE (gen_source urandom CHUNK_SIZE 0 v2_FILE_SIZE)) = 63"
    unfolding length_read_blocks [OF pos(1)] length_read_blocks [OF pos(2)] gen_source_length [OF assms(3) pos(1)] gen_source_length [OF assms(3) pos(2)]
    by (simp_all add: CHUNK_SIZE_def gb_CHUNK_SIZE_def lean_FILE_SIZE_def gb_FILE_SIZE_def v2_FILE_SIZE_def)
  have zero: "mo_chunks (motion_start p) = 0" for p by (simp add: motion_start_def)
  show "lean_main E urandom stream mem (map io_text io) (map io_text io') =
      Inr (gen_source urandom CHUNK_SIZE 0 lean_FILE_SIZE,
        \<lparr>mp_chunks = 63, mp_peak = Max (mem ` {0..63}), mp_matches = True, mp_deltas = deltas io io'\<rparr>)"
    unfolding lean_main_def io(1) io' io(3) sum.case Let_def lean_loop_after [OF id] count(1) zero after_start readings_set
    by (simp add: read_blocks_concat [OF pos(1)] fed_hash_whole [OF pos(1)] count(1))
  show "v2_main E urandom stream randint mem mount (map io_text io) (map io_text io') =
      Inr (gen_source urandom CHUNK_SIZE 0 v2_FILE_SIZE,
        \<lparr>mp_chunks = 63, mp_peak = Max (mem ` {0..63}), mp_matches = True, mp_deltas = deltas io io'\<rparr>)"
    unfolding v2_main_def io(1) io' io(3) sum.case Let_def shares_loop_after [OF id assms(4)] count(3) zero after_start readings_set
    using assms(12) by (simp add: read_blocks_concat [OF pos(1)] fed_hash_whole [OF pos(1)] count(3) py_index_def)
  show "gb_main E urandom stream rss at_start generated at_end (map io_text io) (map io_text io') =
      Inr (gen_source urandom gb_CHUNK_SIZE 0 gb_FILE_SIZE,
        \<lparr>mp_chunks = 2048, mp_peak = Max (insert (of_nat c) (insert (of_nat (kb 0)) ((of_nat \<circ> kb) ` {k. 0 < k \<and> k \<le> 2048 \<and> 200 dvd k}))),
         mp_matches = True, mp_deltas = deltas io io'\<rparr>)"
    unfolding gb_main_def assms(8-11) io(1) io' io(3) sum.case Let_def gb_loop_after [OF id assms(8)] count(2) zero after_simps(4) after_start
    by (simp add: read_blocks_concat [OF pos(2)] fed_hash_whole [OF pos(2)] count(2) every200_set peaked_def max.commute)
qed

theorem motion_scripts_report_match_witness:
  "\<exists>out rep. lean_main demo_env (\<lambda>k n. replicate n (of_nat k)) (\<lambda>_. id) (\<lambda>_. 9) (map io_text [(''rchar'', 5)]) (map io_text [(''rchar'', 8)]) =
     Inr (out, rep) \<and> length out = lean_FILE_SIZE \<and> mp_chunks rep = 63 \<and> mp_matches rep \<and> mp_deltas rep = [(''rchar'', 3)]"
proof -
  have key: "\<forall>k \<in> fst ` set [(''rchar'', 5 :: nat)]. is_key k" by simp code_simp
  have rss: "get_rss_kb [] = Inr 0" by (simp add: get_rss_kb_def)
  have pos: "0 < CHUNK_SIZE" by (simp add: CHUNK_SIZE_def)
  from motion_scripts_report_match [where ?cap = 1 and stream = "\<lambda>_. id" and urandom = "\<lambda>k n. replicate n (of_nat k)" and
      randint = "\<lambda>k m j. replicate m 0" and io = "[(''rchar'', 5)]" and io' = "[(''rchar'', 8)]" and mount = "[[]]" and
      rss = "\<lambda>_. []" and kb = "\<lambda>_. 0" and E = demo_env and mem = "\<lambda>_. 9", OF _ id_piped _ _ key _ _ rss rss rss rss]
  have "lean_main demo_env (\<lambda>k n. replicate n (of_nat k)) (\<lambda>_. id) (\<lambda>_. 9) (map io_text [(''rchar'', 5)]) (map io_text [(''rchar'', 8)]) =
      Inr (gen_source (\<lambda>k n. replicate n (of_nat k)) CHUNK_SIZE 0 lean_FILE_SIZE,
        \<lparr>mp_chunks = 63, mp_peak = 9, mp_matches = True, mp_deltas = deltas [(''rchar'', 5)] [(''rchar'', 8)]\<rparr>)"
    by simp
  then show ?thesis using gen_source_length [OF _ pos, of "\<lambda>k n. replicate n (of_nat k)"] by (simp add: deltas_def)
qed

text \<open>
  The versions on whole files. With a writer thread every share comes through and the digests agree; a pipe that is
  filled first lets the script end if and only if the file fits into it.
\<close>

lemma v1_main_matches:
  assumes "0 < cap" "\<And>i. piped cap (stream i)" "\<And>m j. length (randint m j) = m"
    and "\<forall>k \<in> fst ` set io. is_key k" "distinct (map fst io)" "map fst io' = map fst io" "mount \<noteq> []"
  shows "v1_main E urandom stream randint mount (map io_text io) (map io_text io') =
    Inr (urandom v1_FILE_SIZE, \<lparr>sp_noise = [], sp_intact = replicate NUM_SHARES True, sp_matches = True, sp_deltas = deltas io io'\<rparr>)"
proof -
  let ?d = "urandom v1_FILE_SIZE"
  have id: "\<And>k. stream k = id" using piped_same [OF assms(1,2)] .
  have io': "get_disk_io (map io_text io') = Inr io'"
    by (rule get_disk_io_text(1)) (use assms(4-6) in \<open>auto simp flip: set_map\<close>)
  have "xor_combine_numpy (xor_split_numpy randint ?d NUM_SHARES) = Inr ?d"
    using xor_chunk_combined [OF assms(3)] by (simp add: xor_chunk_numpy)
  moreover have "map (\<lambda>(i, s). stream i s) (enumerate 0 xs) = xs" for xs by (simp add: id split_def)
  moreover have "map2 (=) xs xs = replicate (length xs) True" for xs :: "bytes list" by (induction xs) simp_all
  moreover have "length (xor_split_numpy randint ?d NUM_SHARES) = NUM_SHARES"
    by (simp add: xor_split_numpy_def Let_def NUM_SHARES_def)
  ultimately show ?thesis
    using assms(7) by (simp add: v1_main_def Let_def get_disk_io_text(1) [OF assms(4,5)] io' io_deltas_same [OF assms(6,5)] py_index_def)
qed

lemma through_pipes_eq:
  "through_pipes cap ss = (if \<forall>s \<in> set ss. length s \<le> cap then Some ss else None)"
  by (induction ss) (auto simp: through_pipes_def stream_share_through_pipe_def Let_def)

lemma combined_main_ends:
  assumes "\<And>m j. length (token_bytes m j) = m" "\<forall>k \<in> fst ` set io. is_key k" "distinct (map fst io)" "map fst io' = map fst io"
  shows "if length d \<le> cap
    then \<exists>noise. combined_main E cap (Some d) token_bytes (map io_text io) (map io_text io') =
      Some (Inr (d, \<lparr>sp_noise = noise, sp_intact = replicate 5 True, sp_matches = True, sp_deltas = deltas io io'\<rparr>))
    else combined_main E cap (Some d) token_bytes (map io_text io) (map io_text io') = None"
proof -
  have io': "get_disk_io_bytes (map io_text io') = Inr io'"
    by (rule get_disk_io_text(2)) (use assms(2-4) in \<open>auto simp flip: set_map\<close>)
  let ?ds = "map (token_bytes (length d)) [0..<5 - 1]"
  let ?ss = "?ds @ [xor_arr d (xor_sum (length d) ?ds)]"
  have sp: "xor_split token_bytes d 5 = Inr ?ss" by (rule split_arrays(1)) (simp add: assms(1))
  have all: "xor_combine ?ss = Inr d" by (rule combine_arrays(1)) (auto simp: assms(1))
  have "length (xor_sum (length d) ?ds) = length d" by (rule length_xor_sum) (auto simp: assms(1))
  then have len: "(\<forall>s \<in> set ?ss. length s \<le> cap) \<longleftrightarrow> length d \<le> cap" by (auto simp: assms(1))
  have "map2 (=) xs xs = replicate (length xs) True" for xs :: "bytes list" by (induction xs) simp_all
  from this [of ?ss] have intact: "map2 (=) ?ss ?ss = replicate 5 True" by (simp only:) simp
  show ?thesis
    unfolding combined_main_def option.case sum.case Let_def get_disk_io_text(2) [OF assms(2,3)] io' sp through_pipes_eq len
    using all intact by (simp add: io_deltas_same [OF assms(4,3)])
qed

end
