(* ===== verification/Demo.thy ===== *)
theory Demo
  imports VirtualStorage Measure Json
begin

text \<open>
  \<open>demo.py\<close>: three sample files are written, saved by path in a plain store, read back and compared. The files are a
  dictionary from paths to contents, of which the script may find others in its directory; the ids, what moves before
  each call and the files of \<open>/proc\<close> are arguments, the printed lines are values without their figures.
\<close>

section \<open>The sample files\<close>

definition TMPDIR :: string where
  "TMPDIR = ''/dev/shm/vstorage_demo''"

definition in_tmpdir :: "string \<Rightarrow> string" where
  "in_tmpdir name = TMPDIR @ ''/'' @ name"

definition log_record :: "nat \<Rightarrow> string" where
  "log_record i =
     concat [''{'', json_string ''level'', '':'', json_string ''info'', '','', json_string ''msg'', '':'', json_string ''heartbeat ok'',
       '','', json_string ''seq'', '':'', dec i, ''}'']"

definition sample_json :: string where
  "sample_json = ''{'' @ json_string ''records'' @ '':['' @ sep_by '','' (map log_record [0..<4000]) @ '']}''"

definition sample_py :: string where
  "sample_py = concat (replicate 200 (''def add(a, b):'' @ newline @ ''    return a + b'' @ newline @ newline))"

definition sample_prose :: string where
  "sample_prose = concat (replicate 500 ''The quick brown fox jumps over the lazy dog. '')"

definition sample_paths :: "string list" where
  "sample_paths = [in_tmpdir ''log.json'', in_tmpdir ''sample.py'', in_tmpdir ''prose.txt'']"

type_synonym files = "(string, bytes) dict"

definition make_sample_files :: "files \<Rightarrow> files" where
  "make_sample_files fs =
     dict_set (in_tmpdir ''prose.txt'') (encode_utf8 sample_prose)
       (dict_set (in_tmpdir ''sample.py'') (encode_utf8 sample_py)
         (dict_set (in_tmpdir ''log.json'') (encode_utf8 sample_json) fs))"

section \<open>The run\<close>

datatype demo_line =
    Saved string nat nat | Total nat nat | Retrieved string bool | AllPerfect bool | Collapsed

definition moves :: "(string \<times> which) list \<Rightarrow> vstore \<Rightarrow> vstore" where
  "moves ms s = fold vs_move ms s"

text \<open>The loop of saves; \<open>k\<close> counts them.\<close>

fun demo_saves ::
  "env \<Rightarrow> disk \<Rightarrow> (nat \<Rightarrow> string) \<Rightarrow> (nat \<Rightarrow> (string \<times> which) list) \<Rightarrow> nat \<Rightarrow> string list \<Rightarrow> (string, string) dict \<Rightarrow> nat \<Rightarrow> vstore \<Rightarrow>
   demo_line list \<times> ((string, string) dict \<times> nat) res \<times> vstore" where
  "demo_saves E fs new_id mv k [] ids total_raw s = ([], Inr (ids, total_raw), s)"
| "demo_saves E fs new_id mv k (p # ps) ids total_raw s =
     (case vs_save E fs (new_id k) p (moves (mv k) s) of (Inl e, s1) \<Rightarrow> ([], Inl e, s1)
      | (Inr fid, s1) \<Rightarrow>
      (case getsize fs p of Inl e \<Rightarrow> ([], Inl e, s1)
       | Inr raw \<Rightarrow>
       (case vs_held_size fid s1 of Inl e \<Rightarrow> ([], Inl e, s1)
        | Inr held \<Rightarrow>
        (case demo_saves E fs new_id mv (Suc k) ps (dict_set p fid ids) (total_raw + raw) s1 of
           (out, r) \<Rightarrow> (Saved (basename p) raw held # out, r)))))"

fun demo_retrieves ::
  "env \<Rightarrow> files \<Rightarrow> (nat \<Rightarrow> (string \<times> which) list) \<Rightarrow> nat \<Rightarrow> (string \<times> string) list \<Rightarrow> bool \<Rightarrow> vstore \<Rightarrow> demo_line list \<times> bool res \<times> vstore" where
  "demo_retrieves E originals mv k [] ok s = ([], Inr ok, s)"
| "demo_retrieves E originals mv k ((p, fid) # rest) ok s =
     (case vs_retrieve E fid Full (moves (mv k) s) of (Inl e, s1) \<Rightarrow> ([], Inl e, s1)
      | (Inr full, s1) \<Rightarrow>
      (case dict_get originals p of None \<Rightarrow> ([], Inl KeyError, s1)
       | Some original \<Rightarrow>
         (let match = (sha256 E full = sha256 E original) in
          case demo_retrieves E originals mv (Suc k) rest (ok \<and> match) s1 of
            (out, r) \<Rightarrow> (Retrieved (basename p) match # out, r))))"

text \<open>The body of the \<open>try\<close>; the \<open>/proc\<close> files are those it reads after the retrievals.\<close>

definition demo_body ::
  "env \<Rightarrow> files \<Rightarrow> (nat \<Rightarrow> string) \<Rightarrow> (nat \<Rightarrow> (string \<times> which) list) \<Rightarrow> (nat \<Rightarrow> (string \<times> which) list) \<Rightarrow> files \<Rightarrow>
   string list option \<Rightarrow> string list option \<Rightarrow> demo_line list \<times> unit res \<times> vstore" where
  "demo_body E fs new_id mv mv' originals status' io' =
     (case demo_saves E (dict_get fs) new_id mv 0 sample_paths [] 0 (vs_init 6) of (out, Inl e, s) \<Rightarrow> (out, Inl e, s)
      | (out, Inr (ids, total_raw), s) \<Rightarrow>
      (case mapM (\<lambda>(p, fid). vs_held_size fid s) ids of Inl e \<Rightarrow> (out, Inl e, s)
       | Inr sizes \<Rightarrow>
       (let out1 = out @ [Total total_raw (sum_list sizes)] in
        case demo_retrieves E originals mv' 0 ids True s of (out2, Inl e, s1) \<Rightarrow> (out1 @ out2, Inl e, s1)
        | (out2, Inr ok, s1) \<Rightarrow>
        (case rss_anon_mb status' of Inl e \<Rightarrow> (out1 @ out2, Inl e, s1)
         | Inr _ \<Rightarrow>
         (case disk_write_bytes io' of Inl e \<Rightarrow> (out1 @ out2, Inl e, s1)
          | Inr _ \<Rightarrow> (out1 @ out2 @ [AllPerfect ok, Collapsed], Inr (), vs_collapse_all s1))))))"

text \<open>
  The \<open>finally\<close>: the sample files go, then the directory, which must be empty; a raise there replaces the one on the
  way.
\<close>

fun remove_all :: "string list \<Rightarrow> files \<Rightarrow> unit res \<times> files" where
  "remove_all [] fs = (Inr (), fs)"
| "remove_all (p # ps) fs =
     (case dict_get fs p of None \<Rightarrow> (Inl FileNotFoundError, fs) | Some _ \<Rightarrow> remove_all ps (dict_del p fs))"

definition in_dir :: "string \<Rightarrow> bool" where
  "in_dir p \<longleftrightarrow> starts_with (TMPDIR @ ''/'') p"

definition clean_up :: "files \<Rightarrow> unit res \<times> files \<times> bool" where
  "clean_up fs =
     (case remove_all sample_paths fs of (Inl e, fs') \<Rightarrow> (Inl e, fs', True)
      | (Inr _, fs') \<Rightarrow> if list_ex in_dir (dict_keys fs') then (Inl OSError, fs', True) else (Inr (), fs', False))"

text \<open>The result, the printed lines, the store, the files, and whether the directory is still there.\<close>

definition demo_main ::
  "env \<Rightarrow> (nat \<Rightarrow> string) \<Rightarrow> (nat \<Rightarrow> (string \<times> which) list) \<Rightarrow> (nat \<Rightarrow> (string \<times> which) list) \<Rightarrow> string list option \<times> string list option \<Rightarrow>
   string list option \<times> string list option \<Rightarrow> files \<Rightarrow> demo_line list \<times> unit res \<times> vstore \<times> files \<times> bool" where
  "demo_main E new_id mv mv' before after fs0 =
     (let fs = make_sample_files fs0; originals = map (\<lambda>p. (p, the (dict_get fs p))) sample_paths in
      case disk_write_bytes (snd before) of Inl e \<Rightarrow> ([], Inl e, vs_init 6, fs, True)
      | Inr _ \<Rightarrow>
      (case rss_anon_mb (fst before) of Inl e \<Rightarrow> ([], Inl e, vs_init 6, fs, True)
       | Inr _ \<Rightarrow>
         (let (out, r, s) = demo_body E fs new_id mv mv' originals (fst after) (snd after); (r', fs', dir) = clean_up fs
          in (out, (case r' of Inl e \<Rightarrow> Inl e | Inr _ \<Rightarrow> r), s, fs', dir))))"

section \<open>The demo cannot save\<close>

lemma ext_json: "lower_ext (in_tmpdir ''log.json'') = ''.json''"
  by code_simp

lemma different_names: "in_tmpdir ''sample.py'' \<noteq> in_tmpdir ''log.json''" "in_tmpdir ''prose.txt'' \<noteq> in_tmpdir ''log.json''"
    "in_tmpdir ''prose.txt'' \<noteq> in_tmpdir ''sample.py''"
  by (simp_all add: in_tmpdir_def)

lemma save_text_raises:
  assumes "fs path = Some d" "lower_ext path = ''.json''"
  shows "vs_save E fs i path s = (Inl TypeError, s)"
  using assms by (simp add: vs_save_def split_file_def Let_def metadata_path_bytes ZIP_CONTAINER_EXTS_def ALREADY_COMPRESSED_EXTS_def
      vs_hold_def vs_compress_def)

text \<open>
  The demo never saves a file. Its first sample is a text file, whose content \<open>split_file\<close> leaves on disk, so the first
  call of \<open>save\<close> raises \<open>TypeError\<close>: nothing is printed, the store stays empty, and the three files are removed. If
  the directory holds other files, the \<open>OSError\<close> of its removal takes the place of the \<open>TypeError\<close>.
\<close>

theorem demo_cannot_save:
  assumes "disk_write_bytes (snd before) = Inr a" "rss_anon_mb (fst before) = Inr b"
  shows "\<exists>fs'. demo_main E new_id mv mv' before after fs0 =
      ([], Inl (if list_ex in_dir (dict_keys fs') then OSError else TypeError), vs_init 6, fs', list_ex in_dir (dict_keys fs')) \<and>
    (\<forall>p. dict_get fs' p = (if p \<in> set sample_paths then None else dict_get fs0 p))"
proof -
  let ?fs = "make_sample_files fs0"
  let ?a = "in_tmpdir ''log.json''" and ?b = "in_tmpdir ''sample.py''" and ?c = "in_tmpdir ''prose.txt''"
  have there: "dict_get ?fs ?a = Some (encode_utf8 sample_json)" "dict_get ?fs ?b \<noteq> None" "dict_get ?fs ?c \<noteq> None"
    using different_names by (auto simp: make_sample_files_def)
  have idle: "moves (mv 0) (vs_init 6) = vs_init 6"
  proof -
    have "fold vs_move ms (vs_init 6) = vs_init 6" for ms by (induction ms) (simp_all add: vs_move_def vs_init_def)
    then show ?thesis by (simp add: moves_def)
  qed
  have "demo_body E ?fs new_id mv mv' o1 st io = ([], Inl TypeError, vs_init 6)" for o1 st io
    using save_text_raises [where fs = "dict_get ?fs", OF there(1) ext_json] by (simp add: demo_body_def sample_paths_def idle)
  moreover have "remove_all sample_paths ?fs = (Inr (), dict_del ?c (dict_del ?b (dict_del ?a ?fs)))"
    using there different_names by (auto simp: sample_paths_def split: option.splits)
  moreover have "\<forall>p. dict_get (dict_del ?c (dict_del ?b (dict_del ?a ?fs))) p = (if p \<in> set sample_paths then None else dict_get fs0 p)"
    by (simp add: sample_paths_def make_sample_files_def)
  ultimately show ?thesis
    using assms by (intro exI [of _ "dict_del ?c (dict_del ?b (dict_del ?a ?fs))"]) (simp add: demo_main_def Let_def clean_up_def)
qed

end
