(* ===== verification/FallPool.thy ===== *)
theory FallPool
  imports SecureSystem
begin

text \<open>
  \<open>_GlobalFallScheduler\<close> of \<open>vstorage/chunked_secure_box.py\<close> at work on the boxes of a store
  (\<open>vstorage/secure_system.py\<close>): any number of threads save, retrieve and forget files while the workers take
  due boxes from the heap, let them fall by one hop and put them back. A box falls from the end of its constructor
  on, so while its file is still being saved. Boxes are objects that the heap, the workers and the entries of files
  refer to; here they have numbers, in the order they were made.
\<close>

section \<open>Stores with shared boxes\<close>

text \<open>An entry of \<open>_held\<close>, with the numbers of its boxes. \<open>fh_split\<close> records what was saved; no step looks at it.\<close>

record fheld =
  fh_boxes :: "(which, nat) dict"
  fh_reconstruct_from :: which
  fh_original_size :: nat
  fh_name :: string
  fh_split :: split_result

text \<open>
  A call of \<open>_hold\<close> under way: the boxes made so far, how many of the six reads of guards for \<open>regions\<close> are done (two
  per box, of the current and of the next guard), the guard object whose cells are about to be read, with the
  number of rotations of its box at which it will have been collapsed, and the regions read.
\<close>

record saving =
  sg_id :: string
  sg_split :: split_result
  sg_name :: string
  sg_boxes :: "nat list"
  sg_reads :: nat
  sg_seen :: "(nat \<times> guard) option"
  sg_regions :: "region list"

text \<open>
  \<open>fp_readers\<close> are boxes that a retrieval has looked up and still refers to. \<open>fp_doomed\<close> are boxes whose entry
  \<open>forget\<close> has removed and whose \<open>collapse\<close> is still to come. \<open>fp_turns\<close> counts the rotations of each box that
  collapsed its old guard. \<open>fp_dropped\<close> and \<open>fp_data\<close> record history, the boxes that workers did not put back
  and the bytes each box was made from.
\<close>

record fallpool =
  fp_sched :: "nat sched"
  fp_workers :: "nat worker list"
  fp_boxes :: "rbox list"
  fp_turns :: "nat list"
  fp_watchdog :: "watchdog option"
  fp_group :: "tgroup option"
  fp_held :: "(string, fheld) dict"
  fp_savers :: "saving option list"
  fp_readers :: "nat list"
  fp_doomed :: "nat list"
  fp_dropped :: "nat list"
  fp_data :: "bytes list"

text \<open>A store that was just made, with its pool's workers and the threads that will use it.\<close>

definition fp_init :: "nat \<Rightarrow> nat \<Rightarrow> watchdog option \<Rightarrow> tgroup option \<Rightarrow> fallpool" where
  "fp_init workers clients wd grp =
     \<lparr>fp_sched = sc_init workers, fp_workers = replicate workers W_Idle, fp_boxes = [], fp_turns = [], fp_watchdog = wd,
      fp_group = grp, fp_held = [], fp_savers = replicate clients None, fp_readers = [], fp_doomed = [], fp_dropped = [], fp_data = []\<rparr>"

text \<open>The store as \<open>SecureSystem\<close> has it, with the boxes in place of their numbers.\<close>

definition fheld_view :: "rbox list \<Rightarrow> fheld \<Rightarrow> sheld" where
  "fheld_view bs h = \<lparr>sh_boxes = dict_map (\<lambda>n. bs ! n) (fh_boxes h), sh_reconstruct_from = fh_reconstruct_from h,
     sh_original_size = fh_original_size h, sh_name = fh_name h\<rparr>"

definition fp_view :: "fallpool \<Rightarrow> sstore" where
  "fp_view s = \<lparr>sv_held = dict_map (fheld_view (fp_boxes s)) (fp_held s), sv_watchdog = fp_watchdog s,
     sv_group = fp_group s, sv_pending = [], sv_orphans = []\<rparr>"

section \<open>Saving\<close>

definition hold_order :: "which list" where
  "hold_order = [Content, Structure, Metadata]"

definition saver_put :: "nat \<Rightarrow> saving option \<Rightarrow> fallpool \<Rightarrow> fallpool" where
  "saver_put k x s = s\<lparr>fp_savers := (fp_savers s)[k := x]\<rparr>"

text \<open>The call of \<open>_hold\<close>, and its next \<open>_make_box\<close>: the new box registers with the pool and is due at once.\<close>

definition fp_begin :: "nat \<Rightarrow> string \<Rightarrow> split_result \<Rightarrow> string \<Rightarrow> fallpool \<Rightarrow> fallpool" where
  "fp_begin k i r name s =
     saver_put k (Some \<lparr>sg_id = i, sg_split = r, sg_name = name, sg_boxes = [], sg_reads = 0, sg_seen = None, sg_regions = []\<rparr>) s"

definition fp_make :: "env \<Rightarrow> disk \<Rightarrow> draws \<Rightarrow> time \<Rightarrow> nat \<Rightarrow> saving \<Rightarrow> fallpool \<Rightarrow> fallpool" where
  "fp_make E fs D now k sg s =
     (let n = length (fp_boxes s); pc = sr_piece (sg_split sg) (hold_order ! length (sg_boxes sg)) in
      case make_box E fs D pc (fp_view s) of
        (Inl e, v) \<Rightarrow> saver_put k None (s\<lparr>fp_group := sv_group v\<rparr>)
      | (Inr rb, v) \<Rightarrow>
          saver_put k (Some (sg\<lparr>sg_boxes := sg_boxes sg @ [n]\<rparr>))
            (s\<lparr>fp_group := sv_group v, fp_boxes := fp_boxes s @ [rb], fp_turns := fp_turns s @ [0],
               fp_sched := fall_register now n (fp_sched s), fp_data := fp_data s @ [the (resolve fs pc)]\<rparr>))"

text \<open>
  \<open>regions.extend(box.regions())\<close> without the box's lock: the attribute \<open>_current_guard\<close> or \<open>_next_guard\<close> is looked up,
  then the cells of the guard found are read, and after those of the next guard the pools. The guard that is current
  is collapsed by the next rotation, the next guard by the one after it, and a collapsed cell raises \<open>ValueError\<close>.
\<close>

definition sg_at :: "saving \<Rightarrow> nat" where
  "sg_at sg = sg_boxes sg ! (sg_reads sg div 2)"

definition fp_see :: "saving \<Rightarrow> fallpool \<Rightarrow> saving" where
  "fp_see sg s =
     (let n = sg_at sg; b = rb_box (fp_boxes s ! n) in
      sg\<lparr>sg_seen := Some (if even (sg_reads sg) then (fp_turns s ! n + 1, cb_current b) else (fp_turns s ! n + 2, cb_next b))\<rparr>)"

definition fp_read_seen :: "nat \<Rightarrow> guard \<Rightarrow> saving \<Rightarrow> fallpool \<Rightarrow> region list res" where
  "fp_read_seen limit g sg s =
     (let n = sg_at sg in
      if limit \<le> fp_turns s ! n then Inl ValueError
      else (case guard_regions g of Inl e \<Rightarrow> Inl e | Inr a \<Rightarrow>
        if even (sg_reads sg) then Inr a else map_res (\<lambda>c. a @ c) (mapM pool_region (cb_pools (rb_box (fp_boxes s ! n))))))"

definition fp_read :: "nat \<Rightarrow> nat \<Rightarrow> guard \<Rightarrow> saving \<Rightarrow> fallpool \<Rightarrow> fallpool" where
  "fp_read k limit g sg s =
     saver_put k (case fp_read_seen limit g sg s of Inl e \<Rightarrow> None
       | Inr rs \<Rightarrow> Some (sg\<lparr>sg_reads := sg_reads sg + 1, sg_seen := None, sg_regions := sg_regions sg @ rs\<rparr>)) s"

text \<open>The rest of \<open>_hold\<close>: the regions go to the watchdog, if there is one, and the entry is made.\<close>

definition fp_enter :: "disk \<Rightarrow> nat \<Rightarrow> saving \<Rightarrow> fallpool \<Rightarrow> fallpool" where
  "fp_enter fs k sg s =
     (let r = sg_split sg;
          (added, wd) = (case fp_watchdog s of None \<Rightarrow> (Inr (), None)
             | Some w \<Rightarrow> (let (a, w') = add_regions (sg_regions sg) w in (a, Some w')));
          s1 = saver_put k None (s\<lparr>fp_watchdog := wd\<rparr>)
      in case added of Inl e \<Rightarrow> s1 | Inr _ \<Rightarrow>
         case piece_size fs (if sr_reconstruct_from r = Content then sr_content r else sr_structure r) of Inl e \<Rightarrow> s1
         | Inr sz \<Rightarrow>
             s1\<lparr>fp_held := dict_set (sg_id sg) \<lparr>fh_boxes = zip hold_order (sg_boxes sg), fh_reconstruct_from = sr_reconstruct_from r,
                  fh_original_size = sz, fh_name = sg_name sg, fh_split = r\<rparr> (fp_held s)\<rparr>)"

section \<open>Retrieving and forgetting\<close>

definition fp_box_of :: "string \<Rightarrow> request \<Rightarrow> fallpool \<Rightarrow> nat res" where
  "fp_box_of i req s =
     (case dict_get (fp_held s) i of None \<Rightarrow> Inl KeyError
      | Some h \<Rightarrow>
          (case req of Other _ \<Rightarrow> Inl KeyError
           | _ \<Rightarrow>
             (let w = (case req of Part w \<Rightarrow> w | _ \<Rightarrow> fh_reconstruct_from h) in
              case dict_get (fh_boxes h) w of None \<Rightarrow> Inl KeyError | Some n \<Rightarrow> Inr n)))"

definition put_cbox :: "nat \<Rightarrow> cbox \<Rightarrow> fallpool \<Rightarrow> fallpool" where
  "put_cbox n b s = s\<lparr>fp_boxes := (fp_boxes s)[n := (fp_boxes s ! n)\<lparr>rb_box := b\<rparr>]\<rparr>"

text \<open>
  \<open>retrieve\<close> looks the box up without a lock, \<open>snapshot\<close> sets the pause flag and then waits for the box's lock, so other
  threads can come between these steps, even a \<open>forget\<close> of the file. \<open>fp_retrieve\<close> is a retrieval that nothing interrupts.
\<close>

definition fp_look_up :: "nat \<Rightarrow> fallpool \<Rightarrow> fallpool" where
  "fp_look_up n s = s\<lparr>fp_readers := n # fp_readers s\<rparr>"

definition fp_pause :: "nat \<Rightarrow> fallpool \<Rightarrow> fallpool" where
  "fp_pause n s = put_cbox n ((rb_box (fp_boxes s ! n))\<lparr>cb_paused := True\<rparr>) s"

definition fp_snapshot :: "env \<Rightarrow> nat \<Rightarrow> fallpool \<Rightarrow> bytes res \<times> fallpool" where
  "fp_snapshot E n s = (let (r, b) = cb_snapshot E (rb_box (fp_boxes s ! n)) in (r, put_cbox n b s))"

definition fp_retrieve :: "env \<Rightarrow> string \<Rightarrow> request \<Rightarrow> fallpool \<Rightarrow> bytes res \<times> fallpool" where
  "fp_retrieve E i req s = (case fp_box_of i req s of Inl e \<Rightarrow> (Inl e, s) | Inr n \<Rightarrow> fp_snapshot E n s)"

text \<open>\<open>forget\<close>: the entry goes first, then its boxes collapse one after the other.\<close>

definition fp_forget :: "string \<Rightarrow> fallpool \<Rightarrow> fallpool" where
  "fp_forget i s =
     (case dict_get (fp_held s) i of None \<Rightarrow> s
      | Some h \<Rightarrow> s\<lparr>fp_held := dict_del i (fp_held s), fp_doomed := fp_doomed s @ map snd (fh_boxes h)\<rparr>)"

definition fp_collapse :: "nat \<Rightarrow> fallpool \<Rightarrow> fallpool" where
  "fp_collapse n s = (put_cbox n (cb_collapse (rb_box (fp_boxes s ! n))) s)\<lparr>fp_doomed := filter (\<lambda>m. m \<noteq> n) (fp_doomed s)\<rparr>"

section \<open>Steps\<close>

text \<open>A worker's turn with box \<open>n\<close>, under the box's lock.\<close>

definition fp_serve :: "env \<Rightarrow> time \<Rightarrow> bytes \<Rightarrow> (nat \<Rightarrow> nat) \<Rightarrow> nat \<Rightarrow> fallpool \<Rightarrow> time option \<times> fallpool" where
  "fp_serve E now nonce addrs n s =
     (let rb = fp_boxes s ! n; b = rb_box rb;
          (again, rb', wd', g') = serve_box E now nonce addrs rb (fp_watchdog s) (fp_group s);
          turned = (again \<noteq> None \<and> \<not> cb_paused b \<and> cb_asks E nonce b)
      in (again, s\<lparr>fp_boxes := (fp_boxes s)[n := rb'], fp_watchdog := wd', fp_group := g',
                   fp_turns := (fp_turns s)[n := fp_turns s ! n + (if turned then 1 else 0)]\<rparr>))"

inductive fp_step :: "env \<Rightarrow> fallpool \<Rightarrow> fallpool \<Rightarrow> bool" for E where
  begin_save: "k < length (fp_savers s) \<Longrightarrow> fp_savers s ! k = None \<Longrightarrow> fp_step E s (fp_begin k i r name s)"
| make_box: "k < length (fp_savers s) \<Longrightarrow> fp_savers s ! k = Some sg \<Longrightarrow> length (sg_boxes sg) < 3 \<Longrightarrow> draws_ok D \<Longrightarrow>
     fp_step E s (fp_make E fs D now k sg s)"
| see_guard: "k < length (fp_savers s) \<Longrightarrow> fp_savers s ! k = Some sg \<Longrightarrow> length (sg_boxes sg) = 3 \<Longrightarrow> fp_watchdog s \<noteq> None \<Longrightarrow>
     sg_reads sg < 6 \<Longrightarrow> sg_seen sg = None \<Longrightarrow> fp_step E s (saver_put k (Some (fp_see sg s)) s)"
| read_guard: "k < length (fp_savers s) \<Longrightarrow> fp_savers s ! k = Some sg \<Longrightarrow> sg_seen sg = Some (limit, g) \<Longrightarrow>
     fp_step E s (fp_read k limit g sg s)"
| enter: "k < length (fp_savers s) \<Longrightarrow> fp_savers s ! k = Some sg \<Longrightarrow> length (sg_boxes sg) = 3 \<Longrightarrow>
     fp_watchdog s = None \<or> sg_reads sg = 6 \<Longrightarrow> sg_seen sg = None \<Longrightarrow> fp_step E s (fp_enter fs k sg s)"
| look_up: "fp_box_of i req s = Inr n \<Longrightarrow> fp_step E s (fp_look_up n s)"
| pause: "n \<in> set (fp_readers s) \<Longrightarrow> fp_step E s (fp_pause n s)"
| read_box: "n \<in> set (fp_readers s) \<Longrightarrow> fp_step E s (snd (fp_snapshot E n s))"
| forget: "fp_step E s (fp_forget i s)"
| collapse: "n \<in> set (fp_doomed s) \<Longrightarrow> fp_step E s (fp_collapse n s)"
| take_box: "k < length (fp_workers s) \<Longrightarrow> fp_workers s ! k = W_Idle \<Longrightarrow> sc_take now (fp_sched s) = Some (n, c) \<Longrightarrow>
     fp_step E s (s\<lparr>fp_sched := c, fp_workers := (fp_workers s)[k := W_Popped n]\<rparr>)"
| serve_box: "k < length (fp_workers s) \<Longrightarrow> fp_workers s ! k = W_Popped n \<Longrightarrow> length nonce = NONCE_LEN \<Longrightarrow>
     fp_serve E now nonce addrs n s = (Some due, t) \<Longrightarrow> fp_step E s (t\<lparr>fp_workers := (fp_workers s)[k := W_Rearm due n]\<rparr>)"
| drop_box: "k < length (fp_workers s) \<Longrightarrow> fp_workers s ! k = W_Popped n \<Longrightarrow> length nonce = NONCE_LEN \<Longrightarrow>
     fp_serve E now nonce addrs n s = (None, t) \<Longrightarrow>
     fp_step E s (t\<lparr>fp_workers := (fp_workers s)[k := W_Idle], fp_dropped := n # fp_dropped s\<rparr>)"
| rearm_box: "k < length (fp_workers s) \<Longrightarrow> fp_workers s ! k = W_Rearm due n \<Longrightarrow>
     fp_step E s (s\<lparr>fp_workers := (fp_workers s)[k := W_Idle], fp_sched := sc_push due n (fp_sched s)\<rparr>)"

inductive fp_reach :: "env \<Rightarrow> nat \<Rightarrow> nat \<Rightarrow> watchdog option \<Rightarrow> tgroup option \<Rightarrow> fallpool \<Rightarrow> bool" for E n m wd grp where
  fp_start: "fp_reach E n m wd grp (fp_init n m wd grp)"
| fp_next: "fp_reach E n m wd grp s \<Longrightarrow> fp_step E s t \<Longrightarrow> fp_reach E n m wd grp t"

section \<open>The pool's side\<close>

text \<open>What the heap and the workers do is the pool of \<open>Scheduler\<close>, whatever the boxes are.\<close>

definition fp_pool :: "fallpool \<Rightarrow> (nat, unit) pool_sys" where
  "fp_pool s = \<lparr>y_sched = fp_sched s, y_workers = fp_workers s, y_world = (), y_dropped = fp_dropped s,
     y_registered = rev [0..<length (fp_boxes s)]\<rparr>"

lemmas fp_defs = fp_begin_def fp_read_def saver_put_def fp_look_up_def fp_pause_def put_cbox_def fp_snapshot_def
  fp_forget_def fp_collapse_def fp_serve_def

lemma fp_step_pool: "fp_step E s t \<Longrightarrow> fp_pool t = fp_pool s \<or> sched_step (\<lambda>_ _ _ _. True) (fp_pool s) (fp_pool t)"
proof (induction rule: fp_step.induct)
  case (make_box k s sg D fs now)
  obtain r v where r: "make_box E fs D (sr_piece (sg_split sg) (hold_order ! length (sg_boxes sg))) (fp_view s) = (r, v)"
    by fastforce
  show ?case
  proof (cases r)
    case (Inr rb)
    have "length (fp_boxes s) \<notin> set (y_registered (fp_pool s))" by (simp add: fp_pool_def)
    from sched_step.register [OF this, where serve = "\<lambda>_ _ _ _. True" and due = now and w' = "()"] show ?thesis
      by (simp add: fp_make_def r Inr fp_pool_def fp_defs fall_register_def Let_def)
  qed (simp add: fp_make_def r fp_pool_def fp_defs Let_def)
next
  case (take_box k s now n c)
  then have "sched_step (\<lambda>_ _ _ _. True) (fp_pool s) ((fp_pool s)\<lparr>y_sched := c, y_workers := (y_workers (fp_pool s))[k := W_Popped n]\<rparr>)"
    by (intro sched_step.take [of k _ now]) (simp_all add: fp_pool_def)
  then show ?case by (simp add: fp_pool_def)
next
  case (serve_box k s n nonce now addrs due t)
  then have "sched_step (\<lambda>_ _ _ _. True) (fp_pool s)
      ((fp_pool s)\<lparr>y_workers := (y_workers (fp_pool s))[k := W_Rearm due n], y_world := ()\<rparr>)"
    by (intro sched_step.serve) (simp_all add: fp_pool_def)
  then show ?case using serve_box by (auto simp: fp_pool_def fp_serve_def Let_def split: prod.splits)
next
  case (drop_box k s n nonce now addrs t)
  then have "sched_step (\<lambda>_ _ _ _. True) (fp_pool s)
      ((fp_pool s)\<lparr>y_workers := (y_workers (fp_pool s))[k := W_Idle], y_world := (), y_dropped := n # y_dropped (fp_pool s)\<rparr>)"
    by (intro sched_step.drop) (simp_all add: fp_pool_def)
  then show ?case using drop_box by (auto simp: fp_pool_def fp_serve_def Let_def split: prod.splits)
next
  case (rearm_box k s due n)
  then have "sched_step (\<lambda>_ _ _ _. True) (fp_pool s)
      ((fp_pool s)\<lparr>y_workers := (y_workers (fp_pool s))[k := W_Idle], y_sched := sc_push due n (y_sched (fp_pool s))\<rparr>)"
    by (intro sched_step.rearm) (simp_all add: fp_pool_def)
  then show ?case by (simp add: fp_pool_def)
next
  case (enter k s sg fs)
  then show ?case by (auto simp: fp_pool_def fp_enter_def saver_put_def Let_def split: prod.splits sum.splits)
qed (simp_all add: fp_pool_def fp_defs fp_retrieve_def split_def Let_def split: option.splits sum.splits)

lemma fp_pool_inv: "fp_reach E n m wd grp s \<Longrightarrow> sched_inv (fp_pool s)"
proof (induction rule: fp_reach.induct)
  case fp_start
  have "fp_pool (fp_init n m wd grp) = pool_init n ()" by (simp add: fp_pool_def fp_init_def pool_init_def)
  then show ?case by (simp add: sched_inv_init)
next
  case (fp_next s t)
  then show ?case using fp_step_pool [of E s t] sched_step_inv by metis
qed

text \<open>A box is dropped, or it is in one place, once.\<close>

lemma fp_places:
  assumes "sched_inv (fp_pool s)" "n < length (fp_boxes s)" "n \<notin> set (fp_dropped s)"
  shows "count (mset (map entry_item (sc_heap (fp_sched s))) + mset (concat (map in_hand (fp_workers s)))) n = 1"
proof -
  have eq: "mset (map entry_item (sc_heap (fp_sched s))) + mset (concat (map in_hand (fp_workers s))) + mset (fp_dropped s)
      = mset (rev [0..<length (fp_boxes s)])"
    using assms(1) by (simp add: sched_inv_def fp_pool_def)
  have "count (mset (rev [0..<length (fp_boxes s)])) n = 1" using assms(2) by (subst distinct_count_atmost_1 [THEN iffD1, rule_format]) simp_all
  moreover have "count (mset (fp_dropped s)) n = 0" using assms(3) by (simp add: count_eq_zero_iff)
  ultimately show ?thesis using eq by (metis add.right_neutral count_union)
qed

section \<open>A worker's turn\<close>

lemma cb_serve_removed: "cb_removed (fst (snd (cb_serve E now nonce trust addrs s))) = cb_removed s"
proof -
  have "cb_removed (fst (snd (cb_hop E nonce trust addrs s))) = cb_removed s"
    by (auto simp: cb_hop_def cb_move_def Let_def split: sum.splits)
  then show ?thesis by (auto simp: cb_serve_def split: prod.splits sum.splits)
qed

lemma serve_box_gone: "cb_removed (rb_box rb) \<Longrightarrow> serve_box E now nonce addrs rb wd grp = (None, rb, wd, grp)"
  by (simp add: serve_box_def cb_serve_def split_def)

lemma serve_box_removed:
  "serve_box E now nonce addrs rb wd grp = (again, rb', wd', grp') \<Longrightarrow> cb_removed (rb_box rb') = cb_removed (rb_box rb)"
proof -
  assume a: "serve_box E now nonce addrs rb wd grp = (again, rb', wd', grp')"
  obtain ag b told where c: "cb_serve E now nonce (fst (ask_group grp)) addrs (rb_box rb) = (ag, b, told)" by (metis surj_pair)
  then have "cb_removed b = cb_removed (rb_box rb)" using cb_serve_removed [of E now nonce "fst (ask_group grp)" addrs "rb_box rb"] by simp
  then show ?thesis using a c by (auto simp: serve_box_def split_def Let_def split: option.splits sum.splits)
qed

text \<open>Without a trust group, a box that has not been removed is always put back.\<close>

lemma cb_hop_succeeds:
  assumes "cb_ok E data s" "length nonce = NONCE_LEN"
  shows "\<exists>t told. cb_hop E nonce None addrs s = (Inr (), t, told)"
proof -
  obtain kc kn ps where rep: "env_ok E" "cb_rep E s kc kn ps" using assms(1) by (auto simp: cb_ok_def)
  have nk: "next_key E None kn = Inr (ratchet E kn)" by (simp add: next_key_def)
  show ?thesis by (rule cb_hop_moves [OF rep assms(2), of None addrs]) (auto simp: nk Let_def)
qed

lemma serve_box_again:
  assumes "rbox_ok E wd rb" "\<forall>w. wd = Some w \<longrightarrow> wd_ok w" "length nonce = NONCE_LEN"
    and "serve_box E now nonce addrs rb wd None = (again, rb', wd', grp')"
  shows "again \<noteq> None \<and> grp' = None"
proof -
  obtain data where d: "cb_ok E data (rb_box rb)" using assms(1) by (auto simp: rbox_ok_def)
  have "\<not> cb_removed (rb_box rb)" using d by (auto simp: cb_ok_def cb_rep_def)
  moreover obtain t told where "cb_hop E nonce None addrs (rb_box rb) = (Inr (), t, told)"
    using cb_hop_succeeds [OF d assms(3)] by blast
  ultimately obtain due b' told' where c: "cb_serve E now nonce None addrs (rb_box rb) = (Some due, b', told')"
    by (cases "cb_paused (rb_box rb)") (simp_all add: cb_serve_def)
  show ?thesis
  proof (cases "told' = None \<or> wd = None")
    case True
    then show ?thesis using assms(4) c by (auto simp: serve_box_def ask_group_def Let_def split: option.splits)
  next
    case False
    then obtain rs w where rw: "told' = Some rs" "wd = Some w" by auto
    have "wd_ok w" "slot_in (Some w) (rb_slot rb)" using assms(1,2) rw by (auto simp: rbox_ok_def)
    then obtain sl w' where "on_new_guard rs (rb_slot rb) w = (Inr (), sl, w')" by (rule on_new_guard_ok)
    then show ?thesis using assms(4) c rw by (auto simp: serve_box_def ask_group_def Let_def)
  qed
qed

section \<open>Who may collapse a box\<close>

text \<open>A box belongs to the call that makes it, then to the entry of its file, then to nobody.\<close>

datatype box_owner = By_Saver nat | Of_File string | Gone

definition held_fine :: "(nat \<Rightarrow> box_owner) \<Rightarrow> fallpool \<Rightarrow> string \<Rightarrow> fheld \<Rightarrow> bool" where
  "held_fine own s i h \<longleftrightarrow> dict_keys (fh_boxes h) = hold_order \<and>
     (\<forall>w n. dict_get (fh_boxes h) w = Some n \<longrightarrow>
        n < length (fp_boxes s) \<and> own n = Of_File i \<and> (\<forall>d. sr_piece (fh_split h) w = Bytes d \<longrightarrow> fp_data s ! n = d))"

definition saver_fine :: "(nat \<Rightarrow> box_owner) \<Rightarrow> fallpool \<Rightarrow> nat \<Rightarrow> saving \<Rightarrow> bool" where
  "saver_fine own s k sg \<longleftrightarrow>
     length (sg_boxes sg) \<le> 3 \<and>
     (\<forall>j < length (sg_boxes sg). sg_boxes sg ! j < length (fp_boxes s) \<and> own (sg_boxes sg ! j) = By_Saver k \<and>
        (\<forall>d. sr_piece (sg_split sg) (hold_order ! j) = Bytes d \<longrightarrow> fp_data s ! (sg_boxes sg ! j) = d))"

text \<open>The cells of its guard are closed.\<close>

definition box_dead :: "cbox \<Rightarrow> bool" where
  "box_dead b \<longleftrightarrow> g_cells (cb_current b) \<noteq> [] \<and> guard_collapse (cb_current b) = cb_current b"

definition box_fine :: "env \<Rightarrow> box_owner \<Rightarrow> watchdog option \<Rightarrow> rbox \<Rightarrow> bytes \<Rightarrow> bool" where
  "box_fine E p wd rb d \<longleftrightarrow>
     (if cb_removed (rb_box rb) then p = Gone \<and> box_dead (rb_box rb) else rbox_ok E wd rb \<and> rbox_data E rb = Inr d)"

definition fp_good :: "env \<Rightarrow> (nat \<Rightarrow> box_owner) \<Rightarrow> fallpool \<Rightarrow> bool" where
  "fp_good E own s \<longleftrightarrow>
     length (fp_data s) = length (fp_boxes s) \<and> (\<forall>w. fp_watchdog s = Some w \<longrightarrow> wd_ok w) \<and>
     (\<forall>n < length (fp_boxes s). box_fine E (own n) (fp_watchdog s) (fp_boxes s ! n) (fp_data s ! n)) \<and>
     (\<forall>n \<in> set (fp_readers s). n < length (fp_boxes s)) \<and> (\<forall>n \<in> set (fp_doomed s). n < length (fp_boxes s) \<and> own n = Gone) \<and>
     (\<forall>i h. dict_get (fp_held s) i = Some h \<longrightarrow> held_fine own s i h) \<and>
     (\<forall>k sg. k < length (fp_savers s) \<longrightarrow> fp_savers s ! k = Some sg \<longrightarrow> saver_fine own s k sg)"

lemma fp_good_init: "\<forall>w. wd = Some w \<longrightarrow> wd_ok w \<Longrightarrow> fp_good E own (fp_init n m wd grp)"
  by (simp add: fp_good_def fp_init_def)

text \<open>Steps of the pool, of a saver, and of one box.\<close>

lemma fp_good_frame:
  assumes "fp_good E own s" "fp_boxes t = fp_boxes s" "fp_data t = fp_data s" "fp_watchdog t = fp_watchdog s"
    "fp_doomed t = fp_doomed s" "fp_held t = fp_held s" "fp_savers t = fp_savers s" "fp_readers t = fp_readers s"
  shows "fp_good E own t"
  using assms by (simp add: fp_good_def held_fine_def saver_fine_def)

lemma fp_good_look_up:
  assumes "n < length (fp_boxes s)" "fp_good E own s"
  shows "fp_good E own (fp_look_up n s)"
proof -
  have "held_fine own (fp_look_up n s) = held_fine own s" "saver_fine own (fp_look_up n s) = saver_fine own s"
    by (simp_all add: fun_eq_iff fp_look_up_def held_fine_def saver_fine_def)
  then show ?thesis using assms by (simp add: fp_good_def) (simp add: fp_look_up_def)
qed

lemma fp_good_saver:
  assumes "fp_good E own s" "\<forall>sg. x = Some sg \<longrightarrow> saver_fine own s k sg"
  shows "fp_good E own (saver_put k x s)"
proof -
  have f: "fp_boxes (saver_put k x s) = fp_boxes s" "fp_data (saver_put k x s) = fp_data s"
    "fp_watchdog (saver_put k x s) = fp_watchdog s" "fp_doomed (saver_put k x s) = fp_doomed s"
    "fp_held (saver_put k x s) = fp_held s" "fp_readers (saver_put k x s) = fp_readers s" "fp_savers (saver_put k x s) = (fp_savers s)[k := x]"
    by (simp_all add: saver_put_def)
  have "saver_fine own s j sg" if "j < length (fp_savers s)" "(fp_savers s)[k := x] ! j = Some sg" for j sg
    using that assms by (cases "j = k") (simp_all add: fp_good_def)
  then show ?thesis
    using assms(1) by (simp add: fp_good_def f held_fine_def saver_fine_def)
qed

lemma rbox_ok_more: "rbox_ok E wd rb \<Longrightarrow> (\<forall>sl. slot_in wd sl \<longrightarrow> slot_in wd' sl) \<Longrightarrow> rbox_ok E wd' rb"
  by (auto simp: rbox_ok_def)

lemma fp_good_box:
  assumes "fp_good E own s" "n < length (fp_boxes s)" "fp_boxes t = (fp_boxes s)[n := rb]" "fp_data t = fp_data s"
    "set (fp_doomed t) \<subseteq> set (fp_doomed s)" "fp_held t = fp_held s" "fp_savers t = fp_savers s" "fp_readers t = fp_readers s"
    and "\<forall>w. fp_watchdog t = Some w \<longrightarrow> wd_ok w" "\<forall>sl. slot_in (fp_watchdog s) sl \<longrightarrow> slot_in (fp_watchdog t) sl"
    and "box_fine E (own n) (fp_watchdog t) rb (fp_data s ! n)"
  shows "fp_good E own t"
proof -
  have "box_fine E (own m) (fp_watchdog t) (fp_boxes t ! m) (fp_data t ! m)" if "m < length (fp_boxes t)" for m
  proof (cases "m = n")
    case False
    have "box_fine E (own m) (fp_watchdog s) (fp_boxes s ! m) (fp_data s ! m)"
      using assms(1,3) that by (simp add: fp_good_def)
    then show ?thesis using False assms(3,4,10) rbox_ok_more by (auto simp: box_fine_def)
  qed (use assms in simp)
  moreover have "held_fine own t i h" if "held_fine own s i h" for i h using that assms(3,4) by (simp add: held_fine_def)
  moreover have "saver_fine own t k sg" if "saver_fine own s k sg" for k sg using that assms(3,4) by (simp add: saver_fine_def)
  ultimately show ?thesis
    using assms(1-9) unfolding fp_good_def by (simp add: subset_iff)
qed

lemma fp_good_live:
  assumes "fp_good E own s" "n < length (fp_boxes s)" "own n \<noteq> Gone"
  shows "rbox_ok E (fp_watchdog s) (fp_boxes s ! n)" "rbox_data E (fp_boxes s ! n) = Inr (fp_data s ! n)"
    and "\<exists>data. cb_ok E data (rb_box (fp_boxes s ! n))"
proof -
  have "box_fine E (own n) (fp_watchdog s) (fp_boxes s ! n) (fp_data s ! n)" using assms(1,2) by (simp add: fp_good_def)
  then show "rbox_ok E (fp_watchdog s) (fp_boxes s ! n)" "rbox_data E (fp_boxes s ! n) = Inr (fp_data s ! n)"
    using assms(3) by (auto simp: box_fine_def split: if_splits)
  then show "\<exists>data. cb_ok E data (rb_box (fp_boxes s ! n))" by (auto simp: rbox_ok_def)
qed

lemma fp_box_of_fine:
  assumes "fp_good E own s" "fp_box_of i req s = Inr n"
  shows "n < length (fp_boxes s)" "own n = Of_File i"
proof -
  obtain h w where "dict_get (fp_held s) i = Some h" "dict_get (fh_boxes h) w = Some n"
    using assms(2) by (auto simp: fp_box_of_def Let_def split: option.splits request.splits)
  then show "n < length (fp_boxes s)" "own n = Of_File i" using assms(1) by (auto simp: fp_good_def held_fine_def)
qed

text \<open>A box whose cells are closed cannot be read.\<close>

lemma box_dead_snapshot: "box_dead b \<Longrightarrow> cb_snapshot E b = (Inl ValueError, b\<lparr>cb_paused := True\<rparr>)"
proof -
  assume dead: "box_dead b"
  then obtain c cs where c: "g_cells (cb_current b) = c # cs" by (cases "g_cells (cb_current b)") (auto simp: box_dead_def)
  have "g_cells (guard_collapse (cb_current b)) = g_cells (cb_current b)" using dead by (simp add: box_dead_def)
  then have "cell_collapse c = c" using c by (simp add: guard_collapse_def)
  then have "cell_read c = Inl ValueError" using cell_collapsed(1) [of c] by simp
  then show ?thesis using c by (simp add: cb_snapshot_def guard_reconstruct_def Let_def)
qed

lemma box_dead_collapse: "g_cells (cb_current b) \<noteq> [] \<Longrightarrow> box_dead (cb_collapse b)"
  by (simp add: box_dead_def cb_collapse_def guard_collapse_def cell_collapsed(4) comp_def)

lemma box_fine_cells: "box_fine E p wd rb d \<Longrightarrow> g_cells (cb_current (rb_box rb)) \<noteq> []"
  using cb_ok_cells by (auto simp: box_fine_def box_dead_def rbox_ok_def split: if_splits)

text \<open>Setting or clearing the pause flag.\<close>

lemma box_fine_paused: "box_fine E p wd rb d \<Longrightarrow> box_fine E p wd (rb\<lparr>rb_box := (rb_box rb)\<lparr>cb_paused := x\<rparr>\<rparr>) d"
proof (cases "cb_removed (rb_box rb)")
  case False
  assume fine: "box_fine E p wd rb d"
  then obtain e where e: "cb_ok E e (rb_box rb)" "slot_in wd (rb_slot rb)" using False by (auto simp: box_fine_def rbox_ok_def)
  then have "d = e" using fine False rbox_data_ok [of E e rb] by (simp add: box_fine_def)
  moreover have "cb_ok E e ((rb_box rb)\<lparr>cb_paused := x\<rparr>)" by (rule cb_ok_guards(3) [OF e(1)])
  ultimately show ?thesis using e(2) False rbox_data_ok by (auto simp: box_fine_def rbox_ok_def)
qed (simp add: box_fine_def box_dead_def)

lemma fp_good_paused:
  assumes "fp_good E own s" "n < length (fp_boxes s)"
  shows "fp_good E own (put_cbox n ((rb_box (fp_boxes s ! n))\<lparr>cb_paused := p\<rparr>) s)"
proof -
  have "box_fine E (own n) (fp_watchdog s) (fp_boxes s ! n) (fp_data s ! n)" using assms by (simp add: fp_good_def)
  from box_fine_paused [OF this] show ?thesis
    using assms(1) by (intro fp_good_box [OF assms]) (simp_all add: put_cbox_def fp_good_def)
qed

lemma snapshot_pauses: "\<exists>p. snd (cb_snapshot E b) = b\<lparr>cb_paused := p\<rparr>"
  by (auto simp: cb_snapshot_def Let_def split: sum.splits)

text \<open>What a reader gets who looked the box up some time ago.\<close>

lemma fp_late_read:
  assumes "fp_good E own s" "n < length (fp_boxes s)"
  shows "fst (fp_snapshot E n s) = (if cb_removed (rb_box (fp_boxes s ! n)) then Inl ValueError else Inr (fp_data s ! n))"
proof -
  have "box_fine E (own n) (fp_watchdog s) (fp_boxes s ! n) (fp_data s ! n)" using assms by (simp add: fp_good_def)
  then show ?thesis
    using box_dead_snapshot by (auto simp: fp_snapshot_def split_def Let_def box_fine_def rbox_data_def split: if_splits)
qed

section \<open>Every step keeps the boxes\<close>

lemma fp_good_make:
  assumes "env_ok E" "draws_ok D" "fp_good E own s" "k < length (fp_savers s)" "fp_savers s ! k = Some sg" "length (sg_boxes sg) < 3"
  shows "\<exists>own'. fp_good E own' (fp_make E fs D now k sg s)"
proof -
  let ?n = "length (fp_boxes s)" and ?pc = "sr_piece (sg_split sg) (hold_order ! length (sg_boxes sg))"
  obtain r g where r: "make_box E fs D ?pc (fp_view s) = (r, (fp_view s)\<lparr>sv_group := g\<rparr>)"
    "\<And>rb. r = Inr rb \<Longrightarrow> \<exists>data. resolve fs ?pc = Some data \<and> cb_ok E data (rb_box rb) \<and> rb_slot rb = None"
    by (rule make_box_ok [OF assms(1,2), of fs ?pc "fp_view s"]) blast
  show ?thesis
  proof (cases r)
    case (Inl e)
    have "fp_good E own (s\<lparr>fp_group := g\<rparr>)" by (rule fp_good_frame [OF assms(3)]) simp_all
    then show ?thesis
      using fp_good_saver [of E own "s\<lparr>fp_group := g\<rparr>" None k] by (auto simp: fp_make_def r(1) Inl Let_def)
  next
    case (Inr rb)
    obtain data where d: "resolve fs ?pc = Some data" "cb_ok E data (rb_box rb)" "rb_slot rb = None" using r(2) [OF Inr] by blast
    let ?own = "own(?n := By_Saver k)"
    let ?sg = "sg\<lparr>sg_boxes := sg_boxes sg @ [?n]\<rparr>"
    let ?t = "s\<lparr>fp_group := g, fp_boxes := fp_boxes s @ [rb], fp_turns := fp_turns s @ [0],
               fp_sched := fall_register now ?n (fp_sched s), fp_data := fp_data s @ [data]\<rparr>"
    note good = assms(3) [unfolded fp_good_def]
    have len: "length (fp_data s) = ?n" using good by simp
    have "rbox_ok E (fp_watchdog s) rb" "rbox_data E rb = Inr data" "\<not> cb_removed (rb_box rb)"
      using d rbox_data_ok by (auto simp: rbox_ok_def slot_in_def cb_ok_def cb_rep_def split: option.splits)
    then have "box_fine E (?own n) (fp_watchdog s) ((fp_boxes s @ [rb]) ! n) ((fp_data s @ [data]) ! n)" if "n < Suc ?n" for n
      using that good len by (cases "n = ?n") (auto simp: box_fine_def nth_append)
    moreover have "held_fine ?own ?t i h" if "dict_get (fp_held s) i = Some h" for i h
    proof -
      have "held_fine own s i h" using good that by simp
      then show ?thesis using len unfolding held_fine_def by (fastforce simp: nth_append)
    qed
    moreover have old: "saver_fine ?own ?t j x" if "j < length (fp_savers s)" "fp_savers s ! j = Some x" for j x
    proof -
      have "saver_fine own s j x" using good that by simp
      then show ?thesis using len unfolding saver_fine_def by (fastforce simp: nth_append)
    qed
    ultimately have t: "fp_good E ?own ?t"
      using good len by (fastforce simp: fp_good_def)
    have "saver_fine ?own ?t k ?sg"
      using old [OF assms(4,5)] assms(6) d(1) len
      by (auto simp: saver_fine_def nth_append resolve_def less_Suc_eq)
    then have "fp_good E ?own (saver_put k (Some ?sg) ?t)" using fp_good_saver [OF t] by simp
    then show ?thesis by (intro exI [of _ ?own]) (simp add: fp_make_def r(1) Inr d(1) Let_def)
  qed
qed

lemma zip_order:
  "length ns = 3 \<Longrightarrow> dict_get (zip hold_order ns) w = Some n \<Longrightarrow> \<exists>j < length ns. hold_order ! j = w \<and> ns ! j = n"
  unfolding dict_get_def by (drule map_of_SomeD) (auto simp: in_set_zip hold_order_def)

lemma fp_good_enter:
  assumes "fp_good E own s" "k < length (fp_savers s)" "fp_savers s ! k = Some sg" "length (sg_boxes sg) = 3"
  shows "\<exists>own'. fp_good E own' (fp_enter fs k sg s)"
proof -
  let ?r = "sg_split sg"
  define aw where "aw = (case fp_watchdog s of None \<Rightarrow> (Inr (), None)
     | Some w \<Rightarrow> (let (a, w') = add_regions (sg_regions sg) w in (a, Some w')))"
  obtain a wd where aw': "aw = (a, wd)" by fastforce
  let ?s1 = "saver_put k None (s\<lparr>fp_watchdog := wd\<rparr>)"
  note good = assms(1) [unfolded fp_good_def]
  have wd: "(\<forall>w. wd = Some w \<longrightarrow> wd_ok w) \<and> (\<forall>sl. slot_in (fp_watchdog s) sl \<longrightarrow> slot_in wd sl)"
  proof (cases "fp_watchdog s")
    case (Some w)
    have ok: "wd_ok w" using good Some by simp
    have "wd_count w \<le> wd_count (snd (add_regions (sg_regions sg) w))"
      using add_regions_ok [OF ok, of "sg_regions sg"] by (cases "wd_count w + length (sg_regions sg) \<le> MAX_REGIONS") auto
    moreover have "wd = Some (snd (add_regions (sg_regions sg) w))" using aw' by (simp add: aw_def Some split_def Let_def)
    ultimately show ?thesis
      using add_regions_ok [OF ok, of "sg_regions sg", THEN conjunct1] slot_in_more by (simp add: Some)
  qed (use aw' in \<open>auto simp: aw_def\<close>)
  have "box_fine E (own n) wd (fp_boxes s ! n) (fp_data s ! n)" if "n < length (fp_boxes s)" for n
    using good that wd rbox_ok_more [of E "fp_watchdog s" _ wd] by (auto simp: box_fine_def)
  then have "fp_good E own (s\<lparr>fp_watchdog := wd\<rparr>)"
    using good wd by (simp add: fp_good_def held_fine_def saver_fine_def)
  then have s1: "fp_good E own ?s1" by (rule fp_good_saver) simp
  show ?thesis
  proof (cases "fp_enter fs k sg s = ?s1")
    case True
    then show ?thesis using s1 by auto
  next
    case False
    then obtain sz where eq: "fp_enter fs k sg s = ?s1\<lparr>fp_held := dict_set (sg_id sg) \<lparr>fh_boxes = zip hold_order (sg_boxes sg),
        fh_reconstruct_from = sr_reconstruct_from ?r, fh_original_size = sz, fh_name = sg_name sg, fh_split = ?r\<rparr> (fp_held s)\<rparr>"
      using aw' by (auto simp: fp_enter_def aw_def [symmetric] Let_def saver_put_def split: sum.splits if_splits)
    let ?own = "\<lambda>n. if n \<in> set (sg_boxes sg) then Of_File (sg_id sg) else own n"
    have sg: "saver_fine own s k sg" using good assms(2,3) by simp
    have mine: "own n = By_Saver k" if "n \<in> set (sg_boxes sg)" for n
      using sg that by (auto simp: saver_fine_def in_set_conv_nth)
    note good1 = s1 [unfolded fp_good_def]
    have f: "fp_boxes ?s1 = fp_boxes s" "fp_data ?s1 = fp_data s" "fp_held ?s1 = fp_held s" "fp_doomed ?s1 = fp_doomed s"
      "fp_savers ?s1 = (fp_savers s)[k := None]" "fp_watchdog ?s1 = wd"
      by (simp_all add: saver_put_def)
    have "box_fine E (?own n) wd (fp_boxes s ! n) (fp_data s ! n)" if "n < length (fp_boxes s)" for n
      using good1 that mine [of n] by (auto simp: f box_fine_def split: if_splits)
    moreover have "own n = Gone \<Longrightarrow> ?own n = Gone" for n using mine [of n] by auto
    moreover have "held_fine ?own ?s1 i h" if "dict_get (fp_held s) i = Some h" for i h
      using good1 that mine unfolding held_fine_def f by fastforce
    moreover have "held_fine ?own ?s1 (sg_id sg) \<lparr>fh_boxes = zip hold_order (sg_boxes sg), fh_reconstruct_from = sr_reconstruct_from ?r,
        fh_original_size = sz, fh_name = sg_name sg, fh_split = ?r\<rparr>"
      using sg zip_order [OF assms(4)] assms(4) by (fastforce simp: held_fine_def saver_fine_def f dict_keys_def hold_order_def)
    moreover have "saver_fine ?own ?s1 j x" if "j < length (fp_savers s)" "(fp_savers s)[k := None] ! j = Some x" for j x
    proof -
      have "j \<noteq> k" using that by auto
      then have "saver_fine own s j x" using good that by simp
      then show ?thesis using mine \<open>j \<noteq> k\<close> unfolding saver_fine_def f by (metis (no_types, lifting) box_owner.inject(1))
    qed
    ultimately have "fp_good E ?own (fp_enter fs k sg s)"
      unfolding eq using good1 wd by (simp add: fp_good_def f) (simp add: held_fine_def saver_fine_def f)
    then show ?thesis by blast
  qed
qed

lemma fp_good_forget:
  assumes "fp_good E own s"
  shows "\<exists>own'. fp_good E own' (fp_forget i s)"
proof (cases "dict_get (fp_held s) i")
  case None
  then show ?thesis using assms by (auto simp: fp_forget_def)
next
  case (Some h)
  let ?ns = "map snd (fh_boxes h)"
  let ?own = "\<lambda>n. if n \<in> set ?ns then Gone else own n"
  note good = assms [unfolded fp_good_def]
  have h: "held_fine own s i h" using good Some by simp
  then have "dict_ok (fh_boxes h)" by (simp add: held_fine_def dict_ok_def dict_keys_def hold_order_def)
  then have mine: "n < length (fp_boxes s)" "own n = Of_File i" if "n \<in> set ?ns" for n
    using that h dict_get_mem [of "fh_boxes h"] by (auto simp: held_fine_def)
  have "box_fine E (?own n) (fp_watchdog s) (fp_boxes s ! n) (fp_data s ! n)" if "n < length (fp_boxes s)" for n
    using good that by (auto simp: box_fine_def split: if_splits)
  moreover have "held_fine ?own s j x" if "dict_get (fp_held s) j = Some x" "j \<noteq> i" for j x
  proof -
    have "held_fine own s j x" using good that(1) by simp
    then show ?thesis using that(2) mine(2) unfolding held_fine_def by fastforce
  qed
  moreover have "saver_fine ?own s k sg" if "k < length (fp_savers s)" "fp_savers s ! k = Some sg" for k sg
  proof -
    have "saver_fine own s k sg" using good that by simp
    then show ?thesis using mine(2) unfolding saver_fine_def by fastforce
  qed
  ultimately have "fp_good E ?own (s\<lparr>fp_held := dict_del i (fp_held s), fp_doomed := fp_doomed s @ ?ns\<rparr>)"
    using good mine(1) unfolding fp_good_def by (simp add: held_fine_def saver_fine_def) blast
  then show ?thesis by (auto simp: fp_forget_def Some)
qed

lemma fp_good_collapse:
  assumes "fp_good E own s" "n \<in> set (fp_doomed s)"
  shows "fp_good E own (fp_collapse n s)"
proof -
  have n: "n < length (fp_boxes s)" "own n = Gone" using assms by (simp_all add: fp_good_def)
  have "box_dead (cb_collapse (rb_box (fp_boxes s ! n)))"
    using assms(1) n(1) by (intro box_dead_collapse box_fine_cells) (auto simp: fp_good_def)
  then have "box_fine E (own n) (fp_watchdog s) ((fp_boxes s ! n)\<lparr>rb_box := cb_collapse (rb_box (fp_boxes s ! n))\<rparr>) (fp_data s ! n)"
    using n(2) by (simp add: box_fine_def) (simp add: cb_collapse_def)
  then show ?thesis
    using assms(1) by (intro fp_good_box [OF assms(1) n(1)]) (auto simp: fp_collapse_def put_cbox_def fp_good_def)
qed

lemma fp_good_serve:
  assumes "fp_good E own s" "n < length (fp_boxes s)" "length nonce = NONCE_LEN" "fp_serve E now nonce addrs n s = (again, t)"
  shows "fp_good E own t"
proof -
  obtain rb wd' g' where r: "serve_box E now nonce addrs (fp_boxes s ! n) (fp_watchdog s) (fp_group s) = (again, rb, wd', g')"
    using assms(4) by (auto simp: fp_serve_def Let_def split: prod.splits)
  have t: "fp_boxes t = (fp_boxes s)[n := rb]" "fp_data t = fp_data s" "fp_doomed t = fp_doomed s" "fp_held t = fp_held s"
    "fp_savers t = fp_savers s" "fp_readers t = fp_readers s" "fp_watchdog t = wd'"
    using assms(4) by (auto simp: fp_serve_def r Let_def)
  have wd: "\<forall>w. fp_watchdog s = Some w \<longrightarrow> wd_ok w" using assms(1) by (simp add: fp_good_def)
  have box: "box_fine E (own n) (fp_watchdog s) (fp_boxes s ! n) (fp_data s ! n)" using assms(1,2) by (simp add: fp_good_def)
  show ?thesis
  proof (cases "cb_removed (rb_box (fp_boxes s ! n))")
    case True
    then have "rb = fp_boxes s ! n" "wd' = fp_watchdog s" using r by (simp_all add: serve_box_gone)
    then show ?thesis using box wd by (intro fp_good_box [OF assms(1,2) t(1)]) (simp_all add: t)
  next
    case False
    then have b: "rbox_ok E (fp_watchdog s) (fp_boxes s ! n)" "rbox_data E (fp_boxes s ! n) = Inr (fp_data s ! n)"
      using box by (simp_all add: box_fine_def)
    note s = serve_box_ok [OF b(1) wd assms(3) r]
    have "\<not> cb_removed (rb_box rb)" using serve_box_removed [OF r] False by simp
    then have "box_fine E (own n) wd' rb (fp_data s ! n)" using s b(2) by (simp add: box_fine_def)
    then show ?thesis using s by (intro fp_good_box [OF assms(1,2) t(1)]) (simp_all add: t)
  qed
qed

lemma fp_in_hand:
  assumes "sched_inv (fp_pool s)" "k < length (fp_workers s)" "fp_workers s ! k = W_Popped n"
  shows "n < length (fp_boxes s)"
proof -
  have "set_mset (mset (concat (map in_hand (fp_workers s)))) \<subseteq> set_mset (mset (rev [0..<length (fp_boxes s)]))"
    using assms(1) unfolding sched_inv_def fp_pool_def
    by (metis (no_types, lifting) mset_subset_eq_add_left mset_subset_eq_add_right pool_sys.select_convs set_mset_mono subset_mset.order_trans)
  then show ?thesis using in_hand_sub [OF assms(2), of n] assms(3) by auto
qed

lemma fp_step_good:
  assumes "env_ok E" "fp_step E s t" "sched_inv (fp_pool s)" "fp_good E own s"
  shows "\<exists>own'. fp_good E own' t"
  using assms(2-)
proof (induction rule: fp_step.induct)
  case (begin_save k s i r name)
  show ?case unfolding fp_begin_def
    by (rule exI, rule fp_good_saver [OF begin_save(4)]) (simp add: saver_fine_def)
next
  case (make_box k s sg D fs now)
  then show ?case using fp_good_make [OF assms(1)] by blast
next
  case (see_guard k s sg)
  then have "saver_fine own s k sg" by (simp add: fp_good_def)
  then have "saver_fine own s k (fp_see sg s)" by (simp add: saver_fine_def fp_see_def Let_def)
  then have "fp_good E own (saver_put k (Some (fp_see sg s)) s)" by (intro fp_good_saver [OF see_guard(8)]) simp
  then show ?case by blast
next
  case (read_guard k s sg limit g)
  then have "saver_fine own s k sg" by (simp add: fp_good_def)
  then have "fp_good E own (fp_read k limit g sg s)"
    unfolding fp_read_def by (intro fp_good_saver [OF read_guard(5)]) (auto simp: saver_fine_def split: sum.splits)
  then show ?case by blast
next
  case (enter k s sg fs)
  then show ?case using fp_good_enter by blast
next
  case (look_up i req s n)
  have "n < length (fp_boxes s)" by (rule fp_box_of_fine(1) [OF look_up(3,1)])
  then have "fp_good E own (fp_look_up n s)" using look_up(3) by (rule fp_good_look_up)
  then show ?case by blast
next
  case (pause n s)
  then have "n < length (fp_boxes s)" by (simp add: fp_good_def)
  then show ?case using fp_good_paused [OF pause(3)] by (auto simp: fp_pause_def)
next
  case (read_box n s)
  then have n: "n < length (fp_boxes s)" by (simp add: fp_good_def)
  obtain p where "snd (cb_snapshot E (rb_box (fp_boxes s ! n))) = (rb_box (fp_boxes s ! n))\<lparr>cb_paused := p\<rparr>"
    using snapshot_pauses by blast
  then have "snd (fp_snapshot E n s) = put_cbox n ((rb_box (fp_boxes s ! n))\<lparr>cb_paused := p\<rparr>) s"
    by (simp add: fp_snapshot_def split_def Let_def)
  then show ?case using fp_good_paused [OF read_box(3) n] by auto
next
  case (forget s i)
  then show ?case using fp_good_forget by blast
next
  case (collapse n s)
  then show ?case using fp_good_collapse by blast
next
  case (serve_box k s n nonce now addrs due t)
  have "fp_good E own t" by (rule fp_good_serve [OF serve_box(6) fp_in_hand [OF serve_box(5,1,2)] serve_box(3,4)])
  then show ?case by (intro exI) (erule fp_good_frame; simp)
next
  case (drop_box k s n nonce now addrs t)
  have "fp_good E own t" by (rule fp_good_serve [OF drop_box(6) fp_in_hand [OF drop_box(5,1,2)] drop_box(3,4)])
  then show ?case by (intro exI) (erule fp_good_frame; simp)
next
  case (take_box k s now n c)
  show ?case by (intro exI, rule fp_good_frame [OF take_box(5)]) simp_all
next
  case (rearm_box k s due n)
  show ?case by (intro exI, rule fp_good_frame [OF rearm_box(4)]) simp_all
qed

section \<open>What is dropped\<close>

lemma fp_serve_box_group: "serve_box E now nonce addrs rb wd None = (again, rb', wd', grp') \<Longrightarrow> grp' = None"
  by (auto simp: serve_box_def ask_group_def Let_def split: prod.splits option.splits sum.splits if_splits)

lemma make_box_group: "sv_group s = None \<Longrightarrow> make_box E fs D pc s = (r, s') \<Longrightarrow> sv_group s' = None"
  by (auto simp: make_box_def ask_group_def Let_def split: piece.splits if_splits)

lemma fp_group_none:
  assumes "fp_step E s t" "fp_group s = None"
  shows "fp_group t = None"
  using assms
proof (induction rule: fp_step.induct)
  case (make_box k s sg D fs now)
  then show ?case
    using make_box_group [of "fp_view s"] by (auto simp: fp_make_def Let_def saver_put_def fp_view_def split: prod.splits sum.splits)
next
  case (serve_box k s n nonce now addrs due t)
  then show ?case using fp_serve_box_group by (auto simp: fp_serve_def Let_def split: prod.splits)
next
  case (drop_box k s n nonce now addrs t)
  then show ?case using fp_serve_box_group by (auto simp: fp_serve_def Let_def split: prod.splits)
next
  case (enter k s sg fs)
  then show ?case by (auto simp: fp_enter_def saver_put_def Let_def split: prod.splits sum.splits)
qed (simp_all add: fp_defs fp_retrieve_def split_def Let_def split: option.splits sum.splits)

text \<open>No step makes a removed box fall again.\<close>

abbreviation fp_removed :: "fallpool \<Rightarrow> nat \<Rightarrow> bool" where
  "fp_removed s n \<equiv> cb_removed (rb_box (fp_boxes s ! n))"

lemma snapshot_removed: "cb_removed (snd (cb_snapshot E b)) = cb_removed b"
  by (simp add: cb_snapshot_def Let_def split: sum.splits)

lemma fp_serve_removed:
  assumes "fp_serve E now nonce addrs m s = (again, t)" "n < length (fp_boxes s)"
  shows "fp_removed t n = fp_removed s n \<and> length (fp_boxes t) = length (fp_boxes s) \<and> fp_dropped t = fp_dropped s"
  using assms serve_box_removed by (cases "m = n") (fastforce simp: fp_serve_def Let_def split: prod.splits)+

lemma fp_removed_stays:
  assumes "fp_step E s t" "n < length (fp_boxes s)" "fp_removed s n"
  shows "fp_removed t n"
  using assms
proof (induction rule: fp_step.induct)
  case (make_box k s sg D fs now)
  then show ?case
    by (auto simp: fp_make_def Let_def saver_put_def nth_append split: prod.splits sum.splits)
next
  case (serve_box k s m nonce now addrs due t)
  then show ?case using fp_serve_removed [OF serve_box(4,5)] by simp
next
  case (drop_box k s m nonce now addrs t)
  then show ?case using fp_serve_removed [OF drop_box(4,5)] by simp
next
  case (enter k s sg fs)
  then show ?case by (auto simp: fp_enter_def saver_put_def Let_def split: prod.splits sum.splits)
next
  case (read_box m s)
  then show ?case
    using snapshot_removed by (cases "m = n") (simp_all add: fp_snapshot_def put_cbox_def split_def Let_def)
next
  case (collapse m s)
  then show ?case by (cases "m = n") (simp_all add: fp_collapse_def put_cbox_def cb_collapse_def)
next
  case (pause m s)
  then show ?case by (cases "m = n") (simp_all add: fp_pause_def put_cbox_def)
qed (simp_all add: fp_begin_def saver_put_def fp_read_def fp_forget_def fp_look_up_def split: option.splits)

text \<open>Without a trust group only removed boxes are dropped.\<close>

definition drops_ok :: "fallpool \<Rightarrow> bool" where
  "drops_ok s \<longleftrightarrow> fp_group s = None \<and> (\<forall>n \<in> set (fp_dropped s). n < length (fp_boxes s) \<and> fp_removed s n)"

lemma fp_boxes_grow: "fp_step E s t \<Longrightarrow> length (fp_boxes s) \<le> length (fp_boxes t)"
proof (induction rule: fp_step.induct)
  case (make_box k s sg D fs now)
  then show ?case by (auto simp: fp_make_def Let_def saver_put_def split: prod.splits sum.splits)
next
  case (enter k s sg fs)
  then show ?case by (auto simp: fp_enter_def saver_put_def Let_def split: prod.splits sum.splits)
qed (auto simp: fp_defs fp_retrieve_def split_def Let_def split: option.splits sum.splits prod.splits)

lemma fp_step_dropped:
  assumes "fp_step E s t" "fp_good E own s" "sched_inv (fp_pool s)" "fp_group s = None"
  shows "\<forall>n \<in> set (fp_dropped t). n \<in> set (fp_dropped s) \<or> n < length (fp_boxes s) \<and> fp_removed s n"
  using assms
proof (induction rule: fp_step.induct)
  case (make_box k s sg D fs now)
  then show ?case by (auto simp: fp_make_def Let_def saver_put_def split: prod.splits sum.splits)
next
  case (enter k s sg fs)
  then show ?case by (auto simp: fp_enter_def saver_put_def Let_def split: prod.splits sum.splits)
next
  case (drop_box k s n nonce now addrs t)
  have n: "n < length (fp_boxes s)" by (rule fp_in_hand [OF drop_box(6,1,2)])
  obtain rb wd' g' where r: "serve_box E now nonce addrs (fp_boxes s ! n) (fp_watchdog s) None = (None, rb, wd', g')"
    using drop_box(4,7) by (auto simp: fp_serve_def Let_def split: prod.splits)
  have "box_fine E (own n) (fp_watchdog s) (fp_boxes s ! n) (fp_data s ! n)" "\<forall>w. fp_watchdog s = Some w \<longrightarrow> wd_ok w"
    using drop_box(5) n by (simp_all add: fp_good_def)
  then have "fp_removed s n" using serve_box_again [OF _ _ drop_box(3) r] by (auto simp: box_fine_def split: if_splits)
  then show ?case using n fp_serve_removed [OF drop_box(4) n] by auto
qed (auto simp: fp_defs fp_retrieve_def split_def Let_def split: option.splits sum.splits prod.splits)

lemma fp_reach_good:
  assumes "env_ok E" "\<forall>w. wd = Some w \<longrightarrow> wd_ok w" "fp_reach E n m wd grp s"
  shows "(\<exists>own. fp_good E own s) \<and> (grp = None \<longrightarrow> drops_ok s)"
  using assms(3)
proof (induction rule: fp_reach.induct)
  case fp_start
  then show ?case using fp_good_init [OF assms(2)] by (auto simp: drops_ok_def fp_init_def)
next
  case (fp_next s t)
  note inv = fp_pool_inv [OF fp_next(1)]
  obtain own where own: "fp_good E own s" using fp_next by blast
  have "drops_ok t" if "drops_ok s"
    using that fp_step_dropped [OF fp_next(2) own inv] fp_group_none [OF fp_next(2)] fp_removed_stays [OF fp_next(2)]
      fp_boxes_grow [OF fp_next(2)] by (fastforce simp: drops_ok_def)
  then show ?case using fp_step_good [OF assms(1) fp_next(2) inv own] fp_next by blast
qed

section \<open>Retrieving\<close>

text \<open>A retrieval gives what \<open>SecureSystem\<close> gives for the store with the boxes in their entries.\<close>

lemma fp_retrieve_view: "fst (fp_retrieve E i req s) = fst (sv_retrieve E i req (fp_view s))"
  by (auto simp: fp_retrieve_def fp_snapshot_def sv_retrieve_def the_box_def fp_box_of_def fp_view_def fheld_view_def
      split_def Let_def split: option.splits request.splits)

lemma fp_retrieve_data:
  assumes "fp_good E own s" "dict_get (fp_held s) i = Some h" "dict_get (fh_boxes h) w = Some n"
  shows "fst (fp_retrieve E i (Part w) s) = Inr (fp_data s ! n)"
    and "n < length (fp_boxes s)" "\<not> fp_removed s n" "sr_piece (fh_split h) w = Bytes d \<Longrightarrow> fp_data s ! n = d"
proof -
  have "held_fine own s i h" using assms(1,2) by (simp add: fp_good_def)
  then have n: "n < length (fp_boxes s)" "own n = Of_File i" "sr_piece (fh_split h) w = Bytes d \<Longrightarrow> fp_data s ! n = d" for d
    using assms(3) by (simp_all add: held_fine_def)
  have live: "own n \<noteq> Gone" using n(2) by simp
  show "n < length (fp_boxes s)" "sr_piece (fh_split h) w = Bytes d \<Longrightarrow> fp_data s ! n = d" using n by simp_all
  show "\<not> fp_removed s n" using fp_good_live(3) [OF assms(1) n(1) live] by (auto simp: cb_ok_def cb_rep_def)
  show "fst (fp_retrieve E i (Part w) s) = Inr (fp_data s ! n)"
    using fp_good_live(2) [OF assms(1) n(1) live] assms(2,3)
    by (simp add: fp_retrieve_def fp_box_of_def fp_snapshot_def split_def Let_def rbox_data_def)
qed

section \<open>Properties\<close>

text \<open>
  Property C4. The whole store keeps its files while it moves: whatever threads save, retrieve and forget, in whatever
  order the workers serve the boxes, also boxes whose file is still being saved, and whatever the trust group does,
  retrieving any piece of any file that is held gives the bytes its box was made from, for a piece in memory the bytes
  that were saved; a retrieval that looked its box up earlier gets those bytes too, or ValueError if the box has been
  collapsed since, and never anything else; and in a store without a trust group the box of that piece never stops
  falling: it is in the heap or in one worker's hands, once.
\<close>

theorem fall_pool_keeps_files:
  assumes "env_ok E" "\<forall>w. wd = Some w \<longrightarrow> wd_ok w" "fp_reach E workers clients wd grp s"
    and "dict_get (fp_held s) i = Some h" "dict_get (fh_boxes h) w = Some n"
  shows "fst (fp_retrieve E i (Part w) s) = Inr (fp_data s ! n) \<and>
    (\<forall>d. sr_piece (fh_split h) w = Bytes d \<longrightarrow> fst (fp_retrieve E i (Part w) s) = Inr d) \<and>
    (\<forall>m \<in> set (fp_readers s). fst (fp_snapshot E m s) = (if fp_removed s m then Inl ValueError else Inr (fp_data s ! m))) \<and>
    (grp = None \<longrightarrow>
       count (mset (map entry_item (sc_heap (fp_sched s))) + mset (concat (map in_hand (fp_workers s)))) n = 1)"
proof -
  obtain own where own: "fp_good E own s" and drops: "grp = None \<longrightarrow> drops_ok s"
    using fp_reach_good [OF assms(1-3)] by blast
  note data = fp_retrieve_data [OF own assms(4,5)]
  have "n \<notin> set (fp_dropped s)" if "grp = None" using that drops data(3) by (auto simp: drops_ok_def)
  moreover have "fst (fp_snapshot E m s) = (if fp_removed s m then Inl ValueError else Inr (fp_data s ! m))"
    if "m \<in> set (fp_readers s)" for m
    using fp_late_read [OF own, of m] own that by (simp add: fp_good_def)
  ultimately show ?thesis using data fp_places [OF fp_pool_inv [OF assms(3)] data(2)] by simp
qed

text \<open>A run in which one thread has saved three bytes.\<close>

definition demo_split :: split_result where
  "demo_split = \<lparr>sr_content = Bytes [1, 2, 3], sr_structure = Bytes [4], sr_metadata = [5], sr_reconstruct_from = Content\<rparr>"

definition saver_at :: "nat \<Rightarrow> saving \<Rightarrow> nat \<Rightarrow> fallpool \<Rightarrow> bool" where
  "saver_at k sg n s \<longleftrightarrow> k < length (fp_savers s) \<and> fp_savers s ! k = Some sg \<and> fp_group s = None \<and> fp_watchdog s = None \<and>
     length (fp_boxes s) = n"

lemma fp_make_bytes:
  assumes "env_ok E" "draws_ok D" "fp_reach E a b wd grp s" "saver_at k sg n s" "length (sg_boxes sg) < 3"
    and "sr_piece (sg_split sg) (hold_order ! length (sg_boxes sg)) = Bytes d"
  shows "\<exists>t. fp_reach E a b wd grp t \<and> saver_at k (sg\<lparr>sg_boxes := sg_boxes sg @ [n]\<rparr>) (Suc n) t"
proof -
  let ?fs = "\<lambda>_. None"
  note at = assms(4) [unfolded saver_at_def]
  have g: "sv_group (fp_view s) = None" "resolve ?fs (Bytes d) = Some d" using at by (simp_all add: fp_view_def resolve_def)
  obtain r g where r: "make_box E ?fs D (Bytes d) (fp_view s) = (r, (fp_view s)\<lparr>sv_group := g\<rparr>)"
    "\<And>data. resolve ?fs (Bytes d) = Some data \<Longrightarrow> sv_group (fp_view s) = None \<Longrightarrow> (\<exists>rb. r = Inr rb) \<and> g = None"
    by (rule make_box_ok [OF assms(1,2), of ?fs "Bytes d" "fp_view s"]) blast
  from r(2) [OF g(2,1)] obtain rb where rb: "r = Inr rb" "g = None" by blast
  have "fp_reach E a b wd grp (fp_make E ?fs D 0 k sg s)"
    using at by (intro fp_next [OF assms(3)] make_box assms(2,5)) simp_all
  moreover have "saver_at k (sg\<lparr>sg_boxes := sg_boxes sg @ [n]\<rparr>) (Suc n) (fp_make E ?fs D 0 k sg s)"
    using at by (simp add: fp_make_def assms(6) r(1) rb Let_def saver_put_def saver_at_def)
  ultimately show ?thesis by blast
qed

theorem fall_pool_keeps_files_witness:
  "\<exists>s. fp_reach demo_env 2 1 None None s \<and> dict_get (fp_held s) ''a'' \<noteq> None \<and>
     fst (fp_retrieve demo_env ''a'' (Part Content) s) = Inr [1, 2, 3]"
proof -
  let ?R = "fp_reach demo_env 2 1 None None"
  note next_box = fp_make_bytes [OF demo_env_ok demo_draws_ok]
  note simps = demo_split_def sr_piece_def hold_order_def
  let ?x = "\<lambda>ns. \<lparr>sg_id = ''a'', sg_split = demo_split, sg_name = ''f'', sg_boxes = ns, sg_reads = 0, sg_seen = None, sg_regions = []\<rparr>"
  have "?R (fp_begin 0 ''a'' demo_split ''f'' (fp_init 2 1 None None))"
    by (rule fp_next [OF fp_start begin_save]) (simp_all add: fp_init_def)
  moreover have "saver_at 0 (?x []) 0 (fp_begin 0 ''a'' demo_split ''f'' (fp_init 2 1 None None))"
    by (simp add: fp_begin_def fp_init_def saver_put_def saver_at_def)
  ultimately obtain s1 where s1: "?R s1" "saver_at 0 (?x [0]) 1 s1"
    using next_box [of 2 1 None None _ 0 "?x []" 0 "[1, 2, 3]"] by (auto simp: simps)
  obtain s2 where s2: "?R s2" "saver_at 0 (?x [0, 1]) 2 s2"
    using next_box [OF s1, of "[4]"] by (auto simp: simps numeral_2_eq_2)
  obtain s3 where s3: "?R s3" "saver_at 0 (?x [0, 1, 2]) 3 s3"
    using next_box [OF s2, of "[5]"] by (auto simp: simps numeral_3_eq_3)
  let ?s = "fp_enter (\<lambda>_. None) 0 (?x [0, 1, 2]) s3"
  have order: "dict_get (zip hold_order [0, Suc 0, 2]) Content = Some 0" by (simp add: hold_order_def dict_get_def)
  have s: "?R ?s" using s3(2) by (intro fp_next [OF s3(1) enter]) (simp_all add: saver_at_def)
  obtain h where h: "dict_get (fp_held ?s) ''a'' = Some h" "dict_get (fh_boxes h) Content = Some 0" "fh_split h = demo_split"
    using s3(2) order by (simp add: saver_at_def fp_enter_def saver_put_def demo_split_def piece_size_def Let_def)
  have "sr_piece (fh_split h) Content = Bytes [1, 2, 3]" by (simp add: h(3) demo_split_def sr_piece_def)
  then have "fst (fp_retrieve demo_env ''a'' (Part Content) ?s) = Inr [1, 2, 3]"
    using fall_pool_keeps_files [OF demo_env_ok _ s h(1,2)] by blast
  then show ?thesis using s h(1) by blast
qed

lemma rotation_due_asks:
  assumes "cb_ok E data s" "length nonce = NONCE_LEN" "rotation_due s"
  shows "cb_asks E nonce s"
proof -
  obtain kc kn ps where rep: "env_ok E" "cb_rep E s kc kn ps" using assms(1) by (auto simp: cb_ok_def)
  obtain t where "cb_hop E nonce (Some (Inl KeyError)) id s = (Inl KeyError, t, None)"
    by (rule cb_hop_moves [OF rep assms(2), of "Some (Inl KeyError)" id]) (simp add: assms(3) next_key_def Let_def)
  then show ?thesis
    using cb_hop_succeeds [OF assms(1,2), of id] by (auto simp: cb_hop_def cb_asks_def Let_def split: sum.splits if_splits)
qed


text \<open>Three boxes of one chunk each, the second of which a worker has in hand while the save reads its guards.\<close>

definition demo_saving :: saving where
  "demo_saving = \<lparr>sg_id = ''a'', sg_split = demo_split, sg_name = ''f'', sg_boxes = [0, 1, 2], sg_reads = 2, sg_seen = None, sg_regions = []\<rparr>"

definition demo_busy :: fallpool where
  "demo_busy = (fp_init 2 1 (Some (wd_new True)) None)\<lparr>fp_boxes := replicate 3 \<lparr>rb_box = demo_single, rb_slot = None\<rparr>,
     fp_turns := replicate 3 0, fp_savers := [Some demo_saving], fp_workers := [W_Popped 1, W_Idle]\<rparr>"


end
