(* ===== verification/FlowPrograms.thy ===== *)
theory FlowPrograms
  imports XorShares
begin

text \<open>
  The programs in C that the scripts of \<open>backup-original-source/vstorage\<close> write out, compile and run: files that
  flow through small boxes (\<open>box_relay.py\<close>, \<open>generate_on_demand.py\<close>, \<open>real_data_box.py\<close>, \<open>breaking_boxes.py\<close>,
  \<open>compress_plus_boxes.py\<close>), pieces and files that move between boxes (\<open>raw_fall_test.py\<close>, \<open>nested_boxes_real.py\<close>,
  \<open>retrievable_test.py\<close>) and XOR shares (\<open>xor_test.py\<close>). \<open>unsigned long\<close> has 64 bits and \<open>char\<close> is signed, as with
  gcc on x86-64 Linux; sizes and positions, which are \<open>long\<close>, stay below 2 to the 63. Reads and writes of a memory
  file or of \<open>/dev/urandom\<close> are complete, and what \<open>malloc\<close> leaves in a box is an argument.
\<close>

section \<open>The loop they share\<close>

text \<open>
  \<open>while(pos<size){ long n=(size-pos)<BOX?(size-pos):BOX; ...; pos+=n; }\<close>; with boxes of no bytes it would never
  end, so \<open>box\<close> is the positive constant of each program.
\<close>

function piecewise :: "nat \<Rightarrow> nat \<Rightarrow> (nat \<Rightarrow> nat \<Rightarrow> 's \<Rightarrow> 's) \<Rightarrow> nat \<Rightarrow> 's \<Rightarrow> 's" where
  "piecewise box sz body pos s =
     (if sz \<le> pos \<or> box = 0 then s
      else (let n = (if sz - pos < box then sz - pos else box) in piecewise box sz body (pos + n) (body pos n s)))"
  by pat_completeness auto
termination by (relation "measure (\<lambda>(box, sz, body, pos, s). sz - pos)") auto

declare piecewise.simps [simp del]

text \<open>What the body keeps from one position to the next holds at the end.\<close>

lemma piecewise_inv:
  assumes "0 < box" "P pos s" "pos \<le> sz"
    and step: "\<And>pos n s. P pos s \<Longrightarrow> 0 < n \<Longrightarrow> n \<le> box \<Longrightarrow> pos + n \<le> sz \<Longrightarrow> P (pos + n) (body pos n s)"
  shows "P sz (piecewise box sz body pos s)"
  using assms(2,3)
proof (induction "sz - pos" arbitrary: pos s rule: less_induct)
  case less
  show ?case
  proof (cases "sz = pos")
    case True
    then show ?thesis using less.prems by (simp add: piecewise.simps)
  next
    case False
    let ?n = "if sz - pos < box then sz - pos else box"
    have n: "0 < ?n" "?n \<le> box" "pos + ?n \<le> sz" using False less.prems(2) assms(1) by auto
    have "P sz (piecewise box sz body (pos + ?n) (body pos ?n s))"
      using n less.prems by (intro less.hyps step) auto
    then show ?thesis using False less.prems(2) assms(1) by (subst piecewise.simps) (simp add: Let_def)
  qed
qed

text \<open>\<open>memcpy\<close> and the calls that fill a buffer: \<open>ys\<close> is put at \<open>off\<close>, the rest stays.\<close>

definition poke :: "nat \<Rightarrow> bytes \<Rightarrow> bytes \<Rightarrow> bytes" where
  "poke off ys xs = take off xs @ ys @ drop (off + length ys) xs"

lemma length_poke: "off + length ys \<le> length xs \<Longrightarrow> length (poke off ys xs) = length xs"
  by (simp add: poke_def)

lemma poke_whole: "length ys = length xs \<Longrightarrow> poke 0 ys xs = ys"
  by (simp add: poke_def)

lemma take_poke: "n \<le> length ys \<Longrightarrow> take n (poke 0 ys xs) = take n ys"
  by (simp add: poke_def)

text \<open>Copying the next \<open>n\<close> bytes of \<open>d\<close> behind what has been copied.\<close>

lemma poke_next:
  assumes "take pos x = take pos d" "length x = length d" "pos + n \<le> length d"
  shows "take (pos + n) (poke pos (take n (drop pos d)) x) = take (pos + n) d"
  using assms by (simp add: poke_def take_add)

lemma poke_same: "off + length ys \<le> length xs \<Longrightarrow> take (length ys) (drop off xs) = ys \<Longrightarrow> poke off ys xs = xs"
  by (metis append_take_drop_id drop_drop poke_def add.commute)

section \<open>box_relay.py: a file flows between two memory files\<close>

definition RELAY_BOX :: nat where
  "RELAY_BOX = 1024 * 1024"

record relay =
  rl_src :: bytes
  rl_dst :: bytes
  rl_in :: nat
  rl_out :: nat
  rl_box :: bytes

definition relay_piece :: "nat \<Rightarrow> nat \<Rightarrow> relay \<Rightarrow> relay" where
  "relay_piece pos n r =
     (let b = poke 0 (take n (drop (rl_in r) (rl_src r))) (rl_box r)
      in r\<lparr>rl_in := rl_in r + n, rl_box := b, rl_dst := poke (rl_out r) (take n b) (rl_dst r), rl_out := rl_out r + n\<rparr>)"

text \<open>One turn of \<open>while(1)\<close>, which ends with the swap of the two descriptors.\<close>

definition relay_pass :: "nat \<Rightarrow> relay \<Rightarrow> relay" where
  "relay_pass sz r =
     (let r1 = piecewise RELAY_BOX sz relay_piece 0 (r\<lparr>rl_in := 0, rl_out := 0\<rparr>)
      in r1\<lparr>rl_src := rl_dst r1, rl_dst := rl_src r1, rl_in := rl_out r1, rl_out := rl_in r1\<rparr>)"

lemma relay_pass_swaps:
  assumes "length (rl_src r) = sz" "length (rl_dst r) = sz" "length (rl_box r) = RELAY_BOX"
  shows "rl_src (relay_pass sz r) = rl_src r \<and> rl_dst (relay_pass sz r) = rl_src r \<and>
    length (rl_box (relay_pass sz r)) = RELAY_BOX"
proof -
  let ?P = "\<lambda>pos (x :: relay). rl_src x = rl_src r \<and> rl_in x = pos \<and> rl_out x = pos \<and> length (rl_dst x) = sz \<and>
    take pos (rl_dst x) = take pos (rl_src r) \<and> length (rl_box x) = RELAY_BOX"
  have "?P sz (piecewise RELAY_BOX sz relay_piece 0 (r\<lparr>rl_in := 0, rl_out := 0\<rparr>))"
  proof (rule piecewise_inv [where P = ?P])
    fix pos n x assume "?P pos x" "0 < n" "n \<le> RELAY_BOX" "pos + n \<le> sz"
    then show "?P (pos + n) (relay_piece pos n x)"
      using assms(1) poke_next [of pos "rl_dst x" "rl_src r" n] by (simp add: relay_piece_def Let_def length_poke take_poke)
  qed (simp_all add: assms RELAY_BOX_def)
  then show ?thesis using assms by (simp add: relay_pass_def Let_def) (metis order_refl take_all)
qed

section \<open>generate_on_demand.py: a file made from a formula\<close>

type_synonym ulong = "64 word"

definition GEN_BOX :: nat where
  "GEN_BOX = 1024 * 1024"

definition gen_byte :: "ulong \<Rightarrow> ulong \<Rightarrow> byte" where
  "gen_byte seed pos =
     (let x = seed XOR (pos * 2654435761);
          x = x XOR drop_bit 13 x;
          x = x * 0x9E3779B1;
          x = x XOR drop_bit 16 x
      in ucast x)"

text \<open>\<open>h = ((h<<5)+h) + c\<close>.\<close>

definition djb :: "ulong \<Rightarrow> ulong \<Rightarrow> ulong" where
  "djb h c = (push_bit 5 h + h) + c"

definition gen_checksum :: "ulong \<Rightarrow> nat \<Rightarrow> ulong" where
  "gen_checksum seed sz = fold (\<lambda>i h. djb h (ucast (gen_byte seed (of_nat i)))) [0..<sz] 5381"

text \<open>The box is \<open>char*\<close>: adding \<open>box[j]\<close> to an \<open>unsigned long\<close> extends its sign.\<close>

definition gen_piece :: "ulong \<Rightarrow> nat \<Rightarrow> nat \<Rightarrow> bytes \<times> ulong \<Rightarrow> bytes \<times> ulong" where
  "gen_piece seed pos n s =
     (let (box, verify) = s;
          box = poke 0 (map (\<lambda>j. gen_byte seed (of_nat (pos + j))) [0..<n]) box
      in (box, fold (\<lambda>j v. djb v (scast (box ! j))) [0..<n] verify))"

text \<open>One turn of \<open>while(1)\<close>: whether \<open>MISMATCH\<close> is printed, and the box.\<close>

definition gen_round :: "ulong \<Rightarrow> nat \<Rightarrow> bytes \<Rightarrow> bool \<times> bytes" where
  "gen_round seed sz box =
     (let (box', verify) = piecewise GEN_BOX sz (gen_piece seed) 0 (box, 5381) in (verify \<noteq> gen_checksum seed sz, box'))"

lemma djb_mult: "djb h c = 33 * h + c"
  by (simp add: djb_def push_bit_eq_mult algebra_simps)

lemma scast_byte: "(scast (b :: byte) :: ulong) = ucast b - (if bit b 7 then 256 else 0)"
proof -
  have "sint b = take_bit 8 (uint b) - (if bit b 7 then 256 else 0)"
    by (simp add: sint_uint bit_uint_iff signed_take_bit_eq_take_bit_minus)
  moreover have "take_bit 8 (uint b) = uint b" by (rule bintr_uint) simp
  ultimately have "sint b = uint b - (if bit b 7 then 256 else 0)" by (simp only:)
  then show ?thesis by (simp only: scast_eq ucast_eq) simp
qed

text \<open>Adding smaller characters: what the hash falls behind.\<close>

lemma djb_behind:
  "fold (\<lambda>i h. djb h (c i)) [0..<n] x - fold (\<lambda>i h. djb h (c i - d i)) [0..<n] x = (\<Sum>i<n. 33 ^ (n - 1 - i) * d i)"
proof (induction n)
  case (Suc n)
  let ?h = "fold (\<lambda>i h. djb h (c i)) [0..<n] x" and ?g = "fold (\<lambda>i h. djb h (c i - d i)) [0..<n] x"
  have up: "33 ^ (n - i) * d i = 33 * (33 ^ (n - 1 - i) * d i)" if "i < n" for i
  proof -
    have "n - i = Suc (n - 1 - i)" using that by simp
    then show ?thesis by (simp only: power_Suc mult.assoc)
  qed
  have "(\<Sum>i<n. 33 ^ (n - i) * d i) = (\<Sum>i<n. 33 * (33 ^ (n - 1 - i) * d i))" by (rule sum.cong) (simp_all only: up lessThan_iff)
  then have "(\<Sum>i<Suc n. 33 ^ (Suc n - 1 - i) * d i) = (\<Sum>i<n. 33 * (33 ^ (n - 1 - i) * d i)) + d n" by simp
  also have "\<dots> = 33 * (?h - ?g) + d n" by (simp only: Suc flip: sum_distrib_left)
  also have "\<dots> = djb ?h (c n) - djb ?g (c n - d n)" unfolding djb_mult by (simp only: algebra_simps)
  finally show ?case by simp
qed simp

lemma gen_piece_verify:
  "snd (gen_piece seed pos n x) = fold (\<lambda>i v. djb v (scast (gen_byte seed (of_nat i)))) [pos..<pos + n] (snd x)"
proof -
  let ?b = "poke 0 (map (\<lambda>j. gen_byte seed (of_nat (pos + j))) [0..<n]) (fst x)"
  have b: "\<forall>j \<in> set [0..<n]. ?b ! j = gen_byte seed (of_nat (pos + j))" by (simp add: poke_def nth_append)
  have upt: "[pos..<pos + n] = map (\<lambda>j. pos + j) [0..<n]" by (rule nth_equalityI) simp_all
  have "snd (gen_piece seed pos n x) = fold (\<lambda>j v. djb v (scast (?b ! j))) [0..<n] (snd x)"
    by (simp add: gen_piece_def split_def Let_def)
  also have "\<dots> = fold (\<lambda>j v. djb v (scast (gen_byte seed (of_nat (pos + j))))) [0..<n] (snd x)"
    by (rule fold_cong) (use b in auto)
  finally show ?thesis unfolding upt fold_map comp_def .
qed

lemma gen_round_verify:
  assumes "length box = GEN_BOX"
  shows "snd (piecewise GEN_BOX sz (gen_piece seed) 0 (box, 5381)) =
    fold (\<lambda>i v. djb v (scast (gen_byte seed (of_nat i)))) [0..<sz] 5381"
proof -
  let ?P = "\<lambda>pos (x :: bytes \<times> ulong). length (fst x) = GEN_BOX \<and>
    snd x = fold (\<lambda>i v. djb v (scast (gen_byte seed (of_nat i)))) [0..<pos] 5381"
  have "?P sz (piecewise GEN_BOX sz (gen_piece seed) 0 (box, 5381))"
  proof (rule piecewise_inv [where P = ?P])
    fix pos n x assume x: "?P pos x" "n \<le> GEN_BOX"
    have "length (fst (gen_piece seed pos n x)) = GEN_BOX"
      using x by (simp add: gen_piece_def split_def Let_def length_poke)
    then show "?P (pos + n) (gen_piece seed pos n x)"
      using x(1) upt_add_eq_append [of 0 pos n] by (simp add: gen_piece_verify)
  qed (simp_all add: assms GEN_BOX_def)
  then show ?thesis by blast
qed

text \<open>
  Property C39. The check of \<open>generate_on_demand.py\<close> compares sums of unlike characters: the checksum is taken of unsigned
  ones, the sum in the loop of the signed ones of the box. So \<open>MISMATCH\<close> is printed for a file that is generated right,
  as soon as the powers of 33 that belong to its bytes from 128 on do not add up to a multiple of 2 to the 56.
\<close>

theorem generated_file_mismatch:
  assumes "length box = GEN_BOX"
  shows "fst (gen_round seed sz box) \<longleftrightarrow>
    256 * (\<Sum>i < sz. (if bit (gen_byte seed (of_nat i)) 7 then 33 ^ (sz - 1 - i) else (0 :: ulong))) \<noteq> 0"
proof -
  let ?c = "\<lambda>i. ucast (gen_byte seed (of_nat i)) :: ulong" and ?d = "\<lambda>i. (if bit (gen_byte seed (of_nat i)) 7 then 256 else (0 :: ulong))"
  have "snd (piecewise GEN_BOX sz (gen_piece seed) 0 (box, 5381)) = fold (\<lambda>i h. djb h (?c i - ?d i)) [0..<sz] 5381"
    unfolding gen_round_verify [OF assms] scast_byte ..
  then have "gen_checksum seed sz - snd (piecewise GEN_BOX sz (gen_piece seed) 0 (box, 5381)) = (\<Sum>i < sz. 33 ^ (sz - 1 - i) * ?d i)"
    by (simp only: gen_checksum_def djb_behind)
  also have "\<dots> = 256 * (\<Sum>i < sz. (if bit (gen_byte seed (of_nat i)) 7 then 33 ^ (sz - 1 - i) else 0))"
    unfolding sum_distrib_left by (rule sum.cong) simp_all
  finally show ?thesis by (auto simp: gen_round_def split_def Let_def)
qed

text \<open>The script's own file begins with the bytes 75, 29, 48, 153: its first four bytes are reported.\<close>

theorem generated_file_mismatch_witness:
  "fst (gen_round 12345 4 (zeros GEN_BOX))"
proof -
  have b: "gen_byte 12345 0 = 75" "gen_byte 12345 1 = 29" "gen_byte 12345 2 = 48" "gen_byte 12345 3 = 153"
    by (simp_all add: gen_byte_def Let_def)
  have four: "{..<4 :: nat} = {0, 1, 2, 3}" by auto
  have "(\<Sum>i < 4. (if bit (gen_byte 12345 (of_nat i)) 7 then 33 ^ (4 - 1 - i) else (0 :: ulong))) = 1"
    unfolding four by (simp add: b)
  then show ?thesis using generated_file_mismatch [of "zeros GEN_BOX" 12345 4] by simp
qed

section \<open>real_data_box.py and breaking_boxes.py: data that only flows\<close>

text \<open>\<open>piece k\<close> is what the k-th \<open>fread\<close> of \<open>/dev/urandom\<close> gives, as many bytes as it was asked for.\<close>

definition real_BOX :: nat where
  "real_BOX = 1024 * 1024"

record realbox =
  rd_box :: bytes
  rd_checksum :: ulong
  rd_reads :: nat

text \<open>\<open>(unsigned char)box[j]\<close>.\<close>

definition real_piece :: "(nat \<Rightarrow> nat \<Rightarrow> bytes) \<Rightarrow> nat \<Rightarrow> nat \<Rightarrow> realbox \<Rightarrow> realbox" where
  "real_piece piece pos n s =
     (let box = poke 0 (piece (rd_reads s) n) (rd_box s)
      in s\<lparr>rd_box := box, rd_reads := rd_reads s + 1, rd_checksum := fold (\<lambda>j c. djb c (ucast (box ! j))) [0..<n] (rd_checksum s)\<rparr>)"

definition real_main :: "(nat \<Rightarrow> nat \<Rightarrow> bytes) \<Rightarrow> nat \<Rightarrow> bytes \<Rightarrow> realbox" where
  "real_main piece sz box = piecewise real_BOX sz (real_piece piece) 0 \<lparr>rd_box = box, rd_checksum = 5381, rd_reads = 0\<rparr>"

text \<open>Three boxes in turn; \<open>bb_run\<close> is one pass over the file, the body of \<open>while(1)\<close>.\<close>

definition BOXSZ :: nat where
  "BOXSZ = 1024 * 1024"

record breaking =
  bb_boxes :: "bytes list"
  bb_cur :: nat
  bb_total_flowed :: nat
  bb_reads :: nat

definition bb_start :: "bytes list \<Rightarrow> breaking" where
  "bb_start boxes = \<lparr>bb_boxes = boxes, bb_cur = 0, bb_total_flowed = 0, bb_reads = 0\<rparr>"

definition bb_piece :: "(nat \<Rightarrow> nat \<Rightarrow> bytes) \<Rightarrow> nat \<Rightarrow> nat \<Rightarrow> breaking \<Rightarrow> breaking" where
  "bb_piece piece pos n s =
     s\<lparr>bb_boxes := (bb_boxes s)[bb_cur s := poke 0 (piece (bb_reads s) n) (bb_boxes s ! bb_cur s)], bb_reads := bb_reads s + 1,
       bb_cur := (bb_cur s + 1) mod 3, bb_total_flowed := bb_total_flowed s + n\<rparr>"

definition bb_run :: "(nat \<Rightarrow> nat \<Rightarrow> bytes) \<Rightarrow> nat \<Rightarrow> breaking \<Rightarrow> breaking" where
  "bb_run piece file_size s = piecewise BOXSZ file_size (bb_piece piece) 0 s"

section \<open>compress_plus_boxes.py: a blob that boxes look at\<close>

definition COMP_BOXSZ :: nat where
  "COMP_BOXSZ = 65536"

record compfall =
  cf_blob :: bytes
  cf_box :: bytes
  cf_hops :: nat

text \<open>\<open>fresh k\<close> is what the k-th new box holds after \<open>malloc\<close>. The copy back has length 0.\<close>

definition cf_piece :: "(nat \<Rightarrow> bytes) \<Rightarrow> nat \<Rightarrow> nat \<Rightarrow> compfall \<Rightarrow> compfall" where
  "cf_piece fresh pos n s =
     (let box = poke 0 (take n (drop pos (cf_blob s))) (cf_box s);
          box = fresh (cf_hops s)
      in s\<lparr>cf_blob := poke pos (take 0 box) (cf_blob s), cf_box := box, cf_hops := cf_hops s + 1\<rparr>)"

definition cf_pass :: "(nat \<Rightarrow> bytes) \<Rightarrow> compfall \<Rightarrow> compfall" where
  "cf_pass fresh s = piecewise COMP_BOXSZ (length (cf_blob s)) (cf_piece fresh) 0 s"

section \<open>raw_fall_test.py: pieces that change boxes\<close>

definition RAW_BOX :: nat where
  "RAW_BOX = 65536"

text \<open>\<open>npieces\<close> buffers of one box each, the last one padded with zeros; \<open>fread\<close> reads on where it was.\<close>

definition raw_npieces :: "nat \<Rightarrow> nat" where
  "raw_npieces fsize = (fsize + RAW_BOX - 1) div RAW_BOX"

definition raw_load :: "bytes \<Rightarrow> nat \<Rightarrow> bytes" where
  "raw_load file i = (let b = take RAW_BOX (drop (i * RAW_BOX) file) in b @ zeros (RAW_BOX - length b))"

text \<open>Memory by address, the table of pieces, the spare box, and where the falling thread is.\<close>

datatype raw_pc = RF_Copy | RF_Swap | RF_Next

record rawfall =
  rf_mem :: "nat \<Rightarrow> bytes"
  rf_pieces :: "nat list"
  rf_newbox :: nat
  rf_old :: nat
  rf_i :: nat
  rf_hops :: nat
  rf_pc :: raw_pc

definition raw_start :: "bytes \<Rightarrow> nat \<Rightarrow> nat list \<Rightarrow> nat \<Rightarrow> (nat \<Rightarrow> bytes) \<Rightarrow> rawfall" where
  "raw_start file fsize addrs spare mem =
     \<lparr>rf_mem = fold (\<lambda>i m. m(addrs ! i := raw_load file i)) [0..<raw_npieces fsize] mem, rf_pieces = addrs, rf_newbox = spare,
      rf_old = spare, rf_i = 0, rf_hops = 0, rf_pc = RF_Copy\<rparr>"

text \<open>The three statements of the loop's body, and the step to the next piece.\<close>

definition raw_step :: "rawfall \<Rightarrow> rawfall" where
  "raw_step s =
     (if rf_pieces s = [] then s
      else (case rf_pc s of
        RF_Copy \<Rightarrow> s\<lparr>rf_mem := (rf_mem s)(rf_newbox s := rf_mem s (rf_pieces s ! rf_i s)), rf_pc := RF_Swap\<rparr>
      | RF_Swap \<Rightarrow> s\<lparr>rf_old := rf_pieces s ! rf_i s, rf_pieces := (rf_pieces s)[rf_i s := rf_newbox s], rf_pc := RF_Next\<rparr>
      | RF_Next \<Rightarrow> s\<lparr>rf_newbox := rf_old s, rf_hops := rf_hops s + 1, rf_i := (rf_i s + 1) mod length (rf_pieces s), rf_pc := RF_Copy\<rparr>))"

section \<open>nested_boxes_real.py: three boxes in turn\<close>

definition csum :: "bytes \<Rightarrow> ulong" where
  "csum d = fold (\<lambda>b h. djb h (ucast b)) d 5381"

record nestedbox =
  nr_boxes :: "bytes list"
  nr_inner :: nat

definition nr_start :: "bytes \<Rightarrow> nestedbox" where
  "nr_start file = \<lparr>nr_boxes = [zeros (length file), zeros (length file), file], nr_inner = 2\<rparr>"

text \<open>One turn of \<open>while(1)\<close>: whether \<open>LOST\<close> is printed, and the boxes.\<close>

definition nr_turn :: "ulong \<Rightarrow> nestedbox \<Rightarrow> bool \<times> nestedbox" where
  "nr_turn checksum s =
     (let container = (nr_inner s + 2) mod 3;
          s1 = s\<lparr>nr_boxes := (nr_boxes s)[container := poke 0 (nr_boxes s ! nr_inner s) (nr_boxes s ! container)], nr_inner := container\<rparr>
      in (csum (nr_boxes s1 ! nr_inner s1) \<noteq> checksum, s1))"

section \<open>retrievable_test.py: reading pieces that circulate\<close>

definition NPIECES :: nat where
  "NPIECES = 200"

text \<open>
  The circulating thread: \<open>memcpy\<close> of a piece into the box in turn, then back, byte by byte in some order, so that the
  other thread may read the piece at any moment in between.
\<close>

record circ =
  ct_storage :: "bytes list"
  ct_box :: "bytes list"
  ct_cur :: nat
  ct_p :: nat
  ct_left :: "nat set"
  ct_back :: bool

inductive circ_step :: "circ \<Rightarrow> circ \<Rightarrow> bool" where
  catch: "\<not> ct_back s \<Longrightarrow>
     circ_step s (s\<lparr>ct_box := (ct_box s)[ct_cur s := poke 0 (ct_storage s ! ct_p s) (ct_box s ! ct_cur s)],
       ct_left := {..<length (ct_storage s ! ct_p s)}, ct_back := True\<rparr>)"
| give_byte: "ct_back s \<Longrightarrow> j \<in> ct_left s \<Longrightarrow>
     circ_step s (s\<lparr>ct_storage := (ct_storage s)[ct_p s := (ct_storage s ! ct_p s)[j := ct_box s ! ct_cur s ! j]],
       ct_left := ct_left s - {j}\<rparr>)"
| turn: "ct_back s \<Longrightarrow> ct_left s = {} \<Longrightarrow>
     circ_step s (s\<lparr>ct_cur := (ct_cur s + 1) mod 3, ct_p := (ct_p s + 1) mod length (ct_storage s), ct_back := False\<rparr>)"

definition ct_start :: "bytes list \<Rightarrow> bytes list \<Rightarrow> circ" where
  "ct_start storage box = \<lparr>ct_storage = storage, ct_box = box, ct_cur = 0, ct_p = 0, ct_left = {}, ct_back = False\<rparr>"

text \<open>The main thread's check of piece 150.\<close>

definition ct_retrievable :: "ulong list \<Rightarrow> circ \<Rightarrow> bool" where
  "ct_retrievable piece_checksum s \<longleftrightarrow> csum (ct_storage s ! 150) = piece_checksum ! 150"

section \<open>xor_test.py: shares\<close>

text \<open>\<open>n - 1\<close> random shares, and the last one byte by byte; \<open>n\<close> is positive.\<close>

definition c_last_byte :: "bytes \<Rightarrow> bytes list \<Rightarrow> nat \<Rightarrow> byte" where
  "c_last_byte orig shares j = fold (\<lambda>s x. x XOR s ! j) shares (orig ! j)"

definition c_shares :: "(nat \<Rightarrow> nat \<Rightarrow> bytes) \<Rightarrow> bytes \<Rightarrow> nat \<Rightarrow> bytes list" where
  "c_shares urandom orig n =
     (let shares = map (urandom (length orig)) [0..<n - 1] in shares @ [map (c_last_byte orig shares) [0..<length orig]])"

section \<open>What the programs keep\<close>

text \<open>The file is in both memory files after every pass.\<close>

theorem relay_keeps_file:
  assumes "length (rl_src r) = sz" "length (rl_dst r) = sz" "length (rl_box r) = RELAY_BOX"
  shows "rl_src ((relay_pass sz ^^ k) r) = rl_src r \<and> (0 < k \<longrightarrow> rl_dst ((relay_pass sz ^^ k) r) = rl_src r)"
proof -
  have "rl_src ((relay_pass sz ^^ k) r) = rl_src r \<and> length (rl_dst ((relay_pass sz ^^ k) r)) = sz \<and>
    length (rl_box ((relay_pass sz ^^ k) r)) = RELAY_BOX \<and> (0 < k \<longrightarrow> rl_dst ((relay_pass sz ^^ k) r) = rl_src r)"
    using relay_pass_swaps [where sz = sz] assms by (induction k) simp_all
  then show ?thesis by blast
qed

text \<open>The checksum is that of all data, of which the box has the last piece only.\<close>

lemma fold_index: "fold (\<lambda>j c. f c (xs ! j)) [0..<n] x = fold (\<lambda>b c. f c b) (map ((!) xs) [0..<n]) x"
  by (simp add: fold_map comp_def)

lemma poke_front: "length ys = n \<Longrightarrow> map ((!) (poke 0 ys xs)) [0..<n] = ys"
  by (rule nth_equalityI) (simp_all add: poke_def nth_append)

lemma csum_append: "fold (\<lambda>b h. djb h (ucast b)) ys (csum xs) = csum (xs @ ys)"
  by (simp add: csum_def)

theorem real_data_is_summed_and_lost:
  assumes "\<And>k n. length (piece k n) = n" "length box = real_BOX"
  shows "\<exists>ns. rd_checksum (real_main piece sz box) = csum (concat (map2 piece [0..<length ns] ns)) \<and> sum_list ns = sz \<and>
    rd_reads (real_main piece sz box) = length ns \<and>
    (ns \<noteq> [] \<longrightarrow> take (last ns) (rd_box (real_main piece sz box)) = piece (length ns - 1) (last ns))"
proof -
  let ?P = "\<lambda>pos (s :: realbox). length (rd_box s) = real_BOX \<and> (\<exists>ns. rd_checksum s = csum (concat (map2 piece [0..<length ns] ns)) \<and>
    sum_list ns = pos \<and> rd_reads s = length ns \<and> (ns \<noteq> [] \<longrightarrow> take (last ns) (rd_box s) = piece (length ns - 1) (last ns)))"
  have "?P sz (real_main piece sz box)"
    unfolding real_main_def
  proof (rule piecewise_inv [where P = ?P])
    show "?P 0 \<lparr>rd_box = box, rd_checksum = 5381, rd_reads = 0\<rparr>"
      using assms(2) by (auto simp: csum_def intro!: exI [of _ "[]"])
  next
    fix pos n s assume "?P pos s" "n \<le> real_BOX"
    then obtain ns where ns: "length (rd_box s) = real_BOX" "n \<le> real_BOX" "sum_list ns = pos" "rd_reads s = length ns"
      "rd_checksum s = csum (concat (map2 piece [0..<length ns] ns))" by blast
    let ?y = "piece (length ns) n"
    have "fold (\<lambda>j c. djb c (ucast (poke 0 ?y (rd_box s) ! j))) [0..<n] (rd_checksum s) =
        csum (concat (map2 piece [0..<length ns] ns) @ ?y)"
      unfolding fold_index [where f = "\<lambda>c b. djb c (ucast b)"] poke_front [OF assms(1)] ns(5) csum_append ..
    then show "?P (pos + n) (real_piece piece pos n s)"
      using ns(1-4) assms(1) [of "length ns" n]
      by (intro conjI exI [of _ "ns @ [n]"]) (simp_all add: real_piece_def Let_def length_poke take_poke)
  qed (simp_all add: real_BOX_def)
  then show ?thesis by blast
qed

text \<open>Nothing of the blob goes through the boxes: it is never written, and no box holds any of it between two hops.\<close>

theorem blob_does_not_move:
  shows "cf_blob (cf_pass fresh s) = cf_blob s"
    and "cf_hops s < cf_hops (cf_pass fresh s) \<Longrightarrow> cf_box (cf_pass fresh s) = fresh (cf_hops (cf_pass fresh s) - 1)"
proof -
  let ?P = "\<lambda>pos (x :: compfall). cf_blob x = cf_blob s \<and> cf_hops s \<le> cf_hops x \<and> (cf_hops s < cf_hops x \<longrightarrow> cf_box x = fresh (cf_hops x - 1))"
  have "?P (length (cf_blob s)) (cf_pass fresh s)"
    unfolding cf_pass_def
    by (rule piecewise_inv [where P = ?P]) (simp_all add: COMP_BOXSZ_def cf_piece_def Let_def poke_def)
  then show "cf_blob (cf_pass fresh s) = cf_blob s"
    "cf_hops s < cf_hops (cf_pass fresh s) \<Longrightarrow> cf_box (cf_pass fresh s) = fresh (cf_hops (cf_pass fresh s) - 1)" by blast+
qed

text \<open>The file is never lost, and after two turns every box has it.\<close>

lemma nr_turn_keeps:
  assumes "length (nr_boxes s) = 3" "nr_inner s < 3" "\<forall>b \<in> set (nr_boxes s). length b = length data" "nr_boxes s ! nr_inner s = data"
  shows "nr_boxes (snd (nr_turn c s)) = (nr_boxes s)[(nr_inner s + 2) mod 3 := data] \<and> nr_inner (snd (nr_turn c s)) = (nr_inner s + 2) mod 3 \<and>
    (fst (nr_turn c s) \<longleftrightarrow> csum data \<noteq> c)"
proof -
  have "length (nr_boxes s ! ((nr_inner s + 2) mod 3)) = length data" using assms(1,3) by simp
  then show ?thesis using assms by (simp add: nr_turn_def Let_def poke_whole)
qed

theorem nested_file_never_lost:
  "let s = ((\<lambda>s. snd (nr_turn (csum data) s)) ^^ k) (nr_start data) in
     nr_boxes s ! nr_inner s = data \<and> \<not> fst (nr_turn (csum data) s)"
proof -
  let ?s = "((\<lambda>s. snd (nr_turn (csum data) s)) ^^ k) (nr_start data)"
  have "length (nr_boxes ?s) = 3 \<and> nr_inner ?s < 3 \<and> (\<forall>b \<in> set (nr_boxes ?s). length b = length data) \<and> nr_boxes ?s ! nr_inner ?s = data"
  proof (induction k)
    case (Suc k)
    let ?t = "((\<lambda>s. snd (nr_turn (csum data) s)) ^^ k) (nr_start data)"
    have IH: "length (nr_boxes ?t) = 3" "nr_inner ?t < 3" "\<forall>b \<in> set (nr_boxes ?t). length b = length data" "nr_boxes ?t ! nr_inner ?t = data"
      using Suc by blast+
    show ?case using nr_turn_keeps [OF IH, where c = "csum data"] IH set_update_subset_insert [of "nr_boxes ?t"] by (auto simp: Let_def)
  qed (simp add: nr_start_def)
  then show ?thesis using nr_turn_keeps [where s = ?s and data = data and c = "csum data"] by (simp add: Let_def)
qed

text \<open>Whenever the main thread reads, the storage is what it was.\<close>

theorem circulating_pieces_readable:
  assumes "rtranclp circ_step (ct_start storage box) s" "length box = 3" "storage \<noteq> []"
  shows "ct_storage s = storage \<and> (150 < length storage \<longrightarrow> ct_retrievable (map csum storage) s)"
proof -
  have "ct_storage s = storage \<and> ct_p s < length storage \<and> ct_cur s < 3 \<and> length (ct_box s) = 3 \<and>
    (ct_back s \<longrightarrow> ct_left s \<subseteq> {..<length (storage ! ct_p s)} \<and>
       take (length (storage ! ct_p s)) (ct_box s ! ct_cur s) = storage ! ct_p s)"
    using assms(1)
  proof (induction rule: rtranclp_induct)
    case base
    then show ?case using assms(2,3) by (simp add: ct_start_def)
  next
    case (step s t)
    show ?case
      using step(2,3)
    proof (induction rule: circ_step.induct)
      case (catch s)
      then show ?case by (simp add: take_poke)
    next
      case (give_byte s j)
      then have j: "j < length (storage ! ct_p s)" by auto
      have "ct_box s ! ct_cur s ! j = take (length (storage ! ct_p s)) (ct_box s ! ct_cur s) ! j" using j by simp
      then show ?case using give_byte by auto
    next
      case (turn s)
      then show ?case using assms(3) by simp
    qed
  qed
  then show ?thesis by (simp add: ct_retrievable_def)
qed

text \<open>The shares are those of the split on arrays in \<open>big_file_experiment.py\<close>.\<close>

theorem c_shares_are_numpy_shares:
  assumes "\<And>m j. length (urandom m j) = m"
  shows "c_shares urandom orig n = xor_split_numpy urandom orig n"
proof -
  have "foldl xor_arr orig ss = map (c_last_byte orig ss) [0..<length orig]" if "\<forall>s \<in> set ss. length s = length orig" for ss orig
    using that
  proof (induction ss arbitrary: orig)
    case Nil
    then show ?case by (simp add: c_last_byte_def map_nth)
  next
    case (Cons s ss)
    then show ?case by (auto simp: c_last_byte_def xor_arr_nth)
  qed
  then show ?thesis using assms by (simp add: c_shares_def xor_split_numpy_def Let_def)
qed

text \<open>The three boxes have the last three pieces; what flowed before is nowhere.\<close>

definition bb_has :: "(nat \<Rightarrow> nat \<Rightarrow> bytes) \<Rightarrow> nat list \<Rightarrow> breaking \<Rightarrow> bool" where
  "bb_has piece ns s \<longleftrightarrow> bb_reads s = length ns \<and> bb_cur s = length ns mod 3 \<and> bb_total_flowed s = sum_list ns \<and>
     length (bb_boxes s) = 3 \<and> (\<forall>b \<in> set (bb_boxes s). length b = BOXSZ) \<and>
     (\<forall>i < length ns. length ns \<le> i + 3 \<longrightarrow> take (ns ! i) (bb_boxes s ! (i mod 3)) = piece i (ns ! i))"

lemma bb_piece_has:
  assumes "\<And>k n. length (piece k n) = n" "bb_has piece ns s" "n \<le> BOXSZ"
  shows "bb_has piece (ns @ [n]) (bb_piece piece pos n s)"
proof -
  note has = assms(2) [unfolded bb_has_def]
  let ?m = "length ns" and ?t = "bb_piece piece pos n s"
  have b: "bb_boxes ?t = (bb_boxes s)[?m mod 3 := poke 0 (piece ?m n) (bb_boxes s ! (?m mod 3))]" "?m mod 3 < length (bb_boxes s)"
    using has by (simp_all add: bb_piece_def)
  have "take ((ns @ [n]) ! i) (bb_boxes ?t ! (i mod 3)) = piece i ((ns @ [n]) ! i)" if i: "i < Suc ?m" "Suc ?m \<le> i + 3" for i
  proof (cases "i = ?m")
    case True
    then show ?thesis using b assms(1) by (simp add: take_poke)
  next
    case False
    then have "i < ?m" "?m - i < 3" using i by auto
    moreover have "i mod 3 \<noteq> ?m mod 3"
    proof
      assume "i mod 3 = ?m mod 3"
      then have "3 dvd ?m - i" using \<open>i < ?m\<close> by (metis mod_eq_dvd_iff_nat less_imp_le)
      then show False using \<open>i < ?m\<close> \<open>?m - i < 3\<close> by (auto dest: dvd_imp_le)
    qed
    ultimately show ?thesis using b has by (simp add: nth_append)
  qed
  moreover have "length (poke 0 (piece ?m n) (bb_boxes s ! (?m mod 3))) = BOXSZ"
    using has assms(1,3) b(2) by (simp add: length_poke)
  then have "\<forall>x \<in> set (bb_boxes ?t). length x = BOXSZ" using has unfolding b(1) by (auto dest!: subsetD [OF set_update_subset_insert])
  moreover have "(?m mod 3 + 1) mod 3 = Suc ?m mod 3" by (simp add: mod_simps)
  ultimately show ?thesis using has b(1) unfolding bb_has_def by (simp add: bb_piece_def)
qed

theorem only_three_pieces_left:
  assumes "\<And>k n. length (piece k n) = n" "bb_has piece ns s"
  shows "\<exists>ms. sum_list ms = file_size \<and> bb_has piece (ns @ ms) (bb_run piece file_size s)"
proof -
  let ?P = "\<lambda>pos (x :: breaking). \<exists>ms. sum_list ms = pos \<and> bb_has piece (ns @ ms) x"
  have "?P file_size (bb_run piece file_size s)"
    unfolding bb_run_def
  proof (rule piecewise_inv [where P = ?P])
    show "?P 0 s" using assms(2) by (intro exI [of _ "[]"]) simp
  next
    fix pos n x assume "?P pos x" "n \<le> BOXSZ"
    then obtain ms where "sum_list ms = pos" "bb_has piece (ns @ ms) x" by blast
    then show "?P (pos + n) (bb_piece piece pos n x)"
      using bb_piece_has [OF assms(1) _ \<open>n \<le> BOXSZ\<close>, where ns = "ns @ ms" and s = x and pos = pos] by (intro exI [of _ "ms @ [n]"]) simp
  qed (simp_all add: BOXSZ_def)
  then show ?thesis .
qed

text \<open>The pieces that \<open>raw_fall_test.py\<close> loads are the file, padded, and falling keeps them where the table says.\<close>

lemma raw_load_concat:
  "length data \<le> m * RAW_BOX \<Longrightarrow> concat (map (raw_load data) [0..<m]) = data @ zeros (m * RAW_BOX - length data)"
proof (induction m arbitrary: data)
  case (Suc m)
  have next_piece: "raw_load data (Suc i) = raw_load (drop RAW_BOX data) i" for i by (simp add: raw_load_def add.commute)
  have "concat (map (raw_load data) [0..<Suc m]) = raw_load data 0 @ concat (map (raw_load (drop RAW_BOX data)) [0..<m])"
    by (simp add: upt_conv_Cons map_Suc_upt [symmetric] comp_def next_piece del: upt_Suc)
  also have "\<dots> = raw_load data 0 @ drop RAW_BOX data @ zeros (m * RAW_BOX - (length data - RAW_BOX))"
    using Suc by simp
  also have "\<dots> = data @ zeros (Suc m * RAW_BOX - length data)"
  proof (cases "RAW_BOX \<le> length data")
    case True
    then show ?thesis by (simp add: raw_load_def flip: append_assoc) (simp add: zeros_def)
  next
    case False
    then show ?thesis by (simp add: raw_load_def zeros_def flip: replicate_add)
  qed
  finally show ?case .
qed (simp add: zeros_def)

definition raw_ok :: "bytes list \<Rightarrow> rawfall \<Rightarrow> bool" where
  "raw_ok ps s \<longleftrightarrow> map (rf_mem s) (rf_pieces s) = ps \<and> distinct (rf_pieces s) \<and> rf_i s < length ps \<and>
     (case rf_pc s of RF_Copy \<Rightarrow> rf_newbox s \<notin> set (rf_pieces s)
      | RF_Swap \<Rightarrow> rf_newbox s \<notin> set (rf_pieces s) \<and> rf_mem s (rf_newbox s) = ps ! rf_i s
      | RF_Next \<Rightarrow> rf_old s \<notin> set (rf_pieces s))"

lemma raw_step_ok:
  assumes "raw_ok ps s"
  shows "raw_ok ps (raw_step s)"
proof -
  note ok = assms [unfolded raw_ok_def]
  have i: "rf_i s < length (rf_pieces s)" using ok by auto
  show ?thesis
  proof (cases "rf_pc s")
    case RF_Copy
    then show ?thesis using ok i by (auto simp: raw_ok_def raw_step_def)
  next
    case RF_Swap
    let ?n = "rf_newbox s" and ?i = "rf_i s"
    have "map (rf_mem s) ((rf_pieces s)[?i := ?n]) = ps"
      using ok RF_Swap by (simp add: map_update list_update_same_conv)
    moreover have "distinct ((rf_pieces s)[?i := ?n])" using ok RF_Swap by (simp add: distinct_list_update)
    moreover have "rf_pieces s ! ?i \<notin> set ((rf_pieces s)[?i := ?n])"
      using ok RF_Swap i by (auto simp: in_set_conv_nth nth_list_update nth_eq_iff_index_eq split: if_splits)
    ultimately show ?thesis using ok RF_Swap i by (auto simp: raw_ok_def raw_step_def)
  next
    case RF_Next
    then show ?thesis using ok i mod_in_range [OF i] by (auto simp: raw_ok_def raw_step_def)
  qed
qed

theorem falling_pieces_stay_in_table:
  assumes "length data = fsize" "data \<noteq> []" "length addrs = raw_npieces fsize" "distinct addrs" "spare \<notin> set addrs"
  shows "let s = (raw_step ^^ k) (raw_start data fsize addrs spare mem) in
    concat (map (rf_mem s) (rf_pieces s)) = data @ zeros (raw_npieces fsize * RAW_BOX - fsize)"
proof -
  let ?ps = "map (raw_load data) [0..<raw_npieces fsize]"
  have fill: "m \<le> length addrs \<Longrightarrow> j < length addrs \<Longrightarrow>
      fold (\<lambda>i m. m(addrs ! i := raw_load data i)) [0..<m] mem (addrs ! j) = (if j < m then raw_load data j else mem (addrs ! j))" for m j
    using assms(4) by (induction m) (auto simp: nth_eq_iff_index_eq)
  have all: "fsize \<le> raw_npieces fsize * RAW_BOX" "0 < raw_npieces fsize"
    using assms(1,2) by (auto simp: raw_npieces_def RAW_BOX_def div_greater_zero_iff Suc_le_eq [symmetric] simp flip: length_greater_0_conv)
  have "map (rf_mem (raw_start data fsize addrs spare mem)) addrs = ?ps"
    by (rule nth_equalityI) (simp_all add: raw_start_def assms(3) fill)
  then have "raw_ok ?ps (raw_start data fsize addrs spare mem)"
    using assms(4,5) all(2) by (simp add: raw_ok_def raw_start_def)
  then have "raw_ok ?ps ((raw_step ^^ k) (raw_start data fsize addrs spare mem))" by (induction k) (simp_all add: raw_step_ok)
  then show ?thesis using raw_load_concat [of data "raw_npieces fsize"] all(1) assms(1) by (simp add: raw_ok_def Let_def)
qed

end
