(* ===== verification/Trials.thy ===== *)
theory Trials
  imports Motion Json LayerStreaming
begin

text \<open>
  The scripts of \<open>backup-original-source/vstorage\<close> that compress a file, expand it again and measure what that
  costs: \<open>breakdown_test.py\<close>, \<open>diverse_test.py\<close>, \<open>medical_test.py\<close>, \<open>pdf_split_test.py\<close>, \<open>unstructured_pdf_test.py\<close>,
  \<open>full_model_system.py\<close> and \<open>full_measurements.py\<close> in one process, \<open>measure.py\<close>, \<open>measured_system.py\<close>,
  \<open>onegig_box_test.py\<close>, \<open>multi_machine_sim.py\<close>, \<open>disappear_timing.py\<close> and \<open>extreme_pipe_experiment.py\<close> with another
  process they watch. The contents of files, what other processes print and the readings of \<open>/proc\<close> and of the clock
  are arguments; a result is what the script computes and prints, without the layout.
\<close>

section \<open>Down and up again\<close>

definition ratio_of :: "nat \<Rightarrow> nat \<Rightarrow> rat res" where
  "ratio_of a b = (if b = 0 then Inl ZeroDivisionError else Inr (of_nat a / of_nat b))"

definition file_hash :: "env \<Rightarrow> bytes \<Rightarrow> string" where
  "file_hash E data = hexdigest (sha256 E data)"

subsection \<open>breakdown_test.py\<close>

record breakdown =
  bd_orig_size :: nat
  bd_broken_size :: nat
  bd_reduction :: rat
  bd_percent :: rat
  bd_matches :: bool
  bd_rebuilt_size :: nat
  bd_random_broken :: nat
  bd_random_reduction :: rat

definition breakdown_main :: "env \<Rightarrow> disk \<Rightarrow> (nat \<Rightarrow> bytes) \<Rightarrow> breakdown res" where
  "breakdown_main E fs urandom =
     (case fs ''bigreal.txt'' of None \<Rightarrow> Inl FileNotFoundError | Some original \<Rightarrow>
      let orig_hash = file_hash E original; orig_size = length original;
          broken_down = lzma_compress E 9 original; broken_size = length broken_down in
      case ratio_of orig_size broken_size of Inl e \<Rightarrow> Inl e | Inr reduction \<Rightarrow>
      case ratio_of (100 * broken_size) orig_size of Inl e \<Rightarrow> Inl e | Inr percent \<Rightarrow>
      case lzma_decompress E broken_down of Inl e \<Rightarrow> Inl e | Inr rebuilt \<Rightarrow>
      let rebuilt_hash = file_hash E rebuilt; random_broken = lzma_compress E 9 (urandom orig_size) in
      case ratio_of orig_size (length random_broken) of Inl e \<Rightarrow> Inl e | Inr random_reduction \<Rightarrow>
      Inr \<lparr>bd_orig_size = orig_size, bd_broken_size = broken_size, bd_reduction = reduction, bd_percent = percent,
           bd_matches = (rebuilt_hash = orig_hash), bd_rebuilt_size = length rebuilt, bd_random_broken = length random_broken,
           bd_random_reduction = random_reduction\<rparr>)"

subsection \<open>diverse_test.py\<close>

record diverse_row =
  dv_name :: string
  dv_full :: nat
  dv_stored :: nat
  dv_ratio :: rat
  dv_exact :: bool

definition diverse_files :: "string list" where
  "diverse_files = [''sample_code.c'', ''sample_data.json'', ''sample_prose.txt'', ''sample_binary.bin'']"

definition diverse_row_of :: "env \<Rightarrow> disk \<Rightarrow> string \<Rightarrow> diverse_row res" where
  "diverse_row_of E fs fn =
     (case fs fn of None \<Rightarrow> Inl FileNotFoundError | Some data \<Rightarrow>
      let h = file_hash E data; stored = lzma_compress E 9 data in
      case lzma_decompress E stored of Inl e \<Rightarrow> Inl e | Inr reformed \<Rightarrow>
      case ratio_of (length data) (length stored) of Inl e \<Rightarrow> Inl e | Inr ratio \<Rightarrow>
      Inr \<lparr>dv_name = fn, dv_full = length data, dv_stored = length stored, dv_ratio = ratio, dv_exact = (file_hash E reformed = h)\<rparr>)"

definition diverse_main :: "env \<Rightarrow> disk \<Rightarrow> (diverse_row list \<times> nat \<times> nat \<times> rat) res" where
  "diverse_main E fs =
     (case mapM (diverse_row_of E fs) diverse_files of Inl e \<Rightarrow> Inl e | Inr rows \<Rightarrow>
      let total_full = sum_list (map dv_full rows); total_stored = sum_list (map dv_stored rows)
      in map_res (\<lambda>r. (rows, total_full, total_stored, r)) (ratio_of total_full total_stored))"

subsection \<open>medical_test.py\<close>

text \<open>\<open>json.loads\<close> of the bytes of a file, and \<open>r[key]\<close>. \<open>eq\<close> is Python's equality of parsed values.\<close>

definition json_file :: "bytes \<Rightarrow> json res" where
  "json_file raw = (case decode_utf8 raw of Inl e \<Rightarrow> Inl e | Inr s \<Rightarrow> of_option ValueError (loads s))"

definition json_field :: "string \<Rightarrow> json \<Rightarrow> json res" where
  "json_field k r = (case r of JObj d \<Rightarrow> of_option KeyError (dict_get d k) | _ \<Rightarrow> Inl TypeError)"

text \<open>\<open>records[2500]\<close>; a character of a string has no fields.\<close>

definition json_item :: "nat \<Rightarrow> json \<Rightarrow> json res" where
  "json_item i j = (case j of JList xs \<Rightarrow> py_index xs i | JObj d \<Rightarrow> Inl KeyError
     | JStr s \<Rightarrow> (if i < length s then Inr (JStr [s ! i]) else Inl IndexError) | _ \<Rightarrow> Inl TypeError)"

fun find_patient :: "(json \<Rightarrow> json \<Rightarrow> bool) \<Rightarrow> json \<Rightarrow> json list \<Rightarrow> json option res" where
  "find_patient eq target_id [] = Inr None"
| "find_patient eq target_id (r # rs) =
     (case json_field ''patient_id'' r of Inl e \<Rightarrow> Inl e
      | Inr x \<Rightarrow> if eq x target_id then Inr (Some r) else find_patient eq target_id rs)"

record medical =
  md_records :: nat
  md_full_size :: nat
  md_broken :: nat
  md_exact :: bool
  md_patient_exact :: bool
  md_pass :: bool

text \<open>The record watched, the file broken down and formed again, the record found in what comes back.\<close>

definition medical_target :: "json \<Rightarrow> (json \<times> json) res" where
  "medical_target records =
     (case json_item 2500 records of Inl e \<Rightarrow> Inl e | Inr target_patient \<Rightarrow>
      case json_field ''patient_id'' target_patient of Inl e \<Rightarrow> Inl e | Inr target_id \<Rightarrow>
      case json_field ''name'' target_patient of Inl e \<Rightarrow> Inl e | Inr name \<Rightarrow>
      map_res (\<lambda>_. (target_patient, target_id)) (json_field ''medications'' target_patient))"

definition medical_reform :: "env \<Rightarrow> bytes \<Rightarrow> (bytes \<times> nat) res" where
  "medical_reform E records_raw =
     (let broken = lzma_compress E 9 records_raw in
      case ratio_of (length records_raw) (length broken) of Inl e \<Rightarrow> Inl e | Inr ratio \<Rightarrow>
      map_res (\<lambda>reformed. (reformed, length broken)) (lzma_decompress E broken))"

definition json_elements :: "json \<Rightarrow> json list" where
  "json_elements j = (case j of JList xs \<Rightarrow> xs | _ \<Rightarrow> [])"

definition medical_found :: "(json \<Rightarrow> json \<Rightarrow> bool) \<Rightarrow> json \<Rightarrow> json list \<Rightarrow> json res" where
  "medical_found eq target_id rs =
     (case find_patient eq target_id rs of Inl e \<Rightarrow> Inl e | Inr r \<Rightarrow>
      case of_option TypeError r of Inl e \<Rightarrow> Inl e | Inr retrieved_patient \<Rightarrow>
      map_res (\<lambda>_. retrieved_patient) (json_field ''medications'' retrieved_patient))"

definition medical_main :: "(json \<Rightarrow> json \<Rightarrow> bool) \<Rightarrow> env \<Rightarrow> disk \<Rightarrow> medical res" where
  "medical_main eq E fs =
     (case of_option FileNotFoundError (fs ''medical_records.json'') of Inl e \<Rightarrow> Inl e | Inr records_raw \<Rightarrow>
      case json_file records_raw of Inl e \<Rightarrow> Inl e | Inr records \<Rightarrow>
      case medical_target records of Inl e \<Rightarrow> Inl e | Inr target \<Rightarrow>
      case medical_reform E records_raw of Inl e \<Rightarrow> Inl e | Inr reform \<Rightarrow>
      case json_file (fst reform) of Inl e \<Rightarrow> Inl e | Inr reformed_records \<Rightarrow>
      let exact = (file_hash E (fst reform) = file_hash E records_raw) in
      map_res (\<lambda>retrieved_patient. \<lparr>md_records = length (json_elements records), md_full_size = length records_raw,
          md_broken = snd reform, md_exact = exact, md_patient_exact = eq retrieved_patient (fst target),
          md_pass = (exact \<and> eq retrieved_patient (fst target))\<rparr>)
        (medical_found eq (snd target) (json_elements reformed_records)))"

subsection \<open>pdf_split_test.py\<close>

text \<open>The pages as \<open>extract_text() or ""\<close>, and what \<open>pypdf\<close> gives as metadata, by name.\<close>

definition split_pieces :: "env \<Rightarrow> string list \<Rightarrow> (string \<times> string) list \<Rightarrow> bytes \<Rightarrow> (string \<times> bytes) list" where
  "split_pieces E page_texts meta pdf_bytes =
     (let meta_dict = dict_set ''orig_hash'' (JStr (file_hash E pdf_bytes)) (dict_set ''pages'' (JInt (int (length page_texts)))
            (fold (\<lambda>(k, v). dict_set k (JStr v)) meta []))
      in [(''text_content'', encode_utf8 (sep_by (newline @ ''---PAGE---'' @ newline) page_texts)),
          (''metadata'', encode_utf8 (dumps_indent2 meta_dict)), (''binary_structure'', pdf_bytes)])"

definition split_BOX :: nat where
  "split_BOX = 64 * 1024"

definition n_boxes :: "bytes \<Rightarrow> nat" where
  "n_boxes compressed = max 1 (length compressed div split_BOX + 1)"

record pdf_split =
  ps_compressed :: "(string, bytes) dict"
  ps_total_raw :: nat
  ps_total_compressed :: nat
  ps_boxes :: "(string \<times> nat) list"
  ps_exact :: bool
  ps_text :: string

definition pdf_split_main :: "env \<Rightarrow> string list \<Rightarrow> (string \<times> string) list \<Rightarrow> bytes \<Rightarrow> pdf_split res" where
  "pdf_split_main E page_texts meta pdf_bytes =
     (let pieces = split_pieces E page_texts meta pdf_bytes;
          compressed_pieces = map (\<lambda>(name, data). (name, lzma_compress E 9 data)) pieces;
          total_raw = sum_list (map (\<lambda>(name, data). length data) pieces);
          total_compressed = sum_list (map (\<lambda>(name, data). length data) compressed_pieces) in
      case ratio_of total_raw total_compressed of Inl e \<Rightarrow> Inl e | Inr _ \<Rightarrow>
      case of_option KeyError (dict_get compressed_pieces ''binary_structure'') of Inl e \<Rightarrow> Inl e | Inr b \<Rightarrow>
      case lzma_decompress E b of Inl e \<Rightarrow> Inl e | Inr rebuilt_pdf \<Rightarrow>
      case of_option KeyError (dict_get compressed_pieces ''text_content'') of Inl e \<Rightarrow> Inl e | Inr t \<Rightarrow>
      case lzma_decompress E t of Inl e \<Rightarrow> Inl e | Inr text_bytes \<Rightarrow>
      map_res (\<lambda>rebuilt_text. \<lparr>ps_compressed = compressed_pieces, ps_total_raw = total_raw, ps_total_compressed = total_compressed,
          ps_boxes = map (\<lambda>(name, data). (name, n_boxes data)) compressed_pieces,
          ps_exact = (file_hash E rebuilt_pdf = file_hash E pdf_bytes), ps_text = rebuilt_text\<rparr>) (decode_utf8 text_bytes))"

subsection \<open>unstructured_pdf_test.py\<close>

text \<open>What \<open>random\<close> draws for the i-th word: the word, the period of full stops, and the word after a full stop.\<close>

record word_draw =
  wd_choice :: string
  wd_period :: nat
  wd_after :: string

text \<open>\<open>capitalize()\<close>, for the letters from a to z.\<close>

definition up_char :: "char \<Rightarrow> char" where
  "up_char c = (let n = of_char c :: nat in if 97 \<le> n \<and> n \<le> 122 then char_of (n - 32) else c)"

definition down_char :: "char \<Rightarrow> char" where
  "down_char c = (let n = of_char c :: nat in if 65 \<le> n \<and> n \<le> 90 then char_of (n + 32) else c)"

definition capitalized :: "string \<Rightarrow> string" where
  "capitalized s = (case s of [] \<Rightarrow> [] | c # cs \<Rightarrow> up_char c # map down_char cs)"

definition add_word :: "(nat \<Rightarrow> word_draw) \<Rightarrow> nat \<Rightarrow> string list \<Rightarrow> string list" where
  "add_word draw i sentence =
     (let d = draw i;
          s = sentence @ [if i = 0 then capitalized (wd_choice d) else wd_choice d]
      in if 0 < i \<and> i mod wd_period d = 0 then butlast s @ [last s @ ''.''] @ [capitalized (wd_after d)] else s)"

definition random_paragraph :: "(nat \<Rightarrow> word_draw) \<Rightarrow> nat \<Rightarrow> string" where
  "random_paragraph draw n = sep_by '' '' (fold (add_word draw) [0..<n] []) @ ''.''"

datatype pdf_verdict = Usable | Modest | Barely

definition pdf_verdict_of :: "rat \<Rightarrow> pdf_verdict" where
  "pdf_verdict_of ratio = (if 2 < ratio then Usable else if 12 / 10 < ratio then Modest else Barely)"

record unstructured =
  un_size :: nat
  un_held :: nat
  un_ratio :: rat
  un_exact :: bool
  un_verdict :: pdf_verdict

definition unstructured_run :: "env \<Rightarrow> bytes \<Rightarrow> unstructured res" where
  "unstructured_run E pdf_data =
     (let orig_hash = file_hash E pdf_data; compressed = lzma_compress E 9 pdf_data in
      case ratio_of (length pdf_data) (length compressed) of Inl e \<Rightarrow> Inl e | Inr ratio \<Rightarrow>
      map_res (\<lambda>rebuilt. \<lparr>un_size = length pdf_data, un_held = length compressed, un_ratio = ratio,
          un_exact = (file_hash E rebuilt = orig_hash), un_verdict = pdf_verdict_of ratio\<rparr>) (lzma_decompress E compressed))"

subsection \<open>full_model_system.py\<close>

text \<open>
  A layer as a flat list; \<open>np.abs(W).max() / 127.0\<close> and the quotients are 32-bit numbers, as in numpy 2. \<open>cast\<close> is
  what \<open>astype(np.int8)\<close> makes of what is not within a signed byte.
\<close>

definition model_scale :: "rat list \<Rightarrow> rat option" where
  "model_scale W = fl32 (Max (set (map abs W)) / 127)"

definition to_int8 :: "(rat option \<Rightarrow> byte) \<Rightarrow> rat option \<Rightarrow> byte" where
  "to_int8 cast t =
     (case t of None \<Rightarrow> cast None
      | Some r \<Rightarrow> (let q = round_even r in if - 128 \<le> q \<and> q \<le> 127 then of_int q else cast (Some (of_int q))))"

definition model_quantize :: "(rat option \<Rightarrow> byte) \<Rightarrow> rat list \<Rightarrow> bytes \<times> rat option" where
  "model_quantize cast W =
     (let scale = model_scale W in (map (\<lambda>w. to_int8 cast (Option.bind scale (divide32 w))) W, scale))"

type_synonym broken_layer = "bytes \<times> rat option \<times> nat"

definition break_down :: "(rat option \<Rightarrow> byte) \<Rightarrow> env \<Rightarrow> rat list \<Rightarrow> broken_layer" where
  "break_down cast E W = (let (q, scale) = model_quantize cast W in (lzma_compress E 1 q, scale, length q))"

text \<open>\<open>reshape\<close> wants as many bytes as there were.\<close>

definition model_reconstruct :: "env \<Rightarrow> broken_layer \<Rightarrow> rat option list res" where
  "model_reconstruct E b =
     (let (blob, scale, shape) = b in
      case lzma_decompress E blob of Inl e \<Rightarrow> Inl e | Inr q \<Rightarrow>
      if length q \<noteq> shape then Inl ValueError
      else Inr (map (\<lambda>v. Option.bind scale (\<lambda>s. fl32 (of_int (sint v) * s))) q))"

text \<open>\<open>compute\<close> is \<open>np.tanh(x @ W)\<close>; \<open>mem i\<close> the reading after layer \<open>i\<close>.\<close>

fun model_pass :: "env \<Rightarrow> ('x \<Rightarrow> rat option list \<Rightarrow> 'x) \<Rightarrow> (nat \<Rightarrow> rat) \<Rightarrow> nat \<Rightarrow> broken_layer list \<Rightarrow> 'x \<Rightarrow> rat \<Rightarrow> ('x \<times> rat) res" where
  "model_pass E compute mem i [] x peak = Inr (x, peak)"
| "model_pass E compute mem i (b # bs) x peak =
     (case model_reconstruct E b of Inl e \<Rightarrow> Inl e
      | Inr W \<Rightarrow> model_pass E compute mem (Suc i) bs (compute x W) (max peak (mem i)))"

definition model_main :: "(rat option \<Rightarrow> byte) \<Rightarrow> env \<Rightarrow> ('x \<Rightarrow> rat option list \<Rightarrow> 'x) \<Rightarrow> (nat \<Rightarrow> rat) \<Rightarrow> rat \<Rightarrow> rat list list \<Rightarrow> 'x \<Rightarrow>
   (nat \<times> nat \<times> 'x \<times> rat) res" where
  "model_main cast E compute mem baseline full_layers x =
     (let full_model_bytes = sum_list (map (\<lambda>W. 4 * length W) full_layers);
          falling_store = map (break_down cast E) full_layers;
          broken_total = sum_list (map (\<lambda>(blob, scale, shape). length blob) falling_store) in
      case ratio_of full_model_bytes broken_total of Inl e \<Rightarrow> Inl e | Inr _ \<Rightarrow>
      map_res (\<lambda>(x, peak). (full_model_bytes, broken_total, x, peak)) (model_pass E compute mem 0 falling_store x baseline))"

subsection \<open>full_measurements.py\<close>

text \<open>\<open>(chunk * (size // len(chunk) + 1))[:size]\<close> for a file of \<open>sz\<close> megabytes.\<close>

definition sized_data :: "bytes \<Rightarrow> nat \<Rightarrow> bytes" where
  "sized_data chunk sz = take (sz * 1024 * 1024) (concat (replicate (sz * 1024 * 1024 div length chunk + 1) chunk))"

definition size_row :: "env \<Rightarrow> bytes \<Rightarrow> rat \<Rightarrow> rat \<Rightarrow> nat \<Rightarrow> (nat \<times> rat \<times> rat) res" where
  "size_row E chunk base_anon anon_after sz =
     (let data = sized_data chunk sz; compressed = lzma_compress E 6 data
      in map_res (\<lambda>ratio. (length compressed, ratio, anon_after - base_anon)) (ratio_of (length data) (length compressed)))"

text \<open>One turn of \<open>fall_loop\<close>: a piece goes to the other box, and at the end all of it back.\<close>

definition fm_BOX :: nat where
  "fm_BOX = 64 * 1024"

record fmfall =
  fm_a :: bytes
  fm_b :: bytes
  fm_pos :: nat
  fm_hops :: nat

definition fm_start :: "bytes \<Rightarrow> fmfall" where
  "fm_start blob = \<lparr>fm_a = blob, fm_b = zeros (length blob), fm_pos = 0, fm_hops = 0\<rparr>"

definition fm_turn :: "fmfall \<Rightarrow> fmfall" where
  "fm_turn s =
     (let end_pos = min (fm_pos s + fm_BOX) (length (fm_a s));
          s1 = s\<lparr>fm_b := slice_assign (fm_b s) (fm_pos s) end_pos (py_slice (fm_a s) (fm_pos s) end_pos), fm_pos := end_pos\<rparr>
      in if length (fm_a s1) \<le> fm_pos s1 then s1\<lparr>fm_a := fm_b s1, fm_pos := 0, fm_hops := fm_hops s1 + 1\<rparr> else s1)"

text \<open>The query of the map: features by longitude and latitude.\<close>

record 'p feature =
  ft_lng :: rat
  ft_lat :: rat
  ft_properties :: 'p

definition area_features :: "rat \<times> rat \<Rightarrow> rat \<times> rat \<Rightarrow> 'p feature list \<Rightarrow> 'p feature list" where
  "area_features lat lng features =
     filter (\<lambda>f. fst lat \<le> ft_lat f \<and> ft_lat f \<le> snd lat \<and> fst lng \<le> ft_lng f \<and> ft_lng f \<le> snd lng) features"

section \<open>Another process, watched\<close>

subsection \<open>measure.py\<close>

definition bm_KEYS :: "string list" where
  "bm_KEYS = [''VmRSS'', ''RssAnon'', ''VmHWM'']"

text \<open>\<open>read_proc_mem\<close>: all three figures in megabytes, or nothing.\<close>

definition read_proc_mem :: "string list option \<Rightarrow> (rat \<times> rat \<times> rat) option res" where
  "read_proc_mem status =
     (case status of None \<Rightarrow> Inr None
      | Some ls \<Rightarrow> map_res (\<lambda>vals. let v = (\<lambda>k. case dict_get vals k of None \<Rightarrow> 0 | Some n \<Rightarrow> of_nat n / 1024) in
            if length vals < 3 then None else Some (v ''VmRSS'', v ''RssAnon'', v ''VmHWM''))
          (scan_file bm_KEYS '''' ls []))"

text \<open>The sampling loop: at each turn the clock and the status file; the samples of the turns before the time is up.\<close>

fun bm_sample :: "time \<Rightarrow> time \<Rightarrow> (time \<times> string list option) list \<Rightarrow> (rat \<times> rat \<times> rat) list res" where
  "bm_sample start sample_seconds [] = Inr []"
| "bm_sample start sample_seconds ((now, status) # turns) =
     (if sample_seconds \<le> now - start then Inr []
      else (case read_proc_mem status of Inl e \<Rightarrow> Inl e
        | Inr m \<Rightarrow> map_res (\<lambda>ms. (case m of None \<Rightarrow> ms | Some x \<Rightarrow> x # ms)) (bm_sample start sample_seconds turns)))"

text \<open>\<open>min\<close>, \<open>mean\<close> and \<open>max\<close>, and the mean as a multiple of the data if that is asked for.\<close>

definition bm_summarize :: "nat option \<Rightarrow> rat list \<Rightarrow> rat \<times> rat \<times> rat \<times> rat option" where
  "bm_summarize ratio_base samples =
     (let avg = sum_list samples / of_nat (length samples)
      in (Min (set samples), avg, Max (set samples),
          case ratio_base of None \<Rightarrow> None | Some b \<Rightarrow> if b = 0 then None else Some (avg / of_nat b)))"

definition benchmark :: "time \<Rightarrow> nat \<Rightarrow> time \<Rightarrow> (time \<times> string list option) list \<Rightarrow> (nat \<times> (rat \<times> rat \<times> rat \<times> rat option) list) option res" where
  "benchmark sample_seconds data_size_mb start turns =
     map_res (\<lambda>ms. if ms = [] then None
        else Some (length ms, [bm_summarize (Some data_size_mb) (map fst ms), bm_summarize (Some data_size_mb) (map (fst \<circ> snd) ms),
               bm_summarize None (map (snd \<circ> snd) ms)]))
       (bm_sample start sample_seconds turns)"

subsection \<open>measured_system.py\<close>

text \<open>\<open>line.split(":")\<close> into exactly two parts, \<open>int(v)\<close> with blanks around.\<close>

fun at_colon :: "string \<Rightarrow> (string \<times> string) option" where
  "at_colon [] = None"
| "at_colon (c # cs) = (if c = CHR '':'' then Some ([], cs) else map_option (apfst ((#) c)) (at_colon cs))"

definition colon_line :: "string \<Rightarrow> (string, nat) dict \<Rightarrow> (string, nat) dict res" where
  "colon_line line d =
     (case at_colon line of None \<Rightarrow> Inl ValueError
      | Some (k, v) \<Rightarrow> if at_colon v \<noteq> None then Inl ValueError else map_res (\<lambda>n. dict_set (strip k) n d) (parse_digits (strip v)))"

definition ms_get_io :: "string list option \<Rightarrow> (string, nat) dict option res" where
  "ms_get_io f = (case f of None \<Rightarrow> Inr None | Some ls \<Rightarrow> map_res Some (foldM colon_line ls []))"

definition ms_KEYS :: "string list" where
  "ms_KEYS = [''VmRSS'', ''RssAnon'', ''RssFile'', ''VmHWM'']"

definition ms_get_mem :: "string list option \<Rightarrow> (string, rat) dict option res" where
  "ms_get_mem f =
     (case f of None \<Rightarrow> Inr None
      | Some ls \<Rightarrow> map_res (\<lambda>d. Some (dict_map (\<lambda>n. of_nat n / 1024) d)) (scan_file ms_KEYS '''' ls []))"

text \<open>The worker: what it holds, and the lines it prints; it ends early if it raises.\<close>

definition ms_files :: "string list" where
  "ms_files = [''sample_code.c'', ''sample_data.json'', ''sample_prose.txt'', ''bigreal.txt'']"

fun ms_save :: "env \<Rightarrow> disk \<Rightarrow> string list \<Rightarrow> (string, bytes) dict \<times> (string, string) dict \<Rightarrow> ((string, bytes) dict \<times> (string, string) dict) res" where
  "ms_save E fs [] s = Inr s"
| "ms_save E fs (fn # fns) s =
     (case fs fn of None \<Rightarrow> Inl FileNotFoundError
      | Some data \<Rightarrow> ms_save E fs fns (dict_set fn (lzma_compress E 9 data) (fst s), dict_set fn (file_hash E data) (snd s)))"

fun ms_retrieve :: "env \<Rightarrow> nat \<Rightarrow> (string, bytes) dict \<times> (string, string) dict \<Rightarrow> unit res" where
  "ms_retrieve E 0 s = Inr ()"
| "ms_retrieve E (Suc n) s =
     (case of_option KeyError (dict_get (fst s) ''sample_prose.txt'') of Inl e \<Rightarrow> Inl e | Inr blob \<Rightarrow>
      case lzma_decompress E blob of Inl e \<Rightarrow> Inl e | Inr full \<Rightarrow>
      if dict_get (snd s) ''sample_prose.txt'' = Some (file_hash E full) then ms_retrieve E n s else Inl AssertionError)"

definition ms_worker :: "env \<Rightarrow> disk \<Rightarrow> string list" where
  "ms_worker E fs =
     (case ms_save E fs ms_files ([], []) of Inl _ \<Rightarrow> []
      | Inr s \<Rightarrow> [''SAVED'', ''RETRIEVING''] @ (case ms_retrieve E 50 s of Inl _ \<Rightarrow> [] | Inr _ \<Rightarrow> [''DONE_RETRIEVING'']))"

text \<open>
  \<open>wait_for\<close>, on the lines the process still prints: what is left after the marker. After the last line \<open>readline\<close>
  returns the empty string for ever, so without the marker it does not return: \<open>None\<close>.
\<close>

fun wait_for :: "string \<Rightarrow> string list \<Rightarrow> string list option" where
  "wait_for marker [] = None"
| "wait_for marker (line # rest) = (if strip line = marker then Some rest else wait_for marker rest)"

text \<open>\<open>if m and m['VmRSS'] > peak['VmRSS']\<close>, for every reading.\<close>

fun ms_peak :: "(string, rat) dict option list \<Rightarrow> (string, rat) dict \<Rightarrow> (string, rat) dict res" where
  "ms_peak [] peak = Inr peak"
| "ms_peak (m # ms) peak =
     (case m of None \<Rightarrow> ms_peak ms peak | Some d \<Rightarrow>
      if d = [] then ms_peak ms peak
      else (case of_option KeyError (dict_get d ''VmRSS'') of Inl e \<Rightarrow> Inl e | Inr v \<Rightarrow>
            case of_option KeyError (dict_get peak ''VmRSS'') of Inl e \<Rightarrow> Inl e | Inr w \<Rightarrow>
            ms_peak ms (if w < v then d else peak)))"

definition ms_figure :: "string \<Rightarrow> (string, nat) dict option \<Rightarrow> nat res" where
  "ms_figure k d = (case d of None \<Rightarrow> Inl TypeError | Some d \<Rightarrow> of_option KeyError (dict_get d k))"

text \<open>The verdict: the bytes written during the run, and whether that is PASS.\<close>

definition ms_verdict :: "(string, nat) dict option \<Rightarrow> (string, nat) dict option \<Rightarrow> (int \<times> bool) res" where
  "ms_verdict io_start io2 =
     (case ms_figure ''write_bytes'' io2 of Inl e \<Rightarrow> Inl e | Inr b \<Rightarrow>
      map_res (\<lambda>a. (int b - int a, int b - int a = 0)) (ms_figure ''write_bytes'' io_start))"

text \<open>Whether the three waits of the script return.\<close>

definition ms_waits :: "string list \<Rightarrow> bool" where
  "ms_waits lines =
     (case wait_for ''SAVED'' lines of None \<Rightarrow> False | Some l1 \<Rightarrow>
      case wait_for ''RETRIEVING'' l1 of None \<Rightarrow> False | Some l2 \<Rightarrow> wait_for ''DONE_RETRIEVING'' l2 \<noteq> None)"

subsection \<open>onegig_box_test.py\<close>

definition og_worker :: "env \<Rightarrow> disk \<Rightarrow> string list" where
  "og_worker E fs =
     (case fs ''/dev/shm/onegig.dat'' of None \<Rightarrow> []
      | Some data \<Rightarrow>
          (let original_hash = file_hash E data; box = lzma_compress E 6 data
           in [''LOADED '' @ dec (length data), ''BROKEN '' @ dec (length box), ''RETRIEVING''] @
              (case lzma_decompress E box of Inl _ \<Rightarrow> []
               | Inr full \<Rightarrow> [''RETRIEVED '' @ dec (length full) @ '' '' @
                   (if file_hash E full = original_hash then ''True'' else ''False''), ''COLLAPSED''])))"

text \<open>\<open>wait\<close>: the words of the first line that starts with the marker, and the lines after it.\<close>

fun og_wait :: "string \<Rightarrow> string list \<Rightarrow> (string list \<times> string list) option" where
  "og_wait marker [] = None"
| "og_wait marker (line # rest) =
     (let l = split_words line in if l \<noteq> [] \<and> l ! 0 = marker then Some (l, rest) else og_wait marker rest)"

text \<open>What the script makes of the lines: the size of the box, and size and match of what is retrieved.\<close>

definition og_read :: "string list \<Rightarrow> (nat res \<times> nat res \<times> string res) option" where
  "og_read lines =
     (case og_wait ''LOADED'' lines of None \<Rightarrow> None | Some (_, l1) \<Rightarrow>
      case og_wait ''BROKEN'' l1 of None \<Rightarrow> None | Some (broken, l2) \<Rightarrow>
      case og_wait ''RETRIEVING'' l2 of None \<Rightarrow> None | Some (_, l3) \<Rightarrow>
      case og_wait ''RETRIEVED'' l3 of None \<Rightarrow> None | Some (r, l4) \<Rightarrow>
      case og_wait ''COLLAPSED'' l4 of None \<Rightarrow> None | Some _ \<Rightarrow>
      Some (case py_index broken 1 of Inl e \<Rightarrow> Inl e | Inr w \<Rightarrow> parse_digits w,
            case py_index r 1 of Inl e \<Rightarrow> Inl e | Inr w \<Rightarrow> parse_digits w, py_index r 2))"

subsection \<open>multi_machine_sim.py\<close>

text \<open>\<open>m1\<close> and \<open>m2\<close> are the two files of a machine, A and B, as they are when they are read.\<close>

definition mm_check :: "env \<Rightarrow> bytes \<Rightarrow> bytes option \<Rightarrow> bool option \<Rightarrow> bool option" where
  "mm_check E test_data content readable =
     (case content of None \<Rightarrow> readable
      | Some c \<Rightarrow> if length c = length test_data then Some (file_hash E c = file_hash E test_data) else readable)"

definition mm_m1_readable :: "env \<Rightarrow> bytes \<Rightarrow> bytes option \<times> bytes option \<Rightarrow> bool option" where
  "mm_m1_readable E test_data m1 = mm_check E test_data (snd m1) (mm_check E test_data (fst m1) None)"

definition mm_m2_survived :: "env \<Rightarrow> bytes \<Rightarrow> bytes option \<times> bytes option \<Rightarrow> bool res" where
  "mm_m2_survived E test_data m2 =
     map_res (\<lambda>m2_final. file_hash E m2_final = file_hash E test_data)
       (of_option FileNotFoundError (if snd m2 \<noteq> None then snd m2 else fst m2))"

text \<open>The report: both findings, and the last line, which says that no data were lost.\<close>

definition mm_run :: "env \<Rightarrow> bytes \<Rightarrow> bytes option \<times> bytes option \<Rightarrow> bytes option \<times> bytes option \<Rightarrow> (bool option \<times> bool \<times> string) res" where
  "mm_run E test_data m1 m2 =
     map_res (\<lambda>m2_survived. (mm_m1_readable E test_data m1, m2_survived, ''Total data loss: NO.'')) (mm_m2_survived E test_data m2)"

subsection \<open>disappear_timing.py\<close>

text \<open>
  The polling loop: at each turn whether \<open>/proc/pid/mem\<close> exists, and the clock where it is read. The result is the
  time at which it was gone, if ever, and the number of checks.
\<close>

fun dt_poll :: "time \<Rightarrow> nat \<Rightarrow> (bool \<times> time) list \<Rightarrow> (time option \<times> nat) option" where
  "dt_poll kill_time checks [] = None"
| "dt_poll kill_time checks ((there, now) # turns) =
     (if \<not> there then Some (Some now, checks + 1)
      else if 5 < now - kill_time then Some (None, checks + 1)
      else dt_poll kill_time (checks + 1) turns)"

text \<open>\<open>data_is_present\<close>: the maps can be read and the memory file exists.\<close>

definition data_is_present :: "string list option \<Rightarrow> bool \<Rightarrow> bool" where
  "data_is_present maps mem_exists = (case maps of None \<Rightarrow> False | Some _ \<Rightarrow> mem_exists)"

subsection \<open>extreme_pipe_experiment.py\<close>

definition ep_NUM_HOPS :: nat where
  "ep_NUM_HOPS = 6"

definition ep_shell_cmd :: "string \<Rightarrow> string \<Rightarrow> string" where
  "ep_shell_cmd source_path dest_path =
     ''cat '' @ source_path @ '' | '' @ sep_by '' | '' (replicate ep_NUM_HOPS ''cat'') @ '' > '' @ dest_path"

definition ep_meminfo_line :: "string \<Rightarrow> (string, string) dict \<Rightarrow> (string, string) dict res" where
  "ep_meminfo_line line info =
     (case at_colon line of None \<Rightarrow> Inl ValueError
      | Some (k, v) \<Rightarrow> if at_colon v \<noteq> None then Inl ValueError else Inr (dict_set (strip k) (strip v) info))"

definition ep_read_meminfo :: "string list \<Rightarrow> (string, string) dict res" where
  "ep_read_meminfo ls = foldM ep_meminfo_line ls []"

text \<open>\<open>cat k\<close> is what the k-th process of the chain makes of its input.\<close>

definition ep_matches :: "env \<Rightarrow> (nat \<Rightarrow> bytes \<Rightarrow> bytes) \<Rightarrow> bytes \<Rightarrow> bool" where
  "ep_matches E cat source =
     (let dest = fold cat [0..<Suc ep_NUM_HOPS] source in file_hash E dest = file_hash E source)"

section \<open>What comes back\<close>

text \<open>The file that is not empty is rebuilt; an empty one raises where the percentage is printed.\<close>

theorem breakdown_rebuilds:
  assumes "lzma_ok E" "fs ''bigreal.txt'' = Some original"
  shows "original \<noteq> [] \<Longrightarrow> \<exists>r. breakdown_main E fs urandom = Inr r \<and> bd_matches r \<and> bd_rebuilt_size r = bd_orig_size r"
    and "original = [] \<Longrightarrow> breakdown_main E fs urandom = Inl ZeroDivisionError"
  using assms by (simp_all add: breakdown_main_def lzma_roundtrip lzma_nonempty Let_def ratio_of_def)

theorem diverse_exact:
  assumes "lzma_ok E" "diverse_main E fs = Inr (rows, total_full, total_stored, r)"
  shows "map dv_name rows = diverse_files \<and> list_all dv_exact rows \<and> (\<forall>x \<in> set rows. \<exists>data. fs (dv_name x) = Some data \<and> dv_full x = length data)"
proof -
  have row: "diverse_row_of E fs fn = Inr x \<Longrightarrow> dv_name x = fn \<and> dv_exact x \<and> (\<exists>data. fs fn = Some data \<and> dv_full x = length data)" for fn x
    using assms(1) by (auto simp: diverse_row_of_def lzma_simps Let_def ratio_of_def split: option.splits)
  have "mapM (diverse_row_of E fs) fns = Inr rows \<Longrightarrow> map dv_name rows = fns \<and> list_all dv_exact rows \<and>
      (\<forall>x \<in> set rows. \<exists>data. fs (dv_name x) = Some data \<and> dv_full x = length data)" for fns rows
    using row by (induction fns arbitrary: rows) (fastforce split: sum.splits)+
  then show ?thesis using assms(2) by (auto simp: diverse_main_def Let_def map_res_iff split: sum.splits)
qed

text \<open>
  The watched patient is looked up by number, and the first record with it is taken: the verdict is PASS if no earlier
  record has an equal number, and FAIL, although everything came back, if one has and is another patient's.
\<close>

lemma find_patient_first:
  assumes "k < length xs" "\<forall>j < k. \<exists>x. json_field ''patient_id'' (xs ! j) = Inr x \<and> \<not> eq x i"
    and "json_field ''patient_id'' (xs ! k) = Inr y" "eq y i"
  shows "find_patient eq i xs = Inr (Some (xs ! k))"
  using assms
proof (induction xs arbitrary: k)
  case (Cons r rs)
  show ?case
  proof (cases k)
    case 0
    then show ?thesis using Cons.prems by simp
  next
    case (Suc m)
    have "find_patient eq i rs = Inr (Some (rs ! m))"
      by (rule Cons.IH) (use Cons.prems Suc in \<open>auto dest: spec [of _ "Suc _"]\<close>)
    then show ?thesis using Cons.prems(2) Suc by (auto dest: spec [of _ 0])
  qed
qed simp

theorem medical_verdict:
  assumes "lzma_ok E" "fs ''medical_records.json'' = Some raw" "json_file raw = Inr (JList xs)"
    and "medical_target (JList xs) = Inr (target, i)" "k \<le> 2500" "k < length xs" "json_field ''patient_id'' (xs ! k) = Inr y" "eq y i"
    and "\<forall>j < k. \<exists>x. json_field ''patient_id'' (xs ! j) = Inr x \<and> \<not> eq x i" "json_field ''medications'' (xs ! k) = Inr z"
  shows "\<exists>m. medical_main eq E fs = Inr m \<and> md_exact m \<and> (md_pass m \<longleftrightarrow> eq (xs ! k) target)"
proof -
  have "medical_found eq i xs = Inr (xs ! k)"
    using find_patient_first [where eq = eq and i = i and k = k and xs = xs and y = y, OF assms(6,9,7,8)] assms(10) by (simp add: medical_found_def)
  moreover have "medical_reform E raw = Inr (raw, length (lzma_compress E 9 raw))"
    using assms(1) by (simp add: medical_reform_def lzma_simps ratio_of_def Let_def)
  ultimately show ?thesis
    using assms(2-4) by (simp add: medical_main_def json_elements_def Let_def)
qed

theorem split_pdf_comes_back:
  assumes "lzma_ok E"
  shows "\<exists>r. pdf_split_main E page_texts meta pdf_bytes = Inr r \<and> ps_exact r \<and>
    ps_text r = sep_by (newline @ ''---PAGE---'' @ newline) page_texts"
  using assms by (simp add: pdf_split_main_def split_pieces_def Let_def dict_get_def lzma_simps decode_encode ratio_of_def)

text \<open>A piece that fills its boxes exactly is counted with one box more.\<close>

lemma n_boxes_one_more: "0 < k \<Longrightarrow> length c = k * split_BOX \<Longrightarrow> n_boxes c = k + 1"
  by (simp add: n_boxes_def split_BOX_def)

text \<open>The layers come back as they were quantised.\<close>

theorem model_layer_comes_back:
  assumes "lzma_ok E"
  shows "model_reconstruct E (break_down cast E W) =
    Inr (map (\<lambda>w. Option.bind (model_scale W) (\<lambda>s. fl32 (of_int (sint (to_int8 cast (divide32 w s))) * s))) W)"
proof -
  have "Option.bind (model_scale W) (\<lambda>s. fl32 (of_int (sint (to_int8 cast (Option.bind (model_scale W) (divide32 w)))) * s)) =
      Option.bind (model_scale W) (\<lambda>s. fl32 (of_int (sint (to_int8 cast (divide32 w s))) * s))" for w
    by (cases "model_scale W") simp_all
  then show ?thesis
    using assms by (simp add: break_down_def model_quantize_def model_reconstruct_def lzma_roundtrip Let_def)
qed

text \<open>The blob of the three-minute run is whole in box A after every turn.\<close>

definition fm_ok :: "bytes \<Rightarrow> fmfall \<Rightarrow> bool" where
  "fm_ok blob s \<longleftrightarrow> fm_a s = blob \<and> length (fm_b s) = length blob \<and> fm_pos s \<le> length blob \<and> take (fm_pos s) (fm_b s) = take (fm_pos s) blob"

lemma fm_turn_ok:
  assumes "fm_ok blob s"
  shows "fm_ok blob (fm_turn s)"
proof -
  let ?p = "fm_pos s" and ?e = "min (fm_pos s + fm_BOX) (length blob)"
  let ?b = "slice_assign (fm_b s) ?p ?e (py_slice blob ?p ?e)"
  have s: "fm_a s = blob" "length (fm_b s) = length blob" "?p \<le> length blob" "take ?p (fm_b s) = take ?p blob"
    using assms by (simp_all add: fm_ok_def)
  have b: "length ?b = length blob" "take ?e ?b = take ?e blob"
  proof -
    have pe: "?p \<le> ?e" "?e \<le> length blob" using s(3) by auto
    have eq: "?b = take ?p blob @ take (?e - ?p) (drop ?p blob) @ drop ?e (fm_b s)"
      using s pe by (simp add: slice_assign_def py_slice_def max_def min_absorb1)
    have front: "take ?p blob @ take (?e - ?p) (drop ?p blob) = take ?e blob" using pe by (simp flip: take_add)
    then show "length ?b = length blob" unfolding eq using s(2) pe by (simp flip: append_assoc)
    show "take ?e ?b = take ?e blob" unfolding eq using pe front by (simp flip: append_assoc)
  qed
  show ?thesis
  proof (cases "length blob \<le> ?e")
    case True
    then have "?b = blob" using b by simp
    then show ?thesis using True s b by (simp add: fm_turn_def fm_ok_def Let_def)
  next
    case False
    then show ?thesis using s b by (simp add: fm_turn_def fm_ok_def Let_def)
  qed
qed

theorem measured_blob_stays: "fm_a ((fm_turn ^^ k) (fm_start blob)) = blob"
proof -
  have "fm_ok blob (fm_start blob)" by (simp add: fm_start_def fm_ok_def)
  then have "fm_ok blob ((fm_turn ^^ k) (fm_start blob))"
    by (induction k) (simp_all add: fm_turn_ok)
  then show ?thesis by (simp add: fm_ok_def)
qed

lemma sized_data_length: "chunk \<noteq> [] \<Longrightarrow> length (sized_data chunk sz) = sz * 1024 * 1024"
proof -
  assume "chunk \<noteq> []"
  then have "sz * 1024 * 1024 \<le> (sz * 1024 * 1024 div length chunk + 1) * length chunk"
    using dividend_less_times_div [of "length chunk" "sz * 1024 * 1024"] by (simp add: algebra_simps)
  then show ?thesis by (simp add: sized_data_def length_concat sum_list_replicate)
qed

text \<open>The mean of the samples lies between the least and the greatest.\<close>

lemma bm_summary_bounds:
  assumes "samples \<noteq> []" "bm_summarize base samples = (lo, avg, hi, r)"
  shows "lo \<le> avg \<and> avg \<le> hi"
proof -
  have eq: "lo = Min (set samples)" "hi = Max (set samples)" "avg = sum_list samples / of_nat (length samples)"
    using assms(2) by (simp_all add: bm_summarize_def Let_def)
  have "of_nat (length xs) * lo \<le> sum_list xs \<and> sum_list xs \<le> of_nat (length xs) * hi" if "set xs \<subseteq> set samples" for xs
    using that
  proof (induction xs)
    case (Cons x xs)
    then have "lo \<le> x" "x \<le> hi" unfolding eq by auto
    then show ?case using Cons by (simp add: algebra_simps)
  qed simp
  from this [OF subset_refl] show ?thesis
    using assms(1) unfolding eq(3) by (simp add: field_simps)
qed

section \<open>Waiting for the other process\<close>

text \<open>The two dictionaries after the saves: the files are in them as their blob and their digest, the other keys as before.\<close>

lemma ms_save_ok: "(\<forall>fn \<in> set fns. fs fn \<noteq> None) \<Longrightarrow> \<exists>s'. ms_save E fs fns s = Inr s'"
proof (induction fns arbitrary: s)
  case (Cons fn fns)
  then obtain data where "fs fn = Some data" by auto
  then show ?case using Cons by simp
qed simp

lemma ms_save_keeps:
  "ms_save E fs fns s = Inr s' \<Longrightarrow> dict_get (fst s) fn = Some (lzma_compress E 9 (the (fs fn))) \<Longrightarrow>
   dict_get (snd s) fn = Some (file_hash E (the (fs fn))) \<Longrightarrow>
   dict_get (fst s') fn = Some (lzma_compress E 9 (the (fs fn))) \<and> dict_get (snd s') fn = Some (file_hash E (the (fs fn)))"
proof (induction fns arbitrary: s)
  case (Cons gn fns)
  obtain data where data: "fs gn = Some data" using Cons.prems(1) by (cases "fs gn") auto
  show ?case
    by (rule Cons.IH [where s = "(dict_set gn (lzma_compress E 9 data) (fst s), dict_set gn (file_hash E data) (snd s))"])
      (use Cons.prems data in simp_all)
qed simp

lemma ms_save_holds:
  "ms_save E fs fns s = Inr s' \<Longrightarrow> fn \<in> set fns \<Longrightarrow>
   dict_get (fst s') fn = Some (lzma_compress E 9 (the (fs fn))) \<and> dict_get (snd s') fn = Some (file_hash E (the (fs fn)))"
proof (induction fns arbitrary: s)
  case (Cons gn fns)
  obtain data where data: "fs gn = Some data" using Cons.prems(1) by (cases "fs gn") auto
  let ?s = "(dict_set gn (lzma_compress E 9 data) (fst s), dict_set gn (file_hash E data) (snd s))"
  have rest: "ms_save E fs fns ?s = Inr s'" using Cons.prems(1) data by simp
  show ?case
  proof (cases "fn \<in> set fns")
    case False
    then have "fn = gn" using Cons.prems(2) by simp
    then show ?thesis by (intro ms_save_keeps [OF rest]) (simp_all add: data)
  qed (rule Cons.IH [OF rest])
qed simp

lemma ms_retrieve_all:
  assumes "lzma_ok E" "dict_get (fst s) ''sample_prose.txt'' = Some (lzma_compress E 9 d)" "dict_get (snd s) ''sample_prose.txt'' = Some (file_hash E d)"
  shows "ms_retrieve E n s = Inr ()"
proof (induction n)
  case (Suc n)
  then show ?case by (simp only: ms_retrieve.simps of_option_simps assms(2,3) lzma_roundtrip [OF assms(1)] sum.case refl if_True)
qed simp

lemma ms_save_missing: "fn \<in> set fns \<Longrightarrow> fs fn = None \<Longrightarrow> \<exists>e. ms_save E fs fns s = Inl e"
  by (induction fns arbitrary: s) (auto split: option.splits)

text \<open>The script ends exactly when all four files are there; if one is missing the worker raises, and the script waits for ever.\<close>

theorem measured_run_waits:
  assumes "lzma_ok E"
  shows "ms_waits (ms_worker E fs) \<longleftrightarrow> (\<forall>fn \<in> set ms_files. fs fn \<noteq> None)"
proof (cases "\<forall>fn \<in> set ms_files. fs fn \<noteq> None")
  case True
  obtain s where s: "ms_save E fs ms_files ([], []) = Inr s" using ms_save_ok [OF True] by blast
  have "''sample_prose.txt'' \<in> set ms_files" by (simp add: ms_files_def)
  from ms_save_holds [OF s this] have "ms_retrieve E 50 s = Inr ()"
    by (intro ms_retrieve_all [OF assms, where d = "the (fs ''sample_prose.txt'')"]) simp_all
  then have "ms_worker E fs = [''SAVED'', ''RETRIEVING'', ''DONE_RETRIEVING'']" by (simp add: ms_worker_def s)
  moreover have "ms_waits [''SAVED'', ''RETRIEVING'', ''DONE_RETRIEVING'']" by code_simp
  ultimately show ?thesis using True by simp
next
  case False
  then obtain fn where "fn \<in> set ms_files" "fs fn = None" by blast
  then have "ms_worker E fs = []" using ms_save_missing [of fn ms_files fs E "([], [])"] by (auto simp: ms_worker_def)
  then show ?thesis using False by (simp add: ms_waits_def)
qed

text \<open>
  A process that has been killed keeps its entry in \<open>/proc\<close> until its parent waits for it, and the script waits only
  after the loop: as long as the entry is there, the loop ends after five seconds and reports no time.
\<close>

theorem unwaited_process_is_never_gone:
  "list_all fst turns \<Longrightarrow> dt_poll kill_time checks turns = Some (gone, n) \<Longrightarrow> gone = None \<and> (\<exists>x \<in> set turns. 5 < snd x - kill_time)"
  by (induction kill_time checks turns rule: dt_poll.induct) (auto split: if_splits)

text \<open>The last line of the simulation says NO whatever happened to the second machine.\<close>

theorem no_loss_is_always_reported:
  "mm_run E test_data m1 m2 = Inr (r1, survived, said) \<Longrightarrow> said = ''Total data loss: NO.''"
  by (auto simp: mm_run_def map_res_iff)

text \<open>A chain of processes that copy gives the file.\<close>

lemma copies_match: "\<forall>k d. cat k d = d \<Longrightarrow> ep_matches E cat source"
proof -
  assume "\<forall>k d. cat k d = d"
  then have "fold cat ks d = d" for ks d by (induction ks) simp_all
  then show ?thesis by (simp only: ep_matches_def Let_def)
qed

end
