(* ===== verification/Scripts.thy ===== *)
theory Scripts
  imports Trials FirstStores NestedChain FallingFile
begin

text \<open>
  The scripts at the end of the first stores of \<open>backup-original-source/vstorage\<close>, run on the models of those stores:
  \<open>virtual_storage_system.py\<close>, \<open>general_splitter.py\<close>, \<open>combined_full_system.py\<close> (\<open>FirstStores\<close>), \<open>nested_boxes.py\<close> and
  \<open>nested_boxes_v2.py\<close> (\<open>NestedChain\<close>), and \<open>falling_storage.py\<close> (\<open>FallingFile\<close>). A result is what a script prints,
  without the layout; what threads do in the pauses and what is drawn at random are arguments, times and the figures of
  memory and of the disk are left out.
\<close>

section \<open>virtual\_storage\_system.py\<close>

definition vm_files :: "string list" where
  "vm_files = [''sample_code.c'', ''sample_data.json'', ''sample_prose.txt'', ''bigreal.txt'']"

fun vm_save :: "env \<Rightarrow> disk \<Rightarrow> string list \<Rightarrow> nat \<Rightarrow> vault \<Rightarrow> (nat \<times> vault) res" where
  "vm_save E fs [] total_full s = Inr (total_full, s)"
| "vm_save E fs (fn # fns) total_full s =
     (case fs fn of None \<Rightarrow> Inl FileNotFoundError
      | Some data \<Rightarrow> (let ((full, broken), s') = vt_save E fn data s in vm_save E fs fns (total_full + full) s'))"

text \<open>\<open>retrieved.splitlines()[0][:50].decode()\<close>: without lines it raises, and the cut may fall within a character.\<close>

definition vm_first_line :: "bytes \<Rightarrow> string res" where
  "vm_first_line d = (if d = [] then Inl IndexError else decode_utf8 (take 50 (takeWhile (\<lambda>b. b \<noteq> 10 \<and> b \<noteq> 13) d)))"

text \<open>\<open>storage.retrieve(name)\<close>, and whether it is what the file has.\<close>

definition vm_compare :: "env \<Rightarrow> disk \<Rightarrow> string \<Rightarrow> vault \<Rightarrow> (bytes \<times> bool) res" where
  "vm_compare E fs name s =
     (case vt_retrieve E name s of Inl e \<Rightarrow> Inl e
      | Inr retrieved \<Rightarrow> map_res (\<lambda>original. (retrieved, retrieved = original)) (of_option FileNotFoundError (fs name)))"

record vm_report =
  vm_total :: nat
  vm_rest :: nat
  vm_ratio :: rat
  vm_count :: nat
  vm_back :: "bytes \<times> bool"
  vm_line :: string
  vm_other :: "bytes \<times> bool"

definition vm_main :: "env \<Rightarrow> disk \<Rightarrow> vm_report res" where
  "vm_main E fs =
     (case vm_save E fs vm_files 0 \<lparr>vt_vault = [], vt_hashes = []\<rparr> of Inl e \<Rightarrow> Inl e | Inr saved \<Rightarrow>
      case ratio_of (fst saved) (vt_footprint_at_rest (snd saved)) of Inl e \<Rightarrow> Inl e | Inr r \<Rightarrow>
      case vm_compare E fs ''sample_prose.txt'' (snd saved) of Inl e \<Rightarrow> Inl e | Inr back \<Rightarrow>
      case vm_first_line (fst back) of Inl e \<Rightarrow> Inl e | Inr line \<Rightarrow>
      map_res (\<lambda>other. \<lparr>vm_total = fst saved, vm_rest = vt_footprint_at_rest (snd saved), vm_ratio = r,
          vm_count = length (vt_vault (snd saved)), vm_back = back, vm_line = line, vm_other = other\<rparr>)
        (vm_compare E fs ''sample_code.c'' (snd saved)))"

section \<open>general\_splitter.py\<close>

definition gs_files :: "string list" where
  "gs_files = [''medical_records.json'', ''sample_code.c'', ''sample_prose.txt'', ''sample_data.json'', ''unstructured_real.pdf'',
     ''sample_binary.bin'']"

record gs_row =
  gr_name :: string
  gr_raw :: nat
  gr_content :: nat
  gr_structure :: nat
  gr_metadata :: nat
  gr_held :: nat
  gr_ratio :: rat

definition gs_row_of :: "env \<Rightarrow> string \<Rightarrow> first_pieces \<Rightarrow> bytes \<Rightarrow> gs_row res" where
  "gs_row_of E fp pieces raw =
     (let compressed = process_through_storage E pieces;
          held = sum_list (map (\<lambda>(w, v). length v) compressed);
          size = (\<lambda>w. map_res length (of_option KeyError (dict_get compressed w))) in
      case size Content of Inl e \<Rightarrow> Inl e | Inr c \<Rightarrow>
      case size Structure of Inl e \<Rightarrow> Inl e | Inr st \<Rightarrow>
      map_res (\<lambda>m. \<lparr>gr_name = fp, gr_raw = length raw, gr_content = c, gr_structure = st, gr_metadata = m, gr_held = held,
          gr_ratio = (if 0 < held then of_nat (length raw) / of_nat held else 1)\<rparr>) (size Metadata))"

fun gs_loop :: "env \<Rightarrow> zip_list \<Rightarrow> disk \<Rightarrow> string list \<Rightarrow> gs_row list res" where
  "gs_loop E zl fs [] = Inr []"
| "gs_loop E zl fs (fp # fps) =
     (if fs fp = None then gs_loop E zl fs fps
      else (case gs_split_document E zl fs fp of Inl e \<Rightarrow> Inl e | Inr (pieces, raw) \<Rightarrow>
        case gs_row_of E fp pieces raw of Inl e \<Rightarrow> Inl e | Inr row \<Rightarrow> map_res (\<lambda>rows. row # rows) (gs_loop E zl fs fps)))"

definition gs_main :: "env \<Rightarrow> zip_list \<Rightarrow> disk \<Rightarrow> (gs_row list \<times> nat \<times> nat \<times> rat) res" where
  "gs_main E zl fs =
     (case gs_loop E zl fs gs_files of Inl e \<Rightarrow> Inl e | Inr rows \<Rightarrow>
      let grand_raw = sum_list (map gr_raw rows); grand_held = sum_list (map gr_held rows)
      in map_res (\<lambda>r. (rows, grand_raw, grand_held, r)) (ratio_of grand_raw grand_held))"

section \<open>combined\_full\_system.py\<close>

definition cm_files :: "(string, string) dict" where
  "cm_files = [(''medical'', ''medical_records.json''), (''code'', ''sample_code.c''), (''prose'', ''sample_prose.txt''),
     (''data'', ''sample_data.json''), (''pdf'', ''unstructured_real.pdf'')]"

fun cm_save :: "env \<Rightarrow> disk \<Rightarrow> (string, string) dict \<Rightarrow> nat \<Rightarrow> cstore \<Rightarrow> nat res \<times> cstore" where
  "cm_save E fs [] total_raw s = (Inr total_raw, s)"
| "cm_save E fs ((name, path) # rest) total_raw s =
     (if fs path = None then cm_save E fs rest total_raw s
      else (case cs_save E fs name path s of
          (Inl e, s') \<Rightarrow> (Inl e, s')
        | (Inr (raw_size, held_size), s') \<Rightarrow>
            (case ratio_of raw_size held_size of Inl e \<Rightarrow> (Inl e, s')
             | Inr _ \<Rightarrow> cm_save E fs rest (total_raw + raw_size) s')))"

text \<open>The turns that the threads of the pieces take in a pause.\<close>

definition cm_sleep :: "(string \<times> which) list \<Rightarrow> cstore \<Rightarrow> cstore" where
  "cm_sleep turns s = fold (\<lambda>(name, w). cs_turn name w) turns s"

record cm_report =
  cm_total_raw :: nat
  cm_footprint :: nat
  cm_content :: nat
  cm_full_pdf :: nat
  cm_exact :: bool
  cm_meta :: json
  cm_compression :: rat
  cm_chains :: nat

text \<open>The three retrievals of step 2, and the figures at the end, before \<open>stop_all\<close>.\<close>

definition cm_tasks :: "env \<Rightarrow> cstore \<Rightarrow> (nat \<times> nat \<times> bool \<times> json) res" where
  "cm_tasks E s =
     (case cs_retrieve_content E ''medical'' s of Inl e \<Rightarrow> Inl e | Inr content \<Rightarrow>
      case cs_retrieve_full E ''pdf'' s of Inl e \<Rightarrow> Inl e | Inr full_pdf \<Rightarrow>
      case of_option KeyError (dict_get (cs_hashes s) ''pdf'') of Inl e \<Rightarrow> Inl e | Inr h \<Rightarrow>
      map_res (\<lambda>meta. (length content, length full_pdf, file_hash E full_pdf = h, meta)) (cs_retrieve_metadata E ''code'' s))"

definition cm_chain_count :: "cstore \<Rightarrow> nat" where
  "cm_chain_count s = sum_list (map (\<lambda>(n, ts). length ts) (cs_falling s))"

definition cm_main :: "env \<Rightarrow> disk \<Rightarrow> (string \<times> which) list \<Rightarrow> (string \<times> which) list \<Rightarrow> cm_report res \<times> cstore" where
  "cm_main E fs turns1 turns2 =
     (case cm_save E fs cm_files 0 cs_init of (Inl e, s) \<Rightarrow> (Inl e, s) | (Inr total_raw, s) \<Rightarrow>
      let s1 = cm_sleep turns1 s in
      case cm_tasks E s1 of Inl e \<Rightarrow> (Inl e, s1) | Inr (content, full_pdf, exact, meta) \<Rightarrow>
      let s2 = cm_sleep turns2 s1 in
      case ratio_of total_raw (cs_footprint s2) of Inl e \<Rightarrow> (Inl e, s2) | Inr r \<Rightarrow>
      (Inr \<lparr>cm_total_raw = total_raw, cm_footprint = cs_footprint s2, cm_content = content, cm_full_pdf = full_pdf, cm_exact = exact,
            cm_meta = meta, cm_compression = r, cm_chains = cm_chain_count s2\<rparr>, cs_stop_all s2))"

section \<open>nested\_boxes.py\<close>

text \<open>\<open>repr\<close> of a box, whose name is the beginning of a uuid; a box as contents is true, \<open>None\<close> is not.\<close>

definition box_repr :: "(nat \<Rightarrow> string) \<Rightarrow> nchain \<Rightarrow> nat \<Rightarrow> string" where
  "box_repr ids s b =
     (let x = ns_store s b;
          inner = (case bx_contents x of File _ \<Rightarrow> ''file'' | Inner c \<Rightarrow> ids c | Empty \<Rightarrow> ''empty'')
      in ''Box('' @ ids b @ '', holds='' @ inner @ '', alive='' @ (if bx_alive x then ''True'' else ''False'') @ '')'')"

definition nb_status :: "(nat \<Rightarrow> string) \<Rightarrow> nchain \<Rightarrow> string" where
  "nb_status ids s = sep_by '' -> '' (map (box_repr ids s) (ns_boxes s))"

text \<open>The rounds: the last message, whether the file is intact, and the chain.\<close>

type_synonym nb_line = "message \<times> bool \<times> string"

fun nb_rounds :: "(nat \<Rightarrow> string) \<Rightarrow> nat \<Rightarrow> bool \<Rightarrow> nchain \<Rightarrow> (nb_line list \<times> bool \<times> nchain) res" where
  "nb_rounds ids 0 survived_all s = Inr ([], survived_all, s)"
| "nb_rounds ids (Suc n) survived_all s =
     (case n1_break_innermost s of (Inl e, _) \<Rightarrow> Inl e | (Inr ok, s1) \<Rightarrow>
      case verify_file_intact s1 of Inl e \<Rightarrow> Inl e | Inr intact \<Rightarrow>
      if ns_history s1 = [] then Inl IndexError
      else map_res (\<lambda>(ls, r). ((last (ns_history s1), intact, nb_status ids s1) # ls, r)) (nb_rounds ids n (survived_all \<and> intact) s1))"

definition nb_main :: "(nat \<Rightarrow> string) \<Rightarrow> bytes \<Rightarrow> (string \<times> nb_line list \<times> bool \<times> nat) res" where
  "nb_main ids test_file =
     (let s = n1_init test_file 3
      in map_res (\<lambda>(ls, survived_all, s'). (nb_status ids s, ls, survived_all, length (ns_boxes s'))) (nb_rounds ids 10 True s))"

section \<open>nested\_boxes\_v2.py\<close>

definition NUM_BREAKS :: nat where
  "NUM_BREAKS = 5000"

record nb2_counts =
  nk_inner :: nat
  nk_outer :: nat
  nk_depths :: "nat set"

text \<open>\<open>inside i\<close> is \<open>random.random() < 0.85\<close> at turn \<open>i\<close>. The result also tells the turn at which the file was found lost.\<close>

definition nb2_break :: "bool \<Rightarrow> nchain \<Rightarrow> unit res \<times> nchain" where
  "nb2_break inside s =
     (if inside then map_prod (map_res (\<lambda>_. ())) id (n2_break_innermost s) else map_prod (map_res (\<lambda>_. ())) id (n2_break_outermost s))"

fun nb2_loop :: "(nat \<Rightarrow> bool) \<Rightarrow> nat \<Rightarrow> nat \<Rightarrow> nb2_counts \<Rightarrow> nchain \<Rightarrow> (nb2_counts \<times> nat option \<times> nchain) res" where
  "nb2_loop inside i 0 c s = Inr (c, None, s)"
| "nb2_loop inside i (Suc n) c s =
     (let d = insert (chain_depth s) (nk_depths c);
          c1 = (if inside i then c\<lparr>nk_depths := d, nk_inner := nk_inner c + 1\<rparr> else c\<lparr>nk_depths := d, nk_outer := nk_outer c + 1\<rparr>) in
      case nb2_break (inside i) s of (Inl e, _) \<Rightarrow> Inl e | (Inr _, s1) \<Rightarrow>
      case verify_file_intact s1 of Inl e \<Rightarrow> Inl e | Inr intact \<Rightarrow>
      if intact then nb2_loop inside (Suc i) n c1 s1 else Inr (c1, Some i, s1))"

record nb2_report =
  n2r_counts :: nb2_counts
  n2r_failure :: "nat option"
  n2r_breaks :: nat
  n2r_intact :: bool
  n2r_matches :: bool
  n2r_text :: string

text \<open>\<open>hashlib.sha256(storage.innermost().contents)\<close> wants bytes.\<close>

definition inner_bytes :: "nchain \<Rightarrow> bytes res" where
  "inner_bytes s =
     (case innermost s of Inl e \<Rightarrow> Inl e | Inr b \<Rightarrow> (case bx_contents (ns_store s b) of File d \<Rightarrow> Inr d | _ \<Rightarrow> Inl TypeError))"

definition nb2_main :: "env \<Rightarrow> disk \<Rightarrow> (nat \<Rightarrow> bool) \<Rightarrow> nb2_report res" where
  "nb2_main E fs inside =
     (case of_option FileNotFoundError (fs ''test_document.md'') of Inl e \<Rightarrow> Inl e | Inr real_file \<Rightarrow>
      case n2_init real_file 3 of (Inl e, _) \<Rightarrow> Inl e | (Inr _, s) \<Rightarrow>
      case nb2_loop inside 0 NUM_BREAKS \<lparr>nk_inner = 0, nk_outer = 0, nk_depths = {}\<rparr> s of Inl e \<Rightarrow> Inl e | Inr (c, failure, s1) \<Rightarrow>
      case verify_file_intact s1 of Inl e \<Rightarrow> Inl e | Inr final_intact \<Rightarrow>
      case inner_bytes s1 of Inl e \<Rightarrow> Inl e | Inr d \<Rightarrow>
      map_res (\<lambda>t. \<lparr>n2r_counts = c, n2r_failure = failure, n2r_breaks = ns_break_count s1, n2r_intact = final_intact,
          n2r_matches = (file_hash E d = file_hash E real_file), n2r_text = t\<rparr>) (decode_utf8 d))"

section \<open>falling\_storage.py\<close>

text \<open>\<open>h\<close> is Python's \<open>hash\<close>; the thread makes some hops before the snapshot, between it and the reading, and after.\<close>

record ff_report =
  fr_hops :: nat
  fr_ports :: "(string, string) dict"
  fr_ok :: bool

definition ff_script :: "(bytes \<Rightarrow> int) \<Rightarrow> bytes \<Rightarrow> nat \<Rightarrow> nat \<Rightarrow> nat \<Rightarrow> ff_report res" where
  "ff_script h test_data hops1 hops2 hops3 =
     (case ff_init test_data 32 of Inl e \<Rightarrow> Inl e | Inr s \<Rightarrow>
      let s1 = (ff_hop ^^ hops1) (ff_start s); s2 = (ff_hop ^^ hops2) s1; s3 = ff_stop ((ff_hop ^^ hops3) s2)
      in map_res (\<lambda>rebuilt. \<lparr>fr_hops = ff_hops s3, fr_ports = take 8 (ff_where s1), fr_ok = (h rebuilt = h test_data)\<rparr>) (ff_reconstruct s2))"

section \<open>What the scripts show\<close>

text \<open>With its four files there, the first script gets both files back as they are; it fails only over the line it prints.\<close>

lemma vm_saved:
  "\<forall>fn \<in> set fns. fs fn = Some (d fn) \<Longrightarrow>
   vm_save E fs fns n s = Inr (n + sum_list (map (length \<circ> d) fns), fold (\<lambda>fn s. snd (vt_save E fn (d fn) s)) fns s)"
  by (induction fns arbitrary: n s) (simp_all add: vt_save_def Let_def)

theorem vm_main_gives_back:
  assumes "lzma_ok E" "\<forall>fn \<in> set vm_files. fs fn = Some (d fn)"
  shows "\<exists>r. vm_main E fs = map_res (\<lambda>line. r\<lparr>vm_line := line\<rparr>) (vm_first_line (d ''sample_prose.txt'')) \<and>
    vm_total r = sum_list (map (length \<circ> d) vm_files) \<and> vm_rest r = sum_list (map (\<lambda>fn. length (lzma_compress E 9 (d fn))) vm_files) \<and>
    vm_back r = (d ''sample_prose.txt'', True) \<and> vm_other r = (d ''sample_code.c'', True)"
proof -
  let ?s = "fold (\<lambda>fn s. snd (vt_save E fn (d fn) s)) vm_files \<lparr>vt_vault = [], vt_hashes = []\<rparr>"
  have vault: "vt_vault ?s = map (\<lambda>fn. (fn, lzma_compress E 9 (d fn))) vm_files"
    by (simp add: vm_files_def vt_save_def dict_set_def Let_def)
  have rest: "vt_footprint_at_rest ?s = sum_list (map (\<lambda>fn. length (lzma_compress E 9 (d fn))) vm_files)"
    unfolding vt_footprint_at_rest_def vault by (simp add: comp_def)
  have pos: "vt_footprint_at_rest ?s \<noteq> 0"
    unfolding rest using assms(1) by (simp add: vm_files_def lzma_nonempty)
  have same: "vt_retrieve E ''sample_prose.txt'' ?s = Inr (d ''sample_prose.txt'')" "vt_retrieve E ''sample_code.c'' ?s = Inr (d ''sample_code.c'')"
    by (simp_all add: vm_files_def vt_retrieve_saved [OF assms(1)])
  have there: "fs ''sample_prose.txt'' = Some (d ''sample_prose.txt'')" "fs ''sample_code.c'' = Some (d ''sample_code.c'')"
    using assms(2) by (simp_all add: vm_files_def)
  let ?r = "\<lparr>vm_total = sum_list (map (length \<circ> d) vm_files), vm_rest = vt_footprint_at_rest ?s,
      vm_ratio = of_nat (sum_list (map (length \<circ> d) vm_files)) / of_nat (vt_footprint_at_rest ?s), vm_count = length (vt_vault ?s),
      vm_back = (d ''sample_prose.txt'', True), vm_line = [], vm_other = (d ''sample_code.c'', True)\<rparr>"
  have "vm_main E fs = map_res (\<lambda>line. ?r\<lparr>vm_line := line\<rparr>) (vm_first_line (d ''sample_prose.txt''))"
    unfolding vm_main_def vm_saved [OF assms(2)] using pos
    by (simp add: ratio_of_def vm_compare_def same there split: sum.split)
  then show ?thesis by (intro exI [of _ ?r]) (simp add: rest)
qed

text \<open>The splitter's script takes the files that are there, in order; without any it ends in a division by zero.\<close>

lemma gs_split_total: "fs fp \<noteq> None \<Longrightarrow> \<exists>p raw. gs_split_document E zl fs fp = Inr (p, raw) \<and> fs fp = Some raw \<and> fp_metadata p \<noteq> []"
  by (auto simp: gs_split_document_def Let_def dumps_indent2_def encode_utf8_def utf8_char_def split: prod.split)

lemma gs_row_facts:
  assumes "lzma_ok E" "fp_metadata p \<noteq> []"
  shows "\<exists>row. gs_row_of E fp p raw = Inr row \<and> gr_name row = fp \<and> gr_raw row = length raw \<and> 0 < gr_held row"
  using assms by (simp add: gs_row_of_def process_through_storage_def Let_def dict_get_def press_def lzma_nonempty)

lemma gs_loop_rows:
  assumes "lzma_ok E"
  shows "\<exists>rows. gs_loop E zl fs fps = Inr rows \<and> map gr_name rows = filter (\<lambda>fp. fs fp \<noteq> None) fps \<and>
    (\<forall>row \<in> set rows. fs (gr_name row) \<noteq> None \<and> gr_raw row = length (the (fs (gr_name row))) \<and> 0 < gr_held row)"
proof (induction fps)
  case (Cons fp fps)
  show ?case
  proof (cases "fs fp = None")
    case False
    obtain p raw where p: "gs_split_document E zl fs fp = Inr (p, raw)" "fs fp = Some raw" "fp_metadata p \<noteq> []"
      using gs_split_total [where fs = fs and fp = fp and E = E and zl = zl, OF False] by blast
    obtain row where "gs_row_of E fp p raw = Inr row" "gr_name row = fp" "gr_raw row = length raw" "0 < gr_held row"
      using gs_row_facts [OF assms p(3)] by blast
    then show ?thesis using Cons p by auto
  qed (use Cons in simp)
qed simp

theorem gs_main_rows:
  assumes "lzma_ok E"
  shows "if \<forall>fp \<in> set gs_files. fs fp = None then gs_main E zl fs = Inl ZeroDivisionError
    else \<exists>rows held r. gs_main E zl fs = Inr (rows, sum_list (map (length \<circ> the \<circ> fs) (filter (\<lambda>fp. fs fp \<noteq> None) gs_files)), held, r) \<and>
      map gr_name rows = filter (\<lambda>fp. fs fp \<noteq> None) gs_files"
proof -
  obtain rows where rows: "gs_loop E zl fs gs_files = Inr rows" "map gr_name rows = filter (\<lambda>fp. fs fp \<noteq> None) gs_files"
    "\<forall>row \<in> set rows. gr_raw row = length (the (fs (gr_name row))) \<and> 0 < gr_held row"
    using gs_loop_rows [OF assms, of zl fs gs_files] by blast
  have "map gr_raw rows = map (length \<circ> the \<circ> fs) (map gr_name rows)" using rows(3) by simp
  then have raw: "map gr_raw rows = map (length \<circ> the \<circ> fs) (filter (\<lambda>fp. fs fp \<noteq> None) gs_files)" unfolding rows(2) .
  show ?thesis
  proof (cases "rows = []")
    case True
    then have "filter (\<lambda>fp. fs fp \<noteq> None) gs_files = []" using rows(2) by simp
    then have "\<forall>fp \<in> set gs_files. fs fp = None" by (simp only: filter_empty_conv) blast
    then show ?thesis using rows(1) True by (simp add: gs_main_def ratio_of_def)
  next
    case False
    then have "filter (\<lambda>fp. fs fp \<noteq> None) gs_files \<noteq> []" using rows(2) by (metis list.map_disc_iff)
    then have "\<not> (\<forall>fp \<in> set gs_files. fs fp = None)" by (simp add: filter_empty_conv)
    moreover have "sum_list (map gr_held rows) \<noteq> 0" using False rows(3) by (cases rows) auto
    moreover have "gs_main E zl fs = Inr (rows, sum_list (map gr_raw rows), sum_list (map gr_held rows),
        of_nat (sum_list (map gr_raw rows)) / of_nat (sum_list (map gr_held rows)))"
      if "sum_list (map gr_held rows) \<noteq> 0"
      by (simp only: gs_main_def rows(1) sum.case Let_def ratio_of_def that if_False map_res_simps)
    ultimately show ?thesis unfolding raw using rows(2) by (simp only: if_False) blast
  qed
qed

text \<open>
  The combined script, when the three files it asks for are there: whatever its threads do in the pauses, the PDF comes
  back exactly, the records have their length, and at the end every thread has been told to stop.
\<close>

lemma cs_save_exists: "fs path = Some raw \<Longrightarrow> \<exists>p. cs_split_document E fs path = Inr (p, raw) \<and> fp_metadata p \<noteq> [] \<and>
    (first_ext path \<in> set FIRST_TEXT_EXTS \<longrightarrow> fp_content p = raw) \<and> (first_ext path \<notin> set FIRST_TEXT_EXTS \<longrightarrow> fp_structure p = raw)"
  by (simp add: cs_split_document_def Let_def dumps_indent2_def encode_utf8_def utf8_char_def)

lemma cs_save_result:
  "cs_split_document E fs path = Inr (p, raw) \<Longrightarrow>
   fst (cs_save E fs name path s) = Inr (length raw, sum_list (map (\<lambda>(w, d). length d) (process_through_storage E p)))"
  by (simp add: cs_save_def Let_def)

lemma held_pos: "lzma_ok E \<Longrightarrow> fp_metadata p \<noteq> [] \<Longrightarrow> sum_list (map (\<lambda>(w, d). length d) (process_through_storage E p)) \<noteq> 0"
  by (simp add: process_through_storage_def press_def lzma_nonempty)

lemma cm_save_step:
  assumes "lzma_ok E" "fs path = Some raw"
  shows "\<exists>p s1. cs_split_document E fs path = Inr (p, raw) \<and> stored_as E name p raw s1 \<and>
    (\<forall>m q r. stored_as E m q r s \<longrightarrow> m \<noteq> name \<longrightarrow> stored_as E m q r s1) \<and>
    (\<forall>files t. cm_save E fs ((name, path) # files) t s = cm_save E fs files (t + length raw) s1)"
proof -
  obtain p where p: "cs_split_document E fs path = Inr (p, raw)" "fp_metadata p \<noteq> []"
    using cs_save_exists [of fs path raw E, OF assms(2)] by blast
  obtain r s1 where r: "cs_save E fs name path s = (r, s1)" by fastforce
  let ?held = "sum_list (map (\<lambda>(w, d). length d) (process_through_storage E p))"
  have eq: "r = Inr (length raw, ?held)" using cs_save_result [OF p(1), of name s] r by simp
  have ratio: "ratio_of (length raw) ?held = Inr (of_nat (length raw) / of_nat ?held)"
    using held_pos [OF assms(1) p(2)] by (simp only: ratio_of_def if_False)
  have "cm_save E fs ((name, path) # files) t s = cm_save E fs files (t + length raw) s1" for files t
    by (simp only: cm_save.simps assms(2) r eq ratio option.distinct if_False prod.case sum.case)
  moreover have "stored_as E name p raw s1" using cs_save_stored [OF p(1), of name s] r by simp
  moreover have "stored_as E m q x s1" if "stored_as E m q x s" "m \<noteq> name" for m q x
    using cs_save_other [of name m E q x s fs path] that r by simp
  ultimately show ?thesis using p(1) by blast
qed

definition cm_holds :: "env \<Rightarrow> disk \<Rightarrow> string \<Rightarrow> string \<Rightarrow> cstore \<Rightarrow> bool" where
  "cm_holds E fs name path s \<longleftrightarrow> (\<forall>raw. fs path = Some raw \<longrightarrow> (\<exists>p. cs_split_document E fs path = Inr (p, raw) \<and> stored_as E name p raw s))"

lemma cm_save_stored:
  assumes "lzma_ok E" "distinct (map fst files)"
  shows "\<exists>n s'. cm_save E fs files t s = (Inr n, s') \<and> (\<forall>(name, path) \<in> set files. cm_holds E fs name path s') \<and>
    (\<forall>name p raw. name \<notin> set (map fst files) \<longrightarrow> stored_as E name p raw s \<longrightarrow> stored_as E name p raw s')"
  using assms(2)
proof (induction files arbitrary: t s)
  case (Cons f files)
  obtain name path where f: "f = (name, path)" by fastforce
  have d: "distinct (map fst files)" "name \<notin> set (map fst files)" using Cons.prems f by simp_all
  show ?case
  proof (cases "fs path")
    case None
    obtain n s' where s': "cm_save E fs files t s = (Inr n, s')" "\<forall>(name, path) \<in> set files. cm_holds E fs name path s'"
      "\<forall>name p raw. name \<notin> set (map fst files) \<longrightarrow> stored_as E name p raw s \<longrightarrow> stored_as E name p raw s'"
      using Cons.IH [OF d(1), of t s] by blast
    moreover have "cm_holds E fs name path s'" using None by (simp add: cm_holds_def)
    moreover have "cm_save E fs (f # files) t s = (Inr n, s')" using s'(1) None f by simp
    ultimately show ?thesis using f by (intro exI [of _ n] exI [of _ s']) simp
  next
    case (Some raw)
    obtain p s1 where s1: "cs_split_document E fs path = Inr (p, raw)" "stored_as E name p raw s1"
      "\<forall>m q r. stored_as E m q r s \<longrightarrow> m \<noteq> name \<longrightarrow> stored_as E m q r s1"
      "\<forall>files t. cm_save E fs ((name, path) # files) t s = cm_save E fs files (t + length raw) s1"
      using cm_save_step [OF assms(1), of fs path raw name s, OF Some] by blast
    obtain n s' where s': "cm_save E fs files (t + length raw) s1 = (Inr n, s')" "\<forall>(name, path) \<in> set files. cm_holds E fs name path s'"
      "\<forall>name p raw. name \<notin> set (map fst files) \<longrightarrow> stored_as E name p raw s1 \<longrightarrow> stored_as E name p raw s'"
      using Cons.IH [OF d(1), of "t + length raw" s1] by blast
    have "stored_as E name p raw s'" using s'(3) d(2) s1(2) by blast
    then have "cm_holds E fs name path s'" using Some s1(1) by (simp add: cm_holds_def)
    moreover have "cm_save E fs (f # files) t s = (Inr n, s')" using s1(4) s'(1) f by simp
    moreover have "\<forall>m q r. m \<notin> set (map fst (f # files)) \<longrightarrow> stored_as E m q r s \<longrightarrow> stored_as E m q r s'"
      using s'(3) s1(3) f by auto
    ultimately show ?thesis using s'(2) f by (intro exI [of _ n] exI [of _ s']) simp
  qed
qed simp

lemma cm_sleep_stored: "stored_as E name p raw s \<Longrightarrow> stored_as E name p raw (cm_sleep turns s)"
  unfolding cm_sleep_def by (induction turns arbitrary: s) (auto simp: cs_turn_stored)

lemma stored_pieces:
  assumes "lzma_ok E" "stored_as E name p raw s"
  shows "cs_retrieve_content E name s = Inr (fp_content p)" "cs_retrieve_full E name s = Inr (fp_structure p)"
    "dict_get (cs_hashes s) name = Some (hexdigest (sha256 E raw))"
    "fp_metadata p \<noteq> [] \<Longrightarrow> vault_piece name Metadata s = Inr (lzma_compress E 9 (fp_metadata p))"
proof -
  have v: "dict_get (cs_vault s) name = Some (process_through_storage E p)" using assms(2) by (simp add: stored_as_def)
  have "vault_piece name Content s = Inr (press E (fp_content p))" "vault_piece name Structure s = Inr (press E (fp_structure p))"
    "vault_piece name Metadata s = Inr (press E (fp_metadata p))"
    unfolding vault_piece_def v by (simp_all add: process_through_storage_def dict_get_def)
  then show "cs_retrieve_content E name s = Inr (fp_content p)" "cs_retrieve_full E name s = Inr (fp_structure p)"
    "fp_metadata p \<noteq> [] \<Longrightarrow> vault_piece name Metadata s = Inr (lzma_compress E 9 (fp_metadata p))"
    using unpress_press [OF assms(1)] by (simp_all add: cs_retrieve_content_def cs_retrieve_full_def press_def)
  show "dict_get (cs_hashes s) name = Some (hexdigest (sha256 E raw))" using assms(2) by (simp add: stored_as_def)
qed

lemma first_exts:
  "first_ext ''medical_records.json'' = ''json''" "first_ext ''unstructured_real.pdf'' = ''pdf''" "first_ext ''sample_code.c'' = ''c''"
  by (simp_all add: first_ext_def py_lower_def lower_char_def)

lemma cm_files_at:
  "distinct (map fst cm_files)" "(''medical'', ''medical_records.json'') \<in> set cm_files" "(''pdf'', ''unstructured_real.pdf'') \<in> set cm_files"
  "(''code'', ''sample_code.c'') \<in> set cm_files"
  by (simp_all add: cm_files_def)

lemma cs_meta_back:
  assumes "lzma_ok E" "fs path = Some raw" "cs_split_document E fs path = Inr (p, raw)" "stored_as E name p raw s"
  shows "cs_retrieve_metadata E name s = Inr (JObj (cs_metadata E path raw))"
proof -
  have p: "fp_metadata p = encode_utf8 (dumps_indent2 (cs_metadata E path raw))"
    using assms(2,3) by (auto simp: cs_split_document_def Let_def split: if_splits)
  have ne: "fp_metadata p \<noteq> []" using p by (simp add: dumps_indent2_def encode_utf8_def utf8_char_def Let_def)
  have "loads (dumps_indent2 (cs_metadata E path raw)) = Some (JObj (cs_metadata E path raw))"
    by (rule loads_dumps_indent2) (simp_all add: cs_metadata_def)
  then show ?thesis
    using stored_pieces(4) [OF assms(1,4) ne] p assms(1) by (simp add: cs_retrieve_metadata_def lzma_simps decode_encode)
qed

lemma footprint_pos:
  assumes "lzma_ok E" "stored_as E name p raw s" "fp_metadata p \<noteq> []"
  shows "cs_footprint s \<noteq> 0"
proof -
  have "dict_get (cs_vault s) name = Some (process_through_storage E p)" using assms(2) by (simp add: stored_as_def)
  then have "(name, process_through_storage E p) \<in> set (cs_vault s)" by (simp add: dict_get_def map_of_SomeD)
  then have "(case (name, process_through_storage E p) of (n, v) \<Rightarrow> sum_list (map (\<lambda>(w, d). length d) v))
      \<in> set (map (\<lambda>(n, v). sum_list (map (\<lambda>(w, d). length d) v)) (cs_vault s))" unfolding set_map by (rule imageI)
  from member_le_sum_list [OF this]
  have "sum_list (map (\<lambda>(w, d). length d) (process_through_storage E p)) \<le> cs_footprint s" by (simp add: cs_footprint_def)
  then show ?thesis using held_pos [OF assms(1,3)] by linarith
qed

theorem cm_main_tasks:
  assumes "lzma_ok E" "fs ''medical_records.json'' = Some med" "fs ''unstructured_real.pdf'' = Some pdf" "fs ''sample_code.c'' = Some code"
  shows "\<exists>r s. cm_main E fs turns1 turns2 = (Inr r, s) \<and> cm_content r = length med \<and> cm_full_pdf r = length pdf \<and> cm_exact r \<and>
    cm_meta r = JObj (cs_metadata E ''sample_code.c'' code) \<and>
    (\<forall>name ts w f. dict_get (cs_falling s) name = Some ts \<longrightarrow> (w, f) \<in> set ts \<longrightarrow> ft_stop f)"
proof -
  obtain n s where s: "cm_save E fs cm_files 0 cs_init = (Inr n, s)"
    and all: "\<forall>(name, path) \<in> set cm_files. cm_holds E fs name path s"
    using cm_save_stored [OF assms(1) cm_files_at(1), of fs 0 cs_init] by blast
  have held: "\<exists>p. cs_split_document E fs path = Inr (p, raw) \<and> stored_as E name p raw s"
    if "(name, path) \<in> set cm_files" "fs path = Some raw" for name path raw
    using all that by (auto simp: cm_holds_def)
  obtain p where p: "cs_split_document E fs ''medical_records.json'' = Inr (p, med)" "stored_as E ''medical'' p med s"
    using held [OF cm_files_at(2) assms(2)] by blast
  obtain q where q: "cs_split_document E fs ''unstructured_real.pdf'' = Inr (q, pdf)" "stored_as E ''pdf'' q pdf s"
    using held [OF cm_files_at(3) assms(3)] by blast
  obtain m where m: "cs_split_document E fs ''sample_code.c'' = Inr (m, code)" "stored_as E ''code'' m code s"
    using held [OF cm_files_at(4) assms(4)] by blast
  have texts: "''json'' \<in> set FIRST_TEXT_EXTS" "''pdf'' \<notin> set FIRST_TEXT_EXTS" by (simp_all add: FIRST_TEXT_EXTS_def)
  have pq: "fp_content p = med" "fp_structure q = pdf" "fp_metadata p \<noteq> []"
    using cs_save_exists [of fs _ _ E, OF assms(2)] cs_save_exists [of fs _ _ E, OF assms(3)] p(1) q(1) texts first_exts by simp_all
  let ?s1 = "cm_sleep turns1 s" and ?s2 = "cm_sleep turns2 (cm_sleep turns1 s)"
  note one = cm_sleep_stored [where turns = turns1]
  have tasks: "cm_tasks E ?s1 = Inr (length med, length pdf, True, JObj (cs_metadata E ''sample_code.c'' code))"
    using stored_pieces(1) [OF assms(1) one [OF p(2)]] stored_pieces(2,3) [OF assms(1) one [OF q(2)]] pq
      cs_meta_back [OF assms(1,4) m(1) one [OF m(2)]]
    by (simp add: cm_tasks_def file_hash_def)
  have foot: "cs_footprint ?s2 \<noteq> 0" by (rule footprint_pos [OF assms(1) cm_sleep_stored [OF one [OF p(2)]] pq(3)])
  have stop: "ft_stop f" if "dict_get (cs_falling (cs_stop_all x)) name = Some ts" "(w, f) \<in> set ts" for x name ts w f
    using that by (auto simp: cs_stop_all_def dict_map_def dict_get_def map_of_map)
  show ?thesis
    using stop by (simp add: cm_main_def s tasks ratio_of_def foot Let_def)
qed

text \<open>In the ten rounds of the first script and the five thousand breaks of the second the file is never lost.\<close>

lemma nb_rounds_ok:
  assumes "chain_ok file 3 s"
  shows "\<exists>ls s'. nb_rounds ids n b s = Inr (ls, b, s') \<and> length ls = n \<and> (\<forall>(m, intact, t) \<in> set ls. intact) \<and> chain_ok file 3 s'"
  using assms
proof (induction n arbitrary: s)
  case (Suc n)
  let ?s = "snd (n1_break_innermost s)"
  have ok: "fst (n1_break_innermost s) = Inr True" "chain_ok file 3 ?s" using n1_break_ok [OF Suc.prems] by simp_all
  obtain s1 where b: "n1_break_innermost s = (Inr True, s1)" using ok(1) by (metis prod.collapse)
  obtain ls s' where r: "nb_rounds ids n b ?s = Inr (ls, b, s')" "length ls = n" "\<forall>(m, intact, t) \<in> set ls. intact" "chain_ok file 3 s'"
    using Suc.IH [OF ok(2)] by blast
  have "ns_history s1 \<noteq> []"
    using b by (auto simp: n1_break_innermost_def box_defs Let_def split: sum.splits if_splits)
  then show ?case using b r chain_verify [OF ok(2)] by auto
qed simp

theorem nb_main_survives:
  "\<exists>status ls. nb_main ids file = Inr (status, ls, True, 3) \<and> length ls = 10 \<and> (\<forall>(m, intact, t) \<in> set ls. intact)"
proof -
  have "chain_ok file 3 (n1_init file 3)" by (rule n1_init_ok) simp
  from nb_rounds_ok [OF this] obtain ls s' where "nb_rounds ids 10 True (n1_init file 3) = Inr (ls, True, s')" "length ls = 10"
    "\<forall>(m, intact, t) \<in> set ls. intact" "chain_ok file 3 s'" by blast
  then show ?thesis by (simp add: nb_main_def chain_ok_def)
qed

lemma nb2_break_ok:
  assumes "chain_ok file 4 s"
  shows "\<exists>s'. nb2_break x s = (Inr (), s') \<and> chain_ok file 4 s' \<and> ns_break_count s' = ns_break_count s + 1"
proof -
  have four: "(2 :: nat) \<le> 4" by simp
  note ok = n2_break_inner_ok [OF assms four] n2_break_outer_ok [OF assms four]
  obtain xs holder dying where xs: "ns_boxes s = xs @ [holder, dying]" "innermost s = Inr dying" using chain_split [OF assms four] by metis
  have "ns_break_count (snd (n2_break_innermost s)) = ns_break_count s + 1"
    by (simp add: n2_break_innermost_def holder_of_def xs box_defs Let_def)
  moreover have "ns_break_count (snd (n2_break_outermost s)) = ns_break_count s + 1"
    by (simp add: n2_break_outermost_def reinforce_outer_end_def box_defs Let_def split: list.splits)
      (use assms in \<open>auto simp: chain_ok_def\<close>)
  ultimately show ?thesis using ok by (cases x) (simp_all add: nb2_break_def map_prod_def split_def)
qed

lemma nb2_loop_ok:
  assumes "chain_ok file 4 s"
  shows "\<exists>c' s'. nb2_loop inside i n c s = Inr (c', None, s') \<and> chain_ok file 4 s' \<and> ns_break_count s' = ns_break_count s + n \<and>
    nk_inner c' + nk_outer c' = nk_inner c + nk_outer c + n \<and> nk_depths c' = (if n = 0 then nk_depths c else insert 4 (nk_depths c))"
  using assms
proof (induction n arbitrary: i c s)
  case (Suc n)
  obtain s1 where s1: "nb2_break (inside i) s = (Inr (), s1)" "chain_ok file 4 s1" "ns_break_count s1 = ns_break_count s + 1"
    using nb2_break_ok [OF Suc.prems] by blast
  let ?c = "if inside i then c\<lparr>nk_depths := insert 4 (nk_depths c), nk_inner := nk_inner c + 1\<rparr>
    else c\<lparr>nk_depths := insert 4 (nk_depths c), nk_outer := nk_outer c + 1\<rparr>"
  have depth: "chain_depth s = 4" using Suc.prems by (simp add: chain_ok_def chain_depth_def)
  obtain c' s' where r: "nb2_loop inside (Suc i) n ?c s1 = Inr (c', None, s')" "chain_ok file 4 s'" "ns_break_count s' = ns_break_count s1 + n"
    "nk_inner c' + nk_outer c' = nk_inner ?c + nk_outer ?c + n" "nk_depths c' = (if n = 0 then nk_depths ?c else insert 4 (nk_depths ?c))"
    using Suc.IH [OF s1(2)] by blast
  have "nb2_loop inside i (Suc n) c s = Inr (c', None, s')"
    using r(1) by (subst nb2_loop.simps) (simp only: depth Let_def s1(1) prod.case sum.case chain_verify [OF s1(2)] if_True)
  then show ?case using r s1(3) by (intro exI [of _ c'] exI [of _ s']) (auto split: if_splits)
qed simp

theorem nb2_main_survives:
  assumes "fs ''test_document.md'' = Some doc"
  shows "\<exists>c r. nb2_main E fs inside = map_res (\<lambda>t. r\<lparr>n2r_text := t\<rparr>) (decode_utf8 doc) \<and> n2r_counts r = c \<and>
    n2r_failure r = None \<and> n2r_breaks r = 5000 \<and> n2r_intact r \<and> n2r_matches r \<and> nk_inner c + nk_outer c = 5000 \<and> nk_depths c = {4}"
proof -
  obtain s where s: "n2_init doc 3 = (Inr (), s)" "chain_ok doc 4 s" using n2_init_ok [of 3 doc] by auto
  have zero: "ns_break_count s = 0"
  proof -
    have "ns_break_count (form_boxes n cur x) = ns_break_count x" for n cur x
      by (induction n arbitrary: cur x) (simp_all add: new_box_def)
    moreover have "ns_break_count (fix_links bs x) = ns_break_count x" for bs x
      by (induction bs x rule: fix_links.induct) (simp_all add: set_contents_def)
    ultimately have "ns_break_count (n1_init doc 3) = 0" by (simp add: n1_init_def Let_def ns_start_def)
    then show ?thesis using s(1) by (auto simp: n2_init_def reinforce_outer_end_def new_box_def Let_def split: list.splits)
  qed
  let ?c = "\<lparr>nk_inner = 0, nk_outer = 0, nk_depths = {}\<rparr>"
  obtain c s1 where r: "nb2_loop inside 0 NUM_BREAKS ?c s = Inr (c, None, s1)" "chain_ok doc 4 s1" "ns_break_count s1 = 5000"
    "nk_inner c + nk_outer c = 5000" "nk_depths c = {4}"
    using nb2_loop_ok [OF s(2), of inside 0 NUM_BREAKS ?c] zero by (auto simp: NUM_BREAKS_def)
  have inner: "inner_bytes s1 = Inr doc" using r(2) by (simp add: inner_bytes_def innermost_def chain_ok_def)
  let ?r = "\<lparr>n2r_counts = c, n2r_failure = None, n2r_breaks = 5000, n2r_intact = True, n2r_matches = True, n2r_text = []\<rparr>"
  have "nb2_main E fs inside = map_res (\<lambda>t. ?r\<lparr>n2r_text := t\<rparr>) (decode_utf8 doc)"
    by (simp add: nb2_main_def assms s(1) r(1,3) chain_verify [OF r(2)] inner)
  then show ?thesis using r(4,5) by (intro exI [of _ c] exI [of _ ?r]) simp
qed

text \<open>A file of a megabyte divides evenly among its 32 ports: the prototype reads it back after any hops.\<close>

theorem ff_script_ok:
  assumes "length test_data = 1024 * 1024"
  shows "\<exists>r. ff_script h test_data hops1 hops2 hops3 = Inr r \<and> fr_ok r \<and> fr_hops r = hops1 + hops2 + hops3"
proof -
  obtain s pieces where s: "ff_init test_data 32 = Inr s" "ring_ok 32 pieces 0 s" "32 \<le> length pieces" "concat pieces = test_data"
    "\<And>k. concat (drop k pieces) = drop (k * ff_chunk_size test_data 32) test_data"
    "length pieces = max 32 (length (py_range 0 (length test_data) (ff_chunk_size test_data 32)))"
    using ff_init_ring [of 32 test_data] by auto
  have "length (py_range 0 (length test_data) (ff_chunk_size test_data 32)) \<le> 32"
    using assms by (simp add: length_py_range ff_chunk_size_def)
  then have len: "length pieces = 32" using s(6) by simp
  have started: "ring_ok 32 pieces 0 (ff_start s)" using s(2) by (simp add: ring_ok_def ff_start_def)
  let ?s2 = "(ff_hop ^^ (hops2 + hops1)) (ff_start s)"
  have "ring_ok 32 pieces 0 ?s2" using ring_hops [OF _ s(3) started, of "hops2 + hops1"] len by (simp split: if_splits)
  from ring_reconstruct [OF this] have rebuilt: "ff_reconstruct ?s2 = Inr test_data" using s(4) by simp
  have hops: "ff_hops ((ff_hop ^^ k) x) = ff_hops x + k" for k x by (induction k) (simp_all add: ff_hop_def)
  have zero: "ff_hops s = 0" using s(1) by (auto simp: ff_init_def Let_def split: if_splits)
  show ?thesis
    using rebuilt by (simp add: ff_script_def s(1) Let_def hops zero ff_stop_def ff_start_def flip: funpow_add [unfolded comp_def, THEN fun_cong])
qed

end
