(* ===== verification/FullPicture.thy ===== *)
theory FullPicture
  imports Trials
begin

text \<open>
  \<open>backup-original-source/vstorage/full_picture.py\<close>: its readers of \<open>/proc\<close>, and the program in C that splices a
  memory file into a pipe and drains it, over and over. How much a call of \<open>splice\<close> moves is the kernel's choice; a read
  gives what is in the pipe, up to what it asks for.
\<close>

section \<open>The readers\<close>

text \<open>\<open>k, v = line.split(":")\<close> and \<open>int(v.strip().split()[0]) / 1024.0\<close>.\<close>

definition sys_line :: "string \<Rightarrow> (string, rat) dict \<Rightarrow> (string, rat) dict res" where
  "sys_line line info =
     (case at_colon line of None \<Rightarrow> Inl ValueError
      | Some (k, v) \<Rightarrow>
          if at_colon v \<noteq> None then Inl ValueError
          else (case py_index (split_words (strip v)) 0 of Inl e \<Rightarrow> Inl e
            | Inr w \<Rightarrow> map_res (\<lambda>n. dict_set (strip k) (of_nat n / 1024) info) (parse_digits w)))"

definition sys_figures :: "(string, rat) dict \<Rightarrow> (rat \<times> rat \<times> rat) res" where
  "sys_figures info =
     (case of_option KeyError (dict_get info ''MemTotal'') of Inl e \<Rightarrow> Inl e | Inr tot \<Rightarrow>
      case of_option KeyError (dict_get info ''MemFree'') of Inl e \<Rightarrow> Inl e | Inr free \<Rightarrow>
      map_res (\<lambda>avail. (tot - avail, free, avail)) (of_option KeyError (dict_get info ''MemAvailable'')))"

definition system_mem :: "string list \<Rightarrow> (rat \<times> rat \<times> rat) res" where
  "system_mem ls = (case foldM sys_line ls [] of Inl e \<Rightarrow> Inl e | Inr info \<Rightarrow> sys_figures info)"

fun first_rss :: "string list \<Rightarrow> rat option res" where
  "first_rss [] = Inr None"
| "first_rss (line # rest) =
     (if starts_with ''VmRSS:'' line then map_res (\<lambda>n. Some (of_nat n / 1024)) (second_int line) else first_rss rest)"

definition proc_rss :: "string list option \<Rightarrow> rat option res" where
  "proc_rss status = (case status of None \<Rightarrow> Inr None | Some ls \<Rightarrow> first_rss ls)"

text \<open>The rows: the process and what the system uses more than before; without the process the layout raises.\<close>

fun picture_rows :: "rat \<Rightarrow> (string list option \<times> string list) list \<Rightarrow> (rat \<times> rat) list res" where
  "picture_rows base_used [] = Inr []"
| "picture_rows base_used ((status, meminfo) # samples) =
     (case proc_rss status of Inl e \<Rightarrow> Inl e | Inr rss \<Rightarrow>
      case system_mem meminfo of Inl e \<Rightarrow> Inl e | Inr (used, free, avail) \<Rightarrow>
      case of_option TypeError rss of Inl e \<Rightarrow> Inl e | Inr r \<Rightarrow>
      map_res (\<lambda>rows. (r, used - base_used) # rows) (picture_rows base_used samples))"

section \<open>The splice loop\<close>

definition SPLICE_CHUNK :: nat where
  "SPLICE_CHUNK = 1024 * 1024"

text \<open>\<open>pc_drained\<close> records what all the reads of a pass gave; the program throws it away.\<close>

record picture =
  pc_memfd :: bytes
  pc_off :: nat
  pc_moved :: nat
  pc_pipe :: bytes
  pc_tmp :: bytes
  pc_drained :: bytes

definition pc_pass_start :: "picture \<Rightarrow> picture" where
  "pc_pass_start s = s\<lparr>pc_off := 0, pc_moved := 0, pc_drained := []\<rparr>"

text \<open>A pipe of \<open>cap\<close> bytes: \<open>splice\<close> moves up to a chunk, as much as fits; 0 at the end of the file.\<close>

definition splice_amount :: "nat \<Rightarrow> picture \<Rightarrow> nat \<Rightarrow> bool" where
  "splice_amount cap s n \<longleftrightarrow> n \<le> SPLICE_CHUNK \<and> n \<le> cap - length (pc_pipe s) \<and> n \<le> length (pc_memfd s) - pc_off s \<and>
     (n = 0 \<longrightarrow> length (pc_memfd s) \<le> pc_off s)"

definition pc_turn :: "nat \<Rightarrow> picture \<Rightarrow> picture" where
  "pc_turn n s =
     (let pipe = pc_pipe s @ take n (drop (pc_off s) (pc_memfd s)); r = take n pipe
      in s\<lparr>pc_off := pc_off s + n, pc_pipe := drop n pipe, pc_tmp := r @ drop n (pc_tmp s), pc_drained := pc_drained s @ r, pc_moved := pc_moved s + n\<rparr>)"

text \<open>The turns of one pass, until all is moved or nothing could be.\<close>

inductive pc_pass :: "nat \<Rightarrow> nat \<Rightarrow> picture \<Rightarrow> picture \<Rightarrow> bool" for cap sz where
  all_moved: "sz \<le> pc_moved s \<Longrightarrow> pc_pass cap sz s s"
| broken: "pc_moved s < sz \<Longrightarrow> splice_amount cap s 0 \<Longrightarrow> pc_pass cap sz s s"
| moved_some: "pc_moved s < sz \<Longrightarrow> splice_amount cap s n \<Longrightarrow> 0 < n \<Longrightarrow> pc_pass cap sz (pc_turn n s) t \<Longrightarrow> pc_pass cap sz s t"

text \<open>What a pass keeps.\<close>

definition pc_ok :: "bytes \<Rightarrow> picture \<Rightarrow> bool" where
  "pc_ok file s \<longleftrightarrow> pc_memfd s = file \<and> pc_pipe s = [] \<and> pc_moved s = pc_off s \<and> pc_off s \<le> length file \<and>
     pc_drained s = take (pc_off s) file \<and> length (pc_tmp s) = SPLICE_CHUNK"

lemma pc_turn_ok: "pc_ok file s \<Longrightarrow> splice_amount cap s n \<Longrightarrow> pc_ok file (pc_turn n s)"
  by (auto simp: pc_ok_def pc_turn_def splice_amount_def Let_def take_add)

lemma pc_pass_ok: "pc_pass cap sz s t \<Longrightarrow> pc_ok file s \<Longrightarrow> sz = length file \<Longrightarrow> pc_ok file t \<and> pc_moved t = sz"
proof (induction rule: pc_pass.induct)
  case (moved_some s n t)
  then show ?case using pc_turn_ok by blast
qed (auto simp: pc_ok_def splice_amount_def)

text \<open>However much each call moves, a pass drains exactly the file, and leaves it in the memory file and the pipe empty.\<close>

theorem picture_pass_drains_file:
  assumes "pc_memfd s = file" "pc_pipe s = []" "length (pc_tmp s) = SPLICE_CHUNK" "pc_pass cap (length file) (pc_pass_start s) t"
  shows "pc_drained t = file \<and> pc_memfd t = file \<and> pc_pipe t = [] \<and> length (pc_tmp t) = SPLICE_CHUNK"
proof -
  have "pc_ok file (pc_pass_start s)" using assms(1-3) by (simp add: pc_ok_def pc_pass_start_def)
  then have "pc_ok file t \<and> pc_moved t = length file" using pc_pass_ok [OF assms(4)] by blast
  then show ?thesis by (auto simp: pc_ok_def)
qed

text \<open>And with a pipe that holds anything there is such a pass, of any sizes the kernel chooses.\<close>

theorem picture_pass_ends:
  assumes "pc_ok file s" "0 < cap"
  shows "\<exists>t. pc_pass cap (length file) s t"
  using assms(1)
proof (induction "length file - pc_off s" arbitrary: s rule: less_induct)
  case less
  show ?case
  proof (cases "pc_moved s < length file")
    case True
    have "splice_amount cap s 1" using True less.prems assms(2) by (auto simp: splice_amount_def pc_ok_def SPLICE_CHUNK_def)
    moreover from this have "pc_ok file (pc_turn 1 s)" by (rule pc_turn_ok [OF less.prems])
    moreover have "length file - pc_off (pc_turn 1 s) < length file - pc_off s"
      using True less.prems by (auto simp: pc_turn_def pc_ok_def Let_def)
    ultimately obtain t where "pc_pass cap (length file) (pc_turn 1 s) t" using less.hyps by blast
    then show ?thesis using True \<open>splice_amount cap s 1\<close> by (auto intro: moved_some)
  next
    case False
    then have "pc_pass cap (length file) s s" by (intro all_moved) simp
    then show ?thesis ..
  qed
qed

end
