(* ===== verification/TamperThread.thy ===== *)
theory TamperThread
  imports Watchdog
begin

text \<open>
  The whole life of the thread of \<open>vstorage/tamper_watchdog.py\<close>, which reads the status file of its own process
  until it is stopped or sees a tracer; one of its turns is in \<open>Watchdog\<close>.
\<close>

section \<open>Its steps\<close>

definition own_tracer_pid :: "string list \<Rightarrow> int res" where
  "own_tracer_pid lines = find_tracer lines"

definition tw_new :: tamper where
  "tw_new = \<lparr>tw_stop = False, tw_triggered = False\<rparr>"

definition tw_request_stop :: "tamper \<Rightarrow> tamper" where
  "tw_request_stop s = s\<lparr>tw_stop := True\<rparr>"

text \<open>What happens to it: its thread reads the status file, or \<open>stop\<close> is called. An exception ends the thread.\<close>

datatype tw_event = Reads "string list" | Stops

definition tw_read :: "('w \<Rightarrow> 'w) \<Rightarrow> string list \<Rightarrow> tamper \<Rightarrow> 'w \<Rightarrow> bool \<times> tamper \<times> 'w" where
  "tw_read on_tamper lines s w =
     (if tw_stop s then (True, s, w)
      else (case own_tracer_pid lines of Inl _ \<Rightarrow> (True, s, w) | Inr tp \<Rightarrow> tamper_turn (nat tp) on_tamper s w))"

fun tw_run :: "('w \<Rightarrow> 'w) \<Rightarrow> tw_event list \<Rightarrow> bool \<times> tamper \<times> 'w \<Rightarrow> bool \<times> tamper \<times> 'w" where
  "tw_run on_tamper [] x = x"
| "tw_run on_tamper (Stops # es) (ended, s, w) = tw_run on_tamper es (ended, tw_request_stop s, w)"
| "tw_run on_tamper (Reads lines # es) (ended, s, w) =
     tw_run on_tamper es (if ended then (True, s, w) else tw_read on_tamper lines s w)"

section \<open>What it does\<close>

lemma tw_run_ended: "fst (tw_run f es (True, s, w)) \<and> snd (snd (tw_run f es (True, s, w))) = w \<and>
    tw_triggered (fst (snd (tw_run f es (True, s, w)))) = tw_triggered s"
  by (induction f es "(True, s, w)" arbitrary: s rule: tw_run.induct) (simp_all add: tw_request_stop_def)

lemma tw_run_stopped:
  "tw_stop s \<Longrightarrow> snd (snd (tw_run f es (b, s, w))) = w \<and> tw_triggered (fst (snd (tw_run f es (b, s, w)))) = tw_triggered s"
proof (induction es arbitrary: b s)
  case (Cons e es)
  then show ?case
    using tw_run_ended [of f es s w] by (cases e) (simp_all add: tw_request_stop_def tw_read_def)
qed simp

text \<open>
  The thread acts once: on the first reading with a tracer before the stop, and then never again; without one it never acts.
\<close>

definition sees_tracer :: "tw_event \<Rightarrow> bool" where
  "sees_tracer e = (case e of Stops \<Rightarrow> False | Reads lines \<Rightarrow> (case own_tracer_pid lines of Inl _ \<Rightarrow> False | Inr tp \<Rightarrow> 0 < tp))"

theorem tamper_acts_once:
  assumes "\<forall>e \<in> set es. \<forall>lines. e = Reads lines \<longrightarrow> (\<exists>tp. own_tracer_pid lines = Inr tp)"
  shows "(let (ended, s, w') = tw_run f es (False, tw_new, w); acts = (\<exists>e \<in> set (takeWhile (\<lambda>e. e \<noteq> Stops) es). sees_tracer e)
    in tw_triggered s = acts \<and> w' = (if acts then f w else w))"
  using assms
proof (induction es)
  case Nil
  then show ?case by (simp add: tw_new_def)
next
  case (Cons e es)
  show ?case
  proof (cases e)
    case Stops
    then show ?thesis
      using tw_run_stopped [of "tw_request_stop tw_new" f es False w] by (simp add: tw_request_stop_def tw_new_def split_def Let_def)
  next
    case (Reads lines)
    then obtain tp where tp: "own_tracer_pid lines = Inr tp" using Cons.prems by auto
    show ?thesis
    proof (cases "0 < tp")
      case True
      then show ?thesis
        using Reads tp tw_run_ended [of f es "tw_new\<lparr>tw_triggered := True\<rparr>" "f w"]
        by (simp add: tw_read_def tamper_turn_def sees_tracer_def tw_new_def split_def Let_def)
    next
      case False
      then show ?thesis
        using Reads tp Cons by (simp add: tw_read_def tamper_turn_def sees_tracer_def tw_new_def split_def Let_def)
    qed
  qed
qed

end
