(* ===== verification/Spec2Isabelle.thy ===== *)
theory Spec2Isabelle
  imports PackedStorage SupersededBoxes EncryptedBoxes SecretsStore Shamir SecureRetrieval Sharing Splice Wire
    FallingFile NestedChain FirstStores XorShares
    SelfHealing Measure HolderServer CellPool Attacker MultifileRun Motion Demo
    Fairness FallPool FlowPrograms Scripts FullPicture TamperThread
begin

text \<open>
  A model of the storage library under \<open>src/virtual-memory/vstorage\<close>: files kept in memory in
  compressed and encrypted pieces that are moved between buffers all the time, watched by a process that
  wipes them when a tracer attaches, under keys that may depend on a group of other processes.

  \<^bold>\<open>How the program is put together, and which theory models which part.\<close>

  \<^item> \<open>Prelude\<close>: bytes (\<open>8 word\<close>), the exceptions the program raises (\<open>pyerr\<close>), results
    (\<open>'a res\<close>: \<open>Inl\<close> an exception, \<open>Inr\<close> a value), Python's slices, slice assignment,
    ranges, ordered dictionaries, and the contract \<open>falling\<close> of a box: some operations move the data,
    none of them changes what a reader gets. \<open>Countdown\<close>: the contract of step relations whose runs end.
  \<^item> \<open>Environment\<close>: the record \<open>env\<close> of the code that is not in the repository (AES-GCM, LZMA, SHA-256,
    the PDF and zip readers) and the documented behaviour relied on (\<open>env_ok\<close>); \<open>demo_env\<close> satisfies it.
    \<open>Mmap\<close>: memory mappings that raise once closed.
  \<^item> Plain boxes. \<open>FallingBox\<close> (\<open>falling_box.py\<close>): whole turns of the mover, and \<open>fb_micro\<close>, the same
    program in atomic steps of two threads that share the lock. \<open>PackedBox\<close> (\<open>packed_box.py\<close>): many
    files in one buffer. \<open>SupersededBoxes\<close> (\<open>nbox_falling.py\<close>, \<open>zeroing_falling.py\<close>,
    \<open>secure_falling_box.py\<close>), \<open>EncryptedBoxes\<close> (\<open>encrypted_falling_box.py\<close>,
    \<open>combined_secure_box.py\<close>).
  \<^item> Plain stores. \<open>Splitter\<close> (\<open>splitter.py\<close>), \<open>FileStore\<close> (the contract \<open>file_store\<close>),
    \<open>VirtualStorage\<close> (\<open>system.py\<close>), \<open>PackedStorage\<close> (\<open>packed_system.py\<close>); \<open>SecretsStore\<close>
    (\<open>secrets_api.py\<close>) and \<open>Demo\<close> (\<open>demo.py\<close>) are clients of the first.
  \<^item> Keys in motion. \<open>SplitKeyGuard\<close> (\<open>split_key_guard.py\<close>): the key in cells of two pages each;
    \<open>Scheduler\<close>: the heap, the registrations and the workers of both global pools, interleaved in
    \<open>sched_step\<close>; \<open>Fairness\<close>: how long an entry can wait; \<open>CellPool\<close>: the pool of the cells at work on the
    guards themselves; \<open>ChunkedBox\<close> (\<open>chunked_secure_box.py\<close>): pools, chunks, the hop that re-encrypts one chunk, the rotation of keys, streaming and death.
  \<^item> Distributed trust. \<open>Interpolation\<close> and \<open>GF256\<close> are the algebra, \<open>Shamir\<close> (\<open>shamir.py\<close>) the
    secret sharing, \<open>TrustGroup\<close> the two groups of holders (\<open>distributed_key.py\<close>,
    \<open>network_trust.py\<close>) behind the contract \<open>trust_group\<close>. \<open>HolderServer\<close>
    (\<open>holder_server.py\<close>): the start of a holder from its configuration line, the files of its certificate, the
    loop over connections, and the start of the whole group by \<open>network_trust.py\<close>.
  \<^item> \<open>Watchdog\<close> (\<open>process_watchdog.py\<close>, \<open>tamper_watchdog.py\<close>): the shared table of regions in 64-bit
    words, the turn that wipes them, reading \<open>TracerPid\<close>. \<open>TamperThread\<close>: the whole life of the thread of
    \<open>tamper_watchdog.py\<close>.
  \<^item> \<open>SecureSystem\<close> and \<open>SecureRetrieval\<close> (\<open>secure_system.py\<close>): the store that puts these together.
    It splits a file, builds a chunked box per piece, registers it with the scheduler and its guards with
    the watchdog, and hands files out plainly, encrypted under a transit key, or against a token.
    \<open>StoreTypes\<close>: its interface as one datatype of calls, the exceptions each may raise, and well-formed
    states. \<open>Capacity\<close>: how much of the watchdog's table its files take. \<open>FallPool\<close>: any number of threads that save,
    retrieve and forget while the workers of the pool of boxes (\<open>_GlobalFallScheduler\<close>) let the boxes fall, as one step
    relation, \<open>fp_step\<close>, that simulates \<open>sched_step\<close> of \<open>Scheduler\<close> and gives each reader what \<open>SecureSystem\<close> gives.
  \<^item> Programs on the secure store. \<open>MultifileRun\<close> (\<open>_ultimate_multifile_child.py\<close>): a run that saves many
    files, takes one out and in again and checks them all. \<open>Attacker\<close>
    (\<open>_ultimate_multifile_attacker.py\<close>): the scan of another process's memory.
  \<^item> Between processes. \<open>Sharing\<close> (\<open>sharing.py\<close>, \<open>sharing_tracked.py\<close>) and \<open>Splice\<close>
    (\<open>splice_stealth.py\<close>, with the measurement of the flow
    through two pipes): step relations over pipes of bounded capacity.
  \<^item> The lines on the wire. \<open>Json\<close> is the part of Python's \<open>json\<close> module the program uses, with UTF-8;
    \<open>Wire\<close> prints, cuts and parses the lines between \<open>network_trust.py\<close> and \<open>holder_server.py\<close> and shows
    that they carry the exchanges of \<open>TrustGroup\<close>.
  \<^item> \<open>SelfHealing\<close> (\<open>self_healing.py\<close>), \<open>Measure\<close> (\<open>measure.py\<close>, \<open>measure_full.py\<close>) and
    \<open>LayerStreaming\<close> (\<open>layer_streaming.py\<close>: quantisation in 32-bit floats, with their rounding written out).
  \<^item> The first versions, under \<open>backup-original-source/vstorage\<close>. \<open>FallingFile\<close> (\<open>falling_storage.py\<close>,
    \<open>perpetual_fall.py\<close>), \<open>NestedChain\<close> (\<open>nested_boxes.py\<close>, \<open>nested_boxes_v2.py\<close>: objects in an
    explicit store), \<open>FirstStores\<close> (\<open>general_splitter.py\<close>, \<open>combined_full_system.py\<close>,
    \<open>virtual_storage_system.py\<close>) and \<open>XorShares\<close> (\<open>combined_experiment.py\<close>, \<open>big_file_experiment.py\<close>,
    \<open>big_file_experiment_v2.py\<close>, \<open>lean_motion_experiment.py\<close>), whose
    scripts, with \<open>gb_under_50mb.py\<close>, are in \<open>Motion\<close>. \<open>Scripts\<close>: the scripts at the end of the first stores, on
    these models. \<open>FlowPrograms\<close>: the programs in C that scripts write out and compile (\<open>box_relay.py\<close>,
    \<open>generate_on_demand.py\<close>, \<open>real_data_box.py\<close>, \<open>breaking_boxes.py\<close>, \<open>compress_plus_boxes.py\<close>,
    \<open>raw_fall_test.py\<close>, \<open>nested_boxes_real.py\<close>, \<open>retrievable_test.py\<close>, \<open>xor_test.py\<close>); \<open>FullPicture\<close> that of \<open>full_picture.py\<close>, with the readers. \<open>Trials\<close>: the scripts that
    compress, expand and measure (\<open>breakdown_test.py\<close>, \<open>diverse_test.py\<close>, \<open>medical_test.py\<close>, \<open>pdf_split_test.py\<close>,
    \<open>unstructured_pdf_test.py\<close>, \<open>full_model_system.py\<close>, \<open>full_measurements.py\<close>, and with another process \<open>measure.py\<close>,
    \<open>measured_system.py\<close>, \<open>onegig_box_test.py\<close>, \<open>multi_machine_sim.py\<close>, \<open>disappear_timing.py\<close>,
    \<open>extreme_pipe_experiment.py\<close>).

  \<^bold>\<open>State and effects.\<close> A class is a record whose fields are its attributes, a method a function from the
  record (and its arguments) to a result and the next record; an exception is \<open>Inl\<close> together with the state
  at the raise, so what was already changed stays changed. A thread that loops is a function for one turn;
  properties quantify over every sequence of turns and calls, and where the lock matters the turn is cut
  into atomic steps. A loop that waits for another process gives \<open>None\<close> when it waits for ever. What the operating system or a random source decides is an argument: keys, nonces,
  random coefficients, ids, tokens, addresses, clock readings, the sizes a pipe moves, which input or
  output operation fails.

  \<^bold>\<open>What the lemmas show.\<close> Boxes and stores: an invariant (\<open>fb_ok\<close>, \<open>pb_ok\<close>, \<open>cb_ok\<close>,
  \<open>vs_ok\<close>, \<open>sv_ok\<close>) kept by every operation, the data unchanged by motion, round trips of save and
  retrieve, and what is left after death. The secrets store and the packed box refine abstract maps.
  Secret sharing: reconstruction from any k shares, and k - 1 shares fit every secret equally. Trust
  groups: a fetch that returns gives the secret; the main process dies exactly at the threshold.
  Scheduler: nothing lost, earliest first, no entry
  overtaken for ever. Watchdog: every registered region is wiped by the first
  turn that sees a tracer. Ways out of the secure store: the key leaves after the file is durable, wrapped
  files decrypt, tokens work once and in time. The interface of the secure store is type safe: in every run a call
  raises only what is declared for it, and then changes no file; saves succeed as long as the sum of their needs
  fits in the watchdog's table, and the run over many files reports the truth. Holders: a start leaves one per
  share, or the exception and its remains; strangers learn nothing. Streamed layers: how far a weight can move. The
  scan: what it finds and what it passes over. Pipes: nothing lost, every run ends. JSON: what is printed is
  read back, from bytes cut in any way. XOR shares: a one-time pad. Nested boxes: the links between live
  objects survive every break. The store in its pool: each file held is retrieved as it was saved, its boxes are in the
  pool once, and a rotation in the middle of a save can make it raise. Several theorems state
  behaviour the code probably does not intend: a save by path that always raises, a rotation that stops a
  box for good, a table slot that forgets the guard in use, a key update whose failure loses the data, a
  ring of ports that loses the first piece of a file of uneven length.

  \<^bold>\<open>Bounds.\<close> The only functions on fuel are \<open>retrying\<close>, whose number of attempts is part of the
  claim, and the JSON parser, which is given the length of its text and reads a character per
  unit (\<open>loads_dumps\<close> shows that it is enough); \<open>ulp_of\<close> counts through the exponents of a floating-point format. Sizes are natural numbers; a chunk is shorter than 2 to the 30 bytes and a frame length is four
  bytes, so lengths below 2 to the 32 are what wrapped files can carry. Times are rationals where the code has floats; only \<open>LayerStreaming\<close> rounds, as the 32-bit and 64-bit formats do. Python strings are lists of
  Latin-1 characters.

  \<^bold>\<open>Not modelled.\<close> The effects of \<open>mlock\<close>, \<open>madvise\<close>, \<open>prctl\<close> and \<open>malloc_trim\<close> are those of the
  kernel and change no state the program reads. What TLS and sockets answer is an argument, and so is the certificate
  that \<open>network_trust.py\<close> has made; a JSON line in another encoding than UTF-8 counts as unreadable. The thread that
  samples \<open>/proc/meminfo\<close> in \<open>splice_stealth.py\<close> is an argument. The times and figures of memory that scripts only
  print are left out, and so is the layout of what they print; the sample files that some of them make (a PDF, a map)
  are arguments.
  The tests call the code above and have no logic of their own.
\<close>

end
